(* ===== verification/Prelude.thy ===== *)
theory Prelude
  imports Main "HOL-Library.Word" "HOL-Library.Signed_Division"
begin

text \<open>
  Shared vocabulary of the development.

  \<^item> \<open>fault\<close>: every way in which a C++ function of the simulator fails to return a value.
  \<^item> \<open>('s, 'a) M\<close>: functions with state; a fault keeps the state it was raised in, as a C++
    exception does.
  \<^item> \<open>valid\<close>: total triples over such functions, with a postcondition for the normal return
    and one for the fault; the collection \<open>hoare\<close> holds their rules.
  \<^item> little-endian byte encodings of words, as the host memory holds them.
\<close>

unbundle bit_operations_syntax

type_synonym u8 = "8 word"
type_synonym u16 = "16 word"
type_synonym u32 = "32 word"
type_synonym u64 = "64 word"

section \<open>Faults\<close>

text \<open>
  \<open>Throw\<close> is \<open>throw SimException(msg)\<close>, \<open>StdThrow\<close> an exception of the standard library,
  \<open>AssertFail\<close> a failed \<open>assert\<close>, \<open>Undefined\<close> an operation the C++ standard leaves undefined,
  and \<open>OutOfFuel\<close> no behaviour of the program: a loop of the model used up its fuel.
\<close>

datatype ub = OutOfBounds | EmptyBack | DanglingIterator | UseAfterFree | NullCall

datatype fuelled = FetchLoop | ExecuteLoop | InsertLoop | PoolLoop

datatype fault =
    Throw string
  | StdThrow string
  | AssertFail
  | Undefined ub
  | OutOfFuel fuelled

fun is_Throw :: "fault \<Rightarrow> bool" where
  "is_Throw (Throw _) = True"
| "is_Throw _ = False"

lemma is_Throw_iff: "is_Throw e \<longleftrightarrow> (\<exists>m. e = Throw m)"
  by (cases e) auto

text \<open>
  The exceptions of the simulator: a \<^verbatim>\<open>SimException\<close>, or the \<^verbatim>\<open>std::overflow_error\<close> of the hash map.
\<close>

abbreviation overflow :: fault where
  "overflow \<equiv> StdThrow ''robin_hood::map overflow''"

definition is_exception :: "fault \<Rightarrow> bool" where
  "is_exception e \<longleftrightarrow> is_Throw e \<or> e = overflow"

lemma is_exception_simps [simp]:
  "is_exception (Throw m)" "is_exception overflow" "\<not> is_exception AssertFail"
  "\<not> is_exception (Undefined u)" "\<not> is_exception (OutOfFuel f)"
  by (simp_all add: is_exception_def)

lemma Throw_exception: "is_Throw e \<Longrightarrow> is_exception e"
  by (simp add: is_exception_def)

section \<open>Results without state\<close>

fun rbind :: "'e + 'a \<Rightarrow> ('a \<Rightarrow> 'e + 'b) \<Rightarrow> 'e + 'b" where
  "rbind (Inl e) f = Inl e"
| "rbind (Inr a) f = f a"

definition cpp_assert :: "bool \<Rightarrow> fault + unit" where
  "cpp_assert b = (if b then Inr () else Inl AssertFail)"

lemma cpp_assert_True [simp]: "cpp_assert True = Inr ()"
  by (simp add: cpp_assert_def)

lemma cpp_assert_False [simp]: "cpp_assert False = Inl AssertFail"
  by (simp add: cpp_assert_def)

lemma rbind_Inr_iff: "rbind m f = Inr b \<longleftrightarrow> (\<exists>a. m = Inr a \<and> f a = Inr b)"
  by (cases m) auto

lemma rbind_cong [fundef_cong]:
  "m = m' \<Longrightarrow> (\<And>a. m' = Inr a \<Longrightarrow> f a = f' a) \<Longrightarrow> rbind m f = rbind m' f'"
  by (cases m') auto

text \<open>Indexing an array or vector: an index out of range is undefined behaviour.\<close>

definition at_index :: "'a list \<Rightarrow> nat \<Rightarrow> fault + 'a" where
  "at_index xs i = (if i < length xs then Inr (xs ! i) else Inl (Undefined OutOfBounds))"

definition set_index :: "'a list \<Rightarrow> nat \<Rightarrow> 'a \<Rightarrow> fault + 'a list" where
  "set_index xs i x = (if i < length xs then Inr (xs[i := x]) else Inl (Undefined OutOfBounds))"

lemma at_index_in [simp]: "i < length xs \<Longrightarrow> at_index xs i = Inr (xs ! i)"
  by (simp add: at_index_def)

lemma set_index_in [simp]: "i < length xs \<Longrightarrow> set_index xs i x = Inr (xs[i := x])"
  by (simp add: set_index_def)

text \<open>A counted loop whose body may fail.\<close>

fun foldM :: "('i \<Rightarrow> 'a \<Rightarrow> 'e + 'a) \<Rightarrow> 'i list \<Rightarrow> 'a \<Rightarrow> 'e + 'a" where
  "foldM f [] a = Inr a"
| "foldM f (i # is) a = rbind (f i a) (foldM f is)"

section \<open>Results with state\<close>

type_synonym ('s, 'a) M = "'s \<Rightarrow> (fault + 'a) \<times> 's"

definition ret :: "'a \<Rightarrow> ('s, 'a) M" where
  "ret a s = (Inr a, s)"

definition raise :: "fault \<Rightarrow> ('s, 'a) M" where
  "raise e s = (Inl e, s)"

definition lift :: "fault + 'a \<Rightarrow> ('s, 'a) M" where
  "lift r s = (r, s)"

definition gets :: "('s \<Rightarrow> 'a) \<Rightarrow> ('s, 'a) M" where
  "gets f s = (Inr (f s), s)"

definition modify :: "('s \<Rightarrow> 's) \<Rightarrow> ('s, unit) M" where
  "modify f s = (Inr (), f s)"

definition bnd :: "('s, 'a) M \<Rightarrow> ('a \<Rightarrow> ('s, 'b) M) \<Rightarrow> ('s, 'b) M" where
  "bnd m f s = (case m s of (Inl e, s') \<Rightarrow> (Inl e, s') | (Inr a, s') \<Rightarrow> f a s')"

lemma ret_apply [simp]: "ret a s = (Inr a, s)"
  by (simp add: ret_def)

lemma raise_apply [simp]: "raise e s = (Inl e, s)"
  by (simp add: raise_def)

lemma lift_apply [simp]: "lift r s = (r, s)"
  by (simp add: lift_def)

lemma gets_apply [simp]: "gets f s = (Inr (f s), s)"
  by (simp add: gets_def)

lemma modify_apply [simp]: "modify f s = (Inr (), f s)"
  by (simp add: modify_def)

lemma bnd_Inr: "m s = (Inr a, s') \<Longrightarrow> bnd m f s = f a s'"
  by (simp add: bnd_def)

lemma bnd_Inl: "m s = (Inl e, s') \<Longrightarrow> bnd m f s = (Inl e, s')"
  by (simp add: bnd_def)

lemma bnd_ret [simp]: "bnd (ret a) f s = f a s"
  by (simp add: bnd_def)

lemma bnd_gets [simp]: "bnd (gets g) f s = f (g s) s"
  by (simp add: bnd_def)

lemma bnd_modify [simp]: "bnd (modify g) f s = f () (g s)"
  by (simp add: bnd_def)

lemma bnd_raise [simp]: "bnd (raise e) f s = (Inl e, s)"
  by (simp add: bnd_def)

lemma bnd_lift_Inr [simp]: "bnd (lift (Inr a)) f s = f a s"
  by (simp add: bnd_def)

lemma bnd_lift_Inl [simp]: "bnd (lift (Inl e)) f s = (Inl e, s)"
  by (simp add: bnd_def)

section \<open>Triples\<close>

named_theorems hoare \<open>rules for triples over functions with state\<close>

definition valid ::
  "('s \<Rightarrow> bool) \<Rightarrow> ('s, 'a) M \<Rightarrow> ('a \<Rightarrow> 's \<Rightarrow> bool) \<Rightarrow> (fault \<Rightarrow> 's \<Rightarrow> bool) \<Rightarrow> bool"
where
  "valid P m Q E \<longleftrightarrow>
     (\<forall>s. P s \<longrightarrow> (case m s of (Inl e, s') \<Rightarrow> E e s' | (Inr a, s') \<Rightarrow> Q a s'))"

lemma validI:
  assumes "\<And>s a s'. P s \<Longrightarrow> m s = (Inr a, s') \<Longrightarrow> Q a s'"
    and "\<And>s e s'. P s \<Longrightarrow> m s = (Inl e, s') \<Longrightarrow> E e s'"
  shows "valid P m Q E"
  using assms by (auto simp: valid_def split: prod.splits sum.splits)

lemma validD:
  assumes "valid P m Q E" and "P s"
  shows "m s = (Inr a, s') \<Longrightarrow> Q a s'" and "m s = (Inl e, s') \<Longrightarrow> E e s'"
  using assms by (auto simp: valid_def dest!: spec [of _ s])

lemma valid_weaken:
  assumes "valid P m Q E" and "\<And>s. P' s \<Longrightarrow> P s"
    and "\<And>a s. Q a s \<Longrightarrow> Q' a s" and "\<And>e s. E e s \<Longrightarrow> E' e s"
  shows "valid P' m Q' E'"
  using assms by (fastforce simp: valid_def split: prod.splits sum.splits)

lemma valid_bnd:
  assumes "valid P m R E" and "\<And>a. valid (R a) (f a) Q E"
  shows "valid P (bnd m f) Q E"
proof (rule validI)
  fix s b s' assume "P s" and eq: "bnd m f s = (Inr b, s')"
  then obtain a s1 where "m s = (Inr a, s1)" "f a s1 = (Inr b, s')"
    by (auto simp: bnd_def split: prod.splits sum.splits)
  with \<open>P s\<close> show "Q b s'" using assms by (metis validD(1))
next
  fix s e s' assume "P s" and "bnd m f s = (Inl e, s')"
  then consider "m s = (Inl e, s')" | a s1 where "m s = (Inr a, s1)" "f a s1 = (Inl e, s')"
    by (auto simp: bnd_def split: prod.splits sum.splits)
  then show "E e s'"
    using \<open>P s\<close> assms by cases (metis validD)+
qed

lemma valid_ret: "(\<And>s. P s \<Longrightarrow> Q a s) \<Longrightarrow> valid P (ret a) Q E"
  by (simp add: valid_def)

lemma valid_raise: "(\<And>s. P s \<Longrightarrow> E e s) \<Longrightarrow> valid P (raise e) Q E"
  by (simp add: valid_def)

lemma valid_gets: "(\<And>s. P s \<Longrightarrow> Q (f s) s) \<Longrightarrow> valid P (gets f) Q E"
  by (simp add: valid_def)

lemma valid_modify: "(\<And>s. P s \<Longrightarrow> Q () (f s)) \<Longrightarrow> valid P (modify f) Q E"
  by (simp add: valid_def)

lemma valid_lift_Inr: "(\<And>s. P s \<Longrightarrow> Q a s) \<Longrightarrow> valid P (lift (Inr a)) Q E"
  by (simp add: valid_def)

lemma valid_if:
  "(b \<Longrightarrow> valid P m Q E) \<Longrightarrow> (\<not> b \<Longrightarrow> valid P n Q E) \<Longrightarrow> valid P (if b then m else n) Q E"
  by simp

lemma valid_conj:
  "valid P m Q E \<Longrightarrow> valid P m Q' E' \<Longrightarrow> valid P m (\<lambda>a s. Q a s \<and> Q' a s) (\<lambda>e s. E e s \<and> E' e s)"
  by (auto simp: valid_def split: prod.splits sum.splits)

text \<open>
  \<open>safe I m\<close>: from a state that satisfies the invariant \<open>I\<close> the function \<open>m\<close> returns normally to
  such a state or throws a \<^verbatim>\<open>SimException\<close>; it never runs into undefined behaviour, a failed
  assertion or a missing iteration of a loop.
\<close>

definition safe :: "('s \<Rightarrow> bool) \<Rightarrow> ('s, 'a) M \<Rightarrow> bool" where
  "safe I m \<longleftrightarrow> valid I m (\<lambda>_. I) (\<lambda>e _. is_exception e)"

lemma safe_bnd [hoare]: "safe I m \<Longrightarrow> (\<And>a. safe I (f a)) \<Longrightarrow> safe I (bnd m f)"
  unfolding safe_def by (rule valid_bnd)

lemma safe_ret [hoare]: "safe I (ret a)"
  by (simp add: safe_def valid_def)

lemma safe_gets [hoare]: "safe I (gets f)"
  by (simp add: safe_def valid_def)

lemma safe_throw [hoare]: "safe I (raise (Throw msg))"
  by (simp add: safe_def valid_def)

lemma safe_modify [hoare]: "(\<And>s. I s \<Longrightarrow> I (f s)) \<Longrightarrow> safe I (modify f)"
  by (simp add: safe_def valid_def)

lemma safe_if [hoare]: "(b \<Longrightarrow> safe I m) \<Longrightarrow> (\<not> b \<Longrightarrow> safe I n) \<Longrightarrow> safe I (if b then m else n)"
  by simp

lemma safe_lift [hoare]: "r = Inr a \<Longrightarrow> safe I (lift r)"
  by (simp add: safe_def valid_def)

lemma safeD:
  assumes "safe I m" and "I s"
  shows "m s = (Inr a, s') \<Longrightarrow> I s'" and "m s = (Inl e, s') \<Longrightarrow> is_exception e"
  using assms unfolding safe_def by (auto dest: validD)

section \<open>What a function may change\<close>

text \<open>
  \<open>frames R m\<close>: the state that \<open>m\<close> leaves behind, returning or raising a fault, is related by \<open>R\<close>
  to the state it started in. For a reflexive and transitive relation this composes.
\<close>

definition frames :: "('s \<Rightarrow> 's \<Rightarrow> bool) \<Rightarrow> ('s, 'a) M \<Rightarrow> bool" where
  "frames R m \<longleftrightarrow> (\<forall>s. R s (snd (m s)))"

lemma framesD: "frames R m \<Longrightarrow> m s = (r, s') \<Longrightarrow> R s s'"
  by (metis frames_def snd_conv)

lemma framesI: "(\<And>s r s'. m s = (r, s') \<Longrightarrow> R s s') \<Longrightarrow> frames R m"
  by (simp add: frames_def prod_eq_iff)

lemma frames_weaken: "frames R m \<Longrightarrow> (\<And>s s'. R s s' \<Longrightarrow> R' s s') \<Longrightarrow> frames R' m"
  by (simp add: frames_def)

locale step_relation =
  fixes R :: "'s \<Rightarrow> 's \<Rightarrow> bool"
  assumes rel_refl: "R s s"
    and rel_trans: "R s t \<Longrightarrow> R t u \<Longrightarrow> R s u"
begin

lemma frames_ret: "frames R (ret a)"
  by (simp add: frames_def rel_refl)

lemma frames_gets: "frames R (gets f)"
  by (simp add: frames_def rel_refl)

lemma frames_raise: "frames R (raise e)"
  by (simp add: frames_def rel_refl)

lemma frames_lift: "frames R (lift r)"
  by (simp add: frames_def rel_refl)

lemma frames_modify: "(\<And>s. R s (f s)) \<Longrightarrow> frames R (modify f)"
  by (simp add: frames_def)

lemma frames_if: "frames R m \<Longrightarrow> frames R n \<Longrightarrow> frames R (if b then m else n)"
  by simp

lemma frames_bnd:
  assumes m: "frames R m" and f: "\<And>a. frames R (f a)"
  shows "frames R (bnd m f)"
proof (rule framesI)
  fix s r s' assume eq: "bnd m f s = (r, s')"
  obtain q t where mt: "m s = (q, t)" by (cases "m s")
  show "R s s'"
  proof (cases q)
    case (Inl e)
    with eq mt framesD [OF m mt] show ?thesis by (simp add: bnd_Inl)
  next
    case (Inr a)
    with eq mt have "f a t = (r, s')" by (simp add: bnd_Inr)
    with framesD [OF m mt] framesD [OF f] show ?thesis by (blast intro: rel_trans)
  qed
qed

lemmas frames_rules = frames_ret frames_gets frames_raise frames_lift frames_if frames_bnd

end

section \<open>Widening\<close>

lemma unat_ucast_up:
  assumes "LENGTH('a::len) \<le> LENGTH('b::len)"
  shows "unat (ucast (x :: 'a word) :: 'b word) = unat x"
proof -
  have "unat x < 2 ^ LENGTH('a)" by (rule unsigned_less)
  also have "\<dots> \<le> 2 ^ LENGTH('b)" using assms by simp
  finally show ?thesis
    by (simp add: unsigned_ucast_eq take_bit_nat_eq_self)
qed

lemma ucast_less_exp:
  "LENGTH('a::len) \<le> LENGTH('b::len) \<Longrightarrow> unat (ucast (x :: 'a word) :: 'b word) < 2 ^ LENGTH('a)"
  by (simp only: unat_ucast_up unsigned_less)

section \<open>Little-endian bytes\<close>

text \<open>The bytes of an object in the host memory, least significant first.\<close>

fun le_join :: "u8 list \<Rightarrow> 'a::len word" where
  "le_join [] = 0"
| "le_join (b # bs) = ucast b OR push_bit 8 (le_join bs)"

fun le_split :: "nat \<Rightarrow> 'a::len word \<Rightarrow> u8 list" where
  "le_split 0 w = []"
| "le_split (Suc n) w = ucast w # le_split n (drop_bit 8 w)"

lemma length_le_split [simp]: "length (le_split n w) = n"
  by (induction n arbitrary: w) auto

lemma bit_le_join_split:
  "bit (le_join (le_split n w) :: 'a::len word) k \<longleftrightarrow> k < 8 * n \<and> bit (w :: 'a word) k"
proof (induction n arbitrary: w k)
  case 0
  then show ?case by simp
next
  case (Suc n)
  show ?case
    by (cases "k < 8")
      (auto simp: bit_simps Suc.IH dest: bit_imp_le_length)
qed

lemma le_join_split [simp]:
  "LENGTH('a) \<le> 8 * n \<Longrightarrow> le_join (le_split n w) = (w :: 'a::len word)"
  by (rule bit_word_eqI) (simp add: bit_le_join_split)

text \<open>The high half of a 64-bit product, for any integer that wraps into 64 bits.\<close>

lemma high_word_of_int:
  "(ucast (drop_bit 32 (word_of_int x :: u64)) :: u32) = word_of_int (x div 2 ^ 32)"
proof (rule bit_word_eqI)
  fix n :: nat assume n: "n < LENGTH(32)"
  have "x div 2 ^ 32 = drop_bit 32 x"
    by (simp only: drop_bit_eq_div)
  with n show "bit (ucast (drop_bit 32 (word_of_int x :: u64)) :: u32) n =
    bit (word_of_int (x div 2 ^ 32) :: u32) n"
    by (simp only:) (simp add: bit_simps bit_word_of_int_iff)
qed

end
