(* ===== verification/Isa_Desc.thy ===== *)
theory Isa_Desc
  imports Prelude
begin

text \<open>
  The instruction set description: \<^verbatim>\<open>src/sim/isa_desc.h\<close> and \<^verbatim>\<open>src/sim/isa_desc.cpp\<close>.

  The enums are datatypes whose constructors carry the enum's name as a prefix (the source
  writes \<^verbatim>\<open>isa::Cmd::ADD\<close>, the model \<open>Cmd_ADD\<close>), the two static tables are lists of records,
  and the bit-field structures are records of words of the declared widths, filled from a
  32-bit word as \<^verbatim>\<open>memcpy\<close> fills them on the little-endian hosts the simulator is built for.
  A pointer to a function of the table is a value of an enumeration type; the dispatch on it
  is in the theories that model the functions. The last section holds what the rest of the
  development uses of the tables.
\<close>

section \<open>Enumerations\<close>

datatype CmdFormat =
    Fmt_R | Fmt_I | Fmt_S | Fmt_U | Fmt_B | Fmt_J
    | Fmt_UNDEFINED

datatype Opcode =
    Opc_LOAD | Opc_STORE | Opc_BRANCH | Opc_JALR | Opc_JAL | Opc_OP_IMM
    | Opc_OP | Opc_SYSTEM | Opc_AUIPC | Opc_LUI | Opc_MSCMEM | Opc_UNDEFINED

datatype (plugins only: code size) Cmd =
    Cmd_LUI | Cmd_AUIPC | Cmd_JAL | Cmd_JALR | Cmd_BEQ | Cmd_BNE | Cmd_BLT | Cmd_BGE
    | Cmd_BLTU | Cmd_BGEU | Cmd_LB | Cmd_LH | Cmd_LW | Cmd_LBU | Cmd_LHU | Cmd_SB
    | Cmd_SH | Cmd_SW | Cmd_ADDI | Cmd_SLTI | Cmd_SLTIU | Cmd_XORI | Cmd_ORI | Cmd_ANDI
    | Cmd_SLLI | Cmd_SRLI | Cmd_SRAI | Cmd_ADD | Cmd_SUB | Cmd_SLL | Cmd_SLT | Cmd_SLTU
    | Cmd_XOR | Cmd_SRL | Cmd_SRA | Cmd_OR | Cmd_AND | Cmd_ECALL | Cmd_EBREAK | Cmd_URET
    | Cmd_SRET | Cmd_MRET | Cmd_WFI | Cmd_FENCE | Cmd_CSRRW | Cmd_CSRRS | Cmd_CSRRC | Cmd_CSRRWI
    | Cmd_CSRRSI | Cmd_CSRRCI | Cmd_MUL | Cmd_MULH | Cmd_MULHSU | Cmd_MULHU | Cmd_DIV | Cmd_DIVU
    | Cmd_REM | Cmd_REMU | Cmd_UNDEFINED

datatype (plugins only: code size) Regs =
    Reg_zero | Reg_ra | Reg_sp | Reg_gp | Reg_tp | Reg_t0 | Reg_t1 | Reg_t2
    | Reg_s0 | Reg_s1 | Reg_a0 | Reg_a1 | Reg_a2 | Reg_a3 | Reg_a4 | Reg_a5
    | Reg_a6 | Reg_a7 | Reg_s2 | Reg_s3 | Reg_s4 | Reg_s5 | Reg_s6 | Reg_s7
    | Reg_s8 | Reg_s9 | Reg_s10 | Reg_s11 | Reg_t3 | Reg_t4 | Reg_t5 | Reg_t6

text \<open>\<^verbatim>\<open>static_cast<uint8_t>\<close> of the enumerators, numbered in the order of their declaration.\<close>

primrec Opcode_u8 :: "Opcode \<Rightarrow> u8" where
  "Opcode_u8 Opc_LOAD = 0"
| "Opcode_u8 Opc_STORE = 1"
| "Opcode_u8 Opc_BRANCH = 2"
| "Opcode_u8 Opc_JALR = 3"
| "Opcode_u8 Opc_JAL = 4"
| "Opcode_u8 Opc_OP_IMM = 5"
| "Opcode_u8 Opc_OP = 6"
| "Opcode_u8 Opc_SYSTEM = 7"
| "Opcode_u8 Opc_AUIPC = 8"
| "Opcode_u8 Opc_LUI = 9"
| "Opcode_u8 Opc_MSCMEM = 10"
| "Opcode_u8 Opc_UNDEFINED = 11"

primrec Cmd_u8 :: "Cmd \<Rightarrow> u8" where
  "Cmd_u8 Cmd_LUI = 0"
| "Cmd_u8 Cmd_AUIPC = 1"
| "Cmd_u8 Cmd_JAL = 2"
| "Cmd_u8 Cmd_JALR = 3"
| "Cmd_u8 Cmd_BEQ = 4"
| "Cmd_u8 Cmd_BNE = 5"
| "Cmd_u8 Cmd_BLT = 6"
| "Cmd_u8 Cmd_BGE = 7"
| "Cmd_u8 Cmd_BLTU = 8"
| "Cmd_u8 Cmd_BGEU = 9"
| "Cmd_u8 Cmd_LB = 10"
| "Cmd_u8 Cmd_LH = 11"
| "Cmd_u8 Cmd_LW = 12"
| "Cmd_u8 Cmd_LBU = 13"
| "Cmd_u8 Cmd_LHU = 14"
| "Cmd_u8 Cmd_SB = 15"
| "Cmd_u8 Cmd_SH = 16"
| "Cmd_u8 Cmd_SW = 17"
| "Cmd_u8 Cmd_ADDI = 18"
| "Cmd_u8 Cmd_SLTI = 19"
| "Cmd_u8 Cmd_SLTIU = 20"
| "Cmd_u8 Cmd_XORI = 21"
| "Cmd_u8 Cmd_ORI = 22"
| "Cmd_u8 Cmd_ANDI = 23"
| "Cmd_u8 Cmd_SLLI = 24"
| "Cmd_u8 Cmd_SRLI = 25"
| "Cmd_u8 Cmd_SRAI = 26"
| "Cmd_u8 Cmd_ADD = 27"
| "Cmd_u8 Cmd_SUB = 28"
| "Cmd_u8 Cmd_SLL = 29"
| "Cmd_u8 Cmd_SLT = 30"
| "Cmd_u8 Cmd_SLTU = 31"
| "Cmd_u8 Cmd_XOR = 32"
| "Cmd_u8 Cmd_SRL = 33"
| "Cmd_u8 Cmd_SRA = 34"
| "Cmd_u8 Cmd_OR = 35"
| "Cmd_u8 Cmd_AND = 36"
| "Cmd_u8 Cmd_ECALL = 37"
| "Cmd_u8 Cmd_EBREAK = 38"
| "Cmd_u8 Cmd_URET = 39"
| "Cmd_u8 Cmd_SRET = 40"
| "Cmd_u8 Cmd_MRET = 41"
| "Cmd_u8 Cmd_WFI = 42"
| "Cmd_u8 Cmd_FENCE = 43"
| "Cmd_u8 Cmd_CSRRW = 44"
| "Cmd_u8 Cmd_CSRRS = 45"
| "Cmd_u8 Cmd_CSRRC = 46"
| "Cmd_u8 Cmd_CSRRWI = 47"
| "Cmd_u8 Cmd_CSRRSI = 48"
| "Cmd_u8 Cmd_CSRRCI = 49"
| "Cmd_u8 Cmd_MUL = 50"
| "Cmd_u8 Cmd_MULH = 51"
| "Cmd_u8 Cmd_MULHSU = 52"
| "Cmd_u8 Cmd_MULHU = 53"
| "Cmd_u8 Cmd_DIV = 54"
| "Cmd_u8 Cmd_DIVU = 55"
| "Cmd_u8 Cmd_REM = 56"
| "Cmd_u8 Cmd_REMU = 57"
| "Cmd_u8 Cmd_UNDEFINED = 58"

primrec Regs_u8 :: "Regs \<Rightarrow> u8" where
  "Regs_u8 Reg_zero = 0"
| "Regs_u8 Reg_ra = 1"
| "Regs_u8 Reg_sp = 2"
| "Regs_u8 Reg_gp = 3"
| "Regs_u8 Reg_tp = 4"
| "Regs_u8 Reg_t0 = 5"
| "Regs_u8 Reg_t1 = 6"
| "Regs_u8 Reg_t2 = 7"
| "Regs_u8 Reg_s0 = 8"
| "Regs_u8 Reg_s1 = 9"
| "Regs_u8 Reg_a0 = 10"
| "Regs_u8 Reg_a1 = 11"
| "Regs_u8 Reg_a2 = 12"
| "Regs_u8 Reg_a3 = 13"
| "Regs_u8 Reg_a4 = 14"
| "Regs_u8 Reg_a5 = 15"
| "Regs_u8 Reg_a6 = 16"
| "Regs_u8 Reg_a7 = 17"
| "Regs_u8 Reg_s2 = 18"
| "Regs_u8 Reg_s3 = 19"
| "Regs_u8 Reg_s4 = 20"
| "Regs_u8 Reg_s5 = 21"
| "Regs_u8 Reg_s6 = 22"
| "Regs_u8 Reg_s7 = 23"
| "Regs_u8 Reg_s8 = 24"
| "Regs_u8 Reg_s9 = 25"
| "Regs_u8 Reg_s10 = 26"
| "Regs_u8 Reg_s11 = 27"
| "Regs_u8 Reg_t3 = 28"
| "Regs_u8 Reg_t4 = 29"
| "Regs_u8 Reg_t5 = 30"
| "Regs_u8 Reg_t6 = 31"

text \<open>
  \<^verbatim>\<open>static_cast<isa::Cmd>\<close> of a byte. A byte above the last enumerator is a value without a name in
  C++; the decoder's tables hold no such byte (\<open>Decoder_Correct\<close>).
\<close>

definition all_cmds :: "Cmd list" where
  "all_cmds =
    [Cmd_LUI, Cmd_AUIPC, Cmd_JAL, Cmd_JALR, Cmd_BEQ, Cmd_BNE, Cmd_BLT,
     Cmd_BGE, Cmd_BLTU, Cmd_BGEU, Cmd_LB, Cmd_LH, Cmd_LW, Cmd_LBU,
     Cmd_LHU, Cmd_SB, Cmd_SH, Cmd_SW, Cmd_ADDI, Cmd_SLTI, Cmd_SLTIU,
     Cmd_XORI, Cmd_ORI, Cmd_ANDI, Cmd_SLLI, Cmd_SRLI, Cmd_SRAI, Cmd_ADD,
     Cmd_SUB, Cmd_SLL, Cmd_SLT, Cmd_SLTU, Cmd_XOR, Cmd_SRL, Cmd_SRA,
     Cmd_OR, Cmd_AND, Cmd_ECALL, Cmd_EBREAK, Cmd_URET, Cmd_SRET, Cmd_MRET,
     Cmd_WFI, Cmd_FENCE, Cmd_CSRRW, Cmd_CSRRS, Cmd_CSRRC, Cmd_CSRRWI, Cmd_CSRRSI,
     Cmd_CSRRCI, Cmd_MUL, Cmd_MULH, Cmd_MULHSU, Cmd_MULHU, Cmd_DIV, Cmd_DIVU,
     Cmd_REM, Cmd_REMU, Cmd_UNDEFINED]"

definition Cmd_of_u8 :: "u8 \<Rightarrow> Cmd" where
  "Cmd_of_u8 n = (if unat n < length all_cmds then all_cmds ! unat n else Cmd_UNDEFINED)"

section \<open>Pointers to functions\<close>

datatype (plugins only: code size) ExecFunc =
    Addr_ExecLUI | Addr_ExecAUIPC | Addr_ExecJAL | Addr_ExecJALR | Addr_ExecBEQ
    | Addr_ExecBNE | Addr_ExecBLT | Addr_ExecBGE | Addr_ExecBLTU | Addr_ExecBGEU
    | Addr_ExecLB | Addr_ExecLH | Addr_ExecLW | Addr_ExecLBU | Addr_ExecLHU
    | Addr_ExecSB | Addr_ExecSH | Addr_ExecSW | Addr_ExecADDI | Addr_ExecSLTI
    | Addr_ExecSLTIU | Addr_ExecXORI | Addr_ExecORI | Addr_ExecANDI | Addr_ExecSLLI
    | Addr_ExecSRLI | Addr_ExecSRAI | Addr_ExecADD | Addr_ExecSUB | Addr_ExecSLL
    | Addr_ExecSLT | Addr_ExecSLTU | Addr_ExecXOR | Addr_ExecSRL | Addr_ExecSRA
    | Addr_ExecOR | Addr_ExecAND | Addr_ExecECALL | Addr_ExecDummy | Addr_ExecFENCE
    | Addr_ExecCSRRW | Addr_ExecMUL | Addr_ExecMULH | Addr_ExecMULHSU | Addr_ExecMULHU
    | Addr_ExecDIV | Addr_ExecDIVU | Addr_ExecREM | Addr_ExecREMU

datatype (plugins only: code size) TranslateFunc =
    Addr_TranslateLUI | Addr_TranslateAUIPC | Addr_TranslateJAL | Addr_TranslateJALR | Addr_TranslateBEQ
    | Addr_TranslateBNE | Addr_TranslateBLT | Addr_TranslateBGE | Addr_TranslateBLTU | Addr_TranslateBGEU
    | Addr_TranslateLB | Addr_TranslateLH | Addr_TranslateLW | Addr_TranslateLBU | Addr_TranslateLHU
    | Addr_TranslateSB | Addr_TranslateSH | Addr_TranslateSW | Addr_TranslateADDI | Addr_TranslateSLTI
    | Addr_TranslateSLTIU | Addr_TranslateXORI | Addr_TranslateORI | Addr_TranslateANDI | Addr_TranslateSLLI
    | Addr_TranslateSRLI | Addr_TranslateSRAI | Addr_TranslateADD | Addr_TranslateSUB | Addr_TranslateSLL
    | Addr_TranslateSLT | Addr_TranslateSLTU | Addr_TranslateXOR | Addr_TranslateSRL | Addr_TranslateSRA
    | Addr_TranslateOR | Addr_TranslateAND | Addr_TranslateMUL | Addr_TranslateMULH

section \<open>Bit-field structures\<close>

record RFormat =
  r_sz :: "2 word"
  r_opcode :: "5 word"
  r_rd :: "5 word"
  r_funct3 :: "3 word"
  r_rs1 :: "5 word"
  r_rs2 :: "5 word"
  r_funct7 :: "7 word"

record IFormat =
  i_sz :: "2 word"
  i_opcode :: "5 word"
  i_rd :: "5 word"
  i_funct3 :: "3 word"
  i_rs1 :: "5 word"
  i_imm :: "12 word"

record SFormat =
  s_sz :: "2 word"
  s_opcode :: "5 word"
  s_imm1 :: "5 word"
  s_funct3 :: "3 word"
  s_rs1 :: "5 word"
  s_rs2 :: "5 word"
  s_imm2 :: "7 word"

record UFormat =
  u_sz :: "2 word"
  u_opcode :: "5 word"
  u_rd :: "5 word"
  u_imm :: "20 word"

text \<open>\<^verbatim>\<open>memcpy(&fmt, &command, 4)\<close>: the fields from the least significant bit up.\<close>

definition RFormat_of :: "u32 \<Rightarrow> RFormat" where
  "RFormat_of w = \<lparr>r_sz = ucast w, r_opcode = ucast (drop_bit 2 w), r_rd = ucast (drop_bit 7 w),
     r_funct3 = ucast (drop_bit 12 w), r_rs1 = ucast (drop_bit 15 w),
     r_rs2 = ucast (drop_bit 20 w), r_funct7 = ucast (drop_bit 25 w)\<rparr>"

definition IFormat_of :: "u32 \<Rightarrow> IFormat" where
  "IFormat_of w = \<lparr>i_sz = ucast w, i_opcode = ucast (drop_bit 2 w), i_rd = ucast (drop_bit 7 w),
     i_funct3 = ucast (drop_bit 12 w), i_rs1 = ucast (drop_bit 15 w), i_imm = ucast (drop_bit 20 w)\<rparr>"

definition SFormat_of :: "u32 \<Rightarrow> SFormat" where
  "SFormat_of w = \<lparr>s_sz = ucast w, s_opcode = ucast (drop_bit 2 w), s_imm1 = ucast (drop_bit 7 w),
     s_funct3 = ucast (drop_bit 12 w), s_rs1 = ucast (drop_bit 15 w),
     s_rs2 = ucast (drop_bit 20 w), s_imm2 = ucast (drop_bit 25 w)\<rparr>"

definition UFormat_of :: "u32 \<Rightarrow> UFormat" where
  "UFormat_of w = \<lparr>u_sz = ucast w, u_opcode = ucast (drop_bit 2 w), u_rd = ucast (drop_bit 7 w),
     u_imm = ucast (drop_bit 12 w)\<rparr>"

section \<open>Tables\<close>

record OpcodeDesc =
  od_opcode :: u8
  od_format :: CmdFormat

record CmdDesc =
  cd_name :: string
  cd_exec_func :: ExecFunc
  cd_translate_func :: "TranslateFunc option"
  cd_opcode :: Opcode
  cd_funct3 :: u8
  cd_funct7 :: u8

definition opcode_desc :: "OpcodeDesc list" where
  "opcode_desc =
    [\<lparr>od_opcode = 0, od_format = Fmt_I\<rparr>,
     \<lparr>od_opcode = 8, od_format = Fmt_S\<rparr>,
     \<lparr>od_opcode = 24, od_format = Fmt_B\<rparr>,
     \<lparr>od_opcode = 25, od_format = Fmt_I\<rparr>,
     \<lparr>od_opcode = 27, od_format = Fmt_J\<rparr>,
     \<lparr>od_opcode = 4, od_format = Fmt_I\<rparr>,
     \<lparr>od_opcode = 12, od_format = Fmt_R\<rparr>,
     \<lparr>od_opcode = 28, od_format = Fmt_I\<rparr>,
     \<lparr>od_opcode = 5, od_format = Fmt_U\<rparr>,
     \<lparr>od_opcode = 13, od_format = Fmt_U\<rparr>,
     \<lparr>od_opcode = 3, od_format = Fmt_I\<rparr>]"

text \<open>A row of \<^verbatim>\<open>cmd_desc\<close>; \<^verbatim>\<open>funct3\<close> and \<^verbatim>\<open>funct7\<close> default to zero, \<^verbatim>\<open>nullptr\<close> is \<open>None\<close>.\<close>

definition row ::
  "string \<Rightarrow> ExecFunc \<Rightarrow> TranslateFunc option \<Rightarrow> Opcode \<Rightarrow> u8 \<Rightarrow> u8 \<Rightarrow> CmdDesc"
where
  "row n e t opc f3 f7 = \<lparr>cd_name = n, cd_exec_func = e, cd_translate_func = t,
     cd_opcode = opc, cd_funct3 = f3, cd_funct7 = f7\<rparr>"

definition cmd_desc :: "CmdDesc list" where
  "cmd_desc =
    [row ''LUI'' Addr_ExecLUI (Some Addr_TranslateLUI) Opc_LUI 0 0,
     row ''AUIPC'' Addr_ExecAUIPC (Some Addr_TranslateAUIPC) Opc_AUIPC 0 0,
     row ''JAL'' Addr_ExecJAL (Some Addr_TranslateJAL) Opc_JAL 0 0,
     row ''JALR'' Addr_ExecJALR (Some Addr_TranslateJALR) Opc_JALR 0 0,
     row ''BEQ'' Addr_ExecBEQ (Some Addr_TranslateBEQ) Opc_BRANCH 0 0,
     row ''BNE'' Addr_ExecBNE (Some Addr_TranslateBNE) Opc_BRANCH 1 0,
     row ''BLT'' Addr_ExecBLT (Some Addr_TranslateBLT) Opc_BRANCH 4 0,
     row ''BGE'' Addr_ExecBGE (Some Addr_TranslateBGE) Opc_BRANCH 5 0,
     row ''BLTU'' Addr_ExecBLTU (Some Addr_TranslateBLTU) Opc_BRANCH 6 0,
     row ''BGEU'' Addr_ExecBGEU (Some Addr_TranslateBGEU) Opc_BRANCH 7 0,
     row ''LB'' Addr_ExecLB (Some Addr_TranslateLB) Opc_LOAD 0 0,
     row ''LH'' Addr_ExecLH (Some Addr_TranslateLH) Opc_LOAD 1 0,
     row ''LW'' Addr_ExecLW (Some Addr_TranslateLW) Opc_LOAD 2 0,
     row ''LBU'' Addr_ExecLBU (Some Addr_TranslateLBU) Opc_LOAD 4 0,
     row ''LHU'' Addr_ExecLHU (Some Addr_TranslateLHU) Opc_LOAD 5 0,
     row ''SB'' Addr_ExecSB (Some Addr_TranslateSB) Opc_STORE 0 0,
     row ''SH'' Addr_ExecSH (Some Addr_TranslateSH) Opc_STORE 1 0,
     row ''SW'' Addr_ExecSW (Some Addr_TranslateSW) Opc_STORE 2 0,
     row ''ADDI'' Addr_ExecADDI (Some Addr_TranslateADDI) Opc_OP_IMM 0 0,
     row ''SLTI'' Addr_ExecSLTI (Some Addr_TranslateSLTI) Opc_OP_IMM 2 0,
     row ''SLTIU'' Addr_ExecSLTIU (Some Addr_TranslateSLTIU) Opc_OP_IMM 3 0,
     row ''XORI'' Addr_ExecXORI (Some Addr_TranslateXORI) Opc_OP_IMM 4 0,
     row ''ORI'' Addr_ExecORI (Some Addr_TranslateORI) Opc_OP_IMM 6 0,
     row ''ANDI'' Addr_ExecANDI (Some Addr_TranslateANDI) Opc_OP_IMM 7 0,
     row ''SLLI'' Addr_ExecSLLI (Some Addr_TranslateSLLI) Opc_OP_IMM 1 0,
     row ''SRLI'' Addr_ExecSRLI (Some Addr_TranslateSRLI) Opc_OP_IMM 5 0,
     row ''SRAI'' Addr_ExecSRAI (Some Addr_TranslateSRAI) Opc_OP_IMM 5 0,
     row ''ADD'' Addr_ExecADD (Some Addr_TranslateADD) Opc_OP 0 0,
     row ''SUB'' Addr_ExecSUB (Some Addr_TranslateSUB) Opc_OP 0 32,
     row ''SLL'' Addr_ExecSLL (Some Addr_TranslateSLL) Opc_OP 1 0,
     row ''SLT'' Addr_ExecSLT (Some Addr_TranslateSLT) Opc_OP 2 0,
     row ''SLTU'' Addr_ExecSLTU (Some Addr_TranslateSLTU) Opc_OP 3 0,
     row ''XOR'' Addr_ExecXOR (Some Addr_TranslateXOR) Opc_OP 4 0,
     row ''SRL'' Addr_ExecSRL (Some Addr_TranslateSRL) Opc_OP 5 0,
     row ''SRA'' Addr_ExecSRA (Some Addr_TranslateSRA) Opc_OP 5 32,
     row ''OR'' Addr_ExecOR (Some Addr_TranslateOR) Opc_OP 6 0,
     row ''AND'' Addr_ExecAND (Some Addr_TranslateAND) Opc_OP 7 0,
     row ''ECALL'' Addr_ExecECALL None Opc_SYSTEM 0 0,
     row ''EBREAK'' Addr_ExecDummy None Opc_SYSTEM 0 0,
     row ''URET'' Addr_ExecDummy None Opc_SYSTEM 0 0,
     row ''SRET'' Addr_ExecDummy None Opc_SYSTEM 0 0,
     row ''MRET'' Addr_ExecDummy None Opc_SYSTEM 0 0,
     row ''WFI'' Addr_ExecDummy None Opc_SYSTEM 0 0,
     row ''FENCE'' Addr_ExecFENCE None Opc_MSCMEM 0 0,
     row ''CSRRW'' Addr_ExecCSRRW None Opc_SYSTEM 1 0,
     row ''CSRRS'' Addr_ExecDummy None Opc_SYSTEM 2 0,
     row ''CSRRC'' Addr_ExecDummy None Opc_SYSTEM 3 0,
     row ''CSRRWI'' Addr_ExecDummy None Opc_SYSTEM 5 0,
     row ''CSRRSI'' Addr_ExecDummy None Opc_SYSTEM 6 0,
     row ''CSRRCI'' Addr_ExecDummy None Opc_SYSTEM 7 0,
     row ''MUL'' Addr_ExecMUL (Some Addr_TranslateMUL) Opc_OP 0 1,
     row ''MULH'' Addr_ExecMULH (Some Addr_TranslateMULH) Opc_OP 1 1,
     row ''MULHSU'' Addr_ExecMULHSU None Opc_OP 2 1,
     row ''MULHU'' Addr_ExecMULHU None Opc_OP 3 1,
     row ''DIV'' Addr_ExecDIV None Opc_OP 4 1,
     row ''DIVU'' Addr_ExecDIVU None Opc_OP 5 1,
     row ''REM'' Addr_ExecREM None Opc_OP 6 1,
     row ''REMU'' Addr_ExecREMU None Opc_OP 7 1]"

section \<open>Look-ups\<close>

definition getOpcodesNum :: nat where
  "getOpcodesNum = length opcode_desc"

definition getOpcodeDesc_u8 :: "u8 \<Rightarrow> fault + OpcodeDesc" where
  "getOpcodeDesc_u8 opc =
     rbind (cpp_assert (unat opc < getOpcodesNum)) (\<lambda>_. Inr (opcode_desc ! unat opc))"

definition getOpcodeDesc :: "Opcode \<Rightarrow> fault + OpcodeDesc" where
  "getOpcodeDesc opc = getOpcodeDesc_u8 (Opcode_u8 opc)"

definition getCmdsNum :: nat where
  "getCmdsNum = length cmd_desc"

definition getCmdDesc_u8 :: "u8 \<Rightarrow> fault + CmdDesc" where
  "getCmdDesc_u8 cmd =
     rbind (cpp_assert (unat cmd < getCmdsNum)) (\<lambda>_. Inr (cmd_desc ! unat cmd))"

definition getCmdDesc :: "Cmd \<Rightarrow> fault + CmdDesc" where
  "getCmdDesc cmd = getCmdDesc_u8 (Cmd_u8 cmd)"

section \<open>What the tables say\<close>

text \<open>The library's classes on the enumerations: the order is the numbering of the enumerators.\<close>

lemma Cmd_of_u8_u8 [simp]: "Cmd_of_u8 (Cmd_u8 c) = c"
  by (cases c) (simp_all add: Cmd_of_u8_def all_cmds_def)

lemma Cmd_u8_inj [simp]: "Cmd_u8 c = Cmd_u8 d \<longleftrightarrow> c = d"
  by (metis Cmd_of_u8_u8)

instantiation Cmd :: linorder
begin

definition less_eq_Cmd :: "Cmd \<Rightarrow> Cmd \<Rightarrow> bool" where
  "less_eq_Cmd c d \<longleftrightarrow> Cmd_u8 c \<le> Cmd_u8 d"

definition less_Cmd :: "Cmd \<Rightarrow> Cmd \<Rightarrow> bool" where
  "less_Cmd c d \<longleftrightarrow> Cmd_u8 c < Cmd_u8 d"

instance
  by standard (auto simp: less_eq_Cmd_def less_Cmd_def order.strict_iff_order)

end

lemma length_cmd_desc [simp]: "length cmd_desc = 58"
  by (simp add: cmd_desc_def)

lemma length_opcode_desc [simp]: "length opcode_desc = 11"
  by (simp add: opcode_desc_def)

lemma Cmd_u8_less_iff: "unat (Cmd_u8 c) < 58 \<longleftrightarrow> c \<noteq> Cmd_UNDEFINED"
  by (cases c) simp_all

lemma Opcode_u8_less_iff: "unat (Opcode_u8 opc) < 11 \<longleftrightarrow> opc \<noteq> Opc_UNDEFINED"
  by (cases opc) simp_all

lemma getCmdDesc_total:
  "c \<noteq> Cmd_UNDEFINED \<Longrightarrow> getCmdDesc c = Inr (cmd_desc ! unat (Cmd_u8 c))"
  by (simp add: getCmdDesc_def getCmdDesc_u8_def getCmdsNum_def Cmd_u8_less_iff)

lemma getCmdDesc_UNDEFINED [simp]: "getCmdDesc Cmd_UNDEFINED = Inl AssertFail"
  by (simp add: getCmdDesc_def getCmdDesc_u8_def getCmdsNum_def)

lemma getOpcodeDesc_total:
  "opc \<noteq> Opc_UNDEFINED \<Longrightarrow> getOpcodeDesc opc = Inr (opcode_desc ! unat (Opcode_u8 opc))"
  by (simp add: getOpcodeDesc_def getOpcodeDesc_u8_def getOpcodesNum_def Opcode_u8_less_iff)

text \<open>The opcode and the format the tables give a command.\<close>

definition cmd_opcode :: "Cmd \<Rightarrow> Opcode" where
  "cmd_opcode c = cd_opcode (cmd_desc ! unat (Cmd_u8 c))"

definition cmd_format :: "Cmd \<Rightarrow> CmdFormat" where
  "cmd_format c = od_format (opcode_desc ! unat (Opcode_u8 (cmd_opcode c)))"

lemma cmd_opcode_defined [simp]: "c \<noteq> Cmd_UNDEFINED \<Longrightarrow> cmd_opcode c \<noteq> Opc_UNDEFINED"
  by (cases c) (simp_all add: cmd_opcode_def cmd_desc_def row_def)

end
