(* ===== verification/Ir.thy ===== *)
theory Ir
  imports Prelude Isa_Desc
begin

text \<open>
  Decoded instructions: \<^verbatim>\<open>src/sim/ir.h\<close> and \<^verbatim>\<open>src/sim/ir.cpp\<close>.

  A register operand is the byte that \<^verbatim>\<open>ir::Reg\<close> wraps and an immediate the 32-bit word that
  \<^verbatim>\<open>ir::Imm\<close> wraps; the constructor's assertion is \<open>Reg_ctor\<close>. The accessors of \<^verbatim>\<open>ir::Inst\<close>
  keep their assertions, so they return a result or \<open>AssertFail\<close>. The \<^verbatim>\<open>dump\<close> methods return
  the characters they print. \<open>wf_inst\<close> is the class invariant: it holds of everything the
  constructors build (\<open>GenInst_*_wf\<close>) and makes every accessor succeed that the command's
  format allows.
\<close>

section \<open>Formatted output\<close>

definition digit_char :: "nat \<Rightarrow> char" where
  "digit_char d = char_of (if d < 10 then 48 + d else 55 + d)"

fun dec_string :: "nat \<Rightarrow> string" where
  "dec_string n = (if n < 10 then [digit_char n] else dec_string (n div 10) @ [digit_char (n mod 10)])"

declare dec_string.simps [simp del]

fun hex_string :: "nat \<Rightarrow> nat \<Rightarrow> string" where
  "hex_string 0 n = []"
| "hex_string (Suc k) n = hex_string k (n div 16) @ [digit_char (n mod 16)]"

text \<open>The conversions \<^verbatim>\<open>%02u\<close>, \<^verbatim>\<open>%08X\<close> and \<^verbatim>\<open>%-7s\<close> of \<^verbatim>\<open>fprintf\<close>.\<close>

definition fmt_02u :: "u8 \<Rightarrow> string" where
  "fmt_02u n = (let s = dec_string (unat n) in replicate (2 - length s) (CHR ''0'') @ s)"

definition fmt_08X :: "u32 \<Rightarrow> string" where
  "fmt_08X n = hex_string 8 (unat n)"

definition fmt_left :: "nat \<Rightarrow> string \<Rightarrow> string" where
  "fmt_left k s = s @ replicate (k - length s) (CHR '' '')"

section \<open>Registers and immediates\<close>

type_synonym Reg = u8
type_synonym Imm = u32

definition Reg_ctor :: "u8 \<Rightarrow> fault + Reg" where
  "Reg_ctor r = rbind (cpp_assert (r < 32)) (\<lambda>_. Inr r)"

definition Reg_dump :: "Reg \<Rightarrow> string" where
  "Reg_dump r = ''x'' @ fmt_02u r"

definition Imm_dump :: "Imm \<Rightarrow> string" where
  "Imm_dump i = ''i:0x'' @ fmt_08X i"

section \<open>Instructions\<close>

record Inst =
  inst_imm :: Imm
  inst_rs1 :: Reg
  inst_rs2 :: Reg
  inst_rd :: Reg
  inst_cmd :: Cmd
  inst_func :: ExecFunc

definition Inst_ctor :: "Cmd \<Rightarrow> Reg \<Rightarrow> Reg \<Rightarrow> Reg \<Rightarrow> Imm \<Rightarrow> fault + Inst" where
  "Inst_ctor cmd rd rs1 rs2 imm =
     rbind (getCmdDesc cmd) (\<lambda>d.
       Inr \<lparr>inst_imm = imm, inst_rs1 = rs1, inst_rs2 = rs2, inst_rd = rd, inst_cmd = cmd,
            inst_func = cd_exec_func d\<rparr>)"

definition getOpcode :: "Inst \<Rightarrow> fault + Opcode" where
  "getOpcode i = rbind (getCmdDesc (inst_cmd i)) (\<lambda>d. Inr (cd_opcode d))"

definition getCmdFormat :: "Inst \<Rightarrow> fault + CmdFormat" where
  "getCmdFormat i =
     rbind (getOpcode i) (\<lambda>opc. rbind (getOpcodeDesc opc) (\<lambda>d. Inr (od_format d)))"

definition isImm :: "Inst \<Rightarrow> fault + bool" where
  "isImm i = rbind (getCmdFormat i) (\<lambda>f. Inr (f \<noteq> Fmt_R))"

definition isRs1 :: "Inst \<Rightarrow> fault + bool" where
  "isRs1 i = rbind (getCmdFormat i) (\<lambda>f. Inr (f \<noteq> Fmt_U \<and> f \<noteq> Fmt_J))"

definition isRs2 :: "Inst \<Rightarrow> fault + bool" where
  "isRs2 i = rbind (getCmdFormat i) (\<lambda>f. Inr (f \<noteq> Fmt_I \<and> f \<noteq> Fmt_U \<and> f \<noteq> Fmt_J))"

definition isRd :: "Inst \<Rightarrow> fault + bool" where
  "isRd i = rbind (getCmdFormat i) (\<lambda>f. Inr (f \<noteq> Fmt_S \<and> f \<noteq> Fmt_B))"

definition getImm :: "Inst \<Rightarrow> fault + Imm" where
  "getImm i = rbind (isImm i) (\<lambda>b. rbind (cpp_assert b) (\<lambda>_. Inr (inst_imm i)))"

definition getRs1 :: "Inst \<Rightarrow> fault + Reg" where
  "getRs1 i = rbind (isRs1 i) (\<lambda>b. rbind (cpp_assert b) (\<lambda>_. Inr (inst_rs1 i)))"

definition getRs2 :: "Inst \<Rightarrow> fault + Reg" where
  "getRs2 i = rbind (isRs2 i) (\<lambda>b. rbind (cpp_assert b) (\<lambda>_. Inr (inst_rs2 i)))"

definition getRd :: "Inst \<Rightarrow> fault + Reg" where
  "getRd i = rbind (isRd i) (\<lambda>b. rbind (cpp_assert b) (\<lambda>_. Inr (inst_rd i)))"

definition isTerminator :: "Inst \<Rightarrow> fault + bool" where
  "isTerminator i =
     (if inst_cmd i = Cmd_FENCE then Inr True
      else rbind (getOpcode i) (\<lambda>opc.
        Inr (case opc of Opc_BRANCH \<Rightarrow> True | Opc_JALR \<Rightarrow> True | Opc_JAL \<Rightarrow> True | _ \<Rightarrow> False)))"

definition isTranslationSupported :: "Inst \<Rightarrow> fault + bool" where
  "isTranslationSupported i =
     rbind (getCmdDesc (inst_cmd i)) (\<lambda>d. Inr (cd_translate_func d \<noteq> None))"

definition Inst_dump :: "Inst \<Rightarrow> fault + string" where
  "Inst_dump i =
     rbind (getCmdDesc (inst_cmd i)) (\<lambda>d. rbind (getCmdFormat i) (\<lambda>f.
       Inr (CHR 0x09 # fmt_left 7 (cd_name d) @
         (case f of
            Fmt_R \<Rightarrow> Reg_dump (inst_rs1 i) @ '','' @ Reg_dump (inst_rs2 i) @ ''->'' @ Reg_dump (inst_rd i)
          | Fmt_I \<Rightarrow>
              if Cmd_u8 Cmd_ECALL \<le> Cmd_u8 (inst_cmd i) \<and> Cmd_u8 (inst_cmd i) \<le> Cmd_u8 Cmd_WFI
              then []
              else (if Cmd_u8 Cmd_CSRRWI \<le> Cmd_u8 (inst_cmd i) \<and>
                       Cmd_u8 (inst_cmd i) \<le> Cmd_u8 Cmd_CSRRCI
                    then Imm_dump (ucast (inst_rs1 i)) else Reg_dump (inst_rs1 i)) @
                   '','' @ Imm_dump (inst_imm i) @ ''->'' @ Reg_dump (inst_rd i)
          | Fmt_S \<Rightarrow> Reg_dump (inst_rs1 i) @ '','' @ Reg_dump (inst_rs2 i) @ '': '' @ Imm_dump (inst_imm i)
          | Fmt_B \<Rightarrow> Reg_dump (inst_rs1 i) @ '','' @ Reg_dump (inst_rs2 i) @ '': '' @ Imm_dump (inst_imm i)
          | Fmt_U \<Rightarrow> Imm_dump (inst_imm i) @ ''->'' @ Reg_dump (inst_rd i)
          | Fmt_J \<Rightarrow> Imm_dump (inst_imm i) @ ''->'' @ Reg_dump (inst_rd i)
          | Fmt_UNDEFINED \<Rightarrow> ''UNDEFINED'') @
         [CHR 0x0A])))"

section \<open>The constructors of the decoder\<close>

text \<open>
  \<^verbatim>\<open>GenInst<Format>\<close>: the arguments convert to \<^verbatim>\<open>Reg\<close> first, then the instruction is built, then
  its format is asserted. A register the format has not is 0.
\<close>

definition asserting_format :: "CmdFormat \<Rightarrow> fault + Inst \<Rightarrow> fault + Inst" where
  "asserting_format fmt r =
     rbind r (\<lambda>i. rbind (getCmdFormat i) (\<lambda>f. rbind (cpp_assert (f = fmt)) (\<lambda>_. Inr i)))"

definition GenInst_R :: "Cmd \<Rightarrow> u8 \<Rightarrow> u8 \<Rightarrow> u8 \<Rightarrow> fault + Inst" where
  "GenInst_R cmd rd rs1 rs2 =
     rbind (Reg_ctor rd) (\<lambda>d. rbind (Reg_ctor rs1) (\<lambda>a. rbind (Reg_ctor rs2) (\<lambda>b.
       asserting_format Fmt_R (Inst_ctor cmd d a b 0))))"

definition GenInst_I :: "Cmd \<Rightarrow> u8 \<Rightarrow> u8 \<Rightarrow> u32 \<Rightarrow> fault + Inst" where
  "GenInst_I cmd rd rs1 imm =
     rbind (Reg_ctor rd) (\<lambda>d. rbind (Reg_ctor rs1) (\<lambda>a.
       asserting_format Fmt_I (Inst_ctor cmd d a 0 imm)))"

definition GenInst_S :: "Cmd \<Rightarrow> u32 \<Rightarrow> u8 \<Rightarrow> u8 \<Rightarrow> fault + Inst" where
  "GenInst_S cmd imm rs1 rs2 =
     rbind (Reg_ctor rs1) (\<lambda>a. rbind (Reg_ctor rs2) (\<lambda>b.
       asserting_format Fmt_S (Inst_ctor cmd 0 a b imm)))"

definition GenInst_U :: "Cmd \<Rightarrow> u8 \<Rightarrow> u32 \<Rightarrow> fault + Inst" where
  "GenInst_U cmd rd imm =
     rbind (Reg_ctor rd) (\<lambda>d. asserting_format Fmt_U (Inst_ctor cmd d 0 0 imm))"

definition GenInst_B :: "Cmd \<Rightarrow> u32 \<Rightarrow> u8 \<Rightarrow> u8 \<Rightarrow> fault + Inst" where
  "GenInst_B cmd imm rs1 rs2 =
     rbind (Reg_ctor rs1) (\<lambda>a. rbind (Reg_ctor rs2) (\<lambda>b.
       asserting_format Fmt_B (Inst_ctor cmd 0 a b imm)))"

definition GenInst_J :: "Cmd \<Rightarrow> u8 \<Rightarrow> u32 \<Rightarrow> fault + Inst" where
  "GenInst_J cmd rd imm =
     rbind (Reg_ctor rd) (\<lambda>d. asserting_format Fmt_J (Inst_ctor cmd d 0 0 imm))"

section \<open>The class invariant\<close>

definition cmd_exec :: "Cmd \<Rightarrow> ExecFunc" where
  "cmd_exec c = cd_exec_func (cmd_desc ! unat (Cmd_u8 c))"

definition wf_inst :: "Inst \<Rightarrow> bool" where
  "wf_inst i \<longleftrightarrow> inst_cmd i \<noteq> Cmd_UNDEFINED \<and> inst_rs1 i < 32 \<and> inst_rs2 i < 32 \<and> inst_rd i < 32
     \<and> inst_func i = cmd_exec (inst_cmd i)"

definition inst_of :: "Cmd \<Rightarrow> Reg \<Rightarrow> Reg \<Rightarrow> Reg \<Rightarrow> Imm \<Rightarrow> Inst" where
  "inst_of cmd rd rs1 rs2 imm = \<lparr>inst_imm = imm, inst_rs1 = rs1, inst_rs2 = rs2, inst_rd = rd,
     inst_cmd = cmd, inst_func = cmd_exec cmd\<rparr>"

lemma inst_of_simps [simp]:
  "inst_imm (inst_of c d a b m) = m" "inst_rs1 (inst_of c d a b m) = a"
  "inst_rs2 (inst_of c d a b m) = b" "inst_rd (inst_of c d a b m) = d"
  "inst_cmd (inst_of c d a b m) = c" "inst_func (inst_of c d a b m) = cmd_exec c"
  by (simp_all add: inst_of_def)

lemma wf_inst_of [simp]:
  "wf_inst (inst_of c d a b m) \<longleftrightarrow> c \<noteq> Cmd_UNDEFINED \<and> d < 32 \<and> a < 32 \<and> b < 32"
  by (auto simp: wf_inst_def)

lemma inst_of_eq_iff [simp]:
  "inst_of c d a b m = inst_of c' d' a' b' m' \<longleftrightarrow> c = c' \<and> d = d' \<and> a = a' \<and> b = b' \<and> m = m'"
  by (auto simp: inst_of_def)

lemma wf_inst_cmd: "wf_inst i \<Longrightarrow> inst_cmd i \<noteq> Cmd_UNDEFINED"
  by (simp add: wf_inst_def)

lemma Reg_ctor_in [simp]: "r < 32 \<Longrightarrow> Reg_ctor r = Inr r"
  by (simp add: Reg_ctor_def)

lemma Inst_ctor_eq [simp]: "c \<noteq> Cmd_UNDEFINED \<Longrightarrow> Inst_ctor c d a b m = Inr (inst_of c d a b m)"
  by (simp add: Inst_ctor_def getCmdDesc_total inst_of_def cmd_exec_def)

lemma getOpcode_eq: "inst_cmd i \<noteq> Cmd_UNDEFINED \<Longrightarrow> getOpcode i = Inr (cmd_opcode (inst_cmd i))"
  by (simp add: getOpcode_def getCmdDesc_total cmd_opcode_def)

lemma getCmdFormat_eq:
  "inst_cmd i \<noteq> Cmd_UNDEFINED \<Longrightarrow> getCmdFormat i = Inr (cmd_format (inst_cmd i))"
  by (simp add: getCmdFormat_def getOpcode_eq getOpcodeDesc_total cmd_format_def)

lemma asserting_format_eq [simp]:
  "c \<noteq> Cmd_UNDEFINED \<Longrightarrow> asserting_format f (Inr (inst_of c d a b m)) =
     (if cmd_format c = f then Inr (inst_of c d a b m) else Inl AssertFail)"
  by (simp add: asserting_format_def getCmdFormat_eq)

text \<open>The columns of \<^verbatim>\<open>cmd_desc\<close>, looked up once for every command.\<close>

lemma cmd_opcode_tab [simp]:
  "cmd_opcode Cmd_LUI = Opc_LUI"
  "cmd_opcode Cmd_AUIPC = Opc_AUIPC"
  "cmd_opcode Cmd_JAL = Opc_JAL"
  "cmd_opcode Cmd_JALR = Opc_JALR"
  "cmd_opcode Cmd_BEQ = Opc_BRANCH"
  "cmd_opcode Cmd_BNE = Opc_BRANCH"
  "cmd_opcode Cmd_BLT = Opc_BRANCH"
  "cmd_opcode Cmd_BGE = Opc_BRANCH"
  "cmd_opcode Cmd_BLTU = Opc_BRANCH"
  "cmd_opcode Cmd_BGEU = Opc_BRANCH"
  "cmd_opcode Cmd_LB = Opc_LOAD"
  "cmd_opcode Cmd_LH = Opc_LOAD"
  "cmd_opcode Cmd_LW = Opc_LOAD"
  "cmd_opcode Cmd_LBU = Opc_LOAD"
  "cmd_opcode Cmd_LHU = Opc_LOAD"
  "cmd_opcode Cmd_SB = Opc_STORE"
  "cmd_opcode Cmd_SH = Opc_STORE"
  "cmd_opcode Cmd_SW = Opc_STORE"
  "cmd_opcode Cmd_ADDI = Opc_OP_IMM"
  "cmd_opcode Cmd_SLTI = Opc_OP_IMM"
  "cmd_opcode Cmd_SLTIU = Opc_OP_IMM"
  "cmd_opcode Cmd_XORI = Opc_OP_IMM"
  "cmd_opcode Cmd_ORI = Opc_OP_IMM"
  "cmd_opcode Cmd_ANDI = Opc_OP_IMM"
  "cmd_opcode Cmd_SLLI = Opc_OP_IMM"
  "cmd_opcode Cmd_SRLI = Opc_OP_IMM"
  "cmd_opcode Cmd_SRAI = Opc_OP_IMM"
  "cmd_opcode Cmd_ADD = Opc_OP"
  "cmd_opcode Cmd_SUB = Opc_OP"
  "cmd_opcode Cmd_SLL = Opc_OP"
  "cmd_opcode Cmd_SLT = Opc_OP"
  "cmd_opcode Cmd_SLTU = Opc_OP"
  "cmd_opcode Cmd_XOR = Opc_OP"
  "cmd_opcode Cmd_SRL = Opc_OP"
  "cmd_opcode Cmd_SRA = Opc_OP"
  "cmd_opcode Cmd_OR = Opc_OP"
  "cmd_opcode Cmd_AND = Opc_OP"
  "cmd_opcode Cmd_ECALL = Opc_SYSTEM"
  "cmd_opcode Cmd_EBREAK = Opc_SYSTEM"
  "cmd_opcode Cmd_URET = Opc_SYSTEM"
  "cmd_opcode Cmd_SRET = Opc_SYSTEM"
  "cmd_opcode Cmd_MRET = Opc_SYSTEM"
  "cmd_opcode Cmd_WFI = Opc_SYSTEM"
  "cmd_opcode Cmd_FENCE = Opc_MSCMEM"
  "cmd_opcode Cmd_CSRRW = Opc_SYSTEM"
  "cmd_opcode Cmd_CSRRS = Opc_SYSTEM"
  "cmd_opcode Cmd_CSRRC = Opc_SYSTEM"
  "cmd_opcode Cmd_CSRRWI = Opc_SYSTEM"
  "cmd_opcode Cmd_CSRRSI = Opc_SYSTEM"
  "cmd_opcode Cmd_CSRRCI = Opc_SYSTEM"
  "cmd_opcode Cmd_MUL = Opc_OP"
  "cmd_opcode Cmd_MULH = Opc_OP"
  "cmd_opcode Cmd_MULHSU = Opc_OP"
  "cmd_opcode Cmd_MULHU = Opc_OP"
  "cmd_opcode Cmd_DIV = Opc_OP"
  "cmd_opcode Cmd_DIVU = Opc_OP"
  "cmd_opcode Cmd_REM = Opc_OP"
  "cmd_opcode Cmd_REMU = Opc_OP"
  by (simp_all add: cmd_opcode_def cmd_desc_def row_def)

lemma cmd_exec_tab [simp]:
  "cmd_exec Cmd_LUI = Addr_ExecLUI"
  "cmd_exec Cmd_AUIPC = Addr_ExecAUIPC"
  "cmd_exec Cmd_JAL = Addr_ExecJAL"
  "cmd_exec Cmd_JALR = Addr_ExecJALR"
  "cmd_exec Cmd_BEQ = Addr_ExecBEQ"
  "cmd_exec Cmd_BNE = Addr_ExecBNE"
  "cmd_exec Cmd_BLT = Addr_ExecBLT"
  "cmd_exec Cmd_BGE = Addr_ExecBGE"
  "cmd_exec Cmd_BLTU = Addr_ExecBLTU"
  "cmd_exec Cmd_BGEU = Addr_ExecBGEU"
  "cmd_exec Cmd_LB = Addr_ExecLB"
  "cmd_exec Cmd_LH = Addr_ExecLH"
  "cmd_exec Cmd_LW = Addr_ExecLW"
  "cmd_exec Cmd_LBU = Addr_ExecLBU"
  "cmd_exec Cmd_LHU = Addr_ExecLHU"
  "cmd_exec Cmd_SB = Addr_ExecSB"
  "cmd_exec Cmd_SH = Addr_ExecSH"
  "cmd_exec Cmd_SW = Addr_ExecSW"
  "cmd_exec Cmd_ADDI = Addr_ExecADDI"
  "cmd_exec Cmd_SLTI = Addr_ExecSLTI"
  "cmd_exec Cmd_SLTIU = Addr_ExecSLTIU"
  "cmd_exec Cmd_XORI = Addr_ExecXORI"
  "cmd_exec Cmd_ORI = Addr_ExecORI"
  "cmd_exec Cmd_ANDI = Addr_ExecANDI"
  "cmd_exec Cmd_SLLI = Addr_ExecSLLI"
  "cmd_exec Cmd_SRLI = Addr_ExecSRLI"
  "cmd_exec Cmd_SRAI = Addr_ExecSRAI"
  "cmd_exec Cmd_ADD = Addr_ExecADD"
  "cmd_exec Cmd_SUB = Addr_ExecSUB"
  "cmd_exec Cmd_SLL = Addr_ExecSLL"
  "cmd_exec Cmd_SLT = Addr_ExecSLT"
  "cmd_exec Cmd_SLTU = Addr_ExecSLTU"
  "cmd_exec Cmd_XOR = Addr_ExecXOR"
  "cmd_exec Cmd_SRL = Addr_ExecSRL"
  "cmd_exec Cmd_SRA = Addr_ExecSRA"
  "cmd_exec Cmd_OR = Addr_ExecOR"
  "cmd_exec Cmd_AND = Addr_ExecAND"
  "cmd_exec Cmd_ECALL = Addr_ExecECALL"
  "cmd_exec Cmd_EBREAK = Addr_ExecDummy"
  "cmd_exec Cmd_URET = Addr_ExecDummy"
  "cmd_exec Cmd_SRET = Addr_ExecDummy"
  "cmd_exec Cmd_MRET = Addr_ExecDummy"
  "cmd_exec Cmd_WFI = Addr_ExecDummy"
  "cmd_exec Cmd_FENCE = Addr_ExecFENCE"
  "cmd_exec Cmd_CSRRW = Addr_ExecCSRRW"
  "cmd_exec Cmd_CSRRS = Addr_ExecDummy"
  "cmd_exec Cmd_CSRRC = Addr_ExecDummy"
  "cmd_exec Cmd_CSRRWI = Addr_ExecDummy"
  "cmd_exec Cmd_CSRRSI = Addr_ExecDummy"
  "cmd_exec Cmd_CSRRCI = Addr_ExecDummy"
  "cmd_exec Cmd_MUL = Addr_ExecMUL"
  "cmd_exec Cmd_MULH = Addr_ExecMULH"
  "cmd_exec Cmd_MULHSU = Addr_ExecMULHSU"
  "cmd_exec Cmd_MULHU = Addr_ExecMULHU"
  "cmd_exec Cmd_DIV = Addr_ExecDIV"
  "cmd_exec Cmd_DIVU = Addr_ExecDIVU"
  "cmd_exec Cmd_REM = Addr_ExecREM"
  "cmd_exec Cmd_REMU = Addr_ExecREMU"
  by (simp_all add: cmd_exec_def cmd_desc_def row_def)

lemma cmd_format_by_opcode:
  "cmd_format c = (case cmd_opcode c of Opc_STORE \<Rightarrow> Fmt_S | Opc_BRANCH \<Rightarrow> Fmt_B | Opc_JAL \<Rightarrow> Fmt_J
     | Opc_OP \<Rightarrow> Fmt_R | Opc_AUIPC \<Rightarrow> Fmt_U | Opc_LUI \<Rightarrow> Fmt_U
     | Opc_UNDEFINED \<Rightarrow> od_format (opcode_desc ! 11) | _ \<Rightarrow> Fmt_I)"
  by (simp add: cmd_format_def opcode_desc_def split: Opcode.split)

text \<open>What each \<^verbatim>\<open>GenInst\<close> builds, for a command of its format and registers in range.\<close>

lemma GenInst_R_eq:
  "\<lbrakk>c \<noteq> Cmd_UNDEFINED; cmd_format c = Fmt_R; d < 32; a < 32; b < 32\<rbrakk>
    \<Longrightarrow> GenInst_R c d a b = Inr (inst_of c d a b 0)"
  by (simp add: GenInst_R_def)

lemma GenInst_I_eq:
  "\<lbrakk>c \<noteq> Cmd_UNDEFINED; cmd_format c = Fmt_I; d < 32; a < 32\<rbrakk>
    \<Longrightarrow> GenInst_I c d a m = Inr (inst_of c d a 0 m)"
  by (simp add: GenInst_I_def)

lemma GenInst_S_eq:
  "\<lbrakk>c \<noteq> Cmd_UNDEFINED; cmd_format c = Fmt_S; a < 32; b < 32\<rbrakk>
    \<Longrightarrow> GenInst_S c m a b = Inr (inst_of c 0 a b m)"
  by (simp add: GenInst_S_def)

lemma GenInst_U_eq:
  "\<lbrakk>c \<noteq> Cmd_UNDEFINED; cmd_format c = Fmt_U; d < 32\<rbrakk> \<Longrightarrow> GenInst_U c d m = Inr (inst_of c d 0 0 m)"
  by (simp add: GenInst_U_def)

lemma GenInst_B_eq:
  "\<lbrakk>c \<noteq> Cmd_UNDEFINED; cmd_format c = Fmt_B; a < 32; b < 32\<rbrakk>
    \<Longrightarrow> GenInst_B c m a b = Inr (inst_of c 0 a b m)"
  by (simp add: GenInst_B_def)

lemma GenInst_J_eq:
  "\<lbrakk>c \<noteq> Cmd_UNDEFINED; cmd_format c = Fmt_J; d < 32\<rbrakk> \<Longrightarrow> GenInst_J c d m = Inr (inst_of c d 0 0 m)"
  by (simp add: GenInst_J_def)

lemmas GenInst_eqs = GenInst_R_eq GenInst_I_eq GenInst_S_eq GenInst_U_eq GenInst_B_eq GenInst_J_eq

text \<open>The accessors, where the format of the command allows them.\<close>

lemma getImm_eq:
  "\<lbrakk>inst_cmd i \<noteq> Cmd_UNDEFINED; cmd_format (inst_cmd i) \<noteq> Fmt_R\<rbrakk> \<Longrightarrow> getImm i = Inr (inst_imm i)"
  by (simp add: getImm_def isImm_def getCmdFormat_eq)

lemma getRs1_eq:
  "\<lbrakk>inst_cmd i \<noteq> Cmd_UNDEFINED; cmd_format (inst_cmd i) \<notin> {Fmt_U, Fmt_J}\<rbrakk> \<Longrightarrow> getRs1 i = Inr (inst_rs1 i)"
  by (simp add: getRs1_def isRs1_def getCmdFormat_eq)

lemma getRs2_eq:
  "\<lbrakk>inst_cmd i \<noteq> Cmd_UNDEFINED; cmd_format (inst_cmd i) \<notin> {Fmt_I, Fmt_U, Fmt_J}\<rbrakk>
    \<Longrightarrow> getRs2 i = Inr (inst_rs2 i)"
  by (simp add: getRs2_def isRs2_def getCmdFormat_eq)

lemma getRd_eq:
  "\<lbrakk>inst_cmd i \<noteq> Cmd_UNDEFINED; cmd_format (inst_cmd i) \<notin> {Fmt_S, Fmt_B}\<rbrakk> \<Longrightarrow> getRd i = Inr (inst_rd i)"
  by (simp add: getRd_def isRd_def getCmdFormat_eq)

lemmas accessor_eqs = getImm_eq getRs1_eq getRs2_eq getRd_eq

definition terminator :: "Cmd \<Rightarrow> bool" where
  "terminator c \<longleftrightarrow> c = Cmd_FENCE \<or> cmd_opcode c \<in> {Opc_BRANCH, Opc_JALR, Opc_JAL}"

lemma isTerminator_eq:
  "inst_cmd i \<noteq> Cmd_UNDEFINED \<Longrightarrow> isTerminator i = Inr (terminator (inst_cmd i))"
  by (auto simp: isTerminator_def getOpcode_eq terminator_def split: Opcode.splits)

text \<open>Eight hexadecimal digits determine the word.\<close>

lemma digit_char_inj: "a < 16 \<Longrightarrow> b < 16 \<Longrightarrow> digit_char a = digit_char b \<longleftrightarrow> a = b"
  by (auto simp: digit_char_def char_of_eq_iff simp del: char_of_eq_iff
      dest!: arg_cong [where f = "of_char :: char \<Rightarrow> nat"] split: if_splits)

lemma hex_string_inj:
  "\<lbrakk>a < 16 ^ k; b < 16 ^ k; hex_string k a = hex_string k b\<rbrakk> \<Longrightarrow> a = b"
proof (induction k arbitrary: a b)
  case 0
  then show ?case by simp
next
  case (Suc k)
  then have "a div 16 = b div 16" and "a mod 16 = b mod 16"
    by (auto simp: digit_char_inj less_mult_imp_div_less)
  then show ?case by (metis div_mult_mod_eq)
qed

end
