(* ===== verification/Asm.thy ===== *)
theory Asm
  imports Isa_Desc Ir
begin

text \<open>
  The part of the asmjit interface that the translator uses (\<^verbatim>\<open>src/sim/jit.h\<close> includes
  \<^verbatim>\<open>asmjit/asmjit.h\<close>, which is a git submodule and not part of the repository).

  The translator hands the assembler a sequence of instructions and label bindings; code is
  that sequence. An operand names a host register at a width, a member of the simulator's
  state addressed through \<^verbatim>\<open>rdi\<close>, an address relative to a host register, an immediate, a label
  or the address of one of the two functions of \<^verbatim>\<open>sim::State\<close> that the code calls. What the
  assembled code does is not defined here: it is a parameter of the simulator's model.
\<close>

datatype (plugins only: code size) Gp =
    Gp_eax | Gp_ecx | Gp_edx | Gp_esi | Gp_edi | Gp_r8d | Gp_r9d | Gp_r10d | Gp_r11d

datatype (plugins only: code size) X86Id =
    Id_Mov | Id_Movsx | Id_Movzx | Id_Xor | Id_And | Id_Or | Id_Add | Id_Sub | Id_Mul
  | Id_Shl | Id_Shr | Id_Sar | Id_Cmp | Id_Setl | Id_Setb
  | Id_Jmp | Id_Je | Id_Jne | Id_Jl | Id_Jge | Id_Jb | Id_Jae
  | Id_Push | Id_Pop | Id_Call | Id_Ret

text \<open>
  \<open>Op_slot r\<close> is \<^verbatim>\<open>ptr_32(rdi, offsetof(State, regs) + 4 * r)\<close>; \<open>Op_pc\<close>, \<open>Op_mem\<close> and \<open>Op_insts\<close> are
  the members \<^verbatim>\<open>pc\<close> (32 bits), \<^verbatim>\<open>mem\<close> and \<^verbatim>\<open>executed_insts\<close> (64 bits); \<open>Op_ptr w g d\<close> is
  \<^verbatim>\<open>ptr_w(g.r64(), d)\<close>. A width is in bits.
\<close>

datatype (plugins only: code size) Operand =
    Op_none
  | Op_gp nat Gp
  | Op_slot Reg
  | Op_pc
  | Op_mem
  | Op_insts
  | Op_ptr nat Gp int
  | Op_imm int
  | Op_label nat
  | Op_read nat bool
  | Op_write nat

datatype (plugins only: code size) Asm =
    Emit X86Id "Operand list"
  | Bind nat

text \<open>\<^verbatim>\<open>isReg\<close>, \<^verbatim>\<open>isMem\<close> and \<^verbatim>\<open>isImm\<close> of \<^verbatim>\<open>asmjit::Operand\<close>.\<close>

fun Op_isReg :: "Operand \<Rightarrow> bool" where
  "Op_isReg (Op_gp _ _) = True"
| "Op_isReg _ = False"

fun Op_isImm :: "Operand \<Rightarrow> bool" where
  "Op_isImm (Op_imm _) = True"
| "Op_isImm (Op_read _ _) = True"
| "Op_isImm (Op_write _) = True"
| "Op_isImm _ = False"

fun Op_isMem :: "Operand \<Rightarrow> bool" where
  "Op_isMem (Op_slot _) = True"
| "Op_isMem Op_pc = True"
| "Op_isMem Op_mem = True"
| "Op_isMem Op_insts = True"
| "Op_isMem (Op_ptr _ _ _) = True"
| "Op_isMem _ = False"

end
