(* ===== verification/Decoder.thy ===== *)
theory Decoder
  imports Prelude Isa_Desc Ir
begin

text \<open>
  The instruction decoder: \<^verbatim>\<open>src/sim/decoder.h\<close> and \<^verbatim>\<open>src/sim/decoder.cpp\<close>.

  The three look-up tables are lists, filled by the constructor's two loops; every access to
  them goes through \<open>at_index\<close> and \<open>set_index\<close>, so an access out of range is a fault of the
  model and not a value of it. The collision warnings of the constructor and its progress
  messages, printed under \<^verbatim>\<open>-verbose\<close> only, are not modelled.
\<close>

definition SignExtend :: "u32 \<Rightarrow> u8 \<Rightarrow> fault + u32" where
  "SignExtend imm n =
     rbind (cpp_assert (n < 32)) (\<lambda>_.
       let mask = push_bit (unat n) (NOT 0) in
       Inr (if imm AND push_bit (unat n) 1 \<noteq> 0 then imm OR mask else imm))"

section \<open>The tables\<close>

record Decoder =
  opc_to_fmt :: "CmdFormat list"
  opc_funct3_to_cmd :: "u8 list"
  funct7_to_cmd :: "Cmd list list"

text \<open>One round of the constructor's first loop: the format of an opcode.\<close>

definition Decoder_add_opcode :: "nat \<Rightarrow> Decoder \<Rightarrow> fault + Decoder" where
  "Decoder_add_opcode i d =
     rbind (getOpcodeDesc_u8 (of_nat i)) (\<lambda>op_desc.
     rbind (cpp_assert (od_opcode op_desc < 32)) (\<lambda>_.
     rbind (set_index (opc_to_fmt d) (unat (od_opcode op_desc)) (od_format op_desc)) (\<lambda>t.
       Inr (d\<lparr>opc_to_fmt := t\<rparr>))))"

text \<open>The commands that share an opcode and \<^verbatim>\<open>funct3\<close> get a row of 128 commands by \<^verbatim>\<open>funct7\<close>.\<close>

definition Decoder_new_row :: "nat \<Rightarrow> Decoder \<Rightarrow> fault + Decoder" where
  "Decoder_new_row opc_funct3 d =
     rbind (at_index (opc_funct3_to_cmd d) opc_funct3) (\<lambda>v.
       if v = Cmd_u8 Cmd_UNDEFINED
       then rbind (set_index (opc_funct3_to_cmd d) opc_funct3 (of_nat (length (funct7_to_cmd d)))) (\<lambda>t.
              Inr (d\<lparr>opc_funct3_to_cmd := t,
                     funct7_to_cmd := funct7_to_cmd d @ [replicate 128 Cmd_UNDEFINED]\<rparr>))
       else Inr d)"

text \<open>One round of the second loop.\<close>

definition Decoder_add_cmd :: "nat \<Rightarrow> Decoder \<Rightarrow> fault + Decoder" where
  "Decoder_add_cmd i d =
     rbind (getCmdDesc_u8 (of_nat i)) (\<lambda>cmd_desc.
     rbind (getOpcodeDesc (cd_opcode cmd_desc)) (\<lambda>op_desc.
     let opcode = od_opcode op_desc in
     rbind (cpp_assert (opcode < 32)) (\<lambda>_.
     let opc_funct3 = unat (push_bit 5 (ucast (cd_funct3 cmd_desc)) OR ucast opcode :: u16) in
     rbind (at_index (opc_to_fmt d) (unat opcode)) (\<lambda>format.
     rbind (cpp_assert (format \<noteq> Fmt_UNDEFINED)) (\<lambda>_.
       if format = Fmt_R
       then rbind (Decoder_new_row opc_funct3 d) (\<lambda>d.
            rbind (at_index (opc_funct3_to_cmd d) opc_funct3) (\<lambda>v.
            rbind (at_index (funct7_to_cmd d) (unat v)) (\<lambda>funct7.
            rbind (set_index funct7 (unat (cd_funct7 cmd_desc)) (Cmd_of_u8 (of_nat i))) (\<lambda>funct7.
              Inr (d\<lparr>funct7_to_cmd := (funct7_to_cmd d)[unat v := funct7]\<rparr>)))))
       else rbind (set_index (opc_funct3_to_cmd d) opc_funct3 (of_nat i)) (\<lambda>t.
              Inr (d\<lparr>opc_funct3_to_cmd := t\<rparr>)))))))"

definition Decoder_ctor :: "fault + Decoder" where
  "Decoder_ctor =
     rbind (foldM Decoder_add_opcode [0..<getOpcodesNum]
       \<lparr>opc_to_fmt = replicate 32 Fmt_UNDEFINED,
        opc_funct3_to_cmd = replicate 256 (Cmd_u8 Cmd_UNDEFINED),
        funct7_to_cmd = []\<rparr>)
     (foldM Decoder_add_cmd [0..<getCmdsNum])"

section \<open>Finding the command\<close>

definition Decoder_getCmd :: "Decoder \<Rightarrow> u8 \<Rightarrow> u8 \<Rightarrow> fault + Cmd" where
  "Decoder_getCmd d opcode funct3 =
     (let op_funct3 = push_bit 5 funct3 OR opcode in
      rbind (at_index (opc_funct3_to_cmd d) (unat op_funct3)) (\<lambda>v.
        if Cmd_of_u8 v = Cmd_UNDEFINED
        then Inl (Throw ''Can not find instruction by opcode, funct3'')
        else Inr (Cmd_of_u8 v)))"

definition Decoder_getCmd_funct7 :: "Decoder \<Rightarrow> u8 \<Rightarrow> u8 \<Rightarrow> u8 \<Rightarrow> fault + Cmd" where
  "Decoder_getCmd_funct7 d opcode funct3 funct7 =
     (let op_funct3 = push_bit 5 funct3 OR opcode in
      rbind (at_index (opc_funct3_to_cmd d) (unat op_funct3)) (\<lambda>v.
      rbind (at_index (funct7_to_cmd d) (unat v)) (\<lambda>row.
      rbind (at_index row (unat funct7)) (\<lambda>cmd.
        if cmd = Cmd_UNDEFINED
        then Inl (Throw ''Can not find instruction by opcode, funct3, funct7'')
        else Inr cmd))))"

section \<open>Decoding, format by format\<close>

definition decode_R :: "Decoder \<Rightarrow> u8 \<Rightarrow> RFormat \<Rightarrow> fault + Inst" where
  "decode_R d opcode fmt =
     rbind (Decoder_getCmd_funct7 d opcode (ucast (r_funct3 fmt)) (ucast (r_funct7 fmt))) (\<lambda>cmd.
       GenInst_R cmd (ucast (r_rd fmt)) (ucast (r_rs1 fmt)) (ucast (r_rs2 fmt)))"

text \<open>
  The I format has three special groups. The shifts check \<^verbatim>\<open>funct7\<close>, the upper bits of their
  immediate, and tell \<^verbatim>\<open>SRLI\<close> from \<^verbatim>\<open>SRAI\<close> by it.
\<close>

definition decode_I_shift :: "Cmd \<Rightarrow> u32 \<Rightarrow> fault + Cmd \<times> u32" where
  "decode_I_shift cmd imm =
     (if cmd = Cmd_SLLI
      then if drop_bit 5 imm \<noteq> 0 then Inl (Throw ''SLLI: incorrect immediate'') else Inr (cmd, imm)
      else if cmd = Cmd_SRLI \<or> cmd = Cmd_SRAI
      then let funct7 = drop_bit 5 imm in
           if funct7 = 0 then Inr (Cmd_SRLI, imm)
           else if funct7 = 0b0100000 then Inr (Cmd_SRAI, imm AND (push_bit 6 1 - 1))
           else Inl (Throw ''SRLI/SRAI: incorrect immediate'')
      else Inr (cmd, imm))"

text \<open>The immediate selects among \<^verbatim>\<open>ECALL\<close>, \<^verbatim>\<open>EBREAK\<close>, \<^verbatim>\<open>URET\<close>, \<^verbatim>\<open>SRET\<close>, \<^verbatim>\<open>MRET\<close> and \<^verbatim>\<open>WFI\<close>.\<close>

definition decode_I_system :: "u32 \<Rightarrow> fault + Cmd" where
  "decode_I_system imm =
     (if imm = 0x000 then Inr Cmd_ECALL
      else if imm = 0x001 then Inr Cmd_EBREAK
      else if imm = 0x002 then Inr Cmd_URET
      else if imm = 0x102 then Inr Cmd_SRET
      else if imm = 0x302 then Inr Cmd_MRET
      else if imm = 0x105 then Inr Cmd_WFI
      else Inl (Throw ''SYSTEM instruction: incorrect immediate''))"

definition decode_I :: "Decoder \<Rightarrow> u8 \<Rightarrow> IFormat \<Rightarrow> fault + Inst" where
  "decode_I d opcode fmt =
     rbind (Decoder_getCmd d opcode (ucast (i_funct3 fmt))) (\<lambda>cmd.
     rbind (decode_I_shift cmd (ucast (i_imm fmt))) (\<lambda>(cmd, imm).
     rbind (if cmd = Cmd_FENCE
            then if imm \<noteq> 0x0ff \<or> i_rs1 fmt \<noteq> 0 \<or> i_rd fmt \<noteq> 0
                 then Inl (Throw ''FENCE: incorrect imm/rs1/rd'') else Inr (cmd, imm)
            else if Cmd_u8 cmd \<ge> Cmd_u8 Cmd_ECALL \<and> Cmd_u8 cmd \<le> Cmd_u8 Cmd_WFI
            then if i_rs1 fmt \<noteq> 0 \<or> i_rd fmt \<noteq> 0
                 then Inl (Throw ''SYSTEM instruction: rs1, rd are not zero'')
                 else rbind (decode_I_system imm) (\<lambda>cmd. Inr (cmd, imm))
            else rbind (SignExtend (ucast (i_imm fmt)) 11) (\<lambda>imm. Inr (cmd, imm)))
       (\<lambda>(cmd, imm). GenInst_I cmd (ucast (i_rd fmt)) (ucast (i_rs1 fmt)) imm)))"

definition decode_S :: "Decoder \<Rightarrow> u8 \<Rightarrow> SFormat \<Rightarrow> fault + Inst" where
  "decode_S d opcode fmt =
     rbind (Decoder_getCmd d opcode (ucast (s_funct3 fmt))) (\<lambda>cmd.
     rbind (SignExtend (push_bit 5 (ucast (s_imm2 fmt)) OR ucast (s_imm1 fmt)) 11) (\<lambda>imm.
       GenInst_S cmd imm (ucast (s_rs1 fmt)) (ucast (s_rs2 fmt))))"

definition decode_B :: "Decoder \<Rightarrow> u8 \<Rightarrow> SFormat \<Rightarrow> fault + Inst" where
  "decode_B d opcode fmt =
     rbind (Decoder_getCmd d opcode (ucast (s_funct3 fmt))) (\<lambda>cmd.
     rbind (SignExtend (drop_bit 1 (ucast (s_imm1 fmt)) OR push_bit 4 (ucast (s_imm2 fmt) AND 0x3f)
              OR push_bit 10 (ucast (s_imm1 fmt) AND 1)
              OR push_bit 11 (drop_bit 6 (ucast (s_imm2 fmt)))) 11) (\<lambda>imm.
       GenInst_B cmd imm (ucast (s_rs1 fmt)) (ucast (s_rs2 fmt))))"

definition decode_U :: "Decoder \<Rightarrow> u8 \<Rightarrow> UFormat \<Rightarrow> fault + Inst" where
  "decode_U d opcode fmt =
     rbind (Decoder_getCmd d opcode 0) (\<lambda>cmd.
       GenInst_U cmd (ucast (u_rd fmt)) (push_bit 12 (ucast (u_imm fmt))))"

definition decode_J :: "Decoder \<Rightarrow> u8 \<Rightarrow> UFormat \<Rightarrow> fault + Inst" where
  "decode_J d opcode fmt =
     rbind (Decoder_getCmd d opcode 0) (\<lambda>cmd.
     rbind (SignExtend ((drop_bit 9 (ucast (u_imm fmt)) AND 0x3ff)
              OR push_bit 10 (drop_bit 8 (ucast (u_imm fmt)) AND 1)
              OR push_bit 11 (ucast (u_imm fmt) AND 0xff)
              OR push_bit 19 (drop_bit 19 (ucast (u_imm fmt)))) 19) (\<lambda>imm.
       GenInst_J cmd (ucast (u_rd fmt)) imm))"

definition decode :: "Decoder \<Rightarrow> u32 \<Rightarrow> fault + Inst" where
  "decode d command =
     (let sz = ucast (command AND 0b11) :: u8 in
      if sz \<noteq> 0b11 then Inl (Throw ''Packed instructions are not supported!'')
      else
        let opcode = ucast (drop_bit 2 (command AND (push_bit 7 1 - 1))) :: u8 in
        rbind (at_index (opc_to_fmt d) (unat opcode)) (\<lambda>format.
          if format = Fmt_UNDEFINED then Inl (Throw ''Opcode is not supported'')
          else if format = Fmt_R then decode_R d opcode (RFormat_of command)
          else if format = Fmt_I then decode_I d opcode (IFormat_of command)
          else if format = Fmt_S then decode_S d opcode (SFormat_of command)
          else if format = Fmt_B then decode_B d opcode (SFormat_of command)
          else if format = Fmt_U then decode_U d opcode (UFormat_of command)
          else if format = Fmt_J then decode_J d opcode (UFormat_of command)
          else Inl (Throw ''Decoding of this format is not implemented'')))"

section \<open>The decoder the program runs with\<close>

text \<open>
  The constructor takes no argument, so there is one decoder. \<open>riscv_decoder_ctor\<close> shows that
  the constructor returns it: no assertion fails and no table is indexed out of range.
\<close>

definition riscv_decoder :: Decoder where
  "riscv_decoder = (case Decoder_ctor of Inr d \<Rightarrow> d | Inl e \<Rightarrow> \<lparr>opc_to_fmt = [], opc_funct3_to_cmd = [], funct7_to_cmd = []\<rparr>)"

lemma riscv_decoder_ctor: "Decoder_ctor = Inr riscv_decoder"
  unfolding riscv_decoder_def by code_simp

lemma opc_to_fmt_tab:
  "opc_to_fmt riscv_decoder =
    [Fmt_I, Fmt_UNDEFINED, Fmt_UNDEFINED, Fmt_I, Fmt_I, Fmt_U, Fmt_UNDEFINED, Fmt_UNDEFINED,
     Fmt_S, Fmt_UNDEFINED, Fmt_UNDEFINED, Fmt_UNDEFINED, Fmt_R, Fmt_U, Fmt_UNDEFINED, Fmt_UNDEFINED,
     Fmt_UNDEFINED, Fmt_UNDEFINED, Fmt_UNDEFINED, Fmt_UNDEFINED, Fmt_UNDEFINED, Fmt_UNDEFINED,
     Fmt_UNDEFINED, Fmt_UNDEFINED, Fmt_B, Fmt_I, Fmt_UNDEFINED, Fmt_J, Fmt_I, Fmt_UNDEFINED,
     Fmt_UNDEFINED, Fmt_UNDEFINED]"
  by code_simp

lemma opc_funct3_tab:
  "opc_funct3_to_cmd riscv_decoder =
    [10, 58, 58, 43, 18, 1, 58, 58, 15, 58, 58, 58, 0, 0, 58, 58, 58, 58, 58, 58, 58, 58, 58, 58, 4, 3, 58, 2, 42, 58, 58, 58,
     11, 58, 58, 58, 24, 58, 58, 58, 16, 58, 58, 58, 1, 58, 58, 58, 58, 58, 58, 58, 58, 58, 58, 58, 5, 58, 58, 58, 44, 58, 58, 58,
     12, 58, 58, 58, 19, 58, 58, 58, 17, 58, 58, 58, 2, 58, 58, 58, 58, 58, 58, 58, 58, 58, 58, 58, 58, 58, 58, 58, 45, 58, 58, 58,
     58, 58, 58, 58, 20, 58, 58, 58, 58, 58, 58, 58, 3, 58, 58, 58, 58, 58, 58, 58, 58, 58, 58, 58, 58, 58, 58, 58, 46, 58, 58, 58,
     13, 58, 58, 58, 21, 58, 58, 58, 58, 58, 58, 58, 4, 58, 58, 58, 58, 58, 58, 58, 58, 58, 58, 58, 6, 58, 58, 58, 58, 58, 58, 58,
     14, 58, 58, 58, 26, 58, 58, 58, 58, 58, 58, 58, 5, 58, 58, 58, 58, 58, 58, 58, 58, 58, 58, 58, 7, 58, 58, 58, 47, 58, 58, 58,
     58, 58, 58, 58, 22, 58, 58, 58, 58, 58, 58, 58, 6, 58, 58, 58, 58, 58, 58, 58, 58, 58, 58, 58, 8, 58, 58, 58, 48, 58, 58, 58,
     58, 58, 58, 58, 23, 58, 58, 58, 58, 58, 58, 58, 7, 58, 58, 58, 58, 58, 58, 58, 58, 58, 58, 58, 9, 58, 58, 58, 49, 58, 58, 58]"
  by code_simp

text \<open>A row as the list of its entries, so that a look-up is a look-up in an association list.\<close>

definition empty_row :: "Cmd list" where
  "empty_row = replicate 128 Cmd_UNDEFINED"

definition row_of :: "(nat \<times> Cmd) list \<Rightarrow> Cmd list" where
  "row_of entries = foldr (\<lambda>(f7, c) r. r[f7 := c]) entries empty_row"

lemma length_row_of [simp]: "length (row_of es) = 128"
  by (induction es) (auto simp: row_of_def empty_row_def)

lemma row_of_nth:
  "k < 128 \<Longrightarrow> row_of es ! k = (case map_of es k of Some c \<Rightarrow> c | None \<Rightarrow> Cmd_UNDEFINED)"
proof (induction es)
  case Nil
  then show ?case by (simp add: row_of_def empty_row_def)
next
  case (Cons e es)
  have "row_of (e # es) = (row_of es)[fst e := snd e]"
    by (simp add: row_of_def split_beta)
  then show ?case
    using Cons by (simp add: nth_list_update)
qed

lemma funct7_tab:
  "funct7_to_cmd riscv_decoder = map row_of
    [[(0, Cmd_ADD), (1, Cmd_MUL), (32, Cmd_SUB)], [(0, Cmd_SLL), (1, Cmd_MULH)],
     [(0, Cmd_SLT), (1, Cmd_MULHSU)], [(0, Cmd_SLTU), (1, Cmd_MULHU)], [(0, Cmd_XOR), (1, Cmd_DIV)],
     [(0, Cmd_SRL), (1, Cmd_DIVU), (32, Cmd_SRA)], [(0, Cmd_OR), (1, Cmd_REM)],
     [(0, Cmd_AND), (1, Cmd_REMU)]]"
  by code_simp

end
