(* ===== verification/Decoder_Correct.thy ===== *)
theory Decoder_Correct
  imports Prelude Isa_Desc Ir Decoder
begin

text \<open>
  The decoder against the instruction set: \<open>encode\<close> is the RV32IM encoding written from the
  manual (major opcodes, \<open>funct3\<close>, \<open>funct7\<close>, immediates scattered over the word), independent
  of the tables of \<open>Isa_Desc\<close>, and \<open>legal_inst\<close> says which instructions it encodes. The decoder
  inverts \<open>encode\<close> on legal instructions and rejects every other word with a \<^verbatim>\<open>SimException\<close>.
\<close>

section \<open>The encoding\<close>

definition isa_opcode :: "Cmd \<Rightarrow> 7 word" where
  "isa_opcode c =
     (if c = Cmd_LUI then 0b0110111
      else if c = Cmd_AUIPC then 0b0010111
      else if c = Cmd_JAL then 0b1101111
      else if c = Cmd_JALR then 0b1100111
      else if c \<in> {Cmd_BEQ, Cmd_BNE, Cmd_BLT, Cmd_BGE, Cmd_BLTU, Cmd_BGEU} then 0b1100011
      else if c \<in> {Cmd_LB, Cmd_LH, Cmd_LW, Cmd_LBU, Cmd_LHU} then 0b0000011
      else if c \<in> {Cmd_SB, Cmd_SH, Cmd_SW} then 0b0100011
      else if c \<in> {Cmd_ADDI, Cmd_SLTI, Cmd_SLTIU, Cmd_XORI, Cmd_ORI, Cmd_ANDI, Cmd_SLLI, Cmd_SRLI, Cmd_SRAI}
        then 0b0010011
      else if c = Cmd_FENCE then 0b0001111
      else if c \<in> {Cmd_ECALL, Cmd_EBREAK, Cmd_URET, Cmd_SRET, Cmd_MRET, Cmd_WFI, Cmd_CSRRW, Cmd_CSRRS,
                  Cmd_CSRRC, Cmd_CSRRWI, Cmd_CSRRSI, Cmd_CSRRCI} then 0b1110011
      else 0b0110011)"

definition isa_funct3 :: "Cmd \<Rightarrow> 3 word" where
  "isa_funct3 c =
     (if c \<in> {Cmd_BNE, Cmd_LH, Cmd_SH, Cmd_SLLI, Cmd_SLL, Cmd_CSRRW, Cmd_MULH} then 0b001
      else if c \<in> {Cmd_LW, Cmd_SW, Cmd_SLTI, Cmd_SLT, Cmd_CSRRS, Cmd_MULHSU} then 0b010
      else if c \<in> {Cmd_SLTIU, Cmd_SLTU, Cmd_CSRRC, Cmd_MULHU} then 0b011
      else if c \<in> {Cmd_BLT, Cmd_LBU, Cmd_XORI, Cmd_XOR, Cmd_DIV} then 0b100
      else if c \<in> {Cmd_BGE, Cmd_LHU, Cmd_SRLI, Cmd_SRAI, Cmd_SRL, Cmd_SRA, Cmd_CSRRWI, Cmd_DIVU} then 0b101
      else if c \<in> {Cmd_BLTU, Cmd_ORI, Cmd_OR, Cmd_CSRRSI, Cmd_REM} then 0b110
      else if c \<in> {Cmd_BGEU, Cmd_ANDI, Cmd_AND, Cmd_CSRRCI, Cmd_REMU} then 0b111
      else 0b000)"

definition isa_funct7 :: "Cmd \<Rightarrow> 7 word" where
  "isa_funct7 c =
     (if c \<in> {Cmd_SUB, Cmd_SRA} then 0b0100000
      else if c \<in> {Cmd_MUL, Cmd_MULH, Cmd_MULHSU, Cmd_MULHU, Cmd_DIV, Cmd_DIVU, Cmd_REM, Cmd_REMU}
        then 0b0000001
      else 0)"

text \<open>Bits \<open>hi\<close> down to \<open>lo\<close> of a word, as the manual writes \<open>imm[hi:lo]\<close>.\<close>

definition field :: "nat \<Rightarrow> nat \<Rightarrow> u32 \<Rightarrow> u32" where
  "field hi lo w = take_bit (Suc hi - lo) (drop_bit lo w)"

lemma bit_field_iff [bit_simps]: "bit (field hi lo w) n \<longleftrightarrow> n < Suc hi - lo \<and> bit w (lo + n)"
  by (simp add: field_def bit_simps)

text \<open>The six layouts of a 32-bit instruction. Branch and jump offsets are byte offsets.\<close>

definition enc_R :: "7 word \<Rightarrow> 5 word \<Rightarrow> 3 word \<Rightarrow> 5 word \<Rightarrow> 5 word \<Rightarrow> 7 word \<Rightarrow> u32" where
  "enc_R opc rd f3 rs1 rs2 f7 = ucast opc OR push_bit 7 (ucast rd) OR push_bit 12 (ucast f3)
     OR push_bit 15 (ucast rs1) OR push_bit 20 (ucast rs2) OR push_bit 25 (ucast f7)"

definition enc_I :: "7 word \<Rightarrow> 5 word \<Rightarrow> 3 word \<Rightarrow> 5 word \<Rightarrow> 12 word \<Rightarrow> u32" where
  "enc_I opc rd f3 rs1 imm = ucast opc OR push_bit 7 (ucast rd) OR push_bit 12 (ucast f3)
     OR push_bit 15 (ucast rs1) OR push_bit 20 (ucast imm)"

definition enc_S :: "7 word \<Rightarrow> 3 word \<Rightarrow> 5 word \<Rightarrow> 5 word \<Rightarrow> u32 \<Rightarrow> u32" where
  "enc_S opc f3 rs1 rs2 imm = ucast opc OR push_bit 7 (field 4 0 imm) OR push_bit 12 (ucast f3)
     OR push_bit 15 (ucast rs1) OR push_bit 20 (ucast rs2) OR push_bit 25 (field 11 5 imm)"

definition enc_B :: "7 word \<Rightarrow> 3 word \<Rightarrow> 5 word \<Rightarrow> 5 word \<Rightarrow> u32 \<Rightarrow> u32" where
  "enc_B opc f3 rs1 rs2 off = ucast opc OR push_bit 7 (field 11 11 off)
     OR push_bit 8 (field 4 1 off) OR push_bit 12 (ucast f3)
     OR push_bit 15 (ucast rs1) OR push_bit 20 (ucast rs2)
     OR push_bit 25 (field 10 5 off) OR push_bit 31 (field 12 12 off)"

definition enc_U :: "7 word \<Rightarrow> 5 word \<Rightarrow> u32 \<Rightarrow> u32" where
  "enc_U opc rd imm = ucast opc OR push_bit 7 (ucast rd) OR push_bit 12 (field 31 12 imm)"

definition enc_J :: "7 word \<Rightarrow> 5 word \<Rightarrow> u32 \<Rightarrow> u32" where
  "enc_J opc rd off = ucast opc OR push_bit 7 (ucast rd) OR push_bit 12 (field 19 12 off)
     OR push_bit 20 (field 11 11 off) OR push_bit 21 (field 10 1 off)
     OR push_bit 31 (field 20 20 off)"

definition encode :: "Inst \<Rightarrow> u32" where
  "encode i =
     (let opc = isa_opcode (inst_cmd i); f3 = isa_funct3 (inst_cmd i); rd = ucast (inst_rd i);
          rs1 = ucast (inst_rs1 i); rs2 = ucast (inst_rs2 i) in
      if opc = 0b0110011 then enc_R opc rd f3 rs1 rs2 (isa_funct7 (inst_cmd i))
      else if opc = 0b0100011 then enc_S opc f3 rs1 rs2 (inst_imm i)
      else if opc = 0b1100011 then enc_B opc f3 rs1 rs2 (2 * inst_imm i)
      else if opc = 0b0110111 \<or> opc = 0b0010111 then enc_U opc rd (inst_imm i)
      else if opc = 0b1101111 then enc_J opc rd (2 * inst_imm i)
      else enc_I opc rd f3 rs1 (ucast (inst_imm i)))"

text \<open>
  The immediates of the I format: shift amounts, the fixed immediates of \<^verbatim>\<open>FENCE\<close> and of the
  privileged commands, and otherwise a sign-extended 12-bit number. The decoder hands on the
  whole 12-bit field of \<^verbatim>\<open>SRAI\<close>, with the bit that tells it from \<^verbatim>\<open>SRLI\<close> still set.
\<close>

definition signed_imm :: "nat \<Rightarrow> u32 \<Rightarrow> bool" where
  "signed_imm n imm \<longleftrightarrow> signed_take_bit (n - 1) imm = imm"

definition legal_I :: "Inst \<Rightarrow> bool" where
  "legal_I i \<longleftrightarrow>
     (let c = inst_cmd i; imm = inst_imm i; bare = (inst_rs1 i = 0 \<and> inst_rd i = 0) in
      if c = Cmd_SLLI \<or> c = Cmd_SRLI then drop_bit 5 imm = 0
      else if c = Cmd_SRAI then drop_bit 5 imm = 0b0100000
      else if c = Cmd_FENCE then imm = 0x0ff \<and> bare
      else if c = Cmd_ECALL then imm = 0 \<and> bare
      else if c = Cmd_EBREAK then imm = 1 \<and> bare
      else if c = Cmd_URET then imm = 2 \<and> bare
      else if c = Cmd_SRET then imm = 0x102 \<and> bare
      else if c = Cmd_MRET then imm = 0x302 \<and> bare
      else if c = Cmd_WFI then imm = 0x105 \<and> bare
      else signed_imm 12 imm)"

definition legal_inst :: "Inst \<Rightarrow> bool" where
  "legal_inst i \<longleftrightarrow> wf_inst i \<and>
     (case cmd_format (inst_cmd i) of
        Fmt_R \<Rightarrow> inst_imm i = 0
      | Fmt_I \<Rightarrow> inst_rs2 i = 0 \<and> legal_I i
      | Fmt_S \<Rightarrow> inst_rd i = 0 \<and> signed_imm 12 (inst_imm i)
      | Fmt_B \<Rightarrow> inst_rd i = 0 \<and> signed_imm 12 (inst_imm i)
      | Fmt_U \<Rightarrow> inst_rs1 i = 0 \<and> inst_rs2 i = 0 \<and> inst_imm i AND mask 12 = 0
      | Fmt_J \<Rightarrow> inst_rs1 i = 0 \<and> inst_rs2 i = 0 \<and> signed_imm 20 (inst_imm i)
      | Fmt_UNDEFINED \<Rightarrow> False)"

section \<open>Immediates and fields, bit by bit\<close>

text \<open>\<open>SignExtend\<close> of a value of \<open>n + 1\<close> bits is the value's sign extension.\<close>

lemma SignExtend_eq:
  assumes "n < 31" and "imm AND mask (Suc n) = imm"
  shows "SignExtend imm (of_nat n) = Inr (signed_take_bit n imm)"
proof -
  have n: "unat (of_nat n :: u8) = n" and lt: "(of_nat n :: u8) < 32"
    using assms(1) by (simp_all add: unat_of_nat word_less_nat_alt)
  have above: "\<not> bit imm k" if "n < k" for k
    using assms(2) that by (metis bit_and_iff bit_mask_iff not_less_eq)
  have test: "(imm AND push_bit n 1 \<noteq> 0) \<longleftrightarrow> bit imm n"
    by (simp add: bit_iff_and_push_bit_not_eq_0)
  have "(if bit imm n then imm OR push_bit n (NOT 0) else imm) = signed_take_bit n imm"
    by (rule bit_word_eqI)
      (use assms(1) above in \<open>auto simp: bit_simps min_def not_le le_less\<close>)
  then show ?thesis
    by (simp only: SignExtend_def n lt test cpp_assert_True rbind.simps Let_def)
qed

text \<open>The fields of an encoded instruction are the fields it was encoded from.\<close>

lemma RFormat_enc_R:
  "RFormat_of (enc_R opc rd f3 rs1 rs2 f7) =
    \<lparr>r_sz = ucast opc, r_opcode = ucast (drop_bit 2 opc), r_rd = rd, r_funct3 = f3, r_rs1 = rs1,
     r_rs2 = rs2, r_funct7 = f7\<rparr>"
  unfolding RFormat_of_def enc_R_def
  by (simp; intro conjI; rule bit_word_eqI; auto simp: bit_simps dest: bit_imp_le_length)

lemma IFormat_enc_I:
  "IFormat_of (enc_I opc rd f3 rs1 imm) =
    \<lparr>i_sz = ucast opc, i_opcode = ucast (drop_bit 2 opc), i_rd = rd, i_funct3 = f3, i_rs1 = rs1,
     i_imm = imm\<rparr>"
  unfolding IFormat_of_def enc_I_def
  by (simp; intro conjI; rule bit_word_eqI; auto simp: bit_simps dest: bit_imp_le_length)

lemma SFormat_enc_S:
  "SFormat_of (enc_S opc f3 rs1 rs2 imm) =
    \<lparr>s_sz = ucast opc, s_opcode = ucast (drop_bit 2 opc), s_imm1 = ucast (field 4 0 imm), s_funct3 = f3,
     s_rs1 = rs1, s_rs2 = rs2, s_imm2 = ucast (field 11 5 imm)\<rparr>"
  unfolding SFormat_of_def enc_S_def
  by (simp; intro conjI; rule bit_word_eqI; auto simp: bit_simps dest: bit_imp_le_length)

lemma SFormat_enc_B:
  "SFormat_of (enc_B opc f3 rs1 rs2 off) =
    \<lparr>s_sz = ucast opc, s_opcode = ucast (drop_bit 2 opc),
     s_imm1 = ucast (2 * field 4 1 off OR field 11 11 off), s_funct3 = f3,
     s_rs1 = rs1, s_rs2 = rs2,
     s_imm2 = ucast (field 10 5 off OR push_bit 6 (field 12 12 off))\<rparr>"
  unfolding SFormat_of_def enc_B_def
  by (simp; intro conjI; rule bit_word_eqI; auto simp: bit_simps dest: bit_imp_le_length)

lemma UFormat_enc_U:
  "UFormat_of (enc_U opc rd imm) =
    \<lparr>u_sz = ucast opc, u_opcode = ucast (drop_bit 2 opc), u_rd = rd, u_imm = ucast (field 31 12 imm)\<rparr>"
  unfolding UFormat_of_def enc_U_def
  by (simp; intro conjI; rule bit_word_eqI; auto simp: bit_simps dest: bit_imp_le_length)

lemma UFormat_enc_J:
  "UFormat_of (enc_J opc rd off) =
    \<lparr>u_sz = ucast opc, u_opcode = ucast (drop_bit 2 opc), u_rd = rd,
     u_imm = ucast (field 19 12 off OR push_bit 8 (field 11 11 off)
       OR push_bit 9 (field 10 1 off) OR push_bit 19 (field 20 20 off))\<rparr>"
  unfolding UFormat_of_def enc_J_def
  by (simp; intro conjI; rule bit_word_eqI; auto simp: bit_simps dest: bit_imp_le_length)

text \<open>And a word is the encoding of its fields.\<close>

lemma word32_eqI:
  "list_all (\<lambda>n. bit a n = bit b n)
    [0, 1, 2, 3, 4, 5, 6, 7, 8, 9, 10, 11, 12, 13, 14, 15, 16, 17, 18, 19, 20, 21, 22, 23, 24, 25,
     26, 27, 28, 29, 30, 31] \<Longrightarrow> a = (b :: u32)"
proof (rule bit_word_eqI)
  fix n :: nat assume *: "list_all (\<lambda>n. bit a n = bit b n)
    [0, 1, 2, 3, 4, 5, 6, 7, 8, 9, 10, 11, 12, 13, 14, 15, 16, 17, 18, 19, 20, 21, 22, 23, 24, 25,
     26, 27, 28, 29, 30, 31]" and "n < LENGTH(32)"
  have "[0..<32] = [0, 1, 2, 3, 4, 5, 6, 7, 8, 9, 10, 11, 12, 13, 14, 15, 16, 17, 18, 19, 20, 21, 22,
    23, 24, 25, 26, 27, 28, 29, 30, 31]" by code_simp
  with * have "list_all (\<lambda>n. bit a n = bit b n) [0..<32]" by (simp only:)
  then show "bit a n = bit b n"
    using \<open>n < LENGTH(32)\<close> by (simp only: list_all_iff set_upt) simp
qed

lemma enc_R_fields:
  "enc_R (ucast w) (ucast (drop_bit 7 w)) (ucast (drop_bit 12 w)) (ucast (drop_bit 15 w))
     (ucast (drop_bit 20 w)) (ucast (drop_bit 25 w)) = w"
  by (rule word32_eqI) (simp add: enc_R_def bit_simps)

lemma enc_I_fields:
  "enc_I (ucast w) (ucast (drop_bit 7 w)) (ucast (drop_bit 12 w)) (ucast (drop_bit 15 w))
     (ucast (drop_bit 20 w)) = w"
  by (rule word32_eqI) (simp add: enc_I_def bit_simps)

section \<open>Looking commands up\<close>

lemma getCmd_tab:
  "Decoder_getCmd riscv_decoder 0 0 = Inr Cmd_LB"
  "Decoder_getCmd riscv_decoder 0 1 = Inr Cmd_LH"
  "Decoder_getCmd riscv_decoder 0 2 = Inr Cmd_LW"
  "Decoder_getCmd riscv_decoder 0 3 = Inl (Throw ''Can not find instruction by opcode, funct3'')"
  "Decoder_getCmd riscv_decoder 0 4 = Inr Cmd_LBU"
  "Decoder_getCmd riscv_decoder 0 5 = Inr Cmd_LHU"
  "Decoder_getCmd riscv_decoder 0 6 = Inl (Throw ''Can not find instruction by opcode, funct3'')"
  "Decoder_getCmd riscv_decoder 0 7 = Inl (Throw ''Can not find instruction by opcode, funct3'')"
  "Decoder_getCmd riscv_decoder 3 0 = Inr Cmd_FENCE"
  "Decoder_getCmd riscv_decoder 3 1 = Inl (Throw ''Can not find instruction by opcode, funct3'')"
  "Decoder_getCmd riscv_decoder 3 2 = Inl (Throw ''Can not find instruction by opcode, funct3'')"
  "Decoder_getCmd riscv_decoder 3 3 = Inl (Throw ''Can not find instruction by opcode, funct3'')"
  "Decoder_getCmd riscv_decoder 3 4 = Inl (Throw ''Can not find instruction by opcode, funct3'')"
  "Decoder_getCmd riscv_decoder 3 5 = Inl (Throw ''Can not find instruction by opcode, funct3'')"
  "Decoder_getCmd riscv_decoder 3 6 = Inl (Throw ''Can not find instruction by opcode, funct3'')"
  "Decoder_getCmd riscv_decoder 3 7 = Inl (Throw ''Can not find instruction by opcode, funct3'')"
  "Decoder_getCmd riscv_decoder 4 0 = Inr Cmd_ADDI"
  "Decoder_getCmd riscv_decoder 4 1 = Inr Cmd_SLLI"
  "Decoder_getCmd riscv_decoder 4 2 = Inr Cmd_SLTI"
  "Decoder_getCmd riscv_decoder 4 3 = Inr Cmd_SLTIU"
  "Decoder_getCmd riscv_decoder 4 4 = Inr Cmd_XORI"
  "Decoder_getCmd riscv_decoder 4 5 = Inr Cmd_SRAI"
  "Decoder_getCmd riscv_decoder 4 6 = Inr Cmd_ORI"
  "Decoder_getCmd riscv_decoder 4 7 = Inr Cmd_ANDI"
  "Decoder_getCmd riscv_decoder 25 0 = Inr Cmd_JALR"
  "Decoder_getCmd riscv_decoder 25 1 = Inl (Throw ''Can not find instruction by opcode, funct3'')"
  "Decoder_getCmd riscv_decoder 25 2 = Inl (Throw ''Can not find instruction by opcode, funct3'')"
  "Decoder_getCmd riscv_decoder 25 3 = Inl (Throw ''Can not find instruction by opcode, funct3'')"
  "Decoder_getCmd riscv_decoder 25 4 = Inl (Throw ''Can not find instruction by opcode, funct3'')"
  "Decoder_getCmd riscv_decoder 25 5 = Inl (Throw ''Can not find instruction by opcode, funct3'')"
  "Decoder_getCmd riscv_decoder 25 6 = Inl (Throw ''Can not find instruction by opcode, funct3'')"
  "Decoder_getCmd riscv_decoder 25 7 = Inl (Throw ''Can not find instruction by opcode, funct3'')"
  "Decoder_getCmd riscv_decoder 28 0 = Inr Cmd_WFI"
  "Decoder_getCmd riscv_decoder 28 1 = Inr Cmd_CSRRW"
  "Decoder_getCmd riscv_decoder 28 2 = Inr Cmd_CSRRS"
  "Decoder_getCmd riscv_decoder 28 3 = Inr Cmd_CSRRC"
  "Decoder_getCmd riscv_decoder 28 4 = Inl (Throw ''Can not find instruction by opcode, funct3'')"
  "Decoder_getCmd riscv_decoder 28 5 = Inr Cmd_CSRRWI"
  "Decoder_getCmd riscv_decoder 28 6 = Inr Cmd_CSRRSI"
  "Decoder_getCmd riscv_decoder 28 7 = Inr Cmd_CSRRCI"
  "Decoder_getCmd riscv_decoder 8 0 = Inr Cmd_SB"
  "Decoder_getCmd riscv_decoder 8 1 = Inr Cmd_SH"
  "Decoder_getCmd riscv_decoder 8 2 = Inr Cmd_SW"
  "Decoder_getCmd riscv_decoder 8 3 = Inl (Throw ''Can not find instruction by opcode, funct3'')"
  "Decoder_getCmd riscv_decoder 8 4 = Inl (Throw ''Can not find instruction by opcode, funct3'')"
  "Decoder_getCmd riscv_decoder 8 5 = Inl (Throw ''Can not find instruction by opcode, funct3'')"
  "Decoder_getCmd riscv_decoder 8 6 = Inl (Throw ''Can not find instruction by opcode, funct3'')"
  "Decoder_getCmd riscv_decoder 8 7 = Inl (Throw ''Can not find instruction by opcode, funct3'')"
  "Decoder_getCmd riscv_decoder 24 0 = Inr Cmd_BEQ"
  "Decoder_getCmd riscv_decoder 24 1 = Inr Cmd_BNE"
  "Decoder_getCmd riscv_decoder 24 2 = Inl (Throw ''Can not find instruction by opcode, funct3'')"
  "Decoder_getCmd riscv_decoder 24 3 = Inl (Throw ''Can not find instruction by opcode, funct3'')"
  "Decoder_getCmd riscv_decoder 24 4 = Inr Cmd_BLT"
  "Decoder_getCmd riscv_decoder 24 5 = Inr Cmd_BGE"
  "Decoder_getCmd riscv_decoder 24 6 = Inr Cmd_BLTU"
  "Decoder_getCmd riscv_decoder 24 7 = Inr Cmd_BGEU"
  "Decoder_getCmd riscv_decoder 5 0 = Inr Cmd_AUIPC"
  "Decoder_getCmd riscv_decoder 13 0 = Inr Cmd_LUI"
  "Decoder_getCmd riscv_decoder 27 0 = Inr Cmd_JAL"
  by (simp_all add: Decoder_getCmd_def at_index_def opc_funct3_tab Cmd_of_u8_def all_cmds_def)

lemma getCmd_funct7_tab:
  "f7 < 128 \<Longrightarrow> Decoder_getCmd_funct7 riscv_decoder 12 0 f7 =
     (if f7 = 0 then Inr Cmd_ADD else if f7 = 1 then Inr Cmd_MUL else if f7 = 32 then Inr Cmd_SUB
      else Inl (Throw ''Can not find instruction by opcode, funct3, funct7''))"
  "f7 < 128 \<Longrightarrow> Decoder_getCmd_funct7 riscv_decoder 12 1 f7 =
     (if f7 = 0 then Inr Cmd_SLL else if f7 = 1 then Inr Cmd_MULH
      else Inl (Throw ''Can not find instruction by opcode, funct3, funct7''))"
  "f7 < 128 \<Longrightarrow> Decoder_getCmd_funct7 riscv_decoder 12 2 f7 =
     (if f7 = 0 then Inr Cmd_SLT else if f7 = 1 then Inr Cmd_MULHSU
      else Inl (Throw ''Can not find instruction by opcode, funct3, funct7''))"
  "f7 < 128 \<Longrightarrow> Decoder_getCmd_funct7 riscv_decoder 12 3 f7 =
     (if f7 = 0 then Inr Cmd_SLTU else if f7 = 1 then Inr Cmd_MULHU
      else Inl (Throw ''Can not find instruction by opcode, funct3, funct7''))"
  "f7 < 128 \<Longrightarrow> Decoder_getCmd_funct7 riscv_decoder 12 4 f7 =
     (if f7 = 0 then Inr Cmd_XOR else if f7 = 1 then Inr Cmd_DIV
      else Inl (Throw ''Can not find instruction by opcode, funct3, funct7''))"
  "f7 < 128 \<Longrightarrow> Decoder_getCmd_funct7 riscv_decoder 12 5 f7 =
     (if f7 = 0 then Inr Cmd_SRL else if f7 = 1 then Inr Cmd_DIVU else if f7 = 32 then Inr Cmd_SRA
      else Inl (Throw ''Can not find instruction by opcode, funct3, funct7''))"
  "f7 < 128 \<Longrightarrow> Decoder_getCmd_funct7 riscv_decoder 12 6 f7 =
     (if f7 = 0 then Inr Cmd_OR else if f7 = 1 then Inr Cmd_REM
      else Inl (Throw ''Can not find instruction by opcode, funct3, funct7''))"
  "f7 < 128 \<Longrightarrow> Decoder_getCmd_funct7 riscv_decoder 12 7 f7 =
     (if f7 = 0 then Inr Cmd_AND else if f7 = 1 then Inr Cmd_REMU
      else Inl (Throw ''Can not find instruction by opcode, funct3, funct7''))"
  by (simp_all add: Decoder_getCmd_funct7_def at_index_def opc_funct3_tab funct7_tab row_of_nth
      word_less_nat_alt word_unat_eq_iff)

section \<open>Dispatch on the opcode\<close>

lemma word_all:
  assumes "list_all P (map of_nat [0..<2 ^ LENGTH('a)])"
  shows "P (x :: 'a::len word)"
proof -
  have "unat x \<in> set [0..<2 ^ LENGTH('a)]"
    by (simp only: set_upt atLeastLessThan_iff le0 unsigned_less simp_thms)
  then have "of_nat (unat x) \<in> set (map of_nat [0..<2 ^ LENGTH('a)] :: 'a word list)"
    by (simp only: set_map imageI)
  then have "P (of_nat (unat x))"
    using assms by (simp only: list_all_iff)
  then show ?thesis by simp
qed

lemma word5_all:
  assumes "list_all P [0, 1, 2, 3, 4, 5, 6, 7, 8, 9, 10, 11, 12, 13, 14, 15, 16, 17, 18, 19, 20, 21, 22, 23, 24, 25,
     26, 27, 28, 29, 30, 31]"
  shows "P (x :: 5 word)"
proof (rule word_all)
  have "[0..<2 ^ LENGTH(5)] = [0, 1, 2, 3, 4, 5, 6, 7, 8, 9, 10, 11, 12, 13, 14, 15, 16, 17, 18, 19, 20, 21, 22, 23, 24, 25,
         26, 27, 28, 29, 30, 31]" by code_simp
  then show "list_all P (map of_nat [0..<2 ^ LENGTH(5)])"
    using assms by (simp only:) simp
qed

lemma word3_all: "list_all P [0, 1, 2, 3, 4, 5, 6, 7] \<Longrightarrow> P (x :: 3 word)"
proof (rule word_all)
  assume *: "list_all P [0, 1, 2, 3, 4, 5, 6, 7]"
  have "[0..<2 ^ LENGTH(3)] = [0, 1, 2, 3, 4, 5, 6, 7]" by code_simp
  then show "list_all P (map of_nat [0..<2 ^ LENGTH(3)])"
    using * by (simp only:) simp
qed

lemma opcode_bits:
  "(ucast (drop_bit 2 (w AND (push_bit 7 1 - 1 :: u32))) :: u8) = ucast (ucast (drop_bit 2 w) :: 5 word)"
proof -
  have "w AND (push_bit 7 1 - 1) = take_bit 7 w"
    by (rule word32_eqI) (simp add: bit_simps)
  then show ?thesis
    by (simp only:) (rule bit_word_eqI, auto simp: bit_simps)
qed

lemma sz_bits: "(ucast (w AND 0b11 :: u32) :: u8) = 0b11 \<longleftrightarrow> (ucast w :: 2 word) = 3"
proof -
  have "w AND 0b11 = ucast (ucast w :: 2 word)"
    by (rule word32_eqI) (simp add: bit_simps)
  moreover have "(ucast (ucast x :: u32) :: u8) = 3 \<longleftrightarrow> x = 3" for x :: "2 word"
    by (rule word_all [of _ x]) (simp add: upt_rec)
  ultimately show ?thesis by (simp only:)
qed

definition decode_opcode :: "5 word \<Rightarrow> u32 \<Rightarrow> fault + Inst" where
  "decode_opcode x w =
     (if x = 12 then decode_R riscv_decoder 12 (RFormat_of w)
      else if x \<in> {0, 3, 4, 25, 28} then decode_I riscv_decoder (ucast x) (IFormat_of w)
      else if x = 8 then decode_S riscv_decoder 8 (SFormat_of w)
      else if x = 24 then decode_B riscv_decoder 24 (SFormat_of w)
      else if x = 5 \<or> x = 13 then decode_U riscv_decoder (ucast x) (UFormat_of w)
      else if x = 27 then decode_J riscv_decoder 27 (UFormat_of w)
      else Inl (Throw ''Opcode is not supported''))"

lemma decode_riscv:
  "decode riscv_decoder w =
     (if (ucast w :: 2 word) \<noteq> 3 then Inl (Throw ''Packed instructions are not supported!'')
      else decode_opcode (ucast (drop_bit 2 w)) w)"
proof (cases "(ucast w :: 2 word) = 3")
  case True
  have "rbind (at_index (opc_to_fmt riscv_decoder) (unat (ucast x :: u8))) (\<lambda>format.
      if format = Fmt_UNDEFINED then Inl (Throw ''Opcode is not supported'')
      else if format = Fmt_R then decode_R riscv_decoder (ucast x) (RFormat_of w)
      else if format = Fmt_I then decode_I riscv_decoder (ucast x) (IFormat_of w)
      else if format = Fmt_S then decode_S riscv_decoder (ucast x) (SFormat_of w)
      else if format = Fmt_B then decode_B riscv_decoder (ucast x) (SFormat_of w)
      else if format = Fmt_U then decode_U riscv_decoder (ucast x) (UFormat_of w)
      else if format = Fmt_J then decode_J riscv_decoder (ucast x) (UFormat_of w)
      else Inl (Throw ''Decoding of this format is not implemented'')) = decode_opcode x w" for x
    by (rule word5_all [of _ x]) (simp add: opc_to_fmt_tab at_index_def decode_opcode_def)
  then show ?thesis
    using True by (simp only: decode_def Let_def opcode_bits sz_bits simp_thms if_False if_True)
next
  case False
  then show ?thesis
    by (simp only: decode_def Let_def sz_bits simp_thms if_True)
qed

section \<open>Immediates\<close>

lemma sext12 [simp]:
  "SignExtend (ucast (m :: 12 word)) 11 = Inr (signed_take_bit 11 (ucast m))"
proof -
  have "(ucast m :: u32) AND mask (Suc 11) = ucast m"
    by (rule bit_word_eqI) (auto simp: bit_simps dest: bit_imp_le_length)
  from SignExtend_eq [OF _ this] show ?thesis by simp
qed

lemma sext20 [simp]:
  "SignExtend (ucast (m :: 20 word)) 19 = Inr (signed_take_bit 19 (ucast m))"
proof -
  have "(ucast m :: u32) AND mask (Suc 19) = ucast m"
    by (rule bit_word_eqI) (auto simp: bit_simps dest: bit_imp_le_length)
  from SignExtend_eq [OF _ this] show ?thesis by simp
qed

lemma low12_sext [simp]: "ucast (signed_take_bit 11 (ucast m :: u32)) = (m :: 12 word)"
  by (rule bit_word_eqI) (auto simp: bit_simps min_def le_less)

lemma sext_low12: "signed_imm 12 imm \<Longrightarrow> signed_take_bit 11 (ucast (ucast imm :: 12 word)) = imm"
proof -
  assume "signed_imm 12 imm"
  moreover have "signed_take_bit 11 (ucast (ucast imm :: 12 word)) = signed_take_bit 11 imm"
    by (rule bit_word_eqI) (auto simp: bit_simps min_def)
  ultimately show ?thesis by (simp add: signed_imm_def)
qed

lemma signed_imm_sext12 [simp]: "signed_imm 12 (signed_take_bit 11 x)"
  by (simp add: signed_imm_def)

lemma signed_imm_sext20 [simp]: "signed_imm 20 (signed_take_bit 19 x)"
  by (simp add: signed_imm_def)

text \<open>The 12-bit immediate of a shift: five bits of amount under seven of \<^verbatim>\<open>funct7\<close>.\<close>

lemma sext12_shift:
  assumes "drop_bit 5 (ucast (m :: 12 word)) = (k :: u32)" and "k = 0 \<or> k = 0b0100000"
  shows "signed_take_bit 11 (ucast m) = (ucast m :: u32)"
proof -
  have "bit (drop_bit 5 (ucast m :: u32)) 6 = bit m 11"
    by (simp add: bit_simps)
  then have "\<not> bit m 11"
    using assms by auto
  then show ?thesis
    by (intro bit_word_eqI) (auto simp: bit_simps min_def le_less dest: bit_imp_le_length)
qed

lemma shift_imm_low12:
  assumes "drop_bit 5 imm = (k :: u32)" and "k = 0 \<or> k = 0b0100000"
  shows "ucast (ucast imm :: 12 word) = imm"
proof (rule bit_word_eqI)
  fix n
  have "bit imm n \<Longrightarrow> n < 12"
  proof (rule ccontr)
    assume "bit imm n" and n: "\<not> n < 12"
    then have "bit (drop_bit 5 imm) (n - 5)" by (simp add: bit_simps)
    then have "bit k (n - 5)" using assms(1) by (simp only:)
    moreover have "k = 0 \<or> k = 2 ^ 5" using assms(2) by simp
    ultimately have "n - 5 = 5"
      by (elim disjE) (simp_all only: bit_0_eq bot_apply bot_bool_def simp_thms bit_exp_iff)
    with n show False by simp
  qed
  then show "bit (ucast (ucast imm :: 12 word) :: u32) n = bit imm n"
    by (auto simp: bit_simps dest: bit_imp_le_length)
qed

section \<open>What the decoder returns is an instruction of the manual\<close>

text \<open>The major opcode whose upper five bits are \<open>x\<close>.\<close>

definition major :: "5 word \<Rightarrow> 7 word" where
  "major x = push_bit 2 (ucast x) OR mask 2"

lemma major_fields:
  assumes "(ucast w :: 2 word) = 3"
  shows "major (ucast (drop_bit 2 w)) = ucast (w :: u32)"
proof -
  have "bit (ucast w :: 2 word) n = bit (3 :: 2 word) n" for n
    using assms by simp
  from this [of 0] this [of 1] have "bit w 0" "bit w 1"
    by (simp_all add: bit_simps)
  have "bit (major (ucast (drop_bit 2 w))) n = bit (ucast w :: 7 word) n" if "n < 7" for n
  proof (cases "n < 2")
    case True
    then have "n = 0 \<or> n = 1" by auto
    then show ?thesis using \<open>bit w 0\<close> \<open>bit w 1\<close>
      by (auto simp: major_def bit_simps)
  next
    case False
    then obtain k where "n = Suc (Suc k)"
      by (metis add_2_eq_Suc le_Suc_ex not_less)
    then have "bit (major (ucast (drop_bit 2 w))) n = bit w n"
      unfolding major_def bit_or_iff bit_push_bit_iff bit_unsigned_iff bit_drop_bit_eq comp_def bit_mask_iff
      using that by simp
    then show ?thesis using that by (simp add: bit_simps)
  qed
  then show ?thesis by (intro bit_word_eqI) simp
qed

lemma ucast5_less [simp]: "(ucast (x :: 5 word) :: u8) < 32"
  using ucast_less_exp [of x, where 'b = 8] by (simp add: word_less_nat_alt)

lemma ucast7_less [simp]: "(ucast (x :: 7 word) :: u8) < 128"
  using ucast_less_exp [of x, where 'b = 8] by (simp add: word_less_nat_alt)

lemma ucast_ucast_5_8 [simp]: "ucast (ucast (x :: 5 word) :: u8) = x"
  by (rule bit_word_eqI) (auto simp: bit_simps)

lemma ucast_7_8_eq [simp]:
  "(ucast (x :: 7 word) :: u8) = 0 \<longleftrightarrow> x = 0" "(ucast (x :: 7 word) :: u8) = 1 \<longleftrightarrow> x = 1"
  "(ucast (x :: 7 word) :: u8) = 32 \<longleftrightarrow> x = 32"
  by (simp_all add: word_unat_eq_iff unat_ucast_up)

lemma isa_opcode_tab [simp]:
  "isa_opcode Cmd_LUI = 55"
  "isa_opcode Cmd_AUIPC = 23"
  "isa_opcode Cmd_JAL = 111"
  "isa_opcode Cmd_JALR = 103"
  "isa_opcode Cmd_BEQ = 99"
  "isa_opcode Cmd_BNE = 99"
  "isa_opcode Cmd_BLT = 99"
  "isa_opcode Cmd_BGE = 99"
  "isa_opcode Cmd_BLTU = 99"
  "isa_opcode Cmd_BGEU = 99"
  "isa_opcode Cmd_LB = 3"
  "isa_opcode Cmd_LH = 3"
  "isa_opcode Cmd_LW = 3"
  "isa_opcode Cmd_LBU = 3"
  "isa_opcode Cmd_LHU = 3"
  "isa_opcode Cmd_SB = 35"
  "isa_opcode Cmd_SH = 35"
  "isa_opcode Cmd_SW = 35"
  "isa_opcode Cmd_ADDI = 19"
  "isa_opcode Cmd_SLTI = 19"
  "isa_opcode Cmd_SLTIU = 19"
  "isa_opcode Cmd_XORI = 19"
  "isa_opcode Cmd_ORI = 19"
  "isa_opcode Cmd_ANDI = 19"
  "isa_opcode Cmd_SLLI = 19"
  "isa_opcode Cmd_SRLI = 19"
  "isa_opcode Cmd_SRAI = 19"
  "isa_opcode Cmd_ADD = 51"
  "isa_opcode Cmd_SUB = 51"
  "isa_opcode Cmd_SLL = 51"
  "isa_opcode Cmd_SLT = 51"
  "isa_opcode Cmd_SLTU = 51"
  "isa_opcode Cmd_XOR = 51"
  "isa_opcode Cmd_SRL = 51"
  "isa_opcode Cmd_SRA = 51"
  "isa_opcode Cmd_OR = 51"
  "isa_opcode Cmd_AND = 51"
  "isa_opcode Cmd_ECALL = 115"
  "isa_opcode Cmd_EBREAK = 115"
  "isa_opcode Cmd_URET = 115"
  "isa_opcode Cmd_SRET = 115"
  "isa_opcode Cmd_MRET = 115"
  "isa_opcode Cmd_WFI = 115"
  "isa_opcode Cmd_FENCE = 15"
  "isa_opcode Cmd_CSRRW = 115"
  "isa_opcode Cmd_CSRRS = 115"
  "isa_opcode Cmd_CSRRC = 115"
  "isa_opcode Cmd_CSRRWI = 115"
  "isa_opcode Cmd_CSRRSI = 115"
  "isa_opcode Cmd_CSRRCI = 115"
  "isa_opcode Cmd_MUL = 51"
  "isa_opcode Cmd_MULH = 51"
  "isa_opcode Cmd_MULHSU = 51"
  "isa_opcode Cmd_MULHU = 51"
  "isa_opcode Cmd_DIV = 51"
  "isa_opcode Cmd_DIVU = 51"
  "isa_opcode Cmd_REM = 51"
  "isa_opcode Cmd_REMU = 51"
  by (simp_all add: isa_opcode_def)

lemma isa_funct3_tab [simp]:
  "isa_funct3 Cmd_LUI = 0"
  "isa_funct3 Cmd_AUIPC = 0"
  "isa_funct3 Cmd_JAL = 0"
  "isa_funct3 Cmd_JALR = 0"
  "isa_funct3 Cmd_BEQ = 0"
  "isa_funct3 Cmd_BNE = 1"
  "isa_funct3 Cmd_BLT = 4"
  "isa_funct3 Cmd_BGE = 5"
  "isa_funct3 Cmd_BLTU = 6"
  "isa_funct3 Cmd_BGEU = 7"
  "isa_funct3 Cmd_LB = 0"
  "isa_funct3 Cmd_LH = 1"
  "isa_funct3 Cmd_LW = 2"
  "isa_funct3 Cmd_LBU = 4"
  "isa_funct3 Cmd_LHU = 5"
  "isa_funct3 Cmd_SB = 0"
  "isa_funct3 Cmd_SH = 1"
  "isa_funct3 Cmd_SW = 2"
  "isa_funct3 Cmd_ADDI = 0"
  "isa_funct3 Cmd_SLTI = 2"
  "isa_funct3 Cmd_SLTIU = 3"
  "isa_funct3 Cmd_XORI = 4"
  "isa_funct3 Cmd_ORI = 6"
  "isa_funct3 Cmd_ANDI = 7"
  "isa_funct3 Cmd_SLLI = 1"
  "isa_funct3 Cmd_SRLI = 5"
  "isa_funct3 Cmd_SRAI = 5"
  "isa_funct3 Cmd_ADD = 0"
  "isa_funct3 Cmd_SUB = 0"
  "isa_funct3 Cmd_SLL = 1"
  "isa_funct3 Cmd_SLT = 2"
  "isa_funct3 Cmd_SLTU = 3"
  "isa_funct3 Cmd_XOR = 4"
  "isa_funct3 Cmd_SRL = 5"
  "isa_funct3 Cmd_SRA = 5"
  "isa_funct3 Cmd_OR = 6"
  "isa_funct3 Cmd_AND = 7"
  "isa_funct3 Cmd_ECALL = 0"
  "isa_funct3 Cmd_EBREAK = 0"
  "isa_funct3 Cmd_URET = 0"
  "isa_funct3 Cmd_SRET = 0"
  "isa_funct3 Cmd_MRET = 0"
  "isa_funct3 Cmd_WFI = 0"
  "isa_funct3 Cmd_FENCE = 0"
  "isa_funct3 Cmd_CSRRW = 1"
  "isa_funct3 Cmd_CSRRS = 2"
  "isa_funct3 Cmd_CSRRC = 3"
  "isa_funct3 Cmd_CSRRWI = 5"
  "isa_funct3 Cmd_CSRRSI = 6"
  "isa_funct3 Cmd_CSRRCI = 7"
  "isa_funct3 Cmd_MUL = 0"
  "isa_funct3 Cmd_MULH = 1"
  "isa_funct3 Cmd_MULHSU = 2"
  "isa_funct3 Cmd_MULHU = 3"
  "isa_funct3 Cmd_DIV = 4"
  "isa_funct3 Cmd_DIVU = 5"
  "isa_funct3 Cmd_REM = 6"
  "isa_funct3 Cmd_REMU = 7"
  by (simp_all add: isa_funct3_def)

lemma isa_funct7_tab [simp]:
  "isa_funct7 Cmd_LUI = 0"
  "isa_funct7 Cmd_AUIPC = 0"
  "isa_funct7 Cmd_JAL = 0"
  "isa_funct7 Cmd_JALR = 0"
  "isa_funct7 Cmd_BEQ = 0"
  "isa_funct7 Cmd_BNE = 0"
  "isa_funct7 Cmd_BLT = 0"
  "isa_funct7 Cmd_BGE = 0"
  "isa_funct7 Cmd_BLTU = 0"
  "isa_funct7 Cmd_BGEU = 0"
  "isa_funct7 Cmd_LB = 0"
  "isa_funct7 Cmd_LH = 0"
  "isa_funct7 Cmd_LW = 0"
  "isa_funct7 Cmd_LBU = 0"
  "isa_funct7 Cmd_LHU = 0"
  "isa_funct7 Cmd_SB = 0"
  "isa_funct7 Cmd_SH = 0"
  "isa_funct7 Cmd_SW = 0"
  "isa_funct7 Cmd_ADDI = 0"
  "isa_funct7 Cmd_SLTI = 0"
  "isa_funct7 Cmd_SLTIU = 0"
  "isa_funct7 Cmd_XORI = 0"
  "isa_funct7 Cmd_ORI = 0"
  "isa_funct7 Cmd_ANDI = 0"
  "isa_funct7 Cmd_SLLI = 0"
  "isa_funct7 Cmd_SRLI = 0"
  "isa_funct7 Cmd_SRAI = 0"
  "isa_funct7 Cmd_ADD = 0"
  "isa_funct7 Cmd_SUB = 32"
  "isa_funct7 Cmd_SLL = 0"
  "isa_funct7 Cmd_SLT = 0"
  "isa_funct7 Cmd_SLTU = 0"
  "isa_funct7 Cmd_XOR = 0"
  "isa_funct7 Cmd_SRL = 0"
  "isa_funct7 Cmd_SRA = 32"
  "isa_funct7 Cmd_OR = 0"
  "isa_funct7 Cmd_AND = 0"
  "isa_funct7 Cmd_ECALL = 0"
  "isa_funct7 Cmd_EBREAK = 0"
  "isa_funct7 Cmd_URET = 0"
  "isa_funct7 Cmd_SRET = 0"
  "isa_funct7 Cmd_MRET = 0"
  "isa_funct7 Cmd_WFI = 0"
  "isa_funct7 Cmd_FENCE = 0"
  "isa_funct7 Cmd_CSRRW = 0"
  "isa_funct7 Cmd_CSRRS = 0"
  "isa_funct7 Cmd_CSRRC = 0"
  "isa_funct7 Cmd_CSRRWI = 0"
  "isa_funct7 Cmd_CSRRSI = 0"
  "isa_funct7 Cmd_CSRRCI = 0"
  "isa_funct7 Cmd_MUL = 1"
  "isa_funct7 Cmd_MULH = 1"
  "isa_funct7 Cmd_MULHSU = 1"
  "isa_funct7 Cmd_MULHU = 1"
  "isa_funct7 Cmd_DIV = 1"
  "isa_funct7 Cmd_DIVU = 1"
  "isa_funct7 Cmd_REM = 1"
  "isa_funct7 Cmd_REMU = 1"
  by (simp_all add: isa_funct7_def)

lemma decode_R_sound:
  assumes "decode_R riscv_decoder 12 f = Inr i"
  shows "legal_inst i \<and> encode i =
    enc_R (major 12) (r_rd f) (r_funct3 f) (r_rs1 f) (r_rs2 f) (r_funct7 f)"
proof -
  have m: "major 12 = 51" by (simp add: major_def mask_eq_exp_minus_1)
  have l: "list_all (\<lambda>f3. r_funct3 f = f3 \<longrightarrow> decode_R riscv_decoder 12 f = Inr i \<longrightarrow> legal_inst i \<and> encode i =
      enc_R 51 (r_rd f) f3 (r_rs1 f) (r_rs2 f) (r_funct7 f)) [0, 1, 2, 3, 4, 5, 6, 7]"
    unfolding list.pred_inject
    by (intro conjI impI; simp add: decode_R_def getCmd_funct7_tab GenInst_R_eq cmd_format_by_opcode
       legal_inst_def encode_def split: if_splits; clarsimp)
  from word3_all [OF l, of "r_funct3 f"] show ?thesis
    using assms m by simp
qed

lemma ucast_ucast_12_32 [simp]: "ucast (ucast (m :: 12 word) :: u32) = m"
  by (rule bit_word_eqI) (auto simp: bit_simps)

lemma ucast_12_32_eq [simp]:
  "(ucast (m :: 12 word) :: u32) = 0 \<longleftrightarrow> m = 0" "(ucast m :: u32) = 1 \<longleftrightarrow> m = 1"
  "unat (numeral k :: 12 word) = unat (numeral k :: u32) \<Longrightarrow>
    (ucast m :: u32) = numeral k \<longleftrightarrow> m = numeral k"
  by (simp_all add: word_unat_eq_iff unat_ucast_up)

lemma decode_I_sound_at:
  assumes "x \<in> {0, 3, 4, 25, 28}"
  shows "list_all (\<lambda>f3. i_funct3 f = f3 \<longrightarrow> decode_I riscv_decoder (ucast x) f = Inr i \<longrightarrow>
      legal_inst i \<and> encode i = enc_I (major x) (i_rd f) f3 (i_rs1 f) (i_imm f)) [0, 1, 2, 3, 4, 5, 6, 7]"
  unfolding list.pred_inject
  using assms
  by (elim insertE; intro conjI impI TrueI; clarsimp simp: decode_I_def getCmd_tab decode_I_shift_def GenInst_I_eq
       cmd_format_by_opcode legal_inst_def legal_I_def encode_def major_def mask_eq_exp_minus_1 sext12_shift
       decode_I_system_def Let_def split: if_splits)

text \<open>The immediates of the S, B and J formats, put together from their fields.\<close>

definition S_imm :: "SFormat \<Rightarrow> u32" where
  "S_imm f = push_bit 5 (ucast (s_imm2 f)) OR ucast (s_imm1 f)"

definition B_imm :: "SFormat \<Rightarrow> u32" where
  "B_imm f = drop_bit 1 (ucast (s_imm1 f)) OR push_bit 4 (ucast (s_imm2 f) AND 0x3f)
     OR push_bit 10 (ucast (s_imm1 f) AND 1) OR push_bit 11 (drop_bit 6 (ucast (s_imm2 f)))"

definition J_imm :: "UFormat \<Rightarrow> u32" where
  "J_imm f = (drop_bit 9 (ucast (u_imm f)) AND 0x3ff) OR push_bit 10 (drop_bit 8 (ucast (u_imm f)) AND 1)
     OR push_bit 11 (ucast (u_imm f) AND 0xff) OR push_bit 19 (drop_bit 19 (ucast (u_imm f)))"

lemma and_fields:
  "w AND 0x3f = field 5 0 w" "w AND 1 = field 0 0 w" "drop_bit 9 w AND 0x3ff = field 18 9 w"
  "drop_bit 8 w AND 1 = field 8 8 w" "w AND 0xff = field 7 0 w"
  by (rule word32_eqI, simp add: bit_simps)+

lemma B_imm_fields:
  "B_imm f = field 4 1 (ucast (s_imm1 f)) OR push_bit 4 (field 5 0 (ucast (s_imm2 f)))
     OR push_bit 10 (field 0 0 (ucast (s_imm1 f))) OR push_bit 11 (field 6 6 (ucast (s_imm2 f)))"
  unfolding B_imm_def and_fields
  by (rule bit_word_eqI) (auto simp: bit_simps dest: bit_imp_le_length)

lemma J_imm_fields:
  "J_imm f = field 18 9 (ucast (u_imm f)) OR push_bit 10 (field 8 8 (ucast (u_imm f)))
     OR push_bit 11 (field 7 0 (ucast (u_imm f))) OR push_bit 19 (field 19 19 (ucast (u_imm f)))"
  unfolding J_imm_def and_fields
  by (rule bit_word_eqI) (auto simp: bit_simps dest: bit_imp_le_length)

lemma SignExtend_S: "SignExtend (S_imm f) 11 = Inr (signed_take_bit 11 (S_imm f))"
proof -
  have "S_imm f AND mask (Suc 11) = S_imm f"
    by (rule bit_word_eqI) (auto simp: S_imm_def bit_simps dest: bit_imp_le_length)
  from SignExtend_eq [OF _ this] show ?thesis by simp
qed

lemma SignExtend_B: "SignExtend (B_imm f) 11 = Inr (signed_take_bit 11 (B_imm f))"
proof -
  have "B_imm f AND mask (Suc 11) = B_imm f"
    by (rule bit_word_eqI) (auto simp: B_imm_fields bit_simps dest: bit_imp_le_length)
  from SignExtend_eq [OF _ this] show ?thesis by simp
qed

lemma SignExtend_J: "SignExtend (J_imm f) 19 = Inr (signed_take_bit 19 (J_imm f))"
proof -
  have "J_imm f AND mask (Suc 19) = J_imm f"
    by (rule bit_word_eqI) (auto simp: J_imm_fields bit_simps dest: bit_imp_le_length)
  from SignExtend_eq [OF _ this] show ?thesis by simp
qed

lemma enc_S_fields:
  "enc_S (ucast w) (ucast (drop_bit 12 w)) (ucast (drop_bit 15 w)) (ucast (drop_bit 20 w))
     (signed_take_bit 11 (S_imm (SFormat_of w))) = w"
  by (rule word32_eqI) (simp add: enc_S_def S_imm_def SFormat_of_def bit_simps)

lemma enc_B_fields:
  "enc_B (ucast w) (ucast (drop_bit 12 w)) (ucast (drop_bit 15 w)) (ucast (drop_bit 20 w))
     (2 * signed_take_bit 11 (B_imm (SFormat_of w))) = w"
  by (rule word32_eqI) (simp add: enc_B_def B_imm_fields SFormat_of_def bit_simps)

lemma enc_J_fields:
  "enc_J (ucast w) (ucast (drop_bit 7 w)) (2 * signed_take_bit 19 (J_imm (UFormat_of w))) = w"
  by (rule word32_eqI) (simp add: enc_J_def J_imm_fields UFormat_of_def bit_simps)

lemma enc_U_fields:
  "enc_U (ucast w) (ucast (drop_bit 7 w)) (push_bit 12 (ucast (u_imm (UFormat_of w)))) = w"
  by (rule word32_eqI) (simp add: enc_U_def UFormat_of_def bit_simps)

lemma decode_S_eq: "decode_S d opcode f =
     rbind (Decoder_getCmd d opcode (ucast (s_funct3 f))) (\<lambda>cmd. GenInst_S cmd (signed_take_bit 11 (S_imm f)) (ucast (s_rs1 f)) (ucast (s_rs2 f)))"
  by (simp only: decode_S_def S_imm_def [symmetric] SignExtend_S rbind.simps)

lemma decode_B_eq: "decode_B d opcode f =
     rbind (Decoder_getCmd d opcode (ucast (s_funct3 f))) (\<lambda>cmd. GenInst_B cmd (signed_take_bit 11 (B_imm f)) (ucast (s_rs1 f)) (ucast (s_rs2 f)))"
  by (simp only: decode_B_def B_imm_def [symmetric] SignExtend_B rbind.simps)

lemma decode_J_eq: "decode_J d opcode f =
     rbind (Decoder_getCmd d opcode 0) (\<lambda>cmd. GenInst_J cmd (ucast (u_rd f)) (signed_take_bit 19 (J_imm f)))"
  by (simp only: decode_J_def J_imm_def [symmetric] SignExtend_J rbind.simps)

lemma decode_S_sound_at:
  "list_all (\<lambda>f3. s_funct3 f = f3 \<longrightarrow> decode_S riscv_decoder 8 f = Inr i \<longrightarrow>
      legal_inst i \<and> encode i = enc_S (major 8) f3 (s_rs1 f) (s_rs2 f) (signed_take_bit 11 (S_imm f)))
    [0, 1, 2, 3, 4, 5, 6, 7]"
  unfolding list.pred_inject decode_S_eq
  by (intro conjI impI TrueI; clarsimp simp: getCmd_tab GenInst_S_eq cmd_format_by_opcode
      legal_inst_def encode_def major_def mask_eq_exp_minus_1)

lemma decode_B_sound_at:
  "list_all (\<lambda>f3. s_funct3 f = f3 \<longrightarrow> decode_B riscv_decoder 24 f = Inr i \<longrightarrow>
      legal_inst i \<and> encode i = enc_B (major 24) f3 (s_rs1 f) (s_rs2 f) (2 * signed_take_bit 11 (B_imm f)))
    [0, 1, 2, 3, 4, 5, 6, 7]"
  unfolding list.pred_inject decode_B_eq
  by (intro conjI impI TrueI; clarsimp simp: getCmd_tab GenInst_B_eq cmd_format_by_opcode
      legal_inst_def encode_def major_def mask_eq_exp_minus_1)

lemma low12_zero: "push_bit 12 x AND mask 12 = (0 :: u32)"
  by (rule bit_word_eqI) (auto simp: bit_simps)

lemma decode_U_sound:
  "\<lbrakk>decode_U riscv_decoder (ucast x) f = Inr i; x = 5 \<or> x = 13\<rbrakk> \<Longrightarrow>
    legal_inst i \<and> encode i = enc_U (major x) (u_rd f) (push_bit 12 (ucast (u_imm f)))"
  by (elim disjE; clarsimp simp: decode_U_def getCmd_tab GenInst_U_eq cmd_format_by_opcode
      legal_inst_def encode_def major_def mask_eq_exp_minus_1 low12_zero [unfolded mask_eq_exp_minus_1, simplified])

lemma decode_J_sound:
  "decode_J riscv_decoder 27 f = Inr i \<Longrightarrow>
    legal_inst i \<and> encode i = enc_J (major 27) (u_rd f) (2 * signed_take_bit 19 (J_imm f))"
  unfolding decode_J_eq
  by (clarsimp simp: getCmd_tab GenInst_J_eq cmd_format_by_opcode
      legal_inst_def encode_def major_def mask_eq_exp_minus_1)

lemma decode_sound:
  assumes "decode riscv_decoder w = Inr i"
  shows "legal_inst i \<and> encode i = w"
proof -
  define x :: "5 word" where "x = ucast (drop_bit 2 w)"
  from assms have sz: "(ucast w :: 2 word) = 3" and d: "decode_opcode x w = Inr i"
    by (auto simp: decode_riscv x_def split: if_splits)
  have m: "major x = ucast w"
    unfolding x_def by (rule major_fields [OF sz])
  consider "x = 12" | "x \<in> {0, 3, 4, 25, 28}" | "x = 8" | "x = 24" | "x = 5 \<or> x = 13" | "x = 27"
    using d by (auto simp: decode_opcode_def split: if_splits)
  then show ?thesis
  proof cases
    case 1
    with d have "decode_R riscv_decoder 12 (RFormat_of w) = Inr i"
      by (simp add: decode_opcode_def)
    from decode_R_sound [OF this] 1 m enc_R_fields [of w] show ?thesis
      by (simp add: RFormat_of_def)
  next
    case 2
    with d have "decode_I riscv_decoder (ucast x) (IFormat_of w) = Inr i"
      by (auto simp: decode_opcode_def)
    with word3_all [OF decode_I_sound_at [OF 2, where f = "IFormat_of w" and i = i], of "i_funct3 (IFormat_of w)"] m enc_I_fields [of w]
    show ?thesis by (simp add: IFormat_of_def)
  next
    case 3
    with d have "decode_S riscv_decoder 8 (SFormat_of w) = Inr i"
      by (simp add: decode_opcode_def)
    with word3_all [OF decode_S_sound_at [where f = "SFormat_of w" and i = i], of "s_funct3 (SFormat_of w)"] m 3 enc_S_fields [of w]
    show ?thesis by (simp add: SFormat_of_def)
  next
    case 4
    with d have "decode_B riscv_decoder 24 (SFormat_of w) = Inr i"
      by (simp add: decode_opcode_def)
    with word3_all [OF decode_B_sound_at [where f = "SFormat_of w" and i = i], of "s_funct3 (SFormat_of w)"] m 4 enc_B_fields [of w]
    show ?thesis by (simp add: SFormat_of_def)
  next
    case 5
    with d have "decode_U riscv_decoder (ucast x) (UFormat_of w) = Inr i"
      by (auto simp: decode_opcode_def)
    from decode_U_sound [OF this 5] m enc_U_fields [of w] show ?thesis
      by (simp add: UFormat_of_def)
  next
    case 6
    with d have "decode_J riscv_decoder 27 (UFormat_of w) = Inr i"
      by (simp add: decode_opcode_def)
    from decode_J_sound [OF this] m 6 enc_J_fields [of w] show ?thesis
      by (simp add: UFormat_of_def)
  qed
qed

section \<open>Every instruction of the manual is decoded\<close>

lemma enc_low:
  "(ucast (enc_R opc rd f3 rs1 rs2 f7) :: 2 word) = ucast opc"
  "(ucast (enc_I opc rd f3 rs1 m) :: 2 word) = ucast opc"
  "(ucast (enc_S opc f3 rs1 rs2 imm) :: 2 word) = ucast opc"
  "(ucast (enc_B opc f3 rs1 rs2 imm) :: 2 word) = ucast opc"
  "(ucast (enc_U opc rd imm) :: 2 word) = ucast opc"
  "(ucast (enc_J opc rd imm) :: 2 word) = ucast opc"
  "(ucast (drop_bit 2 (enc_R opc rd f3 rs1 rs2 f7)) :: 5 word) = ucast (drop_bit 2 opc)"
  "(ucast (drop_bit 2 (enc_I opc rd f3 rs1 m)) :: 5 word) = ucast (drop_bit 2 opc)"
  "(ucast (drop_bit 2 (enc_S opc f3 rs1 rs2 imm)) :: 5 word) = ucast (drop_bit 2 opc)"
  "(ucast (drop_bit 2 (enc_B opc f3 rs1 rs2 imm)) :: 5 word) = ucast (drop_bit 2 opc)"
  "(ucast (drop_bit 2 (enc_U opc rd imm)) :: 5 word) = ucast (drop_bit 2 opc)"
  "(ucast (drop_bit 2 (enc_J opc rd imm)) :: 5 word) = ucast (drop_bit 2 opc)"
  using arg_cong [OF RFormat_enc_R, of r_sz] arg_cong [OF RFormat_enc_R, of r_opcode]
    arg_cong [OF IFormat_enc_I, of i_sz] arg_cong [OF IFormat_enc_I, of i_opcode]
    arg_cong [OF SFormat_enc_S, of s_sz] arg_cong [OF SFormat_enc_S, of s_opcode]
    arg_cong [OF SFormat_enc_B, of s_sz] arg_cong [OF SFormat_enc_B, of s_opcode]
    arg_cong [OF UFormat_enc_U, of u_sz] arg_cong [OF UFormat_enc_U, of u_opcode]
    arg_cong [OF UFormat_enc_J, of u_sz] arg_cong [OF UFormat_enc_J, of u_opcode]
  by (simp_all add: RFormat_of_def IFormat_of_def SFormat_of_def UFormat_of_def)

lemma ucast_5_8_reg [simp]: "r < 32 \<Longrightarrow> ucast (ucast (r :: u8) :: 5 word) = r"
proof -
  assume "r < 32"
  then have "unat r < 2 ^ 5" by (simp add: word_less_nat_alt)
  then show ?thesis
    by (simp add: word_unat_eq_iff unat_ucast_up unsigned_ucast_eq take_bit_nat_eq_self
        unsigned_take_bit_eq)
qed

lemma shift_imm_sext:
  assumes "drop_bit 5 imm = (k :: u32)" and "k = 0 \<or> k = 0b0100000"
  shows "signed_take_bit 11 (ucast (ucast imm :: 12 word)) = imm"
    and "drop_bit 5 (ucast (ucast imm :: 12 word) :: u32) = k"
  using shift_imm_low12 [OF assms] assms sext12_shift [of "ucast imm" k] by simp_all

lemma S_imm_enc: "signed_take_bit 11 (S_imm (SFormat_of (enc_S opc f3 rs1 rs2 imm))) = signed_take_bit 11 imm"
  by (rule word32_eqI) (simp add: SFormat_enc_S S_imm_def bit_simps)

lemma B_imm_enc:
  "signed_take_bit 11 (B_imm (SFormat_of (enc_B opc f3 rs1 rs2 (2 * imm)))) = signed_take_bit 11 imm"
  by (rule word32_eqI) (simp add: SFormat_enc_B B_imm_fields bit_simps)

lemma J_imm_enc:
  "signed_take_bit 19 (J_imm (UFormat_of (enc_J opc rd (2 * imm)))) = signed_take_bit 19 imm"
  by (rule word32_eqI) (simp add: UFormat_enc_J J_imm_fields bit_simps)

lemma U_imm_enc:
  assumes "imm AND mask 12 = 0"
  shows "push_bit 12 (ucast (u_imm (UFormat_of (enc_U opc rd imm)))) = (imm :: u32)"
proof (rule bit_word_eqI)
  fix n assume "n < LENGTH(32)"
  have "\<not> (bit imm n \<and> n < 12)"
    using arg_cong [OF assms, of "\<lambda>w. bit w n"] \<open>n < LENGTH(32)\<close>
    by (auto simp: bit_and_iff bit_mask_iff)
  with \<open>n < LENGTH(32)\<close> show "bit (push_bit 12 (ucast (u_imm (UFormat_of (enc_U opc rd imm)))) :: u32) n = bit imm n"
    by (auto simp: UFormat_enc_U bit_simps)
qed

lemma inst_of_eta:
  "wf_inst i \<Longrightarrow> i = inst_of (inst_cmd i) (inst_rd i) (inst_rs1 i) (inst_rs2 i) (inst_imm i)"
  by (simp add: inst_of_def wf_inst_def)

lemma decode_encode_R:
  assumes "cmd_format c = Fmt_R" "c \<noteq> Cmd_UNDEFINED" "d < 32" "a < 32" "b < 32"
  shows "decode riscv_decoder (encode (inst_of c d a b 0)) = Inr (inst_of c d a b 0)"
  using assms
  by (cases c; simp add: cmd_format_by_opcode;
      simp add: encode_def decode_riscv enc_low decode_opcode_def RFormat_enc_R decode_R_def
        getCmd_funct7_tab GenInst_R_eq cmd_format_by_opcode)

lemma decode_encode_S:
  assumes "cmd_format c = Fmt_S" "c \<noteq> Cmd_UNDEFINED" "a < 32" "b < 32" "signed_imm 12 imm"
  shows "decode riscv_decoder (encode (inst_of c 0 a b imm)) = Inr (inst_of c 0 a b imm)"
proof -
  have imm: "signed_take_bit 11 imm = imm" using assms(5) by (simp add: signed_imm_def)
  show ?thesis
    using assms(1-4)
    by (cases c; simp add: cmd_format_by_opcode;
        simp add: encode_def decode_riscv enc_low decode_opcode_def decode_S_eq S_imm_enc imm;
        simp add: SFormat_enc_S getCmd_tab GenInst_S_eq cmd_format_by_opcode)
qed

lemma decode_encode_B:
  assumes "cmd_format c = Fmt_B" "c \<noteq> Cmd_UNDEFINED" "a < 32" "b < 32" "signed_imm 12 imm"
  shows "decode riscv_decoder (encode (inst_of c 0 a b imm)) = Inr (inst_of c 0 a b imm)"
proof -
  have imm: "signed_take_bit 11 imm = imm" using assms(5) by (simp add: signed_imm_def)
  show ?thesis
    using assms(1-4)
    by (cases c; simp add: cmd_format_by_opcode;
        simp add: encode_def decode_riscv enc_low decode_opcode_def decode_B_eq B_imm_enc imm;
        simp add: SFormat_enc_B getCmd_tab GenInst_B_eq cmd_format_by_opcode)
qed

lemma decode_encode_U:
  assumes "cmd_format c = Fmt_U" "c \<noteq> Cmd_UNDEFINED" "d < 32" "imm AND mask 12 = 0"
  shows "decode riscv_decoder (encode (inst_of c d 0 0 imm)) = Inr (inst_of c d 0 0 imm)"
  using assms(1-3)
  by (cases c; simp add: cmd_format_by_opcode;
      simp add: encode_def decode_riscv enc_low decode_opcode_def decode_U_def U_imm_enc [OF assms(4)];
      simp add: UFormat_enc_U getCmd_tab GenInst_U_eq cmd_format_by_opcode)

lemma decode_encode_J:
  assumes "cmd_format c = Fmt_J" "c \<noteq> Cmd_UNDEFINED" "d < 32" "signed_imm 20 imm"
  shows "decode riscv_decoder (encode (inst_of c d 0 0 imm)) = Inr (inst_of c d 0 0 imm)"
proof -
  have imm: "signed_take_bit 19 imm = imm" using assms(4) by (simp add: signed_imm_def)
  show ?thesis
    using assms(1-3)
    by (cases c; simp add: cmd_format_by_opcode;
        simp add: encode_def decode_riscv enc_low decode_opcode_def decode_J_eq J_imm_enc imm;
        simp add: UFormat_enc_J getCmd_tab GenInst_J_eq cmd_format_by_opcode)
qed

lemma decode_encode_I:
  assumes "cmd_format c = Fmt_I" "c \<noteq> Cmd_UNDEFINED" "d < 32" "a < 32"
    and "legal_I (inst_of c d a 0 imm)"
  shows "decode riscv_decoder (encode (inst_of c d a 0 imm)) = Inr (inst_of c d a 0 imm)"
  using assms
  by (cases c; simp add: cmd_format_by_opcode;
      clarsimp simp: legal_I_def encode_def decode_riscv enc_low decode_opcode_def IFormat_enc_I decode_I_def
          getCmd_tab decode_I_shift_def decode_I_system_def shift_imm_sext sext_low12 GenInst_I_eq cmd_format_by_opcode)

text \<open>The decoder is the inverse of the encoding: nothing is lost and nothing else is accepted.\<close>

lemma decode_iff: "decode riscv_decoder w = Inr i \<longleftrightarrow> legal_inst i \<and> encode i = w"
proof
  assume "legal_inst i \<and> encode i = w"
  then have wf: "wf_inst i" and l: "legal_inst i" and w: "w = encode i"
    by (auto simp: legal_inst_def)
  define c d a b imm where "c = inst_cmd i" and "d = inst_rd i" and "a = inst_rs1 i"
    and "b = inst_rs2 i" and "imm = inst_imm i"
  have i: "i = inst_of c d a b imm"
    unfolding c_def d_def a_def b_def imm_def by (rule inst_of_eta [OF wf])
  have r: "c \<noteq> Cmd_UNDEFINED" "d < 32" "a < 32" "b < 32"
    using wf by (simp_all add: wf_inst_def c_def d_def a_def b_def)
  show "decode riscv_decoder w = Inr i"
    using l r unfolding w i
    by (cases "cmd_format c"; clarsimp simp: legal_inst_def decode_encode_R decode_encode_I
        decode_encode_S decode_encode_U decode_encode_B decode_encode_J)
qed (rule decode_sound)

section \<open>Everything else is rejected by an exception\<close>

fun only_throws :: "fault + 'a \<Rightarrow> bool" where
  "only_throws (Inl e) = is_Throw e"
| "only_throws (Inr _) = True"

lemma decode_R_throws: "only_throws (decode_R riscv_decoder 12 f)"
proof -
  have l: "list_all (\<lambda>f3. r_funct3 f = f3 \<longrightarrow> only_throws (decode_R riscv_decoder 12 f)) [0, 1, 2, 3, 4, 5, 6, 7]"
    unfolding list.pred_inject
    by (intro conjI impI TrueI; simp add: decode_R_def getCmd_funct7_tab GenInst_R_eq cmd_format_by_opcode)
  from word3_all [OF l, of "r_funct3 f"] show ?thesis by simp
qed

lemma decode_I_throws:
  fixes x :: "5 word"
  assumes "x \<in> {0, 3, 4, 25, 28}"
  shows "only_throws (decode_I riscv_decoder (ucast x) f)"
proof -
  have l: "list_all (\<lambda>f3. i_funct3 f = f3 \<longrightarrow> only_throws (decode_I riscv_decoder (ucast x) f)) [0, 1, 2, 3, 4, 5, 6, 7]"
    unfolding list.pred_inject using assms
    by (elim insertE; intro conjI impI TrueI; simp add: decode_I_def getCmd_tab decode_I_shift_def
        GenInst_I_eq cmd_format_by_opcode decode_I_system_def Let_def)
  from word3_all [OF l, of "i_funct3 f"] show ?thesis by simp
qed

lemma decode_S_throws: "only_throws (decode_S riscv_decoder 8 f)"
proof -
  have l: "list_all (\<lambda>f3. s_funct3 f = f3 \<longrightarrow> only_throws (decode_S riscv_decoder 8 f)) [0, 1, 2, 3, 4, 5, 6, 7]"
    unfolding list.pred_inject
    by (intro conjI impI TrueI; simp add: decode_S_eq getCmd_tab GenInst_S_eq cmd_format_by_opcode)
  from word3_all [OF l, of "s_funct3 f"] show ?thesis by simp
qed

lemma decode_B_throws: "only_throws (decode_B riscv_decoder 24 f)"
proof -
  have l: "list_all (\<lambda>f3. s_funct3 f = f3 \<longrightarrow> only_throws (decode_B riscv_decoder 24 f)) [0, 1, 2, 3, 4, 5, 6, 7]"
    unfolding list.pred_inject
    by (intro conjI impI TrueI; simp add: decode_B_eq getCmd_tab GenInst_B_eq cmd_format_by_opcode)
  from word3_all [OF l, of "s_funct3 f"] show ?thesis by simp
qed

lemma decode_U_throws: "x = 5 \<or> x = 13 \<Longrightarrow> only_throws (decode_U riscv_decoder (ucast x) f)" for x :: "5 word"
  by (elim disjE) (simp_all add: decode_U_def getCmd_tab GenInst_U_eq cmd_format_by_opcode)

lemma decode_J_throws: "only_throws (decode_J riscv_decoder 27 f)"
  by (simp add: decode_J_eq getCmd_tab GenInst_J_eq cmd_format_by_opcode)

lemma decode_throws: "only_throws (decode riscv_decoder w)"
  by (simp add: decode_riscv decode_opcode_def decode_R_throws decode_I_throws decode_S_throws
      decode_B_throws decode_U_throws decode_J_throws)

text \<open>The two halves together, in the shape the fetch of a trace uses.\<close>

lemma decode_cases:
  obtains (inst) i where "decode riscv_decoder w = Inr i" "legal_inst i" "wf_inst i"
  | (illegal) msg where "decode riscv_decoder w = Inl (Throw msg)"
proof (cases "decode riscv_decoder w")
  case (Inl e)
  with decode_throws [of w] illegal show thesis by (auto simp: is_Throw_iff)
next
  case (Inr i)
  with decode_sound [OF this] inst show thesis by (auto simp: legal_inst_def)
qed

section \<open>The properties\<close>

text \<open>C8: The decoder accepts a word as an instruction exactly if the instruction is a legal one and
  the word is its RV32IM encoding. In particular it inverts the encoding, gives no word two
  meanings, and accepts nothing that is not in the instruction set.\<close>

theorem decode_meets_isa: "decode riscv_decoder w = Inr i \<longleftrightarrow> legal_inst i \<and> encode i = w"
  by (rule decode_iff)

text \<open>C18: A word that encodes no legal instruction is rejected with an exception: no assertion of
  the decoder or of the instruction classes fails and no table is read out of range.\<close>

theorem decode_rejects:
  assumes "\<And>i. legal_inst i \<Longrightarrow> encode i \<noteq> w"
  shows "\<exists>msg. decode riscv_decoder w = Inl (Throw msg)"
  using assms decode_iff by (cases w rule: decode_cases) auto

theorem decode_rejects_witness: "\<exists>msg. decode riscv_decoder 0 = Inl (Throw msg)"
proof (rule decode_rejects)
  fix i assume "legal_inst i"
  show "encode i \<noteq> 0"
  proof
    assume "encode i = 0"
    with \<open>legal_inst i\<close> have "decode riscv_decoder 0 = Inr i" by (simp add: decode_iff)
    then show False by (simp add: decode_def)
  qed
qed

text \<open>The decoded form of an arithmetic right shift by a constant holds the whole 12-bit
  immediate: bit 10, which distinguishes the instruction from the logical shift, stays in the
  shift amount, although the decoder masks it off just before.\<close>

theorem decode_SRAI_immediate:
  "decode riscv_decoder (enc_I 0b0010011 rd 0b101 rs1 (0x400 OR ucast (sh :: 5 word))) =
    Inr (inst_of Cmd_SRAI (ucast rd) (ucast rs1) 0 (0x400 OR ucast sh))"
proof -
  have "drop_bit 5 (0x400 OR ucast sh :: u32) = 32"
    by (rule word32_eqI) (auto simp: bit_simps dest: bit_imp_le_length)
  moreover have "(ucast (0x400 OR ucast sh :: u32) :: 12 word) = 0x400 OR ucast sh"
    by (rule bit_word_eqI) (auto simp: bit_simps)
  ultimately show ?thesis
    by (simp add: decode_iff legal_inst_def legal_I_def encode_def cmd_format_by_opcode)
qed

end
