(* ===== verification/Options.thy ===== *)
theory Options
  imports Prelude Ir
begin

text \<open>
  Command-line options and statistics: \<^verbatim>\<open>src/sim/options.h\<close>, \<^verbatim>\<open>options.cpp\<close>, \<^verbatim>\<open>options_list.h\<close>,
  \<^verbatim>\<open>stats.h\<close>, \<^verbatim>\<open>stats.cpp\<close> and \<^verbatim>\<open>stats_list.h\<close>.

  Every \<^verbatim>\<open>OPTION_DEF\<close> line is a field of the record \<open>Options\<close>, with its default in
  \<open>default_options\<close>; every \<^verbatim>\<open>STAT_DEF\<close> line is a field of \<open>Stats\<close>. Parsing walks the list
  \<^verbatim>\<open>argv[1..]\<close>. Reading \<^verbatim>\<open>argv[argc]\<close> yields the null pointer, and a \<^verbatim>\<open>std::string\<close> made
  from it is undefined. Opening and closing the log is modelled in \<^verbatim>\<open>Program\<close>, where the state is known.
\<close>

section \<open>Statistics\<close>

record Stats =
  trace_cache_hits :: u64
  trace_cache_misses :: u64
  itlb_hits :: u64
  itlb_misses :: u64
  dtlb_load_hits :: u64
  dtlb_load_misses :: u64
  dtlb_store_hits :: u64
  dtlb_store_misses :: u64
  jit_finished_translations :: u64
  jit_failed_translations :: u64
  interpreted_executions :: u64
  translated_executions :: u64

definition zero_stats :: Stats where
  "zero_stats = \<lparr>trace_cache_hits = 0, trace_cache_misses = 0, itlb_hits = 0, itlb_misses = 0,
     dtlb_load_hits = 0, dtlb_load_misses = 0, dtlb_store_hits = 0, dtlb_store_misses = 0,
     jit_finished_translations = 0, jit_failed_translations = 0, interpreted_executions = 0,
     translated_executions = 0\<rparr>"

definition stat_line :: "string \<Rightarrow> u64 \<Rightarrow> string" where
  "stat_line desc v = desc @ '': '' @ dec_string (unat v) @ [CHR 0x0A]"

definition PrintStatistics :: "Stats \<Rightarrow> string" where
  "PrintStatistics s = concat
    [stat_line ''Trace cache hits'' (trace_cache_hits s),
     stat_line ''Trace cache misses'' (trace_cache_misses s),
     stat_line ''iTLB hits'' (itlb_hits s),
     stat_line ''iTLB misses'' (itlb_misses s),
     stat_line ''dTLB load hits'' (dtlb_load_hits s),
     stat_line ''dTLB load misses'' (dtlb_load_misses s),
     stat_line ''dTLB store hits'' (dtlb_store_hits s),
     stat_line ''dTLB store misses'' (dtlb_store_misses s),
     stat_line ''Number of successful JIT translations'' (jit_finished_translations s),
     stat_line ''Number of failed JIT translations'' (jit_failed_translations s),
     stat_line ''Number of interpreted trace executions'' (interpreted_executions s),
     stat_line ''Number of translated (JIT) trace executions'' (translated_executions s)]"

section \<open>Options\<close>

record Options =
  verbose :: bool
  execution_log :: bool
  log_file :: "string option"
  mem_pages :: u64
  cache_size :: u64
  itlb_size :: u64
  dtlb_size :: u64
  jit :: bool
  jit_threshold :: u64
  jit_log :: bool
  max_insts :: u64
  elf_file :: "string option"

definition default_options :: Options where
  "default_options = \<lparr>verbose = False, execution_log = False, log_file = None, mem_pages = 128,
     cache_size = 256, itlb_size = 256, dtlb_size = 256, jit = False, jit_threshold = 100,
     jit_log = False, max_insts = 2000000, elf_file = None\<rparr>"

text \<open>
  \<^verbatim>\<open>std::stoull\<close> with base 10: white space, an optional sign, then digits up to the first other
  character. No digit is \<^verbatim>\<open>std::invalid_argument\<close>, a value that does not fit is
  \<^verbatim>\<open>std::out_of_range\<close>, a minus sign negates modulo $2^{64}$.
\<close>

definition is_space :: "char \<Rightarrow> bool" where
  "is_space c \<longleftrightarrow> c \<in> {CHR '' '', CHR 0x09, CHR 0x0A, CHR 0x0B, CHR 0x0C, CHR 0x0D}"

definition is_digit :: "char \<Rightarrow> bool" where
  "is_digit c \<longleftrightarrow> 48 \<le> (of_char c :: nat) \<and> (of_char c :: nat) \<le> 57"

definition digits_value :: "string \<Rightarrow> nat" where
  "digits_value = foldl (\<lambda>n c. 10 * n + (of_char c - 48)) 0"

datatype stoull_error = InvalidArgument | OutOfRange

definition stoull :: "string \<Rightarrow> stoull_error + u64" where
  "stoull s =
     (let s = dropWhile is_space s;
          (neg, s) = (case s of c # r \<Rightarrow> if c = CHR ''-'' then (True, r)
                                       else if c = CHR ''+'' then (False, r) else (False, s)
                     | [] \<Rightarrow> (False, s));
          ds = takeWhile is_digit s in
      if ds = [] then Inl InvalidArgument
      else if digits_value ds \<ge> 2 ^ 64 then Inl OutOfRange
      else Inr (if neg then - of_nat (digits_value ds) else of_nat (digits_value ds)))"

text \<open>
  \<^verbatim>\<open>ParseArg<T>\<close> on the arguments that are left. The handler for a malformed number quotes
  \<^verbatim>\<open>argv[cur_arg]\<close> after \<^verbatim>\<open>cur_arg\<close> has moved on, that is the argument that follows.
\<close>

definition ParseArg_unsigned :: "string list \<Rightarrow> fault + u64 \<times> string list" where
  "ParseArg_unsigned args =
     (case args of
        [] \<Rightarrow> Inl (StdThrow ''the required option is not specified'')
      | a # rest \<Rightarrow>
          (case stoull a of
             Inr n \<Rightarrow> Inr (n, rest)
           | Inl OutOfRange \<Rightarrow> Inl (StdThrow ''stoull'')
           | Inl InvalidArgument \<Rightarrow>
               (case rest of [] \<Rightarrow> Inl (Undefined OutOfBounds) | b # _ \<Rightarrow> Inl (StdThrow b))))"

definition ParseArg_string :: "string list \<Rightarrow> fault + string \<times> string list" where
  "ParseArg_string args =
     (case args of
        [] \<Rightarrow> Inl (StdThrow ''the required option is not specified'')
      | a # rest \<Rightarrow> Inr (a, rest))"

text \<open>\<^verbatim>\<open>parseOption\<close> wraps an exception of \<^verbatim>\<open>ParseArg\<close> into its own message.\<close>

definition option_value :: "string \<Rightarrow> fault + 'a \<Rightarrow> fault + 'a" where
  "option_value name r =
     (case r of
        Inl (StdThrow m) \<Rightarrow> Inl (StdThrow (''Unrecognized '' @ name @ '' option: '' @ m))
      | _ \<Rightarrow> r)"

definition number_option ::
  "string \<Rightarrow> (u64 \<Rightarrow> Options \<Rightarrow> Options) \<Rightarrow> string list \<Rightarrow> Options \<Rightarrow> fault + Options \<times> string list"
where
  "number_option name set_data args opts =
     rbind (option_value name (ParseArg_unsigned args)) (\<lambda>(n, rest). Inr (set_data n opts, rest))"

definition string_option ::
  "string \<Rightarrow> (string \<Rightarrow> Options \<Rightarrow> Options) \<Rightarrow> string list \<Rightarrow> Options \<Rightarrow> fault + Options \<times> string list"
where
  "string_option name set_data args opts =
     rbind (option_value name (ParseArg_string args)) (\<lambda>(s, rest). Inr (set_data s opts, rest))"

text \<open>The chain of \<^verbatim>\<open>else if\<close>, in the order of \<^verbatim>\<open>options_list.h\<close>.\<close>

definition parse_one :: "string \<Rightarrow> string list \<Rightarrow> Options \<Rightarrow> fault + Options \<times> string list" where
  "parse_one a rest o1 =
     (if a = ''-verbose'' then Inr (o1\<lparr>verbose := True\<rparr>, rest)
      else if a = ''-execution-log'' then Inr (o1\<lparr>execution_log := True\<rparr>, rest)
      else if a = ''-log-file'' then string_option a (\<lambda>s o1. o1\<lparr>log_file := Some s\<rparr>) rest o1
      else if a = ''-mem-pages'' then number_option a (\<lambda>n o1. o1\<lparr>mem_pages := n\<rparr>) rest o1
      else if a = ''-cache-size'' then number_option a (\<lambda>n o1. o1\<lparr>cache_size := n\<rparr>) rest o1
      else if a = ''-itlb-size'' then number_option a (\<lambda>n o1. o1\<lparr>itlb_size := n\<rparr>) rest o1
      else if a = ''-dtlb-size'' then number_option a (\<lambda>n o1. o1\<lparr>dtlb_size := n\<rparr>) rest o1
      else if a = ''-jit'' then Inr (o1\<lparr>jit := True\<rparr>, rest)
      else if a = ''-jit-threshold'' then number_option a (\<lambda>n o1. o1\<lparr>jit_threshold := n\<rparr>) rest o1
      else if a = ''-jit-log'' then Inr (o1\<lparr>jit_log := True\<rparr>, rest)
      else if a = ''-max-insts'' then number_option a (\<lambda>n o1. o1\<lparr>max_insts := n\<rparr>) rest o1
      else if a = ''-elf'' then string_option a (\<lambda>s o1. o1\<lparr>elf_file := Some s\<rparr>) rest o1
      else Inl (StdThrow (''Unrecognized argument: '' @ a)))"

lemma parse_one_shorter:
  "parse_one a rest o1 = Inr (o2, rest') \<Longrightarrow> length rest' \<le> length rest"
  by (auto simp: parse_one_def number_option_def string_option_def ParseArg_unsigned_def
      ParseArg_string_def option_value_def rbind_Inr_iff
      split: if_splits list.splits sum.splits stoull_error.splits fault.splits)

text \<open>
  \<^verbatim>\<open>printHelp\<close> writes the same line for every type of option, with the current value in a text of that type.
\<close>

definition help_line :: "string \<Rightarrow> string option \<Rightarrow> string \<Rightarrow> string \<Rightarrow> string" where
  "help_line opt_name arg_name data opt_desc =
     opt_name @ '' '' @ (case arg_name of None \<Rightarrow> [] | Some a \<Rightarrow> ''['' @ a @ ''] '') @
     ''(value = '' @ data @ '') - '' @ opt_desc @ [CHR 0x0A]"

definition show_bool :: "bool \<Rightarrow> string" where
  "show_bool data = (if data then ''true'' else ''false'')"

definition show_unsigned :: "u64 \<Rightarrow> string" where
  "show_unsigned data = dec_string (unat data)"

definition show_string :: "string option \<Rightarrow> string" where
  "show_string data = (case data of None \<Rightarrow> ''<empty>'' | Some s \<Rightarrow> s)"

definition PrintHelp :: "Options \<Rightarrow> string" where
  "PrintHelp o1 = concat
    [help_line ''-verbose'' None (show_bool (verbose o1)) ''enable logging of instructions execution'',
     help_line ''-execution-log'' None (show_bool (execution_log o1)) ''enable trace exectuion logging'',
     help_line ''-log-file'' (Some ''filename'') (show_string (log_file o1)) ''write excution output to file'',
     help_line ''-mem-pages'' (Some ''pages num'') (show_unsigned (mem_pages o1)) ''number of allocated pages'',
     help_line ''-cache-size'' (Some ''size'') (show_unsigned (cache_size o1))
       ''number of saved traces in LRU cache'',
     help_line ''-itlb-size'' (Some ''size'') (show_unsigned (itlb_size o1))
       ''number of instruction TLB entries'',
     help_line ''-dtlb-size'' (Some ''size'') (show_unsigned (dtlb_size o1)) ''number of data TLB entries'',
     help_line ''-jit'' None (show_bool (jit o1)) ''enable just-in-time translation'',
     help_line ''-jit-threshold'' (Some ''exec num'') (show_unsigned (jit_threshold o1))
       ''number of trace executions when JIT is applied'',
     help_line ''-jit-log'' None (show_bool (jit_log o1)) ''enable logging of just-in-time-translation'',
     help_line ''-max-insts'' (Some ''insts num'') (show_unsigned (max_insts o1))
       ''number of instructions, after which simulator stops'',
     help_line ''-elf'' (Some ''filename'') (show_string (elf_file o1)) ''elf file to execute'']"

text \<open>\<^verbatim>\<open>-help\<close> prints the options as they are at that point and exits with status 0.\<close>

datatype parsed = Parsed Options | Help string

function ParseOptions :: "string list \<Rightarrow> Options \<Rightarrow> fault + parsed" where
  "ParseOptions [] o1 = Inr (Parsed o1)"
| "ParseOptions (a # rest) o1 =
     (if a = ''-help'' then Inr (Help (''Sim options:'' @ [CHR 0x0A] @ PrintHelp o1))
      else case parse_one a rest o1 of
             Inl e \<Rightarrow> Inl e
           | Inr (o2, rest') \<Rightarrow> ParseOptions rest' o2)"
  by pat_completeness auto
termination
  by (relation "measure (\<lambda>(args, _). length args)") (auto dest: parse_one_shorter)

section \<open>Round trip\<close>

text \<open>A command line that sets every option of a record that differs from the default.\<close>

definition number_args :: "string \<Rightarrow> u64 \<Rightarrow> string list" where
  "number_args name n = [name, dec_string (unat n)]"

definition string_args :: "string \<Rightarrow> string option \<Rightarrow> string list" where
  "string_args name s = (case s of None \<Rightarrow> [] | Some f \<Rightarrow> [name, f])"

definition flag_args :: "string \<Rightarrow> bool \<Rightarrow> string list" where
  "flag_args name b = (if b then [name] else [])"

definition command_line :: "Options \<Rightarrow> string list" where
  "command_line opts =
     flag_args ''-verbose'' (verbose opts) @ flag_args ''-execution-log'' (execution_log opts) @
     string_args ''-log-file'' (log_file opts) @ number_args ''-mem-pages'' (mem_pages opts) @
     number_args ''-cache-size'' (cache_size opts) @ number_args ''-itlb-size'' (itlb_size opts) @
     number_args ''-dtlb-size'' (dtlb_size opts) @ flag_args ''-jit'' (jit opts) @
     number_args ''-jit-threshold'' (jit_threshold opts) @ flag_args ''-jit-log'' (jit_log opts) @
     number_args ''-max-insts'' (max_insts opts) @ string_args ''-elf'' (elf_file opts)"

lemma digit_char_digit: "d < 10 \<Longrightarrow> (of_char (digit_char d) :: nat) = 48 + d"
  by (simp add: digit_char_def)

lemma dec_string_digits:
  "set (dec_string n) \<subseteq> Collect is_digit \<and> dec_string n \<noteq> []"
proof (induction n rule: dec_string.induct)
  case (1 n)
  then show ?case
    by (subst (1 2) dec_string.simps) (auto simp: is_digit_def digit_char_digit)
qed

lemma digits_value_dec [simp]: "digits_value (dec_string n) = n"
proof (induction n rule: dec_string.induct)
  case (1 n)
  then show ?case
    by (subst dec_string.simps) (auto simp: digits_value_def digit_char_digit)
qed

lemma stoull_dec: "n < 2 ^ 64 \<Longrightarrow> stoull (dec_string n) = Inr (of_nat n)"
proof -
  assume n: "n < 2 ^ 64"
  obtain c cs where ds: "dec_string n = c # cs" and dig: "\<forall>x \<in> set (c # cs). is_digit x"
    using dec_string_digits [of n] by (metis list.exhaust mem_Collect_eq subsetD)
  then have c: "\<not> is_space c" "c \<noteq> CHR ''-''" "c \<noteq> CHR ''+''"
    by (auto simp: is_space_def is_digit_def)
  have "is_digit c" and tw: "takeWhile is_digit cs = cs"
    using dig by (auto simp: takeWhile_eq_all_conv)
  moreover have "digits_value (c # cs) = n"
    using digits_value_dec [of n] ds by simp
  ultimately show ?thesis
    using n c by (simp add: stoull_def ds tw Let_def)
qed

lemma parse_number_args:
  "(\<And>rest o1. parse_one name rest o1 = number_option name g rest o1) \<Longrightarrow> name \<noteq> ''-help'' \<Longrightarrow>
   ParseOptions (number_args name n @ rest) o1 = ParseOptions rest (g n o1)"
  using stoull_dec [of "unat n"] unsigned_less [of n, where ?'a = nat]
  by (simp add: number_args_def number_option_def ParseArg_unsigned_def option_value_def)

lemma parse_string_args:
  "(\<And>rest o1. parse_one name rest o1 = string_option name g rest o1) \<Longrightarrow> name \<noteq> ''-help'' \<Longrightarrow>
   ParseOptions (string_args name s @ rest) o1 =
     ParseOptions rest (case s of None \<Rightarrow> o1 | Some f \<Rightarrow> g f o1)"
  by (simp add: string_args_def string_option_def ParseArg_string_def option_value_def split: option.split)

lemma parse_flag_args:
  "(\<And>rest o1. parse_one name rest o1 = Inr (g o1, rest)) \<Longrightarrow> name \<noteq> ''-help'' \<Longrightarrow>
   ParseOptions (flag_args name b @ rest) o1 = ParseOptions rest (if b then g o1 else o1)"
  by (simp add: flag_args_def)

lemma ParseOptions_prefix: "ParseOptions (command_line opts @ rest) default_options = ParseOptions rest opts"
proof -
  have p: "parse_one ''-verbose'' rest o1 = Inr (o1\<lparr>verbose := True\<rparr>, rest)"
    "parse_one ''-execution-log'' rest o1 = Inr (o1\<lparr>execution_log := True\<rparr>, rest)"
    "parse_one ''-jit'' rest o1 = Inr (o1\<lparr>jit := True\<rparr>, rest)"
    "parse_one ''-jit-log'' rest o1 = Inr (o1\<lparr>jit_log := True\<rparr>, rest)"
    "parse_one ''-log-file'' rest o1 = string_option ''-log-file'' (\<lambda>s o1. o1\<lparr>log_file := Some s\<rparr>) rest o1"
    "parse_one ''-elf'' rest o1 = string_option ''-elf'' (\<lambda>s o1. o1\<lparr>elf_file := Some s\<rparr>) rest o1"
    "parse_one ''-mem-pages'' rest o1 = number_option ''-mem-pages'' (\<lambda>n o1. o1\<lparr>mem_pages := n\<rparr>) rest o1"
    "parse_one ''-cache-size'' rest o1 = number_option ''-cache-size'' (\<lambda>n o1. o1\<lparr>cache_size := n\<rparr>) rest o1"
    "parse_one ''-itlb-size'' rest o1 = number_option ''-itlb-size'' (\<lambda>n o1. o1\<lparr>itlb_size := n\<rparr>) rest o1"
    "parse_one ''-dtlb-size'' rest o1 = number_option ''-dtlb-size'' (\<lambda>n o1. o1\<lparr>dtlb_size := n\<rparr>) rest o1"
    "parse_one ''-jit-threshold'' rest o1 = number_option ''-jit-threshold'' (\<lambda>n o1. o1\<lparr>jit_threshold := n\<rparr>) rest o1"
    "parse_one ''-max-insts'' rest o1 = number_option ''-max-insts'' (\<lambda>n o1. o1\<lparr>max_insts := n\<rparr>) rest o1"
    for rest o1
    by (simp_all add: parse_one_def)
  show ?thesis
    by (cases opts)
      (simp add: command_line_def parse_flag_args [OF p(1)] parse_flag_args [OF p(2)] parse_flag_args [OF p(3)]
        parse_flag_args [OF p(4)] parse_string_args [OF p(5)] parse_string_args [OF p(6)]
        parse_number_args [OF p(7)] parse_number_args [OF p(8)] parse_number_args [OF p(9)]
        parse_number_args [OF p(10)] parse_number_args [OF p(11)] parse_number_args [OF p(12)]
        default_options_def split: option.split)
qed

text \<open>C31: Every setting of the twelve options is reached by a command line: the flags, the numbers in
  decimal and the file names of an option record, parse to that record, from the
  default options. Followed by \<^verbatim>\<open>-help\<close>, and whatever comes after it, they print the help text with these settings as
  the current values.\<close>

theorem ParseOptions_command_line:
  "ParseOptions (command_line opts) default_options = Inr (Parsed opts) \<and>
   ParseOptions (command_line opts @ ''-help'' # rest) default_options =
     Inr (Help (''Sim options:'' @ [CHR 0x0A] @ PrintHelp opts))"
  using ParseOptions_prefix [of opts "[]"] by (simp add: ParseOptions_prefix)

end
