(* ===== verification/Robin_Hood.thy ===== *)
theory Robin_Hood
  imports Prelude
begin

text \<open>
  The hash map of \<^verbatim>\<open>src/sim/robin_hood.h\<close>, with the operations the LRU cache uses: \<^verbatim>\<open>find\<close>, \<^verbatim>\<open>end\<close>,
  \<^verbatim>\<open>insert\<close>, \<^verbatim>\<open>erase\<close> and \<^verbatim>\<open>clear\<close> of \<^verbatim>\<open>detail::Table\<close> in its flat form, with \<^verbatim>\<open>MaxLoadFactor100\<close> 80.

  A table is an array of slots for key-value pairs and an array of info bytes behind it, one per
  slot. The info byte of a free slot is 0; that of an occupied one holds the distance of the slot
  from the key's home slot, plus one, in its upper bits and some bits of the key's hash in its
  lower ones (\<^verbatim>\<open>mInfoInc\<close> is the weight of one step). The pair in a slot is \<open>Some\<close> while a node
  lives there. The hash function of the table is the argument \<open>hash\<close> of the definitions;
  \<open>hash_u32\<close> is the one of 32-bit keys. Counts and indices (\<^verbatim>\<open>size_t\<close>) are natural numbers:
  the theorem \<open>table_sizes_bounded\<close> of the theory of proofs bounds all of them.

  Pointers into the slots are slot numbers. Reading an info byte or a slot out of range, and
  reading a slot no node lives in, is a fault. Memory that cannot be allocated is not modelled.
\<close>

section \<open>Hashing\<close>

definition rotr :: "u64 \<Rightarrow> nat \<Rightarrow> u64" where
  "rotr x k = drop_bit k x OR push_bit (64 - k) x"

definition hash_int :: "u64 \<Rightarrow> u64" where
  "hash_int x =
     (let h1 = x * 0xA24BAED4963EE407;
          h2 = rotr x 32 * 0x9FB21C651E98DF25
      in rotr (h1 + h2) 32)"

definition hash_u32 :: "u32 \<Rightarrow> u64" where
  "hash_u32 obj = hash_int (ucast obj)"

section \<open>The table\<close>

abbreviation (input) InitialNumElements :: nat where "InitialNumElements \<equiv> 8"
abbreviation (input) InitialInfoNumBits :: nat where "InitialInfoNumBits \<equiv> 5"
abbreviation (input) InitialInfoInc :: nat where "InitialInfoInc \<equiv> 32"
abbreviation (input) InfoMask :: u64 where "InfoMask \<equiv> 31"

record ('k, 'v) Table =
  mKeyVals :: "('k \<times> 'v) option list"
  mInfo :: "u8 list"
  mNumElements :: nat
  mMask :: nat
  mMaxNumElementsAllowed :: nat
  mInfoInc :: nat
  mInfoHashShift :: nat

text \<open>
  Of a table that has allocated nothing, \<^verbatim>\<open>mInfo\<close> points at the member \<^verbatim>\<open>mMask\<close>, whose eight bytes
  are zero.
\<close>

definition Table_ctor :: "('k, 'v) Table" where
  "Table_ctor = \<lparr>mKeyVals = [], mInfo = replicate 8 0, mNumElements = 0, mMask = 0,
     mMaxNumElementsAllowed = 0, mInfoInc = InitialInfoInc, mInfoHashShift = 0\<rparr>"

definition Table_empty :: "('k, 'v) Table \<Rightarrow> bool" where
  "Table_empty t \<longleftrightarrow> mNumElements t = 0"

definition calcMaxNumElementsAllowed :: "nat \<Rightarrow> nat" where
  "calcMaxNumElementsAllowed n =
     (if n \<le> (2 ^ 64 - 1) div 100 then n * 80 div 100 else n div 100 * 80)"

definition calcNumElementsWithBuffer :: "nat \<Rightarrow> nat" where
  "calcNumElementsWithBuffer n = n + min (calcMaxNumElementsAllowed n) 0xFF"

definition calcNumBytesInfo :: "nat \<Rightarrow> nat" where
  "calcNumBytesInfo n = n + 8"

definition init_data :: "nat \<Rightarrow> ('k, 'v) Table" where
  "init_data max_elements =
     (let slots = calcNumElementsWithBuffer max_elements
      in \<lparr>mKeyVals = replicate slots None,
          mInfo = (replicate (calcNumBytesInfo slots) 0)[slots := 1],
          mNumElements = 0, mMask = max_elements - 1,
          mMaxNumElementsAllowed = calcMaxNumElementsAllowed max_elements,
          mInfoInc = InitialInfoInc, mInfoHashShift = 0\<rparr>)"

text \<open>The node in a slot.\<close>

definition node_at :: "('k, 'v) Table \<Rightarrow> nat \<Rightarrow> fault + 'k \<times> 'v" where
  "node_at t i =
     rbind (at_index (mKeyVals t) i)
       (\<lambda>s. case s of None \<Rightarrow> Inl (Undefined UseAfterFree) | Some kv \<Rightarrow> Inr kv)"

definition set_node :: "nat \<Rightarrow> ('k \<times> 'v) option \<Rightarrow> ('k, 'v) Table \<Rightarrow> fault + ('k, 'v) Table" where
  "set_node i n t = rbind (set_index (mKeyVals t) i n) (\<lambda>l. Inr (t\<lparr>mKeyVals := l\<rparr>))"

definition set_info :: "nat \<Rightarrow> u8 \<Rightarrow> ('k, 'v) Table \<Rightarrow> fault + ('k, 'v) Table" where
  "set_info i b t = rbind (set_index (mInfo t) i b) (\<lambda>l. Inr (t\<lparr>mInfo := l\<rparr>))"

section \<open>Searching\<close>

text \<open>The info value of a key at its home slot, and that slot.\<close>

definition keyToIdx :: "('k \<Rightarrow> u64) \<Rightarrow> ('k, 'v) Table \<Rightarrow> 'k \<Rightarrow> nat \<times> nat" where
  "keyToIdx hash t key =
     (let h = hash key
      in (mInfoInc t + unat (drop_bit (mInfoHashShift t) (h AND InfoMask)),
          unat (drop_bit InitialInfoNumBits h AND of_nat (mMask t))))"

lemma at_index_InrD: "at_index xs i = Inr x \<Longrightarrow> i < length xs \<and> x = xs ! i"
  by (simp add: at_index_def split: if_splits)

function nextWhileLess :: "('k, 'v) Table \<Rightarrow> nat \<Rightarrow> nat \<Rightarrow> fault + nat \<times> nat" where
  "nextWhileLess t info idx =
     rbind (at_index (mInfo t) idx) (\<lambda>b.
       if info < unat b then nextWhileLess t (info + mInfoInc t) (idx + 1) else Inr (info, idx))"
  by pat_completeness auto
termination
  by (relation "measure (\<lambda>(t, info, idx). length (mInfo t) - idx)")
    (auto dest: at_index_InrD)

definition slot_has :: "('k, 'v) Table \<Rightarrow> 'k \<Rightarrow> nat \<Rightarrow> nat \<Rightarrow> fault + bool" where
  "slot_has t key info idx =
     rbind (at_index (mInfo t) idx) (\<lambda>b.
       if info = unat b then rbind (node_at t idx) (\<lambda>n. Inr (key = fst n)) else Inr False)"

text \<open>The loop of \<^verbatim>\<open>findIdx\<close> is unrolled twice.\<close>

function findIdx_loop :: "('k, 'v) Table \<Rightarrow> 'k \<Rightarrow> nat \<Rightarrow> nat \<Rightarrow> fault + nat option" where
  "findIdx_loop t key info idx =
     rbind (slot_has t key info idx) (\<lambda>found.
       if found then Inr (Some idx)
       else rbind (slot_has t key (info + mInfoInc t) (idx + 1)) (\<lambda>found.
         if found then Inr (Some (idx + 1))
         else rbind (at_index (mInfo t) (idx + 2)) (\<lambda>b.
           if info + 2 * mInfoInc t \<le> unat b
           then findIdx_loop t key (info + 2 * mInfoInc t) (idx + 2)
           else Inr None)))"
  by pat_completeness auto
termination
  by (relation "measure (\<lambda>(t, key, info, idx). length (mInfo t) - idx)")
    (auto dest: at_index_InrD)

text \<open>The slot number of \<^verbatim>\<open>mInfo\<close>, which is where \<^verbatim>\<open>end()\<close> points.\<close>

definition Table_end :: "('k, 'v) Table \<Rightarrow> nat" where
  "Table_end t = (if mMask t = 0 then 0 else length (mKeyVals t))"

definition findIdx :: "('k \<Rightarrow> u64) \<Rightarrow> ('k, 'v) Table \<Rightarrow> 'k \<Rightarrow> fault + nat" where
  "findIdx hash t key =
     (let (info, idx) = keyToIdx hash t key
      in rbind (findIdx_loop t key info idx) (\<lambda>r.
           case r of Some idx \<Rightarrow> Inr idx | None \<Rightarrow> Inr (Table_end t)))"

definition Table_find :: "('k \<Rightarrow> u64) \<Rightarrow> ('k, 'v) Table \<Rightarrow> 'k \<Rightarrow> fault + nat" where
  "Table_find hash t key = findIdx hash t key"

section \<open>Placing and removing a node\<close>

text \<open>
  \<^verbatim>\<open>shiftUp\<close>: the nodes of the slots from \<open>ins\<close> to \<open>start - 1\<close> move up by one, then their info
  bytes. In \<open>shiftUp_nodes\<close> the index is decremented first, as in \<^verbatim>\<open>--idx != insertion_idx\<close>.
\<close>

definition move_node :: "nat \<Rightarrow> nat \<Rightarrow> ('k, 'v) Table \<Rightarrow> fault + ('k, 'v) Table" where
  "move_node dst src t = rbind (node_at t src) (\<lambda>n. set_node dst (Some n) t)"

fun shiftUp_nodes :: "nat \<Rightarrow> nat \<Rightarrow> ('k, 'v) Table \<Rightarrow> fault + ('k, 'v) Table" where
  "shiftUp_nodes ins 0 t = Inl (Undefined OutOfBounds)"
| "shiftUp_nodes ins (Suc idx) t =
     (if idx \<noteq> ins then rbind (move_node idx (idx - 1) t) (shiftUp_nodes ins idx) else Inr t)"

fun shiftUp_info :: "nat \<Rightarrow> nat \<Rightarrow> ('k, 'v) Table \<Rightarrow> fault + ('k, 'v) Table" where
  "shiftUp_info ins 0 t = (if ins = 0 then Inr t else Inl (Undefined OutOfBounds))"
| "shiftUp_info ins (Suc idx) t =
     (if Suc idx = ins then Inr t
      else rbind (at_index (mInfo t) idx) (\<lambda>b.
        let b' = b + of_nat (mInfoInc t)
        in rbind (set_info (Suc idx) b' t) (\<lambda>t.
          shiftUp_info ins idx
            (if unat b' + mInfoInc t > 0xFF then t\<lparr>mMaxNumElementsAllowed := 0\<rparr> else t))))"

definition shiftUp :: "nat \<Rightarrow> nat \<Rightarrow> ('k, 'v) Table \<Rightarrow> fault + ('k, 'v) Table" where
  "shiftUp startIdx insertion_idx t =
     rbind (move_node startIdx (startIdx - 1) t) (\<lambda>t.
     rbind (shiftUp_nodes insertion_idx startIdx t) (\<lambda>t.
     shiftUp_info insertion_idx startIdx t))"

lemma set_info_InrD: "set_info i b t = Inr t' \<Longrightarrow> i < length (mInfo t) \<and> t' = t\<lparr>mInfo := (mInfo t)[i := b]\<rparr>"
  by (auto simp: set_info_def set_index_def rbind_Inr_iff split: if_splits)

lemma move_node_mInfo: "move_node d s t = Inr t' \<Longrightarrow> mInfo t' = mInfo t"
  by (auto simp: move_node_def set_node_def rbind_Inr_iff)

function shiftDown_loop :: "nat \<Rightarrow> ('k, 'v) Table \<Rightarrow> fault + nat \<times> ('k, 'v) Table" where
  "shiftDown_loop idx t =
     rbind (at_index (mInfo t) (idx + 1)) (\<lambda>b.
       if unat b \<ge> 2 * mInfoInc t
       then rbind (set_info idx (b - of_nat (mInfoInc t)) t) (\<lambda>t.
            rbind (move_node idx (idx + 1) t) (shiftDown_loop (idx + 1)))
       else Inr (idx, t))"
  by pat_completeness auto
termination
  by (relation "measure (\<lambda>(idx, t). length (mInfo t) - idx)")
    (auto dest!: at_index_InrD set_info_InrD move_node_mInfo)

definition shiftDown :: "nat \<Rightarrow> ('k, 'v) Table \<Rightarrow> fault + ('k, 'v) Table" where
  "shiftDown idx t =
     rbind (shiftDown_loop idx t) (\<lambda>(idx, t).
     rbind (set_info idx 0 t) (\<lambda>t.
     set_node idx None t))"

function empty_spot :: "('k, 'v) Table \<Rightarrow> nat \<Rightarrow> fault + nat" where
  "empty_spot t idx =
     rbind (at_index (mInfo t) idx) (\<lambda>b. if b \<noteq> 0 then empty_spot t (idx + 1) else Inr idx)"
  by pat_completeness auto
termination
  by (relation "measure (\<lambda>(t, idx). length (mInfo t) - idx)") (auto dest: at_index_InrD)

text \<open>
  The end that \<^verbatim>\<open>insert_move\<close> and \<^verbatim>\<open>doInsert\<close> share: put the node where the search has stopped,
  after moving the nodes up to the next free slot out of the way.
\<close>

definition place :: "'k \<times> 'v \<Rightarrow> nat \<Rightarrow> nat \<Rightarrow> ('k, 'v) Table \<Rightarrow> fault + ('k, 'v) Table" where
  "place keyval insertion_info insertion_idx t =
     (let t = (if insertion_info + mInfoInc t > 0xFF then t\<lparr>mMaxNumElementsAllowed := 0\<rparr> else t)
      in rbind (empty_spot t insertion_idx) (\<lambda>idx.
         rbind (if idx = insertion_idx then Inr t else shiftUp idx insertion_idx t) (\<lambda>t.
         rbind (set_node insertion_idx (Some keyval) t) (\<lambda>t.
         rbind (set_info insertion_idx (of_nat insertion_info) t) (\<lambda>t.
         Inr (t\<lparr>mNumElements := mNumElements t + 1\<rparr>))))))"

section \<open>Growing\<close>

text \<open>Eight info bytes at a time are halved as one 64-bit word.\<close>

definition halve8 :: "nat \<Rightarrow> u8 list \<Rightarrow> fault + u8 list" where
  "halve8 i info =
     (if i + 8 \<le> length info
      then let val = le_join (take 8 (drop i info)) :: u64;
               val = drop_bit 1 val AND 0x7f7f7f7f7f7f7f7f
           in Inr (take i info @ le_split 8 val @ drop (i + 8) info)
      else Inl (Undefined OutOfBounds))"

definition try_increase_info :: "('k, 'v) Table \<Rightarrow> fault + bool \<times> ('k, 'v) Table" where
  "try_increase_info t =
     (if mInfoInc t \<le> 2 then Inr (False, t)
      else let slots = calcNumElementsWithBuffer (mMask t + 1)
           in rbind (foldM halve8 (map ((*) 8) [0..<(slots + 7) div 8]) (mInfo t)) (\<lambda>info.
              rbind (set_index info slots 1) (\<lambda>info.
              Inr (True, t\<lparr>mInfo := info, mInfoInc := mInfoInc t div 2 mod 256,
                mInfoHashShift := mInfoHashShift t + 1,
                mMaxNumElementsAllowed := calcMaxNumElementsAllowed (mMask t + 1)\<rparr>))))"

function skip_occupied :: "('k, 'v) Table \<Rightarrow> nat \<Rightarrow> nat \<Rightarrow> fault + nat \<times> nat" where
  "skip_occupied t info idx =
     rbind (at_index (mInfo t) idx) (\<lambda>b.
       if info \<le> unat b then skip_occupied t (info + mInfoInc t) (idx + 1) else Inr (info, idx))"
  by pat_completeness auto
termination
  by (relation "measure (\<lambda>(t, info, idx). length (mInfo t) - idx)")
    (auto dest: at_index_InrD)

definition throwOverflowError :: "('s, 'a) M" where
  "throwOverflowError = raise (StdThrow ''robin_hood::map overflow'')"

definition put :: "'s \<Rightarrow> ('s, unit) M" where
  "put s = modify (\<lambda>_. s)"

definition insert_move :: "('k \<Rightarrow> u64) \<Rightarrow> 'k \<times> 'v \<Rightarrow> (('k, 'v) Table, nat) M" where
  "insert_move hash keyval =
     bnd (gets (\<lambda>t. t)) (\<lambda>t.
     bnd (if mMaxNumElementsAllowed t = 0
          then bnd (lift (try_increase_info t)) (\<lambda>(ok, t).
               if ok then put t else throwOverflowError)
          else ret ()) (\<lambda>_.
     bnd (gets (\<lambda>t. t)) (\<lambda>t.
     let (info, idx) = keyToIdx hash t (fst keyval)
     in bnd (lift (skip_occupied t info idx)) (\<lambda>(info, idx).
        bnd (lift (place keyval (info mod 256) idx t)) (\<lambda>t.
        bnd (put t) (\<lambda>_. ret idx))))))"

fun move_all :: "('k \<Rightarrow> u64) \<Rightarrow> ('k, 'v) Table \<Rightarrow> nat list \<Rightarrow> (('k, 'v) Table, unit) M" where
  "move_all hash old [] = ret ()"
| "move_all hash old (i # is) =
     bnd (lift (at_index (mInfo old) i)) (\<lambda>b.
     if b \<noteq> 0
     then bnd (lift (node_at old i)) (\<lambda>n.
          bnd (insert_move hash n) (\<lambda>_. move_all hash old is))
     else move_all hash old is)"

definition rehashPowerOfTwo :: "('k \<Rightarrow> u64) \<Rightarrow> nat \<Rightarrow> (('k, 'v) Table, unit) M" where
  "rehashPowerOfTwo hash numBuckets =
     bnd (gets (\<lambda>t. t)) (\<lambda>old.
     let oldMaxElementsWithBuffer = calcNumElementsWithBuffer (mMask old + 1)
     in bnd (put (init_data numBuckets)) (\<lambda>_.
        if oldMaxElementsWithBuffer > 1 then move_all hash old [0..<oldMaxElementsWithBuffer]
        else ret ()))"

definition increase_size :: "('k \<Rightarrow> u64) \<Rightarrow> (('k, 'v) Table, unit) M" where
  "increase_size hash =
     bnd (gets (\<lambda>t. t)) (\<lambda>t.
     if mMask t = 0 then put (init_data InitialNumElements)
     else let maxNumElementsAllowed = calcMaxNumElementsAllowed (mMask t + 1)
          in bnd (if mNumElements t < maxNumElementsAllowed then lift (try_increase_info t)
                  else ret (False, t)) (\<lambda>(ok, t').
             if ok then put t'
             else if mNumElements t * 2 < maxNumElementsAllowed then throwOverflowError
             else rehashPowerOfTwo hash ((mMask t + 1) * 2)))"

section \<open>The operations\<close>

function match_loop :: "('k, 'v) Table \<Rightarrow> 'k \<Rightarrow> nat \<Rightarrow> nat \<Rightarrow> fault + bool \<times> nat \<times> nat" where
  "match_loop t key info idx =
     rbind (at_index (mInfo t) idx) (\<lambda>b.
       if info = unat b
       then rbind (node_at t idx) (\<lambda>n.
            if key = fst n then Inr (True, info, idx)
            else match_loop t key (info + mInfoInc t) (idx + 1))
       else Inr (False, info, idx))"
  by pat_completeness auto
termination
  by (relation "measure (\<lambda>(t, key, info, idx). length (mInfo t) - idx)")
    (auto dest: at_index_InrD)

text \<open>
  \<^verbatim>\<open>doInsert\<close> starts again each time it has increased the size. The result is the slot of the key
  and whether it is new. Four rounds are enough (\<open>Table_insert_refines\<close>).
\<close>

fun doInsert :: "('k \<Rightarrow> u64) \<Rightarrow> 'k \<times> 'v \<Rightarrow> nat \<Rightarrow> (('k, 'v) Table, nat \<times> bool) M" where
  "doInsert hash keyval 0 = raise (OutOfFuel InsertLoop)"
| "doInsert hash keyval (Suc fuel) =
     bnd (gets (\<lambda>t. t)) (\<lambda>t.
     let (info, idx) = keyToIdx hash t (fst keyval)
     in bnd (lift (nextWhileLess t info idx)) (\<lambda>(info, idx).
        bnd (lift (match_loop t (fst keyval) info idx)) (\<lambda>(found, info, idx).
        if found then ret (idx, False)
        else if mNumElements t \<ge> mMaxNumElementsAllowed t
        then bnd (increase_size hash) (\<lambda>_. doInsert hash keyval fuel)
        else bnd (lift (place keyval info idx t)) (\<lambda>t.
             bnd (put t) (\<lambda>_. ret (idx, True))))))"

definition Table_insert :: "('k \<Rightarrow> u64) \<Rightarrow> 'k \<times> 'v \<Rightarrow> (('k, 'v) Table, nat \<times> bool) M" where
  "Table_insert hash keyval = doInsert hash keyval 4"

function erase_loop :: "'k \<Rightarrow> nat \<Rightarrow> nat \<Rightarrow> ('k, 'v) Table \<Rightarrow> fault + nat \<times> ('k, 'v) Table" where
  "erase_loop key info idx t =
     rbind (slot_has t key info idx) (\<lambda>found.
       if found
       then rbind (shiftDown idx t) (\<lambda>t.
            Inr (1, t\<lparr>mNumElements := mNumElements t - 1\<rparr>))
       else rbind (at_index (mInfo t) (idx + 1)) (\<lambda>b.
            if info + mInfoInc t \<le> unat b then erase_loop key (info + mInfoInc t) (idx + 1) t
            else Inr (0, t)))"
  by pat_completeness auto
termination
  by (relation "measure (\<lambda>(key, info, idx, t). length (mInfo t) - idx)")
    (auto dest: at_index_InrD)

definition Table_erase :: "('k \<Rightarrow> u64) \<Rightarrow> 'k \<Rightarrow> ('k, 'v) Table \<Rightarrow> fault + nat \<times> ('k, 'v) Table" where
  "Table_erase hash key t =
     (let (info, idx) = keyToIdx hash t key in erase_loop key info idx t)"

text \<open>
  \<^verbatim>\<open>clear\<close> keeps the memory: the info bytes become 0, which ends the nodes, and the limit on the
  number of elements stays as it is.
\<close>

definition Table_clear :: "('k, 'v) Table \<Rightarrow> ('k, 'v) Table" where
  "Table_clear t =
     (if Table_empty t then t
      else let slots = calcNumElementsWithBuffer (mMask t + 1)
           in t\<lparr>mNumElements := 0,
                mInfo := (replicate (calcNumBytesInfo slots) 0)[slots := 1],
                mInfoInc := InitialInfoInc, mInfoHashShift := 0\<rparr>)"

declare nextWhileLess.simps [simp del] findIdx_loop.simps [simp del] shiftDown_loop.simps [simp del]
  empty_spot.simps [simp del] skip_occupied.simps [simp del] match_loop.simps [simp del]
  erase_loop.simps [simp del]

end
