(* ===== verification/Robin_Hood_Slots.thy ===== *)
theory Robin_Hood_Slots
  imports Robin_Hood
begin

text \<open>
  The slots of the hash map of \<^verbatim>\<open>Robin_Hood\<close>: its class invariant, what a search for a key finds,
  and that placing and removing a node keep the invariant and change the map as they should.

  \<open>table_wf\<close> is the class invariant: the info byte of an occupied slot is the probe value of the
  key in it (\<open>probe_ok\<close>), these values grow by at most one step from a slot to the next unless a
  run of a new home slot begins (\<open>steps_ok\<close>, which makes a search stop early but never too early),
  and the counters agree with the slots (\<open>count_ok\<close>).
\<close>

section \<open>Contents and probe values\<close>

abbreviation info_at :: "('k, 'v) Table \<Rightarrow> nat \<Rightarrow> nat" where
  "info_at t i \<equiv> unat (mInfo t ! i)"

abbreviation slots :: "('k, 'v) Table \<Rightarrow> nat" where
  "slots t \<equiv> length (mKeyVals t)"

fun occupant :: "u8 \<times> 'n option \<Rightarrow> 'n option" where
  "occupant (b, n) = (if b = 0 then None else n)"

definition contents :: "('k, 'v) Table \<Rightarrow> ('k \<times> 'v) list" where
  "contents t = List.map_filter occupant (zip (mInfo t) (mKeyVals t))"

definition table_map :: "('k, 'v) Table \<Rightarrow> ('k \<rightharpoonup> 'v)" where
  "table_map t = map_of (contents t)"

definition home :: "('k \<Rightarrow> u64) \<Rightarrow> ('k, 'v) Table \<Rightarrow> 'k \<Rightarrow> nat" where
  "home hash t k = snd (keyToIdx hash t k)"

text \<open>The info value of a key at a slot from its home on.\<close>

definition probe :: "('k \<Rightarrow> u64) \<Rightarrow> ('k, 'v) Table \<Rightarrow> 'k \<Rightarrow> nat \<Rightarrow> nat" where
  "probe hash t k i = fst (keyToIdx hash t k) + mInfoInc t * (i - home hash t k)"

section \<open>The invariant\<close>

definition table_shape :: "('k, 'v) Table \<Rightarrow> bool" where
  "table_shape t \<longleftrightarrow>
     7 \<le> mMask t \<and> mMask t < 2 ^ 35 \<and> slots t = calcNumElementsWithBuffer (mMask t + 1) \<and>
     length (mInfo t) = slots t + 8 \<and> info_at t (slots t) = 1 \<and> info_at t (slots t + 1) = 0 \<and>
     mInfoHashShift t \<le> 4 \<and> mInfoInc t = 2 ^ (5 - mInfoHashShift t)"

definition probe_ok :: "('k \<Rightarrow> u64) \<Rightarrow> ('k, 'v) Table \<Rightarrow> bool" where
  "probe_ok hash t \<longleftrightarrow>
     (\<forall>i < slots t. mInfo t ! i \<noteq> 0 \<longrightarrow>
        (\<exists>n. mKeyVals t ! i = Some n \<and> home hash t (fst n) \<le> i \<and>
             info_at t i = probe hash t (fst n) i))"

definition steps_ok :: "('k, 'v) Table \<Rightarrow> bool" where
  "steps_ok t \<longleftrightarrow>
     (\<forall>i < slots t. info_at t (Suc i) < 2 * mInfoInc t \<or>
                    info_at t (Suc i) \<le> info_at t i + mInfoInc t)"

text \<open>With room for another element no info byte can leave its eight bits in the next insertion.\<close>

definition room_ok :: "('k, 'v) Table \<Rightarrow> bool" where
  "room_ok t \<longleftrightarrow> (\<forall>i < slots t. info_at t i + mInfoInc t \<le> 255)"

definition count_ok :: "('k, 'v) Table \<Rightarrow> bool" where
  "count_ok t \<longleftrightarrow>
     distinct (map fst (contents t)) \<and> mNumElements t = length (contents t) \<and>
     mNumElements t \<le> calcMaxNumElementsAllowed (mMask t + 1) \<and>
     (mMaxNumElementsAllowed t = 0 \<or>
      mMaxNumElementsAllowed t = calcMaxNumElementsAllowed (mMask t + 1) \<and> room_ok t)"

definition table_wf :: "('k \<Rightarrow> u64) \<Rightarrow> ('k, 'v) Table \<Rightarrow> bool" where
  "table_wf hash t \<longleftrightarrow> table_shape t \<and> probe_ok hash t \<and> steps_ok t \<and> count_ok t"

section \<open>Facts about the invariant\<close>

lemma calcMax_small: "n \<le> 2 ^ 36 \<Longrightarrow> calcMaxNumElementsAllowed n = n * 80 div 100"
  by (simp add: calcMaxNumElementsAllowed_def)

lemma shape_inc:
  assumes "table_shape t"
  shows "2 \<le> mInfoInc t" "mInfoInc t \<le> 32" "mInfoHashShift t \<in> {0,1,2,3,4}"
proof -
  have s: "mInfoHashShift t \<le> 4" and i: "mInfoInc t = 2 ^ (5 - mInfoHashShift t)"
    using assms by (simp_all add: table_shape_def)
  from s show m: "mInfoHashShift t \<in> {0,1,2,3,4}" by auto
  from m i show "2 \<le> mInfoInc t" "mInfoInc t \<le> 32" by auto
qed

lemma shape_slots:
  assumes "table_shape t"
  shows "mMask t < slots t" "length (mInfo t) = slots t + 8"
    "info_at t (slots t) = 1" "info_at t (Suc (slots t)) = 0"
  using assms by (auto simp: table_shape_def calcNumElementsWithBuffer_def)

lemma hash_bits_less:
  assumes "table_shape t"
  shows "unat (drop_bit (mInfoHashShift t) (h AND InfoMask)) < mInfoInc t"
proof -
  have "h AND InfoMask \<le> 31" by (rule word_and_le1)
  then have "unat (h AND InfoMask) \<le> 31" by (simp add: word_le_nat_alt)
  moreover have "(2 :: nat) ^ (5 - mInfoHashShift t) * 2 ^ mInfoHashShift t = 32"
    using assms by (simp add: table_shape_def flip: power_add)
  ultimately have "unat (h AND InfoMask) div 2 ^ mInfoHashShift t < 2 ^ (5 - mInfoHashShift t)"
    by (intro less_mult_imp_div_less) linarith
  moreover have drop: "unat (drop_bit s (x :: u64)) = unat x div 2 ^ s" for s x
    by (simp add: unat_drop_bit_eq drop_bit_eq_div [where 'a = nat])
  ultimately show ?thesis
    using assms unfolding drop by (simp add: table_shape_def)
qed

lemma home_le: "table_shape t \<Longrightarrow> home hash t k \<le> mMask t"
proof -
  have "drop_bit InitialInfoNumBits (hash k) AND of_nat (mMask t) \<le> (of_nat (mMask t) :: u64)"
    by (rule word_and_le1)
  then have "home hash t k \<le> unat (of_nat (mMask t) :: u64)"
    by (simp add: home_def keyToIdx_def Let_def word_le_nat_alt)
  also have "\<dots> \<le> mMask t"
    by (simp add: unat_of_nat)
  finally show ?thesis .
qed

lemma probe_home:
  assumes "table_shape t"
  shows "mInfoInc t \<le> probe hash t k i" "probe hash t k (home hash t k) < 2 * mInfoInc t"
  using hash_bits_less [OF assms, of "hash k"]
  by (auto simp: probe_def keyToIdx_def Let_def)

lemma probe_Suc: "home hash t k \<le> i \<Longrightarrow> probe hash t k (Suc i) = probe hash t k i + mInfoInc t"
  by (simp add: probe_def Suc_diff_le)

lemma keyToIdx_home: "keyToIdx hash t k = (probe hash t k (home hash t k), home hash t k)"
  by (simp add: probe_def home_def prod_eq_iff)

lemma probe_okD:
  assumes "probe_ok hash t" and "i < slots t" and "mInfo t ! i \<noteq> 0"
  obtains n where "mKeyVals t ! i = Some n" "home hash t (fst n) \<le> i"
    "info_at t i = probe hash t (fst n) i"
  using assms by (auto simp: probe_ok_def)

lemma probe_le_info:
  assumes shape: "table_shape t" and steps: "steps_ok t"
    and p: "p < slots t" "info_at t p = probe hash t k p"
    and j: "home hash t k \<le> j" "j \<le> p"
  shows "probe hash t k j \<le> info_at t j"
  using j(2,1)
proof (induction rule: inc_induct)
  case base
  then show ?case using p by simp
next
  case (step j)
  have s: "probe hash t k (Suc j) = probe hash t k j + mInfoInc t"
    using step.prems by (rule probe_Suc)
  have "probe hash t k (Suc j) \<le> info_at t (Suc j)"
    using step by simp
  moreover have "mInfoInc t \<le> probe hash t k j" by (rule probe_home(1) [OF shape])
  moreover have "info_at t (Suc j) < 2 * mInfoInc t \<or> info_at t (Suc j) \<le> info_at t j + mInfoInc t"
    using steps step.hyps p(1) by (simp add: steps_ok_def)
  ultimately show ?case using s by linarith
qed

lemma occupant_Some: "occupant x = Some n \<longleftrightarrow> fst x \<noteq> 0 \<and> snd x = Some n"
  by (cases x) auto

lemma mem_contents:
  assumes "table_shape t"
  shows "n \<in> set (contents t) \<longleftrightarrow>
    (\<exists>i < slots t. mInfo t ! i \<noteq> 0 \<and> mKeyVals t ! i = Some n)"
  using shape_slots(2) [OF assms]
  by (force simp: contents_def List.map_filter_def in_set_zip occupant_Some image_iff)

lemma table_map_Some:
  assumes "table_wf hash t"
  shows "table_map t k = Some v \<longleftrightarrow>
    (\<exists>i < slots t. mInfo t ! i \<noteq> 0 \<and> mKeyVals t ! i = Some (k, v))"
  using assms mem_contents [of t "(k, v)"]
  by (simp add: table_wf_def count_ok_def table_map_def map_of_eq_Some_iff)

lemma table_map_None:
  assumes "table_wf hash t"
  shows "table_map t k = None \<longleftrightarrow>
    (\<forall>i < slots t. mInfo t ! i \<noteq> 0 \<longrightarrow> (\<forall>v. mKeyVals t ! i \<noteq> Some (k, v)))"
  using table_map_Some [OF assms, of k] by (metis not_None_eq)

section \<open>Searching\<close>

text \<open>
  The slots from the home of \<open>k\<close> up to \<open>i\<close>, exclusively, do not hold \<open>k\<close> and none of them stops a
  search for it.
\<close>

definition passed :: "('k \<Rightarrow> u64) \<Rightarrow> ('k, 'v) Table \<Rightarrow> 'k \<Rightarrow> nat \<Rightarrow> bool" where
  "passed hash t k i \<longleftrightarrow>
     home hash t k \<le> i \<and> i \<le> slots t \<and>
     (\<forall>j. home hash t k \<le> j \<longrightarrow> j < i \<longrightarrow>
        probe hash t k j \<le> info_at t j \<and> (\<forall>v. mKeyVals t ! j \<noteq> Some (k, v)))"

lemma passed_home: "table_shape t \<Longrightarrow> passed hash t k (home hash t k)"
  using home_le [of t hash k] shape_slots(1) [of t] by (simp add: passed_def)

lemma passed_Suc:
  "passed hash t k i \<Longrightarrow> i < slots t \<Longrightarrow> probe hash t k i \<le> info_at t i \<Longrightarrow>
   (\<forall>v. mKeyVals t ! i \<noteq> Some (k, v)) \<Longrightarrow> passed hash t k (Suc i)"
  by (auto simp: passed_def less_Suc_eq)

lemma passed_probe_Suc: "passed hash t k i \<Longrightarrow> probe hash t k (Suc i) = probe hash t k i + mInfoInc t"
  by (rule probe_Suc) (simp add: passed_def)

lemma probe_above_sentinel:
  assumes "table_shape t" and "probe hash t k i \<le> info_at t i" and "i \<le> Suc (slots t)"
  shows "i < slots t"
  using assms probe_home(1) [OF assms(1), of hash k i] shape_inc(1) [OF assms(1)]
    shape_slots(3,4) [OF assms(1)]
  by (cases "i = slots t \<or> i = Suc (slots t)") auto

lemma probe_not_zero:
  assumes "table_shape t" and "probe hash t k i \<le> info_at t i"
  shows "mInfo t ! i \<noteq> 0"
  using assms probe_home(1) [OF assms(1), of hash k i] shape_inc(1) [OF assms(1)] by auto

lemma passed_absent:
  assumes wf: "table_wf hash t" and i: "passed hash t k i" "info_at t i < probe hash t k i"
  shows "table_map t k = None"
proof (rule ccontr)
  have shape: "table_shape t" and probe: "probe_ok hash t" and steps: "steps_ok t"
    using wf by (simp_all add: table_wf_def)
  assume "table_map t k \<noteq> None"
  then obtain p v where p: "p < slots t" "mInfo t ! p \<noteq> 0" "mKeyVals t ! p = Some (k, v)"
    by (auto simp: table_map_Some [OF wf])
  obtain n where n: "mKeyVals t ! p = Some n" "home hash t (fst n) \<le> p"
      "info_at t p = probe hash t (fst n) p"
    by (rule probe_okD [OF probe p(1,2)])
  have h: "home hash t k \<le> p" and ip: "info_at t p = probe hash t k p"
    using n p(3) by auto
  have "\<not> p < i" using i(1) h p(3) by (auto simp: passed_def)
  then have "probe hash t k i \<le> info_at t i"
    using probe_le_info [OF shape steps p(1) ip, of i] i(1) by (simp add: passed_def)
  with i(2) show False by simp
qed

lemma at_info:
  assumes "table_shape t" and "i \<le> Suc (slots t)"
  shows "at_index (mInfo t) i = Inr (mInfo t ! i)"
  using assms shape_slots(2) [OF assms(1)] by simp

lemma node_at_occupied:
  assumes "table_wf hash t" and "i < slots t" and "mInfo t ! i \<noteq> 0"
  obtains n where "node_at t i = Inr n" "mKeyVals t ! i = Some n"
proof -
  have "probe_ok hash t" using assms(1) by (simp add: table_wf_def)
  from probe_okD [OF this assms(2,3)] obtain n where "mKeyVals t ! i = Some n" by blast
  with assms(2) have "node_at t i = Inr n" by (simp add: node_at_def)
  with \<open>mKeyVals t ! i = Some n\<close> show thesis by (rule that[rotated])
qed

lemma nextWhileLess_spec:
  assumes wf: "table_wf hash t" and "passed hash t k i"
  shows "\<exists>j. nextWhileLess t (probe hash t k i) i = Inr (probe hash t k j, j) \<and>
             passed hash t k j \<and> info_at t j \<le> probe hash t k j"
  using assms(2)
proof (induction "slots t - i" arbitrary: i rule: less_induct)
  case less
  have shape: "table_shape t" and probe: "probe_ok hash t"
    using wf by (simp_all add: table_wf_def)
  have i: "i \<le> slots t" using less.prems by (simp add: passed_def)
  show ?case
  proof (cases "probe hash t k i < info_at t i")
    case True
    then have lt: "i < slots t" using probe_above_sentinel [OF shape, of hash k i] i by simp
    obtain n where n: "mKeyVals t ! i = Some n" "info_at t i = probe hash t (fst n) i"
      using probe_okD [OF probe lt probe_not_zero [OF shape less_imp_le [OF True]]] by blast
    have "passed hash t k (Suc i)"
      by (rule passed_Suc [OF less.prems lt]) (use True n in auto)
    with less.hyps [of "Suc i"] lt
    obtain j where "nextWhileLess t (probe hash t k (Suc i)) (Suc i) = Inr (probe hash t k j, j)"
        "passed hash t k j" "info_at t j \<le> probe hash t k j"
      by (auto simp: diff_less_mono2)
    with True i show ?thesis
      by (subst nextWhileLess.simps)
        (simp add: at_info [OF shape] passed_probe_Suc [OF less.prems])
  next
    case False
    with i less.prems show ?thesis
      by (subst nextWhileLess.simps) (simp add: at_info [OF shape])
  qed
qed

lemma match_loop_spec:
  assumes wf: "table_wf hash t" and "passed hash t k i" and "info_at t i \<le> probe hash t k i"
  shows "\<exists>found j. match_loop t k (probe hash t k i) i = Inr (found, probe hash t k j, j) \<and>
           passed hash t k j \<and>
           (if found then j < slots t \<and> mInfo t ! j \<noteq> 0 \<and> (\<exists>v. mKeyVals t ! j = Some (k, v))
            else info_at t j < probe hash t k j)"
  using assms(2,3)
proof (induction "slots t - i" arbitrary: i rule: less_induct)
  case less
  have shape: "table_shape t" and probe: "probe_ok hash t" and steps: "steps_ok t"
    using wf by (simp_all add: table_wf_def)
  have i: "i \<le> slots t" using less.prems(1) by (simp add: passed_def)
  show ?case
  proof (cases "probe hash t k i = info_at t i")
    case eq: True
    then have lt: "i < slots t" using probe_above_sentinel [OF shape, of hash k i] i by simp
    have nz: "mInfo t ! i \<noteq> 0" using probe_not_zero [OF shape, of hash k i] eq by simp
    obtain n where n: "node_at t i = Inr n" "mKeyVals t ! i = Some n"
      by (rule node_at_occupied [OF wf lt nz])
    show ?thesis
    proof (cases "k = fst n")
      case True
      with eq i n lt nz less.prems(1) show ?thesis
        by (subst match_loop.simps) (cases n; auto simp: at_info [OF shape])
    next
      case False
      have "passed hash t k (Suc i)"
        by (rule passed_Suc [OF less.prems(1) lt]) (use eq n False in auto)
      moreover have "info_at t (Suc i) \<le> probe hash t k (Suc i)"
      proof -
        have "info_at t (Suc i) < 2 * mInfoInc t \<or> info_at t (Suc i) \<le> info_at t i + mInfoInc t"
          using steps lt by (simp add: steps_ok_def)
        then show ?thesis
          using passed_probe_Suc [OF less.prems(1)] probe_home(1) [OF shape, of hash k i] eq by auto
      qed
      ultimately obtain found j where
          "match_loop t k (probe hash t k (Suc i)) (Suc i) = Inr (found, probe hash t k j, j)"
          "passed hash t k j"
          "if found then j < slots t \<and> mInfo t ! j \<noteq> 0 \<and> (\<exists>v. mKeyVals t ! j = Some (k, v))
           else info_at t j < probe hash t k j"
        using less.hyps [of "Suc i"] lt diff_less_mono2 by blast
      with eq i n False show ?thesis
        by (subst match_loop.simps)
          (simp add: at_info [OF shape] passed_probe_Suc [OF less.prems(1)])
    qed
  next
    case False
    with i less.prems show ?thesis
      by (subst match_loop.simps) (auto simp: at_info [OF shape] intro!: exI [of _ False])
  qed
qed

lemma slot_has_spec:
  assumes wf: "table_wf hash t" and i: "i \<le> Suc (slots t)"
  shows "slot_has t k (probe hash t k i) i =
    Inr (i < slots t \<and> info_at t i = probe hash t k i \<and> (\<exists>v. mKeyVals t ! i = Some (k, v)))"
proof (cases "info_at t i = probe hash t k i")
  case True
  have shape: "table_shape t" using wf by (simp add: table_wf_def)
  have lt: "i < slots t" and nz: "mInfo t ! i \<noteq> 0"
    using probe_above_sentinel [OF shape, of hash k i] probe_not_zero [OF shape, of hash k i]
      True i by simp_all
  obtain n where "node_at t i = Inr n" "mKeyVals t ! i = Some n"
    by (rule node_at_occupied [OF wf lt nz])
  with True i lt show ?thesis
    by (cases n) (auto simp: slot_has_def at_info [OF shape])
next
  case False
  moreover have "table_shape t" using wf by (simp add: table_wf_def)
  ultimately show ?thesis
    using i by (auto simp: slot_has_def at_info)
qed

text \<open>A slot that does not hold \<open>k\<close> has been passed if \<open>k\<close> is in the table at all.\<close>

lemma passed_next:
  assumes wf: "table_wf hash t" and i: "i < slots t" "home hash t k \<le> i"
    and passed: "table_map t k \<noteq> None \<longrightarrow> passed hash t k i"
    and no: "\<not> (info_at t i = probe hash t k i \<and> (\<exists>v. mKeyVals t ! i = Some (k, v)))"
  shows "table_map t k \<noteq> None \<longrightarrow> passed hash t k (Suc i)"
proof
  assume k: "table_map t k \<noteq> None"
  have shape: "table_shape t" and probe: "probe_ok hash t"
    using wf by (simp_all add: table_wf_def)
  have le: "probe hash t k i \<le> info_at t i"
    using passed_absent [OF wf] passed k by (metis not_le)
  obtain n where "mKeyVals t ! i = Some n" "info_at t i = probe hash t (fst n) i"
    using probe_okD [OF probe i(1) probe_not_zero [OF shape le]] by metis
  with no have "\<forall>v. mKeyVals t ! i \<noteq> Some (k, v)" by auto
  with passed k le i(1) show "passed hash t k (Suc i)" by (blast intro: passed_Suc)
qed

definition holds_key :: "('k, 'v) Table \<Rightarrow> 'k \<Rightarrow> nat \<Rightarrow> bool" where
  "holds_key t k p \<longleftrightarrow> p < slots t \<and> mInfo t ! p \<noteq> 0 \<and> (\<exists>v. mKeyVals t ! p = Some (k, v))"

lemma findIdx_loop_spec:
  assumes wf: "table_wf hash t" and "i < slots t" and "home hash t k \<le> i"
    and "table_map t k \<noteq> None \<longrightarrow> passed hash t k i"
  shows "\<exists>r. findIdx_loop t k (probe hash t k i) i = Inr r \<and>
    (case r of None \<Rightarrow> table_map t k = None | Some p \<Rightarrow> holds_key t k p)"
  using assms(2-)
proof (induction "slots t - i" arbitrary: i rule: less_induct)
  case less
  have shape: "table_shape t" using wf by (simp add: table_wf_def)
  define here where "here = (\<lambda>i. i < slots t \<and> info_at t i = probe hash t k i \<and>
    (\<exists>v. mKeyVals t ! i = Some (k, v)))"
  have has: "slot_has t k (probe hash t k i) i = Inr (here i)" if "i \<le> Suc (slots t)" for i
    unfolding here_def by (rule slot_has_spec [OF wf that])
  have holds: "holds_key t k i" if "here i" for i
    using that probe_not_zero [OF shape, of hash k i] by (auto simp: holds_key_def here_def)
  have s1: "probe hash t k (Suc i) = probe hash t k i + mInfoInc t"
    using less.prems(2) by (rule probe_Suc)
  have s2: "probe hash t k (Suc (Suc i)) = probe hash t k i + 2 * mInfoInc t"
    using probe_Suc [of hash t k "Suc i"] less.prems(2) s1 by simp
  note unfold = findIdx_loop.simps [of t k "probe hash t k i" i]
    has [of i] has [of "Suc i", unfolded s1] at_info [OF shape, of "Suc (Suc i)"]
  consider "here i" | "\<not> here i" "here (Suc i)" | "\<not> here i" "\<not> here (Suc i)" by blast
  then show ?case
  proof cases
    case 1
    then show ?thesis using holds less.prems(1) unfold by simp
  next
    case 2
    then show ?thesis using holds less.prems(1) unfold by simp
  next
    case 3
    have p1: "table_map t k \<noteq> None \<longrightarrow> passed hash t k (Suc i)"
      by (rule passed_next [OF wf less.prems]) (use 3(1) less.prems(1) in \<open>auto simp: here_def\<close>)
    have p2: "Suc i < slots t \<and> passed hash t k (Suc (Suc i))" if "table_map t k \<noteq> None"
    proof
      show lt: "Suc i < slots t"
        using passed_absent [OF wf] p1 that probe_above_sentinel [OF shape, of hash k "Suc i"]
          less.prems(1) by (metis Suc_leI not_le le_SucI)
      show "passed hash t k (Suc (Suc i))"
        using passed_next [OF wf lt _ p1] 3(2) lt less.prems(2) that by (auto simp: here_def)
    qed
    show ?thesis
    proof (cases "probe hash t k (Suc (Suc i)) \<le> info_at t (Suc (Suc i))")
      case True
      then have lt: "Suc (Suc i) < slots t"
        using probe_above_sentinel [OF shape True] less.prems(1) by simp
      have "slots t - Suc (Suc i) < slots t - i" using less.prems(1) by simp
      from less.hyps [OF this lt] p2 less.prems(2)
      obtain r where "findIdx_loop t k (probe hash t k (Suc (Suc i))) (Suc (Suc i)) = Inr r"
          "case r of None \<Rightarrow> table_map t k = None | Some p \<Rightarrow> holds_key t k p"
        by auto
      with 3 True lt unfold s2 show ?thesis by simp
    next
      case False
      then have "table_map t k = None" using passed_absent [OF wf] p2 by (metis not_le)
      with 3 False less.prems(1) unfold s2 show ?thesis by simp
    qed
  qed
qed

section \<open>Placing a node\<close>

text \<open>The entries of \<open>xs\<close> from \<open>lo\<close> to \<open>hi - 1\<close> moved up by one, changed by \<open>f\<close>.\<close>

definition shifted :: "nat \<Rightarrow> nat \<Rightarrow> ('a \<Rightarrow> 'a) \<Rightarrow> 'a list \<Rightarrow> 'a list" where
  "shifted lo hi f xs =
     map (\<lambda>j. if lo < j \<and> j \<le> hi then f (xs ! (j - 1)) else xs ! j) [0..<length xs]"

lemma length_shifted [simp]: "length (shifted lo hi f xs) = length xs"
  by (simp add: shifted_def)

lemma nth_shifted:
  "j < length xs \<Longrightarrow>
   shifted lo hi f xs ! j = (if lo < j \<and> j \<le> hi then f (xs ! (j - 1)) else xs ! j)"
  by (simp add: shifted_def)

lemma shifted_self [simp]: "shifted lo lo f xs = xs"
  by (rule nth_equalityI) (auto simp: nth_shifted)

lemma shifted_update:
  "lo < hi \<Longrightarrow> hi < length xs \<Longrightarrow>
   shifted lo (hi - 1) f (xs[hi := f (xs ! (hi - 1))]) = shifted lo hi f xs"
  by (rule nth_equalityI) (auto simp: nth_shifted nth_list_update)

lemma move_node_spec:
  "s < slots t \<Longrightarrow> d < slots t \<Longrightarrow> mKeyVals t ! s \<noteq> None \<Longrightarrow>
   move_node d s t = Inr (t\<lparr>mKeyVals := (mKeyVals t)[d := mKeyVals t ! s]\<rparr>)"
  by (auto simp: move_node_def node_at_def set_node_def)

lemma shiftUp_nodes_spec:
  "ins \<le> m \<Longrightarrow> m < slots t \<Longrightarrow> (\<forall>j. ins \<le> j \<longrightarrow> j < m \<longrightarrow> mKeyVals t ! j \<noteq> None) \<Longrightarrow>
   shiftUp_nodes ins (Suc m) t = Inr (t\<lparr>mKeyVals := shifted ins m (\<lambda>x. x) (mKeyVals t)\<rparr>)"
proof (induction m arbitrary: t)
  case 0
  then show ?case by simp
next
  case (Suc m)
  show ?case
  proof (cases "Suc m = ins")
    case True
    then show ?thesis by simp
  next
    case False
    with Suc.prems have lt: "ins < Suc m" by simp
    with Suc.prems have mv: "move_node (Suc m) (Suc m - 1) t =
        Inr (t\<lparr>mKeyVals := (mKeyVals t)[Suc m := mKeyVals t ! m]\<rparr>)"
      by (simp add: move_node_spec)
    have "shiftUp_nodes ins (Suc m) (t\<lparr>mKeyVals := (mKeyVals t)[Suc m := mKeyVals t ! m]\<rparr>) =
        Inr (t\<lparr>mKeyVals := shifted ins m (\<lambda>x. x) ((mKeyVals t)[Suc m := mKeyVals t ! m])\<rparr>)"
      using Suc.IH [of "t\<lparr>mKeyVals := (mKeyVals t)[Suc m := mKeyVals t ! m]\<rparr>"] Suc.prems lt by (simp del: shiftUp_nodes.simps)
    moreover have "shifted ins m (\<lambda>x. x) ((mKeyVals t)[Suc m := mKeyVals t ! m]) =
        shifted ins (Suc m) (\<lambda>x. x) (mKeyVals t)"
      using shifted_update [of ins "Suc m" "mKeyVals t" "\<lambda>x. x"] lt Suc.prems(2) by simp
    ultimately show ?thesis
      using False unfolding shiftUp_nodes.simps(2) [of ins "Suc m"] mv rbind.simps by simp
  qed
qed

definition bumped :: "nat \<Rightarrow> u8 \<Rightarrow> u8" where
  "bumped inc b = b + of_nat inc"

lemma shiftUp_info_spec:
  "ins \<le> m \<Longrightarrow> m < length (mInfo t) \<Longrightarrow>
   \<exists>mx. shiftUp_info ins m t =
      Inr (t\<lparr>mInfo := shifted ins m (bumped (mInfoInc t)) (mInfo t), mMaxNumElementsAllowed := mx\<rparr>) \<and>
      (mx = 0 \<or> mx = mMaxNumElementsAllowed t \<and>
         (\<forall>j. ins \<le> j \<longrightarrow> j < m \<longrightarrow> unat (bumped (mInfoInc t) (mInfo t ! j)) + mInfoInc t \<le> 255)) \<and>
      (mx = 0 \<longrightarrow> mMaxNumElementsAllowed t = 0 \<or>
         (\<exists>j. ins \<le> j \<and> j < m \<and> 255 < unat (bumped (mInfoInc t) (mInfo t ! j)) + mInfoInc t))"
proof (induction m arbitrary: t)
  case 0
  then show ?case by (intro exI [of _ "mMaxNumElementsAllowed t"]) auto
next
  case (Suc m)
  show ?case
  proof (cases "Suc m = ins")
    case True
    then show ?thesis by (intro exI [of _ "mMaxNumElementsAllowed t"]) auto
  next
    case False
    with Suc.prems have lt: "ins < Suc m" "Suc m < length (mInfo t)" by simp_all
    define b where "b = bumped (mInfoInc t) (mInfo t ! m)"
    define mx where "mx = (if unat b + mInfoInc t > 255 then 0 else mMaxNumElementsAllowed t)"
    define t1 where
      "t1 = t\<lparr>mInfo := (mInfo t)[Suc m := b], mMaxNumElementsAllowed := mx\<rparr>"
    have step: "shiftUp_info ins (Suc m) t = shiftUp_info ins m t1"
      using lt False by (simp add: set_info_def Let_def b_def mx_def t1_def bumped_def)
    have "shifted ins m f (mInfo t1) = shifted ins (Suc m) f (mInfo t)"
      if "f = bumped (mInfoInc t)" for f
      using shifted_update [OF lt, of f] by (simp add: t1_def b_def that)
    moreover have same: "mInfo t1 ! j = mInfo t ! j" "mInfoInc t1 = mInfoInc t" if "j < Suc m" for j
      using that by (simp_all add: t1_def)
    moreover obtain mx' where "shiftUp_info ins m t1 =
        Inr (t1\<lparr>mInfo := shifted ins m (bumped (mInfoInc t1)) (mInfo t1),
          mMaxNumElementsAllowed := mx'\<rparr>)"
      and "mx' = 0 \<or> mx' = mMaxNumElementsAllowed t1 \<and>
         (\<forall>j. ins \<le> j \<longrightarrow> j < m \<longrightarrow> unat (bumped (mInfoInc t1) (mInfo t1 ! j)) + mInfoInc t1 \<le> 255)"
      and cause: "mx' = 0 \<longrightarrow> mMaxNumElementsAllowed t1 = 0 \<or>
         (\<exists>j. ins \<le> j \<and> j < m \<and> 255 < unat (bumped (mInfoInc t1) (mInfo t1 ! j)) + mInfoInc t1)"
      using Suc.IH [of t1] lt by (auto simp: t1_def)
    moreover have "mMaxNumElementsAllowed t = 0 \<or>
        (\<exists>j. ins \<le> j \<and> j < Suc m \<and> 255 < unat (bumped (mInfoInc t) (mInfo t ! j)) + mInfoInc t)"
      if "mx' = 0"
    proof (cases "mMaxNumElementsAllowed t1 = 0")
      case True
      then have "mMaxNumElementsAllowed t = 0 \<or> 255 < unat b + mInfoInc t"
        by (auto simp: t1_def mx_def split: if_splits)
      with lt show ?thesis by (auto simp: b_def)
    next
      case False
      with cause that obtain j where "ins \<le> j" "j < m"
          "255 < unat (bumped (mInfoInc t1) (mInfo t1 ! j)) + mInfoInc t1" by blast
      with same [of j] show ?thesis by auto
    qed
    ultimately show ?thesis
      using step
      by (intro exI [of _ mx']) (auto simp: t1_def mx_def b_def less_Suc_eq split: if_splits)
  qed
qed

text \<open>The first free slot from \<open>i\<close> on, when there is one.\<close>

lemma empty_spot_spec:
  assumes "i \<le> e" "e < length (mInfo t)" "mInfo t ! e = 0"
    "\<forall>j. i \<le> j \<longrightarrow> j < e \<longrightarrow> mInfo t ! j \<noteq> 0"
  shows "empty_spot t i = Inr e"
  using assms
proof (induction "e - i" arbitrary: i)
  case 0
  then show ?case by (subst empty_spot.simps) simp
next
  case (Suc n)
  then have "empty_spot t (Suc i) = Inr e" by simp
  moreover have "i < e" "mInfo t ! i \<noteq> 0" using Suc by auto
  ultimately show ?case using Suc.prems(2) by (subst empty_spot.simps) simp
qed

text \<open>What placing a node does to the table, when \<open>e\<close> is the first free slot.\<close>

definition placed :: "'k \<times> 'v \<Rightarrow> nat \<Rightarrow> nat \<Rightarrow> nat \<Rightarrow> nat \<Rightarrow> ('k, 'v) Table \<Rightarrow> ('k, 'v) Table" where
  "placed n info ins e mx t =
     t\<lparr>mKeyVals := (shifted ins e (\<lambda>x. x) (mKeyVals t))[ins := Some n],
       mInfo := (shifted ins e (bumped (mInfoInc t)) (mInfo t))[ins := of_nat info],
       mNumElements := mNumElements t + 1, mMaxNumElementsAllowed := mx\<rparr>"

lemma place_spec:
  assumes "ins \<le> e" and e: "e < slots t" "slots t \<le> length (mInfo t)" "mInfo t ! e = 0"
    and run: "\<forall>j. ins \<le> j \<longrightarrow> j < e \<longrightarrow> mInfo t ! j \<noteq> 0 \<and> mKeyVals t ! j \<noteq> None"
  shows "\<exists>mx. place n info ins t = Inr (placed n info ins e mx t) \<and>
    (mx = 0 \<or> mx = mMaxNumElementsAllowed t \<and> info + mInfoInc t \<le> 255 \<and>
       (\<forall>j. ins \<le> j \<longrightarrow> j < e \<longrightarrow> unat (bumped (mInfoInc t) (mInfo t ! j)) + mInfoInc t \<le> 255)) \<and>
    (mx = 0 \<longrightarrow> mMaxNumElementsAllowed t = 0 \<or> 255 < info + mInfoInc t \<or>
       (\<exists>j. ins \<le> j \<and> j < e \<and> 255 < unat (bumped (mInfoInc t) (mInfo t ! j)) + mInfoInc t))"
proof -
  define mx0 where "mx0 = (if info + mInfoInc t > 255 then 0 else mMaxNumElementsAllowed t)"
  define t0 where "t0 = t\<lparr>mMaxNumElementsAllowed := mx0\<rparr>"
  have t0: "(if info + mInfoInc t > 0xFF then t\<lparr>mMaxNumElementsAllowed := 0\<rparr> else t) = t0"
    by (simp add: t0_def mx0_def)
  have spot: "empty_spot t0 ins = Inr e"
    using assms by (intro empty_spot_spec) (auto simp: t0_def)
  have "\<exists>mx. (if e = ins then Inr t0 else shiftUp e ins t0) =
      Inr (t0\<lparr>mKeyVals := shifted ins e (\<lambda>x. x) (mKeyVals t),
        mInfo := shifted ins e (bumped (mInfoInc t)) (mInfo t), mMaxNumElementsAllowed := mx\<rparr>) \<and>
      (mx = 0 \<or> mx = mx0 \<and>
       (\<forall>j. ins \<le> j \<longrightarrow> j < e \<longrightarrow> unat (bumped (mInfoInc t) (mInfo t ! j)) + mInfoInc t \<le> 255)) \<and>
      (mx = 0 \<longrightarrow> mx0 = 0 \<or>
       (\<exists>j. ins \<le> j \<and> j < e \<and> 255 < unat (bumped (mInfoInc t) (mInfo t ! j)) + mInfoInc t))"
  proof (cases "e = ins")
    case True
    then show ?thesis by (intro exI [of _ mx0]) (simp add: t0_def)
  next
    case False
    with assms(1) have lt: "ins < e" by simp
    define t1 where "t1 = t0\<lparr>mKeyVals := (mKeyVals t)[e := mKeyVals t ! (e - 1)]\<rparr>"
    have mv: "move_node e (e - 1) t0 = Inr t1"
      using run e lt by (subst move_node_spec) (auto simp: t0_def t1_def)
    have "shiftUp_nodes ins (Suc (e - 1)) t1 =
        Inr (t1\<lparr>mKeyVals := shifted ins (e - 1) (\<lambda>x. x) (mKeyVals t1)\<rparr>)"
      using run e lt by (intro shiftUp_nodes_spec) (auto simp: t1_def t0_def)
    moreover have "shifted ins (e - 1) (\<lambda>x. x) (mKeyVals t1) = shifted ins e (\<lambda>x. x) (mKeyVals t)"
      using shifted_update [of ins e "mKeyVals t" "\<lambda>x. x"] lt e by (simp add: t1_def)
    ultimately have nodes: "shiftUp_nodes ins e t1 =
        Inr (t1\<lparr>mKeyVals := shifted ins e (\<lambda>x. x) (mKeyVals t)\<rparr>)"
      using lt by simp
    show ?thesis
      using shiftUp_info_spec [of ins e "t1\<lparr>mKeyVals := shifted ins e (\<lambda>x. x) (mKeyVals t)\<rparr>"] lt e
      unfolding shiftUp_def mv rbind.simps nodes by (auto simp: t1_def t0_def)
  qed
  then obtain mx where sh: "(if e = ins then Inr t0 else shiftUp e ins t0) =
      Inr (t0\<lparr>mKeyVals := shifted ins e (\<lambda>x. x) (mKeyVals t),
        mInfo := shifted ins e (bumped (mInfoInc t)) (mInfo t), mMaxNumElementsAllowed := mx\<rparr>)"
    and mx: "mx = 0 \<or> mx = mx0 \<and>
       (\<forall>j. ins \<le> j \<longrightarrow> j < e \<longrightarrow> unat (bumped (mInfoInc t) (mInfo t ! j)) + mInfoInc t \<le> 255)"
    and mx1: "mx = 0 \<longrightarrow> mx0 = 0 \<or>
       (\<exists>j. ins \<le> j \<and> j < e \<and> 255 < unat (bumped (mInfoInc t) (mInfo t ! j)) + mInfoInc t)"
    by blast
  have "place n info ins t = Inr (placed n info ins e mx t)"
    unfolding place_def t0 Let_def spot rbind.simps sh
    using assms(1) e by (simp add: set_node_def set_info_def placed_def t0_def)
  with mx mx1 show ?thesis
    by (intro exI [of _ mx]) (auto simp: mx0_def split: if_splits)
qed

lemma home_cong:
  assumes "mMask t' = mMask t" "mInfoInc t' = mInfoInc t" "mInfoHashShift t' = mInfoHashShift t"
  shows "home hash t' = home hash t" "probe hash t' = probe hash t"
  using assms by (auto simp: home_def probe_def keyToIdx_def Let_def fun_eq_iff)

lemma map_filter_append [simp]:
  "List.map_filter f (xs @ ys) = List.map_filter f xs @ List.map_filter f ys"
  by (simp add: List.map_filter_def)

lemma unat_bumped: "unat b + inc \<le> 255 \<Longrightarrow> unat (bumped inc b) = unat b + inc"
  unfolding bumped_def by (subst unat_add_lem [THEN iffD1]) (simp_all add: unat_of_nat)

lemma byte_le: "unat (b :: u8) \<le> 255"
proof -
  have "unat b < 2 ^ LENGTH(8)" by (rule unsigned_less)
  then show ?thesis by simp
qed

lemma card_occupied:
  assumes "table_wf hash t"
  shows "card {i. i < slots t \<and> mInfo t ! i \<noteq> 0} = mNumElements t"
proof -
  have shape: "table_shape t" and probe: "probe_ok hash t" and cnt: "count_ok t"
    using assms by (simp_all add: table_wf_def)
  have "mNumElements t = length (filter (\<lambda>x. occupant x \<noteq> None) (zip (mInfo t) (mKeyVals t)))"
    using cnt by (simp add: count_ok_def contents_def List.map_filter_def)
  also have "\<dots> = card {i. i < slots t \<and> occupant (mInfo t ! i, mKeyVals t ! i) \<noteq> None}"
    using shape_slots(2) [OF shape]
    by (simp add: length_filter_conv_card min_absorb2 cong: conj_cong)
  also have "{i. i < slots t \<and> occupant (mInfo t ! i, mKeyVals t ! i) \<noteq> None} =
      {i. i < slots t \<and> mInfo t ! i \<noteq> 0}"
    using probe by (force simp: probe_ok_def)
  finally show ?thesis by simp
qed

lemma info_bound:
  assumes "table_shape t" and "probe_ok hash t" and "i < slots t" and "mInfo t ! i \<noteq> 0"
  shows "2 * (i - mMask t + 1) \<le> 255"
proof -
  obtain n where "mKeyVals t ! i = Some n" and n: "home hash t (fst n) \<le> i"
      "info_at t i = probe hash t (fst n) i"
    by (rule probe_okD [OF assms(2-4)])
  define h where "h = home hash t (fst n)"
  have "mInfoInc t * (i - h + 1) \<le> info_at t i"
    using n(2) by (simp add: probe_def keyToIdx_def Let_def h_def algebra_simps)
  moreover have "info_at t i \<le> 255" by (rule byte_le)
  moreover have "2 * (i - mMask t + 1) \<le> mInfoInc t * (i - h + 1)"
    by (rule mult_le_mono)
      (use shape_inc(1) [OF assms(1)] home_le [OF assms(1), of hash "fst n"] in \<open>auto simp: h_def\<close>)
  ultimately show ?thesis by linarith
qed

text \<open>The buffer behind the buckets always has a free slot for another element.\<close>

lemma free_slot:
  assumes wf: "table_wf hash t" and room: "mNumElements t < calcMaxNumElementsAllowed (mMask t + 1)"
    and h: "h \<le> mMask t"
  shows "\<exists>e. h \<le> e \<and> e < slots t \<and> mInfo t ! e = 0"
proof (rule ccontr)
  assume "\<not> ?thesis"
  then have full: "mInfo t ! j \<noteq> 0" if "h \<le> j" "j < slots t" for j
    using that by blast
  have shape: "table_shape t" and probe: "probe_ok hash t"
    using wf by (simp_all add: table_wf_def)
  define c where "c = calcMaxNumElementsAllowed (mMask t + 1)"
  have s: "slots t = mMask t + 1 + min c 255"
    using shape by (simp add: table_shape_def calcNumElementsWithBuffer_def c_def)
  show False
  proof (cases "c \<le> 255")
    case True
    have "card {h..<slots t} \<le> card {i. i < slots t \<and> mInfo t ! i \<noteq> 0}"
      by (rule card_mono) (use full in auto)
    with card_occupied [OF wf] room h True s show False by (simp add: c_def)
  next
    case False
    have "2 * (slots t - 1 - mMask t + 1) \<le> 255"
      by (rule info_bound [OF shape probe]) (use full h s in auto)
    with False s show False by simp
  qed
qed

lemma first_free_slot:
  assumes wf: "table_wf hash t" and room: "mNumElements t < calcMaxNumElementsAllowed (mMask t + 1)"
    and ins: "passed hash t k ins"
  shows "\<exists>e. ins \<le> e \<and> e < slots t \<and> mInfo t ! e = 0 \<and>
    (\<forall>j. ins \<le> j \<longrightarrow> j < e \<longrightarrow> mInfo t ! j \<noteq> 0 \<and> mKeyVals t ! j \<noteq> None)"
proof -
  have shape: "table_shape t" and probe: "probe_ok hash t"
    using wf by (simp_all add: table_wf_def)
  define P where "P = (\<lambda>e. home hash t k \<le> e \<and> mInfo t ! e = 0)"
  obtain e0 where e0: "P e0" "e0 < slots t"
    using free_slot [OF wf room home_le [OF shape]] by (auto simp: P_def)
  define e where "e = (LEAST e. P e)"
  have e: "P e" "e < slots t"
    using LeastI [of P, OF e0(1)] Least_le [of P, OF e0(1)] e0(2) by (auto simp: e_def)
  have min: "\<not> P j" if "j < e" for j using not_less_Least that by (simp add: e_def)
  have "ins \<le> e"
  proof (rule ccontr)
    assume "\<not> ins \<le> e"
    then have "e < ins" "home hash t k \<le> e" using e(1) by (simp_all add: P_def)
    then have "probe hash t k e \<le> info_at t e" using ins unfolding passed_def by blast
    from probe_not_zero [OF shape this] e(1) show False by (simp add: P_def)
  qed
  moreover have "mInfo t ! j \<noteq> 0 \<and> mKeyVals t ! j \<noteq> None" if "ins \<le> j" "j < e" for j
  proof -
    have "mInfo t ! j \<noteq> 0" using min [OF that(2)] that(1) ins by (simp add: P_def passed_def)
    moreover have "j < slots t" using that e(2) by simp
    ultimately show ?thesis using probe by (auto simp: probe_ok_def)
  qed
  ultimately show ?thesis using e by (auto simp: P_def)
qed

lemma placed_contents:
  assumes len: "length (mInfo t) \<ge> slots t" and e: "ins \<le> e" "e < slots t" "mInfo t ! e = 0"
    and w: "(of_nat w :: u8) \<noteq> 0"
    and run: "\<forall>j. ins \<le> j \<longrightarrow> j < e \<longrightarrow> mInfo t ! j \<noteq> 0 \<and> bumped (mInfoInc t) (mInfo t ! j) \<noteq> 0"
  shows "\<exists>A B. contents t = A @ B \<and> contents (placed n w ins e mx t) = A @ n # B"
proof -
  define z where "z = zip (mInfo t) (mKeyVals t)"
  define g where "g = (\<lambda>(b, s :: ('a \<times> 'b) option). (bumped (mInfoInc t) b, s))"
  define R where "R = take (e - ins) (drop ins z)"
  have lz: "length z = slots t" using len by (simp add: z_def)
  have nz: "z ! j = (mInfo t ! j, mKeyVals t ! j)" if "j < slots t" for j
    using that len by (simp add: z_def)
  have old: "z = take ins z @ R @ (0, mKeyVals t ! e) # drop (Suc e) z"
  proof -
    have "drop e z = z ! e # drop (Suc e) z" using e lz by (simp add: Cons_nth_drop_Suc)
    moreover have "drop ins z = R @ drop e z"
      using e append_take_drop_id [of "e - ins" "drop ins z"] by (simp add: R_def)
    moreover have "z ! e = (0, mKeyVals t ! e)" using e nz by simp
    ultimately show ?thesis by (metis append_take_drop_id)
  qed
  have new: "zip (mInfo (placed n w ins e mx t)) (mKeyVals (placed n w ins e mx t)) =
      take ins z @ (of_nat w, Some n) # map g R @ drop (Suc e) z" (is "?l = ?r")
  proof (rule nth_equalityI)
    show "length ?l = length ?r"
      using e lz len by (simp add: placed_def R_def)
    fix j assume "j < length ?l"
    then have j: "j < slots t" using len by (simp add: placed_def)
    consider "j < ins" | "j = ins" | "ins < j" "j \<le> e" | "e < j" by linarith
    then show "?l ! j = ?r ! j"
    proof cases
      case 1
      with j e len lz nz show ?thesis
        by (simp add: placed_def nth_shifted nth_append)
    next
      case 2
      with j e len lz show ?thesis
        by (simp add: placed_def nth_shifted nth_append)
    next
      case 3
      then obtain i where i: "j = Suc (ins + i)" by (auto dest: less_imp_Suc_add)
      with 3 have "i < e - ins" by simp
      with i have "?r ! j = g (z ! (j - 1))"
        using e lz by (simp add: nth_append R_def)
      with 3 j e len nz [of "j - 1"] show ?thesis
        by (simp add: placed_def nth_shifted g_def)
    next
      case 4
      then obtain i where i: "j = Suc (e + i)" by (auto dest: less_imp_Suc_add)
      then have "j - ins = Suc (e - ins + i)" "\<not> e + i - ins < e - ins" using e by simp_all
      then have "?r ! j = z ! j"
        using e lz j i by (simp add: nth_append R_def)
      with 4 j e len nz [of j] show ?thesis
        by (simp add: placed_def nth_shifted)
    qed
  qed
  have R: "occupant (g x) = occupant x" if x: "x \<in> set R" for x
  proof -
    obtain i where i: "i < e - ins" "x = z ! (ins + i)"
      using x e lz by (auto simp: R_def in_set_conv_nth)
    with e lz nz [of "ins + i"] run show ?thesis by (simp add: g_def)
  qed
  have "List.map_filter occupant (map g R) = List.map_filter occupant R"
    using R by (simp add: List.map_filter_def filter_map o_def cong: filter_cong map_cong)
  then have "contents (placed n w ins e mx t) =
      List.map_filter occupant (take ins z) @
      n # List.map_filter occupant R @ List.map_filter occupant (drop (Suc e) z)"
    unfolding contents_def new using w by (simp add: List.map_filter_simps)
  moreover have "contents t = List.map_filter occupant (take ins z) @
      List.map_filter occupant R @ List.map_filter occupant (drop (Suc e) z)"
    unfolding contents_def using arg_cong [OF old, of "List.map_filter occupant"]
    by (simp add: List.map_filter_simps flip: z_def)
  ultimately show ?thesis by blast
qed

lemma probe_le_byte:
  assumes wf: "table_wf hash t" and room: "room_ok t" and p: "passed hash t k ins"
  shows "probe hash t k ins \<le> 255"
proof (cases "ins = home hash t k")
  case True
  have "table_shape t" using wf by (simp add: table_wf_def)
  from probe_home(2) [OF this, of hash k] shape_inc(2) [OF this] True show ?thesis by simp
next
  case False
  then obtain j where j: "ins = Suc j" "home hash t k \<le> j"
    using p by (cases ins) (auto simp: passed_def)
  then have "probe hash t k j \<le> info_at t j" "j < slots t" using p by (auto simp: passed_def)
  with j room probe_Suc [OF j(2)] show ?thesis by (force simp: room_ok_def)
qed

lemma placed_nth:
  assumes len: "length (mInfo t) \<ge> slots t" and e: "ins \<le> e" "e < slots t" and w: "w \<le> 255"
    and run: "\<forall>j. ins \<le> j \<longrightarrow> j < e \<longrightarrow> info_at t j + mInfoInc t \<le> 255"
  shows "j < length (mInfo t) \<Longrightarrow> info_at (placed n w ins e mx t) j =
      (if j = ins then w else if ins < j \<and> j \<le> e then info_at t (j - 1) + mInfoInc t else info_at t j)"
    and "j < slots t \<Longrightarrow> mKeyVals (placed n w ins e mx t) ! j =
      (if j = ins then Some n else if ins < j \<and> j \<le> e then mKeyVals t ! (j - 1) else mKeyVals t ! j)"
proof -
  assume j: "j < length (mInfo t)"
  have "unat (of_nat w :: u8) = w" using w by (simp add: unat_of_nat)
  moreover have "unat (bumped (mInfoInc t) (mInfo t ! (j - 1))) = info_at t (j - 1) + mInfoInc t"
    if "ins < j" "j \<le> e"
    using that run by (intro unat_bumped) (cases j; simp)
  ultimately show "info_at (placed n w ins e mx t) j =
      (if j = ins then w else if ins < j \<and> j \<le> e then info_at t (j - 1) + mInfoInc t else info_at t j)"
    using j e len by (auto simp: placed_def nth_shifted nth_list_update)
next
  assume "j < slots t"
  then show "mKeyVals (placed n w ins e mx t) ! j =
      (if j = ins then Some n else if ins < j \<and> j \<le> e then mKeyVals t ! (j - 1) else mKeyVals t ! j)"
    using e by (auto simp: placed_def nth_shifted nth_list_update)
qed

lemma map_of_insert_mid:
  "k \<notin> fst ` set (A @ B) \<Longrightarrow> map_of (A @ (k, v) # B) = (map_of (A @ B))(k \<mapsto> v)"
  by (induction A) (auto simp: fun_upd_twist)

lemma placed_wf:
  fixes t :: "('k, 'v) Table" and v :: 'v
  assumes wf: "table_wf hash t" and absent: "table_map t k = None"
    and ins: "passed hash t k ins" "info_at t ins < probe hash t k ins"
    and room: "mNumElements t < calcMaxNumElementsAllowed (mMask t + 1)" "mMaxNumElementsAllowed t \<noteq> 0"
    and e: "ins \<le> e" "e < slots t" "mInfo t ! e = 0" "\<forall>j. ins \<le> j \<longrightarrow> j < e \<longrightarrow> mInfo t ! j \<noteq> 0"
    and mx: "mx = 0 \<or> mx = mMaxNumElementsAllowed t \<and> probe hash t k ins + mInfoInc t \<le> 255 \<and>
       (\<forall>j. ins \<le> j \<longrightarrow> j < e \<longrightarrow> unat (bumped (mInfoInc t) (mInfo t ! j)) + mInfoInc t \<le> 255)"
  defines "t' \<equiv> placed (k, v) (probe hash t k ins) ins e mx t"
  shows "table_wf hash t'" and "table_map t' = (table_map t)(k \<mapsto> v)"
    and "ins < slots t'" and "mKeyVals t' ! ins = Some (k, v)"
proof -
  have shape: "table_shape t" and probe: "probe_ok hash t" and steps: "steps_ok t"
    and cnt: "count_ok t" using wf by (simp_all add: table_wf_def)
  have rok: "room_ok t" using cnt room(2) by (auto simp: count_ok_def)
  define w where "w = probe hash t k ins"
  define inc where "inc = mInfoInc t"
  have inc: "2 \<le> inc" "inc \<le> 32" using shape_inc [OF shape] by (simp_all add: inc_def)
  have w: "w \<le> 255" unfolding w_def by (rule probe_le_byte [OF wf rok ins(1)])
  have w0: "inc \<le> w" using probe_home(1) [OF shape, of hash k ins] by (simp add: w_def inc_def)
  have "unat (of_nat w :: u8) = w" using w by (simp add: unat_of_nat)
  then have w1: "(of_nat w :: u8) \<noteq> 0" using w0 inc by auto
  have run: "info_at t j + inc \<le> 255" if "j < slots t" for j
    using rok that by (simp add: room_ok_def inc_def)
  have len: "slots t \<le> length (mInfo t)" "length (mInfo t) = slots t + 8"
    using shape_slots(2) [OF shape] by simp_all
  have same: "mMask t' = mMask t" "mInfoInc t' = inc" "mInfoHashShift t' = mInfoHashShift t"
      "slots t' = slots t" "length (mInfo t') = length (mInfo t)"
      "mNumElements t' = mNumElements t + 1" "mMaxNumElementsAllowed t' = mx"
    by (simp_all add: t'_def placed_def inc_def)
  note hp = home_cong [OF same(1,2,3) [unfolded inc_def]]
  have info: "info_at t' j = (if j = ins then w else if ins < j \<and> j \<le> e
      then info_at t (j - 1) + inc else info_at t j)" if "j < slots t + 8" for j
    unfolding t'_def w_def [symmetric] inc_def
    by (rule placed_nth(1) [OF len(1) e(1,2) w]) (use run e that len in \<open>auto simp: inc_def\<close>)
  have node: "mKeyVals t' ! j = (if j = ins then Some (k, v) else if ins < j \<and> j \<le> e
      then mKeyVals t ! (j - 1) else mKeyVals t ! j)" if "j < slots t" for j
    unfolding t'_def w_def [symmetric]
    by (rule placed_nth(2) [OF len(1) e(1,2) w]) (use run e that in \<open>auto simp: inc_def\<close>)
  have nz: "mInfo t' ! j \<noteq> 0 \<longleftrightarrow> info_at t' j \<noteq> 0" for j by (simp add: unat_eq_0)
  have shape': "table_shape t'"
  proof -
    have "info_at t' (slots t) = info_at t (slots t)"
        "info_at t' (Suc (slots t)) = info_at t (Suc (slots t))"
      using e(1,2) info [of "slots t"] info [of "Suc (slots t)"] by auto
    with shape show ?thesis unfolding table_shape_def same by (auto simp: inc_def)
  qed
  have probe': "probe_ok hash t'"
    unfolding probe_ok_def
  proof (intro allI impI)
    fix i assume i: "i < slots t'" and nzi: "mInfo t' ! i \<noteq> 0"
    have il: "i < slots t" "i < slots t + 8" using i same by simp_all
    consider "i = ins" | "ins < i" "i \<le> e" | "i \<noteq> ins" "\<not> (ins < i \<and> i \<le> e)" by blast
    then show "\<exists>n. mKeyVals t' ! i = Some n \<and> home hash t' (fst n) \<le> i \<and>
        info_at t' i = probe hash t' (fst n) i"
    proof cases
      case 1
      then show ?thesis using ins(1) il by (simp add: info node hp passed_def w_def)
    next
      case 2
      then obtain j where j: "i = Suc j" "ins \<le> j" "j < e" by (cases i) auto
      have "mInfo t ! j \<noteq> 0" "j < slots t" using e j by auto
      with probe obtain n where "mKeyVals t ! j = Some n" "home hash t (fst n) \<le> j"
          "info_at t j = probe hash t (fst n) j" by (auto simp: probe_ok_def)
      with 2 j il show ?thesis
        by (auto simp: info node hp probe_Suc inc_def)
    next
      case 3
      then have "mInfo t ! i \<noteq> 0" using nzi il by (auto simp: nz info unat_eq_0 split: if_splits)
      with probe il 3 show ?thesis by (auto simp: probe_ok_def info node hp)
    qed
  qed
  have steps': "steps_ok t'"
    unfolding steps_ok_def
  proof (intro allI impI)
    fix i assume "i < slots t'"
    then have i: "i < slots t" using same by simp
    have old: "info_at t (Suc j) < 2 * inc \<or> info_at t (Suc j) \<le> info_at t j + inc"
      if "j < slots t" for j using steps that by (simp add: steps_ok_def inc_def)
    have occ: "inc \<le> info_at t j" if "ins \<le> j" "j < e" for j
    proof -
      have "mInfo t ! j \<noteq> 0" "j < slots t" using e that by auto
      with probe obtain n where "info_at t j = probe hash t (fst n) j"
        by (auto simp: probe_ok_def)
      then show ?thesis using probe_home(1) [OF shape] by (simp add: inc_def)
    qed
    have ii: "info_at t' i = (if i = ins then w else if ins < i \<and> i \<le> e
          then info_at t (i - 1) + inc else info_at t i)"
        "info_at t' (Suc i) = (if Suc i = ins then w else if ins < Suc i \<and> Suc i \<le> e
          then info_at t i + inc else info_at t (Suc i))"
      using info [of i] info [of "Suc i"] i by simp_all
    have e0: "info_at t e = 0" using e(3) by simp
    consider "Suc i < ins" | "Suc i = ins" | "i = ins" | "ins < i" "Suc i \<le> e" | "ins < i" "i = e"
      | "ins < i" "e < i" using e(1) by linarith
    then show "info_at t' (Suc i) < 2 * mInfoInc t' \<or> info_at t' (Suc i) \<le> info_at t' i + mInfoInc t'"
    proof cases
      case 1
      then show ?thesis using ii old [OF i] same by auto
    next
      case 2
      show ?thesis
      proof (cases "ins = home hash t k")
        case True
        then show ?thesis using 2 ii same probe_home(2) [OF shape, of hash k] by (simp add: w_def inc_def)
      next
        case False
        then have "home hash t k \<le> i" using ins(1) 2 by (simp add: passed_def)
        moreover from this have "probe hash t k i \<le> info_at t i"
          using ins(1) 2 by (simp add: passed_def)
        ultimately show ?thesis
          using 2 ii same probe_Suc [of hash t k i] by (simp add: w_def inc_def)
      qed
    next
      case 3
      then show ?thesis using ii old [OF i] same ins(2) e0 w0
        by (cases "e = ins") (auto simp: w_def)
    next
      case 4
      then have "info_at t i < 2 * inc \<or> info_at t i \<le> info_at t (i - 1) + inc"
        using old [of "i - 1"] i by simp
      moreover have "inc \<le> info_at t (i - 1)" using occ [of "i - 1"] 4 by auto
      ultimately show ?thesis using 4 ii same by auto
    next
      case 5
      then show ?thesis using ii old [OF i] same e0 by auto
    next
      case 6
      then show ?thesis using ii old [OF i] same by auto
    qed
  qed
  have "mInfo t ! j \<noteq> 0 \<and> bumped (mInfoInc t) (mInfo t ! j) \<noteq> 0" if "ins \<le> j" "j < e" for j
  proof -
    have "unat (bumped inc (mInfo t ! j)) = info_at t j + inc"
      by (rule unat_bumped) (use run that e(2) in simp)
    then have "bumped inc (mInfo t ! j) \<noteq> 0" using inc by auto
    with e(4) that show ?thesis by (simp add: inc_def)
  qed
  then obtain A B where AB: "contents t = A @ B" "contents t' = A @ (k, v) # B"
    using placed_contents [OF len(1) e(1-3) w1 [unfolded w_def], of "(k, v)" mx]
    unfolding t'_def by blast
  have notin: "k \<notin> fst ` set (A @ B)"
    using absent AB(1) by (auto simp: table_map_def map_of_eq_None_iff simp del: map_of_append)
  have room': "room_ok t'" if "mx \<noteq> 0"
    unfolding room_ok_def
  proof (intro allI impI)
    fix i assume "i < slots t'"
    then have i: "i < slots t" using same by simp
    have "info_at t j + inc + inc \<le> 255" if "ins \<le> j" "j < e" for j
      using mx \<open>mx \<noteq> 0\<close> that run [of j] e(2) by (auto simp: unat_bumped inc_def)
    then have "ins < i \<Longrightarrow> i \<le> e \<Longrightarrow> info_at t (i - 1) + inc + inc \<le> 255" by simp
    then show "info_at t' i + mInfoInc t' \<le> 255"
      using info [of i] i run [of i] mx that same by (auto simp: w_def inc_def)
  qed
  have count': "count_ok t'"
    using cnt AB notin room(1) same mx room(2) room' by (auto simp: count_ok_def)
  show "table_wf hash t'"
    using shape' probe' steps' count' by (simp add: table_wf_def)
  show "table_map t' = (table_map t)(k \<mapsto> v)"
    using AB map_of_insert_mid [OF notin] by (simp add: table_map_def)
  show "ins < slots t'" "mKeyVals t' ! ins = Some (k, v)"
    using e same node [of ins] by auto
qed

section \<open>Removing a node\<close>

text \<open>The entries of \<open>xs\<close> from \<open>lo + 1\<close> to \<open>hi\<close> moved down by one, changed by \<open>f\<close>.\<close>

definition lowered :: "nat \<Rightarrow> nat \<Rightarrow> ('a \<Rightarrow> 'a) \<Rightarrow> 'a list \<Rightarrow> 'a list" where
  "lowered lo hi f xs =
     map (\<lambda>j. if lo \<le> j \<and> j < hi then f (xs ! (j + 1)) else xs ! j) [0..<length xs]"

lemma length_lowered [simp]: "length (lowered lo hi f xs) = length xs"
  by (simp add: lowered_def)

lemma nth_lowered:
  "j < length xs \<Longrightarrow>
   lowered lo hi f xs ! j = (if lo \<le> j \<and> j < hi then f (xs ! (j + 1)) else xs ! j)"
  by (simp add: lowered_def)

lemma lowered_self [simp]: "lowered lo lo f xs = xs"
  by (rule nth_equalityI) (auto simp: nth_lowered)

lemma lowered_update:
  "lo < hi \<Longrightarrow> hi < length xs \<Longrightarrow>
   lowered (Suc lo) hi f (xs[lo := f (xs ! Suc lo)]) = lowered lo hi f xs"
  by (rule nth_equalityI) (auto simp: nth_lowered nth_list_update)

definition dropped :: "nat \<Rightarrow> u8 \<Rightarrow> u8" where
  "dropped inc b = b - of_nat inc"

lemma unat_dropped: "inc \<le> unat b \<Longrightarrow> unat (dropped inc b) = unat b - inc"
proof -
  assume le: "inc \<le> unat b"
  then have "inc \<le> 255" using byte_le [of b] by simp
  then have "unat (of_nat inc :: u8) = inc" by (simp add: unat_of_nat)
  with le show ?thesis
    unfolding dropped_def by (subst unat_sub) (simp_all add: word_le_nat_alt)
qed

definition removed :: "nat \<Rightarrow> nat \<Rightarrow> ('k, 'v) Table \<Rightarrow> ('k, 'v) Table" where
  "removed lo r t =
     t\<lparr>mKeyVals := (lowered lo r (\<lambda>x. x) (mKeyVals t))[r := None],
       mInfo := (lowered lo r (dropped (mInfoInc t)) (mInfo t))[r := 0]\<rparr>"

lemma shiftDown_loop_spec:
  assumes "lo \<le> r" "r < slots t" "Suc r < length (mInfo t)"
    and "\<forall>j. lo < j \<longrightarrow> j \<le> r \<longrightarrow> 2 * mInfoInc t \<le> info_at t j \<and> mKeyVals t ! j \<noteq> None"
    and "info_at t (Suc r) < 2 * mInfoInc t"
  shows "shiftDown_loop lo t = Inr (r, t\<lparr>mKeyVals := lowered lo r (\<lambda>x. x) (mKeyVals t),
    mInfo := lowered lo r (dropped (mInfoInc t)) (mInfo t)\<rparr>)"
  using assms
proof (induction "r - lo" arbitrary: lo t)
  case 0
  then show ?case by (subst shiftDown_loop.simps) simp
next
  case (Suc n)
  then have lt: "lo < r" by simp
  define t1 where "t1 = t\<lparr>mInfo := (mInfo t)[lo := dropped (mInfoInc t) (mInfo t ! Suc lo)]\<rparr>"
  define t2 where "t2 = t1\<lparr>mKeyVals := (mKeyVals t)[lo := mKeyVals t ! Suc lo]\<rparr>"
  have set: "set_info lo (mInfo t ! Suc lo - of_nat (mInfoInc t)) t = Inr t1"
    using lt Suc.prems(3) by (simp add: set_info_def t1_def dropped_def)
  have mv: "move_node lo (Suc lo) t1 = Inr t2"
    using lt Suc.prems(2,4) by (subst move_node_spec) (auto simp: t1_def t2_def)
  have rec: "shiftDown_loop (Suc lo) t2 = Inr (r, t2\<lparr>mKeyVals := lowered (Suc lo) r (\<lambda>x. x) (mKeyVals t2),
      mInfo := lowered (Suc lo) r (dropped (mInfoInc t2)) (mInfo t2)\<rparr>)"
    using Suc.prems lt Suc.hyps(2)
    by (intro Suc.hyps(1)) (auto simp: t2_def t1_def)
  have "shiftDown_loop lo t = shiftDown_loop (Suc lo) t2"
    using lt Suc.prems set mv by (subst shiftDown_loop.simps) simp
  moreover have "lowered (Suc lo) r (\<lambda>x. x) (mKeyVals t2) = lowered lo r (\<lambda>x. x) (mKeyVals t)"
    using lowered_update [OF lt Suc.prems(2), of "\<lambda>x. x"] by (simp add: t2_def)
  moreover have "lowered (Suc lo) r (dropped (mInfoInc t2)) (mInfo t2) =
      lowered lo r (dropped (mInfoInc t)) (mInfo t)"
    using lowered_update [OF lt, of "mInfo t" "dropped (mInfoInc t)"] Suc.prems(3)
    by (simp add: t2_def t1_def)
  ultimately show ?case using rec by (simp add: t2_def t1_def)
qed

text \<open>The last slot that moves down: the next one is free or in its home.\<close>

definition shift_end :: "('k, 'v) Table \<Rightarrow> nat \<Rightarrow> nat" where
  "shift_end t lo = (LEAST r. lo \<le> r \<and> info_at t (Suc r) < 2 * mInfoInc t)"

lemma shift_end_at:
  assumes shape: "table_shape t" and lo: "lo < slots t"
  shows "lo \<le> shift_end t lo" "shift_end t lo < slots t"
    "info_at t (Suc (shift_end t lo)) < 2 * mInfoInc t"
    "lo < j \<Longrightarrow> j \<le> shift_end t lo \<Longrightarrow> 2 * mInfoInc t \<le> info_at t j"
proof -
  define P where "P = (\<lambda>r. lo \<le> r \<and> info_at t (Suc r) < 2 * mInfoInc t)"
  have "Suc (slots t - 1) = slots t" using lo by simp
  then have last: "P (slots t - 1)"
    using lo shape_slots(3) [OF shape] shape_inc(1) [OF shape] by (simp add: P_def)
  have eq: "shift_end t lo = (LEAST r. P r)" by (simp add: shift_end_def P_def)
  have "P (shift_end t lo)" unfolding eq by (rule LeastI [of P, OF last])
  then show "lo \<le> shift_end t lo" "info_at t (Suc (shift_end t lo)) < 2 * mInfoInc t"
    by (simp_all add: P_def)
  have "shift_end t lo \<le> slots t - 1" unfolding eq by (rule Least_le [of P, OF last])
  with lo show "shift_end t lo < slots t" by simp
  assume j: "lo < j" "j \<le> shift_end t lo"
  then have "\<not> P (j - 1)" unfolding eq by (intro not_less_Least) simp
  with j show "2 * mInfoInc t \<le> info_at t j" by (auto simp: P_def)
qed

lemma occupied_node: "probe_ok hash t \<Longrightarrow> j < slots t \<Longrightarrow> mInfo t ! j \<noteq> 0 \<Longrightarrow> mKeyVals t ! j \<noteq> None"
  by (auto simp: probe_ok_def)

lemma shiftDown_spec:
  assumes wf: "table_wf hash t" and lo: "lo < slots t"
  shows "shiftDown lo t = Inr (removed lo (shift_end t lo) t)"
proof -
  have shape: "table_shape t" and probe: "probe_ok hash t" using wf by (simp_all add: table_wf_def)
  note se = shift_end_at [OF shape lo]
  have run: "2 * mInfoInc t \<le> info_at t j \<and> mKeyVals t ! j \<noteq> None"
    if "lo < j" "j \<le> shift_end t lo" for j
  proof
    show le: "2 * mInfoInc t \<le> info_at t j" by (rule se(4) [OF that])
    then have "mInfo t ! j \<noteq> 0" using shape_inc(1) [OF shape] by auto
    with occupied_node [OF probe, of j] se(2) that(2) show "mKeyVals t ! j \<noteq> None" by simp
  qed
  have "shiftDown_loop lo t = Inr (shift_end t lo,
      t\<lparr>mKeyVals := lowered lo (shift_end t lo) (\<lambda>x. x) (mKeyVals t),
        mInfo := lowered lo (shift_end t lo) (dropped (mInfoInc t)) (mInfo t)\<rparr>)"
    by (rule shiftDown_loop_spec) (use se run shape_slots(2) [OF shape] in auto)
  then show ?thesis
    using se(2) shape_slots(2) [OF shape]
    by (simp add: shiftDown_def set_info_def set_node_def removed_def)
qed

lemma removed_nth:
  assumes len: "slots t \<le> length (mInfo t)" and r: "lo \<le> r" "r < slots t" "Suc r < length (mInfo t)"
    and run: "\<forall>j. lo < j \<longrightarrow> j \<le> r \<longrightarrow> mInfoInc t \<le> info_at t j"
  shows "j < length (mInfo t) \<Longrightarrow> info_at (removed lo r t) j =
      (if j = r then 0 else if lo \<le> j \<and> j < r then info_at t (Suc j) - mInfoInc t else info_at t j)"
    and "j < slots t \<Longrightarrow> mKeyVals (removed lo r t) ! j =
      (if j = r then None else if lo \<le> j \<and> j < r then mKeyVals t ! Suc j else mKeyVals t ! j)"
  using assms by (auto simp: removed_def nth_lowered nth_list_update unat_dropped)

lemma removed_contents:
  assumes len: "slots t \<le> length (mInfo t)" and r: "lo \<le> r" "r < slots t"
    and lo: "mInfo t ! lo \<noteq> 0" "mKeyVals t ! lo = Some n"
    and run: "\<forall>j. lo < j \<longrightarrow> j \<le> r \<longrightarrow> mInfo t ! j \<noteq> 0 \<and> dropped (mInfoInc t) (mInfo t ! j) \<noteq> 0"
  shows "\<exists>A B. contents t = A @ n # B \<and> contents (removed lo r t) = A @ B"
proof -
  define z where "z = zip (mInfo t) (mKeyVals t)"
  define g where "g = (\<lambda>(b, s :: ('a \<times> 'b) option). (dropped (mInfoInc t) b, s))"
  define R where "R = take (r - lo) (drop (Suc lo) z)"
  have lz: "length z = slots t" using len by (simp add: z_def)
  have nz: "z ! j = (mInfo t ! j, mKeyVals t ! j)" if "j < slots t" for j
    using that len by (simp add: z_def)
  have old: "z = take lo z @ (mInfo t ! lo, Some n) # R @ drop (Suc r) z"
  proof -
    have "drop lo z = z ! lo # drop (Suc lo) z" using r lz by (simp add: Cons_nth_drop_Suc)
    moreover have "drop (Suc lo) z = R @ drop (Suc r) z"
      using r append_take_drop_id [of "r - lo" "drop (Suc lo) z"] by (simp add: R_def)
    moreover have "z ! lo = (mInfo t ! lo, Some n)" using r nz [of lo] lo by simp
    ultimately show ?thesis by (metis append_take_drop_id)
  qed
  have new: "zip (mInfo (removed lo r t)) (mKeyVals (removed lo r t)) =
      take lo z @ map g R @ (0, None) # drop (Suc r) z" (is "?l = ?r")
  proof (rule nth_equalityI)
    show "length ?l = length ?r"
      using r lz len by (simp add: removed_def R_def)
    fix j assume "j < length ?l"
    then have j: "j < slots t" using len by (simp add: removed_def)
    consider "j < lo" | "lo \<le> j" "j < r" | "j = r" | "r < j" by linarith
    then show "?l ! j = ?r ! j"
    proof cases
      case 1
      with j r len lz nz show ?thesis
        by (simp add: removed_def nth_lowered nth_append)
    next
      case 2
      then obtain i where i: "j = lo + i" by (auto dest: le_Suc_ex)
      with 2 have "i < r - lo" by simp
      with i have "?r ! j = g (z ! Suc j)"
        using r lz by (simp add: nth_append R_def)
      with 2 j r len nz [of "Suc j"] show ?thesis
        by (simp add: removed_def nth_lowered g_def)
    next
      case 3
      with j r len lz show ?thesis
        by (simp add: removed_def nth_append R_def)
    next
      case 4
      then obtain i where i: "j = Suc (r + i)" by (auto dest: less_imp_Suc_add)
      then have "j - lo = Suc (r - lo + i)" "\<not> Suc (r + i) - lo < r - lo" using r by simp_all
      then have "?r ! j = z ! j"
        using r lz j i by (simp add: nth_append R_def)
      with 4 j r len nz [of j] show ?thesis
        by (simp add: removed_def nth_lowered)
    qed
  qed
  have R: "occupant (g x) = occupant x" if x: "x \<in> set R" for x
  proof -
    obtain i where i: "i < r - lo" "x = z ! (Suc lo + i)"
      using x r lz by (auto simp: R_def in_set_conv_nth)
    with r lz nz [of "Suc lo + i"] run show ?thesis by (simp add: g_def)
  qed
  have "List.map_filter occupant (map g R) = List.map_filter occupant R"
    using R by (simp add: List.map_filter_def filter_map o_def cong: filter_cong map_cong)
  then have "contents (removed lo r t) = List.map_filter occupant (take lo z) @
      List.map_filter occupant R @ List.map_filter occupant (drop (Suc r) z)"
    unfolding contents_def new by (simp add: List.map_filter_simps)
  moreover have "contents t = List.map_filter occupant (take lo z) @
      n # List.map_filter occupant R @ List.map_filter occupant (drop (Suc r) z)"
    unfolding contents_def using arg_cong [OF old, of "List.map_filter occupant"] lo
    by (simp add: List.map_filter_simps flip: z_def)
  ultimately show ?thesis by blast
qed

lemma map_of_remove_mid:
  "distinct (map fst (A @ (k, v) # B)) \<Longrightarrow> map_of (A @ B) = (map_of (A @ (k, v) # B))(k := None)"
proof (induction A)
  case Nil
  then show ?case by (auto simp: map_of_eq_None_iff fun_eq_iff)
next
  case (Cons a A)
  then show ?case by (cases a) (auto simp: fun_eq_iff)
qed

lemma removed_wf:
  assumes wf: "table_wf hash t" and lo: "holds_key t k lo"
  defines "t' \<equiv> (removed lo (shift_end t lo) t)\<lparr>mNumElements := mNumElements t - 1\<rparr>"
  shows "table_wf hash t'" and "table_map t' = (table_map t)(k := None)"
proof -
  have shape: "table_shape t" and probe: "probe_ok hash t" and steps: "steps_ok t"
    and cnt: "count_ok t" using wf by (simp_all add: table_wf_def)
  obtain v where lov: "lo < slots t" "mInfo t ! lo \<noteq> 0" "mKeyVals t ! lo = Some (k, v)"
    using lo by (auto simp: holds_key_def)
  define r where "r = shift_end t lo"
  define inc where "inc = mInfoInc t"
  have inc: "2 \<le> inc" using shape_inc [OF shape] by (simp add: inc_def)
  note se = shift_end_at [OF shape lov(1), folded r_def inc_def]
  have len: "slots t \<le> length (mInfo t)" "length (mInfo t) = slots t + 8"
    using shape_slots(2) [OF shape] by simp_all
  have same: "mMask t' = mMask t" "mInfoInc t' = inc" "mInfoHashShift t' = mInfoHashShift t"
      "slots t' = slots t" "length (mInfo t') = length (mInfo t)"
      "mNumElements t' = mNumElements t - 1" "mMaxNumElementsAllowed t' = mMaxNumElementsAllowed t"
    by (simp_all add: t'_def removed_def inc_def)
  note hp = home_cong [OF same(1,2,3) [unfolded inc_def]]
  have run: "\<forall>j. lo < j \<longrightarrow> j \<le> r \<longrightarrow> mInfoInc t \<le> info_at t j"
  proof (intro allI impI)
    fix j assume "lo < j" "j \<le> r"
    from se(4) [OF this] show "mInfoInc t \<le> info_at t j" by (simp add: inc_def)
  qed
  have info: "info_at t' j = (if j = r then 0 else if lo \<le> j \<and> j < r then info_at t (Suc j) - inc
      else info_at t j)" if "j < slots t + 8" for j
    using removed_nth(1) [OF len(1) se(1,2) _ run, of j] that len se(2)
    by (simp add: t'_def r_def inc_def)
  have node: "mKeyVals t' ! j = (if j = r then None else if lo \<le> j \<and> j < r
      then mKeyVals t ! Suc j else mKeyVals t ! j)" if "j < slots t" for j
    using removed_nth(2) [OF len(1) se(1,2) _ run, of j] that len se(2)
    by (simp add: t'_def r_def)
  have nz: "mInfo t' ! j \<noteq> 0 \<longleftrightarrow> info_at t' j \<noteq> 0" for j by (simp add: unat_eq_0)
  have old: "info_at t (Suc j) < 2 * inc \<or> info_at t (Suc j) \<le> info_at t j + inc"
    if "j < slots t" for j using steps that by (simp add: steps_ok_def inc_def)
  have shape': "table_shape t'"
  proof -
    have "info_at t' (slots t) = info_at t (slots t)"
        "info_at t' (Suc (slots t)) = info_at t (Suc (slots t))"
      using se(1,2) info [of "slots t"] info [of "Suc (slots t)"] by auto
    with shape show ?thesis unfolding table_shape_def same by (auto simp: inc_def)
  qed
  have probe': "probe_ok hash t'"
    unfolding probe_ok_def
  proof (intro allI impI)
    fix i assume i: "i < slots t'" and nzi: "mInfo t' ! i \<noteq> 0"
    have il: "i < slots t" "i < slots t + 8" using i same by simp_all
    have "i \<noteq> r" using nzi il by (auto simp: nz info)
    then consider "lo \<le> i" "i < r" | "\<not> (lo \<le> i \<and> i < r)" "i \<noteq> r" by blast
    then show "\<exists>n. mKeyVals t' ! i = Some n \<and> home hash t' (fst n) \<le> i \<and>
        info_at t' i = probe hash t' (fst n) i"
    proof cases
      case 1
      have ge: "2 * inc \<le> info_at t (Suc i)" using 1 by (intro se(4)) auto
      have "mInfo t ! Suc i \<noteq> 0" using ge inc by auto
      moreover have "Suc i < slots t" using 1 se(2) by simp
      ultimately obtain n where n: "mKeyVals t ! Suc i = Some n" "home hash t (fst n) \<le> Suc i"
          "info_at t (Suc i) = probe hash t (fst n) (Suc i)"
        using probe by (auto simp: probe_ok_def)
      have "home hash t (fst n) \<noteq> Suc i"
        using probe_home(2) [OF shape, of hash "fst n"] n(3) ge by (auto simp: inc_def)
      then have "home hash t (fst n) \<le> i" using n(2) by simp
      with 1 il n show ?thesis by (simp add: info node hp probe_Suc inc_def)
    next
      case 2
      then have "mInfo t ! i \<noteq> 0" using nzi il by (auto simp: nz info unat_eq_0 split: if_splits)
      with probe il 2 show ?thesis by (auto simp: probe_ok_def info node hp)
    qed
  qed
  have steps': "steps_ok t'"
    unfolding steps_ok_def
  proof (intro allI impI)
    fix i assume "i < slots t'"
    then have i: "i < slots t" using same by simp
    have ii: "info_at t' i = (if i = r then 0 else if lo \<le> i \<and> i < r
          then info_at t (Suc i) - inc else info_at t i)"
        "info_at t' (Suc i) = (if Suc i = r then 0 else if lo \<le> Suc i \<and> Suc i < r
          then info_at t (Suc (Suc i)) - inc else info_at t (Suc i))"
      using info [of i] info [of "Suc i"] i by simp_all
    consider "Suc i < lo" | "Suc i = lo" "lo < r" | "Suc i = r" | "i = r" | "r < i"
      | "lo \<le> i" "Suc i < r" using se(1) by linarith
    then show "info_at t' (Suc i) < 2 * mInfoInc t' \<or> info_at t' (Suc i) \<le> info_at t' i + mInfoInc t'"
    proof cases
      case 1
      then show ?thesis using ii old [OF i] same se(1) by auto
    next
      case 2
      have "info_at t (Suc lo) \<le> info_at t lo + inc"
        using old [OF lov(1)] se(4) [of "Suc lo"] 2 by auto
      with 2 ii old [OF i] same show ?thesis by auto
    next
      case 3
      then show ?thesis using ii by simp
    next
      case 4
      then show ?thesis using ii se(3) same by simp
    next
      case 5
      then show ?thesis using ii old [OF i] same by auto
    next
      case 6
      have "info_at t (Suc (Suc i)) \<le> info_at t (Suc i) + inc"
        using old [of "Suc i"] se(4) [of "Suc (Suc i)"] 6 se(2) by auto
      moreover have "2 * inc \<le> info_at t (Suc i)" using 6 by (intro se(4)) auto
      ultimately show ?thesis using ii 6 same by auto
    qed
  qed
  have room': "room_ok t'" if "room_ok t"
    unfolding room_ok_def
  proof (intro allI impI)
    fix i assume "i < slots t'"
    then have i: "i < slots t" using same by simp
    have "info_at t' i \<le> info_at t i \<or> info_at t' i = 0 \<or> Suc i < slots t \<and> info_at t' i \<le> info_at t (Suc i)"
      using info [of i] i se(2) by auto
    moreover have "inc + 0 \<le> 255" using shape_inc(2) [OF shape] by (simp add: inc_def)
    ultimately show "info_at t' i + mInfoInc t' \<le> 255"
      using that i same by (fastforce simp: room_ok_def inc_def)
  qed
  have "mInfo t ! j \<noteq> 0 \<and> dropped (mInfoInc t) (mInfo t ! j) \<noteq> 0" if "lo < j" "j \<le> r" for j
  proof -
    have ge: "2 * inc \<le> info_at t j" by (rule se(4) [OF that])
    then have "unat (dropped inc (mInfo t ! j)) = info_at t j - inc" by (intro unat_dropped) simp
    then have "unat (dropped inc (mInfo t ! j)) \<noteq> 0" using ge inc by simp
    with ge inc show ?thesis by (auto simp: inc_def)
  qed
  then obtain A B where AB: "contents t = A @ (k, v) # B" "contents (removed lo r t) = A @ B"
    using removed_contents [OF len(1) se(1,2) lov(2,3)] by blast
  then have AB': "contents t' = A @ B" by (simp add: t'_def r_def contents_def)
  have dist: "distinct (map fst (contents t))" using cnt by (simp add: count_ok_def)
  have "count_ok t'"
    using cnt AB(1) AB' same room' by (auto simp: count_ok_def)
  then show "table_wf hash t'"
    using shape' probe' steps' by (simp add: table_wf_def)
  show "table_map t' = (table_map t)(k := None)"
    using AB(1) AB' map_of_remove_mid [of A k v B] dist by (simp add: table_map_def)
qed

end
