(* ===== verification/Robin_Hood_Correct.thy ===== *)
theory Robin_Hood_Correct
  imports Robin_Hood_Slots
begin

text \<open>
  The hash map of \<^verbatim>\<open>Robin_Hood\<close> implements a finite map: growing keeps its contents, and \<^verbatim>\<open>find\<close>,
  \<^verbatim>\<open>insert\<close>, \<^verbatim>\<open>erase\<close> and \<^verbatim>\<open>clear\<close> refine the operations of a map. An insertion may throw
  \<^verbatim>\<open>std::overflow_error\<close>, but not while the table has at most 125 elements and has never had more.
\<close>

section \<open>Growing\<close>

lemma bit_le_join:
  "bit (le_join bs :: 'a::len word) k \<longleftrightarrow>
     k < LENGTH('a) \<and> k div 8 < length bs \<and> bit (bs ! (k div 8)) (k mod 8)"
proof (induction bs arbitrary: k)
  case Nil
  then show ?case by simp
next
  case (Cons b bs)
  show ?case
  proof (cases "k < 8")
    case True
    then show ?thesis by (simp add: bit_simps)
  next
    case False
    then obtain j where j: "k = 8 + j" by (auto dest: le_Suc_ex simp: not_less)
    have "\<not> bit b k" using False by (auto dest: bit_imp_le_length)
    moreover have "(8 + j) div 8 = Suc (j div 8)" by simp
    ultimately show ?thesis using j Cons.IH [of j] by (auto simp: bit_simps)
  qed
qed

lemma nth_le_split: "m < n \<Longrightarrow> le_split n w ! m = ucast (drop_bit (8 * m) w)"
proof (induction n arbitrary: w m)
  case 0
  then show ?case by simp
next
  case (Suc n)
  then show ?case by (cases m) (simp_all add: drop_bit_drop_bit add.commute)
qed

lemma halve_eight:
  assumes "length bs = 8"
  shows "le_split 8 (drop_bit 1 (le_join bs :: u64) AND 0x7f7f7f7f7f7f7f7f) = map (drop_bit 1) bs"
proof (rule nth_equalityI)
  show "length (le_split 8 (drop_bit 1 (le_join bs :: u64) AND 0x7f7f7f7f7f7f7f7f)) =
    length (map (drop_bit 1) bs)" using assms by simp
  have mask: "(0x7f7f7f7f7f7f7f7f :: u64) = le_join (replicate 8 (mask 7))"
    by code_simp
  fix m assume "m < length (le_split 8 (drop_bit 1 (le_join bs :: u64) AND 0x7f7f7f7f7f7f7f7f))"
  then have m: "m < 8" by simp
  show "le_split 8 (drop_bit 1 (le_join bs :: u64) AND 0x7f7f7f7f7f7f7f7f) ! m = map (drop_bit 1) bs ! m"
  proof (rule bit_word_eqI)
    fix n :: nat assume "n < LENGTH(8)"
    then have n: "n < 8" by simp
    have d: "(8 * m + n) div 8 = m" "(8 * m + n) mod 8 = n" using n by simp_all
    have d1: "(8 * m + Suc n) div 8 = m" "(8 * m + Suc n) mod 8 = Suc n" if "n < 7"
      using that by (simp_all add: div_add1_eq)
    show "bit (le_split 8 (drop_bit 1 (le_join bs :: u64) AND 0x7f7f7f7f7f7f7f7f) ! m) n =
        bit (map (drop_bit 1) bs ! m) n"
    proof (cases "n < 7")
      case True
      with m n assms d d1 show ?thesis
        by (simp add: nth_le_split bit_simps mask bit_le_join)
    next
      case False
      have "\<not> bit (bs ! m) (Suc n)" using False by (auto dest: bit_imp_le_length)
      with False m n assms d show ?thesis
        by (simp add: nth_le_split bit_simps mask bit_le_join)
    qed
  qed
qed

lemma foldM_append: "foldM f (xs @ ys) a = rbind (foldM f xs a) (foldM f ys)"
proof (induction xs arbitrary: a)
  case Nil
  then show ?case by simp
next
  case (Cons x xs)
  then show ?case by (cases "f x a") simp_all
qed

lemma halve_all:
  "8 * m \<le> length xs \<Longrightarrow>
   foldM halve8 (map ((*) 8) [0..<m]) xs = Inr (map (drop_bit 1) (take (8 * m) xs) @ drop (8 * m) xs)"
proof (induction m)
  case 0
  then show ?case by simp
next
  case (Suc m)
  define ys where "ys = map (drop_bit 1) (take (8 * m) xs) @ drop (8 * m) xs"
  have "foldM halve8 (map ((*) 8) [0..<m]) xs = Inr ys"
    using Suc by (simp add: ys_def)
  moreover have "halve8 (8 * m) ys = Inr (map (drop_bit 1) (take (8 * Suc m) xs) @ drop (8 * Suc m) xs)"
  proof -
    have len: "length ys = length xs" using Suc.prems by (simp add: ys_def)
    have "take 8 (drop (8 * m) ys) = take 8 (drop (8 * m) xs)"
      "take (8 * m) ys = map (drop_bit 1) (take (8 * m) xs)" "drop (8 * m + 8) ys = drop (8 * m + 8) xs"
      using Suc.prems by (simp_all add: ys_def min_absorb2 add.commute)
    moreover have "le_split 8 (drop_bit 1 (le_join (take 8 (drop (8 * m) xs)) :: u64) AND
        0x7f7f7f7f7f7f7f7f) = map (drop_bit 1) (take 8 (drop (8 * m) xs))"
      by (rule halve_eight) (use Suc.prems in simp)
    moreover have "take (8 * Suc m) xs = take (8 * m) xs @ take 8 (drop (8 * m) xs)"
      by (simp add: take_add flip: add.commute [of "8 * m" 8])
    ultimately show ?thesis
      using len Suc.prems by (simp add: halve8_def Let_def add.commute)
  qed
  ultimately show ?case by (simp add: foldM_append)
qed

text \<open>The contents, slot by slot.\<close>

definition slot :: "('k, 'v) Table \<Rightarrow> nat \<Rightarrow> ('k \<times> 'v) option" where
  "slot t i = occupant (mInfo t ! i, mKeyVals t ! i)"

lemma contents_slots:
  assumes "slots t \<le> length (mInfo t)"
  shows "contents t = List.map_filter (slot t) [0..<slots t]"
proof -
  have "zip (mInfo t) (mKeyVals t) = map (\<lambda>i. (mInfo t ! i, mKeyVals t ! i)) [0..<slots t]"
    by (rule nth_equalityI) (use assms in auto)
  then show ?thesis
    by (simp add: contents_def slot_def List.map_filter_def filter_map o_def)
qed

lemma map_filter_cong:
  "(\<And>x. x \<in> set xs \<Longrightarrow> f x = g x) \<Longrightarrow> List.map_filter f xs = List.map_filter g xs"
  unfolding List.map_filter_def by (auto cong: filter_cong map_cong)

definition halved :: "('k, 'v) Table \<Rightarrow> ('k, 'v) Table" where
  "halved t =
     (let m = (slots t + 7) div 8
      in t\<lparr>mInfo := (map (drop_bit 1) (take (8 * m) (mInfo t)) @ drop (8 * m) (mInfo t))[slots t := 1],
           mInfoInc := mInfoInc t div 2, mInfoHashShift := mInfoHashShift t + 1,
           mMaxNumElementsAllowed := calcMaxNumElementsAllowed (mMask t + 1)\<rparr>)"

lemma try_increase_info_spec:
  assumes "table_shape t"
  shows "try_increase_info t = Inr (if mInfoInc t \<le> 2 then (False, t) else (True, halved t))"
proof -
  have "8 * ((slots t + 7) div 8) \<le> length (mInfo t)"
    using shape_slots(2) [OF assms] by simp
  from halve_all [OF this] assms shape_inc(2) [OF assms] show ?thesis
    by (simp add: try_increase_info_def table_shape_def halved_def Let_def)
qed

lemma unat_drop_bit1: "unat (drop_bit 1 (b :: 'a::len word)) = unat b div 2"
  by (simp add: unat_drop_bit_eq drop_bit_eq_div [where 'a = nat])

lemma unat_drop_bit_Suc0: "unat (drop_bit (Suc 0) (b :: 'a::len word)) = unat b div 2"
  using unat_drop_bit1 [of b] by simp

lemma halved_nth:
  assumes "table_shape t"
  shows "j < slots t \<Longrightarrow> info_at (halved t) j = info_at t j div 2"
    and "info_at (halved t) (slots t) = 1" "info_at (halved t) (Suc (slots t)) = 0"
proof -
  define m where "m = (slots t + 7) div 8"
  have len: "length (mInfo t) = slots t + 8" by (rule shape_slots(2) [OF assms])
  have m: "slots t \<le> 8 * m" "8 * m \<le> slots t + 7" by (simp_all add: m_def)
  have nth: "mInfo (halved t) ! j = (if j = slots t then 1 else if j < 8 * m then drop_bit 1 (mInfo t ! j)
      else mInfo t ! j)" if "j < slots t + 8" for j
    using that len m by (auto simp: halved_def Let_def nth_append nth_list_update simp flip: m_def)
  show "j < slots t \<Longrightarrow> info_at (halved t) j = info_at t j div 2"
    using m by (simp add: nth unat_drop_bit_Suc0)
  show "info_at (halved t) (slots t) = 1"
    using m by (simp add: nth)
  show "info_at (halved t) (Suc (slots t)) = 0"
    using m shape_slots(4) [OF assms] by (auto simp: nth unat_drop_bit_Suc0)
qed

lemma halved_wf:
  assumes wf: "table_wf hash t" and more: "\<not> mInfoInc t \<le> 2"
  shows "table_wf hash (halved t)" and "table_map (halved t) = table_map t"
proof -
  have shape: "table_shape t" and probe: "probe_ok hash t" and steps: "steps_ok t"
    and cnt: "count_ok t" using wf by (simp_all add: table_wf_def)
  define inc where "inc = mInfoInc t div 2"
  have same: "mMask (halved t) = mMask t" "mInfoInc (halved t) = inc"
      "mInfoHashShift (halved t) = Suc (mInfoHashShift t)" "slots (halved t) = slots t"
      "length (mInfo (halved t)) = length (mInfo t)" "mNumElements (halved t) = mNumElements t"
      "mKeyVals (halved t) = mKeyVals t"
      "mMaxNumElementsAllowed (halved t) = calcMaxNumElementsAllowed (mMask t + 1)"
    by (auto simp: halved_def Let_def inc_def)
  have shift: "mInfoHashShift t \<in> {0,1,2,3}" "mInfoInc t = 2 ^ (5 - mInfoHashShift t)"
    using shape_inc(3) [OF shape] more shape by (auto simp: table_shape_def)
  then have inc: "mInfoInc t = 2 * inc" "2 \<le> inc" "inc \<le> 16" "inc = 2 ^ (5 - Suc (mInfoHashShift t))"
    by (auto simp: inc_def)
  note info = halved_nth [OF shape]
  have home: "home hash (halved t) k = home hash t k" for k
    by (simp add: home_def keyToIdx_def Let_def same)
  have prb: "probe hash (halved t) k i = probe hash t k i div 2" for k i
  proof -
    define b where "b = unat (drop_bit (mInfoHashShift t) (hash k AND InfoMask))"
    have "unat (drop_bit (Suc (mInfoHashShift t)) (hash k AND InfoMask)) = b div 2"
    proof -
      have "drop_bit (Suc (mInfoHashShift t)) (hash k AND InfoMask) =
          drop_bit 1 (drop_bit (mInfoHashShift t) (hash k AND InfoMask))"
        by (simp only: drop_bit_drop_bit) simp
      then show ?thesis by (simp only: unat_drop_bit1 b_def)
    qed
    then have "fst (keyToIdx hash (halved t) k) = inc + b div 2"
      by (simp only: keyToIdx_def Let_def fst_conv same)
    moreover have "fst (keyToIdx hash t k) = 2 * inc + b"
      by (simp only: keyToIdx_def Let_def fst_conv inc(1) b_def)
    moreover have "(2 * inc + b + 2 * inc * d) div 2 = inc + b div 2 + inc * d" for d
    proof -
      have "2 * inc + b + 2 * inc * d = b + 2 * (inc + inc * d)" by (simp add: algebra_simps)
      then show ?thesis by (simp only: div_mult_self2)
    qed
    ultimately show ?thesis
      by (simp only: probe_def home same inc(1))
  qed
  have shape': "table_shape (halved t)"
    using shape shift(1) inc(4) info(2,3) unfolding table_shape_def same by auto
  have nz: "mInfo (halved t) ! i \<noteq> 0 \<longleftrightarrow> mInfo t ! i \<noteq> 0" if i: "i < slots t" for i
  proof
    assume "mInfo t ! i \<noteq> 0"
    with probe i obtain n where "info_at t i = probe hash t (fst n) i"
      by (auto simp: probe_ok_def)
    with probe_home(1) [OF shape, of hash "fst n" i] inc(1,2) have "4 \<le> info_at t i" by simp
    with info(1) [OF i] show "mInfo (halved t) ! i \<noteq> 0" by auto
  next
    assume "mInfo (halved t) ! i \<noteq> 0"
    with info(1) [OF i] show "mInfo t ! i \<noteq> 0" by (auto simp: unat_eq_0 simp flip: unat_eq_0)
  qed
  have probe': "probe_ok hash (halved t)"
    unfolding probe_ok_def same
  proof (intro allI impI)
    fix i assume i: "i < slots t" and "mInfo (halved t) ! i \<noteq> 0"
    with nz have "mInfo t ! i \<noteq> 0" by simp
    then obtain n where "mKeyVals t ! i = Some n" "home hash t (fst n) \<le> i"
        "info_at t i = probe hash t (fst n) i"
      by (rule probe_okD [OF probe i])
    then show "\<exists>n. mKeyVals t ! i = Some n \<and> home hash (halved t) (fst n) \<le> i \<and>
        info_at (halved t) i = probe hash (halved t) (fst n) i"
      by (intro exI [of _ n]) (simp add: home prb info(1) [OF i])
  qed
  have steps': "steps_ok (halved t)"
    unfolding steps_ok_def same
  proof (intro allI impI)
    fix i assume i: "i < slots t"
    have old: "info_at t (Suc i) < 2 * (2 * inc) \<or> info_at t (Suc i) \<le> info_at t i + 2 * inc"
      using steps i inc(1) by (simp add: steps_ok_def)
    show "info_at (halved t) (Suc i) < 2 * inc \<or> info_at (halved t) (Suc i) \<le> info_at (halved t) i + inc"
    proof (cases "Suc i < slots t")
      case True
      with old i info(1) [of i] info(1) [of "Suc i"] show ?thesis by auto
    next
      case False
      with i have "Suc i = slots t" by simp
      with info(2) inc(2) show ?thesis by simp
    qed
  qed
  have "contents (halved t) = contents t"
    using shape_slots(2) [OF shape] same
    by (simp add: contents_slots)
      (rule map_filter_cong, use nz in \<open>auto simp: slot_def same\<close>)
  moreover have "room_ok (halved t)"
    unfolding room_ok_def same
  proof (intro allI impI)
    fix i assume "i < slots t"
    with info(1) [of i] byte_le [of "mInfo t ! i"] inc(3) show "info_at (halved t) i + inc \<le> 255" by simp
  qed
  ultimately have "count_ok (halved t)" and eq: "table_map (halved t) = table_map t"
    using cnt same by (auto simp: count_ok_def table_map_def)
  then show "table_wf hash (halved t)" "table_map (halved t) = table_map t"
    using shape' probe' steps' by (simp_all add: table_wf_def)
qed

text \<open>A table whose info bytes are all 0 is empty.\<close>

lemma zeroed_wf:
  assumes shape: "7 \<le> mMask t" "mMask t < 2 ^ 35" "slots t = calcNumElementsWithBuffer (mMask t + 1)"
    and info: "mInfo t = (replicate (slots t + 8) 0)[slots t := 1]"
    and inc: "mInfoInc t = 32" "mInfoHashShift t = 0" and n: "mNumElements t = 0"
    and mx: "mMaxNumElementsAllowed t \<in> {0, calcMaxNumElementsAllowed (mMask t + 1)}"
  shows "table_wf hash t" and "table_map t = Map.empty"
proof -
  have zero: "info_at t j = 0" if "j < slots t" for j using that by (simp add: info)
  have shape': "table_shape t"
    using shape inc by (simp add: table_shape_def info)
  have "contents t = []"
    using zero shape_slots(2) [OF shape']
    by (simp add: contents_slots slot_def List.map_filter_def unat_eq_0)
  then have "count_ok t" and "table_map t = Map.empty"
    using zero mx inc unfolding count_ok_def room_ok_def by (auto simp: n table_map_def)
  moreover have "probe_ok hash t" using zero by (auto simp: probe_ok_def unat_eq_0)
  moreover have "steps_ok t"
    unfolding steps_ok_def
  proof (intro allI impI)
    fix i assume "i < slots t"
    then show "info_at t (Suc i) < 2 * mInfoInc t \<or> info_at t (Suc i) \<le> info_at t i + mInfoInc t"
      by (cases "Suc i = slots t") (auto simp: info inc)
  qed
  ultimately show "table_wf hash t" "table_map t = Map.empty"
    using shape' by (simp_all add: table_wf_def)
qed

lemma init_data_wf:
  fixes hash :: "'k \<Rightarrow> u64"
  assumes "8 \<le> n" and "n \<le> 2 ^ 35"
  shows "table_wf hash (init_data n :: ('k, 'v) Table)"
    and "table_map (init_data n :: ('k, 'v) Table) = Map.empty"
proof -
  have "7 \<le> n - 1" "n - 1 < 2 ^ 35" "n - 1 + 1 = n" using assms by auto
  then show "table_wf hash (init_data n :: ('k, 'v) Table)"
      "table_map (init_data n :: ('k, 'v) Table) = Map.empty"
    by (auto intro!: zeroed_wf simp: init_data_def Let_def calcNumBytesInfo_def)
qed

lemma init_data_simps [simp]:
  "mNumElements (init_data n) = 0" "mMask (init_data n) = n - 1" "mInfoInc (init_data n) = 32"
  "mMaxNumElementsAllowed (init_data n) = calcMaxNumElementsAllowed n"
  by (simp_all add: init_data_def Let_def)

section \<open>Insertion of a new key\<close>

text \<open>
  A table is calm unless it has run out of bits for the distances; only a table that is not calm
  can refuse an insertion. With at most 125 elements no insertion takes this away.
\<close>

definition calm :: "('k, 'v) Table \<Rightarrow> bool" where
  "calm t \<longleftrightarrow> mMaxNumElementsAllowed t \<noteq> 0 \<or> 2 < mInfoInc t"

lemma occupied_run:
  assumes wf: "table_wf hash t" and occ: "\<And>j. a \<le> j \<Longrightarrow> j < b \<Longrightarrow> mInfo t ! j \<noteq> 0" and b: "b \<le> slots t"
  shows "b - a \<le> mNumElements t"
proof -
  have "card {a..<b} \<le> card {i. i < slots t \<and> mInfo t ! i \<noteq> 0}"
    by (rule card_mono) (use occ b in auto)
  with card_occupied [OF wf] show ?thesis by simp
qed

lemma passed_distance:
  assumes wf: "table_wf hash t" and p: "passed hash t k i"
  shows "i - home hash t k \<le> mNumElements t"
proof (rule occupied_run [OF wf])
  have "table_shape t" using wf by (simp add: table_wf_def)
  then show "mInfo t ! j \<noteq> 0" if "home hash t k \<le> j" "j < i" for j
    using probe_not_zero [of t hash k j] p that by (auto simp: passed_def)
  show "i \<le> slots t" using p by (simp add: passed_def)
qed

lemma probe_bound:
  assumes "table_shape t" and "i - home hash t k \<le> d" and "mInfoInc t = 2"
  shows "probe hash t k i \<le> 2 * d + 3"
  using hash_bits_less [OF assms(1), of "hash k"] assms(2,3)
  by (simp add: probe_def keyToIdx_def Let_def del: drop_bit_and)

lemma occupied_info_bound:
  assumes wf: "table_wf hash t" and i: "i < slots t" "mInfo t ! i \<noteq> 0" and inc: "mInfoInc t = 2"
  shows "info_at t i \<le> 2 * mNumElements t + 1"
proof -
  have shape: "table_shape t" and probe: "probe_ok hash t" and steps: "steps_ok t"
    using wf by (simp_all add: table_wf_def)
  obtain n where n: "mKeyVals t ! i = Some n" "home hash t (fst n) \<le> i"
      "info_at t i = probe hash t (fst n) i"
    by (rule probe_okD [OF probe i])
  have "Suc i - home hash t (fst n) \<le> mNumElements t"
  proof (rule occupied_run [OF wf])
    show "mInfo t ! j \<noteq> 0" if "home hash t (fst n) \<le> j" "j < Suc i" for j
      using probe_le_info [OF shape steps i(1) n(3) that(1)] probe_not_zero [OF shape] that(2) by simp
    show "Suc i \<le> slots t" using i(1) by simp
  qed
  then have "i - home hash t (fst n) \<le> mNumElements t - 1" "0 < mNumElements t" using n(2) by auto
  from probe_bound [OF shape this(1) inc] this(2) n(3) show ?thesis by simp
qed

lemma max_positive: "table_shape t \<Longrightarrow> 6 \<le> calcMaxNumElementsAllowed (mMask t + 1)"
proof -
  assume "table_shape t"
  then have "7 \<le> mMask t" "mMask t + 1 \<le> 2 ^ 36" by (auto simp: table_shape_def)
  then show ?thesis by (subst calcMax_small) auto
qed

definition inserted :: "('k \<Rightarrow> u64) \<Rightarrow> 'k \<Rightarrow> 'v \<Rightarrow> nat \<Rightarrow> ('k, 'v) Table \<Rightarrow> ('k, 'v) Table \<Rightarrow> bool" where
  "inserted hash k v i t t' \<longleftrightarrow>
     table_wf hash t' \<and> table_map t' = (table_map t)(k \<mapsto> v) \<and> mMask t' = mMask t \<and>
     mNumElements t' = mNumElements t + 1 \<and> i < slots t' \<and> mKeyVals t' ! i = Some (k, v) \<and>
     (mNumElements t \<le> 125 \<longrightarrow> calm t \<longrightarrow> calm t')"

lemma place_new:
  assumes wf: "table_wf hash t" and absent: "table_map t k = None"
    and ins: "passed hash t k ins" "info_at t ins < probe hash t k ins"
    and room: "mNumElements t < calcMaxNumElementsAllowed (mMask t + 1)" "mMaxNumElementsAllowed t \<noteq> 0"
  shows "\<exists>t'. place (k, v) (probe hash t k ins) ins t = Inr t' \<and> inserted hash k v ins t t'"
proof -
  have shape: "table_shape t" and cnt: "count_ok t" using wf by (simp_all add: table_wf_def)
  have rok: "room_ok t" using cnt room(2) by (auto simp: count_ok_def)
  obtain e where e: "ins \<le> e" "e < slots t" "mInfo t ! e = 0"
      "\<forall>j. ins \<le> j \<longrightarrow> j < e \<longrightarrow> mInfo t ! j \<noteq> 0 \<and> mKeyVals t ! j \<noteq> None"
    using first_free_slot [OF wf room(1) ins(1)] by blast
  have len: "slots t \<le> length (mInfo t)" using shape_slots(2) [OF shape] by simp
  obtain mx where pl: "place (k, v) (probe hash t k ins) ins t =
        Inr (placed (k, v) (probe hash t k ins) ins e mx t)"
    and mx: "mx = 0 \<or> mx = mMaxNumElementsAllowed t \<and> probe hash t k ins + mInfoInc t \<le> 255 \<and>
       (\<forall>j. ins \<le> j \<longrightarrow> j < e \<longrightarrow> unat (bumped (mInfoInc t) (mInfo t ! j)) + mInfoInc t \<le> 255)"
    and cause: "mx = 0 \<longrightarrow> mMaxNumElementsAllowed t = 0 \<or> 255 < probe hash t k ins + mInfoInc t \<or>
       (\<exists>j. ins \<le> j \<and> j < e \<and> 255 < unat (bumped (mInfoInc t) (mInfo t ! j)) + mInfoInc t)"
    using place_spec [OF e(1,2) len e(3,4), of "(k, v)" "probe hash t k ins"] by blast
  define t' where "t' = placed (k, v) (probe hash t k ins) ins e mx t"
  have "calm t'" if small: "mNumElements t \<le> 125"
  proof (cases "mInfoInc t = 2")
    case True
    have "probe hash t k ins + mInfoInc t \<le> 255"
      using probe_bound [OF shape passed_distance [OF wf ins(1)] True] small True by simp
    moreover have "unat (bumped (mInfoInc t) (mInfo t ! j)) + mInfoInc t \<le> 255"
      if "ins \<le> j" "j < e" for j
    proof -
      have j: "j < slots t" "mInfo t ! j \<noteq> 0" using e that by auto
      have "unat (bumped (mInfoInc t) (mInfo t ! j)) = info_at t j + mInfoInc t"
        by (rule unat_bumped) (use rok j(1) in \<open>auto simp: room_ok_def\<close>)
      with occupied_info_bound [OF wf j True] small True show ?thesis by simp
    qed
    ultimately have "mx \<noteq> 0" using cause room(2) by (metis not_le)
    then show ?thesis by (simp add: calm_def t'_def placed_def)
  next
    case False
    with shape_inc(1) [OF shape] show ?thesis by (simp add: calm_def t'_def placed_def)
  qed
  moreover have "\<forall>j. ins \<le> j \<longrightarrow> j < e \<longrightarrow> mInfo t ! j \<noteq> 0" using e(4) by blast
  ultimately have "inserted hash k v ins t t'"
    using placed_wf [OF wf absent ins room e(1-3) _ mx, of v]
    by (simp add: inserted_def t'_def) (simp add: placed_def)
  with pl show ?thesis by (simp add: t'_def)
qed

lemma skip_occupied_spec:
  assumes wf: "table_wf hash t" and absent: "table_map t k = None" and "passed hash t k i"
  shows "\<exists>j. skip_occupied t (probe hash t k i) i = Inr (probe hash t k j, j) \<and>
             passed hash t k j \<and> info_at t j < probe hash t k j"
  using assms(3)
proof (induction "slots t - i" arbitrary: i rule: less_induct)
  case less
  have shape: "table_shape t" using wf by (simp add: table_wf_def)
  have i: "i \<le> slots t" using less.prems by (simp add: passed_def)
  show ?case
  proof (cases "probe hash t k i \<le> info_at t i")
    case True
    then have lt: "i < slots t" using probe_above_sentinel [OF shape, of hash k i] i by simp
    have "\<forall>v. mKeyVals t ! i \<noteq> Some (k, v)"
      using absent lt probe_not_zero [OF shape True] by (auto simp: table_map_None [OF wf])
    then have "passed hash t k (Suc i)" by (rule passed_Suc [OF less.prems lt True])
    with less.hyps [of "Suc i"] lt
    obtain j where "skip_occupied t (probe hash t k (Suc i)) (Suc i) = Inr (probe hash t k j, j)"
        "passed hash t k j" "info_at t j < probe hash t k j"
      by (auto simp: diff_less_mono2)
    with True i show ?thesis
      by (subst skip_occupied.simps)
        (simp add: at_info [OF shape] passed_probe_Suc [OF less.prems])
  next
    case False
    with i less.prems show ?thesis
      by (subst skip_occupied.simps) (simp add: at_info [OF shape])
  qed
qed

lemma insert_move_spec:
  assumes wf: "table_wf hash t" and absent: "table_map t k = None"
    and room: "mNumElements t < calcMaxNumElementsAllowed (mMask t + 1)"
  shows "case insert_move hash (k, v) t of
      (Inr i, t') \<Rightarrow> inserted hash k v i t t'
    | (Inl e, t') \<Rightarrow> e = overflow \<and> \<not> calm t"
proof -
  have shape: "table_shape t" using wf by (simp add: table_wf_def)
  define body where "body = (\<lambda>t. let (info, idx) = keyToIdx hash t k
     in bnd (lift (skip_occupied t info idx)) (\<lambda>(info, idx).
        bnd (lift (place (k, v) (info mod 256) idx t)) (\<lambda>t.
        bnd (put t) (\<lambda>_. ret idx))))"
  have body: "\<exists>i t'. body t1 t1 = (Inr i, t') \<and> inserted hash k v i t1 t'"
    if wf1: "table_wf hash t1" and abs1: "table_map t1 k = None"
      and room1: "mNumElements t1 < calcMaxNumElementsAllowed (mMask t1 + 1)" "mMaxNumElementsAllowed t1 \<noteq> 0"
    for t1
  proof -
    have shape1: "table_shape t1" and "count_ok t1" using wf1 by (simp_all add: table_wf_def)
    then have rok: "room_ok t1" using room1(2) by (auto simp: count_ok_def)
    obtain j where j: "skip_occupied t1 (probe hash t1 k (home hash t1 k)) (home hash t1 k) =
          Inr (probe hash t1 k j, j)" "passed hash t1 k j" "info_at t1 j < probe hash t1 k j"
      using skip_occupied_spec [OF wf1 abs1 passed_home [OF shape1]] by blast
    obtain t' where "place (k, v) (probe hash t1 k j) j t1 = Inr t'" "inserted hash k v j t1 t'"
      using place_new [OF wf1 abs1 j(2,3) room1] by blast
    moreover have "probe hash t1 k j mod 256 = probe hash t1 k j"
      using probe_le_byte [OF wf1 rok j(2)] by simp
    ultimately show ?thesis
      using j(1) by (simp add: body_def keyToIdx_home put_def)
  qed
  show ?thesis
  proof (cases "mMaxNumElementsAllowed t = 0")
    case False
    then have "insert_move hash (k, v) t = body t t"
      by (simp add: insert_move_def body_def)
    with body [OF wf absent room False] show ?thesis by auto
  next
    case zero: True
    show ?thesis
    proof (cases "mInfoInc t \<le> 2")
      case True
      with zero have "insert_move hash (k, v) t = (Inl overflow, t)"
        by (simp add: insert_move_def try_increase_info_spec [OF shape] bnd_Inl throwOverflowError_def)
      with True zero show ?thesis by (simp add: calm_def)
    next
      case False
      with zero have "insert_move hash (k, v) t = body (halved t) (halved t)"
        by (simp add: insert_move_def try_increase_info_spec [OF shape] body_def put_def
            bnd_Inr [of "bnd (lift (Inr (True, halved t))) f" t "()" "halved t" for f])
      moreover have h: "mMask (halved t) = mMask t" "mNumElements (halved t) = mNumElements t"
          "mMaxNumElementsAllowed (halved t) = calcMaxNumElementsAllowed (mMask t + 1)"
        by (simp_all add: halved_def Let_def)
      moreover have "calcMaxNumElementsAllowed (mMask t + 1) \<noteq> 0" using max_positive [OF shape] by simp
      ultimately obtain i t' where "insert_move hash (k, v) t = (Inr i, t')"
          "inserted hash k v i (halved t) t'"
        using body [of "halved t"] halved_wf [OF wf False] absent room by auto
      moreover have "calm (halved t)" using h max_positive [OF shape] by (simp add: calm_def)
      ultimately show ?thesis
        using h halved_wf(2) [OF wf False] by (simp add: inserted_def)
    qed
  qed
qed

section \<open>Rehashing\<close>

lemma move_all_spec:
  assumes old: "table_wf hash old"
  shows "set is \<subseteq> {..<slots old} \<Longrightarrow> ns = List.map_filter (slot old) is \<Longrightarrow>
    table_wf hash t \<Longrightarrow> distinct (map fst ns) \<Longrightarrow> (\<forall>n \<in> set ns. table_map t (fst n) = None) \<Longrightarrow>
    mNumElements t + length ns \<le> calcMaxNumElementsAllowed (mMask t + 1) \<Longrightarrow>
    (case move_all hash old is t of
       (Inr _, t') \<Rightarrow> table_wf hash t' \<and> table_map t' = table_map t ++ map_of ns \<and>
         mMask t' = mMask t \<and> mNumElements t' = mNumElements t + length ns \<and>
         (mNumElements t + length ns \<le> 126 \<longrightarrow> calm t \<longrightarrow> calm t')
     | (Inl e, t') \<Rightarrow> e = overflow \<and> \<not> (mNumElements t + length ns \<le> 126 \<and> calm t))"
proof (induction "is" arbitrary: t ns)
  case Nil
  then show ?case by (simp add: List.map_filter_simps)
next
  case (Cons i "is")
  have shape: "table_shape old" and probe: "probe_ok hash old" using old by (simp_all add: table_wf_def)
  have i: "i < slots old" using Cons.prems(1) by simp
  then have ati: "at_index (mInfo old) i = Inr (mInfo old ! i)"
    using shape_slots(2) [OF shape] by simp
  define ms where "ms = List.map_filter (slot old) is"
  show ?case
  proof (cases "mInfo old ! i = 0")
    case True
    then have "slot old i = None" by (simp add: slot_def)
    with Cons.prems(2) have "ns = ms" by (simp add: ms_def List.map_filter_simps)
    with Cons.IH [of ns t] Cons.prems True ati ms_def show ?thesis by simp
  next
    case False
    obtain k v where n: "node_at old i = Inr (k, v)" "mKeyVals old ! i = Some (k, v)"
      using node_at_occupied [OF old i False] by (metis surj_pair)
    then have "slot old i = Some (k, v)" using False by (simp add: slot_def)
    with Cons.prems(2) have ns: "ns = (k, v) # ms" by (simp add: ms_def List.map_filter_simps)
    have run: "move_all hash old (i # is) t = bnd (insert_move hash (k, v)) (\<lambda>_. move_all hash old is) t"
      using False ati n(1) by simp
    have absent: "table_map t k = None" using Cons.prems(5) ns by simp
    have room: "mNumElements t < calcMaxNumElementsAllowed (mMask t + 1)"
      using Cons.prems(6) ns by simp
    show ?thesis
    proof (cases "insert_move hash (k, v) t")
      case (Pair r t1)
      note spec = insert_move_spec [OF Cons.prems(3) absent room, of v]
      show ?thesis
      proof (cases r)
        case (Inl e)
        with Pair spec run show ?thesis by (simp add: bnd_Inl)
      next
        case (Inr j)
        with Pair spec have ins: "inserted hash k v j t t1" by simp
        have dist: "distinct (map fst ms)" "k \<notin> fst ` set ms" using Cons.prems(4) ns by auto
        have abs1: "\<forall>n \<in> set ms. table_map t1 (fst n) = None"
          using Cons.prems(5) ns dist ins by (auto simp: inserted_def)
        have "table_map t ++ map_of ns = table_map t1 ++ map_of ms"
          using ins dist(2) ns by (simp add: inserted_def map_add_upd_left map_of_eq_None_iff dom_map_of_conv_image_fst)
        moreover have "move_all hash old (i # is) t = move_all hash old is t1"
          unfolding run using Pair Inr by (simp add: bnd_Inr)
        ultimately show ?thesis
          using Cons.IH [of ms t1] Cons.prems(1,6) dist(1) abs1 ins ns ms_def
          by (auto simp: inserted_def split: prod.splits sum.splits)
      qed
    qed
  qed
qed

lemma calcMax_double: "n \<le> 2 ^ 35 \<Longrightarrow> 2 * calcMaxNumElementsAllowed n \<le> calcMaxNumElementsAllowed (n * 2)"
  by (simp add: calcMax_small)

lemma rehash_to_spec:
  assumes wf: "table_wf hash t" and N: "8 \<le> N" "N \<le> 2 ^ 35" and fits: "mNumElements t \<le> calcMaxNumElementsAllowed N"
  shows "case rehashPowerOfTwo hash N t of
      (Inr _, t') \<Rightarrow> table_wf hash t' \<and> table_map t' = table_map t \<and>
        mMask t' + 1 = N \<and> mNumElements t' = mNumElements t \<and>
        (mNumElements t \<le> 126 \<longrightarrow> calm t')
    | (Inl e, t') \<Rightarrow> e = overflow \<and> \<not> mNumElements t \<le> 126"
proof -
  have shape: "table_shape t" and cnt: "count_ok t" using wf by (simp_all add: table_wf_def)
  have W: "calcNumElementsWithBuffer (mMask t + 1) = slots t" using shape by (simp add: table_shape_def)
  have "7 \<le> mMask t" using shape by (simp add: table_shape_def)
  with shape_slots(1) [OF shape] have W1: "1 < slots t" by simp
  have ns: "contents t = List.map_filter (slot t) [0..<slots t]"
    using shape_slots(2) [OF shape] by (simp add: contents_slots)
  have "calm (init_data N :: ('a, 'b) Table)" by (simp add: calm_def)
  moreover have run: "rehashPowerOfTwo hash N t = move_all hash t [0..<slots t] (init_data N)"
    using W W1 by (simp add: rehashPowerOfTwo_def put_def)
  moreover have "table_wf hash (init_data N :: ('a, 'b) Table)"
      "table_map (init_data N :: ('a, 'b) Table) = Map.empty"
    by (rule init_data_wf [OF N])+
  moreover have "set [0..<slots t] \<subseteq> {..<slots t}" by auto
  ultimately show ?thesis
    using move_all_spec [OF wf _ ns, of "init_data N"] cnt N(1) fits
    by (cases "move_all hash t [0..<slots t] (init_data N)")
      (auto simp: count_ok_def table_map_def split: sum.splits)
qed

lemma rehash_spec:
  assumes wf: "table_wf hash t" and n: "(mMask t + 1) * 2 \<le> 2 ^ 35"
  shows "case rehashPowerOfTwo hash ((mMask t + 1) * 2) t of
      (Inr _, t') \<Rightarrow> table_wf hash t' \<and> table_map t' = table_map t \<and>
        mMask t' + 1 = (mMask t + 1) * 2 \<and> mNumElements t' = mNumElements t \<and>
        (mNumElements t \<le> 126 \<longrightarrow> calm t')
    | (Inl e, t') \<Rightarrow> e = overflow \<and> \<not> mNumElements t \<le> 126"
proof (rule rehash_to_spec [OF wf _ n])
  show "8 \<le> (mMask t + 1) * 2" using wf by (simp add: table_wf_def table_shape_def)
  have "2 * calcMaxNumElementsAllowed (mMask t + 1) \<le> calcMaxNumElementsAllowed ((mMask t + 1) * 2)"
    by (rule calcMax_double) (use n in simp)
  moreover have "mNumElements t \<le> calcMaxNumElementsAllowed (mMask t + 1)"
    using wf by (simp add: table_wf_def count_ok_def)
  ultimately show "mNumElements t \<le> calcMaxNumElementsAllowed ((mMask t + 1) * 2)" by simp
qed

section \<open>The class invariant\<close>

definition table_ok :: "('k \<Rightarrow> u64) \<Rightarrow> ('k, 'v) Table \<Rightarrow> bool" where
  "table_ok hash t \<longleftrightarrow> t = Table_ctor \<or> table_wf hash t"

lemma ctor_simps [simp]:
  "mMask Table_ctor = 0" "mNumElements Table_ctor = 0" "mMaxNumElementsAllowed Table_ctor = 0"
  "mInfo Table_ctor = replicate 8 0" "mKeyVals Table_ctor = []" "mInfoInc Table_ctor = 32"
  by (simp_all add: Table_ctor_def)

lemma table_map_ctor [simp]: "table_map Table_ctor = Map.empty"
  by (simp add: table_map_def contents_def List.map_filter_simps)

lemma calm_ctor [simp]: "calm Table_ctor"
  by (simp add: calm_def)

lemma wf_not_ctor: "table_wf hash t \<Longrightarrow> mMask t \<noteq> 0"
  by (auto simp: table_wf_def table_shape_def)

lemma home_ctor [simp]: "home hash Table_ctor k = 0"
  by (simp add: home_def keyToIdx_def Let_def)

lemma probe_ctor: "32 \<le> probe hash Table_ctor k i"
  by (simp add: probe_def keyToIdx_def Let_def)

text \<open>As long as it has at most 127 elements, a table has at most 512 buckets.\<close>

definition few_buckets :: "('k, 'v) Table \<Rightarrow> bool" where
  "few_buckets t \<longleftrightarrow> mMask t \<in> {0, 7, 15, 31, 63, 127, 255, 511}"

lemma few_buckets_double:
  assumes "few_buckets t" and "mMask t \<noteq> 0" and "mNumElements t \<le> 127"
    and "calcMaxNumElementsAllowed (mMask t + 1) \<le> 2 * mNumElements t"
    and "mMask t' + 1 = (mMask t + 1) * 2"
  shows "few_buckets t'"
proof -
  from assms(1,2) have "mMask t \<in> {7, 15, 31, 63, 127, 255, 511}" by (simp add: few_buckets_def)
  moreover from this have "calcMaxNumElementsAllowed (mMask t + 1) = (mMask t + 1) * 80 div 100"
    by (intro calcMax_small) auto
  ultimately show ?thesis using assms(3-5) by (auto simp: few_buckets_def)
qed

definition ready :: "('k, 'v) Table \<Rightarrow> bool" where
  "ready t \<longleftrightarrow> mNumElements t < mMaxNumElementsAllowed t"

lemma increase_size_spec:
  assumes ok: "table_ok hash t" and full: "\<not> ready t" and keys: "mNumElements t \<le> 2 ^ 32"
  shows "case increase_size hash t of
      (Inr _, t') \<Rightarrow> table_wf hash t' \<and> table_map t' = table_map t \<and> mNumElements t' = mNumElements t \<and>
        (mNumElements t \<le> 126 \<longrightarrow> calm t \<longrightarrow> calm t') \<and>
        (mNumElements t \<le> 127 \<longrightarrow> few_buckets t \<longrightarrow> few_buckets t') \<and>
        (ready t' \<or> mMask t \<noteq> 0 \<and> mMask t' + 1 = (mMask t + 1) * 2 \<and>
           calcMaxNumElementsAllowed (mMask t + 1) \<le> 2 * mNumElements t)
    | (Inl e, t') \<Rightarrow> e = overflow \<and> \<not> (mNumElements t \<le> 126 \<and> calm t)"
proof (cases "t = Table_ctor")
  case True
  have wf: "table_wf hash (init_data 8 :: ('a, 'b) Table)"
      "table_map (init_data 8 :: ('a, 'b) Table) = Map.empty"
    by (rule init_data_wf; simp)+
  have "6 \<le> calcMaxNumElementsAllowed 8" by (simp add: calcMax_small)
  with True wf show ?thesis
    by (simp add: increase_size_def put_def ready_def calm_def few_buckets_def)
next
  case False
  then have wf: "table_wf hash t" using ok by (simp add: table_ok_def)
  then have shape: "table_shape t" and cnt: "count_ok t" by (simp_all add: table_wf_def)
  have mask: "mMask t \<noteq> 0" by (rule wf_not_ctor [OF wf])
  define c where "c = calcMaxNumElementsAllowed (mMask t + 1)"
  show ?thesis
  proof (cases "mNumElements t < c \<and> \<not> mInfoInc t \<le> 2")
    case True
    then have "increase_size hash t = (Inr (), halved t)"
      using mask by (simp add: increase_size_def try_increase_info_spec [OF shape] put_def c_def)
    moreover have "ready (halved t)" "calm (halved t)" "mNumElements (halved t) = mNumElements t"
        "few_buckets (halved t) = few_buckets t"
      using True by (simp_all add: ready_def calm_def few_buckets_def halved_def Let_def c_def)
    ultimately show ?thesis using halved_wf [OF wf] True by simp
  next
    case no: False
    show ?thesis
    proof (cases "mNumElements t * 2 < c")
      case True
      then have inc: "mInfoInc t \<le> 2" using no by simp
      have run: "increase_size hash t = (Inl overflow, t)"
        using True inc mask by (simp add: increase_size_def try_increase_info_spec [OF shape] c_def
            throwOverflowError_def)
      have "mMaxNumElementsAllowed t = 0"
        using full True cnt by (auto simp: ready_def count_ok_def c_def)
      with inc run show ?thesis by (simp add: calm_def)
    next
      case False
      then have "increase_size hash t = rehashPowerOfTwo hash ((mMask t + 1) * 2) t"
        using no mask by (auto simp: increase_size_def try_increase_info_spec [OF shape] c_def Let_def)
      moreover have "(mMask t + 1) * 2 \<le> 2 ^ 35"
      proof -
        have "mMask t + 1 \<le> 2 ^ 36" using shape by (simp add: table_shape_def)
        then have "c = (mMask t + 1) * 80 div 100" unfolding c_def by (rule calcMax_small)
        with False keys show ?thesis by simp
      qed
      moreover have "c \<le> 2 * mNumElements t" using False by simp
      ultimately show ?thesis
        using rehash_spec [OF wf] mask few_buckets_double [of t]
        by (auto simp: c_def split: prod.splits sum.splits)
    qed
  qed
qed

section \<open>The operations\<close>

lemma table_okE:
  assumes "table_ok hash t"
  obtains (fresh) "t = Table_ctor" | (wf) "table_wf hash t"
  using assms by (auto simp: table_ok_def)

lemma ok_ctor [simp]: "table_ok hash Table_ctor"
  by (simp add: table_ok_def)

lemma table_map_holds: "table_wf hash t \<Longrightarrow> holds_key t k p \<Longrightarrow> mKeyVals t ! p = Some (k, v) \<Longrightarrow> table_map t k = Some v"
  using table_map_Some [of hash t k v] by (auto simp: holds_key_def)

definition inserted_ok ::
  "('k \<Rightarrow> u64) \<Rightarrow> 'k \<Rightarrow> 'v \<Rightarrow> nat \<times> bool \<Rightarrow> ('k, 'v) Table \<Rightarrow> ('k, 'v) Table \<Rightarrow> bool"
where
  "inserted_ok hash k v r t t' \<longleftrightarrow>
     table_wf hash t' \<and> snd r = (table_map t k = None) \<and>
     table_map t' = (if snd r then (table_map t)(k \<mapsto> v) else table_map t) \<and>
     node_at t' (fst r) = Inr (k, the (table_map t' k)) \<and>
     mNumElements t' = mNumElements t + (if snd r then 1 else 0) \<and>
     (mNumElements t \<le> 125 \<longrightarrow> calm t \<longrightarrow> calm t') \<and>
     (mNumElements t \<le> 127 \<longrightarrow> few_buckets t \<longrightarrow> few_buckets t')"

text \<open>How many rounds \<^verbatim>\<open>doInsert\<close> may still need.\<close>

definition rounds :: "('k, 'v) Table \<Rightarrow> nat" where
  "rounds t =
     (let c = calcMaxNumElementsAllowed (mMask t + 1)
      in if ready t then 1
         else if mMask t = 0 \<or> 2 * mNumElements t < c then 2
         else if 2 * mNumElements t \<le> c then 3
         else 4)"

lemma rounds_le: "rounds t \<le> 4"
  by (simp add: rounds_def Let_def)

lemma rounds_decrease:
  assumes wf: "table_wf hash t" and full: "\<not> ready t" and t': "table_wf hash t'"
    and grown: "mMask t' + 1 = (mMask t + 1) * 2" "mNumElements t' = mNumElements t"
      "calcMaxNumElementsAllowed (mMask t + 1) \<le> 2 * mNumElements t"
  shows "rounds t' < rounds t"
proof -
  define c where "c = calcMaxNumElementsAllowed (mMask t + 1)"
  define c' where "c' = calcMaxNumElementsAllowed (mMask t' + 1)"
  have shape: "table_shape t" and "count_ok t" and shape': "table_shape t'"
    using wf t' by (simp_all add: table_wf_def)
  then have n: "mNumElements t \<le> c" by (simp add: count_ok_def c_def)
  have "mMask t + 1 \<le> 2 ^ 35" using shape by (simp add: table_shape_def)
  from calcMax_double [OF this] have c': "2 * c \<le> c'" unfolding c_def c'_def grown(1) .
  have c6: "6 \<le> c" using max_positive [OF shape] by (simp add: c_def)
  have r: "rounds t = (if 2 * mNumElements t \<le> c then 3 else 4)"
    using full grown(3) wf_not_ctor [OF wf] by (auto simp: rounds_def Let_def c_def)
  have r': "rounds t' = (if ready t' then 1 else if mMask t' = 0 \<or> 2 * mNumElements t < c' then 2
      else if 2 * mNumElements t \<le> c' then 3 else 4)"
    using grown(2) by (simp add: rounds_def Let_def c'_def)
  show ?thesis using r r' n c' c6 by auto
qed

lemma doInsert_spec:
  assumes "table_ok hash t" and "mNumElements t \<le> 2 ^ 32" and "rounds t \<le> fuel"
  shows "case doInsert hash (k, v) fuel t of
      (Inr r, t') \<Rightarrow> inserted_ok hash k v r t t'
    | (Inl e, t') \<Rightarrow> e = overflow \<and> \<not> (mNumElements t \<le> 125 \<and> calm t)"
  using assms
proof (induction fuel arbitrary: t)
  case 0
  then show ?case by (simp add: rounds_def Let_def split: if_splits)
next
  case (Suc fuel)
  define grow where "grow = bnd (increase_size hash) (\<lambda>_. doInsert hash (k, v) fuel)"
  have again: ?case if run: "doInsert hash (k, v) (Suc fuel) t = grow t" and full: "\<not> ready t"
  proof (cases "increase_size hash t")
    case (Pair r t1)
    note spec = increase_size_spec [OF Suc.prems(1) full Suc.prems(2), unfolded Pair]
    show ?thesis
    proof (cases r)
      case (Inl e)
      with spec Pair run show ?thesis by (simp add: grow_def bnd_Inl)
    next
      case (Inr u)
      with spec have t1: "table_wf hash t1" "table_map t1 = table_map t" "mNumElements t1 = mNumElements t"
          "mNumElements t \<le> 126 \<longrightarrow> calm t \<longrightarrow> calm t1" "mNumElements t \<le> 127 \<longrightarrow> few_buckets t \<longrightarrow> few_buckets t1"
        and prog: "ready t1 \<or> mMask t \<noteq> 0 \<and> mMask t1 + 1 = (mMask t + 1) * 2 \<and>
           calcMaxNumElementsAllowed (mMask t + 1) \<le> 2 * mNumElements t" by simp_all
      have "rounds t1 < rounds t"
        using prog
      proof
        assume "ready t1"
        with full show ?thesis by (simp add: rounds_def Let_def)
      next
        assume g: "mMask t \<noteq> 0 \<and> mMask t1 + 1 = (mMask t + 1) * 2 \<and>
           calcMaxNumElementsAllowed (mMask t + 1) \<le> 2 * mNumElements t"
        then have "table_wf hash t" using Suc.prems(1) by (auto simp: table_ok_def)
        from rounds_decrease [OF this full t1(1)] g t1(3) show ?thesis by simp
      qed
      then have "rounds t1 \<le> fuel" using Suc.prems(3) by simp
      with Suc.IH [of t1] t1 Suc.prems(2)
      have "case doInsert hash (k, v) fuel t1 of
          (Inr r, t') \<Rightarrow> inserted_ok hash k v r t1 t'
        | (Inl e, t') \<Rightarrow> e = overflow \<and> \<not> (mNumElements t1 \<le> 125 \<and> calm t1)"
        by (simp add: table_ok_def)
      moreover have "grow t = doInsert hash (k, v) fuel t1"
        using Pair Inr by (simp add: grow_def bnd_Inr)
      ultimately show ?thesis
        using run t1 by (auto simp: inserted_ok_def split: prod.splits sum.splits)
    qed
  qed
  show ?case
  proof (cases "t = Table_ctor")
    case True
    have "nextWhileLess t (probe hash t k 0) 0 = Inr (probe hash t k 0, 0)"
      by (subst nextWhileLess.simps) (simp add: True)
    moreover have "match_loop t k (probe hash t k 0) 0 = Inr (False, probe hash t k 0, 0)"
      using probe_ctor [of hash k 0, where 'b = 'b] by (subst match_loop.simps) (auto simp: True)
    ultimately have "doInsert hash (k, v) (Suc fuel) t = grow t"
      by (simp add: keyToIdx_home grow_def) (simp add: True)
    then show ?thesis by (rule again) (simp add: True ready_def)
  next
    case False
    then have wf: "table_wf hash t" using Suc.prems(1) by (simp add: table_ok_def)
    then have shape: "table_shape t" and cnt: "count_ok t" by (simp_all add: table_wf_def)
    obtain i where i: "nextWhileLess t (probe hash t k (home hash t k)) (home hash t k) =
        Inr (probe hash t k i, i)" "passed hash t k i" "info_at t i \<le> probe hash t k i"
      using nextWhileLess_spec [OF wf passed_home [OF shape]] by blast
    obtain found j where j: "match_loop t k (probe hash t k i) i = Inr (found, probe hash t k j, j)"
        "passed hash t k j"
        "if found then j < slots t \<and> mInfo t ! j \<noteq> 0 \<and> (\<exists>v. mKeyVals t ! j = Some (k, v))
         else info_at t j < probe hash t k j"
      using match_loop_spec [OF wf i(2,3)] by blast
    note run = doInsert.simps(2) [of hash "(k, v)" fuel]
    show ?thesis
    proof (cases found)
      case True
      with j(3) obtain w where w: "j < slots t" "mInfo t ! j \<noteq> 0" "mKeyVals t ! j = Some (k, w)" by auto
      then have "table_map t k = Some w" by (auto simp: table_map_Some [OF wf])
      moreover have "doInsert hash (k, v) (Suc fuel) t = (Inr (j, False), t)"
        using i(1) j(1) True by (simp add: keyToIdx_home)
      ultimately show ?thesis
        using w wf by (simp add: inserted_ok_def node_at_def)
    next
      case False
      with j(3) have lt: "info_at t j < probe hash t k j" by simp
      have absent: "table_map t k = None" by (rule passed_absent [OF wf j(2) lt])
      show ?thesis
      proof (cases "ready t")
        case True
        then have room: "mNumElements t < calcMaxNumElementsAllowed (mMask t + 1)"
            "mMaxNumElementsAllowed t \<noteq> 0"
          using cnt by (auto simp: ready_def count_ok_def)
        obtain t' where t': "place (k, v) (probe hash t k j) j t = Inr t'" "inserted hash k v j t t'"
          using place_new [OF wf absent j(2) lt room] by blast
        have "doInsert hash (k, v) (Suc fuel) t = (Inr (j, True), t')"
          using i(1) j(1) t'(1) False True by (simp add: keyToIdx_home put_def ready_def)
        with t'(2) absent show ?thesis
          by (simp add: inserted_ok_def inserted_def node_at_def few_buckets_def)
      next
        case full: False
        have "doInsert hash (k, v) (Suc fuel) t = grow t"
          using i(1) j(1) False full by (simp add: keyToIdx_home grow_def ready_def)
        then show ?thesis using full by (rule again)
      qed
    qed
  qed
qed

lemma keys_bound:
  fixes t :: "(u32, 'v) Table"
  assumes "table_ok hash t"
  shows "mNumElements t \<le> 2 ^ 32"
  using assms
proof (cases rule: table_okE)
  case wf
  then have "distinct (map fst (contents t))" "mNumElements t = length (contents t)"
    by (simp_all add: table_wf_def count_ok_def)
  then have "mNumElements t = card (set (map fst (contents t)))"
    by (simp only: distinct_card length_map)
  also have "\<dots> \<le> CARD(u32)" by (rule card_mono) simp_all
  also have "\<dots> = 2 ^ 32" by (simp add: card_word)
  finally show ?thesis .
qed simp

lemma Table_insert_spec:
  fixes t :: "(u32, 'v) Table"
  assumes "table_ok hash t"
  shows "case Table_insert hash (k, v) t of
      (Inr r, t') \<Rightarrow> inserted_ok hash k v r t t'
    | (Inl e, t') \<Rightarrow> e = overflow \<and> \<not> (mNumElements t \<le> 125 \<and> calm t)"
  unfolding Table_insert_def by (rule doInsert_spec [OF assms keys_bound [OF assms] rounds_le])

lemma erase_loop_spec:
  assumes wf: "table_wf hash t" and "i < slots t" and "home hash t k \<le> i"
    and "table_map t k \<noteq> None \<longrightarrow> passed hash t k i"
  shows "\<exists>r t'. erase_loop k (probe hash t k i) i t = Inr (r, t') \<and>
    (r = 0 \<and> t' = t \<and> table_map t k = None \<or>
     r = 1 \<and> (\<exists>p. holds_key t k p \<and>
       t' = (removed p (shift_end t p) t)\<lparr>mNumElements := mNumElements t - 1\<rparr>))"
  using assms(2-)
proof (induction "slots t - i" arbitrary: i rule: less_induct)
  case less
  have shape: "table_shape t" using wf by (simp add: table_wf_def)
  define here where "here \<longleftrightarrow> i < slots t \<and> info_at t i = probe hash t k i \<and>
    (\<exists>v. mKeyVals t ! i = Some (k, v))"
  have has: "slot_has t k (probe hash t k i) i = Inr here"
    unfolding here_def by (rule slot_has_spec [OF wf]) (use less.prems(1) in simp)
  have s1: "probe hash t k (Suc i) = probe hash t k i + mInfoInc t"
    using less.prems(2) by (rule probe_Suc)
  show ?case
  proof (cases here)
    case True
    then have "holds_key t k i"
      using probe_not_zero [OF shape, of hash k i] by (auto simp: holds_key_def here_def)
    with True has shiftDown_spec [OF wf less.prems(1)] show ?thesis
      by (subst erase_loop.simps) (auto simp: removed_def)
  next
    case False
    have p1: "table_map t k \<noteq> None \<longrightarrow> passed hash t k (Suc i)"
      by (rule passed_next [OF wf less.prems]) (use False less.prems(1) in \<open>auto simp: here_def\<close>)
    have at: "at_index (mInfo t) (Suc i) = Inr (mInfo t ! Suc i)"
      by (rule at_info [OF shape]) (use less.prems(1) in simp)
    show ?thesis
    proof (cases "probe hash t k (Suc i) \<le> info_at t (Suc i)")
      case True
      then have lt: "Suc i < slots t"
        using probe_above_sentinel [OF shape True] less.prems(1) by simp
      have "slots t - Suc i < slots t - i" using less.prems(1) by simp
      from less.hyps [OF this lt _ p1] less.prems(2)
      obtain r t' where "erase_loop k (probe hash t k (Suc i)) (Suc i) t = Inr (r, t')"
        "r = 0 \<and> t' = t \<and> table_map t k = None \<or>
         r = 1 \<and> (\<exists>p. holds_key t k p \<and>
           t' = (removed p (shift_end t p) t)\<lparr>mNumElements := mNumElements t - 1\<rparr>)"
        by auto
      moreover have "erase_loop k (probe hash t k i) i t =
          erase_loop k (probe hash t k (Suc i)) (Suc i) t"
        using has False at True s1 by (subst erase_loop.simps) simp
      ultimately show ?thesis by simp
    next
      case no: False
      then have "table_map t k = None" using passed_absent [OF wf] p1 by (metis not_le)
      moreover have "erase_loop k (probe hash t k i) i t = Inr (0, t)"
        using has False at no s1 by (subst erase_loop.simps) simp
      ultimately show ?thesis by simp
    qed
  qed
qed

lemma Table_find_spec:
  assumes "table_ok hash t"
  shows "\<exists>i. Table_find hash t k = Inr i \<and>
    (case table_map t k of
       None \<Rightarrow> i = Table_end t
     | Some v \<Rightarrow> i \<noteq> Table_end t \<and> node_at t i = Inr (k, v))"
  using assms
proof (cases rule: table_okE)
  case fresh
  have "findIdx_loop t k (probe hash t k 0) 0 = Inr None"
    using probe_ctor [of hash k 0, where 'b = 'b]
    by (subst findIdx_loop.simps) (auto simp: fresh slot_has_def nth_Cons')
  then have "Table_find hash t k = Inr 0"
    by (simp add: Table_find_def findIdx_def keyToIdx_home Table_end_def) (simp add: fresh)
  then show ?thesis by (simp add: fresh Table_end_def)
next
  case wf
  then have shape: "table_shape t" by (simp add: table_wf_def)
  have mask: "mMask t \<noteq> 0" by (rule wf_not_ctor [OF wf])
  have "home hash t k < slots t"
    using home_le [OF shape, of hash k] shape_slots(1) [OF shape] by simp
  from findIdx_loop_spec [OF wf this order_refl] passed_home [OF shape, of hash k]
  obtain r where r: "findIdx_loop t k (probe hash t k (home hash t k)) (home hash t k) = Inr r"
      "case r of None \<Rightarrow> table_map t k = None | Some p \<Rightarrow> holds_key t k p" by blast
  show ?thesis
  proof (cases r)
    case None
    with r show ?thesis by (simp add: Table_find_def findIdx_def keyToIdx_home)
  next
    case (Some p)
    with r(2) obtain v where v: "p < slots t" "mInfo t ! p \<noteq> 0" "mKeyVals t ! p = Some (k, v)"
      by (auto simp: holds_key_def)
    then have "table_map t k = Some v" by (auto simp: table_map_Some [OF wf])
    with Some r(1) v mask show ?thesis
      by (simp add: Table_find_def findIdx_def keyToIdx_home Table_end_def node_at_def)
  qed
qed

lemma find_occupied:
  assumes wf: "table_wf hash t" and v: "table_map t k = Some v"
  shows "\<exists>i. Table_find hash t k = Inr i \<and> i \<noteq> Table_end t \<and> i < slots t \<and> mInfo t ! i \<noteq> 0 \<and> mKeyVals t ! i = Some (k, v)"
proof -
  have shape: "table_shape t" using wf by (simp add: table_wf_def)
  have "home hash t k < slots t"
    using home_le [OF shape, of hash k] shape_slots(1) [OF shape] by simp
  from findIdx_loop_spec [OF wf this order_refl] passed_home [OF shape, of hash k]
  obtain p where "findIdx_loop t k (probe hash t k (home hash t k)) (home hash t k) = Inr (Some p)" "holds_key t k p"
    using v by (auto split: option.splits)
  moreover from this obtain w where w: "p < slots t" "mInfo t ! p \<noteq> 0" "mKeyVals t ! p = Some (k, w)"
    by (auto simp: holds_key_def)
  moreover have "table_map t k = Some w" using w by (auto simp: table_map_Some [OF wf])
  ultimately show ?thesis
    using v wf_not_ctor [OF wf] by (simp add: Table_find_def findIdx_def keyToIdx_home Table_end_def)
qed

lemma Table_erase_spec:
  assumes "table_ok hash t"
  shows "\<exists>t'. Table_erase hash k t = Inr (if table_map t k = None then 0 else 1, t') \<and>
    table_ok hash t' \<and> table_map t' = (table_map t)(k := None) \<and>
    mNumElements t' = mNumElements t - (if table_map t k = None then 0 else 1) \<and>
    (calm t \<longrightarrow> calm t') \<and> (few_buckets t \<longrightarrow> few_buckets t')"
  using assms
proof (cases rule: table_okE)
  case fresh
  have "erase_loop k (probe hash t k 0) 0 t = Inr (0, t)"
    using probe_ctor [of hash k 0, where 'b = 'b]
    by (subst erase_loop.simps) (auto simp: fresh slot_has_def)
  then show ?thesis by (simp add: Table_erase_def keyToIdx_home) (simp add: fresh)
next
  case wf
  then have shape: "table_shape t" by (simp add: table_wf_def)
  have "home hash t k < slots t"
    using home_le [OF shape, of hash k] shape_slots(1) [OF shape] by simp
  from erase_loop_spec [OF wf this order_refl] passed_home [OF shape, of hash k]
  obtain r t' where r: "Table_erase hash k t = Inr (r, t')"
    "r = 0 \<and> t' = t \<and> table_map t k = None \<or>
     r = 1 \<and> (\<exists>p. holds_key t k p \<and>
       t' = (removed p (shift_end t p) t)\<lparr>mNumElements := mNumElements t - 1\<rparr>)"
    by (auto simp: Table_erase_def keyToIdx_home)
  from r(2) show ?thesis
  proof (elim disjE conjE exE)
    assume "r = 0" "t' = t" "table_map t k = None"
    with r(1) wf show ?thesis by (simp add: table_ok_def fun_upd_idem)
  next
    fix p assume p: "r = 1" "holds_key t k p"
      "t' = (removed p (shift_end t p) t)\<lparr>mNumElements := mNumElements t - 1\<rparr>"
    then have "table_map t k \<noteq> None"
      using table_map_None [OF wf, of k] by (auto simp: holds_key_def)
    with r(1) p(1,3) removed_wf [OF wf p(2)] show ?thesis
      by (simp add: table_ok_def) (simp add: calm_def few_buckets_def removed_def)
  qed
qed

lemma Table_clear_spec:
  assumes "table_ok hash t"
  shows "table_ok hash (Table_clear t) \<and> table_map (Table_clear t) = Map.empty \<and>
    mNumElements (Table_clear t) = 0 \<and> (calm t \<longrightarrow> calm (Table_clear t))"
  using assms
proof (cases rule: table_okE)
  case fresh
  then have "Table_clear t = t" by (simp add: Table_clear_def Table_empty_def)
  with fresh show ?thesis by simp
next
  case wf
  then have shape: "table_shape t" and cnt: "count_ok t" by (simp_all add: table_wf_def)
  show ?thesis
  proof (cases "Table_empty t")
    case True
    with cnt have "table_map t = Map.empty"
      by (simp add: Table_empty_def count_ok_def table_map_def)
    with True wf show ?thesis by (simp add: Table_clear_def table_ok_def Table_empty_def)
  next
    case False
    then have t': "Table_clear t = t\<lparr>mNumElements := 0, mInfo := (replicate (slots t + 8) 0)[slots t := 1],
        mInfoInc := 32, mInfoHashShift := 0\<rparr>"
      using shape by (simp add: Table_clear_def Let_def table_shape_def calcNumBytesInfo_def)
    have "table_wf hash (Table_clear t)" "table_map (Table_clear t) = Map.empty"
      using shape cnt by (auto intro!: zeroed_wf simp: t' table_shape_def count_ok_def)
    then show ?thesis by (simp add: table_ok_def t' calm_def)
  qed
qed

end
