(* ===== verification/Requests.thy ===== *)
theory Requests
  imports Prelude
begin

text \<open>
  Sequences of requests to a component. The locale \<open>answering\<close> is the contract of a component
  whose answers are those of an abstract one as long as it does not fail, and fails in the
  expected way only; \<open>answering_small\<close> adds that it does not fail while it is small, \<open>answering_steady\<close> that its
  state stays well-formed when it fails.
\<close>

fun requests :: "('r \<Rightarrow> ('t, 'a) M) \<Rightarrow> 'r list \<Rightarrow> ('t, 'a list) M" where
  "requests step [] = ret []"
| "requests step (r # rs) = bnd (step r) (\<lambda>a. bnd (requests step rs) (\<lambda>as. ret (a # as)))"

fun spec_requests :: "('r \<Rightarrow> 'm \<Rightarrow> 'a \<times> 'm) \<Rightarrow> 'r list \<Rightarrow> 'm \<Rightarrow> 'a list \<times> 'm" where
  "spec_requests step [] m = ([], m)"
| "spec_requests step (r # rs) m =
     (let (a, m) = step r m; (as, m) = spec_requests step rs m in (a # as, m))"

lemma requests_InrE:
  assumes "requests step (r # rs) t = (Inr as, t')"
  obtains a bs t1 where "step r t = (Inr a, t1)" "requests step rs t1 = (Inr bs, t')" "as = a # bs"
  using assms by (auto simp: bnd_def split: prod.splits sum.splits)

lemma requests_InlE:
  assumes "requests step (r # rs) t = (Inl e, t')"
  obtains (now) "step r t = (Inl e, t')"
    | (later) a t1 where "step r t = (Inr a, t1)" "requests step rs t1 = (Inl e, t')"
  using assms by (auto simp: bnd_def split: prod.splits sum.splits)

locale answering =
  fixes step :: "'r \<Rightarrow> ('t, 'a) M"
    and spec_step :: "'r \<Rightarrow> 'm \<Rightarrow> 'a \<times> 'm"
    and ok :: "'t \<Rightarrow> bool"
    and abs :: "'t \<Rightarrow> 'm"
    and expected :: "fault \<Rightarrow> bool"
  assumes step_ok: "ok t \<Longrightarrow> step r t = (Inr a, t') \<Longrightarrow> ok t' \<and> spec_step r (abs t) = (a, abs t')"
    and step_fault: "ok t \<Longrightarrow> step r t = (Inl e, t') \<Longrightarrow> expected e"
begin

lemma requests_answered:
  "ok t \<Longrightarrow> requests step rs t = (Inr as, t') \<Longrightarrow>
   ok t' \<and> spec_requests spec_step rs (abs t) = (as, abs t')"
proof (induction rs arbitrary: t as)
  case Nil
  then show ?case by simp
next
  case (Cons r rs)
  obtain a bs t1 where "step r t = (Inr a, t1)" "requests step rs t1 = (Inr bs, t')" "as = a # bs"
    by (rule requests_InrE [OF Cons.prems(2)])
  with step_ok [OF Cons.prems(1)] Cons.IH [of t1] show ?case by fastforce
qed

lemma requests_fault:
  "ok t \<Longrightarrow> requests step rs t = (Inl e, t') \<Longrightarrow> expected e"
proof (induction rs arbitrary: t)
  case Nil
  then show ?case by simp
next
  case (Cons r rs)
  from Cons.prems(2) show ?case
  proof (cases rule: requests_InlE)
    case now
    then show ?thesis by (rule step_fault [OF Cons.prems(1)])
  next
    case (later a t1)
    with Cons.IH step_ok [OF Cons.prems(1)] show ?thesis by blast
  qed
qed

end

locale answering_small = answering step spec_step ok abs expected
  for step :: "'r \<Rightarrow> ('t, 'a) M"
    and spec_step :: "'r \<Rightarrow> 'm \<Rightarrow> 'a \<times> 'm"
    and ok :: "'t \<Rightarrow> bool"
    and abs :: "'t \<Rightarrow> 'm"
    and expected :: "fault \<Rightarrow> bool" +
  fixes entries :: "'t \<Rightarrow> nat"
    and cost :: "'r \<Rightarrow> nat"
    and limit :: nat
    and fine :: "'t \<Rightarrow> bool"
  assumes step_fine: "ok t \<Longrightarrow> fine t \<Longrightarrow> entries t + cost r \<le> limit \<Longrightarrow>
      \<exists>a t'. step r t = (Inr a, t') \<and> fine t' \<and> entries t' \<le> entries t + cost r"
begin

lemma requests_total:
  "ok t \<Longrightarrow> fine t \<Longrightarrow> entries t + sum_list (map cost rs) \<le> limit \<Longrightarrow>
   \<exists>as t'. requests step rs t = (Inr as, t')"
proof (induction rs arbitrary: t)
  case Nil
  then show ?case by simp
next
  case (Cons r rs)
  then obtain a t1 where step: "step r t = (Inr a, t1)" "fine t1" "entries t1 \<le> entries t + cost r"
    using step_fine [of t r] by auto
  then have "ok t1" using step_ok Cons.prems(1) by blast
  with Cons.IH [of t1] Cons.prems(3) step
  obtain bs t' where "requests step rs t1 = (Inr bs, t')" by auto
  with step(1) show ?case by (simp add: bnd_Inr)
qed

end

locale answering_steady = answering step spec_step ok abs expected
  for step :: "'r \<Rightarrow> ('t, 'a) M"
    and spec_step :: "'r \<Rightarrow> 'm \<Rightarrow> 'a \<times> 'm"
    and ok :: "'t \<Rightarrow> bool"
    and abs :: "'t \<Rightarrow> 'm"
    and expected :: "fault \<Rightarrow> bool" +
  assumes step_steady: "ok t \<Longrightarrow> step r t = (Inl e, t') \<Longrightarrow> ok t'"
begin

lemma requests_steady:
  "ok t \<Longrightarrow> requests step rs t = (res, t') \<Longrightarrow> ok t'"
proof (induction rs arbitrary: t res)
  case Nil
  then show ?case by (simp add: ret_def)
next
  case (Cons r rs)
  show ?case
  proof (cases res)
    case (Inl e)
    with Cons.prems(2) have "requests step (r # rs) t = (Inl e, t')" by simp
    then show ?thesis
      by (cases rule: requests_InlE) (use Cons step_steady step_ok in blast)+
  next
    case (Inr as)
    with requests_answered Cons.prems show ?thesis by blast
  qed
qed

end

end
