(* ===== verification/Robin_Hood_Iter.thy ===== *)
theory Robin_Hood_Iter
  imports Robin_Hood_Correct
begin

text \<open>
  Iteration over the hash map of \<^verbatim>\<open>src/sim/robin_hood.h\<close> and what is built on it: the class \<^verbatim>\<open>Iter\<close>,
  \<^verbatim>\<open>begin\<close>, the comparison of two maps, the removal of the element at an iterator, and the copies
  and moves of a map. An iterator is the number of the slot it points to.

  An iteration meets every pair of the map exactly once, and the removal of an element on the way
  does not disturb it.
\<close>

section \<open>The next occupied slot\<close>

text \<open>Eight info bytes at once; the number of zero bits at the low end of the word, by eight, skips the zero bytes.\<close>

definition unaligned_load :: "u8 list \<Rightarrow> nat \<Rightarrow> fault + u64" where
  "unaligned_load info i =
     (if i + 8 \<le> length info then Inr (le_join (take 8 (drop i info))) else Inl (Undefined OutOfBounds))"

definition count_trailing_zeroes :: "u64 \<Rightarrow> nat" where
  "count_trailing_zeroes n = length (takeWhile (\<lambda>k. \<not> bit n k) [0..<64])"

function fastForward :: "('k, 'v) Table \<Rightarrow> nat \<Rightarrow> fault + nat" where
  "fastForward t i =
     rbind (unaligned_load (mInfo t) i) (\<lambda>n.
       if n = 0 then fastForward t (i + 8) else Inr (i + count_trailing_zeroes n div 8))"
  by pat_completeness auto
termination
  by (relation "measure (\<lambda>(t, i). length (mInfo t) - i)") (auto simp: unaligned_load_def split: if_splits)

declare fastForward.simps [simp del]

definition Iter_inc :: "('k, 'v) Table \<Rightarrow> nat \<Rightarrow> fault + nat" where
  "Iter_inc t it = fastForward t (it + 1)"

definition Table_begin :: "('k, 'v) Table \<Rightarrow> fault + nat" where
  "Table_begin t = (if Table_empty t then Inr (Table_end t) else fastForward t 0)"

lemma fastForward_le: "fastForward t i = Inr j \<Longrightarrow> i \<le> j"
proof (induction t i rule: fastForward.induct)
  case (1 t i)
  from 1(2) show ?case
    by (subst (asm) fastForward.simps) (auto simp: rbind_Inr_iff split: if_splits dest: 1(1))
qed

text \<open>A \<^verbatim>\<open>for\<close> loop over the map from an iterator on: the pairs it meets.\<close>

function visit :: "('k, 'v) Table \<Rightarrow> nat \<Rightarrow> fault + ('k \<times> 'v) list" where
  "visit t it =
     (if it = Table_end t then Inr []
      else rbind (node_at t it) (\<lambda>n.
           rbind (Iter_inc t it) (\<lambda>it.
           rbind (visit t it) (\<lambda>ns. Inr (n # ns)))))"
  by pat_completeness auto
termination
  by (relation "measure (\<lambda>(t, it). slots t - it)")
    (auto simp: node_at_def Iter_inc_def rbind_Inr_iff dest!: at_index_InrD fastForward_le)

declare visit.simps [simp del]

definition Table_entries :: "('k, 'v) Table \<Rightarrow> fault + ('k \<times> 'v) list" where
  "Table_entries t = rbind (Table_begin t) (visit t)"

section \<open>Comparison\<close>

definition has :: "('k \<Rightarrow> u64) \<Rightarrow> ('k, 'v) Table \<Rightarrow> 'k \<times> 'v \<Rightarrow> fault + bool" where
  "has hash t e =
     rbind (Table_find hash t (fst e)) (\<lambda>it.
       if it \<noteq> Table_end t then rbind (node_at t it) (\<lambda>n. Inr (snd n = snd e)) else Inr False)"

function eq_loop :: "('k \<Rightarrow> u64) \<Rightarrow> ('k, 'v) Table \<Rightarrow> ('k, 'v) Table \<Rightarrow> nat \<Rightarrow> fault + bool" where
  "eq_loop hash t other it =
     (if it = Table_end other then Inr True
      else rbind (node_at other it) (\<lambda>otherEntry.
           rbind (has hash t otherEntry) (\<lambda>b.
             if \<not> b then Inr False
             else rbind (Iter_inc other it) (\<lambda>it. eq_loop hash t other it))))"
  by pat_completeness auto
termination
  by (relation "measure (\<lambda>(hash, t, other, it). slots other - it)")
    (auto simp: node_at_def Iter_inc_def rbind_Inr_iff dest!: at_index_InrD fastForward_le)

declare eq_loop.simps [simp del]

definition Table_eq :: "('k \<Rightarrow> u64) \<Rightarrow> ('k, 'v) Table \<Rightarrow> ('k, 'v) Table \<Rightarrow> fault + bool" where
  "Table_eq hash t other =
     (if mNumElements other \<noteq> mNumElements t then Inr False
      else rbind (Table_begin other) (eq_loop hash t other))"

section \<open>Removal at an iterator\<close>

definition Table_erase_at :: "nat \<Rightarrow> ('k, 'v) Table \<Rightarrow> fault + nat \<times> ('k, 'v) Table" where
  "Table_erase_at pos t =
     rbind (shiftDown pos t) (\<lambda>t.
     let t = t\<lparr>mNumElements := mNumElements t - 1\<rparr>
     in rbind (at_index (mInfo t) pos) (\<lambda>b.
        if b \<noteq> 0 then Inr (pos, t) else rbind (Iter_inc t pos) (\<lambda>it. Inr (it, t))))"

section \<open>Copies and moves\<close>

text \<open>\<^verbatim>\<open>Cloner\<close> copies the slots and the info bytes of the new size, which is that of the source.\<close>

definition cloneData :: "('k, 'v) Table \<Rightarrow> fault + ('k, 'v) Table" where
  "cloneData s =
     (let n = calcNumElementsWithBuffer (mMask s + 1)
      in if n \<le> slots s \<and> calcNumBytesInfo n \<le> length (mInfo s)
         then Inr (s\<lparr>mKeyVals := take n (mKeyVals s), mInfo := take (calcNumBytesInfo n) (mInfo s)\<rparr>)
         else Inl (Undefined OutOfBounds))"

definition Table_copy :: "('k, 'v) Table \<Rightarrow> fault + ('k, 'v) Table" where
  "Table_copy other = (if Table_empty other then Inr Table_ctor else cloneData other)"

text \<open>Assignment to a table \<open>t\<close> of its own memory; the assignment to itself does nothing.\<close>

definition Table_assign :: "('k, 'v) Table \<Rightarrow> ('k, 'v) Table \<Rightarrow> fault + ('k, 'v) Table" where
  "Table_assign t other =
     (if Table_empty other then Inr (if mMask t = 0 then t else Table_ctor) else cloneData other)"

text \<open>The new table, and what is left of the old one.\<close>

definition Table_move :: "('k, 'v) Table \<Rightarrow> ('k, 'v) Table \<times> ('k, 'v) Table" where
  "Table_move other = (if mMask other \<noteq> 0 then (other, Table_ctor) else (Table_ctor, other))"

definition Table_move_assign :: "('k, 'v) Table \<Rightarrow> ('k, 'v) Table \<Rightarrow> ('k, 'v) Table \<times> ('k, 'v) Table" where
  "Table_move_assign t other =
     (if mMask other \<noteq> 0 then (other, Table_ctor) else (Table_clear t, other))"

text \<open>\<^verbatim>\<open>swap\<close> is \<^verbatim>\<open>std::swap\<close> of the other table and this one, one move construction and two assignments.\<close>

definition Table_swap :: "('k, 'v) Table \<Rightarrow> ('k, 'v) Table \<Rightarrow> ('k, 'v) Table \<times> ('k, 'v) Table" where
  "Table_swap t other =
     (let (tmp, other) = Table_move other;
          (other, t) = Table_move_assign other t;
          (t, tmp) = Table_move_assign t tmp
      in (t, other))"

section \<open>Skipping free slots\<close>

lemma le_join_zero: "length bs \<le> 8 \<Longrightarrow> (le_join bs :: u64) = 0 \<longleftrightarrow> (\<forall>b \<in> set bs. b = 0)"
proof
  assume len: "length bs \<le> 8" and z: "(le_join bs :: u64) = 0"
  show "\<forall>b \<in> set bs. b = 0"
  proof
    fix b assume "b \<in> set bs"
    then obtain i where i: "i < length bs" "b = bs ! i" by (auto simp: in_set_conv_nth)
    have "\<not> bit (bs ! i) k" if "k < 8" for k
    proof -
      have "\<not> bit (le_join bs :: u64) (8 * i + k)" using z by simp
      then show ?thesis using that i(1) len by (simp add: bit_le_join div_mult_self3 mod_mult_self3)
    qed
    then show "b = 0" using i(2) by (auto intro!: bit_word_eqI)
  qed
next
  assume "\<forall>b \<in> set bs. b = 0"
  then have "bs ! i = 0" if "i < length bs" for i using that by simp
  then show "(le_join bs :: u64) = 0"
    by (intro bit_word_eqI) (auto simp: bit_le_join)
qed

lemma trailing_zeroes_byte:
  assumes "length bs = 8" "p < 8" "bs ! p \<noteq> 0" "\<forall>q < p. bs ! q = 0"
  shows "count_trailing_zeroes (le_join bs) div 8 = p"
proof -
  let ?w = "le_join bs :: u64"
  obtain k where k: "k < 8" "bit (bs ! p) k"
    using assms(3) bit_word_eqI [of "bs ! p" 0] by auto
  have b: "bit ?w j \<longleftrightarrow> j < 64 \<and> bit (bs ! (j div 8)) (j mod 8)" for j
    using assms(1) by (auto simp: bit_le_join)
  define c where "c = count_trailing_zeroes ?w"
  have low: "\<not> bit ?w j" if "j < 8 * p" for j
    using that assms(4) by (auto simp: b)
  have "bit ?w (8 * p + k)" using k assms(2) by (simp add: b)
  then have ex: "\<exists>j \<in> set [0..<64]. bit ?w j" using k assms(2) by (intro bexI [of _ "8 * p + k"]) auto
  have lt: "c < 64"
    unfolding c_def count_trailing_zeroes_def using ex
    by (metis (mono_tags, lifting) length_takeWhile_le length_upt linorder_neqE_nat minus_nat.diff_0 not_le
        takeWhile_eq_all_conv takeWhile_eq_take take_all_iff)
  have at: "bit ?w c"
    using nth_length_takeWhile [of "\<lambda>k. \<not> bit ?w k" "[0..<64]"] lt
    by (simp add: c_def count_trailing_zeroes_def)
  have before: "\<not> bit ?w j" if "j < c" for j
    using that set_takeWhileD [of j "\<lambda>k. \<not> bit ?w k" "[0..<64]"] nth_mem [of j "takeWhile (\<lambda>k. \<not> bit ?w k) [0..<64]"]
      takeWhile_nth [of j "\<lambda>k. \<not> bit ?w k" "[0..<64]"] lt
    by (simp add: c_def count_trailing_zeroes_def)
  have "8 * p \<le> c" using low at not_le by blast
  moreover have "c \<le> 8 * p + k" using before \<open>bit ?w (8 * p + k)\<close> not_le by blast
  ultimately show ?thesis using k(1) by (simp add: c_def [symmetric])
qed

lemma fastForward_spec:
  assumes shape: "table_shape t"
  shows "i \<le> slots t \<Longrightarrow> \<exists>j. fastForward t i = Inr j \<and> i \<le> j \<and> j \<le> slots t \<and> mInfo t ! j \<noteq> 0 \<and>
    (\<forall>k. i \<le> k \<longrightarrow> k < j \<longrightarrow> mInfo t ! k = 0)"
proof (induction "slots t - i" arbitrary: i rule: less_induct)
  case less
  let ?bs = "take 8 (drop i (mInfo t))"
  have len: "length (mInfo t) = slots t + 8" "info_at t (slots t) = 1" using shape_slots [OF shape] by simp_all
  have bs: "length ?bs = 8" "\<And>q. q < 8 \<Longrightarrow> ?bs ! q = mInfo t ! (i + q)" using len(1) less.prems by simp_all
  have load: "unaligned_load (mInfo t) i = Inr (le_join ?bs)"
    using len(1) less.prems by (simp add: unaligned_load_def)
  have sentinel: "mInfo t ! slots t \<noteq> 0" using len(2) by auto
  show ?case
  proof (cases "\<forall>q < 8. mInfo t ! (i + q) = 0")
    case True
    then have "b = 0" if "b \<in> set ?bs" for b using that bs by (metis in_set_conv_nth)
    then have z: "(le_join ?bs :: u64) = 0" using bs(1) le_join_zero [of ?bs] by simp
    have "i + 8 \<le> slots t"
    proof (rule ccontr)
      assume "\<not> i + 8 \<le> slots t"
      then have "slots t - i < 8" "i + (slots t - i) = slots t" using less.prems by auto
      with True sentinel show False by metis
    qed
    then have "slots t - (i + 8) < slots t - i" by linarith
    from less.hyps [OF this \<open>i + 8 \<le> slots t\<close>]
    obtain j where j: "fastForward t (i + 8) = Inr j" "i + 8 \<le> j" "j \<le> slots t" "mInfo t ! j \<noteq> 0"
        "\<forall>k. i + 8 \<le> k \<longrightarrow> k < j \<longrightarrow> mInfo t ! k = 0"
      by blast
    have "mInfo t ! k = 0" if "i \<le> k" "k < j" for k
    proof (cases "k < i + 8")
      case True
      with that \<open>\<forall>q < 8. mInfo t ! (i + q) = 0\<close> show ?thesis by (metis add_less_cancel_left le_add_diff_inverse)
    next
      case False
      with that j(5) show ?thesis by simp
    qed
    with j load z show ?thesis by (subst fastForward.simps) auto
  next
    case False
    then obtain q where q: "q < 8" "mInfo t ! (i + q) \<noteq> 0" by blast
    define p where "p = (LEAST q. mInfo t ! (i + q) \<noteq> 0)"
    have p: "mInfo t ! (i + p) \<noteq> 0" "p \<le> q"
      unfolding p_def using q(2) by (rule LeastI, rule Least_le)
    have before: "mInfo t ! (i + q) = 0" if "q < p" for q
      using not_less_Least [OF that [unfolded p_def]] by simp
    have "?bs ! q \<in> set ?bs" by (rule nth_mem) (use q(1) bs(1) in simp)
    then have nz: "(le_join ?bs :: u64) \<noteq> 0" using q(2) bs(2) [OF q(1)] bs(1) le_join_zero [of ?bs] by auto
    have "count_trailing_zeroes (le_join ?bs) div 8 = p"
      using p before q(1) bs by (intro trailing_zeroes_byte) auto
    then have run: "fastForward t i = Inr (i + p)"
      using load nz by (subst fastForward.simps) simp
    have "i + p \<le> slots t"
    proof (rule ccontr)
      assume "\<not> i + p \<le> slots t"
      then have "slots t - i < p" "i + (slots t - i) = slots t" using less.prems by auto
      with before sentinel show False by metis
    qed
    moreover have "mInfo t ! k = 0" if "i \<le> k" "k < i + p" for k
      using before [of "k - i"] that by auto
    ultimately show ?thesis using run p(1) by auto
  qed
qed

section \<open>Iteration\<close>

lemma slot_free: "mInfo t ! i = 0 \<Longrightarrow> slot t i = None"
  by (simp add: slot_def)

lemma map_filter_free:
  "(\<And>k. k \<in> set ks \<Longrightarrow> mInfo t ! k = 0) \<Longrightarrow> List.map_filter (slot t) ks = []"
  by (induction ks) (simp_all add: List.map_filter_simps slot_free)

lemma upt_split: "i \<le> j \<Longrightarrow> j \<le> n \<Longrightarrow> [i..<n] = [i..<j] @ [j..<n]"
  using upt_add_eq_append [of i j "n - j"] by simp

lemma Table_end_wf: "table_wf hash t \<Longrightarrow> Table_end t = slots t"
  using wf_not_ctor [of hash t] by (simp add: Table_end_def)

lemma skip_free:
  assumes "fastForward t i = Inr j" "i \<le> j" "j \<le> slots t" "\<forall>k. i \<le> k \<longrightarrow> k < j \<longrightarrow> mInfo t ! k = 0"
  shows "List.map_filter (slot t) [i..<slots t] = List.map_filter (slot t) [j..<slots t]"
proof -
  have "List.map_filter (slot t) [i..<j] = []" by (rule map_filter_free) (use assms(4) in simp)
  then show ?thesis by (subst upt_split [OF assms(2,3)]) simp
qed

lemma visit_spec:
  assumes wf: "table_wf hash t"
  shows "i \<le> slots t \<Longrightarrow> i = slots t \<or> mInfo t ! i \<noteq> 0 \<Longrightarrow>
    visit t i = Inr (List.map_filter (slot t) [i..<slots t])"
proof (induction "slots t - i" arbitrary: i rule: less_induct)
  case less
  have shape: "table_shape t" using wf by (simp add: table_wf_def)
  show ?case
  proof (cases "i = slots t")
    case True
    then show ?thesis by (subst visit.simps) (simp add: Table_end_wf [OF wf] List.map_filter_simps)
  next
    case False
    with less.prems have i: "i < slots t" "mInfo t ! i \<noteq> 0" by simp_all
    obtain n where n: "node_at t i = Inr n" "mKeyVals t ! i = Some n" by (rule node_at_occupied [OF wf i])
    obtain j where j: "fastForward t (i + 1) = Inr j" "i + 1 \<le> j" "j \<le> slots t" "mInfo t ! j \<noteq> 0"
        "\<forall>k. i + 1 \<le> k \<longrightarrow> k < j \<longrightarrow> mInfo t ! k = 0"
      using fastForward_spec [OF shape, of "i + 1"] i(1) by auto
    have "visit t j = Inr (List.map_filter (slot t) [j..<slots t])"
      by (rule less.hyps) (use i j in auto)
    moreover have "[i..<slots t] = i # [i + 1..<slots t]" using i(1) by (simp add: upt_conv_Cons)
    moreover have "slot t i = Some n" using n i by (simp add: slot_def)
    ultimately show ?thesis
      using skip_free [OF j(1-3,5)] False n j(1)
      by (subst visit.simps) (simp add: Table_end_wf [OF wf] Iter_inc_def List.map_filter_simps)
  qed
qed

lemma Table_begin_spec:
  assumes wf: "table_wf hash t"
  shows "\<exists>j. Table_begin t = Inr j \<and> j \<le> slots t \<and> (j = slots t \<or> mInfo t ! j \<noteq> 0) \<and>
    List.map_filter (slot t) [j..<slots t] = contents t"
proof (cases "Table_empty t")
  case True
  with wf have "contents t = []" by (simp add: Table_empty_def table_wf_def count_ok_def)
  with True show ?thesis by (simp add: Table_begin_def Table_end_wf [OF wf] List.map_filter_simps)
next
  case False
  have shape: "table_shape t" using wf by (simp add: table_wf_def)
  obtain j where j: "fastForward t 0 = Inr j" "0 \<le> j" "j \<le> slots t" "mInfo t ! j \<noteq> 0"
      "\<forall>k. 0 \<le> k \<longrightarrow> k < j \<longrightarrow> mInfo t ! k = 0"
    using fastForward_spec [OF shape, of 0] by auto
  with False skip_free [OF j(1-3,5)] contents_slots [of t] shape_slots(2) [OF shape] show ?thesis
    by (simp add: Table_begin_def)
qed

lemma Table_entries_spec:
  assumes "table_ok hash t"
  shows "Table_entries t = Inr (contents t)"
  using assms
proof (cases rule: table_okE)
  case fresh
  then show ?thesis
    by (simp add: Table_entries_def Table_begin_def Table_empty_def contents_def List.map_filter_simps visit.simps)
next
  case wf
  with Table_begin_spec [OF wf] visit_spec [OF wf] show ?thesis by (auto simp: Table_entries_def)
qed

lemma table_ok_contents:
  assumes "table_ok hash t"
  shows "distinct (map fst (contents t))" "length (contents t) = mNumElements t" "map_of (contents t) = table_map t"
    "dom (table_map t) = fst ` set (contents t)" "mNumElements t = card (dom (table_map t))"
proof -
  show d: "distinct (map fst (contents t))" and l: "length (contents t) = mNumElements t"
    using assms by (auto simp: table_wf_def count_ok_def contents_def List.map_filter_simps elim: table_okE)
  show m: "map_of (contents t) = table_map t" by (simp add: table_map_def)
  show dom: "dom (table_map t) = fst ` set (contents t)" unfolding m [symmetric] by (rule dom_map_of_conv_image_fst)
  show "mNumElements t = card (dom (table_map t))"
    unfolding dom l [symmetric] using distinct_card [OF d] by simp
qed

section \<open>Comparing\<close>

lemma has_spec: "table_ok hash t \<Longrightarrow> has hash t (k, v) = Inr (table_map t k = Some v)"
  using Table_find_spec [of hash t k] by (auto simp: has_def split: option.splits)

lemma eq_loop_visit:
  assumes "table_ok hash t"
  shows "visit other i = Inr ns \<Longrightarrow> eq_loop hash t other i = Inr (\<forall>(k, v) \<in> set ns. table_map t k = Some v)"
proof (induction other i arbitrary: ns rule: visit.induct)
  case (1 other i)
  show ?case
  proof (cases "i = Table_end other")
    case True
    with 1(2) have "ns = []" by (simp add: visit.simps [of other "Table_end other"])
    with True show ?thesis by (subst eq_loop.simps) simp
  next
    case False
    with 1(2) obtain n j ms where n: "node_at other i = Inr n" "Iter_inc other i = Inr j" "visit other j = Inr ms"
        "ns = n # ms"
      by (subst (asm) visit.simps) (auto simp: rbind_Inr_iff)
    from 1(1) [OF False n(1,2,3)] n False has_spec [OF assms, of "fst n" "snd n"] show ?thesis
      by (subst eq_loop.simps) (auto split: prod.splits)
  qed
qed

lemma map_le_card_eq:
  assumes "m \<subseteq>\<^sub>m m'" "finite (dom m')" "card (dom m') \<le> card (dom m)"
  shows "m = m'"
proof -
  have "dom m \<subseteq> dom m'" by (rule map_le_implies_dom_le [OF assms(1)])
  then have "dom m = dom m'" using card_seteq [OF assms(2)] assms(3) by simp
  with assms(1) show ?thesis by (metis map_le_antisym map_le_def)
qed

lemma Table_eq_spec:
  assumes t: "table_ok hash t" and other: "table_ok hash other"
  shows "Table_eq hash t other = Inr (table_map other = table_map t)"
proof (cases "mNumElements other = mNumElements t")
  case False
  then have "table_map other \<noteq> table_map t"
    using table_ok_contents(5) [OF t] table_ok_contents(5) [OF other] by auto
  with False show ?thesis by (simp add: Table_eq_def)
next
  case size: True
  obtain j where j: "Table_begin other = Inr j" "visit other j = Inr (contents other)"
    using Table_entries_spec [OF other] by (auto simp: Table_entries_def rbind_Inr_iff)
  note c = table_ok_contents [OF other]
  have "(\<forall>(k, v) \<in> set (contents other). table_map t k = Some v) \<longleftrightarrow> table_map other \<subseteq>\<^sub>m table_map t"
  proof -
    have "table_map other k = Some v \<longleftrightarrow> (k, v) \<in> set (contents other)" for k v
      unfolding c(3) [symmetric] by (rule map_of_eq_Some_iff [OF c(1)])
    then show ?thesis by (force simp: map_le_def)
  qed
  also have "\<dots> \<longleftrightarrow> table_map other = table_map t"
    using map_le_card_eq [of "table_map other" "table_map t"] size c(5) table_ok_contents(4,5) [OF t] by auto
  finally show ?thesis
    using size j eq_loop_visit [OF t j(2)] by (simp add: Table_eq_def)
qed

section \<open>Removal during an iteration\<close>

lemma Table_erase_at_spec:
  assumes wf: "table_wf hash t" and pos: "pos < slots t" "mInfo t ! pos \<noteq> 0" "mKeyVals t ! pos = Some (k, v)"
  shows "\<exists>j t'. Table_erase_at pos t = Inr (j, t') \<and> table_wf hash t' \<and> table_map t' = (table_map t)(k := None) \<and>
    visit t' j = Inr (List.map_filter (slot t) [pos + 1..<slots t])"
proof -
  have shape: "table_shape t" and probe: "probe_ok hash t" using wf by (simp_all add: table_wf_def)
  define r where "r = shift_end t pos"
  define t' where "t' = (removed pos r t)\<lparr>mNumElements := mNumElements t - 1\<rparr>"
  note se = shift_end_at [OF shape pos(1), folded r_def]
  have holds: "holds_key t k pos"
    using pos probe_okD [OF probe pos(1,2)] by (fastforce simp: holds_key_def)
  have wf': "table_wf hash t'" and m': "table_map t' = (table_map t)(k := None)"
    using removed_wf [OF wf holds] by (simp_all add: t'_def r_def)
  have shape': "table_shape t'" using wf' by (simp add: table_wf_def)
  have sl: "slots t' = slots t" by (simp add: t'_def removed_def)
  have run: "\<forall>j. pos < j \<longrightarrow> j \<le> r \<longrightarrow> mInfoInc t \<le> info_at t j"
    using se(4) by fastforce
  have nth: "j < slots t \<Longrightarrow> info_at t' j =
      (if j = r then 0 else if pos \<le> j \<and> j < r then info_at t (Suc j) - mInfoInc t else info_at t j)"
    "j < slots t \<Longrightarrow> mKeyVals t' ! j =
      (if j = r then None else if pos \<le> j \<and> j < r then mKeyVals t ! Suc j else mKeyVals t ! j)" for j
    using removed_nth [of t pos r j] se(1,2) run shape_slots(2) [OF shape] by (simp_all add: t'_def)
  have down: "slot t' j = slot t (Suc j)" if "pos \<le> j" "j < r" for j
  proof -
    have "2 * mInfoInc t \<le> info_at t (Suc j)" by (rule se(4)) (use that in auto)
    with that se(2) nth(1) [of j] have "info_at t' j \<noteq> 0" "info_at t (Suc j) \<noteq> 0"
      using shape_inc(1) [OF shape] by auto
    then have "mInfo t' ! j \<noteq> 0" "mInfo t ! Suc j \<noteq> 0" by auto
    with that se(2) nth(2) [of j] show ?thesis by (simp add: slot_def)
  qed
  have "unat (mInfo t' ! r) = 0" using nth(1) [of r] se(2) by simp
  then have last: "slot t' r = None" by (simp add: slot_free unat_eq_0)
  have up: "slot t' j = slot t j" if "r < j" "j < slots t" for j
  proof -
    have "mInfo t' ! j = mInfo t ! j" using nth(1) [of j] that by (simp add: word_unat_eq_iff)
    with that nth(2) [of j] show ?thesis by (simp add: slot_def)
  qed
  have "List.map_filter (slot t') [pos..<slots t] = List.map_filter (slot t) [pos + 1..<slots t]"
  proof -
    have "[pos..<slots t] = [pos..<r] @ r # [r + 1..<slots t]"
      using se(1,2) upt_split [of pos r "slots t"] by (simp add: upt_conv_Cons)
    moreover have "[pos + 1..<slots t] = map Suc [pos..<r] @ [r + 1..<slots t]"
      using se(1,2) upt_split [of "pos + 1" "r + 1" "slots t"] by (simp add: map_Suc_upt)
    moreover have "List.map_filter (slot t') [pos..<r] = List.map_filter (slot t) (map Suc [pos..<r])"
    proof -
      have "List.map_filter (slot t') [pos..<r] = List.map_filter (slot t \<circ> Suc) [pos..<r]"
        by (rule map_filter_cong) (use down in auto)
      then show ?thesis by (simp add: List.map_filter_def filter_map o_def)
    qed
    moreover have "List.map_filter (slot t') [r + 1..<slots t] = List.map_filter (slot t) [r + 1..<slots t]"
      by (rule map_filter_cong) (use up in auto)
    ultimately show ?thesis using last by (simp add: List.map_filter_simps)
  qed
  note rest = this
  have run: "Table_erase_at pos t = rbind (at_index (mInfo t') pos) (\<lambda>b.
      if b \<noteq> 0 then Inr (pos, t') else rbind (Iter_inc t' pos) (\<lambda>it. Inr (it, t')))"
  proof -
    have "mNumElements (removed pos r t) = mNumElements t" by (simp add: removed_def)
    then have "(removed pos r t)\<lparr>mNumElements := mNumElements (removed pos r t) - 1\<rparr> = t'" by (simp add: t'_def)
    then show ?thesis
      unfolding Table_erase_at_def shiftDown_spec [OF wf pos(1), folded r_def] Let_def rbind.simps by (simp only:)
  qed
  have at: "at_index (mInfo t') pos = Inr (mInfo t' ! pos)"
    using pos(1) sl by (intro at_info [OF shape']) simp
  show ?thesis
  proof (cases "mInfo t' ! pos = 0")
    case False
    then have "visit t' pos = Inr (List.map_filter (slot t') [pos..<slots t'])"
      using pos(1) sl by (intro visit_spec [OF wf']) simp_all
    with False run at wf' m' rest sl show ?thesis by simp
  next
    case True
    obtain j where j: "fastForward t' (pos + 1) = Inr j" "pos + 1 \<le> j" "j \<le> slots t'" "mInfo t' ! j \<noteq> 0"
        "\<forall>k. pos + 1 \<le> k \<longrightarrow> k < j \<longrightarrow> mInfo t' ! k = 0"
      using fastForward_spec [OF shape', of "pos + 1"] pos(1) sl by auto
    have "visit t' j = Inr (List.map_filter (slot t') [j..<slots t'])"
      by (rule visit_spec [OF wf']) (use j in simp_all)
    moreover have "List.map_filter (slot t') [pos..<slots t'] = List.map_filter (slot t') [pos + 1..<slots t']"
      using pos(1) sl True by (simp add: upt_conv_Cons List.map_filter_simps slot_free)
    ultimately show ?thesis
      using True run at wf' m' rest sl j(1) skip_free [OF j(1-3,5)] by (simp add: Iter_inc_def)
  qed
qed

section \<open>Copies and moves\<close>

lemma cloneData_wf: "table_wf hash t \<Longrightarrow> cloneData t = Inr t"
  by (simp add: cloneData_def table_wf_def table_shape_def calcNumBytesInfo_def Let_def)

lemma empty_map: "table_ok hash t \<Longrightarrow> Table_empty t \<longleftrightarrow> table_map t = Map.empty"
  using table_ok_contents [of hash t] by (auto simp: Table_empty_def)

lemma nonempty_wf: "table_ok hash t \<Longrightarrow> \<not> Table_empty t \<Longrightarrow> table_wf hash t"
  by (auto simp: table_ok_def Table_empty_def)

lemma Table_copy_spec:
  assumes "table_ok hash t"
  shows "\<exists>t'. Table_copy t = Inr t' \<and> table_ok hash t' \<and> table_map t' = table_map t"
  using assms empty_map [OF assms] nonempty_wf [OF assms] by (auto simp: Table_copy_def cloneData_wf)

lemma Table_assign_spec:
  assumes "table_ok hash t" "table_ok hash other"
  shows "\<exists>t'. Table_assign t other = Inr t' \<and> table_ok hash t' \<and> table_map t' = table_map other"
proof (cases "Table_empty other")
  case True
  have "t = Table_ctor" if "mMask t = 0" using assms(1) that wf_not_ctor [of hash t] by (auto simp: table_ok_def)
  with True empty_map [OF assms(2)] show ?thesis by (auto simp: Table_assign_def)
next
  case False
  with nonempty_wf [OF assms(2)] assms(2) show ?thesis by (simp add: Table_assign_def cloneData_wf)
qed

lemma mask_zero: "table_ok hash t \<Longrightarrow> mMask t = 0 \<longleftrightarrow> t = Table_ctor"
  using wf_not_ctor [of hash t] by (auto simp: table_ok_def)

lemma Table_move_assign_spec:
  assumes "table_ok hash t" "table_ok hash other" "Table_move_assign t other = (t', other')"
  shows "table_ok hash t' \<and> table_map t' = table_map other \<and> other' = Table_ctor"
  using assms mask_zero [OF assms(2)] Table_clear_spec [OF assms(1)]
  by (auto simp: Table_move_assign_def split: if_splits)

lemma Table_swap_spec:
  assumes "table_ok hash t" "table_ok hash other" "Table_swap t other = (t', other')"
  shows "table_ok hash t' \<and> table_ok hash other' \<and> table_map t' = table_map other \<and> table_map other' = table_map t"
proof -
  have "Table_move other = (other, Table_ctor)"
    using mask_zero [OF assms(2)] by (auto simp: Table_move_def)
  moreover obtain o1 t1 where "Table_move_assign Table_ctor t = (o1, t1)" by (cases "Table_move_assign Table_ctor t")
  moreover obtain t2 o2 where "Table_move_assign t1 other = (t2, o2)" by (cases "Table_move_assign t1 other")
  ultimately show ?thesis
    using assms(3) Table_move_assign_spec [OF ok_ctor assms(1), of o1 t1]
      Table_move_assign_spec [of hash t1 other t2 o2] assms(2)
    by (auto simp: Table_swap_def)
qed

end
