(* ===== verification/Robin_Hood_Members.thy ===== *)
theory Robin_Hood_Members
  imports Robin_Hood_Iter
begin

text \<open>
  The other members of the hash map of \<^verbatim>\<open>src/sim/robin_hood.h\<close>: \<^verbatim>\<open>operator[]\<close>, \<^verbatim>\<open>emplace\<close>, \<^verbatim>\<open>try_emplace\<close>,
  \<^verbatim>\<open>insert_or_assign\<close>, the insertion of a range, \<^verbatim>\<open>count\<close>, \<^verbatim>\<open>contains\<close>, \<^verbatim>\<open>at\<close>, \<^verbatim>\<open>reserve\<close> and \<^verbatim>\<open>rehash\<close>. The
  value that a new element gets when none is given is the argument \<open>def_value\<close>.
\<close>

section \<open>Look-ups\<close>

definition Table_count :: "('k \<Rightarrow> u64) \<Rightarrow> ('k, 'v) Table \<Rightarrow> 'k \<Rightarrow> fault + nat" where
  "Table_count hash t key =
     rbind (findIdx hash t key) (\<lambda>kv. Inr (if kv \<noteq> Table_end t then 1 else 0))"

definition Table_contains :: "('k \<Rightarrow> u64) \<Rightarrow> ('k, 'v) Table \<Rightarrow> 'k \<Rightarrow> fault + bool" where
  "Table_contains hash t key = rbind (Table_count hash t key) (\<lambda>n. Inr (1 = n))"

definition Table_at :: "('k \<Rightarrow> u64) \<Rightarrow> ('k, 'v) Table \<Rightarrow> 'k \<Rightarrow> fault + 'v" where
  "Table_at hash t key =
     rbind (findIdx hash t key) (\<lambda>kv.
       if kv = Table_end t then Inl (StdThrow ''key not found'')
       else rbind (node_at t kv) (\<lambda>n. Inr (snd n)))"

section \<open>Insertions\<close>

text \<open>The code of \<^verbatim>\<open>doCreateByKey\<close> is that of \<^verbatim>\<open>doInsert\<close>; the reference it returns is the slot of the key.\<close>

fun doCreateByKey :: "('k \<Rightarrow> u64) \<Rightarrow> 'v \<Rightarrow> 'k \<Rightarrow> nat \<Rightarrow> (('k, 'v) Table, nat) M" where
  "doCreateByKey hash def_value key 0 = raise (OutOfFuel InsertLoop)"
| "doCreateByKey hash def_value key (Suc fuel) =
     bnd (gets (\<lambda>t. t)) (\<lambda>t.
     let (info, idx) = keyToIdx hash t key
     in bnd (lift (nextWhileLess t info idx)) (\<lambda>(info, idx).
        bnd (lift (match_loop t key info idx)) (\<lambda>(found, info, idx).
        if found then ret idx
        else if mNumElements t \<ge> mMaxNumElementsAllowed t
        then bnd (increase_size hash) (\<lambda>_. doCreateByKey hash def_value key fuel)
        else bnd (lift (place (key, def_value) info idx t)) (\<lambda>t.
             bnd (put t) (\<lambda>_. ret idx)))))"

definition Table_index :: "('k \<Rightarrow> u64) \<Rightarrow> 'v \<Rightarrow> 'k \<Rightarrow> (('k, 'v) Table, nat) M" where
  "Table_index hash def_value key = doCreateByKey hash def_value key 4"

definition Table_emplace :: "('k \<Rightarrow> u64) \<Rightarrow> 'k \<times> 'v \<Rightarrow> (('k, 'v) Table, nat \<times> bool) M" where
  "Table_emplace hash n = doInsert hash n 4"

definition try_emplace_impl :: "('k \<Rightarrow> u64) \<Rightarrow> 'k \<Rightarrow> 'v \<Rightarrow> (('k, 'v) Table, nat \<times> bool) M" where
  "try_emplace_impl hash key arg =
     bnd (gets (\<lambda>t. t)) (\<lambda>t.
     bnd (lift (Table_find hash t key)) (\<lambda>it.
       if it = Table_end t then Table_emplace hash (key, arg) else ret (it, False)))"

definition insert_or_assign_impl :: "('k \<Rightarrow> u64) \<Rightarrow> 'k \<Rightarrow> 'v \<Rightarrow> (('k, 'v) Table, nat \<times> bool) M" where
  "insert_or_assign_impl hash key obj =
     bnd (gets (\<lambda>t. t)) (\<lambda>t.
     bnd (lift (Table_find hash t key)) (\<lambda>it.
       if it = Table_end t then Table_emplace hash (key, obj)
       else bnd (lift (node_at t it)) (\<lambda>n.
            bnd (lift (set_node it (Some (fst n, obj)) t)) (\<lambda>t.
            bnd (put t) (\<lambda>_. ret (it, False))))))"

fun insert_range :: "('k \<Rightarrow> u64) \<Rightarrow> ('k \<times> 'v) list \<Rightarrow> (('k, 'v) Table, unit) M" where
  "insert_range hash [] = ret ()"
| "insert_range hash (n # ns) = bnd (Table_insert hash n) (\<lambda>_. insert_range hash ns)"

definition Table_of_range :: "('k \<Rightarrow> u64) \<Rightarrow> ('k \<times> 'v) list \<Rightarrow> (fault + unit) \<times> ('k, 'v) Table" where
  "Table_of_range hash ns = insert_range hash ns Table_ctor"

section \<open>Reserving\<close>

text \<open>The new size doubles in 64 bits; it becomes 0 when no size is large enough.\<close>

definition odd_powers :: "nat \<Rightarrow> nat set" where
  "odd_powers n = {j. j \<le> 64 \<and> \<not> 2 ^ j dvd n}"

lemma odd_powers_double:
  assumes "\<not> 2 ^ 64 dvd n"
  shows "odd_powers (n * 2 mod 2 ^ 64) \<subset> odd_powers n"
proof -
  have same: "2 ^ j dvd n * 2 mod 2 ^ 64 \<longleftrightarrow> 2 ^ j dvd n * 2" if "j \<le> 64" for j
    by (rule dvd_mod_iff) (use that in \<open>simp only: le_imp_power_dvd\<close>)
  define j where "j = (LEAST j. \<not> 2 ^ j dvd n)"
  have j: "\<not> 2 ^ j dvd n" "j \<le> 64"
    unfolding j_def using assms by (rule LeastI, rule Least_le)
  then obtain i where i: "j = Suc i" by (cases j) auto
  have "2 ^ i dvd n" using not_less_Least [of i "\<lambda>j. \<not> 2 ^ j dvd n"] i unfolding j_def by simp
  then have "2 ^ j dvd n * 2" unfolding i by (simp add: mult.commute)
  with j same [of j] have "j \<in> odd_powers n - odd_powers (n * 2 mod 2 ^ 64)" by (simp add: odd_powers_def)
  moreover have "2 ^ k dvd n * 2" if "2 ^ k dvd n" for k using that by (rule dvd_mult2)
  then have "odd_powers (n * 2 mod 2 ^ 64) \<subseteq> odd_powers n" using same by (auto simp: odd_powers_def)
  ultimately show ?thesis by blast
qed

function reserve_size :: "nat \<Rightarrow> nat \<Rightarrow> nat" where
  "reserve_size minElementsAllowed newSize =
     (if calcMaxNumElementsAllowed newSize < minElementsAllowed \<and> newSize \<noteq> 0
      then reserve_size minElementsAllowed (newSize * 2 mod 2 ^ 64) else newSize)"
  by pat_completeness auto
termination
proof (relation "measure (\<lambda>(m, n). if n = 0 then 0 else Suc (card (odd_powers n)))", goal_cases)
  case (2 m n)
  have "finite (odd_powers n)" by (rule finite_subset [of _ "{..64}"]) (auto simp: odd_powers_def)
  moreover have "n * 2 mod 2 ^ 64 = 0" if "2 ^ 64 dvd n" using that by (simp add: mod_eq_0_iff_dvd)
  ultimately show ?case
    using 2 psubset_card_mono [OF _ odd_powers_double [of n]] by (cases "2 ^ 64 dvd n") simp_all
qed simp

declare reserve_size.simps [simp del]

definition reserve_impl :: "('k \<Rightarrow> u64) \<Rightarrow> nat \<Rightarrow> bool \<Rightarrow> (('k, 'v) Table, unit) M" where
  "reserve_impl hash c forceRehash =
     bnd (gets (\<lambda>t. t)) (\<lambda>t.
     let newSize = reserve_size (max c (mNumElements t)) InitialNumElements
     in if newSize = 0 then throwOverflowError
        else if forceRehash \<or> newSize > mMask t + 1 then rehashPowerOfTwo hash newSize
        else ret ())"

definition Table_rehash :: "('k \<Rightarrow> u64) \<Rightarrow> nat \<Rightarrow> (('k, 'v) Table, unit) M" where
  "Table_rehash hash c = reserve_impl hash c True"

definition Table_reserve :: "('k \<Rightarrow> u64) \<Rightarrow> nat \<Rightarrow> (('k, 'v) Table, unit) M" where
  "Table_reserve hash c = reserve_impl hash c False"

section \<open>What they do\<close>

lemma Table_count_spec: "table_ok hash t \<Longrightarrow> Table_count hash t k = Inr (if table_map t k = None then 0 else 1)"
  using Table_find_spec [of hash t k] by (auto simp: Table_count_def Table_find_def split: option.splits)

lemma Table_contains_spec: "table_ok hash t \<Longrightarrow> Table_contains hash t k = Inr (table_map t k \<noteq> None)"
  by (simp add: Table_contains_def Table_count_spec)

lemma Table_at_spec:
  "table_ok hash t \<Longrightarrow> Table_at hash t k =
    (case table_map t k of None \<Rightarrow> Inl (StdThrow ''key not found'') | Some v \<Rightarrow> Inr v)"
  using Table_find_spec [of hash t k] by (auto simp: Table_at_def Table_find_def split: option.splits)

lemma doCreateByKey_doInsert:
  "doCreateByKey hash v k fuel = bnd (doInsert hash (k, v) fuel) (\<lambda>(idx, new). ret idx)"
proof (induction fuel)
  case 0
  then show ?case by (simp add: fun_eq_iff bnd_def raise_def)
next
  case (Suc fuel)
  show ?case
    unfolding doCreateByKey.simps doInsert.simps Suc.IH
    by (rule ext) (auto simp: bnd_def gets_def lift_def ret_def Let_def split: prod.splits sum.splits)
qed

lemma Table_index_insert: "Table_index hash v k = bnd (Table_insert hash (k, v)) (\<lambda>(idx, new). ret idx)"
  by (simp add: Table_index_def Table_insert_def doCreateByKey_doInsert)

lemma Table_emplace_insert: "Table_emplace = Table_insert"
  by (intro ext) (simp add: Table_emplace_def Table_insert_def)

text \<open>A new value in the slot of a key.\<close>

lemma set_value_wf:
  fixes v :: 'v
  assumes wf: "table_wf hash t" and i: "i < slots t" "mInfo t ! i \<noteq> 0" "mKeyVals t ! i = Some (k, v0)"
  defines "t' \<equiv> t\<lparr>mKeyVals := (mKeyVals t)[i := Some (k, v)]\<rparr>"
  shows "table_wf hash t'" and "table_map t' = (table_map t)(k \<mapsto> v)"
proof -
  have shape: "table_shape t" and cnt: "count_ok t" using wf by (simp_all add: table_wf_def)
  have same: "slots t' = slots t" "mInfo t' = mInfo t" "mMask t' = mMask t" "mInfoInc t' = mInfoInc t"
    "mInfoHashShift t' = mInfoHashShift t" "mNumElements t' = mNumElements t"
    "mMaxNumElementsAllowed t' = mMaxNumElementsAllowed t"
    by (simp_all add: t'_def)
  have hp: "home hash t' = home hash t" "probe hash t' = probe hash t" by (rule home_cong; simp add: t'_def)+
  define A where "A = List.map_filter (slot t) [0..<i]"
  define B where "B = List.map_filter (slot t) [i + 1..<slots t]"
  have split: "[0..<slots t] = [0..<i] @ i # [i + 1..<slots t]"
    using i(1) upt_split [of 0 i "slots t"] by (simp add: upt_conv_Cons)
  have C: "contents t = A @ (k, v0) # B"
    using i shape_slots(2) [OF shape] by (simp add: contents_slots split A_def B_def List.map_filter_simps slot_def)
  have "List.map_filter (slot t') [0..<i] = A" "List.map_filter (slot t') [i + 1..<slots t] = B"
    unfolding A_def B_def by (rule map_filter_cong; simp add: slot_def t'_def)+
  then have C': "contents t' = A @ (k, v) # B"
    using i shape_slots(2) [OF shape] same(1,2)
    by (simp add: contents_slots split List.map_filter_simps) (simp add: slot_def t'_def)
  have dist: "distinct (map fst (contents t))" using cnt by (simp add: count_ok_def)
  have "distinct (map fst (contents t'))" "length (contents t') = length (contents t)"
    using dist by (simp_all add: C C')
  then have "count_ok t'" using cnt same by (simp add: count_ok_def room_ok_def)
  moreover have "probe_ok hash t'"
    unfolding probe_ok_def
  proof (intro allI impI)
    fix j assume j: "j < slots t'" "mInfo t' ! j \<noteq> 0"
    then obtain n where "mKeyVals t ! j = Some n" "home hash t (fst n) \<le> j" "info_at t j = probe hash t (fst n) j"
      using wf probe_okD [of hash t j] by (auto simp: table_wf_def same)
    moreover have "mKeyVals t' ! j = (if j = i then Some (k, v) else mKeyVals t ! j)"
      using i(1) by (simp add: t'_def)
    ultimately show "\<exists>n. mKeyVals t' ! j = Some n \<and> home hash t' (fst n) \<le> j \<and> info_at t' j = probe hash t' (fst n) j"
      using i(3) unfolding hp same by (cases "j = i") auto
  qed
  moreover have "table_shape t'" "steps_ok t'"
    using shape wf by (simp_all add: table_shape_def steps_ok_def table_wf_def same)
  ultimately show wf': "table_wf hash t'" by (simp add: table_wf_def)
  have "k \<notin> fst ` set A" using dist by (auto simp: C)
  then have "map_of A k = None" by (simp add: map_of_eq_None_iff)
  then show "table_map t' = (table_map t)(k \<mapsto> v)"
    by (auto simp: table_map_def C C' map_add_def fun_eq_iff split: option.split)
qed

text \<open>What an insertion that keeps an old value, and one that replaces it, promise.\<close>

lemma try_emplace_spec:
  fixes t :: "(u32, 'v) Table"
  assumes ok: "table_ok hash t"
  shows "case try_emplace_impl hash k v t of
      (Inr r, t') \<Rightarrow> table_ok hash t' \<and> snd r = (table_map t k = None) \<and>
        table_map t' = (if snd r then (table_map t)(k \<mapsto> v) else table_map t) \<and>
        mNumElements t' = mNumElements t + (if snd r then 1 else 0) \<and>
        (mNumElements t \<le> 125 \<longrightarrow> calm t \<longrightarrow> calm t')
    | (Inl e, t') \<Rightarrow> e = overflow \<and> \<not> (mNumElements t \<le> 125 \<and> calm t)"
proof (cases "table_map t k")
  case None
  then have "try_emplace_impl hash k v t = Table_insert hash (k, v) t"
    using Table_find_spec [OF ok, of k] by (auto simp: try_emplace_impl_def Table_emplace_insert)
  with Table_insert_spec [OF ok, of k v] show ?thesis
    by (auto simp: inserted_ok_def table_ok_def split: prod.splits sum.splits)
next
  case (Some w)
  then obtain i where "try_emplace_impl hash k v t = (Inr (i, False), t)"
    using Table_find_spec [OF ok, of k] by (auto simp: try_emplace_impl_def ret_def)
  with ok Some show ?thesis by simp
qed

lemma insert_or_assign_spec:
  fixes t :: "(u32, 'v) Table"
  assumes ok: "table_ok hash t"
  shows "case insert_or_assign_impl hash k v t of
      (Inr r, t') \<Rightarrow> table_ok hash t' \<and> snd r = (table_map t k = None) \<and> table_map t' = (table_map t)(k \<mapsto> v) \<and>
        mNumElements t' = mNumElements t + (if snd r then 1 else 0) \<and>
        (mNumElements t \<le> 125 \<longrightarrow> calm t \<longrightarrow> calm t')
    | (Inl e, t') \<Rightarrow> e = overflow \<and> \<not> (mNumElements t \<le> 125 \<and> calm t)"
proof (cases "table_map t k")
  case None
  then have "insert_or_assign_impl hash k v t = Table_insert hash (k, v) t"
    using Table_find_spec [OF ok, of k] by (auto simp: insert_or_assign_impl_def Table_emplace_insert)
  with None Table_insert_spec [OF ok, of k v] show ?thesis
    by (auto simp: inserted_ok_def table_ok_def split: prod.splits sum.splits)
next
  case (Some w)
  then have wf: "table_wf hash t" using ok by (auto simp: table_ok_def)
  obtain i where i: "i < slots t" "mInfo t ! i \<noteq> 0" "mKeyVals t ! i = Some (k, w)" "Table_find hash t k = Inr i"
    "i \<noteq> Table_end t"
    using find_occupied [OF wf Some] by blast
  let ?t' = "t\<lparr>mKeyVals := (mKeyVals t)[i := Some (k, v)]\<rparr>"
  have "insert_or_assign_impl hash k v t = (Inr (i, False), ?t')"
    using i by (simp add: insert_or_assign_impl_def node_at_def set_node_def put_def bnd_Inr)
  with set_value_wf [OF wf i(1-3), of v] Some show ?thesis by (simp add: table_ok_def calm_def)
qed

section \<open>Reserving keeps the map and makes room\<close>

lemma reserve_size_spec:
  "m \<le> 2 ^ 33 \<Longrightarrow> 8 \<le> n \<Longrightarrow> n \<le> 2 ^ 35 \<Longrightarrow>
    8 \<le> reserve_size m n \<and> reserve_size m n \<le> 2 ^ 35 \<and> m \<le> calcMaxNumElementsAllowed (reserve_size m n)"
proof (induction m n rule: reserve_size.induct)
  case (1 m n)
  show ?case
  proof (cases "calcMaxNumElementsAllowed n < m")
    case True
    then have "n * 80 div 100 < m" using 1(4) calcMax_small [of n] by simp
    then have "n * 80 div 100 < 2 ^ 33" using 1(2) by (rule less_le_trans)
    then have "n * 2 \<le> 2 ^ 35" by simp
    with 1 True show ?thesis by (subst (1 2 3) reserve_size.simps) simp
  next
    case False
    with 1 show ?thesis by (subst (1 2 3) reserve_size.simps) simp
  qed
qed

lemma calcMax_mono: "a \<le> b \<Longrightarrow> b \<le> 2 ^ 36 \<Longrightarrow> calcMaxNumElementsAllowed a \<le> calcMaxNumElementsAllowed b"
  by (simp add: calcMax_small div_le_mono)

lemma reserve_spec:
  assumes ok: "table_ok hash t" and small: "c \<le> 2 ^ 33" "mNumElements t \<le> 2 ^ 33"
  shows "case reserve_impl hash c force t of
      (Inr _, t') \<Rightarrow> table_wf hash t' \<and> table_map t' = table_map t \<and> mNumElements t' = mNumElements t \<and>
        c \<le> calcMaxNumElementsAllowed (mMask t' + 1) \<and> (mNumElements t \<le> 126 \<longrightarrow> calm t \<longrightarrow> calm t')
    | (Inl e, t') \<Rightarrow> e = overflow \<and> \<not> mNumElements t \<le> 126"
proof -
  define N where "N = reserve_size (max c (mNumElements t)) 8"
  have N: "8 \<le> N" "N \<le> 2 ^ 35" "max c (mNumElements t) \<le> calcMaxNumElementsAllowed N"
    using reserve_size_spec [of "max c (mNumElements t)" 8] small by (simp_all add: N_def)
  have run: "reserve_impl hash c force t =
      (if force \<or> mMask t + 1 < N then rehashPowerOfTwo hash N t else (Inr (), t))"
    using N(1) by (simp add: reserve_impl_def N_def [symmetric] ret_def Let_def)
  from ok show ?thesis
  proof (cases rule: table_okE)
    case fresh
    then have "reserve_impl hash c force t = (Inr (), init_data N)"
      unfolding run using N(1) by (simp add: rehashPowerOfTwo_def calcNumElementsWithBuffer_def calcMax_small put_def ret_def)
    with fresh N init_data_wf(1) [OF N(1,2), where hash = hash and 'v = 'b] init_data_wf(2) [OF N(1,2), where 'k = 'a and 'v = 'b] show ?thesis by (simp add: calm_def)
  next
    case wf
    then have "mMask t + 1 \<le> 2 ^ 36" by (simp add: table_wf_def table_shape_def)
    show ?thesis
    proof (cases "force \<or> mMask t + 1 < N")
      case True
      with run rehash_to_spec [OF wf N(1,2)] N(3) show ?thesis by (auto split: prod.splits sum.splits)
    next
      case False
      then have "calcMaxNumElementsAllowed N \<le> calcMaxNumElementsAllowed (mMask t + 1)"
        by (intro calcMax_mono) (use \<open>mMask t + 1 \<le> 2 ^ 36\<close> in simp_all)
      with False run wf N(3) show ?thesis by simp
    qed
  qed
qed

lemma insert_range_spec:
  fixes t :: "(u32, 'v) Table"
  shows "table_ok hash t \<Longrightarrow> insert_range hash ns t = (Inr (), t') \<Longrightarrow>
    table_ok hash t' \<and> table_map t' = map_of ns ++ table_map t"
proof (induction ns arbitrary: t)
  case (Cons n ns)
  obtain r t1 where t1: "Table_insert hash n t = (Inr r, t1)" "insert_range hash ns t1 = (Inr (), t')"
    using Cons.prems(2) by (auto simp: bnd_def split: prod.splits sum.splits)
  with Table_insert_spec [OF Cons.prems(1), of "fst n" "snd n"] have ins: "inserted_ok hash (fst n) (snd n) r t t1" by simp
  then have "table_ok hash t1" by (simp add: inserted_ok_def table_ok_def)
  with Cons.IH t1(2) have "table_ok hash t'" "table_map t' = map_of ns ++ table_map t1" by blast+
  with ins show ?case
    by (cases n) (auto simp: inserted_ok_def map_add_def fun_eq_iff split: option.splits if_splits)
qed simp

end
