(* ===== verification/Robin_Hood_Map.thy ===== *)
theory Robin_Hood_Map
  imports Robin_Hood_Members Requests
begin

text \<open>
  What the hash map promises its client. \<open>map_step\<close> is the finite map it stands for, \<open>table_step\<close>
  the requests as the client makes them: a look-up compares the iterator it gets with \<^verbatim>\<open>end()\<close>
  before it reads the node. The requests are all members that look up or change a map by keys; the
  elements to reserve room for are at most \<open>2 ^ 32\<close>, so that the memory for them is thinkable.
\<close>

datatype ('k, 'v) request = Find 'k | Insert 'k 'v | Erase 'k | Clear
  | Index 'k 'v | Try_emplace 'k 'v | Insert_or_assign 'k 'v | Contains 'k | Reserve u32 | Rehash u32

datatype 'v answer = Found "'v option" | Inserted bool | Erased nat | Done

fun may_insert :: "('k, 'v) request \<Rightarrow> bool" where
  "may_insert (Insert _ _) = True"
| "may_insert (Index _ _) = True"
| "may_insert (Try_emplace _ _) = True"
| "may_insert (Insert_or_assign _ _) = True"
| "may_insert _ = False"

fun map_step :: "('k, 'v) request \<Rightarrow> ('k \<rightharpoonup> 'v) \<Rightarrow> 'v answer \<times> ('k \<rightharpoonup> 'v)" where
  "map_step (Find k) m = (Found (m k), m)"
| "map_step (Insert k v) m = (if m k = None then (Inserted True, m(k \<mapsto> v)) else (Inserted False, m))"
| "map_step (Erase k) m = (Erased (if m k = None then 0 else 1), m(k := None))"
| "map_step Clear m = (Done, Map.empty)"
| "map_step (Index k v) m = (case m k of None \<Rightarrow> (Found (Some v), m(k \<mapsto> v)) | Some w \<Rightarrow> (Found (Some w), m))"
| "map_step (Try_emplace k v) m = (if m k = None then (Inserted True, m(k \<mapsto> v)) else (Inserted False, m))"
| "map_step (Insert_or_assign k v) m = (Inserted (m k = None), m(k \<mapsto> v))"
| "map_step (Contains k) m = (Inserted (m k \<noteq> None), m)"
| "map_step (Reserve c) m = (Done, m)"
| "map_step (Rehash c) m = (Done, m)"

definition table_lookup :: "('k \<Rightarrow> u64) \<Rightarrow> ('k, 'v) Table \<Rightarrow> 'k \<Rightarrow> fault + 'v option" where
  "table_lookup hash t k =
     rbind (Table_find hash t k) (\<lambda>it.
       if it = Table_end t then Inr None else rbind (node_at t it) (\<lambda>n. Inr (Some (snd n))))"

text \<open>A step that only reads the table.\<close>

definition query :: "(('k, 'v) Table \<Rightarrow> fault + 'a) \<Rightarrow> (('k, 'v) Table, 'a) M" where
  "query f = bnd (gets (\<lambda>t. t)) (\<lambda>t. lift (f t))"

fun table_step :: "('k \<Rightarrow> u64) \<Rightarrow> ('k, 'v) request \<Rightarrow> (('k, 'v) Table, 'v answer) M" where
  "table_step hash (Find k) = bnd (query (\<lambda>t. table_lookup hash t k)) (\<lambda>r. ret (Found r))"
| "table_step hash (Insert k v) =
     bnd (Table_insert hash (k, v)) (\<lambda>(it, new). ret (Inserted new))"
| "table_step hash (Erase k) =
     bnd (query (Table_erase hash k)) (\<lambda>(n, t). bnd (put t) (\<lambda>_. ret (Erased n)))"
| "table_step hash Clear =
     bnd (gets (\<lambda>t. t)) (\<lambda>t. bnd (put (Table_clear t)) (\<lambda>_. ret Done))"
| "table_step hash (Index k v) =
     bnd (Table_index hash v k) (\<lambda>it. bnd (query (\<lambda>t. node_at t it)) (\<lambda>n. ret (Found (Some (snd n)))))"
| "table_step hash (Try_emplace k v) =
     bnd (try_emplace_impl hash k v) (\<lambda>(it, new). ret (Inserted new))"
| "table_step hash (Insert_or_assign k v) =
     bnd (insert_or_assign_impl hash k v) (\<lambda>(it, new). ret (Inserted new))"
| "table_step hash (Contains k) = bnd (query (\<lambda>t. Table_contains hash t k)) (\<lambda>b. ret (Inserted b))"
| "table_step hash (Reserve c) = bnd (Table_reserve hash (unat c)) (\<lambda>_. ret Done)"
| "table_step hash (Rehash c) = bnd (Table_rehash hash (unat c)) (\<lambda>_. ret Done)"

lemma table_lookup_spec:
  assumes "table_ok hash t"
  shows "table_lookup hash t k = Inr (table_map t k)"
  using Table_find_spec [OF assms, of k]
  by (auto simp: table_lookup_def split: option.splits)

lemma query_eq: "query f t = (f t, t)"
  by (cases "f t") (simp_all add: query_def lift_def)

lemma bnd_cases:
  "bnd m f t = (case m t of (Inl e, t') \<Rightarrow> (Inl e, t') | (Inr a, t') \<Rightarrow> f a t')"
  by (simp add: bnd_def)

text \<open>All that the contract asks of a step, in one statement.\<close>

definition step_spec ::
  "('k \<Rightarrow> u64) \<Rightarrow> ('k, 'v) request \<Rightarrow> ('k, 'v) Table \<Rightarrow> (fault + 'v answer) \<times> ('k, 'v) Table \<Rightarrow> bool"
where
  "step_spec hash r t x \<longleftrightarrow> (case x of
     (Inr a, t') \<Rightarrow> table_ok hash t' \<and> map_step r (table_map t) = (a, table_map t') \<and>
       mNumElements t' \<le> mNumElements t + (if may_insert r then 1 else 0) \<and>
       (mNumElements t + (if may_insert r then 1 else 0) \<le> 126 \<longrightarrow> calm t \<longrightarrow> calm t')
   | (Inl e, t') \<Rightarrow> e = overflow \<and> \<not> (mNumElements t + (if may_insert r then 1 else 0) \<le> 126 \<and> calm t))"

lemma table_step_spec:
  fixes t :: "(u32, 'v) Table"
  assumes ok: "table_ok hash t"
  shows "step_spec hash r t (table_step hash r t)"
proof (cases r)
  case (Find k)
  with ok show ?thesis by (simp add: step_spec_def bnd_cases query_eq table_lookup_spec ret_def)
next
  case (Insert k v)
  with Table_insert_spec [OF ok, of k v] show ?thesis
    by (auto simp: step_spec_def bnd_cases ret_def inserted_ok_def table_ok_def split: prod.splits sum.splits)
next
  case (Erase k)
  with Table_erase_spec [OF ok, of k] show ?thesis by (auto simp: step_spec_def bnd_cases query_eq put_def ret_def)
next
  case Clear
  with Table_clear_spec [OF ok] show ?thesis by (auto simp: step_spec_def put_def)
next
  case (Index k v)
  with Table_insert_spec [OF ok, of k v] show ?thesis
    by (auto simp: step_spec_def bnd_cases query_eq ret_def Table_index_insert inserted_ok_def table_ok_def
        split: prod.splits sum.splits option.splits)
next
  case (Try_emplace k v)
  with try_emplace_spec [OF ok, of k v] show ?thesis
    by (auto simp: step_spec_def bnd_cases ret_def split: prod.splits sum.splits)
next
  case (Insert_or_assign k v)
  with insert_or_assign_spec [OF ok, of k v] show ?thesis
    by (auto simp: step_spec_def bnd_cases ret_def split: prod.splits sum.splits)
next
  case (Contains k)
  with ok show ?thesis by (simp add: step_spec_def bnd_cases query_eq Table_contains_spec ret_def)
next
  case (Reserve c)
  have "unat c \<le> 2 ^ 33" "mNumElements t \<le> 2 ^ 33" using unsigned_less [of c, where ?'a = nat] keys_bound [OF ok] by simp_all
  from Reserve reserve_spec [OF ok this, of False] show ?thesis
    by (auto simp: step_spec_def bnd_cases ret_def Table_reserve_def table_ok_def split: prod.splits sum.splits)
next
  case (Rehash c)
  have "unat c \<le> 2 ^ 33" "mNumElements t \<le> 2 ^ 33" using unsigned_less [of c, where ?'a = nat] keys_bound [OF ok] by simp_all
  from Rehash reserve_spec [OF ok this, of True] show ?thesis
    by (auto simp: step_spec_def bnd_cases ret_def Table_rehash_def table_ok_def split: prod.splits sum.splits)
qed

interpretation table: answering_small "table_step hash" map_step
  "table_ok hash :: (u32, 'v) Table \<Rightarrow> bool" table_map "\<lambda>e. e = overflow"
  mNumElements "\<lambda>r :: (u32, 'v) request. if may_insert r then 1 else 0" 126 calm
  for hash
proof unfold_locales
  fix t :: "(u32, 'v) Table" and r :: "(u32, 'v) request" and a t'
  assume "table_ok hash t" "table_step hash r t = (Inr a, t')"
  with table_step_spec [of hash t r] show "table_ok hash t' \<and> map_step r (table_map t) = (a, table_map t')"
    by (simp add: step_spec_def)
next
  fix t :: "(u32, 'v) Table" and r :: "(u32, 'v) request" and e t'
  assume "table_ok hash t" "table_step hash r t = (Inl e, t')"
  with table_step_spec [of hash t r] show "e = overflow" by (simp add: step_spec_def)
next
  fix t :: "(u32, 'v) Table" and r :: "(u32, 'v) request"
  assume "table_ok hash t" "calm t" "mNumElements t + (if may_insert r then 1 else 0) \<le> 126"
  with table_step_spec [of hash t r] show "\<exists>a t'. table_step hash r t = (Inr a, t') \<and> calm t' \<and>
      mNumElements t' \<le> mNumElements t + (if may_insert r then 1 else 0)"
    by (auto simp: step_spec_def split: prod.splits sum.splits)
qed

section \<open>Crowded tables\<close>

text \<open>The eight bits of an info byte allow at most 127 keys with the same home.\<close>

lemma home_limit:
  assumes wf: "table_wf hash t"
  shows "card {k. table_map t k \<noteq> None \<and> home hash t k = h} \<le> 127"
proof -
  have shape: "table_shape t" and probe: "probe_ok hash t" using wf by (simp_all add: table_wf_def)
  define K where "K = {k. table_map t k \<noteq> None \<and> home hash t k = h}"
  define key where "key = (\<lambda>i. fst (the (mKeyVals t ! i)))"
  have "K \<subseteq> key ` {h..<h + 127}"
  proof
    fix k assume "k \<in> K"
    then obtain i v where i: "i < slots t" "mInfo t ! i \<noteq> 0" "mKeyVals t ! i = Some (k, v)"
      and h: "home hash t k = h"
      by (auto simp: K_def table_map_Some [OF wf])
    obtain n where n: "mKeyVals t ! i = Some n" "home hash t (fst n) \<le> i"
        "info_at t i = probe hash t (fst n) i"
      by (rule probe_okD [OF probe i(1,2)])
    have "mInfoInc t * (i - h + 1) \<le> info_at t i"
      using n i(3) h by (auto simp: probe_def keyToIdx_def Let_def distrib_left)
    moreover have "2 * (i - h + 1) \<le> mInfoInc t * (i - h + 1)"
      using shape_inc(1) [OF shape] by (rule mult_le_mono1)
    ultimately have "2 * (i - h + 1) \<le> 255" using byte_le [of "mInfo t ! i"] by linarith
    then have "i < h + 127" by simp
    with n i(3) h show "k \<in> key ` {h..<h + 127}"
      by (intro image_eqI [of _ _ i]) (auto simp: key_def)
  qed
  then have "card K \<le> card (key ` {h..<h + 127})" by (rule card_mono [rotated]) simp
  also have "\<dots> \<le> card {h..<h + 127}" by (rule card_image_le) simp
  finally show ?thesis by (simp add: K_def)
qed

lemma few_buckets_home:
  assumes "few_buckets t" and "drop_bit 5 (hash k) AND 511 = drop_bit 5 (hash k') AND 511"
  shows "home hash t k = home hash t k'"
proof -
  have "(of_nat (mMask t) :: u64) = 511 AND of_nat (mMask t)"
    using assms(1) by (auto simp: few_buckets_def)
  then have "drop_bit 5 h AND of_nat (mMask t) = (drop_bit 5 h AND 511) AND of_nat (mMask t)" for h :: u64
    by (metis and.assoc)
  with assms(2) show ?thesis
    by (simp add: home_def keyToIdx_def Let_def)
qed

lemma crowd_limit:
  assumes t: "table_ok hash t" "few_buckets t" and ks: "distinct ks" "set ks \<subseteq> dom (table_map t)"
    "\<forall>k \<in> set ks. drop_bit 5 (hash k) AND 511 = b"
  shows "length ks \<le> 127"
proof (cases "ks = []")
  case False
  define k where "k = hd ks"
  have k: "k \<in> set ks" using False by (simp add: k_def)
  then have wf: "table_wf hash t" using t(1) ks(2) by (auto simp: table_ok_def)
  have "home hash t k' = home hash t k" if "k' \<in> set ks" for k'
    using ks(3) that k by (intro few_buckets_home [OF t(2)]) simp
  then have sub: "set ks \<subseteq> {k'. table_map t k' \<noteq> None \<and> home hash t k' = home hash t k}"
    using ks(2) by auto
  have "finite {k'. table_map t k' \<noteq> None \<and> home hash t k' = home hash t k}"
    by (rule finite_subset [of _ "dom (table_map t)"]) (auto simp: table_map_def finite_dom_map_of)
  then have "card (set ks) \<le> card {k'. table_map t k' \<noteq> None \<and> home hash t k' = home hash t k}"
    by (rule card_mono [OF _ sub])
  with home_limit [OF wf, of "home hash t k"] have "card (set ks) \<le> 127" by linarith
  with ks(1) show ?thesis by (simp add: distinct_card)
qed simp

lemma insert_many:
  fixes t :: "(u32, 'v) Table"
  assumes "table_ok hash t" and "few_buckets t" and "mNumElements t + length ks \<le> 128"
    and "requests (table_step hash) (map (\<lambda>k. Insert k (f k)) ks) t = (Inr as, t')"
  shows "table_ok hash t' \<and> few_buckets t' \<and> dom (table_map t') = dom (table_map t) \<union> set ks"
  using assms
proof (induction ks arbitrary: t as)
  case Nil
  then show ?case by simp
next
  case (Cons k ks)
  obtain a bs t1 where step: "table_step hash (Insert k (f k)) t = (Inr a, t1)"
      "requests (table_step hash) (map (\<lambda>k. Insert k (f k)) ks) t1 = (Inr bs, t')"
    using Cons.prems(4) by (auto elim: requests_InrE simp del: requests.simps)
  obtain r where r: "inserted_ok hash k (f k) r t t1"
    using step(1) Table_insert_spec [OF Cons.prems(1), of k "f k"]
    by (auto simp: bnd_def split: prod.splits sum.splits)
  have "few_buckets t1" "table_ok hash t1" "mNumElements t1 + length ks \<le> 128"
    using r Cons.prems(2,3) by (auto simp: inserted_ok_def table_ok_def)
  from Cons.IH [OF this(2,1,3) step(2)] r show ?case
    by (auto simp: inserted_ok_def split: if_splits)
qed

text \<open>C15: Any sequence of look-ups, insertions (\<^verbatim>\<open>insert\<close>, \<^verbatim>\<open>operator[]\<close>, \<^verbatim>\<open>try_emplace\<close>, \<^verbatim>\<open>insert_or_assign\<close>),
  removals, clears and reservations, started on an empty hash map with 32-bit keys and any hash
  function, gets the answers of a finite map and leaves the contents of that map, unless it ends in
  \<^verbatim>\<open>std::overflow_error\<close>, which needs more than 126 insertions. In
  particular no operation reads or writes outside the arrays or reads a slot without a node.\<close>

theorem table_refines_map:
  "case requests (table_step hash) rs (Table_ctor :: (u32, 'v) Table) of
     (Inr as, t) \<Rightarrow> spec_requests map_step rs Map.empty = (as, table_map t)
   | (Inl e, t) \<Rightarrow> e = overflow \<and> 126 < length (filter may_insert rs)"
proof (cases "requests (table_step hash) rs (Table_ctor :: (u32, 'v) Table)")
  case (Pair r t)
  have "sum_list (map (\<lambda>r. if may_insert r then 1 else 0) rs) = length (filter may_insert rs)"
    by (induction rs) auto
  with table.requests_total [of hash Table_ctor rs] have "length (filter may_insert rs) \<le> 126 \<Longrightarrow> \<exists>as. r = Inr as"
    using Pair by auto
  with Pair table.requests_answered [of hash Table_ctor rs _ t] table.requests_fault [of hash Table_ctor rs _ t]
  show ?thesis by (cases r) (auto simp flip: not_le)
qed

text \<open>C26: A table with 32-bit keys that satisfies the class invariant has at most \<open>2 ^ 32\<close> elements,
  fewer than \<open>2 ^ 35\<close> buckets and fewer than \<open>2 ^ 36\<close> slots, and so do all tables reached by
  requests: no count or index of the hash map leaves its 64 bits.\<close>

theorem table_sizes_bounded:
  "case requests (table_step hash) rs (Table_ctor :: (u32, 'v) Table) of
     (Inr as, t) \<Rightarrow> mNumElements t \<le> 2 ^ 32 \<and> mNumElements t \<le> calcMaxNumElementsAllowed (mMask t + 1) \<and>
       mMask t < 2 ^ 35 \<and> length (mInfo t) < 2 ^ 36 \<and> mInfoInc t \<in> {2, 4, 8, 16, 32}
   | (Inl e, t) \<Rightarrow> True"
proof (cases "requests (table_step hash) rs (Table_ctor :: (u32, 'v) Table)")
  case (Pair r t)
  show ?thesis
  proof (cases r)
    case (Inr as)
    with Pair have ok: "table_ok hash t"
      using table.requests_answered [of hash Table_ctor rs as t] by simp
    then show ?thesis
    proof (cases rule: table_okE)
      case fresh
      with Pair Inr show ?thesis by simp
    next
      case wf
      then have shape: "table_shape t" and "count_ok t" by (simp_all add: table_wf_def)
      have m: "mMask t < 2 ^ 35" using shape by (simp add: table_shape_def)
      moreover have "length (mInfo t) < 2 ^ 36"
        using shape m by (auto simp: table_shape_def calcNumElementsWithBuffer_def min_def)
      moreover have "mInfoInc t \<in> {2, 4, 8, 16, 32}"
        using shape_inc(3) [OF shape] shape by (auto simp: table_shape_def)
      ultimately show ?thesis
        using Pair Inr \<open>count_ok t\<close> keys_bound [OF ok] by (simp add: count_ok_def)
    qed
  qed (simp add: Pair)
qed

text \<open>C27: Iterating over a table that requests reach meets every element of its map exactly once, and
  therefore \<^verbatim>\<open>operator==\<close> on two such tables, whatever their histories, sizes and weights of a step, tells
  whether they stand for the same map.\<close>

theorem iteration_decides_equality:
  "case (requests (table_step hash) rs (Table_ctor :: (u32, 'v) Table), requests (table_step hash) rs' Table_ctor) of
     ((Inr _, t), (Inr _, t')) \<Rightarrow>
       (\<exists>es. Table_entries t = Inr es \<and> distinct (map fst es) \<and> map_of es = snd (spec_requests map_step rs Map.empty)) \<and>
       Table_eq hash t t' =
         Inr (snd (spec_requests map_step rs' Map.empty) = snd (spec_requests map_step rs Map.empty))
   | _ \<Rightarrow> True"
proof (cases "requests (table_step hash) rs (Table_ctor :: (u32, 'v) Table)")
  case t: (Pair r t)
  show ?thesis
  proof (cases "requests (table_step hash) rs' (Table_ctor :: (u32, 'v) Table)")
    case t': (Pair r' t')
    show ?thesis
    proof (cases "\<exists>as as'. r = Inr as \<and> r' = Inr as'")
      case True
      with t t' have ok: "table_ok hash t" "snd (spec_requests map_step rs Map.empty) = table_map t"
        and ok': "table_ok hash t'" "snd (spec_requests map_step rs' Map.empty) = table_map t'"
        using table.requests_answered [of hash Table_ctor rs _ t] table.requests_answered [of hash Table_ctor rs' _ t']
        by auto
      with True t t' Table_entries_spec [OF ok(1)] table_ok_contents(1,3) [OF ok(1)] Table_eq_spec [OF ok(1) ok'(1)]
      show ?thesis by auto
    next
      case False
      with t t' show ?thesis by (auto split: sum.split)
    qed
  qed
qed

text \<open>C29: The insertion of 128 different keys whose hash values agree in nine bits ends in
  \<^verbatim>\<open>std::overflow_error\<close>: the table grows to 512 buckets at most before it gives up.\<close>

theorem crowded_table_overflows:
  assumes "distinct ks" and "length ks = 128"
    and "\<forall>k \<in> set ks. drop_bit 5 (hash k) AND 511 = b"
  shows "fst (requests (table_step hash) (map (\<lambda>k. Insert k (f k)) ks) (Table_ctor :: (u32, 'v) Table)) =
    Inl overflow"
proof (cases "requests (table_step hash) (map (\<lambda>k. Insert k (f k)) ks) (Table_ctor :: (u32, 'v) Table)")
  case (Pair r t)
  show ?thesis
  proof (cases r)
    case (Inl e)
    with Pair table.requests_fault [of hash Table_ctor _ e t] show ?thesis by simp
  next
    case (Inr as)
    with Pair assms(2) insert_many [of hash Table_ctor ks f as t]
    have t: "table_ok hash t" "few_buckets t" "dom (table_map t) = set ks"
      by (auto simp: few_buckets_def)
    then have "length ks \<le> 127"
      by (intro crowd_limit [OF t(1,2) assms(1) _ assms(3)]) simp
    with assms(2) show ?thesis by simp
  qed
qed

text \<open>
  Addresses of instructions in the first 512 KiB of the memory whose hash values agree in this
  way: a guest program that jumps to all of them overflows the map of the trace cache.
\<close>

definition crowd :: "u32 list" where
  "crowd = [
    4, 320, 3196, 6072, 6388, 9264, 12140, 12456, 15332, 15648, 18524, 21400, 21716, 24592,
     27468, 27784, 30660, 33536, 33852, 36728, 39920, 42796, 43112, 45988, 48864, 49180, 52056,
     54932, 55248, 58124, 61000, 61316, 64192, 64508, 67384, 70260, 70576, 73452, 76328, 76644,
     79520, 82396, 82712, 85588, 88780, 91656, 91972, 94848, 97724, 98040, 100916, 103792,
     104108, 106984, 109860, 110176, 113052, 113368, 116244, 119120, 119436, 122312, 125188,
     125504, 128380, 131256, 131572, 134448, 137640, 140516, 140832, 143708, 146584, 146900,
     149776, 152652, 152968, 155844, 158720, 159036, 161912, 162228, 165104, 167980, 168296,
     171172, 174048, 174364, 177240, 180116, 180432, 183308, 186500, 189376, 189692, 192568,
     195444, 195760, 198636, 201512, 201828, 204704, 207580, 207896, 210772, 211088, 213964,
     216840, 217156, 220032, 222908, 223224, 226100, 228976, 229292, 232168, 235360, 238236,
     238552, 241428, 244304, 244620, 247496, 250372, 250688, 253564, 256756, 259632]"

lemma crowd_hash: "list_all (\<lambda>k. drop_bit 5 (hash_u32 k) AND 511 = 447) crowd"
  by code_simp

lemma crowd_increasing: "successively (<) crowd"
  by code_simp

lemma distinct_crowd: "distinct crowd"
  using crowd_increasing by (simp add: successively_conv_sorted_wrt strict_sorted_iff)

theorem crowded_table_overflows_witness:
  "fst (requests (table_step hash_u32) (map (\<lambda>k. Insert k ()) crowd) Table_ctor) = Inl overflow"
proof (rule crowded_table_overflows)
  show "distinct crowd" by (rule distinct_crowd)
  show "length crowd = 128" by code_simp
  show "\<forall>k \<in> set crowd. drop_bit 5 (hash_u32 k) AND 511 = 447"
    using crowd_hash by (simp add: list_all_iff)
qed

end
