(* ===== verification/LRU_Map.thy ===== *)
theory LRU_Map
  imports Prelude
begin

text \<open>
  The reference for the cache of \<^verbatim>\<open>src/sim/common.h\<close>, with a finite map in the place of the hash map.

  \<^verbatim>\<open>LRUCache\<close> keeps a \<^verbatim>\<open>std::list\<close> of key-value pairs, most recent first, and a hash map from keys to
  iterators into that list. \<open>LRU_Cache\<close> models the class as it is written, on the hash map of
  \<^verbatim>\<open>src/sim/robin_hood.h\<close>; it shares with this theory the splice of a node, \<open>take_node\<close>, and nothing else of the
  program is built on these definitions. They
  say what a request does as long as the map takes the link, and the cache is proved against them.

  An iterator is the identity of the list node it points to: every node gets a fresh number when
  it is emplaced and keeps it when it is spliced, so that a look-up through an iterator whose node
  is gone is a fault, not a value.

  \<open>mc_wf\<close> is the class invariant, \<open>lru_spec\<close> the abstract cache on plain association lists,
  \<open>lru_recent\<close> says which keys it holds: the most recently requested ones, and \<open>cache\<close> is the
  interface that the MMU and the simulator rely on.
\<close>

record ('k, 'v) MapCache =
  mc_entries :: "(nat \<times> 'k \<times> 'v) list"
  mc_links :: "'k \<rightharpoonup> nat"
  mc_max_size :: u64
  mc_cur_size :: u64
  mc_next_node :: nat

definition MapCache_ctor :: "u64 \<Rightarrow> ('k, 'v) MapCache" where
  "MapCache_ctor max_size = \<lparr>mc_entries = [], mc_links = Map.empty, mc_max_size = max_size,
     mc_cur_size = 0, mc_next_node = 0\<rparr>"

definition MapCache_clear :: "('k, 'v) MapCache \<Rightarrow> ('k, 'v) MapCache" where
  "MapCache_clear c = c\<lparr>mc_entries := [], mc_links := Map.empty, mc_cur_size := 0\<rparr>"

definition map_insert :: "'k \<Rightarrow> 'a \<Rightarrow> ('k \<rightharpoonup> 'a) \<Rightarrow> ('k \<rightharpoonup> 'a)" where
  "map_insert k x m = (case m k of None \<Rightarrow> m(k \<mapsto> x) | Some _ \<Rightarrow> m)"

text \<open>Not in the cache: take a free place or evict the last entry.\<close>

definition MapCache_make_room :: "('k, 'v) MapCache \<Rightarrow> fault + ('k, 'v) MapCache" where
  "MapCache_make_room c =
     (if mc_cur_size c < mc_max_size c
      then Inr (c\<lparr>mc_cur_size := mc_cur_size c + 1\<rparr>)
      else case mc_entries c of
             [] \<Rightarrow> Inl (Undefined EmptyBack)
           | _ # _ \<Rightarrow>
               Inr (c\<lparr>mc_links := (mc_links c)(fst (snd (last (mc_entries c))) := None),
                      mc_entries := butlast (mc_entries c)\<rparr>))"

text \<open>\<^verbatim>\<open>splice(begin(), entries_, it)\<close>: the node moves to the front.\<close>

fun take_node :: "nat \<Rightarrow> (nat \<times> 'b) list \<Rightarrow> ((nat \<times> 'b) \<times> (nat \<times> 'b) list) option" where
  "take_node it [] = None"
| "take_node it (e # es) =
     (if fst e = it then Some (e, es)
      else map_option (\<lambda>(x, rest). (x, e # rest)) (take_node it es))"

text \<open>
  The result is a reference to the value, that is its node, and whether the value is new.
\<close>

definition MapCache_insert ::
  "'k \<Rightarrow> ('s, 'v) M \<Rightarrow> ('k, 'v) MapCache \<Rightarrow> 's \<Rightarrow> (fault + nat \<times> bool) \<times> ('k, 'v) MapCache \<times> 's"
where
  "MapCache_insert key mk c s =
     (case mc_links c key of
        None \<Rightarrow>
          (case MapCache_make_room c of
             Inl e \<Rightarrow> (Inl e, c, s)
           | Inr c \<Rightarrow>
               (case mk s of
                  (Inl e, s) \<Rightarrow> (Inl e, c, s)
                | (Inr v, s) \<Rightarrow>
                    let n = mc_next_node c in
                    (Inr (n, True),
                     c\<lparr>mc_entries := (n, key, v) # mc_entries c,
                       mc_links := map_insert key n (mc_links c),
                       mc_next_node := Suc n\<rparr>, s)))
      | Some it \<Rightarrow>
          (case take_node it (mc_entries c) of
             None \<Rightarrow> (Inl (Undefined DanglingIterator), c, s)
           | Some (e, rest) \<Rightarrow>
               (Inr (fst e, False),
                c\<lparr>mc_entries := e # rest, mc_links := (mc_links c)(key \<mapsto> fst e)\<rparr>, s)))"

text \<open>Reading and assigning through a reference into the cache.\<close>

definition MapCache_deref :: "('k, 'v) MapCache \<Rightarrow> nat \<Rightarrow> fault + 'v" where
  "MapCache_deref c n =
     (case map_of (mc_entries c) n of None \<Rightarrow> Inl (Undefined UseAfterFree) | Some (k, v) \<Rightarrow> Inr v)"

definition MapCache_assign :: "nat \<Rightarrow> 'v \<Rightarrow> ('k, 'v) MapCache \<Rightarrow> ('k, 'v) MapCache" where
  "MapCache_assign n v c =
     c\<lparr>mc_entries := map (\<lambda>(i, k, w). (i, k, if i = n then v else w)) (mc_entries c)\<rparr>"

section \<open>The class invariant\<close>

definition mc_abs :: "('k, 'v) MapCache \<Rightarrow> ('k \<times> 'v) list" where
  "mc_abs c = map snd (mc_entries c)"

definition mc_wf :: "('k, 'v) MapCache \<Rightarrow> bool" where
  "mc_wf c \<longleftrightarrow>
     distinct (map fst (mc_entries c)) \<and> distinct (map fst (mc_abs c)) \<and>
     mc_links c = map_of (map (\<lambda>(n, k, v). (k, n)) (mc_entries c)) \<and>
     unat (mc_cur_size c) = length (mc_entries c) \<and> mc_cur_size c \<le> mc_max_size c \<and>
     (\<forall>e \<in> set (mc_entries c). fst e < mc_next_node c)"

lemma mc_wf_ctor [simp]: "mc_wf (MapCache_ctor n)"
  by (simp add: mc_wf_def MapCache_ctor_def mc_abs_def)

lemma mc_wf_clear [simp]: "mc_wf (MapCache_clear c)"
  by (simp add: mc_wf_def MapCache_clear_def mc_abs_def)

lemma mc_abs_ctor [simp]: "mc_abs (MapCache_ctor n) = []"
  by (simp add: mc_abs_def MapCache_ctor_def)

lemma mc_abs_clear [simp]: "mc_abs (MapCache_clear c) = []"
  by (simp add: mc_abs_def MapCache_clear_def)

lemma max_size_ctor [simp]: "mc_max_size (MapCache_ctor n) = n"
  by (simp add: MapCache_ctor_def)

lemma mc_max_size_clear [simp]: "mc_max_size (MapCache_clear c) = mc_max_size c"
  by (simp add: MapCache_clear_def)

lemma length_mc_abs [simp]: "length (mc_abs c) = length (mc_entries c)"
  by (simp add: mc_abs_def)

lemma mc_wf_length: "mc_wf c \<Longrightarrow> length (mc_abs c) \<le> unat (mc_max_size c)"
  by (auto simp: mc_wf_def word_le_nat_alt)

section \<open>The abstract cache\<close>

text \<open>
  A cache of \<open>cap\<close> entries as an association list. A request for a cached key moves its pair
  to the front; a request for another key puts a new pair there and drops the last pair of a
  full cache.
\<close>

definition lru_spec :: "nat \<Rightarrow> 'k \<Rightarrow> 'v \<Rightarrow> ('k \<times> 'v) list \<Rightarrow> ('k \<times> 'v) list" where
  "lru_spec cap k v xs =
     (case map_of xs k of
        Some old \<Rightarrow> (k, old) # filter (\<lambda>p. fst p \<noteq> k) xs
      | None \<Rightarrow> (k, v) # (if length xs < cap then xs else butlast xs))"

lemma take_node_eq:
  "distinct (map fst es) \<Longrightarrow>
    take_node it es = map_option (\<lambda>b. ((it, b), filter (\<lambda>x. fst x \<noteq> it) es)) (map_of es it)"
proof (induction es)
  case Nil
  then show ?case by simp
next
  case (Cons e es)
  show ?case
  proof (cases "fst e = it")
    case True
    moreover have "fst e \<notin> fst ` set es" using Cons.prems by simp
    then have "filter (\<lambda>x. fst x \<noteq> it) es = es"
      using True by (metis (mono_tags, lifting) filter_True image_eqI)
    ultimately show ?thesis by (cases e) simp
  next
    case False
    with Cons show ?thesis by (cases e) (auto simp: option.map_comp comp_def)
  qed
qed

lemma length_filter_node:
  "distinct (map fst es) \<Longrightarrow> map_of es n = Some b \<Longrightarrow>
    Suc (length (filter (\<lambda>x. fst x \<noteq> n) es)) = length es"
proof (induction es)
  case Nil
  then show ?case by simp
next
  case (Cons e es)
  show ?case
  proof (cases "fst e = n")
    case True
    then have "n \<notin> fst ` set es" using Cons.prems(1) by auto
    then have "filter (\<lambda>x. fst x \<noteq> n) es = es"
      by (metis (mono_tags, lifting) filter_True image_eqI)
    with True show ?thesis by simp
  next
    case False
    with Cons show ?thesis by (cases e) auto
  qed
qed

lemma set_lru_spec:
  "set (lru_spec cap k v xs) \<subseteq> insert (k, case map_of xs k of Some old \<Rightarrow> old | None \<Rightarrow> v) (set xs)"
  by (auto simp: lru_spec_def split: option.splits if_splits dest: in_set_butlastD)

text \<open>The links of a list of nodes, and what becomes of them when a node goes.\<close>

abbreviation links_of :: "(nat \<times> 'k \<times> 'v) list \<Rightarrow> 'k \<rightharpoonup> nat" where
  "links_of es \<equiv> map_of (map (\<lambda>(n, k, v). (k, n)) es)"

lemma keys_links_of [simp]: "fst ` (\<lambda>(n, k, v). (k, n)) ` set es = fst ` snd ` set es"
  by (force simp: image_image split_beta)

lemma links_of_None: "links_of es k = None \<longleftrightarrow> map_of (map snd es) k = None"
  by (simp add: map_of_eq_None_iff)

lemma links_of_Some:
  assumes "distinct (map fst es)" "distinct (map fst (map snd es))" "links_of es k = Some n"
  obtains v where "map_of es n = Some (k, v)" "map_of (map snd es) k = Some v"
proof -
  from map_of_SomeD [OF assms(3)] obtain v where "(n, k, v) \<in> set es" by auto
  moreover from this have "(k, v) \<in> set (map snd es)" by force
  ultimately show thesis
    using assms(1,2) that by (simp only: map_of_is_SomeI)
qed

lemma links_of_butlast:
  assumes "distinct (map fst (map snd es))" "es \<noteq> []"
  shows "links_of (butlast es) = (links_of es)(fst (snd (last es)) := None)"
proof -
  obtain xs n k v where es: "es = xs @ [(n, k, v)]"
    using assms(2) by (metis append_butlast_last_id surj_pair)
  then have "k \<notin> fst ` snd ` set xs" using assms(1) by (auto simp: image_image)
  then have "links_of xs k = None" by (simp add: map_of_eq_None_iff image_image split_beta)
  then show ?thesis by (auto simp: es map_add_def fun_eq_iff split: option.splits)
qed

lemma links_of_move_front:
  assumes "distinct (map fst es)" "distinct (map fst (map snd es))" "map_of es n = Some (k, v)"
  shows "links_of ((n, k, v) # filter (\<lambda>x. fst x \<noteq> n) es) = links_of es"
proof
  fix k'
  have "(n, k, v) \<in> set es" using assms(3) by (rule map_of_SomeD)
  show "links_of ((n, k, v) # filter (\<lambda>x. fst x \<noteq> n) es) k' = links_of es k'"
  proof (cases "k' = k")
    case True
    have "(k, n) \<in> set (map (\<lambda>(n, k, v). (k, n)) es)" using \<open>(n, k, v) \<in> set es\<close> by force
    moreover have "distinct (map fst (map (\<lambda>(n, k, v). (k, n)) es))"
      using assms(2) by (simp add: comp_def split_beta)
    ultimately show ?thesis using True by (simp only: map_of_is_SomeI) simp
  next
    case False
    have "map_of (map (\<lambda>(n, k, v). (k, n)) (filter (\<lambda>x. fst x \<noteq> n) es)) k' = links_of es k'"
      if "\<forall>e \<in> set es. fst e = n \<longrightarrow> fst (snd e) \<noteq> k'"
      using that by (induction es) auto
    moreover have "\<forall>e \<in> set es. fst e = n \<longrightarrow> fst (snd e) \<noteq> k'"
      using assms(1) \<open>(n, k, v) \<in> set es\<close> False by (metis eq_key_imp_eq_value fst_conv prod.collapse)
    ultimately show ?thesis using False by simp
  qed
qed

lemma lru_filter_node:
  assumes "distinct (map fst es)" "distinct (map fst (map snd es))" "map_of es n = Some (k, v)"
  shows "map snd (filter (\<lambda>x. fst x \<noteq> n) es) = filter (\<lambda>p. fst p \<noteq> k) (map snd es)"
proof -
  have in_es: "(n, k, v) \<in> set es" using assms(3) by (rule map_of_SomeD)
  have "fst e = n \<longleftrightarrow> fst (snd e) = k" if "e \<in> set es" for e
  proof
    assume "fst e = n"
    then show "fst (snd e) = k"
      using assms(1) in_es that by (metis eq_key_imp_eq_value fst_conv prod.collapse)
  next
    assume "fst (snd e) = k"
    moreover have "inj_on (\<lambda>x. fst (snd x)) (set es)"
      using assms(2) by (simp add: distinct_map comp_def)
    ultimately have "e = (n, k, v)"
      using in_es that by (metis (no_types, lifting) fst_conv inj_onD snd_conv)
    then show "fst e = n" by simp
  qed
  then show ?thesis by (auto simp: filter_map comp_def intro!: arg_cong [where f = "map snd"] filter_cong)
qed

section \<open>The implementation refines the abstract cache\<close>

lemma mc_hit:
  assumes wf: "mc_wf c" and "map_of (mc_abs c) key = Some v"
  obtains it c' where "MapCache_insert key mk c s = (Inr (it, False), c', s)" "mc_wf c'"
    "mc_abs c' = lru_spec cap key w (mc_abs c)" "MapCache_deref c' it = Inr v"
    "mc_max_size c' = mc_max_size c"
proof -
  let ?es = "mc_entries c"
  have d: "distinct (map fst ?es)" "distinct (map fst (map snd ?es))" and l: "mc_links c = links_of ?es"
    using wf by (auto simp: mc_wf_def mc_abs_def)
  have "links_of ?es key \<noteq> None"
    using assms(2) unfolding links_of_None by (simp add: mc_abs_def)
  then obtain it where it: "links_of ?es key = Some it" by auto
  from links_of_Some [OF d it] assms(2) have m: "map_of ?es it = Some (key, v)"
    by (auto simp: mc_abs_def)
  let ?es' = "(it, key, v) # filter (\<lambda>x. fst x \<noteq> it) ?es"
  let ?c' = "c\<lparr>mc_entries := ?es', mc_links := (mc_links c)(key \<mapsto> it)\<rparr>"
  have in_es: "(it, key, v) \<in> set ?es" using m by (rule map_of_SomeD)
  have ab: "map snd ?es' = lru_spec cap key w (mc_abs c)"
    using lru_filter_node [OF d m] assms(2) by (simp add: lru_spec_def mc_abs_def)
  have up: "(links_of ?es)(key \<mapsto> it) = links_of ?es" using it by (auto simp: fun_eq_iff)
  have len: "length ?es' = length ?es"
    using length_filter_node [OF d(1)] m by simp
  show thesis
  proof (rule that)
    show "MapCache_insert key mk c s = (Inr (it, False), ?c', s)"
      by (simp add: MapCache_insert_def l it take_node_eq [OF d(1)] m)
    show "mc_abs ?c' = lru_spec cap key w (mc_abs c)"
      using ab by (simp add: mc_abs_def)
    show "mc_wf ?c'"
      using wf links_of_move_front [OF d m] len d(2) in_es lru_filter_node [OF d m]
      unfolding mc_wf_def
      by (auto simp: mc_abs_def l up distinct_map_filter)
    show "MapCache_deref ?c' it = Inr v" by (simp add: MapCache_deref_def)
  qed simp
qed

lemma mc_make_room:
  assumes wf: "mc_wf c" and pos: "0 < mc_max_size c"
  obtains c1 where "MapCache_make_room c = Inr c1"
    "mc_entries c1 = (if length (mc_entries c) < unat (mc_max_size c) then mc_entries c
       else butlast (mc_entries c))"
    "mc_links c1 = links_of (mc_entries c1)" "mc_max_size c1 = mc_max_size c"
    "unat (mc_cur_size c1) = Suc (length (mc_entries c1))" "mc_cur_size c1 \<le> mc_max_size c1"
    "mc_next_node c1 = mc_next_node c"
proof (cases "mc_cur_size c < mc_max_size c")
  case True
  have "unat (mc_cur_size c + 1) = Suc (unat (mc_cur_size c))"
    using True unsigned_less [of "mc_max_size c", where ?'a = nat]
    by (simp add: unat_word_ariths word_less_nat_alt)
  with True wf show thesis
    by (intro that [of "c\<lparr>mc_cur_size := mc_cur_size c + 1\<rparr>"])
      (auto simp: MapCache_make_room_def mc_wf_def word_less_nat_alt word_le_nat_alt)
next
  case False
  then have eq: "mc_cur_size c = mc_max_size c" using wf by (auto simp: mc_wf_def)
  then have "length (mc_entries c) = unat (mc_max_size c)" using wf by (auto simp: mc_wf_def)
  moreover from this pos have "mc_entries c \<noteq> []" by (auto simp: word_less_nat_alt)
  moreover from this obtain e es where "mc_entries c = e # es" by (meson neq_Nil_conv)
  ultimately show thesis
    using False wf eq links_of_butlast [of "mc_entries c"]
    by (intro that [of "c\<lparr>mc_links := (mc_links c)(fst (snd (last (mc_entries c))) := None),
                      mc_entries := butlast (mc_entries c)\<rparr>"])
      (auto simp: MapCache_make_room_def mc_wf_def mc_abs_def)
qed

lemma mc_miss:
  assumes wf: "mc_wf c" and pos: "0 < mc_max_size c" and "map_of (mc_abs c) key = None"
    and mk: "mk s = (Inr v, s')"
  obtains n c' where "MapCache_insert key mk c s = (Inr (n, True), c', s')" "mc_wf c'"
    "mc_abs c' = lru_spec (unat (mc_max_size c)) key v (mc_abs c)" "MapCache_deref c' n = Inr v"
    "mc_max_size c' = mc_max_size c"
proof -
  have d: "distinct (map fst (mc_entries c))" "distinct (map fst (mc_abs c))"
    and l: "mc_links c = links_of (mc_entries c)" and nx: "\<forall>e \<in> set (mc_entries c). fst e < mc_next_node c"
    using wf by (auto simp: mc_wf_def)
  have none: "mc_links c key = None"
    unfolding l links_of_None using assms(3) by (simp add: mc_abs_def)
  obtain c1 where c1: "MapCache_make_room c = Inr c1"
    "mc_entries c1 = (if length (mc_entries c) < unat (mc_max_size c) then mc_entries c
       else butlast (mc_entries c))"
    "mc_links c1 = links_of (mc_entries c1)" "mc_max_size c1 = mc_max_size c"
    "unat (mc_cur_size c1) = Suc (length (mc_entries c1))" "mc_cur_size c1 \<le> mc_max_size c1"
    "mc_next_node c1 = mc_next_node c"
    using mc_make_room [OF wf pos] .
  let ?c' = "c1\<lparr>mc_entries := (mc_next_node c1, key, v) # mc_entries c1,
       mc_links := map_insert key (mc_next_node c1) (mc_links c1), mc_next_node := Suc (mc_next_node c1)\<rparr>"
  have sub: "set (mc_entries c1) \<subseteq> set (mc_entries c)"
    by (auto simp: c1(2) dest: in_set_butlastD)
  have ab1: "mc_abs c1 = (if length (mc_abs c) < unat (mc_max_size c) then mc_abs c else butlast (mc_abs c))"
    by (simp add: mc_abs_def c1(2) map_butlast)
  have "key \<notin> fst ` set (mc_abs c)"
    using assms(3) by (simp add: map_of_eq_None_iff)
  then have none1: "key \<notin> fst ` set (mc_abs c1)"
    by (auto simp: ab1 dest: in_set_butlastD)
  then have "links_of (mc_entries c1) key = None"
    unfolding links_of_None by (simp add: mc_abs_def map_of_eq_None_iff)
  then have links: "map_insert key (mc_next_node c1) (mc_links c1) = links_of (mc_entries ?c')"
    by (simp add: map_insert_def c1(3))
  show thesis
  proof (rule that)
    show "MapCache_insert key mk c s = (Inr (mc_next_node c1, True), ?c', s')"
      by (simp add: MapCache_insert_def none c1(1) mk Let_def)
    show "mc_abs ?c' = lru_spec (unat (mc_max_size c)) key v (mc_abs c)"
      using ab1 assms(3) by (simp add: lru_spec_def mc_abs_def)
    have "distinct (map fst (mc_entries c1))" "distinct (map fst (mc_abs c1))"
      using d by (simp_all add: c1(2) ab1 map_butlast distinct_butlast)
    moreover have "\<forall>e \<in> set (mc_entries c1). fst e < mc_next_node c1"
      using nx sub c1(7) by auto
    ultimately show "mc_wf ?c'"
      using c1(3-6) none1 links unfolding mc_wf_def by (auto simp: mc_abs_def)
    show "MapCache_deref ?c' (mc_next_node c1) = Inr v" by (simp add: MapCache_deref_def)
  qed (simp add: c1)
qed

lemma mc_fail:
  assumes wf: "mc_wf c" and pos: "0 < mc_max_size c" and "map_of (mc_abs c) key = None"
    and mk: "mk s = (Inl e, s')"
  obtains c' where "MapCache_insert key mk c s = (Inl e, c', s')"
proof -
  have none: "mc_links c key = None"
    using wf assms(3) links_of_None [of "mc_entries c" key] by (simp add: mc_wf_def mc_abs_def)
  obtain c1 where "MapCache_make_room c = Inr c1"
    using mc_make_room [OF wf pos] .
  with none mk show thesis by (intro that [of c1]) (simp add: MapCache_insert_def)
qed

section \<open>The interface the clients use\<close>

text \<open>
  What the MMU and the simulator rely on. A request answers with a reference to the value of
  its key; the value comes from the cache, or from the constructor, which then ran exactly
  once. A request fails only with the exception of the constructor, or with \<open>full\<close> when the
  constructor has returned and the cache cannot take the new key. A roomy cache with fewer keys
  than \<open>limit\<close>, or a capacity of at most \<open>limit\<close>, takes it and stays roomy.
\<close>

locale cache =
  fixes insert :: "'k \<Rightarrow> ('s, 'v) M \<Rightarrow> 'c \<Rightarrow> 's \<Rightarrow> (fault + 'r \<times> bool) \<times> 'c \<times> 's"
    and contents :: "'c \<Rightarrow> ('k \<times> 'v) list"
    and deref :: "'c \<Rightarrow> 'r \<Rightarrow> fault + 'v"
    and invar :: "'c \<Rightarrow> bool"
    and capacity :: "'c \<Rightarrow> nat"
    and full :: fault
    and roomy :: "'c \<Rightarrow> bool"
    and limit :: nat
  assumes cache_hit: "\<lbrakk>invar c; map_of (contents c) k = Some v\<rbrakk> \<Longrightarrow>
      \<exists>r c'. insert k mk c s = (Inr (r, False), c', s) \<and> invar c' \<and> deref c' r = Inr v \<and>
        capacity c' = capacity c \<and> contents c' = lru_spec (capacity c) k v (contents c) \<and>
        (roomy c \<longrightarrow> roomy c')"
    and cache_miss: "\<lbrakk>invar c; map_of (contents c) k = None; mk s = (Inr v, s')\<rbrakk> \<Longrightarrow>
      (\<exists>r c'. insert k mk c s = (Inr (r, True), c', s') \<and> invar c' \<and> deref c' r = Inr v \<and>
        capacity c' = capacity c \<and> contents c' = lru_spec (capacity c) k v (contents c) \<and>
        (roomy c \<and> (length (contents c) < limit \<or> capacity c \<le> limit) \<longrightarrow> roomy c')) \<or>
      (\<exists>c'. insert k mk c s = (Inl full, c', s') \<and>
        \<not> (roomy c \<and> (length (contents c) < limit \<or> capacity c \<le> limit)))"
    and cache_fail: "\<lbrakk>invar c; map_of (contents c) k = None; mk s = (Inl e, s')\<rbrakk> \<Longrightarrow>
      \<exists>c'. insert k mk c s = (Inl e, c', s')"
begin

text \<open>The cache has no place for a new key, or may have none.\<close>

definition tight :: "'c \<Rightarrow> bool" where
  "tight c \<longleftrightarrow> \<not> (roomy c \<and> (length (contents c) < limit \<or> capacity c \<le> limit))"

text \<open>The outcomes of a request.\<close>

lemma insert_cases:
  assumes "invar c"
  obtains (hit) r c' v where "map_of (contents c) k = Some v"
      "insert k mk c s = (Inr (r, False), c', s)" "invar c'" "deref c' r = Inr v"
      "capacity c' = capacity c" "contents c' = lru_spec (capacity c) k v (contents c)"
      "roomy c \<longrightarrow> roomy c'"
  | (miss) r c' v s' where "map_of (contents c) k = None" "mk s = (Inr v, s')"
      "insert k mk c s = (Inr (r, True), c', s')" "invar c'" "deref c' r = Inr v"
      "capacity c' = capacity c" "contents c' = lru_spec (capacity c) k v (contents c)"
      "\<not> tight c \<longrightarrow> roomy c'"
  | (fail) e c' s' where "map_of (contents c) k = None" "mk s = (Inl e, s')"
      "insert k mk c s = (Inl e, c', s')"
  | (overfull) c' v s' where "map_of (contents c) k = None" "mk s = (Inr v, s')"
      "insert k mk c s = (Inl full, c', s')" "tight c"
proof (cases "map_of (contents c) k")
  case None
  note none = this
  show thesis
  proof (cases "mk s")
    case (Pair r s')
    then show thesis
    proof (cases r)
      case (Inl e)
      with cache_fail [OF assms none, of mk s e s'] Pair that(3) none show thesis by auto
    next
      case (Inr v)
      with Pair have mk: "mk s = (Inr v, s')" by simp
      from cache_miss [where mk = mk, OF assms none mk] show thesis
      proof (elim disjE exE conjE)
        fix r c' assume "insert k mk c s = (Inr (r, True), c', s')" "invar c'" "deref c' r = Inr v"
          "capacity c' = capacity c" "contents c' = lru_spec (capacity c) k v (contents c)"
          "roomy c \<and> (length (contents c) < limit \<or> capacity c \<le> limit) \<longrightarrow> roomy c'"
        then show thesis by (intro that(2) [OF none mk]) (simp_all add: tight_def)
      next
        fix c' assume "insert k mk c s = (Inl full, c', s')"
          "\<not> (roomy c \<and> (length (contents c) < limit \<or> capacity c \<le> limit))"
        then show thesis by (intro that(4) [OF none mk]) (simp_all add: tight_def)
      qed
    qed
  qed
next
  case (Some v)
  with cache_hit [OF assms Some, of mk s] that(1) show thesis by auto
qed

text \<open>The keys after a request are those before it and the new one, and a tight cache has many.\<close>

lemma keys_grow:
  assumes "invar c" "insert k mk c s = (Inr (r, new), c', s')"
  shows "fst ` set (contents c') \<subseteq> Set.insert k (fst ` set (contents c))"
proof -
  have *: "fst ` set (lru_spec (capacity c) k v (contents c)) \<subseteq> Set.insert k (fst ` set (contents c))" for v
    using set_lru_spec [of "capacity c" k v "contents c"] by (auto split: option.splits)
  from assms(1) show ?thesis
    by (cases rule: insert_cases [where k = k and mk = mk and s = s]) (use assms(2) * in auto)
qed

lemma tight_length: "tight c \<Longrightarrow> roomy c \<Longrightarrow> limit \<le> length (contents c)"
  by (auto simp: tight_def)

text \<open>A property of the cached values that the constructor establishes stays true of all of them.\<close>

lemma values_kept:
  assumes "invar c" "\<And>k v. (k, v) \<in> set (contents c) \<Longrightarrow> P k v"
    and "\<And>v s'. mk s = (Inr v, s') \<Longrightarrow> P k v"
    and "insert k mk c s = (Inr (r, new), c', s')"
  shows "invar c'" "\<And>k v. (k, v) \<in> set (contents c') \<Longrightarrow> P k v" "capacity c' = capacity c"
    "\<exists>v. deref c' r = Inr v \<and> P k v"
proof -
  have "invar c' \<and> (\<forall>(k, v) \<in> set (contents c'). P k v) \<and> capacity c' = capacity c \<and>
    (\<exists>v. deref c' r = Inr v \<and> P k v)"
    using assms(1)
  proof (cases rule: insert_cases [where k = k and mk = mk and s = s])
    case (hit r1 c1 v)
    moreover have "P k v" using hit(1) assms(2) by (auto dest: map_of_SomeD)
    ultimately show ?thesis
      using assms(2,4) set_lru_spec [of "capacity c" k v "contents c"] by auto
  next
    case (miss r1 c1 v s1)
    moreover have "P k v" using miss(2) assms(3) by blast
    ultimately show ?thesis
      using assms(2,4) set_lru_spec [of "capacity c" k v "contents c"] by auto
  qed (use assms(4) in simp_all)
  then show "invar c'" "\<And>k v. (k, v) \<in> set (contents c') \<Longrightarrow> P k v" "capacity c' = capacity c"
    "\<exists>v. deref c' r = Inr v \<and> P k v" by auto
qed

end

definition mc_ok :: "('k, 'v) MapCache \<Rightarrow> bool" where
  "mc_ok c \<longleftrightarrow> mc_wf c \<and> 0 < mc_max_size c"

lemma mc_ok_ctor [simp]: "mc_ok (MapCache_ctor n) \<longleftrightarrow> 0 < n"
  by (simp add: mc_ok_def)

text \<open>Assigning to a value through its node.\<close>

lemma map_of_assign:
  "map_of (map (\<lambda>(i, k, u). (i, k, if i = n then w else u)) es) n = map_option (\<lambda>(k, u). (k, w)) (map_of es n)"
  by (induction es) auto

lemma mc_ok_assign:
  assumes "mc_ok c" "MapCache_deref c n = Inr v"
  shows "mc_ok (MapCache_assign n w c)" "MapCache_deref (MapCache_assign n w c) n = Inr w"
    and "(k, u) \<in> set (mc_abs (MapCache_assign n w c)) \<Longrightarrow> (k, u) \<in> set (mc_abs c) \<or> u = w \<and> (k, v) \<in> set (mc_abs c)"
proof -
  let ?f = "\<lambda>(i, k, u). (i, k, if i = n then w else u)" and ?es = "mc_entries c"
  obtain k0 where k0: "map_of ?es n = Some (k0, v)"
    using assms(2) by (auto simp: MapCache_deref_def split: option.splits)
  define es' where "es' = map ?f ?es"
  have e: "mc_entries (MapCache_assign n w c) = es'" "mc_links (MapCache_assign n w c) = mc_links c"
    "mc_cur_size (MapCache_assign n w c) = mc_cur_size c" "mc_max_size (MapCache_assign n w c) = mc_max_size c"
    "mc_next_node (MapCache_assign n w c) = mc_next_node c"
    by (simp_all add: MapCache_assign_def es'_def)
  have m: "map fst es' = map fst ?es" "map (\<lambda>(n, k, v). (k, n)) es' = map (\<lambda>(n, k, v). (k, n)) ?es"
    "map fst (map snd es') = map fst (map snd ?es)" "length es' = length ?es"
    by (simp_all add: es'_def case_prod_unfold comp_def)
  have "\<forall>x \<in> fst ` set ?es. x < mc_next_node c" using assms(1) by (auto simp: mc_ok_def mc_wf_def)
  then have "\<forall>x \<in> fst ` set es'. x < mc_next_node c" using arg_cong [OF m(1), of set] by simp
  then show "mc_ok (MapCache_assign n w c)"
    using assms(1) unfolding mc_ok_def mc_wf_def mc_abs_def e m by simp
  show "MapCache_deref (MapCache_assign n w c) n = Inr w"
    using k0 by (simp add: MapCache_deref_def MapCache_assign_def map_of_assign)
  have d: "distinct (map fst ?es)" using assms(1) by (simp add: mc_ok_def mc_wf_def)
  assume "(k, u) \<in> set (mc_abs (MapCache_assign n w c))"
  then obtain i u0 where u0: "(i, k, u0) \<in> set ?es" "u = (if i = n then w else u0)"
    by (auto simp: MapCache_assign_def mc_abs_def)
  show "(k, u) \<in> set (mc_abs c) \<or> u = w \<and> (k, v) \<in> set (mc_abs c)"
  proof (cases "i = n")
    case True
    then have "u0 = v" using map_of_is_SomeI [OF d u0(1)] k0 by simp
    with True u0 show ?thesis by (force simp: mc_abs_def)
  next
    case False
    with u0 show ?thesis by (force simp: mc_abs_def)
  qed
qed

lemma mc_ok_clear [simp]: "mc_ok c \<Longrightarrow> mc_ok (MapCache_clear c)"
  by (simp add: mc_ok_def)

section \<open>Least recently used\<close>

lemma keys_lru_spec:
  assumes "distinct (map fst xs)"
  shows "map fst (lru_spec cap k v xs) =
    k # (if k \<in> set (map fst xs) then removeAll k (map fst xs)
         else if length xs < cap then map fst xs else butlast (map fst xs))"
proof (cases "map_of xs k")
  case None
  then have "k \<notin> set (map fst xs)" by (simp add: map_of_eq_None_iff)
  with None show ?thesis by (simp add: lru_spec_def map_butlast)
next
  case (Some old)
  then have "k \<in> set (map fst xs)" by (force dest: map_of_SomeD)
  moreover have "map fst (filter (\<lambda>p. fst p \<noteq> k) xs) = removeAll k (map fst xs)"
    by (induction xs) auto
  ultimately show ?thesis using Some by (simp add: lru_spec_def)
qed

text \<open>Which keys a cache of size \<open>cap\<close> holds after the requests \<open>ks\<close>: the latest ones.\<close>

definition lru_recent :: "nat \<Rightarrow> 'k list \<Rightarrow> 'k list" where
  "lru_recent cap ks = take cap (rev (remdups ks))"

lemma rev_remdups_snoc: "rev (remdups (ks @ [k])) = k # removeAll k (rev (remdups ks))"
proof -
  have "remdups (ks @ [k]) = removeAll k (remdups ks) @ [k]"
    by (induction ks) auto
  then show ?thesis by (simp add: removeAll_filter_not_eq rev_filter)
qed

lemma take_removeAll:
  assumes "distinct R" "0 < cap"
  shows "take cap (k # removeAll k R) =
    k # (if k \<in> set (take cap R) then removeAll k (take cap R)
         else if length (take cap R) < cap then take cap R else butlast (take cap R))"
proof -
  obtain n where n: "cap = Suc n" using assms(2) gr0_implies_Suc by blast
  have "take n (removeAll k R) = (if k \<in> set (take (Suc n) R) then removeAll k (take (Suc n) R)
      else if length (take (Suc n) R) < Suc n then take (Suc n) R else butlast (take (Suc n) R))"
    using assms(1)
  proof (induction R arbitrary: n)
    case Nil
    then show ?case by simp
  next
    case (Cons a R)
    show ?case
    proof (cases n)
      case 0
      then show ?thesis by simp
    next
      case (Suc m)
      show ?thesis
      proof (cases "k = a")
        case True
        with Cons.prems have "removeAll k R = R" by simp
        moreover have "removeAll k (take n R) = take n R"
          using True Cons.prems in_set_takeD by (fastforce intro: removeAll_id)
        ultimately show ?thesis using True by simp
      next
        case False
        with Cons Suc show ?thesis by (auto simp: butlast_take)
      qed
    qed
  qed
  then show ?thesis by (simp add: n)
qed

text \<open>Requests one after the other, with a constructor that does not throw.\<close>

fun MapCache_requests ::
  "('k \<Rightarrow> 'v) \<Rightarrow> 'k list \<Rightarrow> ('k, 'v) MapCache \<Rightarrow> fault + ('k, 'v) MapCache"
where
  "MapCache_requests f [] c = Inr c"
| "MapCache_requests f (k # ks) c =
     (case MapCache_insert k (ret (f k)) c () of
        (Inl e, _) \<Rightarrow> Inl e
      | (Inr _, c', _) \<Rightarrow> MapCache_requests f ks c')"

lemma mc_request:
  assumes "mc_ok c"
  obtains r c' where "MapCache_insert k (ret v) c () = (Inr r, c', ())" "mc_ok c'"
    "mc_max_size c' = mc_max_size c"
    "mc_abs c' = lru_spec (unat (mc_max_size c)) k v (mc_abs c)"
proof -
  have wf: "mc_wf c" and pos: "0 < mc_max_size c" using assms by (simp_all add: mc_ok_def)
  show thesis
  proof (cases "map_of (mc_abs c) k")
    case None
    show thesis
      by (rule mc_miss [OF wf pos None, of "ret v" "()" v "()"]) (use pos that in \<open>auto simp: mc_ok_def\<close>)
  next
    case (Some w)
    show thesis
      by (rule mc_hit [OF wf Some, of "ret v" "()" "unat (mc_max_size c)" v])
        (use pos that in \<open>auto simp: mc_ok_def\<close>)
  qed
qed

lemma MapCache_requests_recent:
  assumes "mc_ok c" and "map fst (mc_abs c) = lru_recent (unat (mc_max_size c)) hist"
  shows "\<exists>c'. MapCache_requests f ks c = Inr c' \<and> mc_ok c' \<and> mc_max_size c' = mc_max_size c \<and>
    map fst (mc_abs c') = lru_recent (unat (mc_max_size c)) (hist @ ks)"
  using assms
proof (induction ks arbitrary: c hist)
  case Nil
  then show ?case by simp
next
  case (Cons k ks)
  obtain r c1 where c1: "MapCache_insert k (ret (f k)) c () = (Inr r, c1, ())" "mc_ok c1"
    "mc_max_size c1 = mc_max_size c" "mc_abs c1 = lru_spec (unat (mc_max_size c)) k (f k) (mc_abs c)"
    using mc_request [OF Cons.prems(1)] .
  let ?cap = "unat (mc_max_size c)"
  have "0 < ?cap" using Cons.prems(1) by (auto simp: mc_ok_def word_less_nat_alt)
  have "distinct (map fst (mc_abs c))" using Cons.prems(1) by (simp add: mc_ok_def mc_wf_def)
  then have "map fst (mc_abs c1) = lru_recent ?cap (hist @ [k])"
    using take_removeAll [of "rev (remdups hist)" ?cap k] \<open>0 < ?cap\<close> Cons.prems(2)
    unfolding c1(4) lru_recent_def rev_remdups_snoc
    by (simp only: keys_lru_spec length_map [of fst, symmetric] distinct_rev distinct_remdups)
  with Cons.IH [OF c1(2), of "hist @ [k]"] c1 show ?case by simp
qed

end
