(* ===== verification/LRU_Cache.thy ===== *)
theory LRU_Cache
  imports LRU_Map Robin_Hood_Map
begin

text \<open>
  The least-recently-used cache, \<^verbatim>\<open>LRUCache\<close> of \<^verbatim>\<open>src/sim/common.h\<close>, with 32-bit keys as its three
  uses have them: both TLBs of the MMU and the trace cache.

  The C++ class keeps a \<^verbatim>\<open>std::list\<close> of key-value pairs, most recent first, and a
  \<^verbatim>\<open>robin_hood::unordered_map\<close> from keys to iterators into that list. The map is the table of
  \<open>Robin_Hood\<close>, and \<open>LRUCache_insert\<close> makes the calls of it that the code makes. An iterator is the
  identity of the list node it points to (\<open>LRU_Map\<close>).

  \<^verbatim>\<open>insert\<close> constructs the value in place after it has made room for it, and inserts the link last.
  The constructor may throw, which leaves the size counter incremented (or the oldest entry gone)
  and no new entry; the map may throw \<^verbatim>\<open>std::overflow_error\<close>, which leaves an entry without a link.

  \<open>lru_wf\<close> is the class invariant. A request does what the request to the cache on a finite map
  does until the map throws (\<open>LRUCache_insert_refines\<close>), and the map of a cache that has stayed
  calm throws only at 126 entries or more. With this the class satisfies the interface \<open>cache\<close>.
\<close>

record 'v LRUCache =
  lru_entries :: "(nat \<times> u32 \<times> 'v) list"
  lru_links :: "(u32, nat) Table"
  lru_max_size :: u64
  lru_cur_size :: u64
  lru_next_node :: nat

definition LRUCache_ctor :: "u64 \<Rightarrow> 'v LRUCache" where
  "LRUCache_ctor max_size = \<lparr>lru_entries = [], lru_links = Table_ctor, lru_max_size = max_size,
     lru_cur_size = 0, lru_next_node = 0\<rparr>"

definition LRUCache_clear :: "'v LRUCache \<Rightarrow> 'v LRUCache" where
  "LRUCache_clear c = c\<lparr>lru_entries := [], lru_links := Table_clear (lru_links c), lru_cur_size := 0\<rparr>"

definition LRUCache_make_room :: "'v LRUCache \<Rightarrow> fault + 'v LRUCache" where
  "LRUCache_make_room c =
     (if lru_cur_size c < lru_max_size c
      then Inr (c\<lparr>lru_cur_size := lru_cur_size c + 1\<rparr>)
      else case lru_entries c of
             [] \<Rightarrow> Inl (Undefined EmptyBack)
           | _ # _ \<Rightarrow>
               rbind (Table_erase hash_u32 (fst (snd (last (lru_entries c)))) (lru_links c)) (\<lambda>(n, t).
               Inr (c\<lparr>lru_links := t, lru_entries := butlast (lru_entries c)\<rparr>)))"

text \<open>The key is not in the cache: emplace the entry in front, then insert the link.\<close>

definition LRUCache_add ::
  "u32 \<Rightarrow> ('s, 'v) M \<Rightarrow> 'v LRUCache \<Rightarrow> 's \<Rightarrow> (fault + nat \<times> bool) \<times> 'v LRUCache \<times> 's"
where
  "LRUCache_add key mk c s =
     (case LRUCache_make_room c of
        Inl e \<Rightarrow> (Inl e, c, s)
      | Inr c \<Rightarrow>
          (case mk s of
             (Inl e, s) \<Rightarrow> (Inl e, c, s)
           | (Inr v, s) \<Rightarrow>
               let n = lru_next_node c;
                   c = c\<lparr>lru_entries := (n, key, v) # lru_entries c, lru_next_node := Suc n\<rparr>
               in (case Table_insert hash_u32 (key, n) (lru_links c) of
                     (Inl e, t) \<Rightarrow> (Inl e, c\<lparr>lru_links := t\<rparr>, s)
                   | (Inr _, t) \<Rightarrow> (Inr (n, True), c\<lparr>lru_links := t\<rparr>, s))))"

text \<open>The key is in the cache: splice its node to the front and renew the link.\<close>

definition LRUCache_touch :: "nat \<Rightarrow> 'v LRUCache \<Rightarrow> fault + nat \<times> 'v LRUCache" where
  "LRUCache_touch it c =
     rbind (node_at (lru_links c) it) (\<lambda>(k, node).
     case take_node node (lru_entries c) of
       None \<Rightarrow> Inl (Undefined DanglingIterator)
     | Some (e, rest) \<Rightarrow>
         rbind (set_node it (Some (k, fst e)) (lru_links c)) (\<lambda>t.
         Inr (fst e, c\<lparr>lru_entries := e # rest, lru_links := t\<rparr>)))"

definition LRUCache_insert ::
  "u32 \<Rightarrow> ('s, 'v) M \<Rightarrow> 'v LRUCache \<Rightarrow> 's \<Rightarrow> (fault + nat \<times> bool) \<times> 'v LRUCache \<times> 's"
where
  "LRUCache_insert key mk c s =
     (case Table_find hash_u32 (lru_links c) key of
        Inl e \<Rightarrow> (Inl e, c, s)
      | Inr it \<Rightarrow>
          if it = Table_end (lru_links c) then LRUCache_add key mk c s
          else (case LRUCache_touch it c of
                  Inl e \<Rightarrow> (Inl e, c, s)
                | Inr (n, c) \<Rightarrow> (Inr (n, False), c, s)))"

text \<open>Reading and assigning through a reference into the cache.\<close>

definition LRUCache_deref :: "'v LRUCache \<Rightarrow> nat \<Rightarrow> fault + 'v" where
  "LRUCache_deref c n =
     (case map_of (lru_entries c) n of None \<Rightarrow> Inl (Undefined UseAfterFree) | Some (k, v) \<Rightarrow> Inr v)"

definition LRUCache_assign :: "nat \<Rightarrow> 'v \<Rightarrow> 'v LRUCache \<Rightarrow> 'v LRUCache" where
  "LRUCache_assign n v c =
     c\<lparr>lru_entries := map (\<lambda>(i, k, w). (i, k, if i = n then v else w)) (lru_entries c)\<rparr>"

text \<open>What a request may change of the state the constructor of the value works on.\<close>

lemma LRUCache_insert_frame:
  assumes "\<And>q t. mk s = (q, t) \<Longrightarrow> R s t" and "R s s" and "LRUCache_insert k mk c s = (r, c', s')"
  shows "R s s'"
  using assms
  by (auto simp: LRUCache_insert_def LRUCache_add_def Let_def split: if_splits sum.splits prod.splits)

section \<open>The cache on a finite map\<close>

definition lru_map :: "'v LRUCache \<Rightarrow> (u32, 'v) MapCache" where
  "lru_map c = \<lparr>mc_entries = lru_entries c, mc_links = table_map (lru_links c),
     mc_max_size = lru_max_size c, mc_cur_size = lru_cur_size c, mc_next_node = lru_next_node c\<rparr>"

lemma lru_map_simps [simp]:
  "mc_entries (lru_map c) = lru_entries c" "mc_links (lru_map c) = table_map (lru_links c)"
  "mc_max_size (lru_map c) = lru_max_size c" "mc_cur_size (lru_map c) = lru_cur_size c"
  "mc_next_node (lru_map c) = lru_next_node c"
  by (simp_all add: lru_map_def)

definition lru_wf :: "'v LRUCache \<Rightarrow> bool" where
  "lru_wf c \<longleftrightarrow> mc_wf (lru_map c) \<and> table_ok hash_u32 (lru_links c)"

text \<open>The pairs of the cache, the most recent first.\<close>

definition lru_abs :: "'v LRUCache \<Rightarrow> (u32 \<times> 'v) list" where
  "lru_abs c = map snd (lru_entries c)"

lemma mc_abs_lru_map [simp]: "mc_abs (lru_map c) = lru_abs c"
  by (simp add: mc_abs_def lru_abs_def)

lemma MapCache_lru_map [simp]:
  "MapCache_deref (lru_map c) = LRUCache_deref c"
  "lru_map (LRUCache_assign n v c) = MapCache_assign n v (lru_map c)"
  by (simp_all add: fun_eq_iff MapCache_deref_def LRUCache_deref_def MapCache_assign_def
    LRUCache_assign_def lru_map_def)

lemma length_lru_abs [simp]: "length (lru_abs c) = length (lru_entries c)"
  by (simp add: lru_abs_def)

lemma table_count:
  assumes "table_ok hash t"
  shows "mNumElements t = card (dom (table_map t))"
  using assms
proof (cases rule: table_okE)
  case wf
  then have d: "distinct (map fst (contents t))" and n: "mNumElements t = length (contents t)"
    by (simp_all add: table_wf_def count_ok_def)
  have "card (dom (table_map t)) = card (set (map fst (contents t)))"
    by (simp add: table_map_def dom_map_of_conv_image_fst)
  also have "\<dots> = length (map fst (contents t))" by (rule distinct_card [OF d])
  finally show ?thesis using n by simp
qed simp

lemma links_count:
  assumes "mc_links c = links_of (mc_entries c)"
  shows "card (dom (mc_links c)) \<le> length (mc_entries c)"
proof -
  have "dom (mc_links c) = fst ` set (map (\<lambda>(n, k, v). (k, n)) (mc_entries c))"
    by (simp only: assms dom_map_of_conv_image_fst)
  then have "card (dom (mc_links c)) \<le> card (set (map (\<lambda>(n, k, v). (k, n)) (mc_entries c)))"
    by (simp only: card_image_le finite_set)
  also have "\<dots> \<le> length (mc_entries c)" using card_length [of "map (\<lambda>(n, k, v). (k, n)) (mc_entries c)"] by simp
  finally show ?thesis .
qed

lemma LRUCache_clear_abs:
  "lru_wf c \<Longrightarrow> lru_map (LRUCache_clear c) = MapCache_clear (lru_map c)"
  using Table_clear_spec [of hash_u32 "lru_links c"]
  by (auto simp: lru_wf_def LRUCache_clear_def MapCache_clear_def lru_map_def)

text \<open>
  Making room: the tables stay in step, and a table with at most as many links as entries keeps
  this.
\<close>

lemma case_nonempty: "xs \<noteq> [] \<Longrightarrow> (case xs of [] \<Rightarrow> a | _ # _ \<Rightarrow> b) = b"
  by (cases xs) simp_all

lemma LRUCache_make_room_spec:
  assumes wf: "lru_wf c"
  shows "case MapCache_make_room (lru_map c) of
      Inl e \<Rightarrow> LRUCache_make_room c = Inl e
    | Inr d \<Rightarrow> \<exists>c'. LRUCache_make_room c = Inr c' \<and> lru_map c' = d \<and> table_ok hash_u32 (lru_links c') \<and>
        (calm (lru_links c) \<longrightarrow> calm (lru_links c')) \<and> (few_buckets (lru_links c) \<longrightarrow> few_buckets (lru_links c'))"
proof (cases "lru_cur_size c < lru_max_size c \<or> lru_entries c = []")
  case True
  then show ?thesis
    using wf by (auto simp: MapCache_make_room_def LRUCache_make_room_def lru_wf_def lru_map_def)
next
  case False
  have ok: "table_ok hash_u32 (lru_links c)" using wf by (simp add: lru_wf_def)
  define k where "k = fst (snd (last (lru_entries c)))"
  obtain n t where t: "Table_erase hash_u32 k (lru_links c) = Inr (n, t)"
      "table_ok hash_u32 t" "table_map t = (table_map (lru_links c))(k := None)"
      "calm (lru_links c) \<longrightarrow> calm t" "few_buckets (lru_links c) \<longrightarrow> few_buckets t"
    using Table_erase_spec [OF ok, of k] by blast
  have "LRUCache_make_room c = Inr (c\<lparr>lru_links := t, lru_entries := butlast (lru_entries c)\<rparr>)"
    using False t(1) by (simp add: LRUCache_make_room_def case_nonempty k_def)
  moreover have "MapCache_make_room (lru_map c) =
      Inr (lru_map (c\<lparr>lru_links := t, lru_entries := butlast (lru_entries c)\<rparr>))"
    using False t(3) by (simp add: MapCache_make_room_def case_nonempty k_def lru_map_def)
  ultimately show ?thesis using t(2,4,5) by simp
qed

lemma LRUCache_touch_spec:
  assumes wf: "lru_wf c" and hit: "table_map (lru_links c) key = Some n"
    and it: "node_at (lru_links c) it = Inr (key, n)"
  shows "case MapCache_insert key mk (lru_map c) s of
      (Inl e, d, s') \<Rightarrow> LRUCache_touch it c = Inl e \<and> d = lru_map c \<and> s' = s
    | (Inr r, d, s') \<Rightarrow> \<exists>c'. LRUCache_touch it c = Inr (fst r, c') \<and> \<not> snd r \<and> lru_map c' = d \<and> s' = s \<and>
        lru_links c' = lru_links c"
proof (cases "take_node n (lru_entries c)")
  case None
  with hit it show ?thesis by (simp add: MapCache_insert_def LRUCache_touch_def)
next
  case (Some p)
  obtain e rest where p: "p = (e, rest)" by (cases p)
  have "distinct (map fst (lru_entries c))" using wf by (simp add: lru_wf_def mc_wf_def)
  with Some p have fst_e: "fst e = n" by (auto simp: take_node_eq)
  have "it < slots (lru_links c)" "mKeyVals (lru_links c) ! it = Some (key, n)"
    using it by (auto simp: node_at_def rbind_Inr_iff at_index_def split: if_splits option.splits)
  moreover from this have "(mKeyVals (lru_links c))[it := Some (key, n)] = mKeyVals (lru_links c)"
    by (metis list_update_id)
  ultimately have "set_node it (Some (key, n)) (lru_links c) = Inr (lru_links c)"
    by (simp add: set_node_def)
  with Some p fst_e hit it show ?thesis
    by (simp add: MapCache_insert_def LRUCache_touch_def lru_map_def fun_upd_idem)
qed

text \<open>
  The map of the cache may be unable to take another link: it is not calm, or there are 126 entries
  that stay. The next state of the cache agrees with that of the cache on a finite map.
\<close>

abbreviation lru_tight :: "'v LRUCache \<Rightarrow> bool" where
  "lru_tight c \<equiv>
     \<not> (calm (lru_links c) \<and> (length (lru_entries c) < 126 \<or> unat (lru_max_size c) \<le> 126))"

definition lru_step :: "'v LRUCache \<Rightarrow> 'v LRUCache \<Rightarrow> (u32, 'v) MapCache \<Rightarrow> bool" where
  "lru_step c c' d \<longleftrightarrow>
     lru_map c' = d \<and> table_ok hash_u32 (lru_links c') \<and>
     (\<not> lru_tight c \<longrightarrow> calm (lru_links c')) \<and>
     (length (lru_entries c) \<le> 127 \<longrightarrow> few_buckets (lru_links c) \<longrightarrow> few_buckets (lru_links c'))"

lemma LRUCache_add_spec:
  assumes wf: "lru_wf c" and miss: "table_map (lru_links c) key = None"
    and abs: "MapCache_insert key mk (lru_map c) s = (r, d, s')"
  shows "(\<exists>c'. LRUCache_add key mk c s = (r, c', s') \<and> lru_step c c' d) \<or>
    (\<exists>c' n. LRUCache_add key mk c s = (Inl overflow, c', s') \<and> r = Inr (n, True)) \<and> lru_tight c"
proof (cases "MapCache_make_room (lru_map c)")
  case (Inl e)
  with miss abs LRUCache_make_room_spec [OF wf] wf show ?thesis
    by (auto simp: MapCache_insert_def LRUCache_add_def lru_step_def lru_wf_def)
next
  case (Inr d1)
  with LRUCache_make_room_spec [OF wf] obtain c1 where c1: "LRUCache_make_room c = Inr c1"
      "lru_map c1 = d1" "table_ok hash_u32 (lru_links c1)" "calm (lru_links c) \<longrightarrow> calm (lru_links c1)"
      "few_buckets (lru_links c) \<longrightarrow> few_buckets (lru_links c1)" by auto
  have lwf: "mc_wf (lru_map c)" using wf by (simp add: lru_wf_def)
  show ?thesis
  proof (cases "mk s")
    case (Pair q s1)
    show ?thesis
    proof (cases q)
      case (Inl e)
      with Pair Inr miss abs c1 show ?thesis
        by (auto simp: MapCache_insert_def LRUCache_add_def lru_step_def)
    next
      case q: (Inr v)
      define n where "n = lru_next_node c1"
      define c2 where "c2 = c1\<lparr>lru_entries := (n, key, v) # lru_entries c1, lru_next_node := Suc n\<rparr>"
      have links1: "mc_links d1 = links_of (mc_entries d1)" "length (mc_entries d1) \<le> length (lru_entries c)"
          "length (mc_entries d1) < unat (lru_max_size c)" "mc_links d1 key = None"
        if "0 < lru_max_size c"
      proof -
        have m: "0 < mc_max_size (lru_map c)" using that by simp
        obtain d2 where d2: "MapCache_make_room (lru_map c) = Inr d2"
            "mc_entries d2 = (if length (mc_entries (lru_map c)) < unat (mc_max_size (lru_map c))
               then mc_entries (lru_map c) else butlast (mc_entries (lru_map c)))"
            "mc_links d2 = links_of (mc_entries d2)" "mc_max_size d2 = mc_max_size (lru_map c)"
            "unat (mc_cur_size d2) = Suc (length (mc_entries d2))" "mc_cur_size d2 \<le> mc_max_size d2"
            "mc_next_node d2 = mc_next_node (lru_map c)"
          using mc_make_room [OF lwf m] .
        then show "mc_links d1 = links_of (mc_entries d1)" "length (mc_entries d1) \<le> length (lru_entries c)"
            "length (mc_entries d1) < unat (lru_max_size c)"
          using Inr by (auto simp: word_le_nat_alt)
        show "mc_links d1 key = None"
          using Inr miss by (auto simp: MapCache_make_room_def split: if_splits list.splits)
      qed
      have pos: "0 < lru_max_size c"
      proof (rule ccontr)
        assume "\<not> 0 < lru_max_size c"
        then have "lru_max_size c = 0" by (auto simp: word_less_nat_alt unat_eq_0)
        moreover from this lwf have "lru_cur_size c = 0" "unat (lru_cur_size c) = length (lru_entries c)"
          by (auto simp: mc_wf_def)
        ultimately have "lru_entries c = []" by simp
        with Inr \<open>lru_max_size c = 0\<close> show False by (simp add: MapCache_make_room_def)
      qed
      note links1 = links1 [OF pos]
      have count: "mNumElements (lru_links c1) \<le> length (lru_entries c1)"
        using table_count [OF c1(3)] links_count [OF links1(1)] c1(2) by auto
      have miss1: "table_map (lru_links c1) key = None" using links1(4) c1(2) by auto
      note spec = Table_insert_spec [OF c1(3), of key n]
      have run: "LRUCache_add key mk c s = (case Table_insert hash_u32 (key, n) (lru_links c1) of
            (Inl e, t) \<Rightarrow> (Inl e, c2\<lparr>lru_links := t\<rparr>, s1)
          | (Inr _, t) \<Rightarrow> (Inr (n, True), c2\<lparr>lru_links := t\<rparr>, s1))"
        unfolding n_def c2_def by (simp add: LRUCache_add_def c1(1) Pair q Let_def)
      have absr: "r = Inr (n, True)" "s' = s1"
          "d = d1\<lparr>mc_entries := (n, key, v) # mc_entries d1,
             mc_links := map_insert key n (mc_links d1), mc_next_node := Suc n\<rparr>"
        using abs miss Inr Pair q c1(2) by (auto simp: MapCache_insert_def Let_def n_def)
      show ?thesis
      proof (cases "Table_insert hash_u32 (key, n) (lru_links c1)")
        case ti: (Pair z t)
        show ?thesis
        proof (cases z)
          case (Inl e)
          have "lru_tight c"
            using spec ti Inl count links1(2,3) c1(2,4) by auto
          with spec ti Inl run absr show ?thesis by simp
        next
          case z: (Inr p)
          then have ins: "inserted_ok hash_u32 key n p (lru_links c1) t" using spec ti by simp
          have "lru_map (c2\<lparr>lru_links := t\<rparr>) = d"
            using ins miss1 c1(2) absr(3)
            by (auto simp: lru_map_def c2_def inserted_ok_def map_insert_def)
          moreover have "\<not> lru_tight c \<longrightarrow> calm t"
            using ins count links1(2,3) c1(2,4) by (auto simp: inserted_ok_def)
          moreover have "length (lru_entries c) \<le> 127 \<longrightarrow> few_buckets (lru_links c) \<longrightarrow> few_buckets t"
            using ins count links1(2) c1(2,5) by (auto simp: inserted_ok_def)
          ultimately show ?thesis
            using run ti z ins absr by (auto simp: lru_step_def inserted_ok_def table_ok_def)
        qed
      qed
    qed
  qed
qed

lemma LRUCache_insert_step:
  assumes wf: "lru_wf c" and abs: "MapCache_insert key mk (lru_map c) s = (r, d, s')"
  shows "(\<exists>c'. LRUCache_insert key mk c s = (r, c', s') \<and> lru_step c c' d) \<or>
    (\<exists>c' n. LRUCache_insert key mk c s = (Inl overflow, c', s') \<and> r = Inr (n, True)) \<and> lru_tight c"
proof -
  have ok: "table_ok hash_u32 (lru_links c)" using wf by (simp add: lru_wf_def)
  obtain i where i: "Table_find hash_u32 (lru_links c) key = Inr i"
      "case table_map (lru_links c) key of None \<Rightarrow> i = Table_end (lru_links c)
       | Some v \<Rightarrow> i \<noteq> Table_end (lru_links c) \<and> node_at (lru_links c) i = Inr (key, v)"
    using Table_find_spec [OF ok] by blast
  show ?thesis
  proof (cases "table_map (lru_links c) key")
    case None
    with i LRUCache_add_spec [OF wf None abs] show ?thesis by (simp add: LRUCache_insert_def)
  next
    case (Some n)
    with i have it: "i \<noteq> Table_end (lru_links c)" "node_at (lru_links c) i = Inr (key, n)" by simp_all
    from LRUCache_touch_spec [OF wf Some it(2), where mk = mk and s = s] abs it(1) i(1) ok show ?thesis
      by (cases r) (auto simp: LRUCache_insert_def lru_step_def)
  qed
qed

text \<open>C16: A request to the cache on the hash map does what the request to the cache on a finite map
  does: it has the same result, runs the constructor in the same state, and leaves the same
  entries and links, unless the hash map throws \<^verbatim>\<open>std::overflow_error\<close>, which it does only for a
  new key and after the constructor has returned; a calm map of a cache with fewer than 126 entries,
  or of a capacity of at most 126, does not throw it.\<close>

theorem LRUCache_insert_refines:
  assumes "lru_wf c" and "MapCache_insert key mk (lru_map c) s = (r, d, s')"
  shows "(\<exists>c'. LRUCache_insert key mk c s = (r, c', s') \<and> lru_step c c' d) \<or>
    (\<exists>c' n. LRUCache_insert key mk c s = (Inl overflow, c', s') \<and> r = Inr (n, True)) \<and>
    \<not> (calm (lru_links c) \<and> (length (lru_entries c) < 126 \<or> unat (lru_max_size c) \<le> 126))"
  using assms by (rule LRUCache_insert_step)

lemma lru_ctor [simp]:
  "lru_wf (LRUCache_ctor n)" "lru_max_size (LRUCache_ctor n) = n" "lru_entries (LRUCache_ctor n) = []"
  "lru_links (LRUCache_ctor n) = Table_ctor" "lru_abs (LRUCache_ctor n) = []"
  by (simp_all add: LRUCache_ctor_def lru_wf_def mc_wf_def mc_abs_def lru_abs_def)

theorem LRUCache_insert_refines_witness:
  "\<exists>c'. LRUCache_insert 5 (ret (7 :: nat)) (LRUCache_ctor 2) () = (Inr (0, True), c', ()) \<and>
     lru_abs c' = [(5, 7)]"
proof -
  let ?d = "\<lparr>mc_entries = [(0, 5, 7 :: nat)], mc_links = [5 \<mapsto> 0], mc_max_size = 2,
     mc_cur_size = 1, mc_next_node = 1\<rparr>"
  have "MapCache_insert 5 (ret 7) (lru_map (LRUCache_ctor 2)) () = (Inr (0, True), ?d, ())"
    by (simp add: MapCache_insert_def MapCache_make_room_def map_insert_def Let_def lru_map_def)
      (simp add: LRUCache_ctor_def)
  from LRUCache_insert_refines [OF _ this] obtain c' where
    "LRUCache_insert 5 (ret (7 :: nat)) (LRUCache_ctor 2) () = (Inr (0, True), c', ())"
    "lru_step (LRUCache_ctor 2) c' ?d" by auto
  moreover from this(2) have "lru_map c' = ?d" unfolding lru_step_def by (elim conjE)
  then have "mc_abs (lru_map c') = [(5, 7)]" by (simp only:) (simp add: mc_abs_def)
  ultimately show ?thesis by auto
qed

section \<open>The interface the clients use\<close>

definition lru_ok :: "'v LRUCache \<Rightarrow> bool" where
  "lru_ok c \<longleftrightarrow> lru_wf c \<and> 0 < lru_max_size c"

lemma lru_ok_abs: "lru_ok c \<Longrightarrow> mc_ok (lru_map c)"
  by (simp add: lru_ok_def mc_ok_def lru_wf_def)

lemma mc_ok_wf: "mc_ok c \<Longrightarrow> mc_wf c"
  by (simp add: mc_ok_def)

lemma lru_step_ok: "lru_step c c' d \<Longrightarrow> mc_ok d \<Longrightarrow> lru_ok c'"
  by (auto simp: lru_step_def lru_ok_def mc_ok_def lru_wf_def)

lemma lru_step_max_size:
  "lru_step c c' d \<Longrightarrow> mc_max_size d = lru_max_size c \<Longrightarrow> lru_max_size c' = lru_max_size c"
  by (auto simp: lru_step_def)

lemma lru_step_abs: "lru_step c c' d \<Longrightarrow> lru_abs c' = mc_abs d"
  by (auto simp: lru_step_def)

lemma lru_step_deref: "lru_step c c' d \<Longrightarrow> LRUCache_deref c' r = MapCache_deref d r"
  by (auto simp: lru_step_def)

lemmas lru_step_rules = lru_step_ok lru_step_max_size lru_step_abs lru_step_deref

text \<open>A request for a cached key leaves the table of the links as it is.\<close>

lemma node_at_same:
  assumes "node_at t i = Inr p"
  shows "set_node i (Some p) t = Inr t"
proof -
  have "i < slots t" "mKeyVals t ! i = Some p"
    using assms by (auto simp: node_at_def rbind_Inr_iff at_index_def split: if_splits option.splits)
  moreover from this have "(mKeyVals t)[i := Some p] = mKeyVals t" by (metis list_update_id)
  ultimately show ?thesis by (simp add: set_node_def)
qed

lemma LRUCache_hit_links:
  assumes wf: "lru_wf c" and ins: "LRUCache_insert key mk c s = (Inr (r, False), c', s')"
  shows "lru_links c' = lru_links c"
proof -
  have d: "distinct (map fst (lru_entries c))" using wf by (simp add: lru_wf_def mc_wf_def)
  obtain it where "LRUCache_touch it c = Inr (r, c')"
    using ins by (auto simp: LRUCache_insert_def LRUCache_add_def Let_def
      split: sum.splits prod.splits if_splits)
  then obtain k node e rest t where *: "node_at (lru_links c) it = Inr (k, node)"
      "take_node node (lru_entries c) = Some (e, rest)" "set_node it (Some (k, fst e)) (lru_links c) = Inr t"
      "c' = c\<lparr>lru_entries := e # rest, lru_links := t\<rparr>"
    by (auto simp: LRUCache_touch_def rbind_Inr_iff split: option.splits)
  moreover have "fst e = node" using *(2) d by (auto simp: take_node_eq)
  ultimately show ?thesis using node_at_same [OF *(1)] by simp
qed

interpretation lru: cache LRUCache_insert lru_abs LRUCache_deref lru_ok "\<lambda>c. unat (lru_max_size c)"
  overflow "\<lambda>c. calm (lru_links c)" 126
proof (unfold_locales, goal_cases)
  case (1 c k v mk s)
  have hit: "map_of (mc_abs (lru_map c)) k = Some v" and pos: "0 < lru_max_size c"
    using 1 by (simp_all add: lru_ok_def)
  obtain r d where d: "MapCache_insert k mk (lru_map c) s = (Inr (r, False), d, s)" "mc_ok d"
      "MapCache_deref d r = Inr v" "mc_max_size d = lru_max_size c"
      "mc_abs d = lru_spec (unat (lru_max_size c)) k v (lru_abs c)"
    by (rule mc_hit [OF mc_ok_wf [OF lru_ok_abs [OF 1(1)]] hit, of mk s "unat (lru_max_size c)" v])
      (rule that, simp_all add: mc_ok_def pos)
  have wf: "lru_wf c" using 1(1) by (simp add: lru_ok_def)
  from LRUCache_insert_step [OF wf d(1)] obtain c' where
      c': "LRUCache_insert k mk c s = (Inr (r, False), c', s)" "lru_step c c' d" by blast
  with d lru_step_rules [of c c' d] LRUCache_hit_links [OF wf c'(1)] show ?case by auto
next
  case (2 c k mk s v s')
  have miss: "map_of (mc_abs (lru_map c)) k = None" and pos: "0 < mc_max_size (lru_map c)"
    using 2 by (simp_all add: lru_ok_def)
  obtain r d where d: "MapCache_insert k mk (lru_map c) s = (Inr (r, True), d, s')" "mc_ok d"
      "MapCache_deref d r = Inr v" "mc_max_size d = lru_max_size c"
      "mc_abs d = lru_spec (unat (lru_max_size c)) k v (lru_abs c)"
    by (rule mc_miss [where mk = mk, OF mc_ok_wf [OF lru_ok_abs [OF 2(1)]] pos miss 2(3)])
      (rule that, use pos in \<open>simp_all add: mc_ok_def\<close>)
  have "lru_wf c" using 2(1) by (simp add: lru_ok_def)
  from LRUCache_insert_step [OF this d(1)] show ?case
  proof (elim disjE exE conjE)
    fix c' assume "LRUCache_insert k mk c s = (Inr (r, True), c', s')" "lru_step c c' d"
    with d lru_step_rules [of c c' d] show ?thesis by (intro disjI1) (auto simp: lru_step_def)
  next
    fix c' assume "LRUCache_insert k mk c s = (Inl overflow, c', s')" "lru_tight c"
    then show ?thesis by (intro disjI2) simp
  qed
next
  case (3 c k mk s e s')
  from 3(1,2) have "0 < mc_max_size (lru_map c)" "map_of (mc_abs (lru_map c)) k = None"
    by (simp_all add: lru_ok_def)
  from mc_fail [OF mc_ok_wf [OF lru_ok_abs [OF 3(1)]] this, of mk s e s'] 3(3)
  obtain d where d: "MapCache_insert k mk (lru_map c) s = (Inl e, d, s')" by blast
  have "lru_wf c" using 3(1) by (simp add: lru_ok_def)
  from LRUCache_insert_step [OF this d] show ?case by auto
qed

lemma lru_wf_clear [simp]: "lru_wf c \<Longrightarrow> lru_wf (LRUCache_clear c)"
  using Table_clear_spec [of hash_u32 "lru_links c"] LRUCache_clear_abs [of c]
  by (simp add: lru_wf_def) (simp add: LRUCache_clear_def)

lemma max_size_clear [simp]: "lru_max_size (LRUCache_clear c) = lru_max_size c"
  by (simp add: LRUCache_clear_def)

lemma lru_abs_clear [simp]: "lru_abs (LRUCache_clear c) = []"
  by (simp add: LRUCache_clear_def lru_abs_def)

lemma lru_ok_ctor [simp]: "lru_ok (LRUCache_ctor n) \<longleftrightarrow> 0 < n"
  by (simp add: lru_ok_def)

lemma lru_ok_clear [simp]: "lru_ok c \<Longrightarrow> lru_ok (LRUCache_clear c)"
  by (simp add: lru_ok_def)

lemma calm_clear: "lru_wf c \<Longrightarrow> calm (lru_links c) \<Longrightarrow> calm (lru_links (LRUCache_clear c))"
  using Table_clear_spec [of hash_u32 "lru_links c"] by (simp add: lru_wf_def LRUCache_clear_def)

text \<open>Assigning to a value through its node.\<close>

lemma lru_ok_assign:
  fixes c :: "'v LRUCache" and u w v :: 'v
  assumes "lru_ok c" "LRUCache_deref c n = Inr v"
  shows "lru_ok (LRUCache_assign n w c)" "LRUCache_deref (LRUCache_assign n w c) n = Inr w"
    and "(k, u) \<in> set (lru_abs (LRUCache_assign n w c)) \<Longrightarrow> (k, u) \<in> set (lru_abs c) \<or> u = w \<and> (k, v) \<in> set (lru_abs c)"
proof -
  have d: "MapCache_deref (lru_map c) n = Inr v" using assms(2) by simp
  note a = mc_ok_assign [OF lru_ok_abs [OF assms(1)] d, where w = w]
  have "lru_links (LRUCache_assign n w c) = lru_links c" by (simp add: LRUCache_assign_def)
  then show "lru_ok (LRUCache_assign n w c)"
    using a(1) assms(1) by (simp add: lru_ok_def mc_ok_def lru_wf_def flip: MapCache_lru_map(2))
  show "LRUCache_deref (LRUCache_assign n w c) n = Inr w"
    using a(2) by (simp flip: MapCache_lru_map)
  show "(k, u) \<in> set (lru_abs (LRUCache_assign n w c)) \<Longrightarrow> (k, u) \<in> set (lru_abs c) \<or> u = w \<and> (k, v) \<in> set (lru_abs c)"
    using a(3) [of k u] by (simp flip: MapCache_lru_map(2))
qed

lemma assign_simps [simp]:
  "lru_links (LRUCache_assign n w c) = lru_links c" "lru_max_size (LRUCache_assign n w c) = lru_max_size c"
  "map fst (lru_abs (LRUCache_assign n w c)) = map fst (lru_abs c)"
  by (simp_all add: LRUCache_assign_def lru_abs_def case_prod_unfold comp_def)

section \<open>Least recently used, and the map that is full too early\<close>

fun LRUCache_requests :: "(u32 \<Rightarrow> 'v) \<Rightarrow> u32 list \<Rightarrow> 'v LRUCache \<Rightarrow> fault + 'v LRUCache" where
  "LRUCache_requests f [] c = Inr c"
| "LRUCache_requests f (k # ks) c =
     (case LRUCache_insert k (ret (f k)) c () of
        (Inl e, _) \<Rightarrow> Inl e
      | (Inr _, c', _) \<Rightarrow> LRUCache_requests f ks c')"

text \<open>A cache that is full of links has been asked for more than 126 keys.\<close>

lemma recent_card:
  assumes "126 \<le> length (lru_recent cap hist)" "126 < cap" "k \<notin> set (lru_recent cap hist)"
  shows "126 < card (set (hist @ [k]))"
proof (cases "126 < card (set hist)")
  case True
  then show ?thesis by (simp add: card_insert_if)
next
  case False
  then have "length (remdups hist) \<le> 126" by (simp add: length_remdups_card_conv)
  then have "lru_recent cap hist = rev (remdups hist)" using assms(2) by (simp add: lru_recent_def)
  with assms(1,3) show ?thesis by (simp add: length_remdups_card_conv)
qed

lemma tight_requests:
  assumes "lru.tight c" "calm (lru_links c)" "map_of (lru_abs c) k = None"
    and "map fst (lru_abs c) = lru_recent (unat (lru_max_size c)) hist"
  shows "126 < unat (lru_max_size c) \<and> 126 < card (set (hist @ [k]))"
proof -
  have "126 \<le> length (lru_abs c)" "126 < unat (lru_max_size c)"
    using assms(1,2) by (auto simp: lru.tight_def)
  moreover have "k \<notin> set (map fst (lru_abs c))" using assms(3) by (simp add: map_of_eq_None_iff)
  ultimately show ?thesis using recent_card [of "unat (lru_max_size c)" hist k] assms(4)
    by (metis length_map)
qed

lemma LRUCache_requests_spec:
  assumes "lru_wf c" and "0 < lru_max_size c"
    and "map fst (lru_abs c) = lru_recent (unat (lru_max_size c)) hist"
  shows "case LRUCache_requests f ks c of
      Inr c' \<Rightarrow> lru_wf c' \<and> lru_max_size c' = lru_max_size c \<and>
        map fst (lru_abs c') = lru_recent (unat (lru_max_size c)) (hist @ ks) \<and>
        (length (lru_entries c) + length ks \<le> 128 \<longrightarrow> few_buckets (lru_links c) \<longrightarrow> few_buckets (lru_links c'))
    | Inl e \<Rightarrow> e = overflow \<and> (calm (lru_links c) \<longrightarrow>
        126 < unat (lru_max_size c) \<and> 126 < card (set (hist @ ks)))"
  using assms
proof (induction ks arbitrary: c hist)
  case Nil
  then show ?case by simp
next
  case (Cons k ks)
  have okc: "lru_ok c" using Cons.prems(1,2) by (simp add: lru_ok_def)
  have ok: "mc_ok (lru_map c)" using okc by (rule lru_ok_abs)
  have more: "126 < card (set (hist @ k # ks))" if "126 < card (set (hist @ [k]))"
    using card_mono [of "set (hist @ k # ks)" "set (hist @ [k])"] that by (simp add: subset_iff)
  obtain r d where d: "MapCache_insert k (ret (f k)) (lru_map c) () = (Inr r, d, ())" "mc_ok d"
      "mc_max_size d = lru_max_size c"
      "map fst (mc_abs d) = lru_recent (unat (lru_max_size c)) (hist @ [k])"
      "length (mc_entries d) \<le> Suc (length (lru_entries c))"
  proof -
    from MapCache_requests_recent [OF ok, of hist f "[k]"] Cons.prems(3)
    obtain d where d: "MapCache_requests f [k] (lru_map c) = Inr d" "mc_ok d"
        "mc_max_size d = lru_max_size c"
        "map fst (mc_abs d) = lru_recent (unat (lru_max_size c)) (hist @ [k])" by auto
    obtain r c' where c': "MapCache_insert k (ret (f k)) (lru_map c) () = (Inr r, c', ())" "mc_ok c'"
        "mc_max_size c' = mc_max_size (lru_map c)"
        "mc_abs c' = lru_spec (unat (mc_max_size (lru_map c))) k (f k) (mc_abs (lru_map c))"
      by (rule mc_request [OF ok])
    with d(1) have "c' = d" by simp
    have "length (lru_spec cap k v xs) \<le> Suc (length xs)" for cap v and xs :: "(u32 \<times> 'a) list"
      using length_filter_le [of "\<lambda>p. fst p \<noteq> k" xs]
      by (auto simp: lru_spec_def split: option.splits)
    with c'(4) \<open>c' = d\<close> have "length (mc_entries d) \<le> Suc (length (lru_entries c))"
      by (metis length_mc_abs lru_map_simps(1))
    with c'(1) d \<open>c' = d\<close> show thesis by (intro that) auto
  qed
  have calm: "calm (lru_links c) \<longrightarrow> calm (lru_links c') \<or>
      126 < unat (lru_max_size c) \<and> 126 < card (set (hist @ [k]))"
    if "LRUCache_insert k (ret (f k)) c () = (q, c', ())" for q c'
    using okc
    by (cases rule: lru.insert_cases [where k = k and mk = "ret (f k)" and s = "()"])
      (use that tight_requests [OF _ _ _ Cons.prems(3), of k] in auto)
  from LRUCache_insert_step [OF Cons.prems(1) d(1)] show ?case
  proof (elim disjE exE conjE)
    fix c' assume c': "LRUCache_insert k (ret (f k)) c () = (Inr r, c', ())" "lru_step c c' d"
    have abs: "lru_abs c' = mc_abs d" and m: "lru_max_size c' = lru_max_size c" and wf': "lru_wf c'"
      using lru_step_rules [OF c'(2)] d(2,3) by (simp_all add: lru_ok_def)
    have len: "length (lru_entries c') \<le> Suc (length (lru_entries c))"
      using d(5) abs by (metis length_lru_abs length_mc_abs)
    have "map fst (lru_abs c') = lru_recent (unat (lru_max_size c')) (hist @ [k])"
      using abs d(4) m by simp
    note IH = Cons.IH [OF wf' _ this]
    show ?thesis
    proof (cases "LRUCache_requests f ks c'")
      case (Inl e)
      with IH m Cons.prems(2) c' calm [OF c'(1)] more show ?thesis by auto
    next
      case (Inr c2)
      with IH m Cons.prems(2) c' len show ?thesis by (auto simp: lru_step_def)
    qed
  next
    fix c' n assume c': "LRUCache_insert k (ret (f k)) c () = (Inl overflow, c', ())" "lru_tight c"
    have "calm (lru_links c) \<longrightarrow> 126 < unat (lru_max_size c) \<and> 126 < card (set (hist @ [k]))"
      using okc
      by (cases rule: lru.insert_cases [where k = k and mk = "ret (f k)" and s = "()"])
        (use c' tight_requests [OF _ _ _ Cons.prems(3), of k] in auto)
    with c' more show ?thesis by auto
  qed
qed

text \<open>C25: After any sequence of requests to a new cache on the hash map, each with a constructor that
  returns, the cache holds exactly the most recently requested keys, as many as fit, most recent
  first, or the hash map has thrown \<^verbatim>\<open>std::overflow_error\<close>, which does not happen to a cache of at
  most 126 entries, nor as long as at most 126 different keys have been requested.\<close>

theorem LRUCache_least_recently_used:
  assumes "0 < cap"
  shows "case LRUCache_requests f ks (LRUCache_ctor cap) of
      Inr c \<Rightarrow> map (fst \<circ> snd) (lru_entries c) = take (unat cap) (rev (remdups ks))
    | Inl e \<Rightarrow> e = overflow \<and> 126 < unat cap \<and> 126 < card (set ks)"
  using LRUCache_requests_spec [of "LRUCache_ctor cap" "[]" ks f] assms
  by (auto simp: lru_recent_def lru_abs_def split: sum.splits)

theorem LRUCache_least_recently_used_witness:
  "case LRUCache_requests id [1, 2, 1, 3] (LRUCache_ctor 2) of
      Inr c \<Rightarrow> map (fst \<circ> snd) (lru_entries c) = [3, 1]
    | Inl e \<Rightarrow> False"
  using LRUCache_least_recently_used [where cap = 2 and f = id and ks = "[1, 2, 1, 3]"] by (auto split: sum.splits)

text \<open>C28: A cache of 256 entries, the default size of the trace cache and of the TLBs, does not take
  128 entries whose keys are the addresses of \<open>crowd\<close>: \<^verbatim>\<open>std::overflow_error\<close> leaves \<^verbatim>\<open>insert\<close>.\<close>

theorem default_cache_overflows:
  "LRUCache_requests f crowd (LRUCache_ctor 256) = Inl overflow"
proof (cases "LRUCache_requests f crowd (LRUCache_ctor 256)")
  case (Inl e)
  with LRUCache_requests_spec [of "LRUCache_ctor 256" "[]" crowd f] show ?thesis
    by (simp add: lru_recent_def)
next
  case (Inr c)
  have len: "length crowd = 128" by code_simp
  from Inr LRUCache_requests_spec [of "LRUCache_ctor 256" "[]" crowd f] len
  have c: "lru_wf c" "map fst (lru_abs c) = rev crowd" "few_buckets (lru_links c)"
    by (simp_all add: lru_recent_def few_buckets_def distinct_remdups_id [OF distinct_crowd])
  then have "table_map (lru_links c) = links_of (lru_entries c)" by (simp add: lru_wf_def mc_wf_def)
  then have "dom (table_map (lru_links c)) = set (map fst (lru_abs c))"
    by (simp add: dom_map_of_conv_image_fst lru_abs_def image_image split_beta)
  then have "dom (table_map (lru_links c)) = set crowd" using c(2) by simp
  moreover have "table_ok hash_u32 (lru_links c)" using c(1) by (simp add: lru_wf_def)
  ultimately have "length crowd \<le> 127"
    using crowd_hash by (intro crowd_limit [OF _ c(3) distinct_crowd, of hash_u32 447]) (auto simp: list_all_iff)
  with len show ?thesis by simp
qed

end
