(* ===== verification/Mmu.thy ===== *)
theory Mmu
  imports Prelude Options LRU_Cache
begin

text \<open>
  The memory management unit: \<^verbatim>\<open>src/sim/mmu.h\<close>.

  The record \<open>MMU_State\<close> holds the members of \<^verbatim>\<open>MMU\<close>, its static register \<^verbatim>\<open>satp\<close> and the global
  statistics counters the accesses update; the theory \<open>Machine\<close> extends it to the state of the
  whole simulator, so the operations are stated for every extension of the record. Physical
  memory is a function from offsets to bytes together with its size, and reading or writing through
  a pointer beyond the size is a fault (\<open>peek\<close>, \<open>poke\<close>); the bytes of the freshly allocated array, which C++ leaves indeterminate, are a parameter of the constructor.
  Values in memory are their little-endian byte lists.
\<close>

datatype AccessType = READ | WRITE | EXEC

record MMU_State =
  instTLB :: "u64 LRUCache"
  dataTLB :: "u64 LRUCache"
  pmem_size :: u64
  pmem :: "nat \<Rightarrow> u8"
  satp :: u32
  stats :: Stats

definition pagesize :: u32 where "pagesize = 4096"

definition ptesize :: u8 where "ptesize = 4"

definition levels :: nat where "levels = 2"

text \<open>\<^verbatim>\<open>MMU()\<close> together with the initial values of \<^verbatim>\<open>satp\<close> (\<^verbatim>\<open>sim.cpp\<close>) and of the counters.\<close>

definition MMU_ctor :: "Options \<Rightarrow> (nat \<Rightarrow> u8) \<Rightarrow> MMU_State" where
  "MMU_ctor opts garbage = \<lparr>instTLB = LRUCache_ctor (itlb_size opts),
     dataTLB = LRUCache_ctor (dtlb_size opts), pmem_size = mem_pages opts * ucast pagesize,
     pmem = garbage, satp = 0x00000017, stats = zero_stats\<rparr>"

definition isVirtualAddressing :: "'a MMU_State_scheme \<Rightarrow> bool" where
  "isVirtualAddressing s \<longleftrightarrow> drop_bit 31 (satp s) \<noteq> 0"

definition MMU_flush :: "('a MMU_State_scheme, unit) M" where
  "MMU_flush = modify (\<lambda>s. s\<lparr>instTLB := LRUCache_clear (instTLB s), dataTLB := LRUCache_clear (dataTLB s)\<rparr>)"

section \<open>Physical memory\<close>

text \<open>\<^verbatim>\<open>getMemPtr<T>(pa)\<close> for a type of \<open>sz\<close> bytes: the offset of the pointer it returns.\<close>

definition getMemPtr :: "nat \<Rightarrow> u32 \<Rightarrow> ('a MMU_State_scheme, nat) M" where
  "getMemPtr sz pa s =
     (if ucast pa + of_nat sz \<ge> pmem_size s
      then (Inl (Throw ''Address is out of memory''), s) else (Inr (unat pa), s))"

definition read_bytes :: "nat \<Rightarrow> nat \<Rightarrow> (nat \<Rightarrow> u8) \<Rightarrow> u8 list" where
  "read_bytes p sz mem = map (\<lambda>i. mem (p + i)) [0..<sz]"

definition write_bytes :: "nat \<Rightarrow> u8 list \<Rightarrow> (nat \<Rightarrow> u8) \<Rightarrow> nat \<Rightarrow> u8" where
  "write_bytes p bs mem a = (if p \<le> a \<and> a < p + length bs then bs ! (a - p) else mem a)"

text \<open>Access through the pointer \<open>p\<close>: the object has to lie in the array.\<close>

definition peek :: "nat \<Rightarrow> nat \<Rightarrow> ('a MMU_State_scheme, u8 list) M" where
  "peek p sz s =
     (if p + sz \<le> unat (pmem_size s) then (Inr (read_bytes p sz (pmem s)), s)
      else (Inl (Undefined OutOfBounds), s))"

definition poke :: "nat \<Rightarrow> u8 list \<Rightarrow> ('a MMU_State_scheme, unit) M" where
  "poke p bs s =
     (if p + length bs \<le> unat (pmem_size s) then (Inr (), s\<lparr>pmem := write_bytes p bs (pmem s)\<rparr>)
      else (Inl (Undefined OutOfBounds), s))"

text \<open>The word at an offset of the memory.\<close>

definition peek32 :: "nat \<Rightarrow> 'a MMU_State_scheme \<Rightarrow> u32" where
  "peek32 p s = le_join (read_bytes p 4 (pmem s))"

section \<open>The page-table walk\<close>

text \<open>
  The loop of \<^verbatim>\<open>translate\<close> by its counter \<open>i\<close>, which counts the levels down; it returns the
  level and the pointer of the leaf entry. The address of the next table is computed in 32
  bits, as \<^verbatim>\<open>(*pte >> 10) * pagesize\<close> is.
\<close>

definition pte_address :: "nat \<Rightarrow> u64 \<Rightarrow> u32 \<Rightarrow> u32" where
  "pte_address i table_pa va = ucast (table_pa +
     ucast (ucast ptesize * (if i \<noteq> 0 then drop_bit 22 va else drop_bit 22 (push_bit 10 va))))"

fun walk :: "nat \<Rightarrow> u64 \<Rightarrow> u32 \<Rightarrow> ('a MMU_State_scheme, nat \<times> nat) M" where
  "walk i table_pa va =
     bnd (getMemPtr 4 (pte_address i table_pa va)) (\<lambda>p.
     bnd (peek p 4) (\<lambda>bs.
       let pte = le_join bs in
       if pte AND 1 = 0 \<or> (pte AND 2 = 0 \<and> pte AND 4 = 4)
       then raise (Throw ''page fault valid or R W'')
       else if pte AND 2 \<noteq> 0 \<or> pte AND 8 \<noteq> 0 then ret (i, p)
       else case i of
              0 \<Rightarrow> raise (Throw ''page fault i < 0'')
            | Suc j \<Rightarrow> walk j (ucast (drop_bit 10 pte * pagesize)) va))"

declare walk.simps [simp del]

text \<open>The address of the root table and the address that a leaf entry gives.\<close>

definition root_table :: "u32 \<Rightarrow> u64" where
  "root_table reg = ucast ((reg AND 0x3fffff) * pagesize)"

definition leaf_address :: "nat \<Rightarrow> u32 \<Rightarrow> u32 \<Rightarrow> u64" where
  "leaf_address i pte va =
     (let pa = push_bit 2 (ucast pte) in
      if i \<noteq> 0 then ucast (va AND 0x003fffff) OR (pa AND push_bit 22 (NOT 1))
      else ucast (va AND 0xfff) OR (pa AND push_bit 12 (NOT 1)))"

definition translate :: "u32 \<Rightarrow> AccessType \<Rightarrow> ('a MMU_State_scheme, u64) M" where
  "translate va acc s =
     (if \<not> isVirtualAddressing s then (Inr (ucast va), s)
      else bnd (walk (levels - 1) (root_table (satp s)) va) (\<lambda>(i, p).
           bnd (peek p 4) (\<lambda>bs.
             let pte = le_join bs in
             if (acc = READ \<and> pte AND 2 = 0) \<or> (acc = WRITE \<and> pte AND 4 = 0) \<or> (acc = EXEC \<and> pte AND 8 = 0)
             then raise (Throw ''page fault'')
             else if i > 0 \<and> drop_bit 10 pte AND 0x3ff \<noteq> 0 then raise (Throw ''page fault'')
             else
               let pte = pte OR 64;
                   pte = (if acc = WRITE then pte OR 128 else pte) in
               bnd (poke p (le_split 4 pte)) (\<lambda>_. ret (leaf_address i pte va)))) s)"

section \<open>Loads and stores\<close>

text \<open>A request to one of the TLBs; the constructor of \<^verbatim>\<open>PhysAddr\<close> is the translation.\<close>

definition instTLB_insert :: "u32 \<Rightarrow> ('a MMU_State_scheme, nat \<times> bool) M" where
  "instTLB_insert va s =
     (case LRUCache_insert va (translate va EXEC) (instTLB s) s of
        (r, c, s') \<Rightarrow> (r, s'\<lparr>instTLB := c\<rparr>))"

definition dataTLB_insert :: "u32 \<Rightarrow> AccessType \<Rightarrow> ('a MMU_State_scheme, nat \<times> bool) M" where
  "dataTLB_insert va acc s =
     (case LRUCache_insert va (translate va acc) (dataTLB s) s of
        (r, c, s') \<Rightarrow> (r, s'\<lparr>dataTLB := c\<rparr>))"

definition bump_stats :: "(Stats \<Rightarrow> Stats) \<Rightarrow> ('a MMU_State_scheme, unit) M" where
  "bump_stats f = modify (\<lambda>s. s\<lparr>stats := f (stats s)\<rparr>)"

definition load_tlb :: "u32 \<Rightarrow> bool \<Rightarrow> ('a MMU_State_scheme, u64) M" where
  "load_tlb va instRead =
     bnd (if instRead then instTLB_insert va else dataTLB_insert va READ) (\<lambda>(r, new).
     bnd (\<lambda>s. (LRUCache_deref (if instRead then instTLB s else dataTLB s) r, s)) (\<lambda>pa.
     bnd (bump_stats (\<lambda>t.
            if instRead
            then if new then t\<lparr>itlb_misses := itlb_misses t + 1\<rparr> else t\<lparr>itlb_hits := itlb_hits t + 1\<rparr>
            else if new then t\<lparr>dtlb_load_misses := dtlb_load_misses t + 1\<rparr>
                 else t\<lparr>dtlb_load_hits := dtlb_load_hits t + 1\<rparr>)) (\<lambda>_.
       ret pa)))"

definition load_address :: "u32 \<Rightarrow> bool \<Rightarrow> ('a MMU_State_scheme, u64) M" where
  "load_address va instRead s =
     (if isVirtualAddressing s then load_tlb va instRead s else (Inr (ucast va), s))"

definition MMU_load :: "nat \<Rightarrow> u32 \<Rightarrow> bool \<Rightarrow> ('a MMU_State_scheme, u8 list) M" where
  "MMU_load sz va instRead =
     bnd (load_address va instRead) (\<lambda>pa.
     bnd (getMemPtr sz (ucast pa)) (\<lambda>p. peek p sz))"

definition store_tlb :: "u32 \<Rightarrow> ('a MMU_State_scheme, u64) M" where
  "store_tlb va =
     bnd (dataTLB_insert va WRITE) (\<lambda>(r, new).
     bnd (\<lambda>s. (LRUCache_deref (dataTLB s) r, s)) (\<lambda>pa.
     bnd (bump_stats (\<lambda>t.
            if new then t\<lparr>dtlb_store_misses := dtlb_store_misses t + 1\<rparr>
            else t\<lparr>dtlb_store_hits := dtlb_store_hits t + 1\<rparr>)) (\<lambda>_.
       ret pa)))"

definition store_address :: "u32 \<Rightarrow> ('a MMU_State_scheme, u64) M" where
  "store_address va s =
     (if isVirtualAddressing s then store_tlb va s else (Inr (ucast va), s))"

definition MMU_store :: "u32 \<Rightarrow> u8 list \<Rightarrow> ('a MMU_State_scheme, unit) M" where
  "MMU_store va data =
     bnd (store_address va) (\<lambda>pa.
     bnd (getMemPtr (length data) (ucast pa)) (\<lambda>p. poke p data))"

section \<open>Physical memory: bounds and bytes\<close>

lemma length_read_bytes [simp]: "length (read_bytes p sz m) = sz"
  by (simp add: read_bytes_def)

text \<open>The bound check is exact in 64 bits: nothing wraps for the sizes of C++ objects.\<close>

lemma getMemPtr_bound:
  assumes "getMemPtr sz pa s = (Inr p, s')" and "sz < 2 ^ 63"
  shows "s' = s" "p = unat pa" "p + sz < unat (pmem_size s)"
proof -
  have "unat pa < 2 ^ 32" using unsigned_less [of pa, where ?'a = nat] by simp
  then have "unat (ucast pa + of_nat sz :: u64) = unat pa + sz"
    using assms(2) by (simp add: unat_word_ariths unat_ucast_up unat_of_nat)
  moreover have "\<not> pmem_size s \<le> ucast pa + of_nat sz" and *: "s' = s" "p = unat pa"
    using assms(1) by (auto simp: getMemPtr_def split: if_splits)
  ultimately show "s' = s" "p = unat pa" "p + sz < unat (pmem_size s)"
    by (simp_all add: word_le_nat_alt)
qed

lemma peek_in [simp]:
  "p + sz \<le> unat (pmem_size s) \<Longrightarrow> peek p sz s = (Inr (read_bytes p sz (pmem s)), s)"
  by (simp add: peek_def)

lemma poke_in [simp]:
  "p + length bs \<le> unat (pmem_size s) \<Longrightarrow> poke p bs s = (Inr (), s\<lparr>pmem := write_bytes p bs (pmem s)\<rparr>)"
  by (simp add: poke_def)

lemma peek_peek32:
  "p + 4 \<le> unat (pmem_size s) \<Longrightarrow> bnd (peek p 4) (\<lambda>bs. f (le_join bs)) s = f (peek32 p s) s"
  by (simp add: bnd_Inr peek32_def)

text \<open>Access through a pointer that \<open>getMemPtr\<close> returned for the size of the object.\<close>

lemma getMemPtr_peek:
  assumes "sz < 2 ^ 63"
  shows "bnd (getMemPtr sz pa) (\<lambda>p. peek p sz) =
    bnd (getMemPtr sz pa) (\<lambda>p. gets (\<lambda>s. read_bytes p sz (pmem s)))"
proof (rule ext)
  fix s :: "'a MMU_State_scheme"
  show "bnd (getMemPtr sz pa) (\<lambda>p. peek p sz) s =
    bnd (getMemPtr sz pa) (\<lambda>p. gets (\<lambda>s. read_bytes p sz (pmem s))) s"
    using getMemPtr_bound [OF _ assms, of pa s]
    by (cases "getMemPtr sz pa s"; cases "fst (getMemPtr sz pa s)") (auto simp: bnd_def)
qed

lemma getMemPtr_poke:
  assumes "length bs < 2 ^ 63"
  shows "bnd (getMemPtr (length bs) pa) (\<lambda>p. poke p bs) =
    bnd (getMemPtr (length bs) pa) (\<lambda>p. modify (\<lambda>s. s\<lparr>pmem := write_bytes p bs (pmem s)\<rparr>))"
proof (rule ext)
  fix s :: "'a MMU_State_scheme"
  show "bnd (getMemPtr (length bs) pa) (\<lambda>p. poke p bs) s =
    bnd (getMemPtr (length bs) pa) (\<lambda>p. modify (\<lambda>s. s\<lparr>pmem := write_bytes p bs (pmem s)\<rparr>)) s"
    using getMemPtr_bound [OF _ assms, of pa s]
    by (cases "getMemPtr (length bs) pa s"; cases "fst (getMemPtr (length bs) pa s)") (auto simp: bnd_def)
qed

lemma getMemPtr_cases:
  obtains (ok) "getMemPtr sz pa s = (Inr (unat pa), s)"
  | (out) "getMemPtr sz pa s = (Inl (Throw ''Address is out of memory''), s)"
  by (cases "ucast pa + of_nat sz \<ge> pmem_size s") (auto simp: getMemPtr_def)

lemma read_bytes_4: "read_bytes p 4 m = [m p, m (p + 1), m (p + 2), m (p + 3)]"
proof -
  have "[0..<4] = [0, 1, 2, 3]" by (simp add: upt_rec)
  then show ?thesis by (simp add: read_bytes_def)
qed

lemma peek32_bytes: "peek32 p s =
    ucast (pmem s p) OR push_bit 8 (ucast (pmem s (p + 1)) OR push_bit 8 (ucast (pmem s (p + 2)) OR
      push_bit 8 (ucast (pmem s (p + 3)))))"
  by (simp add: peek32_def read_bytes_4)

lemma read_write_same: "length bs = sz \<Longrightarrow> read_bytes p sz (write_bytes p bs m) = bs"
  by (rule nth_equalityI) (auto simp: read_bytes_def write_bytes_def)

lemma read_write_disjoint:
  "p + sz \<le> q \<or> q + length bs \<le> p \<Longrightarrow> read_bytes p sz (write_bytes q bs m) = read_bytes p sz m"
  by (auto simp: read_bytes_def write_bytes_def)

lemma write_bytes_outside: "p + length bs \<le> n \<Longrightarrow> n \<le> a \<Longrightarrow> write_bytes p bs m a = m a"
  by (simp add: write_bytes_def)

section \<open>What an access may change\<close>

text \<open>
  Every operation of the MMU changes at most the TLBs, the counters and bytes inside the
  physical memory.
\<close>

definition mmu_step :: "'a MMU_State_scheme \<Rightarrow> 'a MMU_State_scheme \<Rightarrow> bool" where
  "mmu_step s s' \<longleftrightarrow> (\<exists>it dt m st. s' = s\<lparr>instTLB := it, dataTLB := dt, pmem := m, stats := st\<rparr>
     \<and> (\<forall>a. unat (pmem_size s) \<le> a \<longrightarrow> m a = pmem s a))"

lemma mmu_stepI:
  "(\<And>a. unat (pmem_size s) \<le> a \<Longrightarrow> m a = pmem s a) \<Longrightarrow>
    mmu_step s (s\<lparr>instTLB := it, dataTLB := dt, pmem := m, stats := st\<rparr>)"
  by (auto simp: mmu_step_def)

lemma mmu_step_refl [simp, intro]: "mmu_step s s"
  using mmu_stepI [of s "pmem s" "stats s" "dataTLB s" "instTLB s"] by simp

lemma mmu_step_trans: "mmu_step s t \<Longrightarrow> mmu_step t u \<Longrightarrow> mmu_step s u"
  unfolding mmu_step_def by (elim exE conjE, hypsubst) (auto intro!: exI)

interpretation mmu: step_relation mmu_step
  by unfold_locales (auto intro: mmu_step_trans)

lemma mmu_step_pmem_size: "mmu_step s s' \<Longrightarrow> pmem_size s' = pmem_size s"
  by (auto simp: mmu_step_def)

lemma mmu_step_satp: "mmu_step s s' \<Longrightarrow> satp s' = satp s"
  by (auto simp: mmu_step_def)

lemma mmu_step_addressing: "mmu_step s s' \<Longrightarrow> isVirtualAddressing s' = isVirtualAddressing s"
  by (simp add: isVirtualAddressing_def mmu_step_satp)

lemma mmu_step_outside: "mmu_step s s' \<Longrightarrow> unat (pmem_size s) \<le> a \<Longrightarrow> pmem s' a = pmem s a"
  by (auto simp: mmu_step_def)

text \<open>The updates of the TLBs and of the counters alone.\<close>

lemma mmu_step_tlb [simp]:
  "mmu_step s (s\<lparr>instTLB := c\<rparr>)" "mmu_step s (s\<lparr>dataTLB := d\<rparr>)" "mmu_step s (s\<lparr>stats := t\<rparr>)"
  using mmu_stepI [of s "pmem s" "stats s" "dataTLB s" c] mmu_stepI [of s "pmem s" "stats s" d "instTLB s"]
    mmu_stepI [of s "pmem s" t "dataTLB s" "instTLB s"] by simp_all

lemma mmu_step_poke: "p + length bs \<le> unat (pmem_size s) \<Longrightarrow> mmu_step s (s\<lparr>pmem := write_bytes p bs (pmem s)\<rparr>)"
  using mmu_stepI [of s "write_bytes p bs (pmem s)" "stats s" "dataTLB s" "instTLB s"]
  by (simp add: write_bytes_outside)

lemma mmu_step_peek: "frames mmu_step (peek p sz)"
  by (simp add: frames_def peek_def)

lemma mmu_step_poke_ptr: "frames mmu_step (poke p bs)"
  by (simp add: frames_def poke_def mmu_step_poke)

lemma mmu_step_getMemPtr: "frames mmu_step (getMemPtr sz pa)"
  by (simp add: frames_def getMemPtr_def)

text \<open>
  The walk reads entries inside the memory only, so that it is a function of the words there.
\<close>

lemma walk_eq:
  "walk i table_pa va s =
     bnd (getMemPtr 4 (pte_address i table_pa va)) (\<lambda>p.
     bnd (gets (peek32 p)) (\<lambda>pte.
       if pte AND 1 = 0 \<or> (pte AND 2 = 0 \<and> pte AND 4 = 4)
       then raise (Throw ''page fault valid or R W'')
       else if pte AND 2 \<noteq> 0 \<or> pte AND 8 \<noteq> 0 then ret (i, p)
       else case i of
              0 \<Rightarrow> raise (Throw ''page fault i < 0'')
            | Suc j \<Rightarrow> walk j (ucast (drop_bit 10 pte * pagesize)) va)) s"
  using getMemPtr_bound [of 4 "pte_address i table_pa va" s "unat (pte_address i table_pa va)" s]
  by (cases rule: getMemPtr_cases [where sz = 4 and pa = "pte_address i table_pa va" and s = s])
    (simp_all add: walk.simps [of i] bnd_Inr bnd_Inl peek32_def Let_def split: nat.split)

end
