(* ===== verification/Mmu_Correct.thy ===== *)
theory Mmu_Correct
  imports Mmu
begin

text \<open>
  Properties of the memory management unit: every access stays inside the physical memory and
  fails only by an exception, a store is read back by the next load, and the page-table walk
  against the Sv32 translation of the RISC-V privileged architecture.
\<close>

section \<open>Frames\<close>

lemma poke_pte_in_bounds:
  "p + 4 \<le> unat (pmem_size s) \<Longrightarrow> mmu_step s (s\<lparr>pmem := write_bytes p (le_split 4 w) (pmem s)\<rparr>)"
  by (rule mmu_step_poke) simp

text \<open>A walk changes nothing and returns the address of an entry inside the memory.\<close>

lemma walk_result:
  "walk i t va s = (r, s') \<Longrightarrow> s' = s \<and>
    (case r of Inl e \<Rightarrow> is_Throw e | Inr (k, p) \<Rightarrow> k \<le> i \<and> p + 4 < unat (pmem_size s) \<and>
       (peek32 p s AND 1 \<noteq> 0 \<and> (peek32 p s AND 2 \<noteq> 0 \<or> peek32 p s AND 8 \<noteq> 0)))"
proof (induction i arbitrary: t)
  case 0
  show ?case
    using getMemPtr_bound [of 4 "pte_address 0 t va" s "unat (pte_address 0 t va)" s]
    by (cases rule: getMemPtr_cases [where sz = 4 and pa = "pte_address 0 t va" and s = s])
      (use 0 in \<open>auto simp: walk_eq [of 0] bnd_Inr bnd_Inl split: if_splits\<close>)
next
  case (Suc i)
  show ?case
    using getMemPtr_bound [of 4 "pte_address (Suc i) t va" s "unat (pte_address (Suc i) t va)" s]
    by (cases rule: getMemPtr_cases [where sz = 4 and pa = "pte_address (Suc i) t va" and s = s])
      (use Suc.prems in \<open>auto simp: walk_eq [of "Suc i"] bnd_Inr bnd_Inl
        split: if_splits sum.splits dest!: Suc.IH\<close>)
qed

text \<open>The entry that the walk returns is updated inside the memory.\<close>

lemma translate_eq:
  "translate va acc s =
     (if \<not> isVirtualAddressing s then (Inr (ucast va), s)
      else bnd (walk (levels - 1) (root_table (satp s)) va) (\<lambda>(i, p).
           bnd (gets (peek32 p)) (\<lambda>pte.
             if (acc = READ \<and> pte AND 2 = 0) \<or> (acc = WRITE \<and> pte AND 4 = 0) \<or> (acc = EXEC \<and> pte AND 8 = 0)
             then raise (Throw ''page fault'')
             else if i > 0 \<and> drop_bit 10 pte AND 0x3ff \<noteq> 0 then raise (Throw ''page fault'')
             else
               let pte = pte OR 64;
                   pte = (if acc = WRITE then pte OR 128 else pte) in
               bnd (modify (\<lambda>s. s\<lparr>pmem := write_bytes p (le_split 4 pte) (pmem s)\<rparr>)) (\<lambda>_.
                 ret (leaf_address i pte va)))) s)"
proof (cases "isVirtualAddressing s")
  case True
  obtain q t where w: "walk (levels - 1) (root_table (satp s)) va s = (q, t)"
    by (cases "walk (levels - 1) (root_table (satp s)) va s")
  show ?thesis
  proof (cases q)
    case (Inl e)
    with True w show ?thesis by (simp add: translate_def bnd_Inl)
  next
    case (Inr kp)
    obtain k p where kp: "kp = (k, p)" by (cases kp)
    have "t = s" and p: "p + 4 \<le> unat (pmem_size s)"
      using walk_result [OF w] Inr kp by auto
    moreover have "poke p (le_split 4 v) s = (Inr (), s\<lparr>pmem := write_bytes p (le_split 4 v) (pmem s)\<rparr>)"
      for v :: u32
      using p by (simp add: poke_def)
    ultimately show ?thesis
      using True w Inr kp by (simp add: translate_def bnd_Inr Let_def peek32_def)
  qed
qed (simp add: translate_def)

lemma translate_result:
  assumes "translate va acc s = (r, s')"
  shows "mmu_step s s'" "instTLB s' = instTLB s" "dataTLB s' = dataTLB s" "stats s' = stats s"
    "r = Inl e \<Longrightarrow> is_Throw e"
proof -
  have "mmu_step s s' \<and> instTLB s' = instTLB s \<and> dataTLB s' = dataTLB s \<and> stats s' = stats s \<and>
    (\<forall>e. r = Inl e \<longrightarrow> is_Throw e)"
  proof (cases "isVirtualAddressing s")
    case False
    with assms show ?thesis by (auto simp: translate_eq)
  next
    case True
    obtain q t where w: "walk (levels - 1) (root_table (satp s)) va s = (q, t)"
      by (cases "walk (levels - 1) (root_table (satp s)) va s")
    show ?thesis
    proof (cases q)
      case (Inl e)
      with walk_result [OF w] assms True w show ?thesis
        by (auto simp: translate_eq bnd_def)
    next
      case (Inr kp)
      with walk_result [OF w] assms True w show ?thesis
        by (auto simp: translate_eq bnd_def Let_def intro!: poke_pte_in_bounds
            split: prod.splits if_splits)
    qed
  qed
  then show "mmu_step s s'" "instTLB s' = instTLB s" "dataTLB s' = dataTLB s" "stats s' = stats s"
    "r = Inl e \<Longrightarrow> is_Throw e" by auto
qed

lemma mmu_step_instTLB: "frames mmu_step (instTLB_insert va)"
proof (rule framesI)
  fix s q s' assume "instTLB_insert va s = (q, s' :: 'a MMU_State_scheme)"
  then obtain c t where "LRUCache_insert va (translate va EXEC) (instTLB s) s = (q, c, t)"
    and s': "s' = t\<lparr>instTLB := c\<rparr>"
    by (auto simp: instTLB_insert_def split: prod.splits)
  from LRUCache_insert_frame [where R = mmu_step, OF _ _ this(1)] have "mmu_step s t"
    by (auto dest: translate_result(1))
  then show "mmu_step s s'" unfolding s' by (rule mmu_step_trans) simp
qed

lemma mmu_step_dataTLB: "frames mmu_step (dataTLB_insert va acc)"
proof (rule framesI)
  fix s q s' assume "dataTLB_insert va acc s = (q, s' :: 'a MMU_State_scheme)"
  then obtain c t where "LRUCache_insert va (translate va acc) (dataTLB s) s = (q, c, t)"
    and s': "s' = t\<lparr>dataTLB := c\<rparr>"
    by (auto simp: dataTLB_insert_def split: prod.splits)
  from LRUCache_insert_frame [where R = mmu_step, OF _ _ this(1)] have "mmu_step s t"
    by (auto dest: translate_result(1))
  then show "mmu_step s s'" unfolding s' by (rule mmu_step_trans) simp
qed

lemma mmu_step_load_address: "frames mmu_step (load_address va instRead)"
proof -
  have "frames mmu_step (load_tlb va instRead)"
    unfolding load_tlb_def split_beta bump_stats_def
    by (intro mmu.frames_rules mmu_step_instTLB mmu_step_dataTLB mmu.frames_modify framesI) auto
  then show ?thesis by (auto simp: frames_def load_address_def)
qed

lemma mmu_step_store_address: "frames mmu_step (store_address va)"
proof -
  have "frames mmu_step (store_tlb va)"
    unfolding store_tlb_def split_beta bump_stats_def
    by (intro mmu.frames_rules mmu_step_dataTLB mmu.frames_modify framesI) auto
  then show ?thesis by (auto simp: frames_def store_address_def)
qed

lemma MMU_load_frame: "frames mmu_step (MMU_load sz va instRead)"
  unfolding MMU_load_def
  by (intro mmu.frames_rules mmu_step_load_address mmu_step_getMemPtr mmu_step_peek)

lemma MMU_store_frame: "frames mmu_step (MMU_store va bs)"
  unfolding MMU_store_def
  by (intro mmu.frames_bnd mmu_step_store_address mmu_step_getMemPtr mmu_step_poke_ptr)

text \<open>
  What an access does behind the translation: for the sizes of C++ objects the pointer is good.
\<close>

lemma MMU_load_eq:
  assumes "sz < 2 ^ 63"
  shows "MMU_load sz va instRead s =
     bnd (load_address va instRead) (\<lambda>pa.
     bnd (getMemPtr sz (ucast pa)) (\<lambda>p.
       gets (\<lambda>s. read_bytes p sz (pmem s)))) s"
  using assms by (simp add: MMU_load_def getMemPtr_peek)

lemma MMU_store_eq:
  assumes "length bs < 2 ^ 63"
  shows "MMU_store va bs s =
     bnd (store_address va) (\<lambda>pa.
     bnd (getMemPtr (length bs) (ucast pa)) (\<lambda>p.
       modify (\<lambda>s. s\<lparr>pmem := write_bytes p bs (pmem s)\<rparr>))) s"
  using assms by (simp add: MMU_store_def getMemPtr_poke)

section \<open>Invariant\<close>

definition mmu_ok :: "'a MMU_State_scheme \<Rightarrow> bool" where
  "mmu_ok s \<longleftrightarrow> lru_ok (instTLB s) \<and> lru_ok (dataTLB s)"

lemma mmu_ok_ctor: "0 < itlb_size o1 \<Longrightarrow> 0 < dtlb_size o1 \<Longrightarrow> mmu_ok (MMU_ctor o1 g)"
  by (simp add: mmu_ok_def MMU_ctor_def)

lemma mmu_ok_flush: "safe mmu_ok MMU_flush"
  unfolding MMU_flush_def by (intro hoare) (simp add: mmu_ok_def)

text \<open>
  After a request to a TLB the reference it returns is good, and the TLB holds the
  translation under the virtual address.
\<close>

lemma instTLB_insert_ok:
  assumes "mmu_ok s" and "instTLB_insert va s = (Inr (r, new), s')"
  obtains pa where "mmu_ok s'" "LRUCache_deref (instTLB s') r = Inr pa"
    "map_of (lru_abs (instTLB s')) va = Some pa"
proof -
  have ok: "lru_ok (instTLB s)" "lru_ok (dataTLB s)" using assms(1) by (auto simp: mmu_ok_def)
  obtain c t where ins: "LRUCache_insert va (translate va EXEC) (instTLB s) s = (Inr (r, new), c, t)"
    and s': "s' = t\<lparr>instTLB := c\<rparr>"
    using assms(2) by (auto simp: instTLB_insert_def split: prod.splits)
  from ok(1) show thesis
  proof (cases rule: lru.insert_cases [where k = va and mk = "translate va EXEC" and s = s])
    case (hit r' c' v)
    with ins ok(2) s' that show thesis by (auto simp: mmu_ok_def lru_spec_def)
  next
    case (miss r' c' v t')
    with ins ok(2) s' that translate_result(3) [OF miss(2)] show thesis
      by (auto simp: mmu_ok_def lru_spec_def)
  qed (use ins in simp_all)
qed

lemma dataTLB_insert_ok:
  assumes "mmu_ok s" and "dataTLB_insert va acc s = (Inr (r, new), s')"
  obtains pa where "mmu_ok s'" "LRUCache_deref (dataTLB s') r = Inr pa"
    "map_of (lru_abs (dataTLB s')) va = Some pa"
proof -
  have ok: "lru_ok (instTLB s)" "lru_ok (dataTLB s)" using assms(1) by (auto simp: mmu_ok_def)
  obtain c t where ins: "LRUCache_insert va (translate va acc) (dataTLB s) s = (Inr (r, new), c, t)"
    and s': "s' = t\<lparr>dataTLB := c\<rparr>"
    using assms(2) by (auto simp: dataTLB_insert_def split: prod.splits)
  from ok(2) show thesis
  proof (cases rule: lru.insert_cases [where k = va and mk = "translate va acc" and s = s])
    case (hit r' c' v)
    with ins ok(1) s' that show thesis by (auto simp: mmu_ok_def lru_spec_def)
  next
    case (miss r' c' v t')
    with ins ok(1) s' that translate_result(2) [OF miss(2)] show thesis
      by (auto simp: mmu_ok_def lru_spec_def)
  qed (use ins in simp_all)
qed

lemma TLB_insert_throws:
  assumes "mmu_ok s"
  shows "instTLB_insert va s = (Inl e, s') \<Longrightarrow> is_exception e"
    and "dataTLB_insert va acc s = (Inl e, s') \<Longrightarrow> is_exception e"
proof -
  have ok: "lru_ok (instTLB s)" "lru_ok (dataTLB s)" using assms by (auto simp: mmu_ok_def)
  show "is_exception e" if "instTLB_insert va s = (Inl e, s')"
    using ok(1) that
    by (cases rule: lru.insert_cases [where k = va and mk = "translate va EXEC" and s = s])
      (auto simp: instTLB_insert_def dest!: translate_result(5) Throw_exception)
  show "is_exception e" if "dataTLB_insert va acc s = (Inl e, s')"
    using ok(2) that
    by (cases rule: lru.insert_cases [where k = va and mk = "translate va acc" and s = s])
      (auto simp: dataTLB_insert_def dest!: translate_result(5) Throw_exception)
qed

lemma mmu_ok_stats [simp]: "mmu_ok (s\<lparr>stats := t\<rparr>) = mmu_ok s"
  by (simp add: mmu_ok_def)

lemma load_tlb_safe: "safe mmu_ok (load_tlb va instRead)"
  unfolding safe_def
proof (rule validI)
  fix s a s' assume "mmu_ok s" "load_tlb va instRead s = (Inr a, s')"
  then show "mmu_ok s'"
    by (auto simp: load_tlb_def bump_stats_def bnd_def split: prod.splits sum.splits if_splits
        elim: instTLB_insert_ok dataTLB_insert_ok)
next
  fix s e s' assume "mmu_ok s" "load_tlb va instRead s = (Inl e, s')"
  then show "is_exception e"
    by (auto simp: load_tlb_def bump_stats_def bnd_def split: prod.splits sum.splits if_splits
        elim: instTLB_insert_ok dataTLB_insert_ok dest: TLB_insert_throws)
qed

lemma store_tlb_safe: "safe mmu_ok (store_tlb va)"
  unfolding safe_def
proof (rule validI)
  fix s a s' assume "mmu_ok s" "store_tlb va s = (Inr a, s')"
  then show "mmu_ok s'"
    by (auto simp: store_tlb_def bump_stats_def bnd_def split: prod.splits sum.splits if_splits
        elim: dataTLB_insert_ok)
next
  fix s e s' assume "mmu_ok s" "store_tlb va s = (Inl e, s')"
  then show "is_exception e"
    by (auto simp: store_tlb_def bump_stats_def bnd_def split: prod.splits sum.splits if_splits
        elim: dataTLB_insert_ok dest: TLB_insert_throws)
qed

lemma load_address_safe [hoare]: "safe mmu_ok (load_address va instRead)"
  using load_tlb_safe [of va instRead]
  by (auto simp: safe_def valid_def load_address_def)

lemma store_address_safe [hoare]: "safe mmu_ok (store_address va)"
  using store_tlb_safe [of va]
  by (auto simp: safe_def valid_def store_address_def)

lemma getMemPtr_safe [hoare]: "safe mmu_ok (getMemPtr sz pa)"
  by (simp add: safe_def valid_def getMemPtr_def)

lemma MMU_load_safe [hoare]: "sz < 2 ^ 63 \<Longrightarrow> safe mmu_ok (MMU_load sz va instRead)"
  by (simp only: MMU_load_def getMemPtr_peek) (intro hoare)

lemma MMU_store_safe [hoare]: "length bs < 2 ^ 63 \<Longrightarrow> safe mmu_ok (MMU_store va bs)"
  by (simp only: MMU_store_def getMemPtr_poke) (intro hoare, simp add: mmu_ok_def)

section \<open>Loads after stores\<close>

lemma store_tlb_hit_next:
  assumes ok: "mmu_ok s" and eq: "store_tlb va s = (Inr pa, s')"
  shows "mmu_ok s'" "map_of (lru_abs (dataTLB s')) va = Some pa"
proof -
  obtain r new t f where "dataTLB_insert va WRITE s = (Inr (r, new), t)"
    and "LRUCache_deref (dataTLB t) r = Inr pa" and s': "s' = t\<lparr>stats := f\<rparr>"
    using eq
    by (auto simp: store_tlb_def bump_stats_def bnd_def split: prod.splits sum.splits if_splits)
  with dataTLB_insert_ok [OF ok this(1)] show "mmu_ok s'" "map_of (lru_abs (dataTLB s')) va = Some pa"
    by auto
qed

lemma load_tlb_hit:
  assumes ok: "mmu_ok s" and hit: "map_of (lru_abs (dataTLB s)) va = Some pa"
  obtains s' where "load_tlb va False s = (Inr pa, s')" "pmem s' = pmem s" "pmem_size s' = pmem_size s"
proof -
  have ok': "lru_ok (dataTLB s)" using ok by (simp add: mmu_ok_def)
  from lru.cache_hit [OF this hit, of "translate va READ" s] obtain r c where
    "LRUCache_insert va (translate va READ) (dataTLB s) s = (Inr (r, False), c, s)"
    "LRUCache_deref c r = Inr pa"
    by blast
  then show thesis
    by (intro that [of "s\<lparr>dataTLB := c, stats := (stats s)\<lparr>dtlb_load_hits := dtlb_load_hits (stats s) + 1\<rparr>\<rparr>"])
      (simp_all add: load_tlb_def dataTLB_insert_def bnd_def bump_stats_def)
qed

lemma MMU_store_load:
  assumes ok: "mmu_ok s" and st: "MMU_store va bs s = (Inr (), s')"
  shows "fst (MMU_load (length bs) va False s') = Inr bs"
proof -
  obtain pa t where sa: "store_address va s = (Inr pa, t)"
    and gp: "getMemPtr (length bs) (ucast pa) t = (Inr (unat (ucast pa :: u32)), t)"
    and s': "s' = t\<lparr>pmem := write_bytes (unat (ucast pa :: u32)) bs (pmem t)\<rparr>"
    and inside: "unat (ucast pa :: u32) + length bs \<le> unat (pmem_size t)"
    using st
    by (auto simp: MMU_store_def bnd_def getMemPtr_def poke_def split: prod.splits sum.splits if_splits)
  have ld: "\<exists>u. load_address va False s' = (Inr pa, u) \<and> pmem u = pmem s' \<and> pmem_size u = pmem_size s'"
  proof (cases "isVirtualAddressing s")
    case True
    then have stl: "store_tlb va s = (Inr pa, t)" using sa by (simp add: store_address_def)
    have "isVirtualAddressing s'"
      using True framesD [OF mmu_step_store_address sa] by (auto simp: s' mmu_step_def isVirtualAddressing_def)
    moreover have "mmu_ok s'" "map_of (lru_abs (dataTLB s')) va = Some pa"
      using store_tlb_hit_next [OF ok stl] by (simp_all add: s' mmu_ok_def)
    ultimately show ?thesis
      using load_tlb_hit [of s' va pa] by (metis load_address_def)
  next
    case False
    with sa s' show ?thesis
      by (auto simp: store_address_def load_address_def isVirtualAddressing_def)
  qed
  then obtain u where "load_address va False s' = (Inr pa, u)" and u: "pmem u = pmem s'" "pmem_size u = pmem_size s'"
    by auto
  then show ?thesis
    using gp inside
    by (simp add: MMU_load_def bnd_def getMemPtr_def peek_def s' u read_write_same split: if_splits)
qed

lemma length_MMU_load: "MMU_load sz va instRead s = (Inr data, s') \<Longrightarrow> length data = sz"
  by (auto simp: MMU_load_def bnd_def peek_def split: prod.splits sum.splits if_splits)

lemma store_tlb_hit:
  assumes ok: "mmu_ok s" and hit: "map_of (lru_abs (dataTLB s)) va = Some pa"
  obtains s' where "store_tlb va s = (Inr pa, s')" "pmem s' = pmem s"
proof -
  have ok': "lru_ok (dataTLB s)" using ok by (simp add: mmu_ok_def)
  from lru.cache_hit [OF this hit, of "translate va WRITE" s] obtain r c where
    "LRUCache_insert va (translate va WRITE) (dataTLB s) s = (Inr (r, False), c, s)"
    "LRUCache_deref c r = Inr pa"
    by blast
  then show thesis
    by (intro that [of "s\<lparr>dataTLB := c, stats := (stats s)\<lparr>dtlb_store_hits := dtlb_store_hits (stats s) + 1\<rparr>\<rparr>"])
      (simp_all add: store_tlb_def dataTLB_insert_def bnd_def bump_stats_def)
qed

section \<open>Without address translation\<close>

lemma ucast_32_64_32 [simp]: "ucast (ucast (x :: u32) :: u64) = x"
  by (rule bit_word_eqI) (simp add: bit_simps)

lemma bare_load:
  assumes "\<not> isVirtualAddressing s" "sz < 2 ^ 63"
  shows "MMU_load sz va b s = (if unat va + sz < unat (pmem_size s)
     then Inr (read_bytes (unat va) sz (pmem s)) else Inl (Throw ''Address is out of memory''), s)"
proof -
  have "unat (ucast va + of_nat sz :: u64) = unat va + sz"
    using assms(2) unsigned_less [of va, where ?'a = nat]
    by (simp add: unat_word_ariths unat_ucast_up unat_of_nat)
  then show ?thesis
    using assms by (simp add: MMU_load_eq load_address_def bnd_def getMemPtr_def word_le_nat_alt)
qed

lemma bare_store:
  assumes "\<not> isVirtualAddressing s" "length bs < 2 ^ 63"
  shows "MMU_store va bs s = (if unat va + length bs < unat (pmem_size s)
     then (Inr (), s\<lparr>pmem := write_bytes (unat va) bs (pmem s)\<rparr>)
     else (Inl (Throw ''Address is out of memory''), s))"
proof -
  have "unat (ucast va + of_nat (length bs) :: u64) = unat va + length bs"
    using assms(2) unsigned_less [of va, where ?'a = nat]
    by (simp add: unat_word_ariths unat_ucast_up unat_of_nat)
  then show ?thesis
    using assms by (simp add: MMU_store_eq store_address_def bnd_def getMemPtr_def word_le_nat_alt)
qed


section \<open>The properties\<close>

text \<open>C13: From a state with sound TLBs of positive size, a load or store of a C++ object (of fewer
  than \<open>2 ^ 63\<close> bytes) in either addressing mode never goes through a pointer beyond the physical
  memory and meets no other undefined behaviour: it returns, with sound TLBs, or it throws an
  exception, a \<^verbatim>\<open>SimException\<close> or the overflow error of a TLB. In both cases it has changed nothing
  but the TLBs, the counters and bytes inside the physical memory.\<close>

theorem MMU_accesses_safe:
  assumes "mmu_ok s" and "sz < 2 ^ 63" and "length bs < 2 ^ 63"
  shows "(case MMU_load sz va instRead s of
            (Inl e, s') \<Rightarrow> is_exception e \<and> mmu_step s s'
          | (Inr data, s') \<Rightarrow> length data = sz \<and> mmu_ok s' \<and> mmu_step s s') \<and>
         (case MMU_store va bs s of
            (Inl e, s') \<Rightarrow> is_exception e \<and> mmu_step s s'
          | (Inr u, s') \<Rightarrow> mmu_ok s' \<and> mmu_step s s')"
  using safeD [OF MMU_load_safe [OF assms(2)] assms(1)] safeD [OF MMU_store_safe [OF assms(3)] assms(1)]
    framesD [OF MMU_load_frame] framesD [OF MMU_store_frame]
  by (auto split: prod.splits sum.splits dest: length_MMU_load)

theorem MMU_accesses_safe_witness:
  "case MMU_store 16 [1, 2] (MMU_ctor default_options (\<lambda>_. 0)) of
      (Inl e, s') \<Rightarrow> is_exception e \<and> mmu_step (MMU_ctor default_options (\<lambda>_. 0)) (s' :: MMU_State)
    | (Inr u, s') \<Rightarrow> mmu_ok s' \<and> mmu_step (MMU_ctor default_options (\<lambda>_. 0)) s'"
  using MMU_accesses_safe [OF mmu_ok_ctor, of default_options 4 "[1, 2]"]
  by (simp add: default_options_def)

text \<open>C14: What a store has written is what the next data load from the same virtual address
  reads, with or without address translation.\<close>

theorem MMU_load_after_store:
  assumes "mmu_ok s" and "MMU_store va bs s = (Inr (), s')"
  shows "fst (MMU_load (length bs) va False s') = Inr bs"
  using assms by (rule MMU_store_load)

theorem MMU_load_after_store_witness:
  "fst (MMU_load 2 16 False (snd (MMU_store 16 [1, 2] (MMU_ctor default_options (\<lambda>_. 0) :: MMU_State)))) =
    Inr [1, 2]"
proof -
  have "MMU_store 16 [1, 2] (MMU_ctor default_options (\<lambda>_. 0) :: MMU_State) =
    (Inr (), snd (MMU_store 16 [1, 2] (MMU_ctor default_options (\<lambda>_. 0))))"
    by (simp add: MMU_store_def store_address_def MMU_ctor_def default_options_def pagesize_def
        isVirtualAddressing_def bnd_def getMemPtr_def poke_def)
  moreover have "mmu_ok (MMU_ctor default_options (\<lambda>_. 0) :: MMU_State)"
    by (rule mmu_ok_ctor) (simp_all add: default_options_def)
  moreover have "length [1, 2 :: u8] = 2" by simp
  ultimately show ?thesis using MMU_load_after_store by metis
qed

text \<open>C33: The data TLB is filled by loads and stores alike and is keyed by the address alone: once
  an address is in it, a store succeeds in finding its physical address without any check of
  the write permission, and without setting the dirty bit.\<close>

theorem TLB_hit_skips_permission:
  assumes "mmu_ok s" and "isVirtualAddressing s" and "map_of (lru_abs (dataTLB s)) va = Some pa"
  shows "fst (store_address va s) = Inr pa \<and> pmem (snd (store_address va s)) = pmem s"
  using store_tlb_hit [OF assms(1,3)] assms(2) by (metis fst_conv snd_conv store_address_def)

theorem TLB_hit_skips_permission_witness:
  "let c = fst (snd (LRUCache_insert 0x1234 (ret 0x4234) (LRUCache_ctor 4) ()));
       s = (MMU_ctor default_options (\<lambda>_. 0))\<lparr>satp := 0x80000001, dataTLB := c\<rparr> :: MMU_State in
   fst (store_address 0x1234 s) = Inr 0x4234 \<and> fst (translate 0x1234 WRITE s) \<noteq> Inr 0x4234"
proof -
  define c :: "u64 LRUCache" where "c = fst (snd (LRUCache_insert 0x1234 (ret 0x4234) (LRUCache_ctor 4) ()))"
  have c: "lru_ok c" "map_of (lru_abs c) 0x1234 = Some 0x4234"
  proof -
    have ok: "lru_ok (LRUCache_ctor 4 :: u64 LRUCache)" by simp
    have "lru_ok c \<and> map_of (lru_abs c) 0x1234 = Some 0x4234"
      using ok
      by (cases rule: lru.insert_cases [where k = "0x1234" and mk = "ret 0x4234" and s = "()"])
        (auto simp: c_def lru_spec_def lru.tight_def)
    then show "lru_ok c" "map_of (lru_abs c) 0x1234 = Some 0x4234" by simp_all
  qed
  let ?s = "(MMU_ctor default_options (\<lambda>_. 0))\<lparr>satp := 0x80000001, dataTLB := c\<rparr> :: MMU_State"
  have v: "isVirtualAddressing ?s" by (simp add: isVirtualAddressing_def)
  have "mmu_ok ?s" using c(1) by (simp add: mmu_ok_def MMU_ctor_def default_options_def)
  moreover have "map_of (lru_abs (dataTLB ?s)) 0x1234 = Some 0x4234" using c(2) by simp
  ultimately have "fst (store_address 0x1234 ?s) = Inr 0x4234"
    using TLB_hit_skips_permission [OF _ v] by blast
  moreover have "fst (translate 0x1234 WRITE ?s) \<noteq> Inr 0x4234"
    by (simp add: isVirtualAddressing_def translate_eq levels_def walk_eq [of "Suc 0"] bnd_def
        getMemPtr_def peek32_bytes MMU_ctor_def default_options_def pagesize_def root_table_def
        pte_address_def ptesize_def)
  ultimately show ?thesis by (simp add: Let_def flip: c_def)
qed

end
