(* ===== verification/Sv32.thy ===== *)
theory Sv32
  imports Mmu_Correct
begin

text \<open>
  The page-table walk of \<^verbatim>\<open>src/sim/mmu.h\<close> against the Sv32 scheme of the RISC-V privileged
  architecture: \<open>sv32\<close> is the translation the architecture asks for, on the words of the
  physical memory, and \<open>translate_sv32\<close> says what \<open>translate\<close> computes in its terms.
\<close>

section \<open>The Sv32 translation\<close>

text \<open>
  The two-level translation of the privileged architecture, as far as the simulator claims it
  (no privilege modes): entries are words of the physical memory \<open>rd\<close>, a leaf on level 1 maps a
  4 MiB page and must have a zero low page number, and the result is the level, the address of
  the leaf entry and the physical address.
\<close>

definition sv32_valid :: "u32 \<Rightarrow> bool" where
  "sv32_valid pte \<longleftrightarrow> bit pte 0 \<and> (bit pte 2 \<longrightarrow> bit pte 1)"

definition sv32_leaf :: "u32 \<Rightarrow> bool" where
  "sv32_leaf pte \<longleftrightarrow> bit pte 1 \<or> bit pte 3"

fun sv32_permits :: "AccessType \<Rightarrow> u32 \<Rightarrow> bool" where
  "sv32_permits READ pte = bit pte 1"
| "sv32_permits WRITE pte = bit pte 2"
| "sv32_permits EXEC pte = bit pte 3"

definition sv32_page :: "u32 \<Rightarrow> u64" where
  "sv32_page pte = push_bit 12 (ucast (drop_bit 10 pte))"

definition vpn :: "nat \<Rightarrow> u32 \<Rightarrow> nat" where
  "vpn i va = unat (take_bit 10 (drop_bit (12 + 10 * i) va))"

definition sv32 :: "(nat \<Rightarrow> u32) \<Rightarrow> nat \<Rightarrow> u32 \<Rightarrow> AccessType \<Rightarrow> (nat \<times> nat \<times> u64) option" where
  "sv32 rd root va acc =
     (let p1 = root * 4096 + 4 * vpn 1 va; pte1 = rd p1 in
      if \<not> sv32_valid pte1 then None
      else if sv32_leaf pte1 then
        if sv32_permits acc pte1 \<and> take_bit 10 (drop_bit 10 pte1) = 0
        then Some (1, p1, sv32_page pte1 OR ucast (take_bit 22 va)) else None
      else
        let p0 = unat (drop_bit 10 pte1) * 4096 + 4 * vpn 0 va; pte0 = rd p0 in
        if sv32_valid pte0 \<and> sv32_leaf pte0 \<and> sv32_permits acc pte0
        then Some (0, p0, sv32_page pte0 OR ucast (take_bit 12 va)) else None)"

text \<open>The tables that the translation of \<open>va\<close> reads lie inside the memory.\<close>

definition tables_in_memory :: "'a MMU_State_scheme \<Rightarrow> u32 \<Rightarrow> bool" where
  "tables_in_memory s va \<longleftrightarrow>
     (let root = unat (take_bit 22 (satp s)); pte1 = peek32 (root * 4096 + 4 * vpn 1 va) s in
      unat (pmem_size s) \<le> 2 ^ 32 \<and> root * 4096 + 4096 < unat (pmem_size s) \<and>
      (\<not> sv32_leaf pte1 \<longrightarrow> unat (drop_bit 10 pte1) * 4096 + 4096 < unat (pmem_size s)))"

lemma and_exp_eq_exp: "n < LENGTH('a) \<Longrightarrow> (w AND 2 ^ n = 2 ^ n) = bit w n" for w :: "'a::len word"
  by (auto simp: bit_eq_iff [of "w AND 2 ^ n"] bit_simps)

lemma pte_bits:
  "(pte AND 1 = 0) = (\<not> bit pte 0)" "(pte AND 2 = 0) = (\<not> bit pte 1)" "(pte AND 4 = 0) = (\<not> bit pte 2)"
  "(pte AND 8 = 0) = (\<not> bit pte 3)" "(pte AND 4 = 4) = bit pte 2" for pte :: u32
  using and_exp_eq_0_iff_not_bit [of pte 0] and_exp_eq_0_iff_not_bit [of pte 1]
    and_exp_eq_0_iff_not_bit [of pte 2] and_exp_eq_0_iff_not_bit [of pte 3] and_exp_eq_exp [of 2 pte]
  by simp_all

lemma vpn_le: "4 * vpn i va + 4 \<le> 4096"
  using take_bit_nat_less_exp [of 10 "unat (drop_bit (12 + 10 * i) va)"]
  by (simp add: vpn_def unsigned_take_bit_eq)

lemma vpn_0: "unat (drop_bit 22 (push_bit 10 va)) = vpn 0 va"
proof -
  have "drop_bit 22 (push_bit 10 va) = take_bit 10 (drop_bit 12 va)"
    by (rule bit_word_eqI) (auto simp: bit_simps)
  then show ?thesis by (simp add: vpn_def)
qed

lemma vpn_1: "unat (drop_bit 22 va) = vpn 1 va"
proof -
  have "drop_bit 22 va = take_bit 10 (drop_bit 22 va)"
    by (rule bit_word_eqI) (auto simp: bit_simps dest: bit_imp_le_length)
  then show ?thesis by (simp add: vpn_def)
qed

text \<open>The address of an entry in the table of a page, when that page is below 4 GiB.\<close>

lemma pte_address_in_table:
  assumes "unat n * 4096 + 4096 \<le> 2 ^ 32" and "i = 0 \<or> i = 1"
  shows "unat (pte_address i (ucast (n * pagesize)) va) = unat n * 4096 + 4 * vpn i va"
proof -
  let ?v = "if i \<noteq> 0 then drop_bit 22 va else drop_bit 22 (push_bit 10 va)"
  have v: "unat ?v = vpn i va" using assms(2) vpn_0 vpn_1 by auto
  have t: "unat (n * pagesize) = unat n * 4096"
    using assms(1) by (simp add: unat_word_ariths pagesize_def)
  have m: "unat (ucast ptesize * ?v) = 4 * vpn i va"
    using v vpn_le [of i va] by (simp add: unat_word_ariths ptesize_def)
  have "unat (ucast (n * pagesize) + ucast (ucast ptesize * ?v) :: u64) = unat n * 4096 + 4 * vpn i va"
    using assms(1) vpn_le [of i va] t m by (simp add: unat_word_ariths unat_ucast_up)
  then show ?thesis
    using assms(1) vpn_le [of i va]
    by (simp add: pte_address_def unsigned_ucast_eq take_bit_nat_eq_self)
qed

lemma getMemPtr_pte:
  assumes "unat n * 4096 + 4096 < unat (pmem_size s)" "unat (pmem_size s) \<le> 2 ^ 32" and "i = 0 \<or> i = 1"
  shows "getMemPtr 4 (pte_address i (ucast (n * pagesize)) va) s = (Inr (unat n * 4096 + 4 * vpn i va), s)"
proof -
  let ?pa = "pte_address i (ucast (n * pagesize)) va"
  have pa: "unat ?pa = unat n * 4096 + 4 * vpn i va"
    using assms by (intro pte_address_in_table) auto
  have "unat (ucast ?pa + 4 :: u64) = unat ?pa + 4"
    using unsigned_less [of ?pa, where ?'a = nat] by (simp add: unat_word_ariths unat_ucast_up)
  then have "\<not> pmem_size s \<le> ucast ?pa + of_nat 4"
    using assms(1) vpn_le [of i va] pa by (simp add: word_le_nat_alt)
  with pa show ?thesis by (simp add: getMemPtr_def)
qed

text \<open>
  The address of a leaf: as in Sv32 but with the lowest bit of the page number cleared, since
  the mask \<^verbatim>\<open>~1ull << 12\<close> (\<^verbatim>\<open>~1ull << 22\<close>) clears one bit too many.
\<close>

lemma page_mask:
  "2 \<le> k \<Longrightarrow> push_bit 2 x AND push_bit k (NOT 1) = unset_bit k (push_bit k (drop_bit (k - 2) x))" for x :: u64
  by (rule bit_word_eqI) (auto simp: bit_simps)

lemma sv32_page_flags: "sv32_page (pte OR 64 OR (if dirty then 128 else 0)) = sv32_page pte"
  by (simp add: sv32_page_def drop_bit_or)

lemma leaf_address_0: "leaf_address 0 pte va = unset_bit 12 (sv32_page pte OR ucast (take_bit 12 va))"
proof -
  have off: "va AND 0xfff = take_bit 12 va" by (simp add: take_bit_eq_mask mask_eq_exp_minus_1)
  have page: "push_bit 12 (drop_bit (12 - 2) (ucast pte)) = sv32_page pte"
    by (rule bit_word_eqI) (auto simp: sv32_page_def bit_simps)
  have "leaf_address 0 pte va = ucast (take_bit 12 va) OR unset_bit 12 (sv32_page pte)"
    unfolding leaf_address_def Let_def off using page_mask [of 12 "ucast pte"] page by simp
  also have "\<dots> = unset_bit 12 (sv32_page pte OR ucast (take_bit 12 va))"
    by (rule bit_word_eqI) (auto simp: bit_simps)
  finally show ?thesis .
qed

lemma leaf_address_1:
  assumes "take_bit 10 (drop_bit 10 pte) = 0"
  shows "leaf_address (Suc 0) pte va = unset_bit 22 (sv32_page pte OR ucast (take_bit 22 va))"
proof -
  have off: "va AND 0x3fffff = take_bit 22 va" by (simp add: take_bit_eq_mask mask_eq_exp_minus_1)
  have z: "\<not> bit pte (10 + n)" if "n < 10" for n
    using assms that by (auto simp: bit_eq_iff bit_simps)
  have "bit (push_bit 22 (drop_bit (22 - 2) (ucast pte :: u64)) :: u64) n = bit (sv32_page pte) n"
    if "n < LENGTH(64)" for n
    using that z [of "n - 12"] by (cases "n < 22") (auto simp: sv32_page_def bit_simps)
  then have page: "push_bit 22 (drop_bit (22 - 2) (ucast pte)) = sv32_page pte"
    by (rule bit_word_eqI)
  have "leaf_address (Suc 0) pte va = ucast (take_bit 22 va) OR unset_bit 22 (sv32_page pte)"
    unfolding leaf_address_def Let_def off using page_mask [of 22 "ucast pte"] page by simp
  also have "\<dots> = unset_bit 22 (sv32_page pte OR ucast (take_bit 22 va))"
    by (rule bit_word_eqI) (auto simp: bit_simps)
  finally show ?thesis .
qed

text \<open>The accessed and dirty bits that a translation sets.\<close>

definition mark_pte :: "AccessType \<Rightarrow> u32 \<Rightarrow> u32" where
  "mark_pte acc pte = pte OR 64 OR (if acc = WRITE then 128 else 0)"

lemma sv32_page_mark [simp]: "sv32_page (mark_pte acc pte) = sv32_page pte"
  by (simp add: mark_pte_def sv32_page_flags)

lemma low_ppn_mark: "take_bit 10 (drop_bit 10 (mark_pte acc pte)) = take_bit 10 (drop_bit 10 pte)"
  by (simp add: mark_pte_def drop_bit_or)

lemma root_table_eq: "root_table r = ucast (take_bit 22 r * pagesize)"
  by (simp add: root_table_def take_bit_eq_mask mask_eq_exp_minus_1)

lemma walk_from_root:
  assumes "tables_in_memory s va"
  defines "p1 \<equiv> unat (take_bit 22 (satp s)) * 4096 + 4 * vpn 1 va"
  defines "p0 \<equiv> unat (drop_bit 10 (peek32 p1 s)) * 4096 + 4 * vpn 0 va"
  shows "walk (Suc 0) (root_table (satp s)) va s =
    (if \<not> sv32_valid (peek32 p1 s) then (Inl (Throw ''page fault valid or R W''), s)
     else if sv32_leaf (peek32 p1 s) then (Inr (1, p1), s)
     else if \<not> sv32_valid (peek32 p0 s) then (Inl (Throw ''page fault valid or R W''), s)
     else if sv32_leaf (peek32 p0 s) then (Inr (0, p0), s)
     else (Inl (Throw ''page fault i < 0''), s))"
proof -
  have fit: "unat (take_bit 22 (satp s)) * 4096 + 4096 < unat (pmem_size s)" "unat (pmem_size s) \<le> 2 ^ 32"
    and fit0: "\<not> sv32_leaf (peek32 p1 s) \<Longrightarrow> unat (drop_bit 10 (peek32 p1 s)) * 4096 + 4096 < unat (pmem_size s)"
    using assms(1) by (auto simp: tables_in_memory_def Let_def p1_def)
  have g1: "getMemPtr 4 (pte_address (Suc 0) (root_table (satp s)) va) s = (Inr p1, s)"
    using getMemPtr_pte [OF fit, of "Suc 0" va] by (simp add: p1_def root_table_eq)
  have g0: "getMemPtr 4 (pte_address 0 (ucast (drop_bit 10 (peek32 p1 s) * pagesize)) va) s = (Inr p0, s)"
    if "\<not> sv32_leaf (peek32 p1 s)"
    using getMemPtr_pte [OF fit0 [OF that] fit(2), of 0 va] by (simp add: p0_def)
  show ?thesis
    using g1 g0
    by (auto simp: walk_eq [of "Suc 0"] walk_eq [of 0] bnd_Inr pte_bits sv32_valid_def sv32_leaf_def simp del: One_nat_def)
qed


lemma translate_fault:
  assumes "isVirtualAddressing s" "walk (Suc 0) (root_table (satp s)) va s = (Inl e, s)"
  shows "translate va acc s = (Inl e, s)"
  using assms by (simp add: translate_eq levels_def bnd_Inl)

lemma translate_leaf:
  assumes "isVirtualAddressing s" "walk (Suc 0) (root_table (satp s)) va s = (Inr (i, p), s)"
  shows "translate va acc s =
    (if \<not> sv32_permits acc (peek32 p s) \<or> (0 < i \<and> take_bit 10 (drop_bit 10 (peek32 p s)) \<noteq> 0)
     then (Inl (Throw ''page fault''), s)
     else (Inr (leaf_address i (mark_pte acc (peek32 p s)) va),
           s\<lparr>pmem := write_bytes p (le_split 4 (mark_pte acc (peek32 p s))) (pmem s)\<rparr>))"
proof -
  have perm: "(acc = READ \<and> \<not> bit pte 1 \<or> acc = WRITE \<and> \<not> bit pte 2 \<or> acc = EXEC \<and> \<not> bit pte 3)
      \<longleftrightarrow> \<not> sv32_permits acc pte" for pte
    by (cases acc) auto
  have ppn: "drop_bit 10 pte AND 0x3ff = take_bit 10 (drop_bit 10 pte)" for pte :: u32
    by (simp add: take_bit_eq_mask mask_eq_exp_minus_1)
  show ?thesis
    using assms unfolding translate_eq levels_def pte_bits perm ppn Let_def
    by (simp add: bnd_Inr perm ppn mark_pte_def or.assoc)
qed

lemma translate_sv32:
  assumes v: "isVirtualAddressing s" and "tables_in_memory s va"
  shows "case sv32 (\<lambda>p. peek32 p s) (unat (take_bit 22 (satp s))) va acc of
      None \<Rightarrow> \<exists>msg. translate va acc s = (Inl (Throw msg), s)
    | Some (i, p, pa) \<Rightarrow> translate va acc s =
        (Inr (unset_bit (if i = 0 then 12 else 22) pa),
         s\<lparr>pmem := write_bytes p (le_split 4 (mark_pte acc (peek32 p s))) (pmem s)\<rparr>)"
proof -
  define p1 where "p1 = unat (take_bit 22 (satp s)) * 4096 + 4 * vpn 1 va"
  define p0 where "p0 = unat (drop_bit 10 (peek32 p1 s)) * 4096 + 4 * vpn 0 va"
  note w = walk_from_root [OF assms(2), folded p1_def, folded p0_def]
  note sv = sv32_def [of "\<lambda>p. peek32 p s" "unat (take_bit 22 (satp s))" va acc, unfolded Let_def, folded p1_def, folded p0_def]
  consider "\<not> sv32_valid (peek32 p1 s)" | "sv32_valid (peek32 p1 s)" "sv32_leaf (peek32 p1 s)"
    | "sv32_valid (peek32 p1 s)" "\<not> sv32_leaf (peek32 p1 s)" "\<not> sv32_valid (peek32 p0 s)"
    | "sv32_valid (peek32 p1 s)" "\<not> sv32_leaf (peek32 p1 s)" "sv32_valid (peek32 p0 s)" "sv32_leaf (peek32 p0 s)"
    | "sv32_valid (peek32 p1 s)" "\<not> sv32_leaf (peek32 p1 s)" "sv32_valid (peek32 p0 s)" "\<not> sv32_leaf (peek32 p0 s)"
    by blast
  then show ?thesis
  proof cases
    case 1
    then show ?thesis using translate_fault [OF v] w by (simp add: sv)
  next
    case 2
    then have "walk (Suc 0) (root_table (satp s)) va s = (Inr (Suc 0, p1), s)" using w by simp
    from translate_leaf [OF v this, of acc] 2 show ?thesis
      by (simp add: sv leaf_address_1 low_ppn_mark)
  next
    case 3
    then show ?thesis using translate_fault [OF v] w by (simp add: sv)
  next
    case 4
    then have "walk (Suc 0) (root_table (satp s)) va s = (Inr (0, p0), s)" using w by simp
    from translate_leaf [OF v this, of acc] 4 show ?thesis
      by (simp add: sv leaf_address_0)
  next
    case 5
    then show ?thesis using translate_fault [OF v] w by (simp add: sv)
  qed
qed

text \<open>C12: When the tables lie inside the memory, the walk accepts exactly the addresses that Sv32
  translates, marks the leaf entry as accessed (and as dirty for a store) and changes nothing
  else. Its physical address is the one of Sv32 exactly if the lowest bit of the mapped page
  number (of the 4 MiB page number on level 1) is 0.\<close>

theorem translate_meets_sv32:
  assumes "isVirtualAddressing s" and "tables_in_memory s va"
  shows "case sv32 (\<lambda>p. peek32 p s) (unat (take_bit 22 (satp s))) va acc of
      None \<Rightarrow> \<exists>msg. translate va acc s = (Inl (Throw msg), s)
    | Some (i, p, pa) \<Rightarrow>
        snd (translate va acc s) =
          s\<lparr>pmem := write_bytes p (le_split 4 (mark_pte acc (peek32 p s))) (pmem s)\<rparr> \<and>
        (fst (translate va acc s) = Inr pa \<longleftrightarrow> \<not> bit pa (if i = 0 then 12 else 22))"
proof -
  have unset: "unset_bit k x = x \<longleftrightarrow> \<not> bit x k" if "k < 64" for k and x :: u64
    using that by (auto simp: bit_eq_iff [of "unset_bit k x"] bit_unset_bit_iff)
  show ?thesis
    using translate_sv32 [OF assms, of acc]
    by (cases "sv32 (\<lambda>p. peek32 p s) (unat (take_bit 22 (satp s))) va acc") (auto simp: unset)
qed

text \<open>A memory whose page 1 is a root table, whose page 2 is a table with one leaf for page 5.\<close>

definition paged_memory :: MMU_State where
  "paged_memory = (MMU_ctor default_options (\<lambda>a.
     if a = 4096 then 0x01 else if a = 4097 then 0x08 else
     if a = 8196 then 0x03 else if a = 8197 then 0x14 else 0))\<lparr>satp := 0x80000001\<rparr>"


lemma paged_memory_entries:
  "peek32 4096 paged_memory = 0x801" "peek32 8196 paged_memory = 0x1403"
  by (simp_all add: peek32_bytes paged_memory_def MMU_ctor_def)

lemma paged_memory_tables: "isVirtualAddressing paged_memory" "tables_in_memory paged_memory 0x1234"
proof -
  have "vpn 1 0x1234 = 0" by (simp add: vpn_def)
  moreover have "take_bit 22 (satp paged_memory) = 1" by (simp add: paged_memory_def)
  moreover have "unat (pmem_size paged_memory) = 524288"
    by (simp add: paged_memory_def MMU_ctor_def default_options_def pagesize_def)
  ultimately show "tables_in_memory paged_memory 0x1234"
    using paged_memory_entries by (simp add: tables_in_memory_def sv32_leaf_def)
  show "isVirtualAddressing paged_memory" by (simp add: paged_memory_def isVirtualAddressing_def)
qed

lemma paged_memory_sv32:
  "sv32 (\<lambda>p. peek32 p paged_memory) (unat (take_bit 22 (satp paged_memory))) 0x1234 READ =
    Some (0, 8196, 0x5234)"
proof -
  have "vpn 1 0x1234 = 0" "vpn 0 0x1234 = 1" by (simp_all add: vpn_def)
  moreover have "take_bit 22 (satp paged_memory) = 1" by (simp add: paged_memory_def)
  ultimately show ?thesis
    using paged_memory_entries
    by (simp add: sv32_def Let_def sv32_valid_def sv32_leaf_def sv32_page_def)
qed

theorem translate_meets_sv32_witness:
  "fst (translate 0x1234 READ paged_memory) \<noteq> Inr 0x5234"
  using translate_meets_sv32 [OF paged_memory_tables, of READ]
  unfolding paged_memory_sv32 by simp

end
