(* ===== verification/Machine.thy ===== *)
theory Machine
  imports Mmu Asm
begin

text \<open>
  The state of the simulator and the operations of \<^verbatim>\<open>sim::State\<close>: \<^verbatim>\<open>src/sim/sim.h\<close> and the first
  part of \<^verbatim>\<open>src/sim/sim.cpp\<close>.

  The record \<open>State\<close> extends that of the MMU (a static member of the class) by the trace cache
  (the other static member), the members of the class, and what the program sees of its host:
  the bytes left on standard input, the bytes written to standard output, the text written to
  the log, whether the log file has been closed, and the number of calls of \<^verbatim>\<open>gettimeofday\<close>. The member \<^verbatim>\<open>mem\<close> is a pointer to the physical
  memory, which the record holds. A trace holds the instructions, the compiled code once the
  translator has produced it, and the two counters that decide on translation.

  The lines that \<^verbatim>\<open>-execution-log\<close> and \<^verbatim>\<open>-verbose\<close> print are not modelled; every other output to
  the log is.
\<close>

record Trace =
  trace_insts :: "Inst list"
  exec_trace :: "Asm list option"
  exec_num :: u64
  is_eligible :: bool

record State = MMU_State +
  trace_cache :: "Trace LRUCache"
  regs :: "u32 list"
  pc :: u32
  executed_insts :: u64
  stdin_bytes :: "u8 list"
  stdout_bytes :: "u8 list"
  log_text :: string
  log_closed :: bool
  tod_calls :: nat

text \<open>
  What the program takes from its host: the value of \<^verbatim>\<open>x << n\<close> and \<^verbatim>\<open>x >> n\<close> on 32 bits for an \<open>n\<close> of
  at least 32, which C++ leaves undefined, the outcome of the \<open>k\<close>-th call of
  \<^verbatim>\<open>gettimeofday\<close>: its result and the bytes of the two structures, and whether \<^verbatim>\<open>fopen\<close> can create a file.
\<close>

record Host =
  wide_shl :: "u32 \<Rightarrow> u32 \<Rightarrow> u32"
  wide_shr :: "u32 \<Rightarrow> u32 \<Rightarrow> u32"
  timeofday :: "nat \<Rightarrow> u32 \<times> u8 list \<times> u8 list"
  can_create :: "string \<Rightarrow> bool"

section \<open>Registers and the program counter\<close>

definition getReg :: "Reg \<Rightarrow> (State, u32) M" where
  "getReg reg = bnd (lift (cpp_assert (reg < 32))) (\<lambda>_. \<lambda>s. (at_index (regs s) (unat reg), s))"

definition setReg :: "Reg \<Rightarrow> u32 \<Rightarrow> (State, unit) M" where
  "setReg reg val =
     bnd (lift (cpp_assert (reg < 32))) (\<lambda>_. \<lambda>s.
       if reg \<noteq> 0
       then case set_index (regs s) (unat reg) val of
              Inl e \<Rightarrow> (Inl e, s)
            | Inr r \<Rightarrow> (Inr (), s\<lparr>regs := r\<rparr>)
       else (Inr (), s))"

definition getPC :: "(State, u32) M" where
  "getPC = gets pc"

definition setPC :: "u32 \<Rightarrow> (State, unit) M" where
  "setPC new_pc = modify (\<lambda>s. s\<lparr>pc := new_pc\<rparr>)"

section \<open>Memory\<close>

text \<open>\<^verbatim>\<open>read<T>\<close> and \<^verbatim>\<open>write<T>\<close> for a type of \<open>sz\<close> bytes; the value is its bytes.\<close>

definition State_read :: "nat \<Rightarrow> u32 \<Rightarrow> (State, u8 list) M" where
  "State_read sz va = MMU_load sz va False"

definition State_write :: "u32 \<Rightarrow> u8 list \<Rightarrow> (State, unit) M" where
  "State_write va data = MMU_store va data"

definition getCmd :: "u32 \<Rightarrow> (State, u32) M" where
  "getCmd va = bnd (MMU_load 4 va True) (\<lambda>bs. ret (le_join bs))"

definition State_flush :: "(State, unit) M" where
  "State_flush = bnd MMU_flush (\<lambda>_. modify (\<lambda>s. s\<lparr>trace_cache := LRUCache_clear (trace_cache s)\<rparr>))"

section \<open>Construction\<close>

text \<open>
  The static members as they are before \<^verbatim>\<open>main\<close> runs, from the values the options have at that
  time, and an indeterminate state of everything that a constructor sets later.
\<close>

definition static_state :: "Options \<Rightarrow> (nat \<Rightarrow> u8) \<Rightarrow> u8 list \<Rightarrow> State" where
  "static_state opts garbage input =
     MMU_State.extend (MMU_ctor opts garbage)
       \<lparr>trace_cache = LRUCache_ctor (cache_size opts), regs = replicate 32 0, pc = 0, executed_insts = 0,
        stdin_bytes = input, stdout_bytes = [], log_text = [], log_closed = False, tod_calls = 0\<rparr>"

text \<open>The bytes of a vector of 32-bit words.\<close>

definition words_bytes :: "u32 list \<Rightarrow> u8 list" where
  "words_bytes ws = concat (map (le_split 4) ws)"

fun load_segments :: "nat \<Rightarrow> u32 list list \<Rightarrow> u32 list \<Rightarrow> (State, unit) M" where
  "load_segments i commands [] = ret ()"
| "load_segments i commands (va # seg_va) =
     bnd (lift (at_index commands i)) (\<lambda>cmds.
     bnd (gets pmem_size) (\<lambda>mem_size.
       if ucast va + of_nat (length cmds) * 4 > mem_size
       then raise (Throw ''Not enough memory to load segment'')
       else bnd (getMemPtr 1 va) (\<lambda>p.
            bnd (poke p (words_bytes cmds)) (\<lambda>_.
              load_segments (Suc i) commands seg_va))))"

definition State_ctor :: "u32 list list \<Rightarrow> u32 list \<Rightarrow> u32 \<Rightarrow> (State, unit) M" where
  "State_ctor commands seg_va start =
     bnd (modify (\<lambda>s. s\<lparr>pc := start, executed_insts := 0, regs := replicate 32 0\<rparr>)) (\<lambda>_.
     bnd (gets pmem_size) (\<lambda>mem_size.
     bnd (setReg (Regs_u8 Reg_sp) (ucast (mem_size - 2 * ucast pagesize))) (\<lambda>_.
       load_segments 0 commands seg_va)))"

section \<open>The state as text\<close>

definition State_dump :: "State \<Rightarrow> string" where
  "State_dump s =
     ''Processor state:'' @ [CHR 0x0A] @
     concat (map (\<lambda>i. Reg_dump (of_nat i) @ '': 0x'' @ fmt_08X (regs s ! i) @
       [if (i + 1) mod 4 \<noteq> 0 then CHR 0x09 else CHR 0x0A]) [0..<32]) @
     ''PC: 0x'' @ fmt_08X (pc s) @ [CHR 0x0A]"

definition print_log :: "string \<Rightarrow> (State, unit) M" where
  "print_log txt = modify (\<lambda>s. s\<lparr>log_text := log_text s @ txt\<rparr>)"

definition print_stdout :: "string \<Rightarrow> (State, unit) M" where
  "print_stdout txt = modify (\<lambda>s. s\<lparr>stdout_bytes := stdout_bytes s @ map of_char txt\<rparr>)"

section \<open>Rules\<close>

lemma getReg_eq [simp]: "\<lbrakk>r < 32; length (regs s) = 32\<rbrakk> \<Longrightarrow> getReg r s = (Inr (regs s ! unat r), s)"
  by (simp add: getReg_def word_less_nat_alt)

definition set_reg :: "Reg \<Rightarrow> u32 \<Rightarrow> State \<Rightarrow> State" where
  "set_reg r v s = (if r = 0 then s else s\<lparr>regs := (regs s)[unat r := v]\<rparr>)"

lemma setReg_eq [simp]: "\<lbrakk>r < 32; length (regs s) = 32\<rbrakk> \<Longrightarrow> setReg r v s = (Inr (), set_reg r v s)"
  by (simp add: setReg_def set_reg_def word_less_nat_alt)

lemma getPC_eq [simp]: "getPC s = (Inr (pc s), s)"
  by (simp add: getPC_def)

lemma setPC_eq [simp]: "setPC p s = (Inr (), s\<lparr>pc := p\<rparr>)"
  by (simp add: setPC_def)

lemma set_reg_simps [simp]:
  "pc (set_reg r v s) = pc s" "pmem (set_reg r v s) = pmem s" "pmem_size (set_reg r v s) = pmem_size s"
  "satp (set_reg r v s) = satp s" "length (regs (set_reg r v s)) = length (regs s)"
  "instTLB (set_reg r v s) = instTLB s" "dataTLB (set_reg r v s) = dataTLB s"
  "trace_cache (set_reg r v s) = trace_cache s" "executed_insts (set_reg r v s) = executed_insts s"
  "stats (set_reg r v s) = stats s"
  by (simp_all add: set_reg_def)

lemma set_reg_0 [simp]: "regs (set_reg r v s) ! 0 = regs s ! 0"
proof (cases "r = 0")
  case False
  then have "unat r \<noteq> 0" by (simp add: unsigned_eq_0_iff)
  then show ?thesis by (simp add: set_reg_def)
qed (simp add: set_reg_def)

end
