(* ===== verification/Syscall.thy ===== *)
theory Syscall
  imports Machine
begin

text \<open>
  The system calls: \<^verbatim>\<open>src/sim/syscall.h\<close> and \<^verbatim>\<open>src/sim/syscall.cpp\<close>.

  A system call reads its number from \<^verbatim>\<open>a7\<close> and its arguments from \<^verbatim>\<open>a0\<close> to \<^verbatim>\<open>a2\<close>. Standard input is
  the list of bytes left in it, its end being the end of file; standard output collects the
  bytes written.
\<close>

text \<open>\<^verbatim>\<open>enum class SysCall : uint32_t\<close>: the numbers the dispatcher knows.\<close>

datatype SysCall =
    Sys_close | Sys_read | Sys_write | Sys_fstat | Sys_exit | Sys_gettimeofday | Sys_brk

primrec SysCall_u32 :: "SysCall \<Rightarrow> u32" where
  "SysCall_u32 Sys_close = 57"
| "SysCall_u32 Sys_read = 63"
| "SysCall_u32 Sys_write = 64"
| "SysCall_u32 Sys_fstat = 80"
| "SysCall_u32 Sys_exit = 93"
| "SysCall_u32 Sys_gettimeofday = 169"
| "SysCall_u32 Sys_brk = 214"

definition ExecClose :: "(State, unit) M" where
  "ExecClose = setReg (Regs_u8 Reg_a0) 0"

text \<open>\<^verbatim>\<open>fgetc(stdin)\<close>: \<open>None\<close> is \<^verbatim>\<open>EOF\<close>.\<close>

definition fgetc_stdin :: "(State, u8 option) M" where
  "fgetc_stdin s = (case stdin_bytes s of
      [] \<Rightarrow> (Inr None, s)
    | b # bs \<Rightarrow> (Inr (Some b), s\<lparr>stdin_bytes := bs\<rparr>))"

definition fputc_stdout :: "u8 \<Rightarrow> (State, unit) M" where
  "fputc_stdout b = modify (\<lambda>s. s\<lparr>stdout_bytes := stdout_bytes s @ [b]\<rparr>)"

text \<open>The loop of \<^verbatim>\<open>ExecRead\<close> by the number of iterations left; \<open>i\<close> is the counter.\<close>

fun read_loop :: "nat \<Rightarrow> u32 \<Rightarrow> u32 \<Rightarrow> u32 \<Rightarrow> (State, unit) M" where
  "read_loop 0 i a1 a2 = setReg (Regs_u8 Reg_a0) a2"
| "read_loop (Suc n) i a1 a2 =
     bnd fgetc_stdin (\<lambda>res. case res of
         Some b \<Rightarrow> bnd (State_write (a1 + i) [b]) (\<lambda>_. read_loop n (i + 1) a1 a2)
       | None \<Rightarrow> setReg (Regs_u8 Reg_a0) i)"

definition ExecRead :: "(State, unit) M" where
  "ExecRead =
     bnd (getReg (Regs_u8 Reg_a0)) (\<lambda>a0.
     bnd (getReg (Regs_u8 Reg_a1)) (\<lambda>a1.
     bnd (getReg (Regs_u8 Reg_a2)) (\<lambda>a2.
       read_loop (unat a2) 0 a1 a2)))"

fun write_loop :: "nat \<Rightarrow> u32 \<Rightarrow> u32 \<Rightarrow> (State, unit) M" where
  "write_loop 0 i a1 = ret ()"
| "write_loop (Suc n) i a1 =
     bnd (State_read 1 (a1 + i)) (\<lambda>bs.
     bnd (fputc_stdout (le_join bs)) (\<lambda>_. write_loop n (i + 1) a1))"

definition ExecWrite :: "(State, unit) M" where
  "ExecWrite =
     bnd (getReg (Regs_u8 Reg_a0)) (\<lambda>a0.
     bnd (getReg (Regs_u8 Reg_a1)) (\<lambda>a1.
     bnd (getReg (Regs_u8 Reg_a2)) (\<lambda>a2.
     bnd (write_loop (unat a2) 0 a1) (\<lambda>_.
       setReg (Regs_u8 Reg_a0) a2))))"

definition ExecFstat :: "(State, unit) M" where
  "ExecFstat = setReg (Regs_u8 Reg_a0) 0"

definition ExecExit :: "(State, unit) M" where
  "ExecExit = raise (Throw (''Successfully finished!'' @ [CHR 0x0A]))"

text \<open>\<^verbatim>\<open>gettimeofday(&tv, &tz)\<close>: the host's next answer.\<close>

definition gettimeofday :: "Host \<Rightarrow> (State, u32 \<times> u8 list \<times> u8 list) M" where
  "gettimeofday h s = (Inr (timeofday h (tod_calls s)), s\<lparr>tod_calls := Suc (tod_calls s)\<rparr>)"

definition ExecGetTimeOfDay :: "Host \<Rightarrow> (State, unit) M" where
  "ExecGetTimeOfDay h =
     bnd (getReg (Regs_u8 Reg_a0)) (\<lambda>a0.
     bnd (getReg (Regs_u8 Reg_a1)) (\<lambda>a1.
     bnd (gettimeofday h) (\<lambda>(res, tv, tz).
     bnd (setReg (Regs_u8 Reg_a0) res) (\<lambda>_.
     bnd (State_write a0 tv) (\<lambda>_.
       State_write a1 tz)))))"

definition ExecBrk :: "(State, unit) M" where
  "ExecBrk = setReg (Regs_u8 Reg_a0) 0"

definition ExecSysCall :: "Host \<Rightarrow> u32 \<Rightarrow> (State, unit) M" where
  "ExecSysCall h value =
     (if value = SysCall_u32 Sys_close then ExecClose
      else if value = SysCall_u32 Sys_read then ExecRead
      else if value = SysCall_u32 Sys_write then ExecWrite
      else if value = SysCall_u32 Sys_fstat then ExecFstat
      else if value = SysCall_u32 Sys_exit then ExecExit
      else if value = SysCall_u32 Sys_gettimeofday then ExecGetTimeOfDay h
      else if value = SysCall_u32 Sys_brk then ExecBrk
      else ret ())"

end
