(* ===== verification/Exec_Inst.thy ===== *)
theory Exec_Inst
  imports Syscall "HOL-Library.Signed_Division"
begin

text \<open>
  The interpreter's instruction handlers: \<^verbatim>\<open>src/sim/exec_inst.cpp\<close>.

  A handler gets the pointers to the first and to the current instruction of the trace; the
  model passes the current instruction and its index in the trace. \<^verbatim>\<open>NEXT_INST\<close> calls the
  handler of the next instruction in tail position and \<^verbatim>\<open>END_TRACE\<close> returns: a handler returns
  which of the two it ends with, and \<open>exec_from\<close> is the chain of tail calls. Running past the
  last instruction of a trace reads beyond the vector.

  Arithmetic on \<^verbatim>\<open>int32_t\<close> that overflows (\<^verbatim>\<open>RS1 + RS2\<close>, \<^verbatim>\<open>cur_pc + IMM * 2\<close>) wraps around as
  the x86 instructions do; shifts by 32 or more take their value from the host record.
\<close>

datatype flow = NextInst | EndTrace

section \<open>Operands\<close>

text \<open>The macros \<^verbatim>\<open>URS1\<close>, \<^verbatim>\<open>URS2\<close>, \<^verbatim>\<open>UIMM\<close>, \<^verbatim>\<open>RD\<close>; \<^verbatim>\<open>RS1\<close>, \<^verbatim>\<open>RS2\<close> and \<^verbatim>\<open>IMM\<close> are the same words read as signed.\<close>

definition get_rs1 :: "Inst \<Rightarrow> (State, u32) M" where
  "get_rs1 cur_inst = bnd (lift (getRs1 cur_inst)) getReg"

definition get_rs2 :: "Inst \<Rightarrow> (State, u32) M" where
  "get_rs2 cur_inst = bnd (lift (getRs2 cur_inst)) getReg"

definition get_imm :: "Inst \<Rightarrow> (State, u32) M" where
  "get_imm cur_inst = lift (getImm cur_inst)"

definition set_rd :: "Inst \<Rightarrow> u32 \<Rightarrow> (State, unit) M" where
  "set_rd cur_inst x = bnd (lift (getRd cur_inst)) (\<lambda>r. setReg r x)"

definition offset_of :: "nat \<Rightarrow> u32" where
  "offset_of idx = of_nat (idx * 4)"

text \<open>\<^verbatim>\<open>x << n\<close> and \<^verbatim>\<open>x >> n\<close> on \<^verbatim>\<open>uint32_t\<close>.\<close>

definition shl32 :: "Host \<Rightarrow> u32 \<Rightarrow> u32 \<Rightarrow> u32" where
  "shl32 h x n = (if n < 32 then push_bit (unat n) x else wide_shl h x n)"

definition shr32 :: "Host \<Rightarrow> u32 \<Rightarrow> u32 \<Rightarrow> u32" where
  "shr32 h x n = (if n < 32 then drop_bit (unat n) x else wide_shr h x n)"

text \<open>The shapes most handlers have: \<^verbatim>\<open>RD(f(RS1, IMM)); NEXT_INST();\<close> and \<^verbatim>\<open>RD(f(RS1, RS2)); NEXT_INST();\<close>\<close>

definition rd_rs1_imm :: "(u32 \<Rightarrow> u32 \<Rightarrow> u32) \<Rightarrow> Inst \<Rightarrow> (State, flow) M" where
  "rd_rs1_imm f cur_inst =
     bnd (get_rs1 cur_inst) (\<lambda>a. bnd (get_imm cur_inst) (\<lambda>m.
     bnd (set_rd cur_inst (f a m)) (\<lambda>_. ret NextInst)))"

definition rd_rs1_rs2 :: "(u32 \<Rightarrow> u32 \<Rightarrow> u32) \<Rightarrow> Inst \<Rightarrow> (State, flow) M" where
  "rd_rs1_rs2 f cur_inst =
     bnd (get_rs1 cur_inst) (\<lambda>a. bnd (get_rs2 cur_inst) (\<lambda>b.
     bnd (set_rd cur_inst (f a b)) (\<lambda>_. ret NextInst)))"

text \<open>\<^verbatim>\<open>RD(state->read<T>(RS1 + IMM)); NEXT_INST();\<close> and \<^verbatim>\<open>state->write<T>(RS1 + IMM, RS2); NEXT_INST();\<close>\<close>

definition rd_read :: "nat \<Rightarrow> (u8 list \<Rightarrow> u32) \<Rightarrow> Inst \<Rightarrow> (State, flow) M" where
  "rd_read sz conv cur_inst =
     bnd (get_rs1 cur_inst) (\<lambda>a. bnd (get_imm cur_inst) (\<lambda>m.
     bnd (State_read sz (a + m)) (\<lambda>bs.
     bnd (set_rd cur_inst (conv bs)) (\<lambda>_. ret NextInst))))"

definition write_rs2 :: "nat \<Rightarrow> Inst \<Rightarrow> (State, flow) M" where
  "write_rs2 sz cur_inst =
     bnd (get_rs1 cur_inst) (\<lambda>a. bnd (get_imm cur_inst) (\<lambda>m.
     bnd (get_rs2 cur_inst) (\<lambda>b.
     bnd (State_write (a + m) (le_split sz b)) (\<lambda>_. ret NextInst))))"

text \<open>\<^verbatim>\<open>SET_PC(f(RS1, RS2) ? cur_pc + IMM * 2 : cur_pc + 4); END_TRACE();\<close>\<close>

definition branch_if :: "(u32 \<Rightarrow> u32 \<Rightarrow> bool) \<Rightarrow> Inst \<Rightarrow> nat \<Rightarrow> (State, flow) M" where
  "branch_if cond cur_inst idx =
     bnd getPC (\<lambda>p. let cur_pc = p + offset_of idx in
     bnd (get_rs1 cur_inst) (\<lambda>a. bnd (get_rs2 cur_inst) (\<lambda>b.
     bnd (get_imm cur_inst) (\<lambda>m.
     bnd (setPC (if cond a b then cur_pc + m * 2 else cur_pc + 4)) (\<lambda>_. ret EndTrace)))))"

section \<open>The handlers\<close>

definition ExecDummy :: "Inst \<Rightarrow> nat \<Rightarrow> (State, flow) M" where
  "ExecDummy cur_inst idx =
     bnd (print_log (''This instruction is not implemented yet'' @ [CHR 0x0A])) (\<lambda>_. ret NextInst)"

definition ExecECALL :: "Host \<Rightarrow> Inst \<Rightarrow> nat \<Rightarrow> (State, flow) M" where
  "ExecECALL h cur_inst idx =
     bnd (getReg (Regs_u8 Reg_a7)) (\<lambda>n. bnd (ExecSysCall h n) (\<lambda>_. ret NextInst))"

definition ExecFENCE :: "Inst \<Rightarrow> nat \<Rightarrow> (State, flow) M" where
  "ExecFENCE cur_inst idx =
     bnd State_flush (\<lambda>_. bnd getPC (\<lambda>p.
     bnd (setPC (p + offset_of idx + 4)) (\<lambda>_. ret EndTrace)))"

definition ExecLB :: "Inst \<Rightarrow> nat \<Rightarrow> (State, flow) M" where
  "ExecLB cur_inst idx = rd_read 1 (\<lambda>bs. scast (le_join bs :: u8)) cur_inst"

definition ExecLH :: "Inst \<Rightarrow> nat \<Rightarrow> (State, flow) M" where
  "ExecLH cur_inst idx = rd_read 2 (\<lambda>bs. scast (le_join bs :: u16)) cur_inst"

definition ExecLW :: "Inst \<Rightarrow> nat \<Rightarrow> (State, flow) M" where
  "ExecLW cur_inst idx = rd_read 4 (\<lambda>bs. le_join bs) cur_inst"

definition ExecLBU :: "Inst \<Rightarrow> nat \<Rightarrow> (State, flow) M" where
  "ExecLBU cur_inst idx = rd_read 1 (\<lambda>bs. ucast (le_join bs :: u8)) cur_inst"

definition ExecLHU :: "Inst \<Rightarrow> nat \<Rightarrow> (State, flow) M" where
  "ExecLHU cur_inst idx = rd_read 2 (\<lambda>bs. ucast (le_join bs :: u16)) cur_inst"

definition ExecLWU :: "Inst \<Rightarrow> nat \<Rightarrow> (State, flow) M" where
  "ExecLWU cur_inst idx = rd_read 4 (\<lambda>bs. le_join bs) cur_inst"

definition ExecSB :: "Inst \<Rightarrow> nat \<Rightarrow> (State, flow) M" where
  "ExecSB cur_inst idx = write_rs2 1 cur_inst"

definition ExecSH :: "Inst \<Rightarrow> nat \<Rightarrow> (State, flow) M" where
  "ExecSH cur_inst idx = write_rs2 2 cur_inst"

definition ExecSW :: "Inst \<Rightarrow> nat \<Rightarrow> (State, flow) M" where
  "ExecSW cur_inst idx = write_rs2 4 cur_inst"

definition ExecLUI :: "Inst \<Rightarrow> nat \<Rightarrow> (State, flow) M" where
  "ExecLUI cur_inst idx =
     bnd (get_imm cur_inst) (\<lambda>m. bnd (set_rd cur_inst m) (\<lambda>_. ret NextInst))"

definition ExecAUIPC :: "Inst \<Rightarrow> nat \<Rightarrow> (State, flow) M" where
  "ExecAUIPC cur_inst idx =
     bnd getPC (\<lambda>p. bnd (get_imm cur_inst) (\<lambda>m.
     bnd (set_rd cur_inst (p + offset_of idx + m)) (\<lambda>_. ret NextInst)))"

definition ExecJAL :: "Inst \<Rightarrow> nat \<Rightarrow> (State, flow) M" where
  "ExecJAL cur_inst idx =
     bnd getPC (\<lambda>p. let cur_pc = p + offset_of idx in
     bnd (set_rd cur_inst (cur_pc + 4)) (\<lambda>_.
     bnd (get_imm cur_inst) (\<lambda>m.
     bnd (setPC (cur_pc + m * 2)) (\<lambda>_. ret EndTrace))))"

definition ExecJALR :: "Inst \<Rightarrow> nat \<Rightarrow> (State, flow) M" where
  "ExecJALR cur_inst idx =
     bnd getPC (\<lambda>p. let cur_pc = p + offset_of idx in
     bnd (set_rd cur_inst (cur_pc + 4)) (\<lambda>_.
     bnd (get_rs1 cur_inst) (\<lambda>a. bnd (get_imm cur_inst) (\<lambda>m.
     let off = a + m in
     bnd (setPC (off AND NOT 1)) (\<lambda>_. ret EndTrace)))))"

definition ExecBEQ :: "Inst \<Rightarrow> nat \<Rightarrow> (State, flow) M" where
  "ExecBEQ cur_inst idx = branch_if (\<lambda>a b. a = b) cur_inst idx"

definition ExecBNE :: "Inst \<Rightarrow> nat \<Rightarrow> (State, flow) M" where
  "ExecBNE cur_inst idx = branch_if (\<lambda>a b. a \<noteq> b) cur_inst idx"

definition ExecBLT :: "Inst \<Rightarrow> nat \<Rightarrow> (State, flow) M" where
  "ExecBLT cur_inst idx = branch_if (\<lambda>a b. sint a < sint b) cur_inst idx"

definition ExecBGE :: "Inst \<Rightarrow> nat \<Rightarrow> (State, flow) M" where
  "ExecBGE cur_inst idx = branch_if (\<lambda>a b. sint a \<ge> sint b) cur_inst idx"

definition ExecBLTU :: "Inst \<Rightarrow> nat \<Rightarrow> (State, flow) M" where
  "ExecBLTU cur_inst idx = branch_if (\<lambda>a b. a < b) cur_inst idx"

definition ExecBGEU :: "Inst \<Rightarrow> nat \<Rightarrow> (State, flow) M" where
  "ExecBGEU cur_inst idx = branch_if (\<lambda>a b. a \<ge> b) cur_inst idx"

definition ExecADDI :: "Inst \<Rightarrow> nat \<Rightarrow> (State, flow) M" where
  "ExecADDI cur_inst idx = rd_rs1_imm (\<lambda>a m. a + m) cur_inst"

definition ExecSLTI :: "Inst \<Rightarrow> nat \<Rightarrow> (State, flow) M" where
  "ExecSLTI cur_inst idx = rd_rs1_imm (\<lambda>a m. if sint a < sint m then 1 else 0) cur_inst"

definition ExecSLTIU :: "Inst \<Rightarrow> nat \<Rightarrow> (State, flow) M" where
  "ExecSLTIU cur_inst idx = rd_rs1_imm (\<lambda>a m. if a < m then 1 else 0) cur_inst"

definition ExecXORI :: "Inst \<Rightarrow> nat \<Rightarrow> (State, flow) M" where
  "ExecXORI cur_inst idx = rd_rs1_imm (\<lambda>a m. a XOR m) cur_inst"

definition ExecORI :: "Inst \<Rightarrow> nat \<Rightarrow> (State, flow) M" where
  "ExecORI cur_inst idx = rd_rs1_imm (\<lambda>a m. a OR m) cur_inst"

definition ExecANDI :: "Inst \<Rightarrow> nat \<Rightarrow> (State, flow) M" where
  "ExecANDI cur_inst idx = rd_rs1_imm (\<lambda>a m. a AND m) cur_inst"

definition ExecSLLI :: "Host \<Rightarrow> Inst \<Rightarrow> nat \<Rightarrow> (State, flow) M" where
  "ExecSLLI h cur_inst idx = rd_rs1_imm (\<lambda>a m. shl32 h a m) cur_inst"

definition ExecSRLI :: "Host \<Rightarrow> Inst \<Rightarrow> nat \<Rightarrow> (State, flow) M" where
  "ExecSRLI h cur_inst idx = rd_rs1_imm (\<lambda>a m. shr32 h a m) cur_inst"

definition ExecSRAI :: "Host \<Rightarrow> Inst \<Rightarrow> nat \<Rightarrow> (State, flow) M" where
  "ExecSRAI h cur_inst idx = rd_rs1_imm (\<lambda>a m.
     let msk = (if sint a < 0 \<and> m > 0 then NOT (shr32 h (NOT 0) m) else 0)
     in shr32 h a m OR msk) cur_inst"

definition ExecADD :: "Inst \<Rightarrow> nat \<Rightarrow> (State, flow) M" where
  "ExecADD cur_inst idx = rd_rs1_rs2 (\<lambda>a b. a + b) cur_inst"

definition ExecSUB :: "Inst \<Rightarrow> nat \<Rightarrow> (State, flow) M" where
  "ExecSUB cur_inst idx = rd_rs1_rs2 (\<lambda>a b. a - b) cur_inst"

definition ExecSLL :: "Inst \<Rightarrow> nat \<Rightarrow> (State, flow) M" where
  "ExecSLL cur_inst idx = rd_rs1_rs2 (\<lambda>a b. push_bit (unat (b AND 0b11111)) a) cur_inst"

definition ExecSLT :: "Inst \<Rightarrow> nat \<Rightarrow> (State, flow) M" where
  "ExecSLT cur_inst idx = rd_rs1_rs2 (\<lambda>a b. if sint a < sint b then 1 else 0) cur_inst"

definition ExecSLTU :: "Inst \<Rightarrow> nat \<Rightarrow> (State, flow) M" where
  "ExecSLTU cur_inst idx = rd_rs1_rs2 (\<lambda>a b. if a < b then 1 else 0) cur_inst"

definition ExecXOR :: "Inst \<Rightarrow> nat \<Rightarrow> (State, flow) M" where
  "ExecXOR cur_inst idx = rd_rs1_rs2 (\<lambda>a b. a XOR b) cur_inst"

definition ExecSRL :: "Inst \<Rightarrow> nat \<Rightarrow> (State, flow) M" where
  "ExecSRL cur_inst idx = rd_rs1_rs2 (\<lambda>a b. drop_bit (unat (b AND 0b11111)) a) cur_inst"

definition ExecSRA :: "Inst \<Rightarrow> nat \<Rightarrow> (State, flow) M" where
  "ExecSRA cur_inst idx = rd_rs1_rs2 (\<lambda>a b.
     let off = ucast (b AND 0b11111) :: u8;
         msk = (if sint a < 0 \<and> off > 0 then NOT (drop_bit (unat off) (NOT 0)) else 0)
     in drop_bit (unat off) a OR msk) cur_inst"

definition ExecOR :: "Inst \<Rightarrow> nat \<Rightarrow> (State, flow) M" where
  "ExecOR cur_inst idx = rd_rs1_rs2 (\<lambda>a b. a OR b) cur_inst"

definition ExecAND :: "Inst \<Rightarrow> nat \<Rightarrow> (State, flow) M" where
  "ExecAND cur_inst idx = rd_rs1_rs2 (\<lambda>a b. a AND b) cur_inst"

definition ExecCSRRW :: "Inst \<Rightarrow> nat \<Rightarrow> (State, flow) M" where
  "ExecCSRRW cur_inst idx =
     bnd (get_imm cur_inst) (\<lambda>m.
       if m \<noteq> 0x180 then raise (Throw ''Not satp sysreg is not supported'')
       else bnd (get_rs1 cur_inst) (\<lambda>a.
            bnd (modify (\<lambda>s. s\<lparr>satp := ucast (ucast (satp s) OR (scast a AND 0x80000000 :: u64))\<rparr>)) (\<lambda>_.
              ret NextInst)))"

text \<open>The M extension.\<close>

definition ExecMUL :: "Inst \<Rightarrow> nat \<Rightarrow> (State, flow) M" where
  "ExecMUL cur_inst idx = rd_rs1_rs2 (\<lambda>a b. a * b) cur_inst"

definition ExecMULH :: "Inst \<Rightarrow> nat \<Rightarrow> (State, flow) M" where
  "ExecMULH cur_inst idx = rd_rs1_rs2 (\<lambda>a b.
     let res = scast a * scast b :: u64 in ucast (drop_bit 32 res)) cur_inst"

definition ExecMULHSU :: "Inst \<Rightarrow> nat \<Rightarrow> (State, flow) M" where
  "ExecMULHSU cur_inst idx = rd_rs1_rs2 (\<lambda>a b.
     let res = scast a * ucast b :: u64 in ucast (drop_bit 32 res)) cur_inst"

definition ExecMULHU :: "Inst \<Rightarrow> nat \<Rightarrow> (State, flow) M" where
  "ExecMULHU cur_inst idx = rd_rs1_rs2 (\<lambda>a b.
     let res = ucast a * ucast b :: u64 in ucast (drop_bit 32 res)) cur_inst"

text \<open>\<^verbatim>\<open>/\<close> and \<^verbatim>\<open>%\<close> on \<^verbatim>\<open>int32_t\<close> truncate towards zero.\<close>

definition INT32_MIN :: u32 where
  "INT32_MIN = 0x80000000"

definition ExecDIV :: "Inst \<Rightarrow> nat \<Rightarrow> (State, flow) M" where
  "ExecDIV cur_inst idx = rd_rs1_rs2 (\<lambda>a b.
     if b = 0 then - 1
     else if b = - 1 \<and> a = INT32_MIN then INT32_MIN
     else word_of_int (sint a sdiv sint b)) cur_inst"

definition ExecDIVU :: "Inst \<Rightarrow> nat \<Rightarrow> (State, flow) M" where
  "ExecDIVU cur_inst idx = rd_rs1_rs2 (\<lambda>a b. if b \<noteq> 0 then a div b else 0xffffffff) cur_inst"

definition ExecREM :: "Inst \<Rightarrow> nat \<Rightarrow> (State, flow) M" where
  "ExecREM cur_inst idx = rd_rs1_rs2 (\<lambda>a b.
     if b = 0 then a
     else if b = - 1 \<and> a = INT32_MIN then 0
     else word_of_int (sint a smod sint b)) cur_inst"

definition ExecREMU :: "Inst \<Rightarrow> nat \<Rightarrow> (State, flow) M" where
  "ExecREMU cur_inst idx = rd_rs1_rs2 (\<lambda>a b. if b \<noteq> 0 then a mod b else a) cur_inst"

section \<open>Calling a handler\<close>

text \<open>The call through the pointer \<^verbatim>\<open>func_\<close> of the instruction.\<close>

primrec call_exec :: "ExecFunc \<Rightarrow> Host \<Rightarrow> Inst \<Rightarrow> nat \<Rightarrow> (State, flow) M" where
  "call_exec Addr_ExecLUI h = ExecLUI"
| "call_exec Addr_ExecAUIPC h = ExecAUIPC"
| "call_exec Addr_ExecJAL h = ExecJAL"
| "call_exec Addr_ExecJALR h = ExecJALR"
| "call_exec Addr_ExecBEQ h = ExecBEQ"
| "call_exec Addr_ExecBNE h = ExecBNE"
| "call_exec Addr_ExecBLT h = ExecBLT"
| "call_exec Addr_ExecBGE h = ExecBGE"
| "call_exec Addr_ExecBLTU h = ExecBLTU"
| "call_exec Addr_ExecBGEU h = ExecBGEU"
| "call_exec Addr_ExecLB h = ExecLB"
| "call_exec Addr_ExecLH h = ExecLH"
| "call_exec Addr_ExecLW h = ExecLW"
| "call_exec Addr_ExecLBU h = ExecLBU"
| "call_exec Addr_ExecLHU h = ExecLHU"
| "call_exec Addr_ExecSB h = ExecSB"
| "call_exec Addr_ExecSH h = ExecSH"
| "call_exec Addr_ExecSW h = ExecSW"
| "call_exec Addr_ExecADDI h = ExecADDI"
| "call_exec Addr_ExecSLTI h = ExecSLTI"
| "call_exec Addr_ExecSLTIU h = ExecSLTIU"
| "call_exec Addr_ExecXORI h = ExecXORI"
| "call_exec Addr_ExecORI h = ExecORI"
| "call_exec Addr_ExecANDI h = ExecANDI"
| "call_exec Addr_ExecSLLI h = ExecSLLI h"
| "call_exec Addr_ExecSRLI h = ExecSRLI h"
| "call_exec Addr_ExecSRAI h = ExecSRAI h"
| "call_exec Addr_ExecADD h = ExecADD"
| "call_exec Addr_ExecSUB h = ExecSUB"
| "call_exec Addr_ExecSLL h = ExecSLL"
| "call_exec Addr_ExecSLT h = ExecSLT"
| "call_exec Addr_ExecSLTU h = ExecSLTU"
| "call_exec Addr_ExecXOR h = ExecXOR"
| "call_exec Addr_ExecSRL h = ExecSRL"
| "call_exec Addr_ExecSRA h = ExecSRA"
| "call_exec Addr_ExecOR h = ExecOR"
| "call_exec Addr_ExecAND h = ExecAND"
| "call_exec Addr_ExecECALL h = ExecECALL h"
| "call_exec Addr_ExecDummy h = ExecDummy"
| "call_exec Addr_ExecFENCE h = ExecFENCE"
| "call_exec Addr_ExecCSRRW h = ExecCSRRW"
| "call_exec Addr_ExecMUL h = ExecMUL"
| "call_exec Addr_ExecMULH h = ExecMULH"
| "call_exec Addr_ExecMULHSU h = ExecMULHSU"
| "call_exec Addr_ExecMULHU h = ExecMULHU"
| "call_exec Addr_ExecDIV h = ExecDIV"
| "call_exec Addr_ExecDIVU h = ExecDIVU"
| "call_exec Addr_ExecREM h = ExecREM"
| "call_exec Addr_ExecREMU h = ExecREMU"

definition Inst_exec :: "Host \<Rightarrow> Inst \<Rightarrow> nat \<Rightarrow> (State, flow) M" where
  "Inst_exec h cur_inst idx = call_exec (inst_func cur_inst) h cur_inst idx"

text \<open>
  \<^verbatim>\<open>trace_.data()->exec(trace_.data(), state)\<close>: the instructions from index \<open>idx\<close> on.
\<close>

fun exec_from :: "Host \<Rightarrow> nat \<Rightarrow> Inst list \<Rightarrow> (State, unit) M" where
  "exec_from h idx [] = raise (Undefined OutOfBounds)"
| "exec_from h idx (i # is) =
     bnd (Inst_exec h i idx) (\<lambda>f. case f of
         NextInst \<Rightarrow> exec_from h (Suc idx) is
       | EndTrace \<Rightarrow> ret ())"

end
