(* ===== verification/Isa_Spec.thy ===== *)
theory Isa_Spec
  imports Mmu
begin

text \<open>
  The instruction set as the RISC-V manual defines it: what an RV32IM instruction does to the
  registers, the program counter and a flat memory without address translation. Operations are
  stated over the integers that registers denote, independently of how the simulator computes
  them. The reading of register 0 is left to the register file, whose entry 0 is never written.
\<close>

definition alu_op :: "Cmd \<Rightarrow> (u32 \<Rightarrow> u32 \<Rightarrow> u32) option" where
  "alu_op c =
     (if c = Cmd_ADD \<or> c = Cmd_ADDI then Some (\<lambda>a b. word_of_int (sint a + sint b))
      else if c = Cmd_SUB then Some (\<lambda>a b. word_of_int (sint a - sint b))
      else if c = Cmd_SLT \<or> c = Cmd_SLTI then Some (\<lambda>a b. of_bool (sint a < sint b))
      else if c = Cmd_SLTU \<or> c = Cmd_SLTIU then Some (\<lambda>a b. of_bool (uint a < uint b))
      else if c = Cmd_XOR \<or> c = Cmd_XORI then Some (\<lambda>a b. a XOR b)
      else if c = Cmd_OR \<or> c = Cmd_ORI then Some (\<lambda>a b. a OR b)
      else if c = Cmd_AND \<or> c = Cmd_ANDI then Some (\<lambda>a b. a AND b)
      else if c = Cmd_SLL \<or> c = Cmd_SLLI then Some (\<lambda>a b. word_of_int (uint a * 2 ^ (unat b mod 32)))
      else if c = Cmd_SRL \<or> c = Cmd_SRLI then Some (\<lambda>a b. word_of_int (uint a div 2 ^ (unat b mod 32)))
      else if c = Cmd_SRA \<or> c = Cmd_SRAI then Some (\<lambda>a b. word_of_int (sint a div 2 ^ (unat b mod 32)))
      else if c = Cmd_MUL then Some (\<lambda>a b. word_of_int (sint a * sint b))
      else if c = Cmd_MULH then Some (\<lambda>a b. word_of_int (sint a * sint b div 2 ^ 32))
      else if c = Cmd_MULHSU then Some (\<lambda>a b. word_of_int (sint a * uint b div 2 ^ 32))
      else if c = Cmd_MULHU then Some (\<lambda>a b. word_of_int (uint a * uint b div 2 ^ 32))
      else if c = Cmd_DIV then Some (\<lambda>a b. if b = 0 then - 1 else word_of_int (sint a sdiv sint b))
      else if c = Cmd_DIVU then Some (\<lambda>a b. if b = 0 then - 1 else word_of_int (uint a div uint b))
      else if c = Cmd_REM then Some (\<lambda>a b. if b = 0 then a else word_of_int (sint a smod sint b))
      else if c = Cmd_REMU then Some (\<lambda>a b. if b = 0 then a else word_of_int (uint a mod uint b))
      else None)"

definition branch_op :: "Cmd \<Rightarrow> (u32 \<Rightarrow> u32 \<Rightarrow> bool) option" where
  "branch_op c =
     (if c = Cmd_BEQ then Some (\<lambda>a b. a = b)
      else if c = Cmd_BNE then Some (\<lambda>a b. a \<noteq> b)
      else if c = Cmd_BLT then Some (\<lambda>a b. sint a < sint b)
      else if c = Cmd_BGE then Some (\<lambda>a b. sint a \<ge> sint b)
      else if c = Cmd_BLTU then Some (\<lambda>a b. uint a < uint b)
      else if c = Cmd_BGEU then Some (\<lambda>a b. uint a \<ge> uint b)
      else None)"

text \<open>The number of bytes of a load and what it makes of them; the number of bytes of a store.\<close>

definition load_op :: "Cmd \<Rightarrow> (nat \<times> (u8 list \<Rightarrow> u32)) option" where
  "load_op c =
     (if c = Cmd_LB then Some (1, \<lambda>bs. word_of_int (sint (le_join bs :: u8)))
      else if c = Cmd_LH then Some (2, \<lambda>bs. word_of_int (sint (le_join bs :: u16)))
      else if c = Cmd_LW then Some (4, le_join)
      else if c = Cmd_LBU then Some (1, \<lambda>bs. word_of_int (uint (le_join bs :: u8)))
      else if c = Cmd_LHU then Some (2, \<lambda>bs. word_of_int (uint (le_join bs :: u16)))
      else None)"

definition store_op :: "Cmd \<Rightarrow> nat option" where
  "store_op c = (if c = Cmd_SB then Some 1 else if c = Cmd_SH then Some 2
     else if c = Cmd_SW then Some 4 else None)"

definition isa_write :: "Reg \<Rightarrow> u32 \<Rightarrow> u32 list \<Rightarrow> u32 list" where
  "isa_write rd v xs = (if rd = 0 then xs else xs[unat rd := v])"

text \<open>
  One instruction at address \<open>at\<close>: the next program counter, the registers and the memory, or
  \<open>None\<close> if it accesses bytes outside the memory. The bound is the simulator's: the byte after
  the accessed ones must exist as well.
\<close>

definition isa_step ::
  "Inst \<Rightarrow> u32 \<Rightarrow> nat \<Rightarrow> u32 list \<times> (nat \<Rightarrow> u8) \<Rightarrow> (u32 \<times> u32 list \<times> (nat \<Rightarrow> u8)) option"
where
  "isa_step i at mem_size = (\<lambda>(xs, mem).
     let c = inst_cmd i; imm = inst_imm i; rd = inst_rd i;
         a = xs ! unat (inst_rs1 i); b = xs ! unat (inst_rs2 i); arg = (if cmd_format c = Fmt_R then b else imm) in
     case alu_op c of Some f \<Rightarrow> Some (at + 4, isa_write rd (f a arg) xs, mem) | None \<Rightarrow>
     (case branch_op c of Some p \<Rightarrow> Some (if p a b then at + 2 * imm else at + 4, xs, mem) | None \<Rightarrow>
     (case load_op c of Some (n, ext) \<Rightarrow>
        if unat (a + imm) + n < mem_size
        then Some (at + 4, isa_write rd (ext (read_bytes (unat (a + imm)) n mem)) xs, mem) else None
      | None \<Rightarrow>
     (case store_op c of Some n \<Rightarrow>
        if unat (a + imm) + n < mem_size
        then Some (at + 4, xs, write_bytes (unat (a + imm)) (le_split n b) mem) else None
      | None \<Rightarrow>
        if c = Cmd_LUI then Some (at + 4, isa_write rd imm xs, mem)
        else if c = Cmd_AUIPC then Some (at + 4, isa_write rd (at + imm) xs, mem)
        else if c = Cmd_JAL then Some (at + 2 * imm, isa_write rd (at + 4) xs, mem)
        else if c = Cmd_JALR then Some ((a + imm) AND NOT 1, isa_write rd (at + 4) xs, mem)
        else if c = Cmd_FENCE then Some (at + 4, xs, mem)
        else None))))"

text \<open>The commands \<open>isa_step\<close> covers: all but the environment calls and the system registers.\<close>

definition rv32im :: "Cmd \<Rightarrow> bool" where
  "rv32im c \<longleftrightarrow> c \<notin> {Cmd_ECALL, Cmd_EBREAK, Cmd_URET, Cmd_SRET, Cmd_MRET, Cmd_WFI, Cmd_CSRRW, Cmd_CSRRS,
     Cmd_CSRRC, Cmd_CSRRWI, Cmd_CSRRSI, Cmd_CSRRCI, Cmd_UNDEFINED}"

end
