(* ===== verification/Exec_Correct.thy ===== *)
theory Exec_Correct
  imports Exec_Inst Isa_Spec Mmu_Correct
begin

text \<open>
  The interpreter against the instruction set. The first part brings the handlers' arithmetic
  into the form of \<open>Isa_Spec\<close>; the second shows that every handler of an RV32IM command does to
  the registers, the memory and the (virtual) program counter what \<open>isa_step\<close> asks for, and
  lifts that to the chain of calls that executes a trace.
\<close>

section \<open>Arithmetic\<close>

lemma lt32: "x < 32 \<Longrightarrow> unat (x :: u32) < 32"
  by (simp add: word_less_nat_alt)

lemma sll_eq: "push_bit n (a :: u32) = word_of_int (uint a * 2 ^ n)"
  by (simp add: push_bit_eq_mult word_of_int_2p flip: of_int_power)

lemma srl_eq: "drop_bit n (a :: u32) = word_of_int (uint a div 2 ^ n)"
  by (rule bit_word_eqI) (simp add: bit_word_of_int_iff bit_simps flip: drop_bit_eq_div)

lemma sra_eq:
  assumes "n < 32"
  shows "drop_bit n a OR (if sint a < 0 \<and> 0 < n then NOT (drop_bit n (NOT 0)) else 0) =
    (word_of_int (sint a div 2 ^ n) :: u32)"
proof (rule bit_word_eqI)
  fix k assume k: "k < LENGTH(32)"
  have neg: "sint a < 0 \<longleftrightarrow> bit a 31" 
    using bit_last_iff [of a] by simp
  show "bit (drop_bit n a OR (if sint a < 0 \<and> 0 < n then NOT (drop_bit n (NOT 0)) else 0)) k =
    bit (word_of_int (sint a div 2 ^ n) :: u32) k"
    using k assms by (auto simp: neg bit_word_of_int_iff bit_sint_iff bit_simps simp flip: drop_bit_eq_div)
qed

lemma mod32: "b AND 0b11111 = take_bit 5 b" "unat (b AND 0b11111) = unat b mod 32" for b :: u32
proof -
  show t: "b AND 0b11111 = take_bit 5 b" by (simp add: take_bit_eq_mask mask_eq_exp_minus_1)
  show "unat (b AND 0b11111) = unat b mod 32"
    unfolding t unsigned_take_bit_eq by (simp add: take_bit_eq_mod)
qed

lemma mulh_eq:
  "ucast (drop_bit 32 (scast a * scast b :: u64)) = (word_of_int (sint a * sint b div 2 ^ 32) :: u32)"
  "ucast (drop_bit 32 (scast a * ucast b' :: u64)) = (word_of_int (sint a * uint b' div 2 ^ 32) :: u32)"
  "ucast (drop_bit 32 (ucast a' * ucast b' :: u64)) = (word_of_int (uint a' * uint b' div 2 ^ 32) :: u32)"
  for a b a' b' :: u32
proof -
  have s: "(scast x :: u64) = word_of_int (sint x)" and u: "(ucast x :: u64) = word_of_int (uint x)" for x :: u32
    by simp_all
  show "ucast (drop_bit 32 (scast a * scast b :: u64)) = (word_of_int (sint a * sint b div 2 ^ 32) :: u32)"
    unfolding s by (simp only: high_word_of_int flip: of_int_mult)
  show "ucast (drop_bit 32 (scast a * ucast b' :: u64)) = (word_of_int (sint a * uint b' div 2 ^ 32) :: u32)"
    unfolding s u by (simp only: high_word_of_int flip: of_int_mult)
  show "ucast (drop_bit 32 (ucast a' * ucast b' :: u64)) = (word_of_int (uint a' * uint b' div 2 ^ 32) :: u32)"
    unfolding u by (simp only: high_word_of_int flip: of_int_mult)
qed

lemma div_overflow: "(word_of_int (sint INT32_MIN sdiv sint (- 1 :: u32)) :: u32) = INT32_MIN"
  "(word_of_int (sint INT32_MIN smod sint (- 1 :: u32)) :: u32) = 0"
  by (simp_all add: INT32_MIN_def signed_modulo_int_def)

lemma divu: "(a :: u32) div b = word_of_int (uint a div uint b)" "a mod b = word_of_int (uint a mod uint b)"
  by (simp_all add: word_div_def word_mod_def)


section \<open>States and shapes\<close>

definition regs_ok :: "State \<Rightarrow> bool" where
  "regs_ok s \<longleftrightarrow> length (regs s) = 32 \<and> regs s ! 0 = 0"

definition x86_shifts :: "Host \<Rightarrow> bool" where
  "x86_shifts h \<longleftrightarrow> (\<forall>x n. wide_shl h x n = push_bit (unat n mod 32) x \<and> wide_shr h x n = drop_bit (unat n mod 32) x)"

lemma regs_ok_set_reg [simp]: "regs_ok (set_reg r v s) = regs_ok s"
  by (simp add: regs_ok_def)

lemma regs_ok_length: "regs_ok s \<Longrightarrow> length (regs s) = 32"
  by (simp add: regs_ok_def)

lemma wf_inst_regs: "wf_inst i \<Longrightarrow> inst_rs1 i < 32 \<and> inst_rs2 i < 32 \<and> inst_rd i < 32 \<and> inst_cmd i \<noteq> Cmd_UNDEFINED"
  by (simp add: wf_inst_def)

lemma operand_eqs:
  assumes "wf_inst i" "length (regs s) = 32"
  shows "cmd_format (inst_cmd i) \<notin> {Fmt_U, Fmt_J} \<Longrightarrow> get_rs1 i s = (Inr (regs s ! unat (inst_rs1 i)), s)"
    and "cmd_format (inst_cmd i) \<notin> {Fmt_I, Fmt_U, Fmt_J} \<Longrightarrow> get_rs2 i s = (Inr (regs s ! unat (inst_rs2 i)), s)"
    and "cmd_format (inst_cmd i) \<noteq> Fmt_R \<Longrightarrow> get_imm i s = (Inr (inst_imm i), s)"
    and "cmd_format (inst_cmd i) \<notin> {Fmt_S, Fmt_B} \<Longrightarrow> set_rd i v s = (Inr (), set_reg (inst_rd i) v s)"
  using assms wf_inst_regs [OF assms(1)]
  by (simp_all add: get_rs1_def get_rs2_def get_imm_def set_rd_def accessor_eqs)

lemma rd_rs1_rs2_eq:
  assumes "wf_inst i" "length (regs s) = 32" "cmd_format (inst_cmd i) = Fmt_R"
  shows "rd_rs1_rs2 f i s =
    (Inr NextInst, set_reg (inst_rd i) (f (regs s ! unat (inst_rs1 i)) (regs s ! unat (inst_rs2 i))) s)"
  using operand_eqs [OF assms(1,2)] assms(3) by (simp add: rd_rs1_rs2_def bnd_Inr)

lemma rd_rs1_imm_eq:
  assumes "wf_inst i" "length (regs s) = 32" "cmd_format (inst_cmd i) = Fmt_I"
  shows "rd_rs1_imm f i s =
    (Inr NextInst, set_reg (inst_rd i) (f (regs s ! unat (inst_rs1 i)) (inst_imm i)) s)"
  using operand_eqs [OF assms(1,2)] assms(3) by (simp add: rd_rs1_imm_def bnd_Inr)

lemma branch_if_eq:
  assumes "wf_inst i" "length (regs s) = 32" "cmd_format (inst_cmd i) = Fmt_B"
  shows "branch_if p i idx s = (Inr EndTrace, s\<lparr>pc :=
    if p (regs s ! unat (inst_rs1 i)) (regs s ! unat (inst_rs2 i))
    then pc s + offset_of idx + inst_imm i * 2 else pc s + offset_of idx + 4\<rparr>)"
  using operand_eqs [OF assms(1,2)] assms(3) by (simp add: branch_if_def bnd_Inr Let_def)

lemma rd_read_eq:
  assumes "wf_inst i" "length (regs s) = 32" "cmd_format (inst_cmd i) = Fmt_I"
  shows "rd_read sz conv i s = bnd (State_read sz (regs s ! unat (inst_rs1 i) + inst_imm i)) (\<lambda>bs.
    bnd (set_rd i (conv bs)) (\<lambda>_. ret NextInst)) s"
  using operand_eqs [OF assms(1,2)] assms(3) by (simp add: rd_read_def bnd_Inr)

lemma write_rs2_eq:
  assumes "wf_inst i" "length (regs s) = 32" "cmd_format (inst_cmd i) = Fmt_S"
  shows "write_rs2 sz i s = bnd (State_write (regs s ! unat (inst_rs1 i) + inst_imm i)
    (le_split sz (regs s ! unat (inst_rs2 i)))) (\<lambda>_. ret NextInst) s"
  using operand_eqs [OF assms(1,2)] assms(3) by (simp add: write_rs2_def bnd_Inr)

section \<open>The computing handlers\<close>

lemma op_ext: "(\<And>a b. f a b = g a b) \<Longrightarrow> rd_rs1_rs2 f i = rd_rs1_rs2 g i"
  "(\<And>a b. f a b = g a b) \<Longrightarrow> rd_rs1_imm f i = rd_rs1_imm g i"
  by presburger+

lemma alu_handlers:
  "ExecADD i idx = rd_rs1_rs2 (the (alu_op Cmd_ADD)) i"
  "ExecSUB i idx = rd_rs1_rs2 (the (alu_op Cmd_SUB)) i"
  "ExecSLT i idx = rd_rs1_rs2 (the (alu_op Cmd_SLT)) i"
  "ExecSLTU i idx = rd_rs1_rs2 (the (alu_op Cmd_SLTU)) i"
  "ExecXOR i idx = rd_rs1_rs2 (the (alu_op Cmd_XOR)) i"
  "ExecOR i idx = rd_rs1_rs2 (the (alu_op Cmd_OR)) i"
  "ExecAND i idx = rd_rs1_rs2 (the (alu_op Cmd_AND)) i"
  "ExecADDI i idx = rd_rs1_imm (the (alu_op Cmd_ADDI)) i"
  "ExecSLTI i idx = rd_rs1_imm (the (alu_op Cmd_SLTI)) i"
  "ExecSLTIU i idx = rd_rs1_imm (the (alu_op Cmd_SLTIU)) i"
  "ExecXORI i idx = rd_rs1_imm (the (alu_op Cmd_XORI)) i"
  "ExecORI i idx = rd_rs1_imm (the (alu_op Cmd_ORI)) i"
  "ExecANDI i idx = rd_rs1_imm (the (alu_op Cmd_ANDI)) i"
  by (simp_all add: alu_op_def ExecADD_def ExecSUB_def ExecSLT_def ExecSLTU_def ExecXOR_def ExecOR_def
      ExecAND_def ExecADDI_def ExecSLTI_def ExecSLTIU_def ExecXORI_def ExecORI_def ExecANDI_def
      word_less_def of_bool_def)

lemma alu_shift_handlers:
  "ExecSLL i idx = rd_rs1_rs2 (the (alu_op Cmd_SLL)) i"
  "ExecSRL i idx = rd_rs1_rs2 (the (alu_op Cmd_SRL)) i"
  "ExecSRA i idx = rd_rs1_rs2 (the (alu_op Cmd_SRA)) i"
proof -
  show "ExecSLL i idx = rd_rs1_rs2 (the (alu_op Cmd_SLL)) i"
    unfolding ExecSLL_def by (rule op_ext) (simp only: alu_op_def Cmd.simps if_False if_True simp_thms option.sel mod32(2) sll_eq)
  show "ExecSRL i idx = rd_rs1_rs2 (the (alu_op Cmd_SRL)) i"
    unfolding ExecSRL_def by (rule op_ext) (simp only: alu_op_def Cmd.simps if_False if_True simp_thms option.sel mod32(2) srl_eq)
  show "ExecSRA i idx = rd_rs1_rs2 (the (alu_op Cmd_SRA)) i"
    unfolding ExecSRA_def
  proof (rule op_ext)
    fix a b :: u32
    have "unat (ucast (b AND 0b11111) :: u8) = unat b mod 32"
      by (simp only: unsigned_ucast_eq mod32(2)) (simp add: take_bit_nat_eq_self)
    then show "(let off = ucast (b AND 0b11111) :: u8;
         msk = (if sint a < 0 \<and> off > 0 then NOT (drop_bit (unat off) (NOT 0)) else 0)
     in drop_bit (unat off) a OR msk) = the (alu_op Cmd_SRA) a b"
      by (simp only: Let_def word_less_nat_alt unsigned_0 sra_eq [of "unat b mod 32"] mod_less_divisor zero_less_numeral)
        (simp add: alu_op_def)
  qed
qed

lemma alu_mul_handlers:
  "ExecMUL i idx = rd_rs1_rs2 (the (alu_op Cmd_MUL)) i"
  "ExecMULH i idx = rd_rs1_rs2 (the (alu_op Cmd_MULH)) i"
  "ExecMULHSU i idx = rd_rs1_rs2 (the (alu_op Cmd_MULHSU)) i"
  "ExecMULHU i idx = rd_rs1_rs2 (the (alu_op Cmd_MULHU)) i"
  unfolding ExecMUL_def ExecMULH_def ExecMULHSU_def ExecMULHU_def
  by (rule op_ext; simp add: alu_op_def Let_def mulh_eq)+

lemma alu_div_handlers:
  "ExecDIV i idx = rd_rs1_rs2 (the (alu_op Cmd_DIV)) i"
  "ExecDIVU i idx = rd_rs1_rs2 (the (alu_op Cmd_DIVU)) i"
  "ExecREM i idx = rd_rs1_rs2 (the (alu_op Cmd_REM)) i"
  "ExecREMU i idx = rd_rs1_rs2 (the (alu_op Cmd_REMU)) i"
proof -
  show "ExecDIV i idx = rd_rs1_rs2 (the (alu_op Cmd_DIV)) i"
    unfolding ExecDIV_def by (rule op_ext) (use div_overflow in \<open>simp add: alu_op_def\<close>)
  show "ExecDIVU i idx = rd_rs1_rs2 (the (alu_op Cmd_DIVU)) i"
    unfolding ExecDIVU_def by (rule op_ext) (simp add: alu_op_def divu)
  show "ExecREM i idx = rd_rs1_rs2 (the (alu_op Cmd_REM)) i"
    unfolding ExecREM_def by (rule op_ext) (use div_overflow in \<open>simp add: alu_op_def\<close>)
  show "ExecREMU i idx = rd_rs1_rs2 (the (alu_op Cmd_REMU)) i"
    unfolding ExecREMU_def by (rule op_ext) (simp add: alu_op_def divu)
qed

lemma alu_shift_imm_handlers:
  assumes "x86_shifts h \<or> inst_imm i < 32" "cmd_format (inst_cmd i) = Fmt_I" "wf_inst i" "length (regs s) = 32"
  shows "ExecSLLI h i idx s = rd_rs1_imm (the (alu_op Cmd_SLLI)) i s"
    and "ExecSRLI h i idx s = rd_rs1_imm (the (alu_op Cmd_SRLI)) i s"
    and "ExecSRAI h i idx s = rd_rs1_imm (the (alu_op Cmd_SRAI)) i s"
proof -
  let ?m = "inst_imm i"
  have m: "?m < 32 \<Longrightarrow> unat ?m mod 32 = unat ?m" by (simp add: word_less_nat_alt)
  have sh: "shl32 h a ?m = push_bit (unat ?m mod 32) a" "shr32 h a ?m = drop_bit (unat ?m mod 32) a" for a
    using assms(1) m by (auto simp: shl32_def shr32_def x86_shifts_def)
  note imm = rd_rs1_imm_eq [OF assms(3,4,2)]
  show "ExecSLLI h i idx s = rd_rs1_imm (the (alu_op Cmd_SLLI)) i s"
    unfolding ExecSLLI_def imm sh by (simp only: alu_op_def Cmd.simps if_False if_True simp_thms option.sel sll_eq)
  show "ExecSRLI h i idx s = rd_rs1_imm (the (alu_op Cmd_SRLI)) i s"
    unfolding ExecSRLI_def imm sh by (simp only: alu_op_def Cmd.simps if_False if_True simp_thms option.sel srl_eq)
  show "ExecSRAI h i idx s = rd_rs1_imm (the (alu_op Cmd_SRAI)) i s"
  proof -
    have "(if neg \<and> 0 < ?m then NOT (drop_bit (unat ?m mod 32) (NOT 0)) else 0) =
        (if neg \<and> 0 < unat ?m mod 32 then NOT (drop_bit (unat ?m mod 32) (NOT 0)) else 0 :: u32)" for neg
      by (cases "unat ?m mod 32 = 0") (auto simp: word_less_nat_alt)
    then show ?thesis
      unfolding ExecSRAI_def imm sh Let_def by (simp only:) (simp add: sra_eq alu_op_def)
  qed
qed

section \<open>Refinement of one instruction\<close>

text \<open>
  The program counter of an instruction in a trace is virtual: \<open>pc\<close> stays that of the first
  instruction until a terminator assigns it.
\<close>

abbreviation out_of_memory :: fault where
  "out_of_memory \<equiv> Throw ''Address is out of memory''"

definition step_refines :: "Host \<Rightarrow> Inst \<Rightarrow> nat \<Rightarrow> State \<Rightarrow> bool" where
  "step_refines h i idx s \<longleftrightarrow>
     (case isa_step i (pc s + offset_of idx) (unat (pmem_size s)) (regs s, pmem s) of
        None \<Rightarrow> Inst_exec h i idx s = (Inl out_of_memory, s)
      | Some (next, xs, mem) \<Rightarrow> \<exists>s'.
          Inst_exec h i idx s = (Inr (if terminator (inst_cmd i) then EndTrace else NextInst), s') \<and>
          regs s' = xs \<and> pmem s' = mem \<and> pmem_size s' = pmem_size s \<and> satp s' = satp s \<and>
          (if terminator (inst_cmd i) then pc s' = next
           else pc s' = pc s \<and> next = pc s + offset_of (Suc idx)))"

lemma offset_Suc: "offset_of (Suc idx) = offset_of idx + 4"
  by (simp add: offset_of_def)

lemma regs_set_reg: "regs (set_reg rd v s) = isa_write rd v (regs s)"
  by (simp add: set_reg_def isa_write_def)

lemma length_isa_write [simp]: "length (isa_write rd v xs) = length xs"
  by (simp add: isa_write_def)

lemma Inst_exec_cmd: "wf_inst i \<Longrightarrow> Inst_exec h i idx s = call_exec (cmd_exec (inst_cmd i)) h i idx s"
  by (simp add: Inst_exec_def wf_inst_def)

lemma alu_op_domain:
  assumes "alu_op c = Some f"
  shows "c \<in> {Cmd_ADD, Cmd_SUB, Cmd_SLT, Cmd_SLTU, Cmd_XOR, Cmd_OR, Cmd_AND, Cmd_SLL, Cmd_SRL, Cmd_SRA,
      Cmd_MUL, Cmd_MULH, Cmd_MULHSU, Cmd_MULHU, Cmd_DIV, Cmd_DIVU, Cmd_REM, Cmd_REMU} \<or>
    c \<in> {Cmd_ADDI, Cmd_SLTI, Cmd_SLTIU, Cmd_XORI, Cmd_ORI, Cmd_ANDI} \<or>
    c \<in> {Cmd_SLLI, Cmd_SRLI, Cmd_SRAI}"
  using assms by (auto simp: alu_op_def split: if_splits)

lemma call_alu_R:
  "c \<in> {Cmd_ADD, Cmd_SUB, Cmd_SLT, Cmd_SLTU, Cmd_XOR, Cmd_OR, Cmd_AND, Cmd_SLL, Cmd_SRL, Cmd_SRA,
      Cmd_MUL, Cmd_MULH, Cmd_MULHSU, Cmd_MULHU, Cmd_DIV, Cmd_DIVU, Cmd_REM, Cmd_REMU} \<Longrightarrow>
    cmd_format c = Fmt_R \<and> call_exec (cmd_exec c) h i idx = rd_rs1_rs2 (the (alu_op c)) i"
  by (elim insertE emptyE)
    (simp_all add: cmd_format_by_opcode alu_handlers alu_shift_handlers alu_mul_handlers alu_div_handlers)

lemma call_alu_I:
  "c \<in> {Cmd_ADDI, Cmd_SLTI, Cmd_SLTIU, Cmd_XORI, Cmd_ORI, Cmd_ANDI} \<Longrightarrow>
    cmd_format c = Fmt_I \<and> call_exec (cmd_exec c) h i idx = rd_rs1_imm (the (alu_op c)) i"
  by (elim insertE emptyE) (simp_all add: cmd_format_by_opcode alu_handlers)

lemma call_alu_shift:
  assumes "inst_cmd i \<in> {Cmd_SLLI, Cmd_SRLI, Cmd_SRAI}" "x86_shifts h \<or> inst_imm i < 32"
    "wf_inst i" "length (regs s) = 32"
  shows "cmd_format (inst_cmd i) = Fmt_I \<and>
    call_exec (cmd_exec (inst_cmd i)) h i idx s = rd_rs1_imm (the (alu_op (inst_cmd i))) i s"
proof -
  have "cmd_format (inst_cmd i) = Fmt_I" using assms(1) by (auto simp: cmd_format_by_opcode)
  with assms(1) alu_shift_imm_handlers [OF assms(2) this assms(3,4)] show ?thesis by auto
qed

lemma step_refines_alu:
  assumes "wf_inst i" "length (regs s) = 32" "alu_op (inst_cmd i) = Some f"
    and "x86_shifts h \<or> inst_cmd i \<notin> {Cmd_SLLI, Cmd_SRLI, Cmd_SRAI} \<or> inst_imm i < 32"
  shows "step_refines h i idx s"
proof -
  let ?arg = "if cmd_format (inst_cmd i) = Fmt_R then regs s ! unat (inst_rs2 i) else inst_imm i"
  have t: "\<not> terminator (inst_cmd i)"
    using alu_op_domain [OF assms(3)] by (auto simp: terminator_def)
  have "Inst_exec h i idx s = (Inr NextInst, set_reg (inst_rd i) (f (regs s ! unat (inst_rs1 i)) ?arg) s)"
    using alu_op_domain [OF assms(3)]
  proof (elim disjE)
    assume "inst_cmd i \<in> {Cmd_SLLI, Cmd_SRLI, Cmd_SRAI}"
    with call_alu_shift [OF this _ assms(1,2), of h idx] assms(3,4) rd_rs1_imm_eq [OF assms(1,2)]
    show ?thesis by (auto simp: Inst_exec_cmd [OF assms(1)])
  qed (use assms(3) call_alu_R [of "inst_cmd i" h i idx] call_alu_I [of "inst_cmd i" h i idx]
      rd_rs1_rs2_eq [OF assms(1,2)] rd_rs1_imm_eq [OF assms(1,2)] in \<open>simp add: Inst_exec_cmd [OF assms(1)]\<close>)+
  then show ?thesis
    using assms(3) t
    by (simp add: step_refines_def isa_step_def Let_def regs_set_reg offset_Suc add.assoc)
qed

lemma branch_op_domain:
  "branch_op c = Some p \<Longrightarrow> c \<in> {Cmd_BEQ, Cmd_BNE, Cmd_BLT, Cmd_BGE, Cmd_BLTU, Cmd_BGEU}"
  by (auto simp: branch_op_def split: if_splits)

lemma call_branch:
  assumes "branch_op c = Some p"
  shows "cmd_format c = Fmt_B \<and> alu_op c = None \<and> terminator c \<and>
    call_exec (cmd_exec c) h i idx = branch_if p i idx"
  using branch_op_domain [OF assms] assms
  by (elim insertE emptyE)
    (simp_all add: cmd_format_by_opcode alu_op_def branch_op_def terminator_def ExecBEQ_def ExecBNE_def
      ExecBLT_def ExecBGE_def ExecBLTU_def ExecBGEU_def word_less_def word_le_def)

lemma step_refines_branch:
  assumes "wf_inst i" "length (regs s) = 32" "branch_op (inst_cmd i) = Some p"
  shows "step_refines h i idx s"
  using call_branch [OF assms(3), of h i idx] assms(3) branch_if_eq [OF assms(1,2)]
  by (simp add: step_refines_def isa_step_def Let_def Inst_exec_cmd [OF assms(1)] mult.commute)

lemma load_op_domain:
  "load_op c = Some x \<Longrightarrow> c \<in> {Cmd_LB, Cmd_LH, Cmd_LW, Cmd_LBU, Cmd_LHU}"
  by (auto simp: load_op_def split: if_splits)

lemma call_load:
  assumes "load_op c = Some (n, ext)"
  shows "cmd_format c = Fmt_I \<and> alu_op c = None \<and> branch_op c = None \<and> \<not> terminator c \<and> n < 2 ^ 63 \<and>
    call_exec (cmd_exec c) h i idx = rd_read n ext i"
  using load_op_domain [OF assms] assms
  by (elim insertE emptyE)
    (auto simp: cmd_format_by_opcode alu_op_def branch_op_def load_op_def terminator_def ExecLB_def
      ExecLH_def ExecLW_def ExecLBU_def ExecLHU_def)

lemma step_refines_load:
  assumes "wf_inst i" "length (regs s) = 32" "load_op (inst_cmd i) = Some (n, ext)" "\<not> isVirtualAddressing s"
  shows "step_refines h i idx s"
proof -
  note c = call_load [OF assms(3), of h i idx]
  have rd: "set_rd i v s = (Inr (), set_reg (inst_rd i) v s)" for v
    using operand_eqs(4) [OF assms(1,2)] c by simp
  show ?thesis
    using c assms(3) rd_read_eq [OF assms(1,2)] bare_load [OF assms(4), of n]
    by (auto simp: step_refines_def isa_step_def Let_def Inst_exec_cmd [OF assms(1)] State_read_def
        bnd_def rd regs_set_reg offset_Suc add.assoc)
qed

lemma store_op_domain: "store_op c = Some n \<Longrightarrow> c \<in> {Cmd_SB, Cmd_SH, Cmd_SW}"
  by (auto simp: store_op_def split: if_splits)

lemma call_store:
  assumes "store_op c = Some n"
  shows "cmd_format c = Fmt_S \<and> alu_op c = None \<and> branch_op c = None \<and> load_op c = None \<and>
    \<not> terminator c \<and> n < 2 ^ 63 \<and> call_exec (cmd_exec c) h i idx = write_rs2 n i"
  using store_op_domain [OF assms] assms
  by (elim insertE emptyE)
    (auto simp: cmd_format_by_opcode alu_op_def branch_op_def load_op_def store_op_def terminator_def
      ExecSB_def ExecSH_def ExecSW_def)

lemma step_refines_store:
  assumes "wf_inst i" "length (regs s) = 32" "store_op (inst_cmd i) = Some n" "\<not> isVirtualAddressing s"
  shows "step_refines h i idx s"
proof -
  note c = call_store [OF assms(3), of h i idx]
  show ?thesis
    using c assms(3) write_rs2_eq [OF assms(1,2)]
      bare_store [OF assms(4), of "le_split n (regs s ! unat (inst_rs2 i))"]
    by (auto simp: step_refines_def isa_step_def Let_def Inst_exec_cmd [OF assms(1)] State_write_def
        bnd_def offset_Suc add.assoc)
qed

text \<open>
  The rest: \<^verbatim>\<open>JALR\<close> writes the link before it reads the base register, so the two must not be the
  same register, unless it is register 0.
\<close>

lemma other_ops_None:
  "c \<in> {Cmd_LUI, Cmd_AUIPC, Cmd_JAL, Cmd_JALR, Cmd_FENCE} \<Longrightarrow>
    alu_op c = None \<and> branch_op c = None \<and> load_op c = None \<and> store_op c = None"
  by (auto simp: alu_op_def branch_op_def load_op_def store_op_def)

lemma State_flush_eq: "State_flush s = (Inr (), s\<lparr>instTLB := LRUCache_clear (instTLB s),
    dataTLB := LRUCache_clear (dataTLB s), trace_cache := LRUCache_clear (trace_cache s)\<rparr>)"
  by (simp add: State_flush_def MMU_flush_def)

lemma get_other_reg:
  assumes "a < 32" "r < 32" "length (regs s) = 32" "r \<noteq> a \<or> r = 0"
  shows "regs (set_reg r v s) ! unat a = regs s ! unat a"
proof (cases "r = 0")
  case False
  with assms(4) have "unat r \<noteq> unat a" by (simp add: word_unat_eq_iff)
  then show ?thesis by (simp add: set_reg_def)
qed (simp add: set_reg_def)

lemma step_refines_other:
  assumes "wf_inst i" "length (regs s) = 32" "inst_cmd i \<in> {Cmd_LUI, Cmd_AUIPC, Cmd_JAL, Cmd_JALR, Cmd_FENCE}"
    and "inst_cmd i = Cmd_JALR \<Longrightarrow> inst_rd i \<noteq> inst_rs1 i \<or> inst_rd i = 0"
  shows "step_refines h i idx s"
proof -
  note o1 = other_ops_None [OF assms(3)]
  note ops = operand_eqs [OF assms(1)] wf_inst_regs [OF assms(1)]
  have j: "inst_cmd i = Cmd_JALR \<Longrightarrow>
      regs (set_reg (inst_rd i) v s) ! unat (inst_rs1 i) = regs s ! unat (inst_rs1 i)" for v
    using get_other_reg [of "inst_rs1 i" "inst_rd i" s v] ops assms(2,4) by auto
  show ?thesis
    using assms(3,2) o1 j
    unfolding step_refines_def isa_step_def Let_def Inst_exec_cmd [OF assms(1)]
    by (elim insertE emptyE)
      (simp_all add: ops cmd_format_by_opcode terminator_def bnd_Inr ExecLUI_def ExecAUIPC_def ExecJAL_def
        ExecJALR_def ExecFENCE_def State_flush_eq regs_set_reg offset_Suc add.assoc mult.commute Let_def)
qed

lemma isa_step_length: "isa_step i at n (xs, m) = Some (next, xs', m') \<Longrightarrow> length xs' = length xs"
  by (auto simp: isa_step_def Let_def split: option.splits if_splits)

text \<open>
  The instructions on which the handlers agree with the instruction set: an RV32IM command
  that is not a \<^verbatim>\<open>JALR\<close> with its base register as link register, and either a host whose wide
  shifts take the count modulo 32 or no constant shift by 32 or more.
\<close>

definition conforming :: "Host \<Rightarrow> Inst \<Rightarrow> bool" where
  "conforming h i \<longleftrightarrow> wf_inst i \<and> rv32im (inst_cmd i) \<and>
     (x86_shifts h \<or> inst_cmd i \<notin> {Cmd_SLLI, Cmd_SRLI, Cmd_SRAI} \<or> inst_imm i < 32) \<and>
     (inst_cmd i = Cmd_JALR \<longrightarrow> inst_rd i \<noteq> inst_rs1 i \<or> inst_rd i = 0)"

lemma rv32im_cases:
  assumes "rv32im c"
  shows "(\<exists>f. alu_op c = Some f) \<or> (\<exists>p. branch_op c = Some p) \<or> (\<exists>x. load_op c = Some x) \<or>
    (\<exists>n. store_op c = Some n) \<or> c \<in> {Cmd_LUI, Cmd_AUIPC, Cmd_JAL, Cmd_JALR, Cmd_FENCE}"
  using assms
  by (cases c) (simp_all add: rv32im_def alu_op_def branch_op_def load_op_def store_op_def)

lemma conforming_refines:
  assumes "conforming h i" "length (regs s) = 32" "\<not> isVirtualAddressing s"
  shows "step_refines h i idx s"
proof -
  have wf: "wf_inst i" and c: "rv32im (inst_cmd i)"
    and sh: "x86_shifts h \<or> inst_cmd i \<notin> {Cmd_SLLI, Cmd_SRLI, Cmd_SRAI} \<or> inst_imm i < 32"
    and j: "inst_cmd i = Cmd_JALR \<Longrightarrow> inst_rd i \<noteq> inst_rs1 i \<or> inst_rd i = 0"
    using assms(1) by (auto simp: conforming_def)
  from rv32im_cases [OF c] show ?thesis
    using step_refines_alu [OF wf assms(2) _ sh] step_refines_branch [OF wf assms(2)]
      step_refines_load [OF wf assms(2) _ assms(3)] step_refines_store [OF wf assms(2) _ assms(3)]
      step_refines_other [OF wf assms(2) _ j]
    by (metis surj_pair)
qed

section \<open>Refinement of a trace\<close>

fun isa_trace ::
  "Inst list \<Rightarrow> u32 \<Rightarrow> nat \<Rightarrow> u32 list \<times> (nat \<Rightarrow> u8) \<Rightarrow> (u32 \<times> u32 list \<times> (nat \<Rightarrow> u8)) option"
where
  "isa_trace [] at mem_size st = None"
| "isa_trace (i # is) at mem_size st =
     (case isa_step i at mem_size st of
        None \<Rightarrow> None
      | Some (next, st') \<Rightarrow>
          if terminator (inst_cmd i) then Some (next, st') else isa_trace is next mem_size st')"

text \<open>A trace as the fetch loop builds it: it ends with its first terminator.\<close>

definition trace_shape :: "Inst list \<Rightarrow> bool" where
  "trace_shape is \<longleftrightarrow> is \<noteq> [] \<and> terminator (inst_cmd (last is)) \<and>
     (\<forall>i \<in> set (butlast is). \<not> terminator (inst_cmd i))"

lemma trace_shape_Cons:
  "trace_shape (i # is) \<longleftrightarrow>
    (if terminator (inst_cmd i) then is = [] else trace_shape is)"
  by (auto simp: trace_shape_def)

lemma exec_from_refines_keeping:
  assumes "trace_shape is" "\<And>i. i \<in> set is \<Longrightarrow> conforming h i" "length (regs s) = 32" "\<not> isVirtualAddressing s"
  shows "case isa_trace is (pc s + offset_of idx) (unat (pmem_size s)) (regs s, pmem s) of
      None \<Rightarrow> \<exists>s'. exec_from h idx is s = (Inl out_of_memory, s')
    | Some (next, xs, mem) \<Rightarrow> \<exists>s'. exec_from h idx is s = (Inr (), s') \<and>
        pc s' = next \<and> regs s' = xs \<and> pmem s' = mem \<and> pmem_size s' = pmem_size s \<and> satp s' = satp s"
  using assms
proof (induction "is" arbitrary: idx s)
  case Nil
  then show ?case by (simp add: trace_shape_def)
next
  case (Cons i "is")
  let ?t = "terminator (inst_cmd i)"
  have r: "step_refines h i idx s" using Cons.prems by (intro conforming_refines) auto
  show ?case
  proof (cases "isa_step i (pc s + offset_of idx) (unat (pmem_size s)) (regs s, pmem s)")
    case None
    with r show ?thesis by (auto simp: step_refines_def bnd_def)
  next
    case (Some y)
    then obtain s' where e: "Inst_exec h i idx s = (Inr (if ?t then EndTrace else NextInst), s')"
      and y: "y = (if ?t then pc s' else pc s + offset_of (Suc idx), regs s', pmem s')"
      and f: "pmem_size s' = pmem_size s" "satp s' = satp s" "\<not> ?t \<Longrightarrow> pc s' = pc s"
      using r by (cases y) (auto simp: step_refines_def split: if_splits)
    have len: "length (regs s') = 32"
      using isa_step_length [of i _ _ "regs s" "pmem s"] Some y Cons.prems(3) by simp
    show ?thesis
    proof (cases ?t)
      case True
      then show ?thesis using Some y e f by (simp add: bnd_def)
    next
      case False
      have "trace_shape is" using Cons.prems(1) False by (simp add: trace_shape_Cons)
      from Cons.IH [OF this, of s' "Suc idx"] False show ?thesis
        using Some y e f len Cons.prems(2,4)
        by (auto simp: bnd_def isVirtualAddressing_def split: option.splits)
    qed
  qed
qed

lemma exec_from_refines:
  assumes "trace_shape is" "\<And>i. i \<in> set is \<Longrightarrow> conforming h i" "length (regs s) = 32" "\<not> isVirtualAddressing s"
  shows "case isa_trace is (pc s + offset_of idx) (unat (pmem_size s)) (regs s, pmem s) of
      None \<Rightarrow> \<exists>msg s'. exec_from h idx is s = (Inl (Throw msg), s')
    | Some (next, xs, mem) \<Rightarrow> \<exists>s'. exec_from h idx is s = (Inr (), s') \<and>
        pc s' = next \<and> regs s' = xs \<and> pmem s' = mem"
  using exec_from_refines_keeping [OF assms, of idx] by (auto split: option.splits)

end
