(* ===== verification/Exec_Safe.thy ===== *)
theory Exec_Safe
  imports Exec_Correct
begin

text \<open>
  Safety of the interpreter in both addressing modes. \<open>exec_inv\<close> is the invariant of the state:
  32 registers of which number 0 is zero, and sound TLBs. Every handler of a well-formed
  instruction keeps it, or throws an exception: no assertion fails, no register or table is
  accessed out of range. \<open>exec_step\<close> says what a handler other than
  that of \<^verbatim>\<open>FENCE\<close> leaves alone: the memory's size and what lies outside it, the trace cache, and the
  counter of executed instructions.
\<close>

definition exec_inv :: "State \<Rightarrow> bool" where
  "exec_inv s \<longleftrightarrow> regs_ok s \<and> mmu_ok s"

definition exec_step :: "State \<Rightarrow> State \<Rightarrow> bool" where
  "exec_step s s' \<longleftrightarrow> pmem_size s' = pmem_size s \<and> (\<forall>a. unat (pmem_size s) \<le> a \<longrightarrow> pmem s' a = pmem s a) \<and>
     executed_insts s' = executed_insts s \<and> trace_cache s' = trace_cache s"

interpretation exec: step_relation exec_step
  by unfold_locales (auto simp: exec_step_def)

section \<open>The parts of a handler\<close>

text \<open>What is safe for the MMU and changes only the MMU is safe for the machine.\<close>

lemma mmu_step_machine:
  assumes "mmu_step s (s' :: State)"
  shows "regs s' = regs s" "pc s' = pc s" "trace_cache s' = trace_cache s" "executed_insts s' = executed_insts s"
    "log_text s' = log_text s" "stdin_bytes s' = stdin_bytes s" "stdout_bytes s' = stdout_bytes s"
    "tod_calls s' = tod_calls s"
  using assms by (auto simp: mmu_step_def)

lemma exec_step_mmu: "mmu_step s s' \<Longrightarrow> exec_step s s'"
  by (auto simp: exec_step_def mmu_step_pmem_size mmu_step_outside mmu_step_machine)

lemma mmu_safe_exec:
  assumes "safe mmu_ok m" "frames mmu_step m"
  shows "safe exec_inv m"
  unfolding safe_def
proof (rule validI)
  fix s a s' assume s: "exec_inv s" and m: "m s = (Inr a, s')"
  from framesD [OF assms(2) m] have "regs s' = regs s" by (rule mmu_step_machine)
  with s safeD(1) [OF assms(1) _ m] show "exec_inv s'"
    by (simp add: exec_inv_def regs_ok_def)
next
  fix s e s' assume "exec_inv s" "m s = (Inl e, s')"
  with safeD(2) [OF assms(1)] show "is_exception e" by (auto simp: exec_inv_def)
qed

lemma State_read_safe [hoare]: "sz < 2 ^ 63 \<Longrightarrow> safe exec_inv (State_read sz va)"
  unfolding State_read_def by (intro mmu_safe_exec hoare MMU_load_frame)

lemma State_write_safe [hoare]: "length bs < 2 ^ 63 \<Longrightarrow> safe exec_inv (State_write va bs)"
  unfolding State_write_def by (intro mmu_safe_exec hoare MMU_store_frame)

lemma getCmd_safe [hoare]: "safe exec_inv (getCmd va)"
  unfolding getCmd_def by (intro safe_bnd safe_ret mmu_safe_exec MMU_load_safe MMU_load_frame) simp

lemma mmu_ok_regs [simp]:
  "mmu_ok (s\<lparr>regs := r\<rparr>) = mmu_ok s" "mmu_ok (s\<lparr>pc := p\<rparr>) = mmu_ok s" "mmu_ok (s\<lparr>log_text := t\<rparr>) = mmu_ok s"
  "mmu_ok (s\<lparr>stdin_bytes := i\<rparr>) = mmu_ok s" "mmu_ok (s\<lparr>stdout_bytes := i\<rparr>) = mmu_ok s"
  "mmu_ok (s\<lparr>tod_calls := n\<rparr>) = mmu_ok s" "mmu_ok (s\<lparr>satp := p\<rparr>) = mmu_ok s"
  "mmu_ok (s\<lparr>trace_cache := c\<rparr>) = mmu_ok s" "mmu_ok (s\<lparr>executed_insts := x\<rparr>) = mmu_ok s"
  by (simp_all add: mmu_ok_def)

lemma regs_ok_upd [simp]:
  "regs_ok (s\<lparr>stats := st\<rparr>) = regs_ok s"
  "regs_ok (s\<lparr>pc := p\<rparr>) = regs_ok s" "regs_ok (s\<lparr>log_text := t\<rparr>) = regs_ok s"
  "regs_ok (s\<lparr>stdin_bytes := i\<rparr>) = regs_ok s" "regs_ok (s\<lparr>stdout_bytes := i\<rparr>) = regs_ok s"
  "regs_ok (s\<lparr>tod_calls := n\<rparr>) = regs_ok s" "regs_ok (s\<lparr>satp := p\<rparr>) = regs_ok s"
  "regs_ok (s\<lparr>trace_cache := c\<rparr>) = regs_ok s" "regs_ok (s\<lparr>executed_insts := x\<rparr>) = regs_ok s"
  by (simp_all add: regs_ok_def)

lemma mmu_ok_set_reg [simp]: "mmu_ok (set_reg r v s) = mmu_ok s"
  by (simp add: mmu_ok_def)

lemma getReg_safe [hoare]: "r < 32 \<Longrightarrow> safe exec_inv (getReg r)"
  by (auto simp: safe_def valid_def exec_inv_def regs_ok_def)

lemma setReg_safe [hoare]: "r < 32 \<Longrightarrow> safe exec_inv (setReg r v)"
  by (simp add: safe_def valid_def exec_inv_def regs_ok_length)

lemma getPC_safe [hoare]: "safe exec_inv getPC"
  unfolding getPC_def by (rule safe_gets)

lemma setPC_safe [hoare]: "safe exec_inv (setPC p)"
  unfolding setPC_def by (rule safe_modify) (simp add: exec_inv_def)

lemma print_log_safe [hoare]: "safe exec_inv (print_log t)"
  unfolding print_log_def by (rule safe_modify) (simp add: exec_inv_def)

lemma State_flush_safe [hoare]: "safe exec_inv State_flush"
  by (simp add: safe_def valid_def State_flush_eq exec_inv_def regs_ok_def mmu_ok_def)

lemma operands_safe:
  assumes "wf_inst i"
  shows "cmd_format (inst_cmd i) \<notin> {Fmt_U, Fmt_J} \<Longrightarrow> safe exec_inv (get_rs1 i)"
    and "cmd_format (inst_cmd i) \<notin> {Fmt_I, Fmt_U, Fmt_J} \<Longrightarrow> safe exec_inv (get_rs2 i)"
    and "cmd_format (inst_cmd i) \<noteq> Fmt_R \<Longrightarrow> safe exec_inv (get_imm i)"
    and "cmd_format (inst_cmd i) \<notin> {Fmt_S, Fmt_B} \<Longrightarrow> safe exec_inv (set_rd i v)"
  using operand_eqs [OF assms]
  by (auto simp: safe_def valid_def exec_inv_def regs_ok_length)

section \<open>System calls\<close>

lemma Regs_u8_lt [simp]: "Regs_u8 r < 32"
  by (cases r) simp_all

lemma fgetc_stdin_safe [hoare]: "safe exec_inv fgetc_stdin"
  by (auto simp: safe_def valid_def fgetc_stdin_def exec_inv_def split: list.splits)

lemma fputc_stdout_safe [hoare]: "safe exec_inv (fputc_stdout b)"
  unfolding fputc_stdout_def by (rule safe_modify) (simp add: exec_inv_def)

lemma read_loop_safe [hoare]: "safe exec_inv (read_loop n i a1 a2)"
proof (induction n arbitrary: i)
  case 0
  show ?case by (simp add: setReg_safe)
next
  case (Suc n)
  have "safe exec_inv (case res of Some b \<Rightarrow> bnd (State_write (a1 + i) [b]) (\<lambda>_. read_loop n (i + 1) a1 a2)
      | None \<Rightarrow> setReg (Regs_u8 Reg_a0) i)" for res
    using Suc.IH by (cases res) (auto intro!: hoare)
  then show ?case unfolding read_loop.simps by (intro safe_bnd fgetc_stdin_safe)
qed

lemma write_loop_safe [hoare]: "safe exec_inv (write_loop n i a1)"
  by (induction n arbitrary: i) (auto intro!: hoare)

text \<open>The two structures that \<^verbatim>\<open>gettimeofday\<close> fills are of a size that C++ objects have.\<close>

definition host_ok :: "Host \<Rightarrow> bool" where
  "host_ok h \<longleftrightarrow> (\<forall>k. length (fst (snd (timeofday h k))) < 2 ^ 63 \<and> length (snd (snd (timeofday h k))) < 2 ^ 63)"

lemma ExecGetTimeOfDay_safe [hoare]:
  assumes "host_ok h"
  shows "safe exec_inv (ExecGetTimeOfDay h)"
proof -
  have "safe exec_inv (bnd (gettimeofday h) (\<lambda>(res, tv, tz). bnd (setReg (Regs_u8 Reg_a0) res) (\<lambda>_.
      bnd (State_write a0 tv) (\<lambda>_. State_write a1 tz))))" for a0 a1
  proof -
    define m where "m k = (case timeofday h k of (res, tv, tz) \<Rightarrow> bnd (setReg (Regs_u8 Reg_a0) res) (\<lambda>_.
      bnd (State_write a0 tv) (\<lambda>_. State_write a1 tz)))" for k
    have m: "safe exec_inv (m k)" for k
      using assms unfolding m_def split_beta host_ok_def by (intro hoare) auto
    have "bnd (gettimeofday h) (\<lambda>(res, tv, tz). bnd (setReg (Regs_u8 Reg_a0) res) (\<lambda>_.
        bnd (State_write a0 tv) (\<lambda>_. State_write a1 tz))) s =
      m (tod_calls s) (s\<lparr>tod_calls := Suc (tod_calls s)\<rparr>)" for s
      by (simp add: m_def bnd_def gettimeofday_def split: prod.splits)
    moreover have "exec_inv s \<Longrightarrow> exec_inv (s\<lparr>tod_calls := k\<rparr>)" for s k by (simp add: exec_inv_def)
    ultimately show ?thesis
      using m unfolding safe_def valid_def by presburger
  qed
  note g = this
  show ?thesis
    unfolding ExecGetTimeOfDay_def
    by (rule safe_bnd, rule getReg_safe, rule Regs_u8_lt, rule safe_bnd, rule getReg_safe,
        rule Regs_u8_lt, rule g)
qed

lemma ExecSysCall_safe [hoare]: "host_ok h \<Longrightarrow> safe exec_inv (ExecSysCall h n)"
  unfolding ExecSysCall_def ExecClose_def ExecRead_def ExecWrite_def ExecFstat_def ExecExit_def ExecBrk_def
  by (intro hoare) auto


section \<open>Handlers\<close>

lemma shapes_safe:
  assumes "wf_inst i"
  shows "cmd_format (inst_cmd i) = Fmt_R \<Longrightarrow> safe exec_inv (rd_rs1_rs2 f i)"
    and "cmd_format (inst_cmd i) = Fmt_I \<Longrightarrow> safe exec_inv (rd_rs1_imm f i)"
    and "cmd_format (inst_cmd i) = Fmt_I \<Longrightarrow> sz < 2 ^ 63 \<Longrightarrow> safe exec_inv (rd_read sz conv i)"
    and "cmd_format (inst_cmd i) = Fmt_S \<Longrightarrow> sz < 2 ^ 63 \<Longrightarrow> safe exec_inv (write_rs2 sz i)"
    and "cmd_format (inst_cmd i) = Fmt_B \<Longrightarrow> safe exec_inv (branch_if p i idx)"
  unfolding rd_rs1_rs2_def rd_rs1_imm_def rd_read_def write_rs2_def branch_if_def Let_def
  by (intro hoare operands_safe [OF assms]; simp)+

lemmas handler_defs = ExecDummy_def ExecECALL_def ExecFENCE_def ExecLB_def ExecLH_def ExecLW_def
  ExecLBU_def ExecLHU_def ExecSB_def ExecSH_def ExecSW_def ExecLUI_def ExecAUIPC_def ExecJAL_def
  ExecJALR_def ExecBEQ_def ExecBNE_def ExecBLT_def ExecBGE_def ExecBLTU_def ExecBGEU_def ExecADDI_def
  ExecSLTI_def ExecSLTIU_def ExecXORI_def ExecORI_def ExecANDI_def ExecSLLI_def ExecSRLI_def
  ExecSRAI_def ExecADD_def ExecSUB_def ExecSLL_def ExecSLT_def ExecSLTU_def ExecXOR_def ExecSRL_def
  ExecSRA_def ExecOR_def ExecAND_def ExecCSRRW_def ExecMUL_def ExecMULH_def ExecMULHSU_def
  ExecMULHU_def ExecDIV_def ExecDIVU_def ExecREM_def ExecREMU_def

lemma control_safe:
  assumes "wf_inst i"
  shows "inst_cmd i = Cmd_LUI \<Longrightarrow> safe exec_inv (ExecLUI i idx)"
    and "inst_cmd i = Cmd_AUIPC \<Longrightarrow> safe exec_inv (ExecAUIPC i idx)"
    and "inst_cmd i = Cmd_JAL \<Longrightarrow> safe exec_inv (ExecJAL i idx)"
    and "inst_cmd i = Cmd_JALR \<Longrightarrow> safe exec_inv (ExecJALR i idx)"
    and "inst_cmd i = Cmd_FENCE \<Longrightarrow> safe exec_inv (ExecFENCE i idx)"
    and "inst_cmd i = Cmd_CSRRW \<Longrightarrow> safe exec_inv (ExecCSRRW i idx)"
    and "host_ok h \<Longrightarrow> safe exec_inv (ExecECALL h i idx)"
    and "safe exec_inv (ExecDummy i idx)"
  unfolding ExecLUI_def ExecAUIPC_def ExecJAL_def ExecJALR_def ExecFENCE_def ExecCSRRW_def
    ExecECALL_def ExecDummy_def Let_def
  by (intro hoare operands_safe [OF assms] Regs_u8_lt; simp add: cmd_format_by_opcode exec_inv_def)+

lemma Inst_exec_safe [hoare]:
  assumes "wf_inst i" "host_ok h"
  shows "safe exec_inv (Inst_exec h i idx)"
proof -
  have "safe exec_inv (call_exec (cmd_exec (inst_cmd i)) h i idx)"
    using control_safe [OF assms(1)] assms(2) wf_inst_cmd [OF assms(1)]
    by (cases "inst_cmd i")
      (simp_all add: handler_defs(4-11,16-40,42-49) shapes_safe [OF assms(1)] cmd_format_by_opcode)
  then show ?thesis
    using assms(1) by (simp add: safe_def valid_def Inst_exec_cmd)
qed

text \<open>What a handler returns when it returns: \<^verbatim>\<open>END_TRACE\<close> for terminators, \<^verbatim>\<open>NEXT_INST\<close> for the others.\<close>

definition yields :: "'a \<Rightarrow> ('s, 'a) M \<Rightarrow> bool" where
  "yields a m \<longleftrightarrow> (\<forall>s. fst (m s) = Inr a \<or> (\<exists>e. fst (m s) = Inl e))"

lemma yields_ret: "yields a (ret a)"
  by (simp add: yields_def)

lemma yields_raise: "yields a (raise e)"
  by (simp add: yields_def)

lemma yields_bnd: "(\<And>x. yields a (f x)) \<Longrightarrow> yields a (bnd m f)"
  by (auto simp: yields_def bnd_def split: prod.splits sum.splits)

lemma yields_if: "yields a m \<Longrightarrow> yields a n \<Longrightarrow> yields a (if b then m else n)"
  by simp

lemma yieldsD: "yields a m \<Longrightarrow> m s = (Inr x, s') \<Longrightarrow> x = a"
  by (metis Inl_Inr_False fst_conv sum.inject(2) yields_def)

lemmas shape_defs = rd_rs1_rs2_def rd_rs1_imm_def rd_read_def write_rs2_def branch_if_def Let_def

lemma shapes_yield:
  "yields NextInst (rd_rs1_rs2 f i)" "yields NextInst (rd_rs1_imm f i)" "yields NextInst (rd_read sz conv i)"
  "yields NextInst (write_rs2 sz i)" "yields EndTrace (branch_if p i idx)"
  unfolding shape_defs by (intro yields_bnd yields_ret)+

lemma control_yield:
  "yields NextInst (ExecLUI i idx)" "yields NextInst (ExecAUIPC i idx)" "yields EndTrace (ExecJAL i idx)"
  "yields EndTrace (ExecJALR i idx)" "yields EndTrace (ExecFENCE i idx)" "yields NextInst (ExecCSRRW i idx)"
  "yields NextInst (ExecECALL h i idx)" "yields NextInst (ExecDummy i idx)"
  unfolding ExecLUI_def ExecAUIPC_def ExecJAL_def ExecJALR_def ExecFENCE_def ExecCSRRW_def
    ExecECALL_def ExecDummy_def Let_def
  by (intro yields_bnd yields_ret yields_raise yields_if)+

lemma Inst_exec_yields:
  assumes "wf_inst i"
  shows "yields (if terminator (inst_cmd i) then EndTrace else NextInst) (Inst_exec h i idx)"
proof -
  have "yields (if terminator (inst_cmd i) then EndTrace else NextInst) (call_exec (cmd_exec (inst_cmd i)) h i idx)"
    using wf_inst_cmd [OF assms]
    by (cases "inst_cmd i")
      (simp_all add: handler_defs(4-11,16-40,42-49) shapes_yield control_yield terminator_def)
  then show ?thesis using assms by (simp add: yields_def Inst_exec_cmd)
qed

lemma safe_bnd_yields:
  assumes "safe I m" "yields q m" "safe I (f q)"
  shows "safe I (bnd m f)"
  unfolding safe_def
proof (rule validI)
  fix s b s' assume "I s" and eq: "bnd m f s = (Inr b, s')"
  obtain r t where m: "m s = (r, t)" by (cases "m s")
  show "I s'"
  proof (cases r)
    case (Inl e)
    with eq m show ?thesis by (simp add: bnd_Inl)
  next
    case (Inr x)
    with m have x: "x = q" by (blast dest: yieldsD [OF assms(2)])
    with eq m Inr have "f q t = (Inr b, s')" by (simp add: bnd_Inr)
    moreover have "I t" using safeD(1) [OF assms(1) \<open>I s\<close>] m Inr by blast
    ultimately show ?thesis using safeD(1) [OF assms(3)] by blast
  qed
next
  fix s e s' assume "I s" and eq: "bnd m f s = (Inl e, s')"
  obtain r t where m: "m s = (r, t)" by (cases "m s")
  show "is_exception e"
  proof (cases r)
    case (Inl e')
    with eq m safeD(2) [OF assms(1) \<open>I s\<close>] show ?thesis by (auto simp: bnd_Inl)
  next
    case (Inr x)
    with m have "x = q" by (blast dest: yieldsD [OF assms(2)])
    with eq m Inr have "f q t = (Inl e, s')" by (simp add: bnd_Inr)
    with safeD(1) [OF assms(1) \<open>I s\<close>] safeD(2) [OF assms(3)] m Inr show ?thesis by blast
  qed
qed

lemma exec_from_safe:
  assumes "trace_shape is" "\<And>i. i \<in> set is \<Longrightarrow> wf_inst i" "host_ok h"
  shows "safe exec_inv (exec_from h idx is)"
  using assms
proof (induction "is" arbitrary: idx)
  case Nil
  then show ?case by (simp add: trace_shape_def)
next
  case (Cons i "is")
  have wf: "wf_inst i" using Cons.prems by simp
  have "trace_shape is" if "\<not> terminator (inst_cmd i)"
    using Cons.prems(1) that by (simp add: trace_shape_Cons)
  then show ?case
    using Cons.IH [of "Suc idx"] Cons.prems(2,3) unfolding exec_from.simps
    by (intro safe_bnd_yields [OF Inst_exec_safe [OF wf Cons.prems(3)] Inst_exec_yields [OF wf]])
      (auto intro: hoare)
qed

section \<open>What a handler leaves alone\<close>

text \<open>The handlers other than that of \<^verbatim>\<open>ECALL\<close> do not use standard input and output or the clock either.\<close>

definition quiet_step :: "State \<Rightarrow> State \<Rightarrow> bool" where
  "quiet_step s s' \<longleftrightarrow> exec_step s s' \<and> stdin_bytes s' = stdin_bytes s \<and>
     stdout_bytes s' = stdout_bytes s \<and> tod_calls s' = tod_calls s"

interpretation quiet: step_relation quiet_step
  by unfold_locales (auto simp: quiet_step_def exec_step_def)

lemma quiet_step_mmu: "mmu_step s s' \<Longrightarrow> quiet_step s s'"
  by (simp add: quiet_step_def exec_step_mmu mmu_step_machine)

lemma quiet_frames: "frames quiet_step m \<Longrightarrow> frames exec_step m"
  by (erule frames_weaken) (simp add: quiet_step_def)

lemma getReg_quiet: "frames quiet_step (getReg r)"
  by (rule framesI) (auto simp: getReg_def bnd_def cpp_assert_def at_index_def quiet_step_def exec_step_def split: if_splits)

lemma setReg_quiet: "frames quiet_step (setReg r v)"
  by (rule framesI) (auto simp: setReg_def bnd_def cpp_assert_def set_index_def quiet_step_def exec_step_def split: if_splits)

lemma getPC_quiet: "frames quiet_step getPC"
  unfolding getPC_def by (rule quiet.frames_gets)

lemma setPC_quiet: "frames quiet_step (setPC p)"
  unfolding setPC_def by (rule quiet.frames_modify) (simp add: quiet_step_def exec_step_def)

lemma print_log_quiet: "frames quiet_step (print_log t)"
  unfolding print_log_def by (rule quiet.frames_modify) (simp add: quiet_step_def exec_step_def)

lemma State_read_quiet: "frames quiet_step (State_read sz va)"
  unfolding State_read_def by (rule frames_weaken [OF MMU_load_frame]) (rule quiet_step_mmu)

lemma State_write_quiet: "length bs < 2 ^ 63 \<Longrightarrow> frames quiet_step (State_write va bs)"
  unfolding State_write_def by (rule frames_weaken [OF MMU_store_frame]) (auto intro: quiet_step_mmu)

lemma getCmd_frame: "frames mmu_step (getCmd va)"
  unfolding getCmd_def by (intro mmu.frames_rules MMU_load_frame)

lemma operands_quiet:
  "frames quiet_step (get_rs1 i)" "frames quiet_step (get_rs2 i)" "frames quiet_step (get_imm i)"
  "frames quiet_step (set_rd i v)"
  unfolding get_rs1_def get_rs2_def get_imm_def set_rd_def
  by (intro quiet.frames_rules getReg_quiet setReg_quiet)+

lemmas getReg_frame = quiet_frames [OF getReg_quiet]
lemmas setReg_frame = quiet_frames [OF setReg_quiet]
lemmas getPC_frame = quiet_frames [OF getPC_quiet]
lemmas setPC_frame = quiet_frames [OF setPC_quiet]
lemmas print_log_frame = quiet_frames [OF print_log_quiet]
lemmas State_read_frame = quiet_frames [OF State_read_quiet]
lemmas State_write_frame = quiet_frames [OF State_write_quiet]
lemmas operands_frame = operands_quiet [THEN quiet_frames]

lemma fgetc_stdin_frame: "frames exec_step fgetc_stdin"
  by (rule framesI) (auto simp: fgetc_stdin_def exec_step_def split: list.splits)

lemma fputc_stdout_frame: "frames exec_step (fputc_stdout b)"
  unfolding fputc_stdout_def by (rule exec.frames_modify) (simp add: exec_step_def)

lemma gettimeofday_frame: "frames exec_step (gettimeofday h)"
  by (rule framesI) (auto simp: gettimeofday_def exec_step_def)

lemma read_loop_frame: "frames exec_step (read_loop n i a1 a2)"
proof (induction n arbitrary: i)
  case (Suc n)
  have "frames exec_step (case res of Some b \<Rightarrow> bnd (State_write (a1 + i) [b]) (\<lambda>_. read_loop n (i + 1) a1 a2)
      | None \<Rightarrow> setReg (Regs_u8 Reg_a0) i)" for res
    using Suc.IH by (cases res) (auto intro!: exec.frames_bnd State_write_frame setReg_frame)
  then show ?case unfolding read_loop.simps by (intro exec.frames_bnd fgetc_stdin_frame)
qed (simp add: setReg_frame)

lemma write_loop_frame: "frames exec_step (write_loop n i a1)"
  by (induction n arbitrary: i)
    (auto intro!: exec.frames_rules State_read_frame fputc_stdout_frame)

lemma ExecGetTimeOfDay_frame:
  assumes "host_ok h"
  shows "frames exec_step (ExecGetTimeOfDay h)"
proof -
  have "frames exec_step (case timeofday h k of (res, tv, tz) \<Rightarrow> bnd (setReg (Regs_u8 Reg_a0) res) (\<lambda>_.
      bnd (State_write a0 tv) (\<lambda>_. State_write a1 tz)))" for a0 a1 k
    using assms unfolding split_beta host_ok_def
    by (intro exec.frames_bnd setReg_frame State_write_frame) auto
  then have g: "frames exec_step (bnd (gettimeofday h) (\<lambda>(res, tv, tz). bnd (setReg (Regs_u8 Reg_a0) res) (\<lambda>_.
      bnd (State_write a0 tv) (\<lambda>_. State_write a1 tz))))" for a0 a1
    by (simp add: frames_def bnd_def [of "gettimeofday h"] gettimeofday_def split_beta exec_step_def)
  show ?thesis
    unfolding ExecGetTimeOfDay_def
    by (rule exec.frames_bnd, rule getReg_frame, rule exec.frames_bnd, rule getReg_frame, rule g)
qed

lemma ExecSysCall_frame: "host_ok h \<Longrightarrow> frames exec_step (ExecSysCall h n)"
  unfolding ExecSysCall_def ExecClose_def ExecRead_def ExecWrite_def ExecFstat_def ExecExit_def ExecBrk_def
  by (intro exec.frames_rules setReg_frame getReg_frame read_loop_frame write_loop_frame
      ExecGetTimeOfDay_frame)

lemma shapes_quiet:
  "frames quiet_step (rd_rs1_rs2 f i)" "frames quiet_step (rd_rs1_imm f i)" "frames quiet_step (rd_read sz conv i)"
  "sz < 2 ^ 63 \<Longrightarrow> frames quiet_step (write_rs2 sz i)" "frames quiet_step (branch_if p i idx)"
  unfolding shape_defs
  by (intro quiet.frames_rules operands_quiet State_read_quiet State_write_quiet setPC_quiet getPC_quiet; simp)+

lemma control_quiet:
  "frames quiet_step (ExecLUI i idx)" "frames quiet_step (ExecAUIPC i idx)" "frames quiet_step (ExecJAL i idx)"
  "frames quiet_step (ExecJALR i idx)" "frames quiet_step (ExecCSRRW i idx)"
  "frames quiet_step (ExecDummy i idx)"
  unfolding ExecLUI_def ExecAUIPC_def ExecJAL_def ExecJALR_def ExecCSRRW_def
    ExecDummy_def Let_def
  by (intro quiet.frames_rules quiet.frames_modify operands_quiet setPC_quiet getPC_quiet getReg_quiet
      print_log_quiet; simp add: quiet_step_def exec_step_def)+

lemmas shapes_frame = shapes_quiet [THEN quiet_frames]

lemma control_frame:
  "frames exec_step (ExecLUI i idx)" "frames exec_step (ExecAUIPC i idx)" "frames exec_step (ExecJAL i idx)"
  "frames exec_step (ExecJALR i idx)" "frames exec_step (ExecCSRRW i idx)"
  "host_ok h \<Longrightarrow> frames exec_step (ExecECALL h i idx)" "frames exec_step (ExecDummy i idx)"
  using control_quiet [THEN quiet_frames]
  by (simp_all add: ExecECALL_def) (intro exec.frames_rules getReg_frame ExecSysCall_frame; simp)

lemma Inst_exec_quiet:
  assumes "wf_inst i" "inst_cmd i \<noteq> Cmd_FENCE" "inst_cmd i \<noteq> Cmd_ECALL"
  shows "frames quiet_step (Inst_exec h i idx)"
proof -
  have "frames quiet_step (call_exec (cmd_exec (inst_cmd i)) h i idx)"
    using wf_inst_cmd [OF assms(1)] assms(2,3)
    by (cases "inst_cmd i")
      (simp_all add: handler_defs(4-11,16-40,42-49) shapes_quiet control_quiet)
  then show ?thesis using assms by (simp add: frames_def Inst_exec_cmd)
qed

lemma Inst_exec_frame:
  assumes "wf_inst i" "host_ok h" "inst_cmd i \<noteq> Cmd_FENCE"
  shows "frames exec_step (Inst_exec h i idx)"
proof (cases "inst_cmd i = Cmd_ECALL")
  case True
  then show ?thesis using control_frame(6) [OF assms(2)] by (simp add: frames_def Inst_exec_cmd [OF assms(1)])
next
  case False
  then show ?thesis using assms by (intro quiet_frames Inst_exec_quiet)
qed

text \<open>\<^verbatim>\<open>FENCE\<close> empties the trace cache and the TLBs.\<close>

lemma exec_fence:
  assumes "wf_inst i" "inst_cmd i = Cmd_FENCE"
  shows "Inst_exec h i idx s = (Inr EndTrace, s\<lparr>instTLB := LRUCache_clear (instTLB s),
    dataTLB := LRUCache_clear (dataTLB s), trace_cache := LRUCache_clear (trace_cache s),
    pc := pc s + offset_of idx + 4\<rparr>)"
  using assms by (simp add: Inst_exec_cmd ExecFENCE_def State_flush_eq bnd_Inr)

lemma exec_from_frame:
  assumes "\<And>i. i \<in> set is \<Longrightarrow> wf_inst i \<and> inst_cmd i \<noteq> Cmd_FENCE" "host_ok h"
  shows "frames exec_step (exec_from h idx is)"
  using assms
proof (induction "is" arbitrary: idx)
  case Nil
  show ?case unfolding exec_from.simps by (rule exec.frames_raise)
next
  case (Cons i "is")
  have "frames exec_step (case f of NextInst \<Rightarrow> exec_from h (Suc idx) is | EndTrace \<Rightarrow> ret ())" for f
    using Cons by (cases f) (auto intro: exec.frames_ret)
  then show ?case
    using Cons.prems unfolding exec_from.simps by (intro exec.frames_bnd Inst_exec_frame) auto
qed

section \<open>The properties\<close>

text \<open>A host as the simulator's, and a machine to run small examples on.\<close>

definition x86_host :: Host where
  "x86_host = \<lparr>wide_shl = \<lambda>x n. push_bit (unat n mod 32) x, wide_shr = \<lambda>x n. drop_bit (unat n mod 32) x,
     timeofday = \<lambda>k. (0, replicate 16 0, replicate 8 0), can_create = \<lambda>_. True\<rparr>"

lemma x86_host_ok: "x86_shifts x86_host" "host_ok x86_host"
  by (simp_all add: x86_shifts_def host_ok_def x86_host_def)

definition demo_state :: State where
  "demo_state = static_state default_options (\<lambda>_. 0) []"

lemma demo_state_ok: "exec_inv demo_state" "length (regs demo_state) = 32" "\<not> isVirtualAddressing demo_state"
  "regs demo_state = replicate 32 0" "pc demo_state = 0" "satp demo_state = 0x17"
  by (simp_all add: exec_inv_def regs_ok_def mmu_ok_def demo_state_def static_state_def MMU_ctor_def
      default_options_def MMU_State.defs isVirtualAddressing_def)

text \<open>C5: On a well-formed trace (as the fetch loop builds it) of conforming RV32IM instructions and
  without address translation, the interpreter's chain of handlers computes what executing the
  instructions one by one by the instruction set computes: the same registers, memory and next
  program counter, or an exception exactly where an access leaves the memory.\<close>

theorem interpreter_refines_isa:
  assumes "trace_shape is" and "\<And>i. i \<in> set is \<Longrightarrow> conforming h i"
    and "length (regs s) = 32" and "\<not> isVirtualAddressing s"
  shows "case isa_trace is (pc s) (unat (pmem_size s)) (regs s, pmem s) of
      None \<Rightarrow> \<exists>msg s'. exec_from h 0 is s = (Inl (Throw msg), s')
    | Some (next, xs, mem) \<Rightarrow> \<exists>s'. exec_from h 0 is s = (Inr (), s') \<and>
        pc s' = next \<and> regs s' = xs \<and> pmem s' = mem"
  using exec_from_refines [OF assms, of 0] by (simp add: offset_of_def)

theorem interpreter_refines_isa_witness:
  "let prog = [inst_of Cmd_ADDI 1 0 0 5, inst_of Cmd_JAL 2 0 0 8] in
   \<exists>s'. exec_from x86_host 0 prog demo_state = (Inr (), s') \<and> pc s' = 20 \<and> regs s' ! 1 = 5 \<and> regs s' ! 2 = 8"
proof -
  let ?prog = "[inst_of Cmd_ADDI 1 0 0 5, inst_of Cmd_JAL 2 0 0 8]"
  have "trace_shape ?prog" by (simp add: trace_shape_def terminator_def)
  moreover have "conforming x86_host i" if "i \<in> set ?prog" for i
    using that x86_host_ok by (auto simp: conforming_def rv32im_def)
  ultimately show ?thesis
    using interpreter_refines_isa [OF _ _ demo_state_ok(2,3), of ?prog x86_host]
    by (auto simp: isa_step_def alu_op_def branch_op_def load_op_def store_op_def terminator_def
        cmd_format_by_opcode demo_state_ok isa_write_def Let_def simp del: exec_from.simps)
qed

text \<open>C9: One instruction, without address translation and for every conforming RV32IM instruction: any
  command of RV32I and M, \<^verbatim>\<open>FENCE\<close> included and \<^verbatim>\<open>ECALL\<close> not, except a \<^verbatim>\<open>JALR\<close> whose base register is also its
  link register (\<open>JALR_same_register\<close>), and except constant shifts by 32 or more on a host that does not shift as x86
  does. The handler returns with \<^verbatim>\<open>END_TRACE\<close> exactly for the commands that end a trace and leaves the
  registers, the memory and the virtual program counter that the instruction set asks for; an access
  that leaves the memory throws and changes nothing.\<close>

theorem handler_refines_isa:
  assumes "conforming h i" and "length (regs s) = 32" and "\<not> isVirtualAddressing s"
  shows "case isa_step i (pc s + offset_of idx) (unat (pmem_size s)) (regs s, pmem s) of
        None \<Rightarrow> Inst_exec h i idx s = (Inl (Throw ''Address is out of memory''), s)
      | Some (next, xs, mem) \<Rightarrow> \<exists>s'.
          Inst_exec h i idx s = (Inr (if terminator (inst_cmd i) then EndTrace else NextInst), s') \<and>
          regs s' = xs \<and> pmem s' = mem \<and>
          (if terminator (inst_cmd i) then pc s' = next
           else pc s' = pc s \<and> next = pc s + offset_of (Suc idx))"
  using conforming_refines [OF assms, of idx]
  by (auto simp: step_refines_def split: option.splits)

theorem handler_refines_isa_witness:
  "\<exists>s'. Inst_exec x86_host (inst_of Cmd_JALR 1 2 0 9) 3 demo_state = (Inr EndTrace, s') \<and>
     pc s' = 8 \<and> regs s' ! 1 = 16"
proof -
  have "conforming x86_host (inst_of Cmd_JALR 1 2 0 9)"
    using x86_host_ok by (simp add: conforming_def rv32im_def)
  from handler_refines_isa [OF this demo_state_ok(2,3), of 3] show ?thesis
    by (auto simp: isa_step_def alu_op_def branch_op_def load_op_def store_op_def terminator_def
        demo_state_ok isa_write_def Let_def offset_of_def)
qed

text \<open>C17: In either addressing mode and for every instruction that the decoder produces, also those
  of the system and of the privileged architecture, the handlers of a trace keep the registers
  well-formed (register 0 stays 0) and the TLBs sound; the only way they fail is an exception: a
  \<^verbatim>\<open>SimException\<close>, or the overflow error of the hash map of a TLB.\<close>

theorem interpreter_safe:
  assumes "trace_shape is" and "\<And>i. i \<in> set is \<Longrightarrow> wf_inst i" and "host_ok h" and "exec_inv s"
  shows "case exec_from h 0 is s of (Inl e, s') \<Rightarrow> is_exception e | (Inr u, s') \<Rightarrow> exec_inv s'"
  using exec_from_safe [OF assms(1-3), of 0] assms(4)
  by (auto simp: safe_def valid_def)

theorem interpreter_safe_witness:
  "case exec_from x86_host 0 [inst_of Cmd_ECALL 0 0 0 0, inst_of Cmd_FENCE 0 0 0 0xff] demo_state of
     (Inl e, s') \<Rightarrow> is_exception e | (Inr u, s') \<Rightarrow> exec_inv s'"
  by (rule interpreter_safe [OF _ _ x86_host_ok(2) demo_state_ok(1)])
    (auto simp: trace_shape_def terminator_def)

text \<open>C36: \<^verbatim>\<open>JALR\<close> with its base register as link register jumps relative to the link address, not
  to the old value of the register as the instruction set asks for.\<close>

theorem JALR_same_register:
  assumes "wf_inst i" and "inst_cmd i = Cmd_JALR" and "inst_rd i = inst_rs1 i" and "inst_rd i \<noteq> 0"
    and "length (regs s) = 32"
  shows "pc (snd (Inst_exec h i idx s)) = (pc s + offset_of idx + 4 + inst_imm i) AND NOT 1"
proof -
  note ops = operand_eqs [OF assms(1)] wf_inst_regs [OF assms(1)]
  have "regs (set_reg (inst_rs1 i) v s) ! unat (inst_rs1 i) = v" for v
    using assms(3-5) ops by (simp add: set_reg_def word_less_nat_alt)
  then show ?thesis
    using assms
    by (simp add: Inst_exec_cmd ops ExecJALR_def cmd_format_by_opcode bnd_Inr Let_def)
qed

theorem JALR_same_register_witness:
  "pc (snd (Inst_exec x86_host (inst_of Cmd_JALR 5 5 0 0) 0 (demo_state\<lparr>regs := (regs demo_state)[5 := 64]\<rparr>))) = 4"
  using JALR_same_register [of "inst_of Cmd_JALR 5 5 0 0" "demo_state\<lparr>regs := (regs demo_state)[5 := 64]\<rparr>"
      x86_host 0]
  by (simp add: demo_state_ok offset_of_def)

text \<open>C37: \<^verbatim>\<open>CSRRW\<close> on \<^verbatim>\<open>satp\<close> can only switch address translation on: it ignores every other bit of
  its operand, never clears the mode, and does not deliver the old value of the register.\<close>

theorem CSRRW_satp:
  assumes "wf_inst i" and "inst_cmd i = Cmd_CSRRW" and "inst_imm i = 0x180" and "length (regs s) = 32"
  shows "Inst_exec h i idx s = (Inr NextInst,
    s\<lparr>satp := satp s OR (regs s ! unat (inst_rs1 i) AND 0x80000000)\<rparr>)"
proof -
  note ops = operand_eqs [OF assms(1)] wf_inst_regs [OF assms(1)]
  have "(ucast (ucast a OR (scast b AND 0x80000000 :: u64)) :: u32) = a OR (b AND 0x80000000)" for a b :: u32
    by (rule bit_word_eqI) (auto simp: bit_simps)
  then show ?thesis
    using assms by (simp add: Inst_exec_cmd ops ExecCSRRW_def cmd_format_by_opcode bnd_Inr)
qed

theorem CSRRW_satp_witness:
  "satp (snd (Inst_exec x86_host (inst_of Cmd_CSRRW 1 5 0 0x180) 0
     (demo_state\<lparr>regs := (regs demo_state)[5 := 0x80012345]\<rparr>))) = 0x80000017"
  using CSRRW_satp [of "inst_of Cmd_CSRRW 1 5 0 0x180" "demo_state\<lparr>regs := (regs demo_state)[5 := 0x80012345]\<rparr>"
      x86_host 0]
  by (simp add: demo_state_ok)

end
