(* ===== verification/Syscall_Correct.thy ===== *)
theory Syscall_Correct
  imports Syscall Mmu_Correct Exec_Safe
begin

text \<open>
  What the system calls compute (\<^verbatim>\<open>src/sim/syscall.cpp\<close>), without address translation: \<^verbatim>\<open>read\<close> moves the
  bytes of standard input to the buffer, \<^verbatim>\<open>write\<close> the bytes of the buffer to standard output, and
  what is read and then written is echoed.
\<close>

section \<open>The loops\<close>

lemma read_bytes_Suc: "read_bytes p (Suc n) m = m p # read_bytes (Suc p) n m"
  by (simp add: read_bytes_def upt_conv_Cons map_Suc_upt [symmetric] del: upt_Suc)

lemma write_bytes_Cons: "write_bytes p (b # bs) m = write_bytes (Suc p) bs (write_bytes p [b] m)"
  by (rule ext) (auto simp: write_bytes_def nth_Cons')

lemma write_bytes_Nil [simp]: "write_bytes p [] m = m"
  by (auto simp: write_bytes_def fun_eq_iff)

lemma unat_add_less:
  "unat a + k < 2 ^ 32 \<Longrightarrow> unat ((a :: u32) + of_nat k) = unat a + k"
  by (simp add: unat_word_ariths unat_of_nat)

text \<open>Byte \<open>i\<close> of the buffer, with \<open>n\<close> more to come.\<close>

lemma write_loop_eq:
  assumes "\<not> isVirtualAddressing s" "unat (pmem_size s) \<le> 2 ^ 32"
    and "n = 0 \<or> unat a1 + i + n < unat (pmem_size s)"
  shows "write_loop n (of_nat i) a1 s =
    (Inr (), s\<lparr>stdout_bytes := stdout_bytes s @ read_bytes (unat a1 + i) n (pmem s)\<rparr>)"
  using assms
proof (induction n arbitrary: i s)
  case 0
  then show ?case by (simp add: read_bytes_def)
next
  case (Suc n)
  have a: "unat (a1 + of_nat i) = unat a1 + i" using Suc.prems by (intro unat_add_less) simp
  let ?s = "s\<lparr>stdout_bytes := stdout_bytes s @ [pmem s (unat a1 + i)]\<rparr>"
  have "State_read 1 (a1 + of_nat i) s = (Inr [pmem s (unat a1 + i)], s)"
    using Suc.prems bare_load [OF Suc.prems(1), of 1 "a1 + of_nat i" False] a
    by (simp add: State_read_def read_bytes_def)
  then have "write_loop (Suc n) (of_nat i) a1 s = write_loop n (of_nat (Suc i)) a1 ?s"
    by (simp add: bnd_Inr fputc_stdout_def add.commute)
  also have "\<dots> = (Inr (), ?s\<lparr>stdout_bytes := stdout_bytes ?s @ read_bytes (unat a1 + Suc i) n (pmem ?s)\<rparr>)"
    using Suc.prems by (intro Suc.IH) (simp_all add: isVirtualAddressing_def)
  finally show ?case by (simp add: read_bytes_Suc)
qed

lemma read_loop_eq:
  assumes "\<not> isVirtualAddressing s" "unat (pmem_size s) \<le> 2 ^ 32" "length (regs s) = 32"
    and "min n (length (stdin_bytes s)) = 0 \<or> unat a1 + i + min n (length (stdin_bytes s)) < unat (pmem_size s)"
    and "unat a2 = i + n"
  shows "read_loop n (of_nat i) a1 a2 s =
    (Inr (), set_reg 10 (of_nat (i + min n (length (stdin_bytes s))))
      (s\<lparr>pmem := write_bytes (unat a1 + i) (take n (stdin_bytes s)) (pmem s), stdin_bytes := drop n (stdin_bytes s)\<rparr>))"
  using assms
proof (induction n arbitrary: i s)
  case 0
  have "a2 = of_nat i" using arg_cong [OF 0(5), of "of_nat :: nat \<Rightarrow> u32"] by simp
  with 0 show ?case by simp
next
  case (Suc n)
  show ?case
  proof (cases "stdin_bytes s")
    case Nil
    have e: "s\<lparr>stdin_bytes := []\<rparr> = s"
      by (rule State.equality) (simp_all add: Nil)
    show ?thesis
      using Suc.prems Nil by (simp add: bnd_Inr fgetc_stdin_def e)
  next
    case (Cons b bs)
    let ?s = "s\<lparr>pmem := write_bytes (unat a1 + i) [b] (pmem s), stdin_bytes := bs\<rparr>"
    have a: "unat (a1 + of_nat i) = unat a1 + i" using Suc.prems Cons by (intro unat_add_less) simp
    have "State_write (a1 + of_nat i) [b] (s\<lparr>stdin_bytes := bs\<rparr>) = (Inr (), ?s)"
      using Suc.prems Cons bare_store [of "s\<lparr>stdin_bytes := bs\<rparr>" "[b]" "a1 + of_nat i"] a
      by (simp add: State_write_def isVirtualAddressing_def)
    then have "read_loop (Suc n) (of_nat i) a1 a2 s = read_loop n (of_nat (Suc i)) a1 a2 ?s"
      using Cons by (simp add: bnd_Inr fgetc_stdin_def add.commute)
    also have "\<dots> = (Inr (), set_reg 10 (of_nat (Suc i + min n (length bs)))
      (?s\<lparr>pmem := write_bytes (unat a1 + Suc i) (take n bs) (pmem ?s), stdin_bytes := drop n bs\<rparr>))"
      using Suc.prems Cons Suc.IH [of ?s "Suc i"] by (simp add: isVirtualAddressing_def)
    finally show ?thesis using Cons by (simp add: write_bytes_Cons [of _ b "take n bs"])
  qed
qed

section \<open>The calls\<close>

lemma ExecWrite_eq:
  assumes "\<not> isVirtualAddressing s" "unat (pmem_size s) \<le> 2 ^ 32" "length (regs s) = 32"
    and "regs s ! 12 = 0 \<or> unat (regs s ! 11) + unat (regs s ! 12) < unat (pmem_size s)"
  shows "ExecWrite s = (Inr (), set_reg 10 (regs s ! 12)
    (s\<lparr>stdout_bytes := stdout_bytes s @ read_bytes (unat (regs s ! 11)) (unat (regs s ! 12)) (pmem s)\<rparr>))"
  using write_loop_eq [OF assms(1,2), where ?a1.0 = "regs s ! 11" and i = 0 and n = "unat (regs s ! 12)"] assms
  by (auto simp: ExecWrite_def bnd_Inr)

lemma ExecRead_eq:
  assumes "\<not> isVirtualAddressing s" "unat (pmem_size s) \<le> 2 ^ 32" "length (regs s) = 32"
    and "n = min (unat (regs s ! 12)) (length (stdin_bytes s))"
    and "n = 0 \<or> unat (regs s ! 11) + n < unat (pmem_size s)"
  shows "ExecRead s = (Inr (), set_reg 10 (of_nat n)
    (s\<lparr>pmem := write_bytes (unat (regs s ! 11)) (take n (stdin_bytes s)) (pmem s),
       stdin_bytes := drop n (stdin_bytes s)\<rparr>))"
  using read_loop_eq [OF assms(1-3), where ?a1.0 = "regs s ! 11" and i = 0 and n = "unat (regs s ! 12)" and ?a2.0 = "regs s ! 12"] assms
  by (auto simp: ExecRead_def bnd_Inr min_def)

section \<open>The properties\<close>

text \<open>\<^verbatim>\<open>read\<close> stores as many bytes of standard input as \<^verbatim>\<open>a2\<close> asks for, or all that are left, at the
  address in \<^verbatim>\<open>a1\<close>, consumes exactly those, returns their number in \<^verbatim>\<open>a0\<close> and changes nothing else.\<close>

theorem read_syscall:
  assumes "\<not> isVirtualAddressing s" and "unat (pmem_size s) \<le> 2 ^ 32" and "length (regs s) = 32"
    and "n = min (unat (regs s ! 12)) (length (stdin_bytes s))"
    and "n = 0 \<or> unat (regs s ! 11) + n < unat (pmem_size s)"
  shows "ExecSysCall h 63 s = (Inr (), s\<lparr>regs := (regs s)[10 := of_nat n],
    pmem := write_bytes (unat (regs s ! 11)) (take n (stdin_bytes s)) (pmem s),
    stdin_bytes := drop n (stdin_bytes s)\<rparr>)"
  using ExecRead_eq [OF assms] by (simp add: ExecSysCall_def set_reg_def)

text \<open>A state with two bytes of input and the registers of a call with a buffer of four bytes at 16.\<close>

definition io_state :: State where
  "io_state = demo_state\<lparr>regs := (replicate 32 0)[11 := 16, 12 := 4], stdin_bytes := [104, 105]\<rparr>"

lemma io_state_ok: "\<not> isVirtualAddressing io_state" "pmem_size io_state = 0x80000" "length (regs io_state) = 32"
  "regs io_state ! 11 = 16" "regs io_state ! 12 = 4" "stdin_bytes io_state = [104, 105]" "stdout_bytes io_state = []"
  using demo_state_ok(3)
  by (simp_all add: io_state_def isVirtualAddressing_def demo_state_def static_state_def MMU_ctor_def
      MMU_State.defs default_options_def pagesize_def)

theorem read_syscall_witness:
  "\<exists>s'. ExecSysCall x86_host 63 io_state = (Inr (), s') \<and> regs s' ! 10 = 2 \<and>
    read_bytes 16 2 (pmem s') = [104, 105] \<and> stdin_bytes s' = []"
proof -
  note ok = io_state_ok
  have "ExecSysCall x86_host 63 io_state = (Inr (), io_state\<lparr>regs := (regs io_state)[10 := of_nat 2],
    pmem := write_bytes (unat (regs io_state ! 11)) (take 2 (stdin_bytes io_state)) (pmem io_state),
    stdin_bytes := drop 2 (stdin_bytes io_state)\<rparr>)"
    by (rule read_syscall) (simp_all add: ok)
  moreover have "read_bytes 16 2 (write_bytes 16 [104, 105] m) = [104, 105]" for m
    by (rule read_write_same) simp
  ultimately show ?thesis by (simp add: ok)
qed

text \<open>\<^verbatim>\<open>write\<close> appends exactly the \<^verbatim>\<open>a2\<close> bytes at the address in \<^verbatim>\<open>a1\<close> to standard output, in order, and
  returns their number.\<close>

theorem write_syscall:
  assumes "\<not> isVirtualAddressing s" and "unat (pmem_size s) \<le> 2 ^ 32" and "length (regs s) = 32"
    and "regs s ! 12 = 0 \<or> unat (regs s ! 11) + unat (regs s ! 12) < unat (pmem_size s)"
  shows "ExecSysCall h 64 s = (Inr (), s\<lparr>regs := (regs s)[10 := regs s ! 12],
    stdout_bytes := stdout_bytes s @ read_bytes (unat (regs s ! 11)) (unat (regs s ! 12)) (pmem s)\<rparr>)"
  using ExecWrite_eq [OF assms] by (simp add: ExecSysCall_def set_reg_def)

theorem write_syscall_witness:
  "\<exists>s'. ExecSysCall x86_host 64 io_state = (Inr (), s') \<and> length (stdout_bytes s') = 4"
  using write_syscall [of io_state x86_host] io_state_ok by (simp add: read_bytes_def)

text \<open>Input is echoed: a \<^verbatim>\<open>read\<close> that finds enough bytes and a \<^verbatim>\<open>write\<close> of the same buffer print exactly
  the bytes that were entered.\<close>

theorem read_write_echo:
  assumes "\<not> isVirtualAddressing s" and "unat (pmem_size s) \<le> 2 ^ 32" and "length (regs s) = 32"
    and "unat (regs s ! 12) \<le> length (stdin_bytes s)"
    and "unat (regs s ! 11) + unat (regs s ! 12) < unat (pmem_size s)"
  shows "\<exists>s'. bnd (ExecSysCall h 63) (\<lambda>_. ExecSysCall h 64) s = (Inr (), s') \<and>
    stdout_bytes s' = stdout_bytes s @ take (unat (regs s ! 12)) (stdin_bytes s) \<and>
    stdin_bytes s' = drop (unat (regs s ! 12)) (stdin_bytes s)"
proof -
  let ?n = "unat (regs s ! 12)"
  define s1 where "s1 = set_reg 10 (of_nat ?n)
    (s\<lparr>pmem := write_bytes (unat (regs s ! 11)) (take ?n (stdin_bytes s)) (pmem s),
       stdin_bytes := drop ?n (stdin_bytes s)\<rparr>)"
  have r: "ExecRead s = (Inr (), s1)"
    unfolding s1_def by (rule ExecRead_eq) (use assms in simp_all)
  have s1: "regs s1 ! 11 = regs s ! 11" "regs s1 ! 12 = regs s ! 12" "length (regs s1) = 32"
    "pmem_size s1 = pmem_size s" "\<not> isVirtualAddressing s1" "stdout_bytes s1 = stdout_bytes s"
    "stdin_bytes s1 = drop ?n (stdin_bytes s)"
    "pmem s1 = write_bytes (unat (regs s ! 11)) (take ?n (stdin_bytes s)) (pmem s)"
    using assms(1,3) by (simp_all add: s1_def set_reg_def isVirtualAddressing_def)
  have "ExecWrite s1 = (Inr (), set_reg 10 (regs s1 ! 12)
    (s1\<lparr>stdout_bytes := stdout_bytes s1 @ read_bytes (unat (regs s1 ! 11)) (unat (regs s1 ! 12)) (pmem s1)\<rparr>))"
    by (rule ExecWrite_eq) (use assms s1 in simp_all)
  with r s1 show ?thesis
    using assms(4) by (simp add: ExecSysCall_def bnd_Inr set_reg_def read_write_same)
qed

theorem read_write_echo_witness:
  "\<exists>s'. bnd (ExecSysCall x86_host 63) (\<lambda>_. ExecSysCall x86_host 64)
      (io_state\<lparr>regs := (regs io_state)[12 := 2]\<rparr>) = (Inr (), s') \<and> stdout_bytes s' = [104, 105]"
  using read_write_echo [of "io_state\<lparr>regs := (regs io_state)[12 := 2]\<rparr>" x86_host] io_state_ok
  by (auto simp: isVirtualAddressing_def)

end
