(* ===== verification/Environment.thy ===== *)
theory Environment
  imports Isa_Spec
begin

text \<open>
  Programs and their environment, independently of the simulator: the machine of \<open>Isa_Spec\<close> with a
  program in its memory and with the services that \<^verbatim>\<open>ECALL\<close> asks for. The environment is what a
  program has of its host: the bytes left on standard input, the bytes written to standard
  output, and the number of times that it has asked for the time. A program is running, has asked
  to be ended, or has accessed bytes outside the memory.
\<close>

type_synonym isa_state = "u32 \<times> u32 list \<times> (nat \<Rightarrow> u8)"

type_synonym clock = "nat \<Rightarrow> u32 \<times> u8 list \<times> u8 list"

section \<open>Programs without an environment\<close>

text \<open>\<open>n\<close> instructions of the program \<open>P\<close>; \<open>None\<close> if one of them faults.\<close>

fun isa_run :: "(u32 \<rightharpoonup> Inst) \<Rightarrow> nat \<Rightarrow> nat \<Rightarrow> isa_state \<Rightarrow> isa_state option" where
  "isa_run P mem_size 0 st = Some st"
| "isa_run P mem_size (Suc n) (at, st) =
     (case P at of
        None \<Rightarrow> None
      | Some i \<Rightarrow> (case isa_step i at mem_size st of None \<Rightarrow> None | Some st \<Rightarrow> isa_run P mem_size n st))"

lemma isa_run_add:
  "isa_run P ms (n + m) st = Option.bind (isa_run P ms n st) (isa_run P ms m)"
  by (induction n arbitrary: st) (auto split: option.split)

lemma isa_run_faulted: "isa_run P ms n st = None \<Longrightarrow> n \<le> m \<Longrightarrow> isa_run P ms m st = None"
  using isa_run_add [of P ms n "m - n" st] by simp

section \<open>The environment\<close>

record Io =
  io_in :: "u8 list"
  io_out :: "u8 list"
  io_clock :: nat

datatype outcome =
    Running isa_state Io
  | Finished "u32 list \<times> (nat \<Rightarrow> u8)" Io
  | Faulted "u32 list \<times> (nat \<Rightarrow> u8)" Io

text \<open>
  The services, by the number in \<^verbatim>\<open>a7\<close>; the arguments are in \<^verbatim>\<open>a0\<close> to \<^verbatim>\<open>a2\<close>, the result goes to \<^verbatim>\<open>a0\<close>.
  \<open>next\<close> is the address of the next instruction. The bytes from \<open>a\<close> on for which the memory has room
  are \<open>room mem_size a\<close> many. \<^verbatim>\<open>read\<close> moves the bytes of standard input one by one, and \<^verbatim>\<open>write\<close> those
  of the buffer: what precedes an access outside the memory has happened.
\<close>

definition room :: "nat \<Rightarrow> u32 \<Rightarrow> nat" where
  "room mem_size a = mem_size - 1 - unat a"

definition serve_read :: "nat \<Rightarrow> u32 \<Rightarrow> u32 list \<times> (nat \<Rightarrow> u8) \<Rightarrow> Io \<Rightarrow> outcome" where
  "serve_read mem_size next st e =
     (let (xs, mem) = st; buf = xs ! 11; n = min (unat (xs ! 12)) (length (io_in e)) in
      if n \<le> room mem_size buf
      then Running (next, isa_write 10 (of_nat n) xs, write_bytes (unat buf) (take n (io_in e)) mem)
             (e\<lparr>io_in := drop n (io_in e)\<rparr>)
      else Faulted (xs, write_bytes (unat buf) (take (room mem_size buf) (io_in e)) mem)
             (e\<lparr>io_in := drop (Suc (room mem_size buf)) (io_in e)\<rparr>))"

definition serve_write :: "nat \<Rightarrow> u32 \<Rightarrow> u32 list \<times> (nat \<Rightarrow> u8) \<Rightarrow> Io \<Rightarrow> outcome" where
  "serve_write mem_size next st e =
     (let (xs, mem) = st; buf = xs ! 11; n = unat (xs ! 12) in
      if n \<le> room mem_size buf
      then Running (next, isa_write 10 (xs ! 12) xs, mem) (e\<lparr>io_out := io_out e @ read_bytes (unat buf) n mem\<rparr>)
      else Faulted st (e\<lparr>io_out := io_out e @ read_bytes (unat buf) (room mem_size buf) mem\<rparr>))"

definition serve_time :: "clock \<Rightarrow> nat \<Rightarrow> u32 \<Rightarrow> u32 list \<times> (nat \<Rightarrow> u8) \<Rightarrow> Io \<Rightarrow> outcome" where
  "serve_time clock mem_size next st e =
     (let (xs, mem) = st; (res, tv, tz) = clock (io_clock e); e = e\<lparr>io_clock := Suc (io_clock e)\<rparr>;
          xs' = isa_write 10 res xs; mem' = write_bytes (unat (xs ! 10)) tv mem in
      if \<not> unat (xs ! 10) + length tv < mem_size then Faulted (xs', mem) e
      else if \<not> unat (xs ! 11) + length tz < mem_size then Faulted (xs', mem') e
      else Running (next, xs', write_bytes (unat (xs ! 11)) tz mem') e)"

definition serve :: "clock \<Rightarrow> nat \<Rightarrow> u32 \<Rightarrow> u32 list \<times> (nat \<Rightarrow> u8) \<Rightarrow> Io \<Rightarrow> outcome" where
  "serve clock mem_size next st e =
     (let number = fst st ! 17 in
      if number = 63 then serve_read mem_size next st e
      else if number = 64 then serve_write mem_size next st e
      else if number = 93 then Finished st e
      else if number = 169 then serve_time clock mem_size next st e
      else if number = 57 \<or> number = 80 \<or> number = 214 then Running (next, isa_write 10 0 (fst st), snd st) e
      else Running (next, st) e)"

section \<open>Programs\<close>

definition env_step :: "clock \<Rightarrow> nat \<Rightarrow> Inst \<Rightarrow> u32 \<Rightarrow> u32 list \<times> (nat \<Rightarrow> u8) \<Rightarrow> Io \<Rightarrow> outcome" where
  "env_step clock mem_size i at st e =
     (if inst_cmd i = Cmd_ECALL then serve clock mem_size (at + 4) st e
      else case isa_step i at mem_size st of None \<Rightarrow> Faulted st e | Some st' \<Rightarrow> Running st' e)"

fun env_run :: "clock \<Rightarrow> nat \<Rightarrow> (u32 \<rightharpoonup> Inst) \<Rightarrow> nat \<Rightarrow> isa_state \<Rightarrow> Io \<Rightarrow> outcome" where
  "env_run clock mem_size P 0 st e = Running st e"
| "env_run clock mem_size P (Suc n) (at, st) e =
     (case P at of
        None \<Rightarrow> Faulted st e
      | Some i \<Rightarrow> (case env_step clock mem_size i at st e of
          Running st' e' \<Rightarrow> env_run clock mem_size P n st' e'
        | done \<Rightarrow> done))"

text \<open>The run goes on from where it is, and what has ended stays as it is.\<close>

definition and_then :: "outcome \<Rightarrow> (isa_state \<Rightarrow> Io \<Rightarrow> outcome) \<Rightarrow> outcome" where
  "and_then r f = (case r of Running st e \<Rightarrow> f st e | done \<Rightarrow> done)"

lemma and_then_simps [simp]:
  "and_then (Running st e) f = f st e" "and_then (Finished x e) f = Finished x e" "and_then (Faulted x e) f = Faulted x e"
  by (simp_all add: and_then_def)

lemma env_run_Suc:
  "P (fst st) = Some i \<Longrightarrow> env_run clock ms P (Suc n) st e =
    and_then (env_step clock ms i (fst st) (snd st) e) (env_run clock ms P n)"
  by (cases st) (simp add: and_then_def)

lemma env_run_add:
  "env_run clock ms P (n + m) st e = and_then (env_run clock ms P n st e) (env_run clock ms P m)"
proof (induction n arbitrary: st e)
  case (Suc n)
  obtain at r where "st = (at, r)" by (cases st)
  then show ?case using Suc by (auto split: option.split outcome.split)
qed simp

definition is_running :: "outcome \<Rightarrow> bool" where
  "is_running r = (case r of Running st e \<Rightarrow> True | done \<Rightarrow> False)"

lemma is_running_simps [simp]:
  "is_running (Running st e)" "\<not> is_running (Finished x e)" "\<not> is_running (Faulted x e)"
  by (simp_all add: is_running_def)

lemma env_run_ended:
  assumes "\<not> is_running (env_run clock ms P n st e)" "n \<le> m"
  shows "env_run clock ms P m st e = env_run clock ms P n st e"
proof -
  have "env_run clock ms P (n + (m - n)) st e = env_run clock ms P n st e"
    using assms(1) unfolding env_run_add by (cases "env_run clock ms P n st e") simp_all
  with assms(2) show ?thesis by simp
qed

text \<open>
  A program that does not use its environment runs as without it. It faults in the state in which the
  last instruction before the fault has left it.
\<close>

lemma env_run_isa:
  assumes "\<And>a i. P a = Some i \<Longrightarrow> inst_cmd i \<noteq> Cmd_ECALL"
  shows "isa_run P ms n st = Some st' \<Longrightarrow> env_run clock ms P n st e = Running st' e"
    and "isa_run P ms n st = None \<Longrightarrow> \<exists>k < n. \<exists>at x. isa_run P ms k st = Some (at, x) \<and>
      isa_run P ms (Suc k) st = None \<and> env_run clock ms P n st e = Faulted x e"
proof -
  show "isa_run P ms n st = Some st' \<Longrightarrow> env_run clock ms P n st e = Running st' e"
    by (induction n arbitrary: st)
      (auto simp: env_step_def dest: assms split: option.splits)
  show "isa_run P ms n st = None \<Longrightarrow> \<exists>k < n. \<exists>at x. isa_run P ms k st = Some (at, x) \<and>
      isa_run P ms (Suc k) st = None \<and> env_run clock ms P n st e = Faulted x e"
  proof (induction n arbitrary: st)
    case (Suc n)
    obtain at r where st: "st = (at, r)" by (cases st)
    show ?case
    proof (cases "isa_run P ms 1 st")
      case None
      then have "env_run clock ms P (Suc n) st e = Faulted r e"
        using assms by (auto simp: st env_step_def split: option.splits)
      with None show ?thesis by (intro exI [of _ 0]) (simp add: st)
    next
      case (Some st1)
      then obtain i where i: "P at = Some i" "isa_step i at ms r = Some st1"
        by (auto simp: st split: option.splits)
      then have "isa_run P ms n st1 = None" using Suc.prems by (simp add: st)
      from Suc.IH [OF this] obtain k at' x where k: "k < n" "isa_run P ms k st1 = Some (at', x)"
          "isa_run P ms (Suc k) st1 = None" "env_run clock ms P n st1 e = Faulted x e" by blast
      moreover have "isa_run P ms (Suc j) st = isa_run P ms j st1" for j using i by (simp add: st)
      moreover have "env_run clock ms P (Suc n) st e = env_run clock ms P n st1 e"
        using i assms by (simp add: st env_step_def)
      ultimately show ?thesis by (intro exI [of _ "Suc k"]) simp
    qed
  qed simp
qed

section \<open>The traces that a run enters\<close>

text \<open>
  The addresses after the instructions that may jump, within \<open>n\<close> instructions; with the address at
  which the run starts they are the addresses at which it enters a trace.
\<close>

fun entries :: "clock \<Rightarrow> nat \<Rightarrow> (u32 \<rightharpoonup> Inst) \<Rightarrow> nat \<Rightarrow> isa_state \<Rightarrow> Io \<Rightarrow> u32 list" where
  "entries clock mem_size P 0 st e = []"
| "entries clock mem_size P (Suc n) (at, st) e =
     (case P at of
        None \<Rightarrow> []
      | Some i \<Rightarrow> (case env_step clock mem_size i at st e of
          Running st' e' \<Rightarrow>
            (if terminator (inst_cmd i) then [fst st'] else []) @ entries clock mem_size P n st' e'
        | _ \<Rightarrow> []))"

definition heads :: "clock \<Rightarrow> nat \<Rightarrow> (u32 \<rightharpoonup> Inst) \<Rightarrow> nat \<Rightarrow> isa_state \<Rightarrow> Io \<Rightarrow> u32 set" where
  "heads clock mem_size P n st e = set (fst st # entries clock mem_size P n st e)"

lemma entries_add:
  "set (entries clock ms P (n + m) st e) = set (entries clock ms P n st e) \<union>
    (case env_run clock ms P n st e of Running st' e' \<Rightarrow> set (entries clock ms P m st' e') | _ \<Rightarrow> {})"
proof (induction n arbitrary: st e)
  case (Suc n)
  obtain at r where "st = (at, r)" by (cases st)
  then show ?case using Suc by (auto split: option.split outcome.split)
qed simp

lemma finite_heads [simp]: "finite (heads clock ms P n st e)"
  by (simp add: heads_def)

lemma length_entries: "length (entries clock ms P n st e) \<le> n"
proof (induction n arbitrary: st e)
  case (Suc n)
  obtain at r where "st = (at, r)" by (cases st)
  then show ?case using le_SucI [OF Suc.IH] Suc.IH by (simp split: option.split outcome.split)
qed simp

lemma card_heads: "card (heads clock ms P n st e) \<le> Suc n"
  using card_length [of "fst st # entries clock ms P n st e"] length_entries [of clock ms P n st e]
  unfolding heads_def by simp

lemma heads_mono: "n \<le> m \<Longrightarrow> heads clock ms P n st e \<subseteq> heads clock ms P m st e"
  using entries_add [of clock ms P n "m - n" st e] by (auto simp: heads_def)

lemma heads_add:
  assumes "env_run clock ms P n st e = Running st' e'" "a \<in> set (entries clock ms P m st' e')"
  shows "a \<in> heads clock ms P (n + m) st e"
  using assms by (simp add: heads_def entries_add)

text \<open>One trace: instructions up to the first one that may jump.\<close>

fun env_trace :: "clock \<Rightarrow> nat \<Rightarrow> Inst list \<Rightarrow> isa_state \<Rightarrow> Io \<Rightarrow> outcome" where
  "env_trace clock mem_size [] st e = Running st e"
| "env_trace clock mem_size (i # is) (at, st) e =
     and_then (env_step clock mem_size i at st e) (env_trace clock mem_size is)"

end
