(* ===== verification/Exec_Environment.thy ===== *)
theory Exec_Environment
  imports Environment Syscall_Correct
begin

text \<open>
  The interpreter against the environment: the handler of \<^verbatim>\<open>ECALL\<close> does what the services of \<open>Environment\<close>
  do, on every path, and a chain of handlers with system calls in it does what the machine with
  its environment does.
\<close>

definition io_of :: "State \<Rightarrow> Io" where
  "io_of s = \<lparr>io_in = stdin_bytes s, io_out = stdout_bytes s, io_clock = tod_calls s\<rparr>"

lemma io_of_simps [simp]:
  "io_in (io_of s) = stdin_bytes s" "io_out (io_of s) = stdout_bytes s" "io_clock (io_of s) = tod_calls s"
  "io_of (s\<lparr>pc := p\<rparr>) = io_of s" "io_of (s\<lparr>regs := r\<rparr>) = io_of s" "io_of (s\<lparr>pmem := m\<rparr>) = io_of s"
  "io_of (s\<lparr>trace_cache := c\<rparr>) = io_of s" "io_of (s\<lparr>stats := st\<rparr>) = io_of s" "io_of (s\<lparr>log_text := t\<rparr>) = io_of s"
  "io_of (s\<lparr>executed_insts := x\<rparr>) = io_of s" "io_of (set_reg rd v s) = io_of s"
  by (simp_all add: io_of_def set_reg_def)

lemma set_reg_io [simp]:
  "stdin_bytes (set_reg r v s) = stdin_bytes s" "stdout_bytes (set_reg r v s) = stdout_bytes s"
  "tod_calls (set_reg r v s) = tod_calls s"
  by (simp_all add: set_reg_def)

section \<open>The loops outside the memory\<close>

lemma room_le: "n \<le> room ms a \<longleftrightarrow> n = 0 \<or> unat a + n < ms"
  by (auto simp: room_def)

lemma room_address:
  assumes "unat ms \<le> 2 ^ 32" "i \<le> room (unat ms) (a :: u32)" "0 < room (unat ms) a"
  shows "unat (a + of_nat i) = unat a + i"
  using assms by (intro unat_add_less) (simp add: room_def)

lemma room_end: "\<not> unat (a + of_nat (room ms a)) + 1 < ms" if "ms \<le> 2 ^ 32" for a :: u32
proof (cases "unat a < ms")
  case True
  then have "unat (a + of_nat (room ms a)) = unat a + room ms a"
    using that by (intro unat_add_less) (simp add: room_def)
  with True show ?thesis by (simp add: room_def)
next
  case False
  then show ?thesis by (simp add: room_def)
qed

lemma room_inside: "unat (a + of_nat i) = unat a + i \<and> unat a + i + 1 < ms"
  if "ms \<le> 2 ^ 32" "i < room ms a" for a :: u32
  using that by (intro conjI unat_add_less) (simp_all add: room_def)

text \<open>\<^verbatim>\<open>write\<close> has printed the bytes before the one outside the memory.\<close>

lemma write_loop_faults:
  assumes "\<not> isVirtualAddressing s" "unat (pmem_size s) \<le> 2 ^ 32"
    and "i \<le> room (unat (pmem_size s)) a1" "room (unat (pmem_size s)) a1 < i + n"
  shows "write_loop n (of_nat i) a1 s = (Inl out_of_memory,
    s\<lparr>stdout_bytes := stdout_bytes s @ read_bytes (unat a1 + i) (room (unat (pmem_size s)) a1 - i) (pmem s)\<rparr>)"
  using assms
proof (induction n arbitrary: i s)
  case 0
  then show ?case by simp
next
  case (Suc n)
  let ?r = "room (unat (pmem_size s)) a1"
  note load = bare_load [OF Suc.prems(1), of 1 "a1 + of_nat i" False]
  show ?case
  proof (cases "i = ?r")
    case True
    then have "State_read 1 (a1 + of_nat i) s = (Inl out_of_memory, s)"
      using load room_end [OF Suc.prems(2), of a1] by (simp add: State_read_def)
    with True show ?thesis by (simp add: bnd_Inl read_bytes_def)
  next
    case False
    then have lt: "i < ?r" using Suc.prems(3) by simp
    note at = room_inside [OF Suc.prems(2) lt]
    let ?s = "s\<lparr>stdout_bytes := stdout_bytes s @ [pmem s (unat a1 + i)]\<rparr>"
    have "State_read 1 (a1 + of_nat i) s = (Inr [pmem s (unat a1 + i)], s)"
      using load at by (simp add: State_read_def read_bytes_def)
    then have "write_loop (Suc n) (of_nat i) a1 s = write_loop n (of_nat (Suc i)) a1 ?s"
      by (simp add: bnd_Inr fputc_stdout_def add.commute)
    also have "\<dots> = (Inl out_of_memory,
        ?s\<lparr>stdout_bytes := stdout_bytes ?s @ read_bytes (unat a1 + Suc i) (room (unat (pmem_size ?s)) a1 - Suc i) (pmem ?s)\<rparr>)"
      using Suc.prems lt by (intro Suc.IH) (simp_all add: isVirtualAddressing_def)
    finally show ?thesis
      using lt by (simp add: Suc_diff_Suc [symmetric] read_bytes_Suc)
  qed
qed

text \<open>\<^verbatim>\<open>read\<close> has also consumed the byte that it cannot store.\<close>

lemma read_loop_faults:
  assumes "\<not> isVirtualAddressing s" "unat (pmem_size s) \<le> 2 ^ 32" "i \<le> room (unat (pmem_size s)) a1"
    and "room (unat (pmem_size s)) a1 < i + min n (length (stdin_bytes s))"
  shows "read_loop n (of_nat i) a1 a2 s = (Inl out_of_memory,
    s\<lparr>pmem := write_bytes (unat a1 + i) (take (room (unat (pmem_size s)) a1 - i) (stdin_bytes s)) (pmem s),
      stdin_bytes := drop (Suc (room (unat (pmem_size s)) a1 - i)) (stdin_bytes s)\<rparr>)"
  using assms
proof (induction n arbitrary: i s)
  case 0
  then show ?case by simp
next
  case (Suc n)
  let ?r = "room (unat (pmem_size s)) a1"
  obtain b bs where input: "stdin_bytes s = b # bs" using Suc.prems(3,4) by (cases "stdin_bytes s") simp_all
  let ?s = "s\<lparr>stdin_bytes := bs\<rparr>"
  have v: "\<not> isVirtualAddressing ?s" using Suc.prems(1) by (simp add: isVirtualAddressing_def)
  note store = bare_store [OF v, of "[b]" "a1 + of_nat i"]
  show ?case
  proof (cases "i = ?r")
    case True
    then have "State_write (a1 + of_nat i) [b] ?s = (Inl out_of_memory, ?s)"
      using store room_end [OF Suc.prems(2), of a1] by (simp add: State_write_def)
    with True input show ?thesis by (simp add: bnd_def fgetc_stdin_def)
  next
    case False
    then have lt: "i < ?r" using Suc.prems(3) by simp
    note at = room_inside [OF Suc.prems(2) lt]
    let ?t = "s\<lparr>pmem := write_bytes (unat a1 + i) [b] (pmem s), stdin_bytes := bs\<rparr>"
    have "State_write (a1 + of_nat i) [b] ?s = (Inr (), ?t)"
      using store at by (simp add: State_write_def)
    then have "read_loop (Suc n) (of_nat i) a1 a2 s = read_loop n (of_nat (Suc i)) a1 a2 ?t"
      using input by (simp add: bnd_Inr fgetc_stdin_def add.commute)
    also have "\<dots> = (Inl out_of_memory,
        ?t\<lparr>pmem := write_bytes (unat a1 + Suc i) (take (room (unat (pmem_size ?t)) a1 - Suc i) (stdin_bytes ?t)) (pmem ?t),
          stdin_bytes := drop (Suc (room (unat (pmem_size ?t)) a1 - Suc i)) (stdin_bytes ?t)\<rparr>)"
      using Suc.prems lt input by (intro Suc.IH) (simp_all add: isVirtualAddressing_def)
    finally show ?thesis
      using lt input by (simp add: Suc_diff_Suc [symmetric] write_bytes_Cons [of _ b "take _ bs"])
  qed
qed

section \<open>The calls\<close>

definition finished :: fault where
  "finished = Throw (''Successfully finished!'' @ [CHR 0x0A])"

text \<open>
  The simulator, in the state \<open>s\<close> before, has done what the environment asks for: it goes on with
  \<open>r\<close>, it has been ended, or it has run into the end of the memory.
\<close>

definition does :: "State \<Rightarrow> (u32 \<Rightarrow> State \<Rightarrow> bool) \<Rightarrow> 'a \<Rightarrow> outcome \<Rightarrow> (fault + 'a) \<times> State \<Rightarrow> bool" where
  "does s at r out res \<longleftrightarrow> (case out of
     Running (next, xs, mem) e \<Rightarrow> \<exists>s'. res = (Inr r, s') \<and> at next s' \<and> regs s' = xs \<and> pmem s' = mem \<and> io_of s' = e \<and>
       pmem_size s' = pmem_size s \<and> satp s' = satp s
   | Finished (xs, mem) e \<Rightarrow> \<exists>s'. res = (Inl finished, s') \<and> regs s' = xs \<and> pmem s' = mem \<and> io_of s' = e
   | Faulted (xs, mem) e \<Rightarrow> \<exists>s'. res = (Inl out_of_memory, s') \<and> regs s' = xs \<and> pmem s' = mem \<and> io_of s' = e)"

lemma does_simps [simp]:
  "does s at r (Running (nx, xs, mem) e) res \<longleftrightarrow> (\<exists>s'. res = (Inr r, s') \<and> at nx s' \<and> regs s' = xs \<and> pmem s' = mem \<and>
     io_of s' = e \<and> pmem_size s' = pmem_size s \<and> satp s' = satp s)"
  "does s at r (Finished (xs, mem) e) res \<longleftrightarrow>
     (\<exists>s'. res = (Inl finished, s') \<and> regs s' = xs \<and> pmem s' = mem \<and> io_of s' = e)"
  "does s at r (Faulted (xs, mem) e) res \<longleftrightarrow>
     (\<exists>s'. res = (Inl out_of_memory, s') \<and> regs s' = xs \<and> pmem s' = mem \<and> io_of s' = e)"
  by (simp_all add: does_def)

lemma does_cong: "pmem_size t = pmem_size s \<Longrightarrow> satp t = satp s \<Longrightarrow> does t = does s"
  by (intro ext) (simp only: does_def)

lemma serve_read_meets:
  assumes "\<not> isVirtualAddressing s" "unat (pmem_size s) \<le> 2 ^ 32" "length (regs s) = 32"
  shows "does s (\<lambda>a t. a = next \<and> pc t = pc s) () (serve_read (unat (pmem_size s)) next (regs s, pmem s) (io_of s)) (ExecRead s)"
proof -
  let ?buf = "regs s ! 11" and ?n = "min (unat (regs s ! 12)) (length (stdin_bytes s))" and ?ms = "unat (pmem_size s)"
  show ?thesis
  proof (cases "?n \<le> room ?ms ?buf")
    case True
    then have "ExecRead s = (Inr (), set_reg 10 (of_nat ?n)
        (s\<lparr>pmem := write_bytes (unat ?buf) (take ?n (stdin_bytes s)) (pmem s), stdin_bytes := drop ?n (stdin_bytes s)\<rparr>))"
      by (intro ExecRead_eq assms refl) (simp add: room_le)
    with True show ?thesis by (simp add: serve_read_def Let_def regs_set_reg io_of_def)
  next
    case False
    have "ExecRead s = (Inl out_of_memory,
        s\<lparr>pmem := write_bytes (unat ?buf) (take (room ?ms ?buf) (stdin_bytes s)) (pmem s),
          stdin_bytes := drop (Suc (room ?ms ?buf)) (stdin_bytes s)\<rparr>)"
      using read_loop_faults [OF assms(1,2), of 0 ?buf "unat (regs s ! 12)" "regs s ! 12"] False assms(3)
      by (auto simp: ExecRead_def bnd_Inr not_le)
    with False show ?thesis by (simp add: serve_read_def Let_def io_of_def)
  qed
qed

lemma serve_write_meets:
  assumes "\<not> isVirtualAddressing s" "unat (pmem_size s) \<le> 2 ^ 32" "length (regs s) = 32"
  shows "does s (\<lambda>a t. a = next \<and> pc t = pc s) () (serve_write (unat (pmem_size s)) next (regs s, pmem s) (io_of s)) (ExecWrite s)"
proof -
  let ?buf = "regs s ! 11" and ?n = "unat (regs s ! 12)" and ?ms = "unat (pmem_size s)"
  show ?thesis
  proof (cases "?n \<le> room ?ms ?buf")
    case True
    then have "ExecWrite s = (Inr (), set_reg 10 (regs s ! 12)
        (s\<lparr>stdout_bytes := stdout_bytes s @ read_bytes (unat ?buf) ?n (pmem s)\<rparr>))"
      by (intro ExecWrite_eq assms) (auto simp: room_le unsigned_eq_0_iff)
    with True show ?thesis by (simp add: serve_write_def Let_def regs_set_reg io_of_def)
  next
    case False
    then have "write_loop ?n 0 ?buf s = (Inl out_of_memory,
        s\<lparr>stdout_bytes := stdout_bytes s @ read_bytes (unat ?buf) (room ?ms ?buf) (pmem s)\<rparr>)"
      using write_loop_faults [OF assms(1,2), of 0 ?buf ?n] by simp
    with False show ?thesis using assms(3) by (simp add: ExecWrite_def bnd_Inr bnd_Inl serve_write_def Let_def io_of_def)
  qed
qed

lemma serve_time_meets:
  assumes "\<not> isVirtualAddressing s" "length (regs s) = 32" "host_ok h"
  shows "does s (\<lambda>a t. a = next \<and> pc t = pc s) ()
    (serve_time (timeofday h) (unat (pmem_size s)) next (regs s, pmem s) (io_of s)) (ExecGetTimeOfDay h s)"
proof -
  obtain res tv tz where t: "timeofday h (tod_calls s) = (res, tv, tz)" by (metis prod_cases3)
  then have len: "length tv < 2 ^ 63" "length tz < 2 ^ 63"
    using assms(3) by (auto simp: host_ok_def dest: spec [of _ "tod_calls s"])
  let ?t = "set_reg 10 res (s\<lparr>tod_calls := Suc (tod_calls s)\<rparr>)"
  let ?t' = "?t\<lparr>pmem := write_bytes (unat (regs s ! 10)) tv (pmem s)\<rparr>"
  have v: "\<not> isVirtualAddressing ?t" "\<not> isVirtualAddressing ?t'" using assms(1) by (simp_all add: isVirtualAddressing_def)
  have "ExecGetTimeOfDay h s = bnd (State_write (regs s ! 10) tv) (\<lambda>_. State_write (regs s ! 11) tz) ?t"
    using t assms(2) by (simp add: ExecGetTimeOfDay_def bnd_Inr gettimeofday_def)
  also have "State_write (regs s ! 10) tv ?t = (if unat (regs s ! 10) + length tv < unat (pmem_size s)
      then (Inr (), ?t') else (Inl out_of_memory, ?t))"
    using bare_store [OF v(1) len(1)] by (simp add: State_write_def)
  moreover have "State_write (regs s ! 11) tz ?t' = (if unat (regs s ! 11) + length tz < unat (pmem_size s)
      then (Inr (), ?t'\<lparr>pmem := write_bytes (unat (regs s ! 11)) tz (pmem ?t')\<rparr>) else (Inl out_of_memory, ?t'))"
    using bare_store [OF v(2) len(2)] by (simp add: State_write_def)
  ultimately show ?thesis
    using t by (auto simp: bnd_def serve_time_def Let_def regs_set_reg io_of_def)
qed

lemma ExecSysCall_meets:
  assumes "\<not> isVirtualAddressing s" "unat (pmem_size s) \<le> 2 ^ 32" "length (regs s) = 32" "host_ok h"
  shows "does s (\<lambda>a t. a = next \<and> pc t = pc s) ()
    (serve (timeofday h) (unat (pmem_size s)) next (regs s, pmem s) (io_of s)) (ExecSysCall h (regs s ! 17) s)"
  using serve_read_meets [OF assms(1-3), of "next"] serve_write_meets [OF assms(1-3), of "next"]
    serve_time_meets [OF assms(1,3,4), of "next"] assms(3)
  by (auto simp: serve_def ExecSysCall_def ExecClose_def ExecFstat_def ExecBrk_def ExecExit_def finished_def
      regs_set_reg)

section \<open>The chain of handlers\<close>

text \<open>The instructions on which the interpreter agrees with the machine and its environment.\<close>

definition user_conforming :: "Host \<Rightarrow> Inst \<Rightarrow> bool" where
  "user_conforming h i \<longleftrightarrow> wf_inst i \<and> (inst_cmd i = Cmd_ECALL \<or> conforming h i \<and> inst_cmd i \<noteq> Cmd_FENCE)"

lemma Inst_exec_meets:
  assumes "user_conforming h i" "length (regs s) = 32" "\<not> isVirtualAddressing s" "unat (pmem_size s) \<le> 2 ^ 32" "host_ok h"
  defines "stop \<equiv> terminator (inst_cmd i)"
  shows "does s (\<lambda>a t. if stop then pc t = a else pc t = pc s \<and> a = pc s + offset_of (Suc idx))
    (if stop then EndTrace else NextInst)
    (env_step (timeofday h) (unat (pmem_size s)) i (pc s + offset_of idx) (regs s, pmem s) (io_of s)) (Inst_exec h i idx s)"
proof (cases "inst_cmd i = Cmd_ECALL")
  case True
  have wf: "wf_inst i" using assms(1) by (simp add: user_conforming_def)
  have e: "Inst_exec h i idx s = bnd (ExecSysCall h (regs s ! 17)) (\<lambda>_. ret NextInst) s"
    using True assms(2) by (simp add: Inst_exec_cmd [OF wf] ExecECALL_def bnd_Inr)
  show ?thesis
    using ExecSysCall_meets [OF assms(3,4,2,5), of "pc s + offset_of (Suc idx)"] True
    by (auto simp: e stop_def terminator_def env_step_def offset_Suc add.assoc bnd_def does_def split: outcome.splits)
next
  case False
  then have c: "conforming h i" "inst_cmd i \<noteq> Cmd_FENCE" "wf_inst i" using assms(1) by (auto simp: user_conforming_def)
  have io: "io_of s' = io_of s" if "Inst_exec h i idx s = (r, s')" for r s'
    using framesD [OF Inst_exec_quiet [OF c(3,2) False] that] by (simp add: quiet_step_def io_of_def)
  show ?thesis
    using conforming_refines [OF c(1) assms(2,3), of idx] False io
    by (fastforce simp: stop_def env_step_def step_refines_def split: option.splits prod.splits)
qed

lemma serve_length: "serve clock ms nx (xs, m) e = Running (nx', xs', m') e' \<Longrightarrow> length xs' = length xs"
  by (auto simp: serve_def serve_read_def serve_write_def serve_time_def Let_def isa_write_def split: if_splits prod.splits)

lemma env_step_length: "env_step clock ms i at (xs, m) e = Running (nx, xs', m') e' \<Longrightarrow> length xs' = length xs"
  by (auto simp: env_step_def dest: serve_length isa_step_length split: if_splits option.splits)

text \<open>A trace of such instructions: the outcome of the machine, and the simulator in its place.\<close>

lemma exec_from_meets:
  assumes "trace_shape is" "\<And>i. i \<in> set is \<Longrightarrow> user_conforming h i" "length (regs s) = 32"
    "\<not> isVirtualAddressing s" "unat (pmem_size s) \<le> 2 ^ 32" "host_ok h"
  shows "does s (\<lambda>a t. pc t = a) ()
    (env_trace (timeofday h) (unat (pmem_size s)) is (pc s + offset_of idx, regs s, pmem s) (io_of s)) (exec_from h idx is s)"
  using assms
proof (induction "is" arbitrary: idx s)
  case Nil
  then show ?case by (simp add: trace_shape_def)
next
  case (Cons i "is")
  let ?stop = "terminator (inst_cmd i)" and ?at = "pc s + offset_of idx"
  have m: "does s (\<lambda>a t. if ?stop then pc t = a else pc t = pc s \<and> a = pc s + offset_of (Suc idx))
      (if ?stop then EndTrace else NextInst)
      (env_step (timeofday h) (unat (pmem_size s)) i ?at (regs s, pmem s) (io_of s)) (Inst_exec h i idx s)"
    using Cons.prems by (intro Inst_exec_meets) auto
  show ?case
  proof (cases "env_step (timeofday h) (unat (pmem_size s)) i ?at (regs s, pmem s) (io_of s)")
    case (Running st e)
    obtain nx xs mem where st: "st = (nx, xs, mem)" by (cases st)
    then have len: "length xs = 32" using env_step_length Running Cons.prems(3) by metis
    obtain t where t: "Inst_exec h i idx s = (Inr (if ?stop then EndTrace else NextInst), t)"
      "if ?stop then pc t = nx else pc t = pc s \<and> nx = pc s + offset_of (Suc idx)"
      "regs t = xs" "pmem t = mem" "io_of t = e" "pmem_size t = pmem_size s" "satp t = satp s"
      using m Running st by auto
    show ?thesis
    proof (cases ?stop)
      case True
      with Cons.prems(1) have "is = []" by (simp add: trace_shape_Cons)
      with True t Running st show ?thesis by (simp add: bnd_Inr)
    next
      case False
      with Cons.prems(1) have "trace_shape is" by (simp add: trace_shape_Cons)
      from Cons.IH [OF this, of t "Suc idx"] Cons.prems(2-6) t len False
      have "does t (\<lambda>a t. pc t = a) () (env_trace (timeofday h) (unat (pmem_size s)) is (nx, xs, mem) e)
          (exec_from h (Suc idx) is t)"
        by (simp add: isVirtualAddressing_def)
      with False t Running st show ?thesis by (simp add: bnd_Inr does_cong [OF t(6,7)])
    qed
  qed (use m in \<open>auto simp: bnd_def\<close>)
qed

section \<open>The properties\<close>

text \<open>C24: Every system call does what the environment promises, on every path. With the number of the call in
  \<^verbatim>\<open>a7\<close> and its arguments in \<^verbatim>\<open>a0\<close> to \<^verbatim>\<open>a2\<close>: \<^verbatim>\<open>read\<close> and \<^verbatim>\<open>write\<close> move the bytes that there are and that there is room for;
  \<^verbatim>\<open>gettimeofday\<close> stores what the host answers; \<^verbatim>\<open>close\<close>, \<^verbatim>\<open>fstat\<close> and \<^verbatim>\<open>brk\<close> return 0; an unknown call does
  nothing; \<^verbatim>\<open>exit\<close> ends the program; and a call that leaves the memory ends it as well, with
  the registers, the memory, standard input and output as far as it has come.\<close>

theorem system_calls_meet:
  assumes "\<not> isVirtualAddressing s" and "unat (pmem_size s) \<le> 2 ^ 32" and "length (regs s) = 32" and "host_ok h"
  shows "case serve (timeofday h) (unat (pmem_size s)) next (regs s, pmem s) (io_of s) of
      Running (at, xs, mem) e \<Rightarrow> \<exists>s'. ExecSysCall h (regs s ! 17) s = (Inr (), s') \<and> at = next \<and> pc s' = pc s \<and>
        regs s' = xs \<and> pmem s' = mem \<and> io_of s' = e
    | Finished (xs, mem) e \<Rightarrow> \<exists>s'. ExecSysCall h (regs s ! 17) s = (Inl (Throw (''Successfully finished!'' @ [CHR 0x0A])), s') \<and>
        regs s' = xs \<and> pmem s' = mem \<and> io_of s' = e
    | Faulted (xs, mem) e \<Rightarrow> \<exists>s'. ExecSysCall h (regs s ! 17) s = (Inl (Throw ''Address is out of memory''), s') \<and>
        regs s' = xs \<and> pmem s' = mem \<and> io_of s' = e"
  using ExecSysCall_meets [OF assms, of "next"]
  unfolding does_def finished_def by (auto split: outcome.splits)

text \<open>\<^verbatim>\<open>write\<close> of three bytes of which the memory has only two prints these two.\<close>

theorem system_calls_meet_witness:
  "\<exists>s'. ExecSysCall x86_host 64 (io_state\<lparr>regs := (replicate 32 0)[17 := 64, 11 := 0x7fffd, 12 := 3]\<rparr>) =
      (Inl (Throw ''Address is out of memory''), s') \<and> length (stdout_bytes s') = 2"
proof -
  let ?s = "io_state\<lparr>regs := (replicate 32 0)[17 := 64, 11 := 0x7fffd, 12 := 3]\<rparr>"
  have v: "\<not> isVirtualAddressing ?s" using io_state_ok(1) by (simp add: isVirtualAddressing_def)
  show ?thesis
    using system_calls_meet [OF v _ _ x86_host_ok(2), of 0] io_state_ok
    by (auto simp: serve_def serve_write_def room_def Let_def io_of_def read_bytes_def)
qed

end
