(* ===== verification/Jit.thy ===== *)
theory Jit
  imports Prelude Asm
begin

text \<open>
  The just-in-time translator: \<^verbatim>\<open>src/sim/jit.h\<close> and \<^verbatim>\<open>src/sim/jit.cpp\<close>, without the translation of the
  single instructions, which \<open>Translate_Inst\<close> holds.

  The record \<open>Translator\<close> holds what the class keeps while it translates a trace: the code emitted
  so far, the place of every guest register (its slot in the state or a host register), the
  queue of free host registers, the liveness of the guest registers after every instruction,
  the index of the current instruction and the number of labels made. Log output is not
  modelled.
\<close>

record Translator =
  tr_code :: "Asm list"
  reg_mapping :: "Operand list"
  reg_pool :: "Gp list"
  liveness :: "bool list list"
  cur_inst :: nat
  labels :: nat

type_synonym 'a T = "(Translator, 'a) M"

section \<open>Emitting code\<close>

definition emit :: "X86Id \<Rightarrow> Operand list \<Rightarrow> unit T" where
  "emit x ops = modify (\<lambda>t. t\<lparr>tr_code := tr_code t @ [Emit x ops]\<rparr>)"

definition newLabel :: "nat T" where
  "newLabel t = (Inr (labels t), t\<lparr>labels := Suc (labels t)\<rparr>)"

definition bind_label :: "nat \<Rightarrow> unit T" where
  "bind_label l = modify (\<lambda>t. t\<lparr>tr_code := tr_code t @ [Bind l]\<rparr>)"

text \<open>The label \<^verbatim>\<open>func_start_\<close> is the first one the constructor makes.\<close>

definition func_start :: nat where
  "func_start = 0"

definition Tmp1 :: Operand where
  "Tmp1 = Op_gp 32 Gp_eax"

definition Tmp2 :: Operand where
  "Tmp2 = Op_gp 32 Gp_edx"

text \<open>\<^verbatim>\<open>Translator::getReg\<close>: register 0 is the constant 0.\<close>

definition tr_getReg :: "Reg \<Rightarrow> Operand T" where
  "tr_getReg reg = (if reg \<noteq> 0 then (\<lambda>t. (at_index (reg_mapping t) (unat reg), t)) else ret (Op_imm 0))"

definition getRegMemOp :: "Reg \<Rightarrow> Operand" where
  "getRegMemOp reg = Op_slot reg"

definition getOffset :: "int T" where
  "getOffset = gets (\<lambda>t. int (cur_inst t) * 4)"

section \<open>Register allocation\<close>

definition set_mapping :: "Reg \<Rightarrow> Operand \<Rightarrow> unit T" where
  "set_mapping reg x t = (case set_index (reg_mapping t) (unat reg) x of
       Inl e \<Rightarrow> (Inl e, t) | Inr m \<Rightarrow> (Inr (), t\<lparr>reg_mapping := m\<rparr>))"

definition mapping_of :: "Reg \<Rightarrow> Operand T" where
  "mapping_of reg t = (at_index (reg_mapping t) (unat reg), t)"

definition allocateReg :: "Reg \<Rightarrow> bool \<Rightarrow> unit T" where
  "allocateReg reg load =
     bnd (mapping_of reg) (\<lambda>m.
       if Op_isReg m then ret ()
       else bnd (gets reg_pool) (\<lambda>pool. case pool of
           [] \<Rightarrow> ret ()
         | g # gs \<Rightarrow>
             bnd (set_mapping reg (Op_gp 32 g)) (\<lambda>_.
             bnd (modify (\<lambda>t. t\<lparr>reg_pool := gs\<rparr>)) (\<lambda>_.
               if load then emit Id_Mov [Op_gp 32 g, getRegMemOp reg] else ret ()))))"

text \<open>\<^verbatim>\<open>reg_mapping_[reg].as<x86::Gp>()\<close>\<close>

fun as_Gp :: "Operand \<Rightarrow> Gp" where
  "as_Gp (Op_gp w g) = g"
| "as_Gp _ = Gp_eax"

definition deallocateReg :: "Reg \<Rightarrow> bool \<Rightarrow> unit T" where
  "deallocateReg reg sink =
     bnd (mapping_of reg) (\<lambda>m.
       if Op_isMem m then ret ()
       else bnd (if sink then emit Id_Mov [getRegMemOp reg, m] else ret ()) (\<lambda>_.
            bnd (modify (\<lambda>t. t\<lparr>reg_pool := reg_pool t @ [as_Gp m]\<rparr>)) (\<lambda>_.
              set_mapping reg (getRegMemOp reg))))"

fun each :: "('i \<Rightarrow> unit T) \<Rightarrow> 'i list \<Rightarrow> unit T" where
  "each f [] = ret ()"
| "each f (x # xs) = bnd (f x) (\<lambda>_. each f xs)"

text \<open>The registers 1 to 31, in the order of the loops over them.\<close>

definition guest_regs :: "Reg list" where
  "guest_regs = map of_nat [1..<32]"

definition deallocateAllRegs :: "unit T" where
  "deallocateAllRegs = each (\<lambda>r. deallocateReg r True) guest_regs"

definition saveAllRegs :: "unit T" where
  "saveAllRegs = each (\<lambda>r. bnd (mapping_of r) (\<lambda>m.
     if Op_isReg m then emit Id_Push [m] else ret ())) guest_regs"

definition restoreAllRegs :: "unit T" where
  "restoreAllRegs = each (\<lambda>r. bnd (mapping_of r) (\<lambda>m.
     if Op_isReg m then emit Id_Pop [m] else ret ())) (rev guest_regs)"

section \<open>Liveness\<close>

definition set_live :: "fault + bool \<Rightarrow> fault + Reg \<Rightarrow> bool \<Rightarrow> bool list \<Rightarrow> fault + bool list" where
  "set_live has reg b cur =
     rbind has (\<lambda>h. if h then rbind reg (\<lambda>r. set_index cur (unat r) b) else Inr cur)"

definition live_before :: "Inst \<Rightarrow> bool list \<Rightarrow> fault + bool list" where
  "live_before i cur =
     rbind (set_live (isRd i) (getRd i) False cur) (\<lambda>cur.
     rbind (set_live (isRs1 i) (getRs1 i) True cur) (\<lambda>cur.
       set_live (isRs2 i) (getRs2 i) True cur))"

text \<open>
  The loop from the last instruction to the first: the liveness vectors of the instructions
  and the set of registers live before all of them.
\<close>

fun liveness_loop :: "Inst list \<Rightarrow> fault + bool list list \<times> bool list" where
  "liveness_loop [] = Inr ([], replicate 32 False)"
| "liveness_loop (i # is) =
     rbind (liveness_loop is) (\<lambda>(live, cur_info).
     rbind (live_before i cur_info) (\<lambda>cur. Inr (cur_info # live, cur)))"

definition calcLiveness :: "Inst list \<Rightarrow> fault + bool list list" where
  "calcLiveness trace = rbind (liveness_loop trace) (\<lambda>(live, cur). Inr live)"

definition is_live :: "Reg \<Rightarrow> bool T" where
  "is_live r t =
     (rbind (at_index (liveness t) (cur_inst t)) (\<lambda>row. at_index row (unat r)), t)"

section \<open>Translating a trace\<close>

definition alloc_if_live :: "fault + bool \<Rightarrow> fault + Reg \<Rightarrow> bool \<Rightarrow> unit T" where
  "alloc_if_live has reg load =
     bnd (lift has) (\<lambda>h. if \<not> h then ret () else
     bnd (lift reg) (\<lambda>r. if r = 0 then ret () else
     bnd (is_live r) (\<lambda>live. if live then allocateReg r load else ret ())))"

definition dealloc_if_dead :: "fault + bool \<Rightarrow> fault + Reg \<Rightarrow> unit T" where
  "dealloc_if_dead has reg =
     bnd (lift has) (\<lambda>h. if \<not> h then ret () else
     bnd (lift reg) (\<lambda>r. if r = 0 then ret () else
     bnd (is_live r) (\<lambda>live. if \<not> live then deallocateReg r True else ret ())))"

text \<open>The translation of one instruction is a parameter here: \<open>Translate_Inst\<close> provides it.\<close>

definition translate_one :: "(Inst \<Rightarrow> unit T) \<Rightarrow> Inst \<Rightarrow> unit T" where
  "translate_one tr i =
     bnd (alloc_if_live (isRs1 i) (getRs1 i) True) (\<lambda>_.
     bnd (alloc_if_live (isRs2 i) (getRs2 i) True) (\<lambda>_.
     bnd (alloc_if_live (isRd i) (getRd i) False) (\<lambda>_.
     bnd (tr i) (\<lambda>_.
     bnd (dealloc_if_dead (isRs1 i) (getRs1 i)) (\<lambda>_.
     bnd (dealloc_if_dead (isRs2 i) (getRs2 i)) (\<lambda>_.
       dealloc_if_dead (isRd i) (getRd i)))))))"

definition translate_loop :: "(Inst \<Rightarrow> unit T) \<Rightarrow> Inst list \<Rightarrow> unit T" where
  "translate_loop tr is =
     each (\<lambda>i. bnd (translate_one tr i) (\<lambda>_. modify (\<lambda>t. t\<lparr>cur_inst := Suc (cur_inst t)\<rparr>))) is"

definition pool_regs :: "Gp list" where
  "pool_regs = [Gp_esi, Gp_ecx, Gp_r8d, Gp_r9d, Gp_r10d, Gp_r11d]"

definition init_translator :: "bool list list \<Rightarrow> Translator" where
  "init_translator live = \<lparr>tr_code = [], reg_mapping = Op_none # map getRegMemOp guest_regs, reg_pool = pool_regs,
     liveness = live, cur_inst = 0, labels = 0\<rparr>"

definition translate_trace :: "(Inst \<Rightarrow> unit T) \<Rightarrow> Inst list \<Rightarrow> unit T" where
  "translate_trace tr trace =
     bnd newLabel (\<lambda>l.
     bnd (bind_label l) (\<lambda>_.
     bnd (emit Id_Add [Op_insts, Op_imm (int (length trace))]) (\<lambda>_.
     bnd (translate_loop tr trace) (\<lambda>_.
       emit Id_Ret []))))"

fun all_supported :: "Inst list \<Rightarrow> fault + bool" where
  "all_supported [] = Inr True"
| "all_supported (i # is) =
     rbind (isTranslationSupported i) (\<lambda>b. if \<not> b then Inr False else all_supported is)"

text \<open>
  The constructor followed by \<^verbatim>\<open>getFunc\<close>: the emitted code, or \<open>None\<close> for the null pointer, if an
  instruction has no translation or the assembler does not accept the code.
\<close>

definition Translator_getFunc ::
  "(Inst \<Rightarrow> unit T) \<Rightarrow> (Asm list \<Rightarrow> bool) \<Rightarrow> Inst list \<Rightarrow> fault + Asm list option"
where
  "Translator_getFunc tr assembles trace =
     rbind (all_supported trace) (\<lambda>ok.
       if \<not> ok then Inr None
       else rbind (calcLiveness trace) (\<lambda>live.
            case translate_trace tr trace (init_translator live) of
              (Inl e, t) \<Rightarrow> Inl e
            | (Inr u, t) \<Rightarrow> Inr (if assembles (tr_code t) then Some (tr_code t) else None)))"

end
