(* ===== verification/Translate_Inst.thy ===== *)
theory Translate_Inst
  imports Jit
begin

text \<open>
  The translation of single instructions: \<^verbatim>\<open>src/sim/translate_inst.cpp\<close>.

  Every function emits code through the translator. \<open>virt\<close> is \<^verbatim>\<open>MMU::isVirtualAddressing()\<close> at the time
  of the translation. The operand \<^verbatim>\<open>MEM\<close> is \<open>Op_mem\<close>, \<^verbatim>\<open>PC\<close> is \<open>Op_pc\<close>, \<^verbatim>\<open>TMP1\<close> is \<^verbatim>\<open>eax\<close> and \<^verbatim>\<open>TMP2\<close> is \<^verbatim>\<open>edx\<close>.
\<close>

section \<open>Operands\<close>

definition RS1 :: "Inst \<Rightarrow> Operand T" where
  "RS1 i = bnd (lift (getRs1 i)) tr_getReg"

definition RS2 :: "Inst \<Rightarrow> Operand T" where
  "RS2 i = bnd (lift (getRs2 i)) tr_getReg"

definition RD :: "Inst \<Rightarrow> Operand T" where
  "RD i = bnd (lift (getRd i)) tr_getReg"

text \<open>\<^verbatim>\<open>IMM\<close> and \<^verbatim>\<open>UIMM\<close> as the 64-bit values that \<^verbatim>\<open>asmjit::Imm\<close> stores.\<close>

definition IMM :: "Inst \<Rightarrow> int T" where
  "IMM i = bnd (lift (getImm i)) (\<lambda>m. ret (sint m))"

definition UIMM :: "Inst \<Rightarrow> int T" where
  "UIMM i = bnd (lift (getImm i)) (\<lambda>m. ret (uint m))"

definition mem_at :: "nat \<Rightarrow> int \<Rightarrow> Operand" where
  "mem_at width disp = Op_ptr width Gp_eax disp"

section \<open>Helper functions\<close>

definition TranslateMove :: "Operand \<Rightarrow> Operand \<Rightarrow> unit T" where
  "TranslateMove dst src =
     (if Op_isReg dst \<and> src = Op_imm 0 then emit Id_Xor [dst, dst] else emit Id_Mov [dst, src])"

definition TranslateMMULoad :: "nat \<Rightarrow> bool \<Rightarrow> Inst \<Rightarrow> unit T" where
  "TranslateMMULoad sz signd i =
     bnd saveAllRegs (\<lambda>_.
     bnd (RS1 i) (\<lambda>a. bnd (emit Id_Mov [Op_gp 32 Gp_edi, a]) (\<lambda>_.
     bnd (IMM i) (\<lambda>m. bnd (emit Id_Add [Op_gp 32 Gp_edi, Op_imm m]) (\<lambda>_.
     bnd (emit Id_Call [Op_read sz signd]) (\<lambda>_.
       restoreAllRegs))))))"

definition TranslateMMUStore :: "nat \<Rightarrow> Inst \<Rightarrow> unit T" where
  "TranslateMMUStore sz i =
     bnd saveAllRegs (\<lambda>_.
     bnd (RS1 i) (\<lambda>a. bnd (emit Id_Mov [Op_gp 32 Gp_edi, a]) (\<lambda>_.
     bnd (IMM i) (\<lambda>m. bnd (emit Id_Add [Op_gp 32 Gp_edi, Op_imm m]) (\<lambda>_.
     bnd (RS2 i) (\<lambda>b. bnd (emit Id_Mov [Op_gp 32 Gp_esi, b]) (\<lambda>_.
     bnd (emit Id_Call [Op_write sz]) (\<lambda>_.
       restoreAllRegs))))))))"

text \<open>\<^verbatim>\<open>FST\<close>: the first operand of a comparison, moved to \<^verbatim>\<open>TMP1\<close> unless it is in a host register.\<close>

definition fst_operand :: "Inst \<Rightarrow> Operand T" where
  "fst_operand i =
     bnd (RS1 i) (\<lambda>a. if Op_isMem a \<or> Op_isImm a then bnd (TranslateMove Tmp1 a) (\<lambda>_. ret Tmp1) else ret a)"

definition TranslateCondBranch :: "Inst \<Rightarrow> X86Id \<Rightarrow> unit T" where
  "TranslateCondBranch i cmp_inst =
     bnd (fst_operand i) (\<lambda>a. bnd (RS2 i) (\<lambda>b.
     bnd (emit Id_Cmp [a, b]) (\<lambda>_.
     bnd getOffset (\<lambda>off. bnd (IMM i) (\<lambda>m.
     let taken_offset = off + m * 2 in
     if taken_offset \<noteq> 0 then
       bnd newLabel (\<lambda>taken. bnd newLabel (\<lambda>exit.
       bnd (emit cmp_inst [Op_label taken]) (\<lambda>_.
       bnd (emit Id_Add [Op_pc, Op_imm (off + 4)]) (\<lambda>_.
       bnd (emit Id_Jmp [Op_label exit]) (\<lambda>_.
       bnd (bind_label taken) (\<lambda>_.
       bnd (emit Id_Add [Op_pc, Op_imm taken_offset]) (\<lambda>_.
         bind_label exit)))))))
     else
       bnd deallocateAllRegs (\<lambda>_.
       bnd (emit cmp_inst [Op_label func_start]) (\<lambda>_.
         emit Id_Add [Op_pc, Op_imm (off + 4)])))))))"

text \<open>\<^verbatim>\<open>EMIT_MOV(RD, x)\<close>, through \<^verbatim>\<open>TMP1\<close> if neither side is a host register.\<close>

definition move_via_tmp :: "Operand \<Rightarrow> Operand \<Rightarrow> unit T" where
  "move_via_tmp d a =
     (if Op_isReg d \<or> Op_isReg a then TranslateMove d a
      else bnd (TranslateMove Tmp1 a) (\<lambda>_. TranslateMove d Tmp1))"

definition TranslateImmType :: "Inst \<Rightarrow> X86Id \<Rightarrow> unit T" where
  "TranslateImmType i opcode_inst =
     bnd (lift (getRd i)) (\<lambda>rd. if rd = 0 then ret () else
     bnd (RD i) (\<lambda>d. bnd (RS1 i) (\<lambda>a.
     bnd (if d \<noteq> a then move_via_tmp d a else ret ()) (\<lambda>_.
     bnd (IMM i) (\<lambda>m. emit opcode_inst [d, Op_imm m])))))"

definition TranslateRegType :: "Inst \<Rightarrow> X86Id \<Rightarrow> unit T" where
  "TranslateRegType i opcode_inst =
     bnd (lift (getRd i)) (\<lambda>rd. if rd = 0 then ret () else
     bnd (RD i) (\<lambda>d. bnd (RS1 i) (\<lambda>a. bnd (RS2 i) (\<lambda>b.
       if d = a then
         if Op_isReg d \<or> Op_isReg b then emit opcode_inst [d, b]
         else bnd (TranslateMove Tmp1 b) (\<lambda>_. emit opcode_inst [d, Tmp1])
       else if d \<noteq> b \<and> (Op_isReg d \<or> \<not> Op_isMem a) then
         bnd (TranslateMove d a) (\<lambda>_. emit opcode_inst [d, b])
       else
         bnd (TranslateMove Tmp1 a) (\<lambda>_.
         bnd (emit opcode_inst [Tmp1, b]) (\<lambda>_. TranslateMove d Tmp1))))))"

definition TranslateShift :: "Inst \<Rightarrow> X86Id \<Rightarrow> unit T" where
  "TranslateShift i shift_inst =
     bnd (lift (getRd i)) (\<lambda>rd. if rd = 0 then ret () else
     bnd (RD i) (\<lambda>d. bnd (RS1 i) (\<lambda>a.
     let dst = (if Op_isMem d then Tmp1 else d) in
     bnd (if dst \<noteq> a then TranslateMove dst a else ret ()) (\<lambda>_.
     bnd (if Op_isMem d then TranslateMove d Tmp1 else ret ()) (\<lambda>_.
     bnd (lift (getRs2 i)) (\<lambda>rs2. if rs2 = 0 then ret () else
     bnd (TranslateMove Tmp1 (Op_gp 32 Gp_ecx)) (\<lambda>_.
     bnd (RS2 i) (\<lambda>b. bnd (TranslateMove (Op_gp 32 Gp_ecx) b) (\<lambda>_.
     bnd (emit shift_inst [d, Op_gp 8 Gp_ecx]) (\<lambda>_.
       TranslateMove (Op_gp 32 Gp_ecx) Tmp1))))))))))"

section \<open>Loads and stores\<close>

text \<open>
  Without address translation: \<^verbatim>\<open>TMP1\<close> gets the host address of the operand, then the value goes
  to \<^verbatim>\<open>RD\<close> directly or through \<^verbatim>\<open>TMP2\<close>. \<open>put\<close> is the move that the instruction uses.
\<close>

definition host_address :: "Inst \<Rightarrow> unit T" where
  "host_address i =
     bnd (RS1 i) (\<lambda>a. bnd (TranslateMove Tmp1 a) (\<lambda>_. emit Id_Add [Op_gp 64 Gp_eax, Op_mem]))"

definition load_direct :: "nat \<Rightarrow> (Operand \<Rightarrow> Operand \<Rightarrow> unit T) \<Rightarrow> Inst \<Rightarrow> unit T" where
  "load_direct width put i =
     bnd (host_address i) (\<lambda>_. bnd (RD i) (\<lambda>d. bnd (IMM i) (\<lambda>m.
       if Op_isReg d then put d (mem_at width m)
       else bnd (put Tmp2 (mem_at width m)) (\<lambda>_. TranslateMove d Tmp2))))"

text \<open>\<^verbatim>\<open>r8()\<close>, \<^verbatim>\<open>r16()\<close>: a host register at another width.\<close>

fun narrow :: "nat \<Rightarrow> Operand \<Rightarrow> Operand" where
  "narrow w (Op_gp v g) = Op_gp w g"
| "narrow w x = x"

definition store_direct :: "nat \<Rightarrow> Inst \<Rightarrow> unit T" where
  "store_direct width i =
     bnd (host_address i) (\<lambda>_. bnd (RS2 i) (\<lambda>b. bnd (IMM i) (\<lambda>m.
       if Op_isReg b then TranslateMove (mem_at width m) (narrow width b)
       else bnd (TranslateMove Tmp2 b) (\<lambda>_. TranslateMove (mem_at width m) (narrow width Tmp2)))))"

definition movsx :: "Operand \<Rightarrow> Operand \<Rightarrow> unit T" where
  "movsx d a = emit Id_Movsx [d, a]"

definition movzx :: "Operand \<Rightarrow> Operand \<Rightarrow> unit T" where
  "movzx d a = emit Id_Movzx [d, a]"

definition TranslateLB :: "bool \<Rightarrow> Inst \<Rightarrow> unit T" where
  "TranslateLB virt i =
     (if virt then bnd (TranslateMMULoad 1 True i) (\<lambda>_. bnd (RD i) (\<lambda>d. movsx d (Op_gp 8 Gp_eax)))
      else load_direct 8 movsx i)"

definition TranslateLH :: "bool \<Rightarrow> Inst \<Rightarrow> unit T" where
  "TranslateLH virt i =
     (if virt then bnd (TranslateMMULoad 2 True i) (\<lambda>_. bnd (RD i) (\<lambda>d. movsx d (Op_gp 16 Gp_eax)))
      else load_direct 16 movsx i)"

definition TranslateLW :: "bool \<Rightarrow> Inst \<Rightarrow> unit T" where
  "TranslateLW virt i =
     (if virt then bnd (TranslateMMULoad 4 True i) (\<lambda>_. bnd (RD i) (\<lambda>d. TranslateMove d (Op_gp 32 Gp_eax)))
      else load_direct 32 TranslateMove i)"

definition TranslateLBU :: "bool \<Rightarrow> Inst \<Rightarrow> unit T" where
  "TranslateLBU virt i =
     (if virt then bnd (TranslateMMULoad 1 False i) (\<lambda>_. bnd (RD i) (\<lambda>d. TranslateMove d (Op_gp 8 Gp_eax)))
      else load_direct 8 movzx i)"

definition TranslateLHU :: "bool \<Rightarrow> Inst \<Rightarrow> unit T" where
  "TranslateLHU virt i =
     (if virt then bnd (TranslateMMULoad 2 False i) (\<lambda>_. bnd (RD i) (\<lambda>d. TranslateMove d (Op_gp 16 Gp_eax)))
      else load_direct 16 movzx i)"

definition TranslateLWU :: "bool \<Rightarrow> Inst \<Rightarrow> unit T" where
  "TranslateLWU virt i =
     (if virt then bnd (TranslateMMULoad 4 False i) (\<lambda>_. bnd (RD i) (\<lambda>d. TranslateMove d (Op_gp 32 Gp_eax)))
      else load_direct 32 TranslateMove i)"

definition TranslateSB :: "bool \<Rightarrow> Inst \<Rightarrow> unit T" where
  "TranslateSB virt i = (if virt then TranslateMMUStore 1 i else store_direct 8 i)"

definition TranslateSH :: "bool \<Rightarrow> Inst \<Rightarrow> unit T" where
  "TranslateSH virt i = (if virt then TranslateMMUStore 2 i else store_direct 16 i)"

definition TranslateSW :: "bool \<Rightarrow> Inst \<Rightarrow> unit T" where
  "TranslateSW virt i = (if virt then TranslateMMUStore 4 i else store_direct 32 i)"

section \<open>Upper immediates and jumps\<close>

definition TranslateLUI :: "Inst \<Rightarrow> unit T" where
  "TranslateLUI i = bnd (RD i) (\<lambda>d. bnd (UIMM i) (\<lambda>m. TranslateMove d (Op_imm m)))"

definition TranslateAUIPC :: "Inst \<Rightarrow> unit T" where
  "TranslateAUIPC i =
     bnd (TranslateMove Tmp1 Op_pc) (\<lambda>_.
     bnd getOffset (\<lambda>off. bnd (UIMM i) (\<lambda>m.
     bnd (emit Id_Add [Tmp1, Op_imm (off + m)]) (\<lambda>_.
     bnd (RD i) (\<lambda>d. TranslateMove d Tmp1)))))"

definition TranslateJAL :: "Inst \<Rightarrow> unit T" where
  "TranslateJAL i =
     bnd (lift (getRd i)) (\<lambda>rd. bnd getOffset (\<lambda>off. bnd (IMM i) (\<lambda>m.
       if rd \<noteq> 0 then
         bnd (TranslateMove Tmp1 Op_pc) (\<lambda>_.
         bnd (RD i) (\<lambda>d. bnd (TranslateMove d Tmp1) (\<lambda>_.
         bnd (emit Id_Add [d, Op_imm (off + 4)]) (\<lambda>_.
           emit Id_Add [Op_pc, Op_imm (off + m * 2)]))))
       else emit Id_Add [Op_pc, Op_imm (off + m * 2)])))"

definition TranslateJALR :: "Inst \<Rightarrow> unit T" where
  "TranslateJALR i =
     bnd getOffset (\<lambda>off.
     bnd (emit Id_Add [Op_pc, Op_imm (off + 4)]) (\<lambda>_.
     bnd (TranslateMove Tmp1 Op_pc) (\<lambda>_.
     bnd (RD i) (\<lambda>d. bnd (TranslateMove d Tmp1) (\<lambda>_.
     bnd (RS1 i) (\<lambda>a. bnd (TranslateMove Tmp1 a) (\<lambda>_.
     bnd (IMM i) (\<lambda>m. bnd (emit Id_Add [Tmp1, Op_imm m]) (\<lambda>_.
     bnd (emit Id_And [Tmp1, Op_imm 0xfffffffe]) (\<lambda>_.
       TranslateMove Op_pc Tmp1))))))))))"

definition TranslateBEQ :: "Inst \<Rightarrow> unit T" where
  "TranslateBEQ i = TranslateCondBranch i Id_Je"

definition TranslateBNE :: "Inst \<Rightarrow> unit T" where
  "TranslateBNE i = TranslateCondBranch i Id_Jne"

definition TranslateBLT :: "Inst \<Rightarrow> unit T" where
  "TranslateBLT i = TranslateCondBranch i Id_Jl"

definition TranslateBGE :: "Inst \<Rightarrow> unit T" where
  "TranslateBGE i = TranslateCondBranch i Id_Jge"

definition TranslateBLTU :: "Inst \<Rightarrow> unit T" where
  "TranslateBLTU i = TranslateCondBranch i Id_Jb"

definition TranslateBGEU :: "Inst \<Rightarrow> unit T" where
  "TranslateBGEU i = TranslateCondBranch i Id_Jae"

section \<open>Arithmetic with an immediate\<close>

definition TranslateADDI :: "Inst \<Rightarrow> unit T" where
  "TranslateADDI i =
     bnd (lift (getRs1 i)) (\<lambda>rs1. bnd (IMM i) (\<lambda>m.
       if rs1 = 0 then bnd (RD i) (\<lambda>d. TranslateMove d (Op_imm m))
       else if m = 0 then bnd (RD i) (\<lambda>d. bnd (RS1 i) (\<lambda>a. move_via_tmp d a))
       else TranslateImmType i Id_Add))"

definition TranslateSLTI :: "Inst \<Rightarrow> unit T" where
  "TranslateSLTI i =
     bnd (RS1 i) (\<lambda>a. bnd (IMM i) (\<lambda>m. bnd (emit Id_Cmp [a, Op_imm m]) (\<lambda>_.
     bnd (RD i) (\<lambda>d. bnd (emit Id_Mov [d, Op_imm 0]) (\<lambda>_. emit Id_Setl [d])))))"

definition TranslateSLTIU :: "Inst \<Rightarrow> unit T" where
  "TranslateSLTIU i =
     bnd (RS1 i) (\<lambda>a. bnd (UIMM i) (\<lambda>m. bnd (emit Id_Cmp [a, Op_imm m]) (\<lambda>_.
     bnd (RD i) (\<lambda>d. bnd (emit Id_Mov [d, Op_imm 0]) (\<lambda>_. emit Id_Setb [d])))))"

definition TranslateXORI :: "Inst \<Rightarrow> unit T" where
  "TranslateXORI i = TranslateImmType i Id_Xor"

definition TranslateORI :: "Inst \<Rightarrow> unit T" where
  "TranslateORI i = TranslateImmType i Id_Or"

definition TranslateANDI :: "Inst \<Rightarrow> unit T" where
  "TranslateANDI i = TranslateImmType i Id_And"

definition TranslateSLLI :: "Inst \<Rightarrow> unit T" where
  "TranslateSLLI i = TranslateImmType i Id_Shl"

definition TranslateSRLI :: "Inst \<Rightarrow> unit T" where
  "TranslateSRLI i = TranslateImmType i Id_Shr"

definition TranslateSRAI :: "Inst \<Rightarrow> unit T" where
  "TranslateSRAI i = TranslateImmType i Id_Sar"

section \<open>Arithmetic on registers\<close>

definition TranslateADD :: "Inst \<Rightarrow> unit T" where
  "TranslateADD i =
     bnd (lift (getRs1 i)) (\<lambda>rs1. bnd (lift (getRs2 i)) (\<lambda>rs2.
     bnd (if rs1 = 0 \<or> rs2 = 0
          then bnd (if rs1 \<noteq> 0 then RS1 i else RS2 i) (\<lambda>src. bnd (RD i) (\<lambda>d. move_via_tmp d src))
          else ret ()) (\<lambda>_.
       TranslateRegType i Id_Add)))"

definition TranslateSUB :: "Inst \<Rightarrow> unit T" where
  "TranslateSUB i = TranslateRegType i Id_Sub"

definition TranslateSLL :: "Inst \<Rightarrow> unit T" where
  "TranslateSLL i = TranslateShift i Id_Shl"

definition TranslateSLT :: "Inst \<Rightarrow> unit T" where
  "TranslateSLT i =
     bnd (fst_operand i) (\<lambda>a. bnd (RS2 i) (\<lambda>b. bnd (emit Id_Cmp [a, b]) (\<lambda>_.
     bnd (RD i) (\<lambda>d. bnd (emit Id_Mov [d, Op_imm 0]) (\<lambda>_. emit Id_Setl [d])))))"

definition TranslateSLTU :: "Inst \<Rightarrow> unit T" where
  "TranslateSLTU i =
     bnd (fst_operand i) (\<lambda>a. bnd (RS2 i) (\<lambda>b. bnd (emit Id_Cmp [a, b]) (\<lambda>_.
     bnd (RD i) (\<lambda>d. bnd (emit Id_Mov [d, Op_imm 0]) (\<lambda>_. emit Id_Setb [d])))))"

definition TranslateXOR :: "Inst \<Rightarrow> unit T" where
  "TranslateXOR i = TranslateRegType i Id_Xor"

definition TranslateSRL :: "Inst \<Rightarrow> unit T" where
  "TranslateSRL i = TranslateShift i Id_Shr"

definition TranslateSRA :: "Inst \<Rightarrow> unit T" where
  "TranslateSRA i = TranslateShift i Id_Sar"

definition TranslateOR :: "Inst \<Rightarrow> unit T" where
  "TranslateOR i = TranslateRegType i Id_Or"

definition TranslateAND :: "Inst \<Rightarrow> unit T" where
  "TranslateAND i = TranslateRegType i Id_And"

definition TranslateMUL :: "Inst \<Rightarrow> unit T" where
  "TranslateMUL i =
     bnd (RS1 i) (\<lambda>a. bnd (TranslateMove Tmp1 a) (\<lambda>_.
     bnd (RS2 i) (\<lambda>b. bnd (emit Id_Mul [b]) (\<lambda>_.
     bnd (RD i) (\<lambda>d. TranslateMove d Tmp1)))))"

definition TranslateMULH :: "Inst \<Rightarrow> unit T" where
  "TranslateMULH i =
     bnd (RS1 i) (\<lambda>a. bnd (TranslateMove Tmp1 a) (\<lambda>_.
     bnd (RS2 i) (\<lambda>b. bnd (emit Id_Mul [b]) (\<lambda>_.
     bnd (RD i) (\<lambda>d. TranslateMove d Tmp2)))))"

section \<open>Calling a translation\<close>

primrec call_translate :: "TranslateFunc \<Rightarrow> bool \<Rightarrow> Inst \<Rightarrow> unit T" where
  "call_translate Addr_TranslateLUI virt = TranslateLUI"
| "call_translate Addr_TranslateAUIPC virt = TranslateAUIPC"
| "call_translate Addr_TranslateJAL virt = TranslateJAL"
| "call_translate Addr_TranslateJALR virt = TranslateJALR"
| "call_translate Addr_TranslateBEQ virt = TranslateBEQ"
| "call_translate Addr_TranslateBNE virt = TranslateBNE"
| "call_translate Addr_TranslateBLT virt = TranslateBLT"
| "call_translate Addr_TranslateBGE virt = TranslateBGE"
| "call_translate Addr_TranslateBLTU virt = TranslateBLTU"
| "call_translate Addr_TranslateBGEU virt = TranslateBGEU"
| "call_translate Addr_TranslateLB virt = TranslateLB virt"
| "call_translate Addr_TranslateLH virt = TranslateLH virt"
| "call_translate Addr_TranslateLW virt = TranslateLW virt"
| "call_translate Addr_TranslateLBU virt = TranslateLBU virt"
| "call_translate Addr_TranslateLHU virt = TranslateLHU virt"
| "call_translate Addr_TranslateSB virt = TranslateSB virt"
| "call_translate Addr_TranslateSH virt = TranslateSH virt"
| "call_translate Addr_TranslateSW virt = TranslateSW virt"
| "call_translate Addr_TranslateADDI virt = TranslateADDI"
| "call_translate Addr_TranslateSLTI virt = TranslateSLTI"
| "call_translate Addr_TranslateSLTIU virt = TranslateSLTIU"
| "call_translate Addr_TranslateXORI virt = TranslateXORI"
| "call_translate Addr_TranslateORI virt = TranslateORI"
| "call_translate Addr_TranslateANDI virt = TranslateANDI"
| "call_translate Addr_TranslateSLLI virt = TranslateSLLI"
| "call_translate Addr_TranslateSRLI virt = TranslateSRLI"
| "call_translate Addr_TranslateSRAI virt = TranslateSRAI"
| "call_translate Addr_TranslateADD virt = TranslateADD"
| "call_translate Addr_TranslateSUB virt = TranslateSUB"
| "call_translate Addr_TranslateSLL virt = TranslateSLL"
| "call_translate Addr_TranslateSLT virt = TranslateSLT"
| "call_translate Addr_TranslateSLTU virt = TranslateSLTU"
| "call_translate Addr_TranslateXOR virt = TranslateXOR"
| "call_translate Addr_TranslateSRL virt = TranslateSRL"
| "call_translate Addr_TranslateSRA virt = TranslateSRA"
| "call_translate Addr_TranslateOR virt = TranslateOR"
| "call_translate Addr_TranslateAND virt = TranslateAND"
| "call_translate Addr_TranslateMUL virt = TranslateMUL"
| "call_translate Addr_TranslateMULH virt = TranslateMULH"

text \<open>\<^verbatim>\<open>Inst::translate\<close>: a call through a null pointer for a command without translation.\<close>

definition Inst_translate :: "bool \<Rightarrow> Inst \<Rightarrow> unit T" where
  "Inst_translate virt i =
     bnd (lift (getCmdDesc (inst_cmd i))) (\<lambda>d. case cd_translate_func d of
         None \<Rightarrow> raise (Undefined NullCall)
       | Some f \<Rightarrow> call_translate f virt i)"

end
