(* ===== verification/Jit_Correct.thy ===== *)
theory Jit_Correct
  imports Translate_Inst "HOL-Library.Multiset"
begin

text \<open>
  The translator is correct in what it keeps of the guest registers (\<^verbatim>\<open>src/sim/jit.cpp\<close>):
  the liveness analysis computes liveness, the register allocator never gives a host register
  to two guest registers and loses none, no assertion fails and no table is read out of range
  during the translation, and at the end every guest register is back in its slot of the state.
\<close>

section \<open>Functions that return\<close>

text \<open>From a state with \<open>P\<close> the function returns, without a fault, to a state with \<open>Q\<close>.\<close>

definition returns :: "('s \<Rightarrow> bool) \<Rightarrow> ('s, 'a) M \<Rightarrow> ('s \<Rightarrow> bool) \<Rightarrow> bool" where
  "returns P m Q \<longleftrightarrow> (\<forall>s. P s \<longrightarrow> (\<exists>a s'. m s = (Inr a, s') \<and> Q s'))"

named_theorems keeping \<open>functions of the translator that keep the allocation well-formed\<close>

lemma returnsD: "returns P m Q \<Longrightarrow> P s \<Longrightarrow> \<exists>a s'. m s = (Inr a, s') \<and> Q s'"
  by (simp add: returns_def)

lemma returns_bnd: "returns P m R \<Longrightarrow> (\<And>a. returns R (f a) Q) \<Longrightarrow> returns P (bnd m f) Q"
  by (fastforce simp: returns_def bnd_Inr)

lemma keeps_bnd [keeping]: "returns P m P \<Longrightarrow> (\<And>a. returns P (f a) P) \<Longrightarrow> returns P (bnd m f) P"
  by (rule returns_bnd)

lemma returns_ret [keeping]: "returns P (ret a) P"
  by (simp add: returns_def)

lemma returns_gets [keeping]: "returns P (gets f) P"
  by (simp add: returns_def)

lemma returns_if [keeping]:
  "(b \<Longrightarrow> returns P m Q) \<Longrightarrow> (\<not> b \<Longrightarrow> returns P n Q) \<Longrightarrow> returns P (if b then m else n) Q"
  by simp

lemma returns_lift: "r = Inr a \<Longrightarrow> returns P (lift r) P"
  by (simp add: returns_def)

lemma returns_weaken:
  "returns P m Q \<Longrightarrow> (\<And>s. P' s \<Longrightarrow> P s) \<Longrightarrow> (\<And>s. Q s \<Longrightarrow> Q' s) \<Longrightarrow> returns P' m Q'"
  by (fastforce simp: returns_def)

section \<open>The allocation\<close>

text \<open>
  Register 0 has no place. Every other register is in its slot or in a host register of the pool.
  The host registers in use are not free and not shared, and none is lost.
\<close>

definition alloc_ok :: "Translator \<Rightarrow> bool" where
  "alloc_ok t \<longleftrightarrow> length (reg_mapping t) = 32 \<and> reg_mapping t ! 0 = Op_none \<and>
     distinct (reg_pool t) \<and> set (reg_pool t) \<subseteq> set pool_regs \<and>
     (\<forall>r. 0 < r \<and> r < 32 \<longrightarrow> reg_mapping t ! r = Op_slot (of_nat r) \<or>
        (\<exists>g \<in> set pool_regs. reg_mapping t ! r = Op_gp 32 g \<and> g \<notin> set (reg_pool t))) \<and>
     (\<forall>r q g. r < 32 \<and> q < 32 \<and> reg_mapping t ! r = Op_gp 32 g \<and> reg_mapping t ! q = Op_gp 32 g \<longrightarrow> r = q) \<and>
     (\<forall>g \<in> set pool_regs. g \<in> set (reg_pool t) \<or> (\<exists>r < 32. reg_mapping t ! r = Op_gp 32 g))"

lemma alloc_okI:
  assumes "length (reg_mapping t) = 32" "reg_mapping t ! 0 = Op_none" "distinct (reg_pool t)"
    "set (reg_pool t) \<subseteq> set pool_regs"
    and "\<And>r. 0 < r \<Longrightarrow> r < 32 \<Longrightarrow> reg_mapping t ! r = Op_slot (of_nat r) \<or>
        (\<exists>g \<in> set pool_regs. reg_mapping t ! r = Op_gp 32 g \<and> g \<notin> set (reg_pool t))"
    and "\<And>r q g. reg_mapping t ! r = Op_gp 32 g \<Longrightarrow> reg_mapping t ! q = Op_gp 32 g \<Longrightarrow> r < 32 \<Longrightarrow> q < 32 \<Longrightarrow> r = q"
    and "\<And>g. g \<in> set pool_regs \<Longrightarrow> g \<in> set (reg_pool t) \<or> (\<exists>r < 32. reg_mapping t ! r = Op_gp 32 g)"
  shows "alloc_ok t"
  unfolding alloc_ok_def using assms by (intro conjI allI impI ballI; (elim conjE)?; blast)

lemma alloc_okD:
  assumes "alloc_ok t"
  shows "length (reg_mapping t) = 32" "reg_mapping t ! 0 = Op_none" "distinct (reg_pool t)"
    "set (reg_pool t) \<subseteq> set pool_regs"
    and "0 < r \<Longrightarrow> r < 32 \<Longrightarrow> reg_mapping t ! r = Op_slot (of_nat r) \<or>
        (\<exists>g \<in> set pool_regs. reg_mapping t ! r = Op_gp 32 g \<and> g \<notin> set (reg_pool t))"
    and "reg_mapping t ! r = Op_gp 32 g \<Longrightarrow> reg_mapping t ! q = Op_gp 32 g \<Longrightarrow> r < 32 \<Longrightarrow> q < 32 \<Longrightarrow> r = q"
    and "g \<in> set pool_regs \<Longrightarrow> g \<in> set (reg_pool t) \<or> (\<exists>r < 32. reg_mapping t ! r = Op_gp 32 g)"
  using assms unfolding alloc_ok_def by blast+

text \<open>The registers in host registers are among \<open>S\<close>.\<close>

definition alloc_within :: "nat set \<Rightarrow> Translator \<Rightarrow> bool" where
  "alloc_within S t \<longleftrightarrow> (\<forall>r < 32. Op_isReg (reg_mapping t ! r) \<longrightarrow> r \<in> S)"

definition tr_inv :: "bool list list \<Rightarrow> nat \<Rightarrow> nat set \<Rightarrow> Translator \<Rightarrow> bool" where
  "tr_inv live k S t \<longleftrightarrow> alloc_ok t \<and> alloc_within S t \<and> liveness t = live \<and> cur_inst t = k"

lemma tr_inv_code [simp]:
  "tr_inv live k S (t\<lparr>tr_code := c\<rparr>) = tr_inv live k S t"
  "tr_inv live k S (t\<lparr>labels := l\<rparr>) = tr_inv live k S t"
  by (simp_all add: tr_inv_def alloc_ok_def alloc_within_def)

lemma tr_inv_mono: "tr_inv live k S t \<Longrightarrow> S \<subseteq> S' \<Longrightarrow> tr_inv live k S' t"
  by (auto simp: tr_inv_def alloc_within_def)

lemma tr_inv_cases:
  assumes "tr_inv live k S t" "0 < r" "r < 32"
  obtains "reg_mapping t ! r = Op_slot (of_nat r)"
  | g where "g \<in> set pool_regs" "reg_mapping t ! r = Op_gp 32 g" "g \<notin> set (reg_pool t)" "r \<in> S"
  using assms by (force simp: tr_inv_def alloc_ok_def alloc_within_def)

lemma tr_inv_length: "tr_inv live k S t \<Longrightarrow> length (reg_mapping t) = 32"
  by (simp add: tr_inv_def alloc_ok_def)

lemma emit_keeps [keeping]: "returns (tr_inv live k S) (emit x ops) (tr_inv live k S)"
  by (simp add: returns_def emit_def)

lemma newLabel_keeps [keeping]: "returns (tr_inv live k S) newLabel (tr_inv live k S)"
  by (simp add: returns_def newLabel_def)

lemma bind_label_keeps [keeping]: "returns (tr_inv live k S) (bind_label l) (tr_inv live k S)"
  by (simp add: returns_def bind_label_def)

lemma mapping_of_keeps: "r < 32 \<Longrightarrow> returns (tr_inv live k S) (mapping_of r) (tr_inv live k S)"
  by (auto simp: returns_def mapping_of_def tr_inv_length word_less_nat_alt)

lemma tr_getReg_keeps: "r < 32 \<Longrightarrow> returns (tr_inv live k S) (tr_getReg r) (tr_inv live k S)"
  by (auto simp: returns_def tr_getReg_def tr_inv_length word_less_nat_alt)

text \<open>Freeing a register that is in use.\<close>

lemma free_ok:
  assumes ok: "alloc_ok t" and r: "0 < r" "r < 32" "reg_mapping t ! r = Op_gp 32 g"
  shows "alloc_ok (t\<lparr>reg_pool := reg_pool t @ [g], reg_mapping := (reg_mapping t)[r := Op_slot (of_nat r)]\<rparr>)"
proof (rule alloc_okI)
  let ?t = "t\<lparr>reg_pool := reg_pool t @ [g], reg_mapping := (reg_mapping t)[r := Op_slot (of_nat r)]\<rparr>"
  note a = alloc_okD [OF ok]
  have g: "g \<in> set pool_regs" "g \<notin> set (reg_pool t)"
    using a(5) [OF r(1,2)] r(3) by auto
  show "length (reg_mapping ?t) = 32" "reg_mapping ?t ! 0 = Op_none" "distinct (reg_pool ?t)"
    "set (reg_pool ?t) \<subseteq> set pool_regs"
    using a(1-4) g r(1) by simp_all
  show "reg_mapping ?t ! q = Op_slot (of_nat q) \<or>
      (\<exists>h \<in> set pool_regs. reg_mapping ?t ! q = Op_gp 32 h \<and> h \<notin> set (reg_pool ?t))" if q: "0 < q" "q < 32" for q
  proof (cases "q = r")
    case False
    then have "reg_mapping t ! q \<noteq> Op_gp 32 g" using a(6) [of q g r] q r by auto
    then show ?thesis using a(5) [OF q] False by auto
  qed (use r(2) a(1) in simp)
  show "p = q" if "reg_mapping ?t ! p = Op_gp 32 h" "reg_mapping ?t ! q = Op_gp 32 h" "p < 32" "q < 32" for p q h
    using that a(1) a(6) [of p h q] r(2) by (auto simp: nth_list_update split: if_splits)
  show "h \<in> set (reg_pool ?t) \<or> (\<exists>q < 32. reg_mapping ?t ! q = Op_gp 32 h)" if h: "h \<in> set pool_regs" for h
  proof (cases "h = g \<or> h \<in> set (reg_pool t)")
    case False
    then obtain q where "q < 32" "reg_mapping t ! q = Op_gp 32 h" using a(7) [OF h] by auto
    moreover from this have "q \<noteq> r" using False r(3) by auto
    ultimately show ?thesis by (auto intro!: exI [of _ q])
  qed auto
qed

lemma deallocateReg_returns:
  assumes "0 < r" "r < 32"
  shows "returns (tr_inv live k S) (deallocateReg r True) (tr_inv live k (S - {unat r}))"
  unfolding returns_def
proof (intro allI impI)
  fix t assume t: "tr_inv live k S t"
  have r: "0 < unat r" "unat r < 32" using assms by (simp_all add: word_less_nat_alt unat_gt_0)
  note len = tr_inv_length [OF t]
  show "\<exists>a s'. deallocateReg r True t = (Inr a, s') \<and> tr_inv live k (S - {unat r}) s'"
  proof (cases rule: tr_inv_cases [OF t r])
    case 1
    have "deallocateReg r True t = (Inr (), t)"
      using 1 r len by (simp add: deallocateReg_def mapping_of_def bnd_def)
    moreover have "tr_inv live k (S - {unat r}) t"
      using t 1 by (auto simp: tr_inv_def alloc_within_def)
    ultimately show ?thesis by blast
  next
    case (2 g)
    let ?t = "t\<lparr>reg_pool := reg_pool t @ [g], reg_mapping := (reg_mapping t)[unat r := Op_slot r]\<rparr>"
    have "deallocateReg r True t = (Inr (), ?t\<lparr>tr_code := tr_code t @ [Emit Id_Mov [Op_slot r, Op_gp 32 g]]\<rparr>)"
      using 2 r len
      by (simp add: deallocateReg_def mapping_of_def bnd_Inr emit_def set_mapping_def getRegMemOp_def)
    moreover have "tr_inv live k (S - {unat r}) ?t"
      using free_ok [of t "unat r" g] t 2 r len
      by (auto simp: tr_inv_def alloc_within_def nth_list_update)
    ultimately show ?thesis by auto
  qed
qed

lemma deallocateReg_keeps:
  "0 < r \<Longrightarrow> r < 32 \<Longrightarrow> returns (tr_inv live k S) (deallocateReg r True) (tr_inv live k S)"
  by (erule (1) returns_weaken [OF deallocateReg_returns]) (auto elim: tr_inv_mono)

text \<open>Taking the first free host register.\<close>

lemma take_ok:
  assumes ok: "alloc_ok t" and r: "0 < r" "r < 32" "\<not> Op_isReg (reg_mapping t ! r)" and p: "reg_pool t = g # gs"
  shows "alloc_ok (t\<lparr>reg_pool := gs, reg_mapping := (reg_mapping t)[r := Op_gp 32 g]\<rparr>)"
proof (rule alloc_okI)
  let ?t = "t\<lparr>reg_pool := gs, reg_mapping := (reg_mapping t)[r := Op_gp 32 g]\<rparr>"
  note a = alloc_okD [OF ok]
  have g: "g \<in> set pool_regs" "g \<notin> set gs" using a(3,4) p by auto
  have free: "reg_mapping t ! q \<noteq> Op_gp 32 g" if "q < 32" for q
    using a(2) a(5) [of q] p that by (cases "q = 0") auto
  show "length (reg_mapping ?t) = 32" "reg_mapping ?t ! 0 = Op_none" "distinct (reg_pool ?t)"
    "set (reg_pool ?t) \<subseteq> set pool_regs"
    using a(1-4) p r(1) by simp_all
  show "reg_mapping ?t ! q = Op_slot (of_nat q) \<or>
      (\<exists>h \<in> set pool_regs. reg_mapping ?t ! q = Op_gp 32 h \<and> h \<notin> set (reg_pool ?t))" if q: "0 < q" "q < 32" for q
    using a(5) [OF q] p g r(2) a(1) by (cases "q = r") auto
  show "x = q" if "reg_mapping ?t ! x = Op_gp 32 h" "reg_mapping ?t ! q = Op_gp 32 h" "x < 32" "q < 32" for x q h
    using that a(1) a(6) [of x h q] r(2) free by (auto simp: nth_list_update split: if_splits)
  show "h \<in> set (reg_pool ?t) \<or> (\<exists>q < 32. reg_mapping ?t ! q = Op_gp 32 h)" if h: "h \<in> set pool_regs" for h
  proof (cases "h = g \<or> h \<in> set gs")
    case True
    then show ?thesis using r(2) a(1) by (auto intro!: exI [of _ r])
  next
    case False
    then obtain q where "q < 32" "reg_mapping t ! q = Op_gp 32 h" using a(7) [OF h] p by auto
    moreover from this have "q \<noteq> r" using r(3) by auto
    ultimately show ?thesis by (auto intro!: exI [of _ q])
  qed
qed

lemma allocateReg_returns:
  assumes "0 < r" "r < 32"
  shows "returns (tr_inv live k S) (allocateReg r load) (tr_inv live k (insert (unat r) S))"
  unfolding returns_def
proof (intro allI impI)
  fix t assume t: "tr_inv live k S t"
  have r: "0 < unat r" "unat r < 32" using assms by (simp_all add: word_less_nat_alt unat_gt_0)
  note len = tr_inv_length [OF t]
  have m: "mapping_of r t = (Inr (reg_mapping t ! unat r), t)"
    using r len by (simp add: mapping_of_def)
  show "\<exists>a s'. allocateReg r load t = (Inr a, s') \<and> tr_inv live k (insert (unat r) S) s'"
  proof (cases "Op_isReg (reg_mapping t ! unat r) \<or> reg_pool t = []")
    case True
    then have "allocateReg r load t = (Inr (), t)"
      using m by (auto simp: allocateReg_def bnd_Inr)
    with t show ?thesis by (blast intro: tr_inv_mono)
  next
    case False
    then obtain g gs where p: "reg_pool t = g # gs" and f: "\<not> Op_isReg (reg_mapping t ! unat r)"
      by (cases "reg_pool t") auto
    let ?t = "t\<lparr>reg_pool := gs, reg_mapping := (reg_mapping t)[unat r := Op_gp 32 g]\<rparr>"
    obtain c where "allocateReg r load t = (Inr (), ?t\<lparr>tr_code := c\<rparr>)"
    proof
      show "allocateReg r load t = (Inr (), ?t\<lparr>tr_code :=
          tr_code t @ (if load then [Emit Id_Mov [Op_gp 32 g, Op_slot r]] else [])\<rparr>)"
        using m f p r len
        by (simp add: allocateReg_def bnd_Inr set_mapping_def emit_def getRegMemOp_def)
    qed
    moreover have "tr_inv live k (insert (unat r) S) ?t"
      using take_ok [OF _ r f p] t r len by (auto simp: tr_inv_def alloc_within_def nth_list_update)
    ultimately show ?thesis by auto
  qed
qed

section \<open>The functions that translate\<close>

text \<open>The fields an instruction has, as the accessors deliver them.\<close>

definition has_rs1 :: "Inst \<Rightarrow> bool" where
  "has_rs1 i \<longleftrightarrow> cmd_format (inst_cmd i) \<notin> {Fmt_U, Fmt_J}"

definition has_rs2 :: "Inst \<Rightarrow> bool" where
  "has_rs2 i \<longleftrightarrow> cmd_format (inst_cmd i) \<notin> {Fmt_I, Fmt_U, Fmt_J}"

definition has_rd :: "Inst \<Rightarrow> bool" where
  "has_rd i \<longleftrightarrow> cmd_format (inst_cmd i) \<notin> {Fmt_S, Fmt_B}"

definition has_imm :: "Inst \<Rightarrow> bool" where
  "has_imm i \<longleftrightarrow> cmd_format (inst_cmd i) \<noteq> Fmt_R"

lemma field_eqs:
  assumes "wf_inst i"
  shows "isRs1 i = Inr (has_rs1 i)" "isRs2 i = Inr (has_rs2 i)" "isRd i = Inr (has_rd i)"
    "has_rs1 i \<Longrightarrow> getRs1 i = Inr (inst_rs1 i)" "has_rs2 i \<Longrightarrow> getRs2 i = Inr (inst_rs2 i)"
    "has_rd i \<Longrightarrow> getRd i = Inr (inst_rd i)" "has_imm i \<Longrightarrow> getImm i = Inr (inst_imm i)"
  using wf_inst_cmd [OF assms]
  by (auto simp: isRs1_def isRs2_def isRd_def getCmdFormat_eq has_rs1_def has_rs2_def has_rd_def has_imm_def
      accessor_eqs)

lemma wf_regs:
  assumes "wf_inst i"
  shows "inst_rs1 i < 32" "inst_rs2 i < 32" "inst_rd i < 32"
  using assms by (simp_all add: wf_inst_def)

lemma fields_keep [keeping]:
  "wf_inst i \<Longrightarrow> has_rs1 i \<Longrightarrow> returns (tr_inv live k S) (lift (getRs1 i)) (tr_inv live k S)"
  "wf_inst i \<Longrightarrow> has_rs2 i \<Longrightarrow> returns (tr_inv live k S) (lift (getRs2 i)) (tr_inv live k S)"
  "wf_inst i \<Longrightarrow> has_rd i \<Longrightarrow> returns (tr_inv live k S) (lift (getRd i)) (tr_inv live k S)"
  by (rule returns_lift, erule field_eqs, assumption)+

lemma operands_keep [keeping]:
  "wf_inst i \<Longrightarrow> has_rs1 i \<Longrightarrow> returns (tr_inv live k S) (RS1 i) (tr_inv live k S)"
  "wf_inst i \<Longrightarrow> has_rs2 i \<Longrightarrow> returns (tr_inv live k S) (RS2 i) (tr_inv live k S)"
  "wf_inst i \<Longrightarrow> has_rd i \<Longrightarrow> returns (tr_inv live k S) (RD i) (tr_inv live k S)"
  "wf_inst i \<Longrightarrow> has_imm i \<Longrightarrow> returns (tr_inv live k S) (IMM i) (tr_inv live k S)"
  "wf_inst i \<Longrightarrow> has_imm i \<Longrightarrow> returns (tr_inv live k S) (UIMM i) (tr_inv live k S)"
  using wf_regs [of i] field_eqs [of i]
    tr_getReg_keeps [of "inst_rs1 i"] tr_getReg_keeps [of "inst_rs2 i"] tr_getReg_keeps [of "inst_rd i"]
  by (simp_all add: RS1_def RS2_def RD_def IMM_def UIMM_def returns_def)

lemma getOffset_keeps [keeping]: "returns (tr_inv live k S) getOffset (tr_inv live k S)"
  unfolding getOffset_def by (rule keeping)

lemma each_returns:
  "(\<And>x. x \<in> set xs \<Longrightarrow> returns P (f x) P) \<Longrightarrow> returns P (each f xs) P"
  by (induction xs) (auto intro: keeping)

lemma guest_regs_range: "r \<in> set guest_regs \<Longrightarrow> 0 < r \<and> r < 32"
  by (auto simp: guest_regs_def word_less_nat_alt unat_of_nat take_bit_nat_eq_self)

lemma all_regs_keep [keeping]:
  "returns (tr_inv live k S) deallocateAllRegs (tr_inv live k S)"
  "returns (tr_inv live k S) saveAllRegs (tr_inv live k S)"
  "returns (tr_inv live k S) restoreAllRegs (tr_inv live k S)"
  unfolding deallocateAllRegs_def saveAllRegs_def restoreAllRegs_def
  by (auto intro!: each_returns deallocateReg_keeps mapping_of_keeps keeps_bnd returns_if returns_ret emit_keeps
      dest: guest_regs_range split del: if_split)

lemma TranslateMove_keeps [keeping]: "returns (tr_inv live k S) (TranslateMove d a) (tr_inv live k S)"
  unfolding TranslateMove_def by (intro keeping)

lemma move_via_tmp_keeps [keeping]: "returns (tr_inv live k S) (move_via_tmp d a) (tr_inv live k S)"
  unfolding move_via_tmp_def by (intro keeping)

lemma mov_keeps [keeping]:
  "returns (tr_inv live k S) (movsx d a) (tr_inv live k S)"
  "returns (tr_inv live k S) (movzx d a) (tr_inv live k S)"
  unfolding movsx_def movzx_def by (intro keeping)+

lemma host_address_keeps [keeping]:
  "wf_inst i \<Longrightarrow> has_rs1 i \<Longrightarrow> returns (tr_inv live k S) (host_address i) (tr_inv live k S)"
  unfolding host_address_def by (intro keeping)

text \<open>The templates.\<close>

lemma templates_keep [keeping]:
  assumes "wf_inst i"
  shows "has_rs1 i \<Longrightarrow> has_imm i \<Longrightarrow> returns (tr_inv live k S) (TranslateMMULoad sz sg i) (tr_inv live k S)"
    and "has_rs1 i \<Longrightarrow> has_rs2 i \<Longrightarrow> has_imm i \<Longrightarrow>
      returns (tr_inv live k S) (TranslateMMUStore sz i) (tr_inv live k S)"
    and "has_rs1 i \<Longrightarrow> returns (tr_inv live k S) (fst_operand i) (tr_inv live k S)"
    and "has_rd i \<Longrightarrow> has_rs1 i \<Longrightarrow> has_imm i \<Longrightarrow> returns (tr_inv live k S) (TranslateImmType i x) (tr_inv live k S)"
    and "has_rd i \<Longrightarrow> has_rs1 i \<Longrightarrow> has_rs2 i \<Longrightarrow> returns (tr_inv live k S) (TranslateRegType i x) (tr_inv live k S)"
    and "has_rd i \<Longrightarrow> has_rs1 i \<Longrightarrow> has_rs2 i \<Longrightarrow> returns (tr_inv live k S) (TranslateShift i x) (tr_inv live k S)"
    and "has_rs1 i \<Longrightarrow> has_rs2 i \<Longrightarrow> has_imm i \<Longrightarrow> returns (tr_inv live k S) (store_direct w i) (tr_inv live k S)"
  unfolding TranslateMMULoad_def TranslateMMUStore_def fst_operand_def TranslateImmType_def
    TranslateRegType_def TranslateShift_def store_direct_def Let_def
  by (intro keeping assms; assumption)+

lemma load_direct_keeps [keeping]:
  assumes "wf_inst i" "has_rs1 i" "has_rd i" "has_imm i"
    and "\<And>d a. returns (tr_inv live k S) (put d a) (tr_inv live k S)"
  shows "returns (tr_inv live k S) (load_direct w put i) (tr_inv live k S)"
  unfolding load_direct_def by (intro keeping assms)

lemma TranslateCondBranch_keeps [keeping]:
  assumes "wf_inst i" "has_rs1 i" "has_rs2 i" "has_imm i"
  shows "returns (tr_inv live k S) (TranslateCondBranch i x) (tr_inv live k S)"
  unfolding TranslateCondBranch_def Let_def by (intro keeping assms)

text \<open>The format of the commands that have a translation.\<close>

lemmas translation_defs =
  TranslateLB_def TranslateLH_def TranslateLW_def TranslateLBU_def TranslateLHU_def TranslateLWU_def
  TranslateSB_def TranslateSH_def TranslateSW_def TranslateLUI_def TranslateAUIPC_def TranslateJAL_def
  TranslateJALR_def TranslateBEQ_def TranslateBNE_def TranslateBLT_def TranslateBGE_def TranslateBLTU_def
  TranslateBGEU_def TranslateADDI_def TranslateSLTI_def TranslateSLTIU_def TranslateXORI_def
  TranslateORI_def TranslateANDI_def TranslateSLLI_def TranslateSRLI_def TranslateSRAI_def
  TranslateADD_def TranslateSUB_def TranslateSLL_def TranslateSLT_def TranslateSLTU_def TranslateXOR_def
  TranslateSRL_def TranslateSRA_def TranslateOR_def TranslateAND_def TranslateMUL_def TranslateMULH_def

lemma translations_keep:
  assumes "wf_inst i" and "cd_translate_func (cmd_desc ! unat (Cmd_u8 (inst_cmd i))) = Some f"
  shows "returns (tr_inv live k S) (call_translate f virt i) (tr_inv live k S)"
proof -
  have has: "has_rs1 i \<longleftrightarrow> cmd_format (inst_cmd i) \<notin> {Fmt_U, Fmt_J}"
    "has_rs2 i \<longleftrightarrow> cmd_format (inst_cmd i) \<notin> {Fmt_I, Fmt_U, Fmt_J}"
    "has_rd i \<longleftrightarrow> cmd_format (inst_cmd i) \<notin> {Fmt_S, Fmt_B}"
    "has_imm i \<longleftrightarrow> cmd_format (inst_cmd i) \<noteq> Fmt_R"
    by (rule has_rs1_def has_rs2_def has_rd_def has_imm_def)+
  show ?thesis
    using assms(2) wf_inst_cmd [OF assms(1)]
    by (cases "inst_cmd i")
      (simp_all add: cmd_desc_def row_def translation_defs split del: if_split,
       (intro keeping assms(1); simp add: has cmd_format_by_opcode)+)
qed

lemma Inst_translate_keeps:
  assumes "wf_inst i" and "isTranslationSupported i = Inr True"
  shows "returns (tr_inv live k S) (Inst_translate virt i) (tr_inv live k S)"
proof -
  note d = getCmdDesc_total [OF wf_inst_cmd [OF assms(1)]]
  then obtain f where "cd_translate_func (cmd_desc ! unat (Cmd_u8 (inst_cmd i))) = Some f"
    using assms(2) by (auto simp: isTranslationSupported_def)
  from translations_keep [OF assms(1) this, of live k S virt] this d show ?thesis
    by (simp add: Inst_translate_def returns_def)
qed

section \<open>Liveness\<close>

text \<open>What an instruction reads and writes, and the registers whose value a list of instructions uses.\<close>

definition reads_reg :: "Inst \<Rightarrow> nat \<Rightarrow> bool" where
  "reads_reg i r \<longleftrightarrow> (has_rs1 i \<and> r = unat (inst_rs1 i)) \<or> (has_rs2 i \<and> r = unat (inst_rs2 i))"

definition writes_reg :: "Inst \<Rightarrow> nat \<Rightarrow> bool" where
  "writes_reg i r \<longleftrightarrow> has_rd i \<and> r = unat (inst_rd i)"

definition live_in :: "Inst list \<Rightarrow> nat \<Rightarrow> bool" where
  "live_in is r \<longleftrightarrow> (\<exists>j < length is. reads_reg (is ! j) r \<and> (\<forall>m < j. \<not> writes_reg (is ! m) r))"

lemma live_in_simps [simp]:
  "live_in [] r \<longleftrightarrow> False"
  "live_in (i # is) r \<longleftrightarrow> reads_reg i r \<or> (\<not> writes_reg i r \<and> live_in is r)"
  by (auto simp: live_in_def Ex_less_Suc2 All_less_Suc2)

lemma unat_reg_less: "(r :: Reg) < 32 \<Longrightarrow> unat r < 32"
  by (simp add: word_less_nat_alt)

lemma live_before_eq:
  assumes wf: "wf_inst i" and len: "length cur = 32"
  shows "\<exists>cur'. live_before i cur = Inr cur' \<and> length cur' = 32 \<and>
    (\<forall>r < 32. cur' ! r \<longleftrightarrow> reads_reg i r \<or> (\<not> writes_reg i r \<and> cur ! r))"
proof -
  note b = unat_reg_less [OF wf_regs(1) [OF wf]] unat_reg_less [OF wf_regs(2) [OF wf]]
    unat_reg_less [OF wf_regs(3) [OF wf]]
  show ?thesis
    using b len field_eqs [OF wf]
    by (cases "has_rd i"; cases "has_rs1 i"; cases "has_rs2 i")
      (auto simp: live_before_def set_live_def reads_reg_def writes_reg_def nth_list_update)
qed

lemma liveness_loop_eq:
  assumes "\<And>i. i \<in> set is \<Longrightarrow> wf_inst i"
  shows "\<exists>live cur. liveness_loop is = Inr (live, cur) \<and> length live = length is \<and> length cur = 32 \<and>
    (\<forall>r < 32. cur ! r \<longleftrightarrow> live_in is r) \<and>
    (\<forall>k < length is. length (live ! k) = 32 \<and> (\<forall>r < 32. live ! k ! r \<longleftrightarrow> live_in (drop (Suc k) is) r))"
  using assms
proof (induction "is")
  case Nil
  then show ?case by simp
next
  case (Cons i "is")
  then obtain live cur where l: "liveness_loop is = Inr (live, cur)" "length live = length is" "length cur = 32"
    "\<forall>r < 32. cur ! r \<longleftrightarrow> live_in is r"
    "\<forall>k < length is. length (live ! k) = 32 \<and> (\<forall>r < 32. live ! k ! r \<longleftrightarrow> live_in (drop (Suc k) is) r)"
    by auto
  obtain cur' where c: "live_before i cur = Inr cur'" "length cur' = 32"
    "\<forall>r < 32. cur' ! r \<longleftrightarrow> reads_reg i r \<or> (\<not> writes_reg i r \<and> cur ! r)"
    using live_before_eq [of i cur] Cons.prems l(3) by auto
  have "length ((cur # live) ! k) = 32 \<and> (\<forall>r < 32. (cur # live) ! k ! r \<longleftrightarrow> live_in (drop (Suc k) (i # is)) r)"
    if "k < length (i # is)" for k
    using that l by (cases k) auto
  with l c show ?case by auto
qed

lemma calcLiveness_eq:
  assumes "\<And>i. i \<in> set is \<Longrightarrow> wf_inst i"
  shows "\<exists>live. calcLiveness is = Inr live \<and> length live = length is \<and>
    (\<forall>k < length is. length (live ! k) = 32 \<and> (\<forall>r < 32. live ! k ! r \<longleftrightarrow> live_in (drop (Suc k) is) r))"
proof -
  obtain live cur where "liveness_loop is = Inr (live, cur)" "length live = length is"
    "\<forall>k < length is. length (live ! k) = 32 \<and> (\<forall>r < 32. live ! k ! r \<longleftrightarrow> live_in (drop (Suc k) is) r)"
    using liveness_loop_eq [OF assms] by metis
  then show ?thesis by (simp add: calcLiveness_def)
qed

section \<open>Translating a trace\<close>

text \<open>The registers live after instruction \<open>k\<close>.\<close>

definition live_set :: "bool list list \<Rightarrow> nat \<Rightarrow> nat set" where
  "live_set live k = {r. r < 32 \<and> live ! k ! r}"

lemma is_live_eq:
  assumes "tr_inv live k S t" "k < length live" "length (live ! k) = 32" "r < 32"
  shows "is_live r t = (Inr (unat r \<in> live_set live k), t)"
  using assms unat_reg_less [OF assms(4)] by (simp add: is_live_def tr_inv_def live_set_def)

lemma alloc_if_live_returns:
  assumes k: "k < length live" "length (live ! k) = 32" and f: "has = Inr b" "b \<Longrightarrow> reg = Inr r" and r: "r < 32"
  shows "returns (tr_inv live k S) (alloc_if_live has reg load) (tr_inv live k (S \<union> live_set live k))"
  unfolding returns_def
proof (intro allI impI)
  fix t assume t: "tr_inv live k S t"
  show "\<exists>a s'. alloc_if_live has reg load t = (Inr a, s') \<and> tr_inv live k (S \<union> live_set live k) s'"
  proof (cases "b \<and> r \<noteq> 0 \<and> unat r \<in> live_set live k")
    case True
    then have "alloc_if_live has reg load t = allocateReg r load t"
      using f is_live_eq [OF t k r] by (simp add: alloc_if_live_def bnd_Inr)
    moreover have "0 < r" using True by (simp add: word_neq_0_conv)
    ultimately show ?thesis
      using returnsD [OF allocateReg_returns t] r True by (force elim: tr_inv_mono)
  next
    case False
    then have "alloc_if_live has reg load t = (Inr (), t)"
      using f is_live_eq [OF t k r] by (auto simp: alloc_if_live_def bnd_Inr)
    with t show ?thesis by (auto elim: tr_inv_mono)
  qed
qed

lemma dealloc_if_dead_returns:
  assumes k: "k < length live" "length (live ! k) = 32" and f: "has = Inr b" "b \<Longrightarrow> reg = Inr r" and r: "r < 32"
  shows "returns (tr_inv live k S) (dealloc_if_dead has reg)
    (tr_inv live k (S - (if b \<and> unat r \<notin> live_set live k then {unat r} else {})))"
  unfolding returns_def
proof (intro allI impI)
  fix t assume t: "tr_inv live k S t"
  let ?D = "if b \<and> unat r \<notin> live_set live k then {unat r} else {}"
  show "\<exists>a s'. dealloc_if_dead has reg t = (Inr a, s') \<and> tr_inv live k (S - ?D) s'"
  proof (cases "b \<and> r \<noteq> 0 \<and> unat r \<notin> live_set live k")
    case True
    then have "dealloc_if_dead has reg t = deallocateReg r True t"
      using f is_live_eq [OF t k r] by (simp add: dealloc_if_dead_def bnd_Inr [of "is_live r" t False t])
    moreover have "0 < r" using True by (simp add: word_neq_0_conv)
    ultimately show ?thesis using returnsD [OF deallocateReg_returns t] r True by force
  next
    case False
    then have "dealloc_if_dead has reg t = (Inr (), t)"
      using f is_live_eq [OF t k r] by (auto simp: dealloc_if_dead_def bnd_Inr)
    moreover have "tr_inv live k (S - ?D) t"
      using t False by (auto simp: tr_inv_def alloc_within_def alloc_ok_def split: if_splits)
    ultimately show ?thesis by blast
  qed
qed

lemma translate_one_returns:
  assumes wf: "wf_inst i" and sup: "isTranslationSupported i = Inr True"
    and k: "k < length live" "length (live ! k) = 32" "\<forall>r < 32. live ! k ! r \<longleftrightarrow> live_in is r"
  shows "returns (tr_inv live k {r. live_in (i # is) r}) (translate_one (Inst_translate virt) i)
    (tr_inv live k {r. live_in is r})"
proof -
  note f = field_eqs [OF wf] and r = wf_regs [OF wf] and b = unat_reg_less
  note al = alloc_if_live_returns [OF k(1,2)] and de = dealloc_if_dead_returns [OF k(1,2)]
  let ?S0 = "{r. live_in (i # is) r}" and ?L = "live_set live k"
  let ?D = "\<lambda>h x. if h \<and> unat x \<notin> ?L then {unat x} else {}"
  have L: "?L = {r. r < 32 \<and> live_in is r}" using k(3) by (auto simp: live_set_def)
  have "returns (tr_inv live k ?S0) (translate_one (Inst_translate virt) i)
    (tr_inv live k (?S0 \<union> ?L \<union> ?L \<union> ?L - ?D (has_rs1 i) (inst_rs1 i) - ?D (has_rs2 i) (inst_rs2 i)
      - ?D (has_rd i) (inst_rd i)))"
    unfolding translate_one_def
    by (rule returns_bnd [OF al [OF f(1) f(4) r(1)]] returns_bnd [OF al [OF f(2) f(5) r(2)]]
        returns_bnd [OF al [OF f(3) f(6) r(3)]] returns_bnd [OF Inst_translate_keeps [OF wf sup]]
        returns_bnd [OF de [OF f(1) f(4) r(1)]] returns_bnd [OF de [OF f(2) f(5) r(2)]]
        de [OF f(3) f(6) r(3)] | assumption)+
  moreover have "?S0 \<union> ?L \<union> ?L \<union> ?L - ?D (has_rs1 i) (inst_rs1 i) - ?D (has_rs2 i) (inst_rs2 i)
      - ?D (has_rd i) (inst_rd i) \<subseteq> {r. live_in is r}"
    using b [OF r(1)] b [OF r(2)] b [OF r(3)]
    by (auto simp: L reads_reg_def writes_reg_def split: if_splits)
  ultimately show ?thesis by (blast intro: returns_weaken tr_inv_mono)
qed

lemma next_inst_returns:
  "returns (tr_inv live k S) (modify (\<lambda>t. t\<lparr>cur_inst := Suc (cur_inst t)\<rparr>)) (tr_inv live (Suc k) S)"
  by (simp add: returns_def tr_inv_def alloc_ok_def alloc_within_def)

lemma translate_loop_returns:
  assumes "\<And>i. i \<in> set is \<Longrightarrow> wf_inst i \<and> isTranslationSupported i = Inr True"
    and "k + length is \<le> length live"
    and "\<And>j. j < length is \<Longrightarrow> length (live ! (k + j)) = 32 \<and>
      (\<forall>r < 32. live ! (k + j) ! r \<longleftrightarrow> live_in (drop (Suc j) (is @ rest)) r)"
  shows "returns (tr_inv live k {r. live_in (is @ rest) r}) (translate_loop (Inst_translate virt) is)
    (tr_inv live (k + length is) {r. live_in rest r})"
  using assms
proof (induction "is" arbitrary: k)
  case Nil
  then show ?case by (simp add: translate_loop_def returns_def)
next
  case (Cons i "is")
  have i: "wf_inst i" "isTranslationSupported i = Inr True" using Cons.prems(1) by auto
  have r: "k < length live" "length (live ! k) = 32" "\<forall>r < 32. live ! k ! r \<longleftrightarrow> live_in (is @ rest) r"
    using Cons.prems(2) Cons.prems(3) [of 0] by auto
  have "returns (tr_inv live (Suc k) {r. live_in (is @ rest) r}) (translate_loop (Inst_translate virt) is)
      (tr_inv live (Suc k + length is) {r. live_in rest r})"
    using Cons.prems Cons.prems(3) [of "Suc j" for j] by (intro Cons.IH) auto
  from returns_bnd [OF returns_bnd [OF translate_one_returns [OF i r] next_inst_returns] this]
  show ?case by (simp add: translate_loop_def)
qed

lemma init_translator_ok: "tr_inv live 0 {} (init_translator live)"
proof -
  have m: "reg_mapping (init_translator live) ! r = Op_slot (of_nat r)" if "0 < r" "r < 32" for r
    using that by (simp add: init_translator_def guest_regs_def getRegMemOp_def nth_Cons')
  have z: "reg_mapping (init_translator live) ! 0 = Op_none" by (simp add: init_translator_def)
  have nr: "\<not> Op_isReg (reg_mapping (init_translator live) ! r)" if "r < 32" for r
    using m [of r] z that by (cases "r = 0") auto
  have "alloc_ok (init_translator live)"
  proof (rule alloc_okI)
    show "length (reg_mapping (init_translator live)) = 32"
      by (simp add: init_translator_def guest_regs_def)
    show "distinct (reg_pool (init_translator live))" by (simp add: init_translator_def pool_regs_def)
  qed (use m z nr in \<open>force simp: init_translator_def\<close>)+
  with nr show ?thesis by (simp add: tr_inv_def alloc_within_def) (simp add: init_translator_def)
qed

text \<open>The translation of a trace up to any instruction, with the liveness of the whole trace.\<close>

lemma translate_prefix_returns:
  assumes "\<And>i. i \<in> set (is @ rest) \<Longrightarrow> wf_inst i" and "\<And>i. i \<in> set is \<Longrightarrow> isTranslationSupported i = Inr True"
    and "calcLiveness (is @ rest) = Inr live"
  shows "returns (tr_inv live 0 {}) (translate_trace (Inst_translate virt) is)
    (tr_inv live (length is) {r. live_in rest r})"
proof -
  have live: "length live = length is + length rest"
    "\<And>k. k < length is + length rest \<Longrightarrow> length (live ! k) = 32 \<and>
      (\<forall>r < 32. live ! k ! r \<longleftrightarrow> live_in (drop (Suc k) (is @ rest)) r)"
    using calcLiveness_eq [of "is @ rest"] assms(1,3) by auto
  have "returns (tr_inv live 0 {}) (translate_loop (Inst_translate virt) is)
      (tr_inv live (length is) {r. live_in rest r})"
    using translate_loop_returns [of "is" 0 live rest virt] assms(1,2) live
    by (auto elim!: returns_weaken elim: tr_inv_mono)
  then show ?thesis
    unfolding translate_trace_def
    by (intro returns_bnd [OF newLabel_keeps] returns_bnd [OF bind_label_keeps] returns_bnd [OF emit_keeps]
        returns_bnd [OF _ emit_keeps])
qed

lemma all_supported_eq:
  assumes "\<And>i. i \<in> set is \<Longrightarrow> wf_inst i"
  shows "\<exists>b. all_supported is = Inr b \<and> (b \<longleftrightarrow> (\<forall>i \<in> set is. isTranslationSupported i = Inr True))"
  using assms
proof (induction "is")
  case (Cons i "is")
  obtain b where "isTranslationSupported i = Inr b"
    using getCmdDesc_total [OF wf_inst_cmd, of i] Cons.prems by (auto simp: isTranslationSupported_def)
  then show ?case using Cons by (cases b) auto
qed auto

lemma nothing_live: "tr_inv live k {} t \<Longrightarrow>
    (\<forall>r. 0 < r \<and> r < 32 \<longrightarrow> reg_mapping t ! r = Op_slot (of_nat r)) \<and> mset (reg_pool t) = mset pool_regs"
proof -
  assume t: "tr_inv live k {} t"
  have "reg_mapping t ! r = Op_slot (of_nat r)" if "0 < r" "r < 32" for r
    by (cases rule: tr_inv_cases [OF t that]) auto
  moreover have "g \<in> set (reg_pool t)" if "g \<in> set pool_regs" for g
  proof -
    have "\<not> Op_isReg (reg_mapping t ! r)" if "r < 32" for r
      using t that by (auto simp: tr_inv_def alloc_within_def)
    then show ?thesis using alloc_okD(7) [of t g] t that by (auto simp: tr_inv_def) (metis Op_isReg.simps(1))
  qed
  moreover have "distinct (reg_pool t)" "distinct pool_regs" "set (reg_pool t) \<subseteq> set pool_regs"
    using t by (auto simp: tr_inv_def alloc_ok_def pool_regs_def)
  ultimately show ?thesis using set_eq_iff_mset_eq_distinct [of "reg_pool t" pool_regs] by blast
qed

section \<open>The properties\<close>

text \<open>C21: The liveness analysis computes liveness: a register is in the vector of an instruction exactly
  if a later instruction of the trace reads it and no instruction in between writes it.\<close>

theorem liveness_correct:
  assumes "\<And>i. i \<in> set is \<Longrightarrow> wf_inst i"
  shows "\<exists>live. calcLiveness is = Inr live \<and> length live = length is \<and>
    (\<forall>k < length is. \<forall>r < 32. live ! k ! r \<longleftrightarrow>
      (\<exists>j > k. j < length is \<and> reads_reg (is ! j) r \<and> (\<forall>m. k < m \<and> m < j \<longrightarrow> \<not> writes_reg (is ! m) r)))"
proof -
  have "live_in (drop (Suc k) is) r \<longleftrightarrow>
      (\<exists>j > k. j < length is \<and> reads_reg (is ! j) r \<and> (\<forall>m. k < m \<and> m < j \<longrightarrow> \<not> writes_reg (is ! m) r))"
    (is "?l \<longleftrightarrow> ?r") for k r
  proof
    assume ?l
    then obtain j where "j < length is - Suc k" and j: "reads_reg (is ! (Suc k + j)) r"
      "\<forall>m < j. \<not> writes_reg (is ! (Suc k + m)) r"
      by (auto simp: live_in_def)
    then have "Suc k + j < length is" by simp
    have "\<not> writes_reg (is ! m) r" if "k < m" "m < Suc k + j" for m
      using j(2) [rule_format, of "m - Suc k"] that by auto
    with j(1) \<open>Suc k + j < length is\<close> show ?r by (intro exI [of _ "Suc k + j"]) auto
  next
    assume ?r
    then obtain j where "k < j" "j < length is" "reads_reg (is ! j) r"
      "\<forall>m. k < m \<and> m < j \<longrightarrow> \<not> writes_reg (is ! m) r" by blast
    then show ?l by (auto simp: live_in_def intro!: exI [of _ "j - Suc k"])
  qed
  with calcLiveness_eq [of "is", OF assms] show ?thesis by auto
qed

theorem liveness_correct_witness:
  "\<exists>live. calcLiveness [inst_of Cmd_ADDI 5 0 0 1, inst_of Cmd_ADD 6 5 5 0] = Inr live \<and> live ! 0 ! 5"
proof -
  let ?is = "[inst_of Cmd_ADDI 5 0 0 1, inst_of Cmd_ADD 6 5 5 0]"
  have wf: "\<And>i. i \<in> set ?is \<Longrightarrow> wf_inst i" by auto
  have r: "reads_reg (?is ! 1) 5" by (simp add: reads_reg_def has_rs1_def cmd_format_by_opcode)
  obtain live where live: "calcLiveness ?is = Inr live"
    "\<forall>k < length ?is. \<forall>r < 32. live ! k ! r \<longleftrightarrow>
      (\<exists>j > k. j < length ?is \<and> reads_reg (?is ! j) r \<and> (\<forall>m. k < m \<and> m < j \<longrightarrow> \<not> writes_reg (?is ! m) r))"
  proof -
    have "\<exists>live. calcLiveness ?is = Inr live \<and> length live = length ?is \<and>
      (\<forall>k < length ?is. \<forall>r < 32. live ! k ! r \<longleftrightarrow>
        (\<exists>j > k. j < length ?is \<and> reads_reg (?is ! j) r \<and> (\<forall>m. k < m \<and> m < j \<longrightarrow> \<not> writes_reg (?is ! m) r)))"
      by (rule liveness_correct, rule wf)
    then show thesis by (elim exE conjE) (rule that)
  qed
  have "\<exists>j > 0. j < length ?is \<and> reads_reg (?is ! j) 5 \<and> (\<forall>m. 0 < m \<and> m < j \<longrightarrow> \<not> writes_reg (?is ! m) 5)"
    using r by (intro exI [of _ 1]) simp
  then have "live ! 0 ! 5" using live(2) [rule_format, of 0 5] by simp
  with live(1) show ?thesis by blast
qed

text \<open>C20: The register allocator, at every point of the translation of a trace: no host register
  belongs to two guest registers or to a guest register and the pool, none is lost, and only
  registers whose value is still needed are in host registers. At the end every guest register
  is in its slot of the state and every host register is free.\<close>

theorem allocation_correct:
  assumes "\<And>i. i \<in> set (is @ rest) \<Longrightarrow> wf_inst i" and "\<And>i. i \<in> set is \<Longrightarrow> isTranslationSupported i = Inr True"
    and "calcLiveness (is @ rest) = Inr live"
  shows "\<exists>t. translate_trace (Inst_translate virt) is (init_translator live) = (Inr (), t) \<and> alloc_ok t \<and>
    (\<forall>r < 32. Op_isReg (reg_mapping t ! r) \<longrightarrow> live_in rest r) \<and>
    (rest = [] \<longrightarrow> (\<forall>r. 0 < r \<and> r < 32 \<longrightarrow> reg_mapping t ! r = Op_slot (of_nat r)) \<and>
       mset (reg_pool t) = mset pool_regs)"
proof -
  from returnsD [OF translate_prefix_returns [OF assms] init_translator_ok, of virt] obtain u t where
    "translate_trace (Inst_translate virt) is (init_translator live) = (Inr u, t)"
    and t: "tr_inv live (length is) {r. live_in rest r} t" by auto
  moreover have "rest = [] \<Longrightarrow> tr_inv live (length is) {} t" using t by simp
  ultimately show ?thesis
    using nothing_live by (auto simp: tr_inv_def alloc_within_def)
qed

theorem allocation_correct_witness:
  "\<exists>live t. calcLiveness [inst_of Cmd_ADD 6 5 5 0, inst_of Cmd_JAL 0 0 0 0] = Inr live \<and>
    translate_trace (Inst_translate False) [inst_of Cmd_ADD 6 5 5 0, inst_of Cmd_JAL 0 0 0 0] (init_translator live) =
      (Inr (), t) \<and> reg_mapping t ! 5 = Op_slot 5"
proof -
  let ?is = "[inst_of Cmd_ADD 6 5 5 0, inst_of Cmd_JAL 0 0 0 0]"
  have wf: "\<And>i. i \<in> set (?is @ []) \<Longrightarrow> wf_inst i" by auto
  have sup: "\<And>i. i \<in> set ?is \<Longrightarrow> isTranslationSupported i = Inr True"
    by (auto simp: isTranslationSupported_def getCmdDesc_total cmd_desc_def row_def)
  obtain live where "calcLiveness (?is @ []) = Inr live" using calcLiveness_eq [of "?is @ []"] wf by auto
  from allocation_correct [OF wf sup this, of False] this show ?thesis by fastforce
qed

lemma getFunc_total:
  assumes "\<And>i. i \<in> set is \<Longrightarrow> wf_inst i"
  shows "\<exists>f. Translator_getFunc (Inst_translate virt) assembles is = Inr f \<and>
    (f \<noteq> None \<longrightarrow> (\<forall>i \<in> set is. isTranslationSupported i = Inr True))"
proof -
  obtain b where b: "all_supported is = Inr b" "b \<longleftrightarrow> (\<forall>i \<in> set is. isTranslationSupported i = Inr True)"
    using all_supported_eq [of "is", OF assms] by auto
  show ?thesis
  proof (cases b)
    case False
    with b show ?thesis by (simp add: Translator_getFunc_def)
  next
    case True
    obtain live where l: "calcLiveness is = Inr live" using calcLiveness_eq [of "is", OF assms] by auto
    have "returns (tr_inv live 0 {}) (translate_trace (Inst_translate virt) is) (tr_inv live (length is) {r. live_in [] r})"
      using translate_prefix_returns [of "is" "[]" live virt] assms b True l by simp
    from returnsD [OF this init_translator_ok] show ?thesis
      using b True l by (auto simp: Translator_getFunc_def)
  qed
qed

text \<open>C22: Translating a trace of instructions as the decoder delivers them never fails an assertion,
  never reads a table out of range and never calls a null pointer: the translator delivers code or
  the null pointer, and code only if every instruction has a translation.\<close>

theorem translator_total:
  assumes "\<And>i. i \<in> set is \<Longrightarrow> wf_inst i"
  shows "\<exists>f. Translator_getFunc (Inst_translate virt) assembles is = Inr f \<and>
    (f \<noteq> None \<longrightarrow> (\<forall>i \<in> set is. isTranslationSupported i = Inr True))"
  by (rule getFunc_total) (rule assms)

theorem translator_total_witness:
  "\<exists>f. Translator_getFunc (Inst_translate True) (\<lambda>_. True) [inst_of Cmd_LW 5 6 0 8, inst_of Cmd_JAL 0 0 0 0] = Inr f"
proof -
  have "wf_inst i" if "i \<in> set [inst_of Cmd_LW 5 6 0 8, inst_of Cmd_JAL 0 0 0 0]" for i
    using that by auto
  from translator_total [OF this] show ?thesis by blast
qed

end
