(* ===== verification/Simulator.thy ===== *)
theory Simulator
  imports Exec_Inst Translate_Inst Decoder
begin

text \<open>
  Traces, the trace cache and the simulator's main loop: the classes \<^verbatim>\<open>Trace\<close>, \<^verbatim>\<open>TraceCache\<close> and \<^verbatim>\<open>Sim\<close> of
  \<^verbatim>\<open>src/sim/sim.h\<close> and \<^verbatim>\<open>src/sim/sim.cpp\<close>.

  The loop of the constructor of \<^verbatim>\<open>Trace\<close> and the loop of \<^verbatim>\<open>Sim::execute\<close> may run forever; both take
  fuel, and running out of it is a fault of its own (\<open>OutOfFuel\<close>) that no exception handler
  catches. \<open>Simulator_Correct\<close> shows how much fuel is enough. A trace lives in a node of the
  trace cache and every access to it goes through the cache, so that an access after the
  cache was emptied is a fault.
\<close>

text \<open>
  What the simulator takes from asmjit and from the host processor: whether the assembler accepts
  the emitted code, and what calling the code does; and the line of \<^verbatim>\<open>Sim::execute\<close> with the time
  and the speed it measured.
\<close>

record Jit_Env =
  assembles :: "Asm list \<Rightarrow> bool"
  run_code :: "Asm list \<Rightarrow> State \<Rightarrow> (fault + unit) \<times> State"
  time_line :: "u64 \<Rightarrow> string"

section \<open>Traces\<close>

text \<open>\<^verbatim>\<open>decoder.decode(state.getCmd(address))\<close> until a terminator; \<open>n\<close> bounds the iterations.\<close>

fun fetch_loop :: "nat \<Rightarrow> Decoder \<Rightarrow> u32 \<Rightarrow> Inst list \<Rightarrow> (State, Inst list) M" where
  "fetch_loop 0 decoder address trace = raise (OutOfFuel FetchLoop)"
| "fetch_loop (Suc n) decoder address trace =
     bnd (getCmd address) (\<lambda>w.
     bnd (lift (decode decoder w)) (\<lambda>inst.
     bnd (lift (isTerminator inst)) (\<lambda>stop.
       if stop then ret (trace @ [inst])
       else fetch_loop n decoder (address + 4) (trace @ [inst]))))"

definition Trace_ctor :: "nat \<Rightarrow> Decoder \<Rightarrow> (State, Trace) M" where
  "Trace_ctor fuel decoder =
     bnd getPC (\<lambda>address.
     bnd (fetch_loop fuel decoder address []) (\<lambda>is.
       ret \<lparr>trace_insts = is, exec_trace = None, exec_num = 0, is_eligible = True\<rparr>))"

definition Trace_dump :: "Trace \<Rightarrow> fault + string" where
  "Trace_dump t = foldM (\<lambda>i acc. rbind (Inst_dump i) (\<lambda>d. Inr (acc @ d))) (trace_insts t) []"

section \<open>The trace cache\<close>

definition TraceCache_refer :: "nat \<Rightarrow> Decoder \<Rightarrow> u32 \<Rightarrow> (State, nat) M" where
  "TraceCache_refer fuel decoder addr =
     bnd (\<lambda>s. case LRUCache_insert addr (Trace_ctor fuel decoder) (trace_cache s) s of
              (r, c, s') \<Rightarrow> (r, s'\<lparr>trace_cache := c\<rparr>)) (\<lambda>(node, new).
     bnd (bump_stats (\<lambda>t.
            if new then t\<lparr>trace_cache_misses := trace_cache_misses t + 1\<rparr>
            else t\<lparr>trace_cache_hits := trace_cache_hits t + 1\<rparr>)) (\<lambda>_.
       ret node))"

text \<open>The conversion \<^verbatim>\<open>%#08X\<close>: a prefix, except for 0, and zeros up to 8 characters.\<close>

definition fmt_alt_08X :: "u32 \<Rightarrow> string" where
  "fmt_alt_08X n =
     (if n = 0 then replicate 8 (CHR ''0'')
      else let ds = dropWhile (\<lambda>c. c = CHR ''0'') (hex_string 8 (unat n)) in
           ''0X'' @ replicate (6 - length ds) (CHR ''0'') @ ds)"

definition TraceCache_dump :: "Trace LRUCache \<Rightarrow> fault + string" where
  "TraceCache_dump c = foldM (\<lambda>(addr, t) acc. rbind (Trace_dump t) (\<lambda>d.
       Inr (acc @ ''Address: 0x'' @ fmt_alt_08X addr @ [CHR 0x0A] @ d)))
     (lru_abs c) (''Cached traces:'' @ [CHR 0x0A])"

text \<open>Access to the members of the trace in a node.\<close>

definition the_trace :: "nat \<Rightarrow> (State, Trace) M" where
  "the_trace node s = (LRUCache_deref (trace_cache s) node, s)"

definition set_trace :: "nat \<Rightarrow> Trace \<Rightarrow> (State, unit) M" where
  "set_trace node t = modify (\<lambda>s. s\<lparr>trace_cache := LRUCache_assign node t (trace_cache s)\<rparr>)"

section \<open>Executing a trace\<close>

text \<open>The first part of \<^verbatim>\<open>Trace::execute\<close>: translate the trace when its counter reaches the threshold.\<close>

definition try_translate :: "Options \<Rightarrow> Jit_Env \<Rightarrow> nat \<Rightarrow> (State, unit) M" where
  "try_translate opts J node =
     bnd (the_trace node) (\<lambda>t.
       if jit opts \<and> is_eligible t \<and> exec_trace t = None then
         let reached = (jit_threshold opts = exec_num t); t = t\<lparr>exec_num := exec_num t + 1\<rparr> in
         if reached then
           bnd (\<lambda>s. (Translator_getFunc (Inst_translate (isVirtualAddressing s)) (assembles J) (trace_insts t), s))
             (\<lambda>func.
               if func = None then
                 bnd (set_trace node (t\<lparr>is_eligible := False\<rparr>)) (\<lambda>_.
                   bump_stats (\<lambda>st. st\<lparr>jit_failed_translations := jit_failed_translations st + 1\<rparr>))
               else
                 bnd (set_trace node (t\<lparr>exec_trace := func\<rparr>)) (\<lambda>_.
                   bump_stats (\<lambda>st. st\<lparr>jit_finished_translations := jit_finished_translations st + 1\<rparr>)))
         else set_trace node t
       else ret ())"

text \<open>The second part; the size of the trace is read after its execution.\<close>

definition run_trace :: "Host \<Rightarrow> Jit_Env \<Rightarrow> nat \<Rightarrow> (State, unit) M" where
  "run_trace h J node =
     bnd (the_trace node) (\<lambda>t.
       case exec_trace t of
         Some code \<Rightarrow>
           bnd (run_code J code) (\<lambda>_.
             bump_stats (\<lambda>st. st\<lparr>translated_executions := translated_executions st + 1\<rparr>))
       | None \<Rightarrow>
           bnd (exec_from h 0 (trace_insts t)) (\<lambda>_.
           bnd (the_trace node) (\<lambda>t.
           bnd (modify (\<lambda>s. s\<lparr>executed_insts := executed_insts s + of_nat (length (trace_insts t))\<rparr>)) (\<lambda>_.
             bump_stats (\<lambda>st. st\<lparr>interpreted_executions := interpreted_executions st + 1\<rparr>)))))"

definition Trace_execute :: "Options \<Rightarrow> Host \<Rightarrow> Jit_Env \<Rightarrow> nat \<Rightarrow> (State, unit) M" where
  "Trace_execute opts h J node = bnd (try_translate opts J node) (\<lambda>_. run_trace h J node)"

section \<open>The simulator\<close>

text \<open>The constructor of \<^verbatim>\<open>Sim\<close>: the decoder, then the state.\<close>

definition Sim_ctor :: "u32 list list \<Rightarrow> u32 list \<Rightarrow> u32 \<Rightarrow> (State, Decoder) M" where
  "Sim_ctor commands seg_va start =
     bnd (lift Decoder_ctor) (\<lambda>decoder. bnd (State_ctor commands seg_va start) (\<lambda>_. ret decoder))"

definition Sim_step :: "Options \<Rightarrow> Host \<Rightarrow> Jit_Env \<Rightarrow> nat \<Rightarrow> Decoder \<Rightarrow> (State, unit) M" where
  "Sim_step opts h J fuel decoder =
     bnd getPC (\<lambda>p. bnd (TraceCache_refer fuel decoder p) (\<lambda>node. Trace_execute opts h J node))"

text \<open>The loop of \<^verbatim>\<open>Sim::execute\<close>, at most \<open>n\<close> times.\<close>

fun Sim_loop :: "nat \<Rightarrow> (State, unit) M \<Rightarrow> u64 \<Rightarrow> (State, unit) M" where
  "Sim_loop 0 step limit = raise (OutOfFuel ExecuteLoop)"
| "Sim_loop (Suc n) step limit =
     bnd step (\<lambda>_.
     bnd (gets executed_insts) (\<lambda>e.
       if limit \<noteq> 0 \<and> e \<ge> limit then ret () else Sim_loop n step limit))"

text \<open>\<^verbatim>\<open>catch (SimException &e)\<close>: the message goes to the log; every other fault passes.\<close>

definition catch_sim :: "(State, unit) M \<Rightarrow> (State, unit) M" where
  "catch_sim m s = (case m s of
      (Inl (Throw msg), s') \<Rightarrow> print_log (msg @ [CHR 0x0A]) s'
    | (r, s') \<Rightarrow> (r, s'))"

definition Sim_execute :: "nat \<Rightarrow> Options \<Rightarrow> Host \<Rightarrow> Jit_Env \<Rightarrow> nat \<Rightarrow> Decoder \<Rightarrow> (State, unit) M" where
  "Sim_execute n opts h J fuel decoder =
     bnd (catch_sim (Sim_loop n (Sim_step opts h J fuel decoder) (max_insts opts))) (\<lambda>_.
     bnd (gets State_dump) (\<lambda>d.
     bnd (print_log (d @ ''Some statistics:'' @ [CHR 0x0A])) (\<lambda>_.
     bnd (gets executed_insts) (\<lambda>e.
     bnd (print_log (time_line J e)) (\<lambda>_.
     bnd (gets stats) (\<lambda>st. print_log (PrintStatistics st)))))))"

end
