(* ===== verification/Simulator_Correct.thy ===== *)
theory Simulator_Correct
  imports Simulator Exec_Safe Decoder_Correct
begin

text \<open>
  The simulator as a whole, with the interpreter: what the trace cache holds, how a trace is
  fetched and executed, and that the main loop ends. \<open>sim_inv\<close> is the invariant between two
  rounds of the main loop; the locale \<open>executor\<close> says what the main loop asks of a round.
\<close>

section \<open>Fetching\<close>

definition trace_ok :: "nat \<Rightarrow> Trace \<Rightarrow> bool" where
  "trace_ok fuel t \<longleftrightarrow> trace_shape (trace_insts t) \<and> length (trace_insts t) \<le> fuel \<and>
     (\<forall>i \<in> set (trace_insts t). legal_inst i \<and> wf_inst i)"

lemma fetch_loop_insts:
  assumes "fetch_loop n riscv_decoder address tr s = (Inr is, s')"
    and "\<forall>i \<in> set tr. legal_inst i \<and> wf_inst i \<and> \<not> terminator (inst_cmd i)"
  shows "\<exists>rest. is = tr @ rest \<and> trace_shape rest \<and> length rest \<le> n \<and>
    (\<forall>i \<in> set rest. legal_inst i \<and> wf_inst i)"
  using assms
proof (induction n arbitrary: address tr s)
  case 0
  then show ?case by simp
next
  case (Suc n)
  obtain w t i where g: "getCmd address s = (Inr w, t)" and d: "decode riscv_decoder w = Inr i"
    using Suc.prems(1) by (auto simp: bnd_def split: prod.splits sum.splits)
  have i: "legal_inst i" "wf_inst i" using d by (auto dest: decode_sound simp: legal_inst_def)
  then have stop: "isTerminator i = Inr (terminator (inst_cmd i))"
    by (simp add: isTerminator_eq wf_inst_cmd)
  show ?case
  proof (cases "terminator (inst_cmd i)")
    case True
    then have "is = tr @ [i]" using Suc.prems(1) g d stop by (simp add: bnd_Inr)
    with True i show ?thesis by (intro exI [of _ "[i]"]) (simp add: trace_shape_def)
  next
    case False
    then have "fetch_loop n riscv_decoder (address + 4) (tr @ [i]) t = (Inr is, s')"
      using Suc.prems(1) g d stop by (simp add: bnd_Inr)
    from Suc.IH [OF this] Suc.prems(2) i False obtain rest where
      "is = (tr @ [i]) @ rest" "trace_shape rest" "length rest \<le> n" "\<forall>i \<in> set rest. legal_inst i \<and> wf_inst i"
      by auto
    with i False show ?thesis
      by (intro exI [of _ "i # rest"]) (auto simp: trace_shape_Cons)
  qed
qed

lemma Trace_ctor_ok:
  assumes "Trace_ctor fuel riscv_decoder s = (Inr t, s')"
  shows "trace_ok fuel t" "exec_trace t = None"
proof -
  obtain "is" where "fetch_loop fuel riscv_decoder (pc s) [] s = (Inr is, s')"
    "t = \<lparr>trace_insts = is, exec_trace = None, exec_num = 0, is_eligible = True\<rparr>"
    using assms by (auto simp: Trace_ctor_def bnd_def split: prod.splits sum.splits)
  with fetch_loop_insts [of fuel "pc s" "[]" s "is" s'] show "trace_ok fuel t" "exec_trace t = None"
    by (auto simp: trace_ok_def)
qed

text \<open>Fetching changes only what the MMU changes, and faults only by an exception or for want of fuel.\<close>

lemma fetch_loop_frame: "frames mmu_step (fetch_loop n d address tr)"
proof (induction n arbitrary: address tr)
  case 0
  show ?case unfolding fetch_loop.simps by (rule mmu.frames_raise)
next
  case (Suc n)
  show ?case unfolding fetch_loop.simps by (intro mmu.frames_rules getCmd_frame Suc.IH)
qed

lemma Trace_ctor_frame: "frames mmu_step (Trace_ctor fuel d)"
  unfolding Trace_ctor_def getPC_def by (intro mmu.frames_rules fetch_loop_frame)

definition fetch_fault :: "fault \<Rightarrow> bool" where
  "fetch_fault e \<longleftrightarrow> is_exception e \<or> e = OutOfFuel FetchLoop"

lemma fetch_loop_valid:
  "valid exec_inv (fetch_loop n riscv_decoder address tr) (\<lambda>_. exec_inv) (\<lambda>e _. fetch_fault e)"
proof (induction n arbitrary: address tr)
  case 0
  show ?case unfolding fetch_loop.simps by (rule valid_raise) (simp add: fetch_fault_def)
next
  case (Suc n)
  have g: "valid exec_inv (getCmd address) (\<lambda>_. exec_inv) (\<lambda>e _. fetch_fault e)"
    using getCmd_safe [of address] unfolding safe_def by (rule valid_weaken) (simp_all add: fetch_fault_def)
  have "valid exec_inv (bnd (lift (decode riscv_decoder w)) (\<lambda>inst. bnd (lift (isTerminator inst)) (\<lambda>stop.
      if stop then ret (tr @ [inst]) else fetch_loop n riscv_decoder (address + 4) (tr @ [inst]))))
      (\<lambda>_. exec_inv) (\<lambda>e _. fetch_fault e)" for w
  proof (cases rule: decode_cases [of w])
    case (inst i)
    then show ?thesis
      using Suc.IH [of "address + 4" "tr @ [i]"]
      by (simp add: isTerminator_eq wf_inst_cmd valid_def)
  next
    case (illegal msg)
    then show ?thesis by (simp add: valid_def fetch_fault_def)
  qed
  then show ?case unfolding fetch_loop.simps by (intro valid_bnd [OF g])
qed

lemma Trace_ctor_valid:
  "valid exec_inv (Trace_ctor fuel riscv_decoder) (\<lambda>_. exec_inv) (\<lambda>e _. fetch_fault e)"
proof (rule validI)
  fix s t s' assume "exec_inv s" "Trace_ctor fuel riscv_decoder s = (Inr t, s')"
  then show "exec_inv s'"
    using validD(1) [OF fetch_loop_valid [of fuel "pc s" "[]"]]
    by (auto simp: Trace_ctor_def bnd_def split: prod.splits sum.splits)
next
  fix s e s' assume "exec_inv s" "Trace_ctor fuel riscv_decoder s = (Inl e, s')"
  then show "fetch_fault e"
    using validD(2) [OF fetch_loop_valid [of fuel "pc s" "[]"]]
    by (auto simp: Trace_ctor_def bnd_def split: prod.splits sum.splits)
qed

section \<open>Enough fuel for fetching\<close>

text \<open>
  Without address translation a fetch ends, with a terminator or with an exception, when the
  address leaves the memory: one iteration per word of memory, and one more, is enough.
\<close>

lemma bare_getCmd:
  assumes "\<not> isVirtualAddressing s"
  shows "getCmd a s = (if unat a + 4 < unat (pmem_size s) then Inr (peek32 (unat a) s)
    else Inl (Throw ''Address is out of memory''), s)"
  using bare_load [OF assms, of 4 a True] by (simp add: getCmd_def bnd_def peek32_def)

lemma fetch_loop_enough:
  assumes "\<not> isVirtualAddressing s" "unat (pmem_size s) \<le> 2 ^ 32"
    and "unat (pmem_size s) \<le> unat address + 4 * n" "0 < n"
  shows "fst (fetch_loop n riscv_decoder address tr s) \<noteq> Inl (OutOfFuel FetchLoop)"
  using assms
proof (induction n arbitrary: address tr)
  case 0
  then show ?case by simp
next
  case (Suc n)
  show ?case
  proof (cases "unat address + 4 < unat (pmem_size s)")
    case False
    then show ?thesis using bare_getCmd [OF Suc.prems(1), of address] by (simp add: bnd_def)
  next
    case True
    have next_addr: "unat (address + 4) = unat address + 4"
      using True Suc.prems(2) by (simp add: unat_word_ariths)
    then have "0 < n" using True Suc.prems(3) by (cases n) auto
    with Suc.IH [of "address + 4"] next_addr Suc.prems
    have IH: "fst (fetch_loop n riscv_decoder (address + 4) tr' s) \<noteq> Inl (OutOfFuel FetchLoop)" for tr'
      by simp
    show ?thesis
    proof (cases rule: decode_cases [of "peek32 (unat address) s"])
      case (inst i)
      then show ?thesis
        using IH bare_getCmd [OF Suc.prems(1), of address] True
        by (simp add: bnd_Inr isTerminator_eq wf_inst_cmd)
    next
      case (illegal msg)
      then show ?thesis
        using bare_getCmd [OF Suc.prems(1), of address] True by (simp add: bnd_Inr)
    qed
  qed
qed

section \<open>The invariant of the main loop\<close>

definition sim_inv :: "nat \<Rightarrow> State \<Rightarrow> bool" where
  "sim_inv fuel s \<longleftrightarrow> exec_inv s \<and> lru_ok (trace_cache s) \<and>
     (\<forall>(addr, t) \<in> set (lru_abs (trace_cache s)). trace_ok fuel t \<and> exec_trace t = None)"

lemma exec_inv_mmu_step: "mmu_step s s' \<Longrightarrow> exec_inv s \<Longrightarrow> mmu_ok s' \<Longrightarrow> exec_inv s'"
  by (simp add: exec_inv_def regs_ok_def mmu_step_machine)

lemma refer_ok:
  assumes inv: "sim_inv fuel s" and eq: "TraceCache_refer fuel riscv_decoder p s = (Inr node, s')"
  obtains t where "sim_inv fuel s'" "LRUCache_deref (trace_cache s') node = Inr t" "trace_ok fuel t"
    "exec_trace t = None" "executed_insts s' = executed_insts s" "pc s' = pc s" "regs s' = regs s"
proof -
  let ?P = "\<lambda>addr t. trace_ok fuel t \<and> exec_trace t = None"
  obtain new c s1 where ins: "LRUCache_insert p (Trace_ctor fuel riscv_decoder) (trace_cache s) s = (Inr (node, new), c, s1)"
    and s': "\<exists>st. s' = s1\<lparr>trace_cache := c, stats := st\<rparr>"
    using eq by (auto simp: TraceCache_refer_def bnd_def bump_stats_def split: prod.splits sum.splits)
  have ok: "lru_ok (trace_cache s)" and vals: "(k, t) \<in> set (lru_abs (trace_cache s)) \<Longrightarrow> ?P k t" for k t
    using inv by (auto simp: sim_inv_def)
  have mk: "Trace_ctor fuel riscv_decoder s = (Inr v, t) \<Longrightarrow> ?P p v" for v t
    using Trace_ctor_ok by blast
  note kept = lru.values_kept [where P = ?P, OF ok _ _ ins]
  have k1: "lru_ok c" by (rule kept(1)) (use vals mk in auto)
  have k2: "?P k t" if "(k, t) \<in> set (lru_abs c)" for k t by (rule kept(2)) (use vals mk that in auto)
  have k3: "\<exists>v. LRUCache_deref c node = Inr v \<and> ?P p v" by (rule kept(4)) (use vals mk in auto)
  have "mmu_step s s1"
    using LRUCache_insert_frame [where R = mmu_step, OF _ _ ins] framesD [OF Trace_ctor_frame] by blast
  note same = mmu_step_machine [OF this]
  have "exec_inv s1"
    using ok
  proof (cases rule: lru.insert_cases [where k = p and mk = "Trace_ctor fuel riscv_decoder" and s = s])
    case (hit r c' v)
    with ins inv show ?thesis by (simp add: sim_inv_def)
  next
    case (miss r c' v t)
    with ins inv validD(1) [OF Trace_ctor_valid] show ?thesis by (auto simp: sim_inv_def)
  qed (use ins in simp_all)
  moreover obtain t where t: "LRUCache_deref c node = Inr t" "?P p t" using k3 by auto
  ultimately have "sim_inv fuel s'" "LRUCache_deref (trace_cache s') node = Inr t"
    using s' k1 k2 by (auto simp: sim_inv_def exec_inv_def)
  with t s' same show thesis by (auto intro: that)
qed

lemma refer_fault:
  assumes inv: "sim_inv fuel s" and eq: "TraceCache_refer fuel riscv_decoder p s = (Inl e, s')"
  shows "fetch_fault e"
proof -
  have ok: "lru_ok (trace_cache s)" and ex: "exec_inv s" using inv by (auto simp: sim_inv_def)
  from ok show ?thesis
  proof (cases rule: lru.insert_cases [where k = p and mk = "Trace_ctor fuel riscv_decoder" and s = s])
    case (hit r c v)
    with eq show ?thesis by (simp add: TraceCache_refer_def bnd_def bump_stats_def)
  next
    case (miss r c v t)
    with eq show ?thesis by (simp add: TraceCache_refer_def bnd_def bump_stats_def)
  next
    case (fail e' c t)
    with eq have "e' = e" by (simp add: TraceCache_refer_def bnd_def)
    with validD(2) [OF Trace_ctor_valid ex] fail show ?thesis by blast
  next
    case (overfull c v t)
    with eq have "e = overflow" by (simp add: TraceCache_refer_def bnd_def)
    then show ?thesis by (simp add: fetch_fault_def)
  qed
qed

section \<open>Executing a trace\<close>

lemma exec_from_outcome:
  assumes "trace_shape is" "\<And>i. i \<in> set is \<Longrightarrow> wf_inst i" "host_ok h" "exec_from h idx is s = (Inr u, s')"
  shows "executed_insts s' = executed_insts s \<and> trace_cache s' =
    (if inst_cmd (last is) = Cmd_FENCE then LRUCache_clear (trace_cache s) else trace_cache s)"
  using assms
proof (induction "is" arbitrary: idx s)
  case Nil
  then show ?case by (simp add: trace_shape_def)
next
  case (Cons i "is")
  have wf: "wf_inst i" using Cons.prems(2) by simp
  note y = Inst_exec_yields [OF wf, of h idx]
  obtain f t where e: "Inst_exec h i idx s = (Inr f, t)"
    and rest: "(case f of NextInst \<Rightarrow> exec_from h (Suc idx) is | EndTrace \<Rightarrow> ret ()) t = (Inr u, s')"
    using Cons.prems(4) by (auto simp: bnd_def split: prod.splits sum.splits)
  have f: "f = (if terminator (inst_cmd i) then EndTrace else NextInst)" using yieldsD [OF y e] .
  show ?case
  proof (cases "inst_cmd i = Cmd_FENCE")
    case True
    then have "is = []" "f = EndTrace" using Cons.prems(1) f by (auto simp: trace_shape_Cons terminator_def)
    with True e rest exec_fence [OF wf True, of h idx s] show ?thesis by auto
  next
    case False
    then have t: "executed_insts t = executed_insts s" "trace_cache t = trace_cache s"
      using framesD [OF Inst_exec_frame [OF wf Cons.prems(3) False] e] by (auto simp: exec_step_def)
    show ?thesis
    proof (cases "terminator (inst_cmd i)")
      case True
      then have "is = []" using Cons.prems(1) by (simp add: trace_shape_Cons)
      with True f rest t False show ?thesis by simp
    next
      case nt: False
      then have "trace_shape is" using Cons.prems(1) by (simp add: trace_shape_Cons)
      moreover from this have "is \<noteq> []" by (simp add: trace_shape_def)
      moreover have "exec_from h (Suc idx) is t = (Inr u, s')" using rest f nt by simp
      ultimately show ?thesis using Cons.IH [of "Suc idx" t] Cons.prems(2,3) t by simp
    qed
  qed
qed

lemma deref_clear: "LRUCache_deref (LRUCache_clear c) n = Inl (Undefined UseAfterFree)"
  by (simp add: LRUCache_deref_def LRUCache_clear_def)

text \<open>The faults of a round: an exception, no fuel to fetch, or a trace that ends with \<^verbatim>\<open>FENCE\<close>.\<close>

definition round_fault :: "fault \<Rightarrow> bool" where
  "round_fault e \<longleftrightarrow> fetch_fault e \<or> e = Undefined UseAfterFree"

lemma run_trace_result:
  assumes "sim_inv fuel s" "host_ok h" "LRUCache_deref (trace_cache s) node = Inr t" "trace_ok fuel t"
    "exec_trace t = None"
  shows "case run_trace h J node s of
      (Inl e, s') \<Rightarrow> is_exception e \<or> (e = Undefined UseAfterFree \<and> inst_cmd (last (trace_insts t)) = Cmd_FENCE)
    | (Inr u, s') \<Rightarrow> sim_inv fuel s' \<and> inst_cmd (last (trace_insts t)) \<noteq> Cmd_FENCE \<and>
        executed_insts s' = executed_insts s + of_nat (length (trace_insts t))"
proof -
  let ?is = "trace_insts t"
  have shape: "trace_shape ?is" and wf: "\<And>i. i \<in> set ?is \<Longrightarrow> wf_inst i"
    using assms(4) by (auto simp: trace_ok_def)
  note safe = exec_from_safe [OF shape wf assms(2), of 0]
  have inv: "exec_inv s" using assms(1) by (simp add: sim_inv_def)
  obtain r s1 where ex: "exec_from h 0 ?is s = (r, s1)" by (cases "exec_from h 0 ?is s")
  have run: "run_trace h J node s = (case (r, s1) of (Inl e, s') \<Rightarrow> (Inl e, s') | (Inr u, s') \<Rightarrow>
      (bnd (the_trace node) (\<lambda>t.
         bnd (modify (\<lambda>s. s\<lparr>executed_insts := executed_insts s + of_nat (length (trace_insts t))\<rparr>)) (\<lambda>_.
           bump_stats (\<lambda>st. st\<lparr>interpreted_executions := interpreted_executions st + 1\<rparr>)))) s')"
    using assms(3,5) ex by (simp add: run_trace_def bnd_def [of "the_trace node"] the_trace_def bnd_def [of "exec_from h 0 ?is"])
  show ?thesis
  proof (cases r)
    case (Inl e)
    with run safeD(2) [OF safe inv] ex show ?thesis by simp
  next
    case (Inr u)
    note out = exec_from_outcome [OF shape wf assms(2), of 0 s u s1]
    have inv1: "exec_inv s1" using safeD(1) [OF safe inv] ex Inr by simp
    show ?thesis
    proof (cases "inst_cmd (last ?is) = Cmd_FENCE")
      case True
      then have "LRUCache_deref (trace_cache s1) node = Inl (Undefined UseAfterFree)"
        using out ex Inr by (simp add: deref_clear)
      with run Inr True show ?thesis by (simp add: bnd_def the_trace_def)
    next
      case False
      then have same: "trace_cache s1 = trace_cache s" "executed_insts s1 = executed_insts s"
        using out ex Inr by simp_all
      with run Inr False assms(1,3) inv1 show ?thesis
        by (simp add: bnd_def the_trace_def bump_stats_def sim_inv_def exec_inv_def)
    qed
  qed
qed

lemma try_translate_off: "\<not> jit opts \<Longrightarrow> LRUCache_deref (trace_cache s) node = Inr t \<Longrightarrow> try_translate opts J node s = (Inr (), s)"
  by (simp add: try_translate_def bnd_def the_trace_def)

lemma Sim_step_result:
  assumes "sim_inv fuel s" "host_ok h" "\<not> jit opts"
  shows "case Sim_step opts h J fuel riscv_decoder s of
      (Inl e, s') \<Rightarrow> round_fault e
    | (Inr u, s') \<Rightarrow> sim_inv fuel s' \<and>
        (\<exists>n. 0 < n \<and> n \<le> fuel \<and> executed_insts s' = executed_insts s + of_nat n)"
proof -
  obtain r s1 where refer: "TraceCache_refer fuel riscv_decoder (pc s) s = (r, s1)"
    by (cases "TraceCache_refer fuel riscv_decoder (pc s) s")
  show ?thesis
  proof (cases r)
    case (Inl e)
    with refer refer_fault [OF assms(1)] show ?thesis
      by (simp add: Sim_step_def bnd_Inl bnd_Inr round_fault_def)
  next
    case (Inr node)
    from refer_ok [OF assms(1) refer [unfolded Inr]] obtain t where t: "sim_inv fuel s1"
      "LRUCache_deref (trace_cache s1) node = Inr t" "trace_ok fuel t" "exec_trace t = None"
      "executed_insts s1 = executed_insts s" by metis
    have step: "Sim_step opts h J fuel riscv_decoder s = run_trace h J node s1"
      using refer Inr try_translate_off [OF assms(3) t(2)]
      by (simp add: Sim_step_def bnd_Inr Trace_execute_def)
    have "0 < length (trace_insts t)" "length (trace_insts t) \<le> fuel"
      using t(3) by (auto simp: trace_ok_def trace_shape_def)
    then show ?thesis
      unfolding step using run_trace_result [OF t(1) assms(2) t(2-4), of J] t(5)
      by (auto simp: round_fault_def fetch_fault_def split: prod.splits sum.splits)
  qed
qed

section \<open>The main loop\<close>

text \<open>
  What the main loop asks of a round: it keeps an invariant, it fails with one of the expected
  faults only, and it increases the counter of executed instructions while that is below the limit.
\<close>

locale executor =
  fixes step :: "(State, unit) M"
    and invar :: "State \<Rightarrow> bool"
    and expected :: "fault \<Rightarrow> bool"
    and limit :: u64
  assumes step_progress: "\<lbrakk>invar s; executed_insts s < limit; step s = (Inr (), s')\<rbrakk> \<Longrightarrow>
      invar s' \<and> executed_insts s < executed_insts s'"
    and step_fault: "\<lbrakk>invar s; executed_insts s < limit; step s = (Inl e, s')\<rbrakk> \<Longrightarrow> expected e"
begin

lemma loop_ends:
  "\<lbrakk>invar s; executed_insts s < limit; unat limit - unat (executed_insts s) \<le> n\<rbrakk> \<Longrightarrow>
    case Sim_loop n step limit s of
      (Inl e, s') \<Rightarrow> expected e
    | (Inr u, s') \<Rightarrow> invar s' \<and> limit \<le> executed_insts s'"
proof (induction n arbitrary: s)
  case 0
  then show ?case by (simp add: word_less_nat_alt)
next
  case (Suc n)
  obtain r s1 where st: "step s = (r, s1)" by (cases "step s")
  show ?case
  proof (cases r)
    case (Inl e)
    with st step_fault Suc.prems show ?thesis by (simp add: bnd_Inl)
  next
    case (Inr u)
    with st have "step s = (Inr (), s1)" by simp
    with step_progress Suc.prems have k: "invar s1" "executed_insts s < executed_insts s1" by blast+
    have pos: "limit \<noteq> 0" using Suc.prems(2) by auto
    show ?thesis
    proof (cases "limit \<le> executed_insts s1")
      case True
      with st Inr k pos show ?thesis by (simp add: bnd_Inr)
    next
      case False
      then have "unat limit - unat (executed_insts s1) \<le> n"
        using k(2) Suc.prems(3) by (simp add: word_less_nat_alt word_le_nat_alt)
      with Suc.IH [OF k(1)] False st Inr show ?thesis by (auto simp: bnd_Inr)
    qed
  qed
qed

end

definition round_inv :: "Options \<Rightarrow> Host \<Rightarrow> nat \<Rightarrow> State \<Rightarrow> bool" where
  "round_inv opts h fuel s \<longleftrightarrow>
     \<not> jit opts \<and> host_ok h \<and> unat (max_insts opts) + fuel < 2 ^ 64 \<and> sim_inv fuel s"

lemma round_progress:
  assumes "round_inv opts h fuel s" "executed_insts s < max_insts opts"
    "Sim_step opts h J fuel riscv_decoder s = (Inr (), s')"
  shows "round_inv opts h fuel s' \<and> executed_insts s < executed_insts s'"
proof -
  have r: "sim_inv fuel s" "host_ok h" "\<not> jit opts" "unat (max_insts opts) + fuel < 2 ^ 64"
    using assms(1) by (auto simp: round_inv_def)
  from Sim_step_result [OF r(1-3), of J] assms(3) obtain n where
    n: "sim_inv fuel s'" "0 < n" "n \<le> fuel" "executed_insts s' = executed_insts s + of_nat n"
    by auto
  have "unat (executed_insts s + of_nat n) = unat (executed_insts s) + n"
    using n(3) r(4) assms(2) by (simp add: unat_word_ariths unat_of_nat word_less_nat_alt)
  with n r show ?thesis by (simp add: round_inv_def word_less_nat_alt)
qed

lemma round_fails:
  assumes "round_inv opts h fuel s" "Sim_step opts h J fuel riscv_decoder s = (Inl e, s')"
  shows "round_fault e"
  using assms Sim_step_result [of fuel s h opts J] by (auto simp: round_inv_def)

interpretation sim: executor "Sim_step opts h J fuel riscv_decoder" "round_inv opts h fuel" round_fault "max_insts opts"
  for opts h J fuel
  by unfold_locales (use round_progress round_fails in blast)+

lemma Sim_execute_result:
  assumes "round_inv opts h fuel s" "executed_insts s < max_insts opts"
    and "unat (max_insts opts) - unat (executed_insts s) \<le> n"
    and "Sim_execute n opts h J fuel riscv_decoder s = (Inl e, s')"
  shows "e = overflow \<or> e = OutOfFuel FetchLoop \<or> e = Undefined UseAfterFree"
proof -
  let ?loop = "Sim_loop n (Sim_step opts h J fuel riscv_decoder) (max_insts opts)"
  obtain r s1 where l: "?loop s = (r, s1)" by (cases "?loop s")
  have c: "fst (catch_sim ?loop s) = Inl e"
    using assms(4)
    by (auto simp: Sim_execute_def bnd_def print_log_def split: prod.splits sum.splits)
  then obtain e' where r: "r = Inl e'"
    using l by (cases r) (auto simp: catch_sim_def)
  have "round_fault e'" using sim.loop_ends [OF assms(1-3), of J] l r by simp
  moreover have "\<not> is_Throw e' \<and> e' = e"
    using c l r by (cases e') (auto simp: catch_sim_def print_log_def)
  ultimately show ?thesis by (auto simp: round_fault_def fetch_fault_def is_exception_def)
qed

section \<open>Start-up\<close>

lemma static_state_simps:
  "pmem_size (static_state opts g input) = mem_pages opts * ucast pagesize"
  "trace_cache (static_state opts g input) = LRUCache_ctor (cache_size opts)"
  "instTLB (static_state opts g input) = LRUCache_ctor (itlb_size opts)"
  "dataTLB (static_state opts g input) = LRUCache_ctor (dtlb_size opts)"
  "satp (static_state opts g input) = 0x17"
  by (simp_all add: static_state_def MMU_ctor_def MMU_State.defs)

text \<open>The states that \<^verbatim>\<open>main\<close> can start from: what matters of the state of the statics.\<close>

definition fresh :: "Options \<Rightarrow> State \<Rightarrow> bool" where
  "fresh opts s \<longleftrightarrow> pmem_size s = mem_pages opts * ucast pagesize \<and> satp s = 0x17 \<and>
     trace_cache s = LRUCache_ctor (cache_size opts) \<and> instTLB s = LRUCache_ctor (itlb_size opts) \<and>
     dataTLB s = LRUCache_ctor (dtlb_size opts)"

lemma fresh_static: "fresh opts (static_state opts g input)"
  by (simp add: fresh_def static_state_simps)

text \<open>Loading changes bytes inside the memory only.\<close>

definition load_step :: "State \<Rightarrow> State \<Rightarrow> bool" where
  "load_step s s' \<longleftrightarrow> (\<exists>m. s' = s\<lparr>pmem := m\<rparr>)"

interpretation load: step_relation load_step
proof
  show "load_step s s" for s unfolding load_step_def by (intro exI [of _ "pmem s"]) simp
  show "load_step s u" if "load_step s t" "load_step t u" for s t u
    using that unfolding load_step_def by fastforce
qed

lemma load_segments_frame: "frames load_step (load_segments i cmds vas)"
proof (induction vas arbitrary: i)
  case Nil
  show ?case unfolding load_segments.simps by (rule load.frames_ret)
next
  case (Cons va vas)
  have "frames load_step (getMemPtr sz pa)" for sz pa
    by (simp add: frames_def getMemPtr_def load.rel_refl)
  moreover have "frames load_step (poke p bs)" for p bs
    using load.rel_refl by (auto simp: frames_def poke_def) (auto simp: load_step_def)
  ultimately show ?case
    unfolding load_segments.simps by (intro load.frames_rules Cons.IH)
qed

lemma load_segments_throws:
  "length vas + i \<le> length cmds \<Longrightarrow> load_segments i cmds vas s = (Inl e, s') \<Longrightarrow>
    is_Throw e \<or> e = Undefined OutOfBounds"
proof (induction vas arbitrary: i s)
  case Nil
  then show ?case by simp
next
  case (Cons va vas)
  show ?case
    using Cons.prems Cons.IH [of "Suc i"]
    by (cases rule: getMemPtr_cases [where sz = 1 and pa = va and s = s])
      (auto simp: bnd_def poke_def split: if_splits)
qed

lemma State_ctor_ok:
  assumes "State_ctor cmds vas start s0 = (Inr (), s)" "fresh opts s0"
    and "0 < cache_size opts" "0 < itlb_size opts" "0 < dtlb_size opts"
  shows "sim_inv fuel s" "executed_insts s = 0" "pc s = start" "\<not> isVirtualAddressing s"
    "pmem_size s = mem_pages opts * ucast pagesize"
proof -
  let ?s0 = "s0\<lparr>pc := start, executed_insts := 0, regs := replicate 32 0\<rparr>"
  obtain v where ld: "load_segments 0 cmds vas (set_reg 2 v ?s0) = (Inr (), s)"
    using assms(1) by (simp add: State_ctor_def bnd_Inr)
  then obtain m where "s = (set_reg 2 v ?s0)\<lparr>pmem := m\<rparr>"
    using framesD [OF load_segments_frame ld] by (auto simp: load_step_def)
  then show "sim_inv fuel s" "executed_insts s = 0" "pc s = start" "\<not> isVirtualAddressing s"
    "pmem_size s = mem_pages opts * ucast pagesize"
    using assms(2-5)
    by (simp_all add: sim_inv_def exec_inv_def regs_ok_def mmu_ok_def fresh_def isVirtualAddressing_def set_reg_def)
qed

section \<open>What is fetched\<close>

lemma fetch_loop_memory:
  assumes "\<not> isVirtualAddressing s" "unat (pmem_size s) \<le> 2 ^ 32"
    and "fetch_loop n riscv_decoder address tr s = (Inr is, s')"
  shows "s' = s \<and> (\<exists>rest. is = tr @ rest \<and> (\<forall>k < length rest.
      unat address + 4 * k + 4 < unat (pmem_size s) \<and>
      decode riscv_decoder (peek32 (unat address + 4 * k) s) = Inr (rest ! k)))"
  using assms(3)
proof (induction n arbitrary: address tr)
  case 0
  then show ?case by simp
next
  case (Suc n)
  have inside: "unat address + 4 < unat (pmem_size s)"
    using Suc.prems bare_getCmd [OF assms(1), of address] by (auto simp: bnd_def split: if_splits)
  then have g: "getCmd address s = (Inr (peek32 (unat address) s), s)"
    using bare_getCmd [OF assms(1), of address] by simp
  obtain i where d: "decode riscv_decoder (peek32 (unat address) s) = Inr i"
    using Suc.prems g by (auto simp: bnd_def split: prod.splits sum.splits)
  have stop: "isTerminator i = Inr (terminator (inst_cmd i))"
    using decode_sound [OF d] by (simp add: isTerminator_eq wf_inst_cmd legal_inst_def)
  show ?case
  proof (cases "terminator (inst_cmd i)")
    case True
    then show ?thesis
      using Suc.prems g d stop inside by (simp add: bnd_Inr) (auto intro!: exI [of _ "[i]"])
  next
    case False
    have na: "unat (address + 4) = unat address + 4"
      using inside assms(2) by (simp add: unat_word_ariths)
    have "fetch_loop n riscv_decoder (address + 4) (tr @ [i]) s = (Inr is, s')"
      using Suc.prems g d stop False by (simp add: bnd_Inr)
    from Suc.IH [OF this] obtain rest where r: "s' = s" "is = (tr @ [i]) @ rest"
      and k: "\<And>k. k < length rest \<Longrightarrow> unat address + 4 + 4 * k + 4 < unat (pmem_size s) \<and>
        decode riscv_decoder (peek32 (unat address + 4 + 4 * k) s) = Inr (rest ! k)"
      unfolding na by auto
    have "unat address + 4 * k + 4 < unat (pmem_size s) \<and>
        decode riscv_decoder (peek32 (unat address + 4 * k) s) = Inr ((i # rest) ! k)"
      if "k < length (i # rest)" for k
      using that d inside k [of "k - 1"] by (cases k) (auto simp: algebra_simps)
    with r show ?thesis by auto
  qed
qed

lemma Trace_ctor_memory:
  assumes "\<not> isVirtualAddressing s" "unat (pmem_size s) \<le> 2 ^ 32"
    and "Trace_ctor fuel riscv_decoder s = (Inr t, s')"
  shows "s' = s" "trace_ok fuel t" "k < length (trace_insts t) \<Longrightarrow>
      unat (pc s) + 4 * k + 4 < unat (pmem_size s) \<and> encode (trace_insts t ! k) = peek32 (unat (pc s) + 4 * k) s"
proof -
  obtain "is" where "fetch_loop fuel riscv_decoder (pc s) [] s = (Inr is, s')" "trace_insts t = is"
    using assms(3) by (auto simp: Trace_ctor_def bnd_def split: prod.splits sum.splits)
  with fetch_loop_memory [OF assms(1,2) this(1)] show "s' = s" "k < length (trace_insts t) \<Longrightarrow>
      unat (pc s) + 4 * k + 4 < unat (pmem_size s) \<and> encode (trace_insts t ! k) = peek32 (unat (pc s) + 4 * k) s"
    by (auto dest: decode_sound)
  show "trace_ok fuel t" using Trace_ctor_ok [OF assms(3)] by simp
qed

lemma Trace_ctor_enough:
  assumes "\<not> isVirtualAddressing s" "unat (pmem_size s) \<le> 2 ^ 32" "unat (pmem_size s) \<le> 4 * fuel" "0 < fuel"
  shows "fst (Trace_ctor fuel riscv_decoder s) \<noteq> Inl (OutOfFuel FetchLoop)"
  using fetch_loop_enough [of s "pc s" fuel "[]"] assms
  by (auto simp: Trace_ctor_def bnd_def split: prod.splits sum.splits)

section \<open>The properties\<close>

text \<open>C19: Without address translation the fetch loop ends: as many iterations as the memory has
  words are enough for it to reach a terminator or to leave the memory.\<close>

theorem fetch_terminates:
  assumes "\<not> isVirtualAddressing s" and "unat (pmem_size s) \<le> 2 ^ 32"
    and "unat (pmem_size s) \<le> 4 * fuel" and "0 < fuel"
  shows "fst (Trace_ctor fuel riscv_decoder s) \<noteq> Inl (OutOfFuel FetchLoop)"
  using assms by (rule Trace_ctor_enough)

theorem fetch_terminates_witness:
  "fst (Trace_ctor 131072 riscv_decoder demo_state) \<noteq> Inl (OutOfFuel FetchLoop)"
proof (rule fetch_terminates)
  have "unat (pmem_size demo_state) = 524288"
    by (simp add: demo_state_def static_state_simps default_options_def pagesize_def)
  then show "unat (pmem_size demo_state) \<le> 2 ^ 32" "unat (pmem_size demo_state) \<le> 4 * 131072" by simp_all
qed (simp_all add: demo_state_ok)

text \<open>C10: A trace is what the memory holds: without address translation, instruction \<open>k\<close> of a fetched
  trace is the legal instruction that the word at \<open>pc + 4 * k\<close> encodes, the last one is the first
  that ends a trace, and fetching changes nothing.\<close>

theorem fetch_reads_memory:
  assumes "\<not> isVirtualAddressing s" and "unat (pmem_size s) \<le> 2 ^ 32"
    and "Trace_ctor fuel riscv_decoder s = (Inr t, s')"
  shows "s' = s \<and> trace_shape (trace_insts t) \<and>
    (\<forall>k < length (trace_insts t). legal_inst (trace_insts t ! k) \<and>
       encode (trace_insts t ! k) = peek32 (unat (pc s) + 4 * k) s)"
  using Trace_ctor_memory [OF assms] by (auto simp: trace_ok_def)

text \<open>A memory with the word of \<^verbatim>\<open>JAL x0, 0\<close> at address 0.\<close>

definition jal_state :: State where
  "jal_state = demo_state\<lparr>pmem := \<lambda>a. if a = 0 then 0x6f else 0\<rparr>"

lemma jal_state_fetch:
  "\<not> isVirtualAddressing jal_state" "pmem_size jal_state = 0x80000"
  "Trace_ctor 1 riscv_decoder jal_state =
    (Inr \<lparr>trace_insts = [inst_of Cmd_JAL 0 0 0 0], exec_trace = None, exec_num = 0, is_eligible = True\<rparr>, jal_state)"
proof -
  show v: "\<not> isVirtualAddressing jal_state"
    using demo_state_ok(3) by (simp add: jal_state_def isVirtualAddressing_def)
  show m: "pmem_size jal_state = 0x80000"
    by (simp add: jal_state_def demo_state_def static_state_simps default_options_def pagesize_def)
  have w: "peek32 0 jal_state = 0x6f" by (simp add: peek32_bytes jal_state_def)
  have "legal_inst (inst_of Cmd_JAL 0 0 0 0) \<and> encode (inst_of Cmd_JAL 0 0 0 0) = 0x6f"
    by (simp add: legal_inst_def encode_def cmd_format_by_opcode enc_J_def field_def signed_imm_def Let_def)
  then have d: "decode riscv_decoder 0x6f = Inr (inst_of Cmd_JAL 0 0 0 0)" by (simp add: decode_iff)
  have "pc jal_state = 0" by (simp add: jal_state_def demo_state_ok)
  then show "Trace_ctor 1 riscv_decoder jal_state =
    (Inr \<lparr>trace_insts = [inst_of Cmd_JAL 0 0 0 0], exec_trace = None, exec_num = 0, is_eligible = True\<rparr>, jal_state)"
    using bare_getCmd [OF v, of 0] m w d
    by (simp add: Trace_ctor_def bnd_Inr isTerminator_eq terminator_def)
qed

theorem fetch_reads_memory_witness:
  "encode (inst_of Cmd_JAL 0 0 0 0) = peek32 0 jal_state"
  using fetch_reads_memory [OF jal_state_fetch(1) _ jal_state_fetch(3)] jal_state_fetch(2)
  by (simp add: jal_state_def demo_state_ok)

text \<open>C38: The interpreter's execution of a trace that ends with \<^verbatim>\<open>FENCE\<close> never returns: unless an
  instruction before it throws, \<^verbatim>\<open>FENCE\<close> empties the trace cache and with it the trace that is being
  executed, whose size \<^verbatim>\<open>Trace::execute\<close> then reads.\<close>

theorem FENCE_frees_running_trace:
  assumes "sim_inv fuel s" and "host_ok h" and "LRUCache_deref (trace_cache s) node = Inr t"
    and "trace_ok fuel t" and "exec_trace t = None" and "inst_cmd (last (trace_insts t)) = Cmd_FENCE"
  shows "\<exists>e s'. run_trace h J node s = (Inl e, s') \<and> (is_exception e \<or> e = Undefined UseAfterFree)"
  using run_trace_result [OF assms(1-5), of J] assms(6)
  by (auto split: prod.splits sum.splits)

definition fence_trace :: Trace where
  "fence_trace = \<lparr>trace_insts = [inst_of Cmd_FENCE 0 0 0 0xff], exec_trace = None, exec_num = 0, is_eligible = True\<rparr>"

definition fence_state :: State where
  "fence_state = demo_state\<lparr>trace_cache :=
     fst (snd (LRUCache_insert 0 (ret fence_trace) (LRUCache_ctor 4) ()))\<rparr>"

lemma fence_state_cache:
  obtains node c where "LRUCache_insert 0 (ret fence_trace) (LRUCache_ctor 4) () = (Inr (node, True), c, ())"
    "trace_cache fence_state = c" "lru_ok c" "lru_abs c = [(0, fence_trace)]" "LRUCache_deref c node = Inr fence_trace"
proof -
  have "lru_ok (LRUCache_ctor 4 :: Trace LRUCache)" by simp
  then show thesis
    by (cases rule: lru.insert_cases [where k = 0 and mk = "ret fence_trace" and s = "()"])
      (auto simp: fence_state_def lru_spec_def lru.tight_def intro: that)
qed

theorem FENCE_frees_running_trace_witness:
  "case LRUCache_insert 0 (ret fence_trace) (LRUCache_ctor 4) () of
     (Inl e, c, u) \<Rightarrow> False
   | (Inr (node, new), c, u) \<Rightarrow>
       (\<exists>e s'. run_trace x86_host \<lparr>assembles = \<lambda>_. False, run_code = \<lambda>_. ret (), time_line = \<lambda>_. []\<rparr> node fence_state =
         (Inl e, s') \<and> (is_exception e \<or> e = Undefined UseAfterFree))"
proof -
  obtain node c where c: "LRUCache_insert 0 (ret fence_trace) (LRUCache_ctor 4) () = (Inr (node, True), c, ())"
    "trace_cache fence_state = c" "lru_ok c" "lru_abs c = [(0, fence_trace)]" "LRUCache_deref c node = Inr fence_trace"
    by (rule fence_state_cache)
  have t: "trace_ok 1 fence_trace"
    by (simp add: trace_ok_def fence_trace_def trace_shape_def terminator_def legal_inst_def legal_I_def
        cmd_format_by_opcode Let_def)
  have "exec_inv fence_state" using demo_state_ok(1) by (simp add: fence_state_def exec_inv_def)
  then have inv: "sim_inv 1 fence_state" using c t by (simp add: sim_inv_def) (simp add: fence_trace_def)
  have "\<exists>e s'. run_trace x86_host \<lparr>assembles = \<lambda>_. False, run_code = \<lambda>_. ret (), time_line = \<lambda>_. []\<rparr> node fence_state =
      (Inl e, s') \<and> (is_exception e \<or> e = Undefined UseAfterFree)"
    by (rule FENCE_frees_running_trace [OF inv x86_host_ok(2) _ t]) (use c in simp_all, simp_all add: fence_trace_def)
  then show ?thesis using c(1) by simp
qed

end
