(* ===== verification/Elf_Reader.thy ===== *)
theory Elf_Reader
  imports Machine
begin

text \<open>
  Reading the segments of an ELF file: \<^verbatim>\<open>src/sim/elf_reader.h\<close> and \<^verbatim>\<open>src/sim/elf_reader.cpp\<close>.

  The library libelf and the file descriptors of the operating system are not part of the
  repository: \<open>Elf_Env\<close> holds the results of their functions, as functions of their arguments.
  What the class keeps of them is modelled: whether it holds an ELF handle, its file descriptor,
  the number of program headers, the next header to read, and the entry point.
\<close>

record Ehdr =
  e_machine :: u16
  ei_class :: u8
  e_entry :: u64

record Phdr =
  p_offset :: u64
  p_vaddr :: u64
  p_filesz :: u64
  p_memsz :: u64

text \<open>
  \<open>env_open\<close> gives the descriptor or a negative number, \<open>env_getphdrnum\<close> the number of headers or
  \<open>None\<close> on failure, \<open>env_read fd off n\<close> the bytes that reading \<open>n\<close> bytes at \<open>off\<close> delivers, or \<open>None\<close>.
\<close>

record Elf_Env =
  env_version_ok :: bool
  env_open :: "string option \<Rightarrow> int"
  env_begin :: "int \<Rightarrow> bool"
  env_is_elf :: "int \<Rightarrow> bool"
  env_getehdr :: "int \<Rightarrow> Ehdr option"
  env_getphdrnum :: "int \<Rightarrow> u64 option"
  env_getphdr :: "int \<Rightarrow> u64 \<Rightarrow> Phdr option"
  env_lseek :: "int \<Rightarrow> int \<Rightarrow> int"
  env_read :: "int \<Rightarrow> u64 \<Rightarrow> u64 \<Rightarrow> u8 list option"

record Elf_reader =
  er_open :: bool
  er_fd :: int
  er_phdrnum :: u64
  er_cur_phdr :: u64
  er_entry :: u64

definition Elf_reader_ctor :: Elf_reader where
  "Elf_reader_ctor = \<lparr>er_open = False, er_fd = -1, er_phdrnum = 0, er_cur_phdr = 0, er_entry = 0\<rparr>"

text \<open>\<^verbatim>\<open>print_and_exit\<close>: the message goes to the log, the exception has a text of its own.\<close>

definition elf_failed :: fault where
  "elf_failed = StdThrow ''Elf reader failed''"

definition Elf_reader_clear :: "Elf_reader \<Rightarrow> Elf_reader" where
  "Elf_reader_clear er = er\<lparr>er_open := False, er_fd := 0\<rparr>"

definition EM_RISCV :: u16 where "EM_RISCV = 243"

definition ELFCLASS32 :: u8 where "ELFCLASS32 = 1"

definition Elf_reader_init :: "Elf_Env \<Rightarrow> string option \<Rightarrow> Elf_reader \<Rightarrow> fault + Elf_reader" where
  "Elf_reader_init env filename er =
     (let er = (if er_open er \<or> er_fd er \<noteq> 0 then Elf_reader_clear er else er) in
      if \<not> env_version_ok env then Inl elf_failed
      else
        let fd = env_open env filename; er = er\<lparr>er_fd := fd\<rparr> in
        if fd < 0 then Inl elf_failed
        else if \<not> env_begin env fd then Inl elf_failed
        else
          let er = er\<lparr>er_open := True\<rparr> in
          if \<not> env_is_elf env fd then Inl elf_failed
          else case env_getehdr env fd of
              None \<Rightarrow> Inl elf_failed
            | Some ehdr \<Rightarrow>
                if e_machine ehdr \<noteq> EM_RISCV then Inl elf_failed
                else if ei_class ehdr \<noteq> ELFCLASS32 then Inl elf_failed
                else case env_getphdrnum env fd of
                    None \<Rightarrow> Inl elf_failed
                  | Some n \<Rightarrow> Inr (er\<lparr>er_phdrnum := n, er_entry := e_entry ehdr\<rparr>))"

text \<open>A vector of \<open>n\<close> words, all zero, into whose first bytes the file is read.\<close>

fun bytes_words :: "nat \<Rightarrow> u8 list \<Rightarrow> u32 list" where
  "bytes_words 0 bs = []"
| "bytes_words (Suc n) bs =
     le_join (take 4 (bs @ replicate (4 - length bs) 0)) # bytes_words n (drop 4 bs)"

text \<open>
  One round of the loop of \<^verbatim>\<open>load\<close>. The buffer has \<^verbatim>\<open>p_memsz\<close> words, four bytes for every byte of
  the segment; a file part that does not fit is written beyond it.
\<close>

definition load_segment :: "Elf_Env \<Rightarrow> Elf_reader \<Rightarrow> fault + u32 list \<times> u32" where
  "load_segment env er =
     (case env_getphdr env (er_fd er) (er_cur_phdr er) of
        None \<Rightarrow> Inl elf_failed
      | Some phdr \<Rightarrow>
          let off = sint (p_offset phdr) in
          if off \<noteq> env_lseek env (er_fd er) off then Inl elf_failed
          else case env_read env (er_fd er) (p_offset phdr) (p_filesz phdr) of
              None \<Rightarrow> Inl elf_failed
            | Some bs \<Rightarrow>
                if length bs > 4 * unat (p_memsz phdr) then Inl (Undefined OutOfBounds)
                else if sint (of_nat (length bs) :: u32) < 0 \<or> p_filesz phdr \<noteq> ucast (of_nat (length bs) :: u32)
                then Inl elf_failed
                else Inr (bytes_words (unat (p_memsz phdr)) bs, ucast (p_vaddr phdr)))"

text \<open>The loop by the number of rounds left; it ends because \<^verbatim>\<open>cur_phdr_\<close> counts up to \<^verbatim>\<open>phdrnum_\<close>.\<close>

fun load_loop :: "nat \<Rightarrow> Elf_Env \<Rightarrow> Elf_reader \<Rightarrow> fault + (u32 list list \<times> u32 list) \<times> Elf_reader" where
  "load_loop 0 env er = Inr (([], []), er)"
| "load_loop (Suc n) env er =
     rbind (load_segment env er) (\<lambda>(ws, va).
     rbind (load_loop n env (er\<lparr>er_cur_phdr := er_cur_phdr er + 1\<rparr>)) (\<lambda>((cmds, vas), er).
       Inr ((ws # cmds, va # vas), er)))"

definition Elf_reader_load :: "Elf_Env \<Rightarrow> Elf_reader \<Rightarrow> fault + (u32 list list \<times> u32 list \<times> u32) \<times> Elf_reader" where
  "Elf_reader_load env er =
     rbind (load_loop (unat (er_phdrnum er) - unat (er_cur_phdr er)) env er) (\<lambda>((cmds, vas), er).
       Inr ((cmds, vas, ucast (er_entry er)), er))"

section \<open>What is loaded\<close>

lemma length_bytes_words [simp]: "length (bytes_words n bs) = n"
  by (induction n arbitrary: bs) auto

text \<open>Splitting looks at the low bytes only.\<close>

lemma le_split_cong:
  "8 * n \<le> LENGTH('a) \<Longrightarrow> (\<And>k. k < 8 * n \<Longrightarrow> bit x k = bit y k) \<Longrightarrow>
    le_split n (x :: 'a::len word) = le_split n y"
proof (induction n arbitrary: x y)
  case 0
  then show ?case by simp
next
  case (Suc n)
  have "(ucast x :: u8) = ucast y"
    by (rule bit_word_eqI) (use Suc.prems in \<open>simp add: bit_simps\<close>)
  moreover have "le_split n (drop_bit 8 x) = le_split n (drop_bit 8 y)"
    by (rule Suc.IH) (use Suc.prems in \<open>simp_all add: bit_simps\<close>)
  ultimately show ?case by simp
qed

lemma le_split_join: "length bs = n \<Longrightarrow> 8 * n \<le> LENGTH('a) \<Longrightarrow> le_split n (le_join bs :: 'a::len word) = bs"
proof (induction bs arbitrary: n)
  case Nil
  then show ?case by simp
next
  case (Cons b bs)
  then obtain m where n: "n = Suc m" "length bs = m" by auto
  have "ucast (ucast b OR push_bit 8 (le_join bs) :: 'a word) = b"
    by (rule bit_word_eqI) (use Cons.prems(2) n in \<open>auto simp: bit_simps\<close>)
  moreover have "le_split m (drop_bit 8 (ucast b OR push_bit 8 (le_join bs) :: 'a word)) = le_split m (le_join bs :: 'a word)"
    by (rule le_split_cong) (use Cons.prems(2) n in \<open>auto simp: bit_simps dest: bit_imp_le_length\<close>)
  ultimately show ?case using Cons.IH [OF n(2)] Cons.prems(2) n by simp
qed

lemma le_join_zeros [simp]: "le_join (replicate n 0) = 0"
  by (induction n) simp_all

lemma words_bytes_Cons [simp]: "words_bytes [] = []" "words_bytes (w # ws) = le_split 4 w @ words_bytes ws"
  by (simp_all add: words_bytes_def)

lemma length_words_bytes [simp]: "length (words_bytes ws) = 4 * length ws"
  by (induction ws) auto

text \<open>The bytes of the loaded words: the bytes of the file, then zeros up to four times the size.\<close>

lemma bytes_words_bytes:
  "length bs \<le> 4 * n \<Longrightarrow> words_bytes (bytes_words n bs) = bs @ replicate (4 * n - length bs) 0"
proof (induction n arbitrary: bs)
  case 0
  then show ?case by simp
next
  case (Suc n)
  let ?b4 = "take 4 (bs @ replicate (4 - length bs) 0)"
  have "length ?b4 = 4" by simp
  then have w: "le_split 4 (le_join ?b4 :: u32) = ?b4" by (rule le_split_join) simp
  have "words_bytes (bytes_words n (drop 4 bs)) = drop 4 bs @ replicate (4 * n - length (drop 4 bs)) 0"
    using Suc.prems by (intro Suc.IH) simp
  moreover have "?b4 @ drop 4 bs @ replicate (4 * n - length (drop 4 bs)) 0 =
      bs @ replicate (4 * Suc n - length bs) 0"
  proof (cases "length bs \<le> 4")
    case True
    then have "4 * Suc n - length bs = (4 - length bs) + 4 * n" by simp
    with True show ?thesis by (simp only: replicate_add) simp
  next
    case False
    then show ?thesis using append_take_drop_id [of 4 bs] by (simp flip: append_assoc)
  qed
  ultimately show ?case using w by simp
qed

section \<open>Failing\<close>

lemma Elf_reader_init_fails:
  "Elf_reader_init env f er = Inl e \<Longrightarrow> e = elf_failed"
  by (auto simp: Elf_reader_init_def Let_def split: if_splits option.splits)

section \<open>Segments in memory\<close>

definition disjoint_bytes :: "nat \<Rightarrow> nat \<Rightarrow> nat \<Rightarrow> nat \<Rightarrow> bool" where
  "disjoint_bytes p n q m \<longleftrightarrow> p + n \<le> q \<or> q + m \<le> p"

lemma load_segments_Cons:
  assumes "load_segments i cmds (va # vas) s = (Inr (), s')"
  shows "i < length cmds" "load_segments (Suc i) cmds vas
    (s\<lparr>pmem := write_bytes (unat va) (words_bytes (cmds ! i)) (pmem s)\<rparr>) = (Inr (), s')"
  using assms
  by (cases rule: getMemPtr_cases [where sz = 1 and pa = va and s = s];
      auto simp: bnd_def poke_def at_index_def split: if_splits)+

lemma load_segments_unchanged:
  assumes "load_segments i cmds vas s = (Inr (), s')"
    and "\<And>j. j < length vas \<Longrightarrow> disjoint_bytes p n (unat (vas ! j)) (4 * length (cmds ! (i + j)))"
  shows "read_bytes p n (pmem s') = read_bytes p n (pmem s)"
  using assms
proof (induction vas arbitrary: i s)
  case Nil
  then show ?case by simp
next
  case (Cons va vas)
  let ?s1 = "s\<lparr>pmem := write_bytes (unat va) (words_bytes (cmds ! i)) (pmem s)\<rparr>"
  have "disjoint_bytes p n (unat (vas ! j)) (4 * length (cmds ! (Suc i + j)))" if "j < length vas" for j
    using Cons.prems(2) [of "Suc j"] that by simp
  from Cons.IH [OF load_segments_Cons(2) [OF Cons.prems(1)] this]
  have "read_bytes p n (pmem s') = read_bytes p n (pmem ?s1)" .
  also have "\<dots> = read_bytes p n (pmem s)"
    using Cons.prems(2) [of 0] by (simp add: read_write_disjoint disjoint_bytes_def)
  finally show ?case .
qed

lemma load_segments_memory:
  assumes "load_segments i cmds vas s = (Inr (), s')" "k < length vas"
    and "\<And>j. k < j \<Longrightarrow> j < length vas \<Longrightarrow> disjoint_bytes (unat (vas ! k)) (4 * length (cmds ! (i + k)))
      (unat (vas ! j)) (4 * length (cmds ! (i + j)))"
  shows "read_bytes (unat (vas ! k)) (4 * length (cmds ! (i + k))) (pmem s') = words_bytes (cmds ! (i + k))"
  using assms
proof (induction vas arbitrary: i k s)
  case Nil
  then show ?case by simp
next
  case (Cons va vas)
  note rest = load_segments_Cons(2) [OF Cons.prems(1)]
  show ?case
  proof (cases k)
    case 0
    have "disjoint_bytes (unat va) (4 * length (cmds ! i)) (unat (vas ! j)) (4 * length (cmds ! (Suc i + j)))"
      if "j < length vas" for j
      using Cons.prems(3) [of "Suc j"] that 0 by simp
    from load_segments_unchanged [OF rest this] show ?thesis
      using 0 by (simp add: read_write_same)
  next
    case (Suc m)
    have "disjoint_bytes (unat (vas ! m)) (4 * length (cmds ! (Suc i + m)))
        (unat (vas ! j)) (4 * length (cmds ! (Suc i + j)))" if "m < j" "j < length vas" for j
      using Cons.prems(3) [of "Suc j"] that Suc by simp
    from Cons.IH [OF rest _ this] show ?thesis
      using Suc Cons.prems(2) by simp
  qed
qed

section \<open>The properties\<close>

text \<open>C30: The loader puts every segment where its header says: after the construction of the state,
  the memory at a segment's address holds the segment's words, unless a later segment overlaps.\<close>

theorem segments_loaded:
  assumes "load_segments 0 cmds vas s = (Inr (), s')" and "k < length vas"
    and "\<And>j. k < j \<Longrightarrow> j < length vas \<Longrightarrow> disjoint_bytes (unat (vas ! k)) (4 * length (cmds ! k))
      (unat (vas ! j)) (4 * length (cmds ! j))"
  shows "read_bytes (unat (vas ! k)) (4 * length (cmds ! k)) (pmem s') = words_bytes (cmds ! k)"
  using load_segments_memory [of 0 cmds vas s s' k] assms by simp

theorem segments_loaded_witness:
  "read_bytes 64 8 (pmem (snd (load_segments 0 [[1, 2], [3]] [64, 128] (static_state default_options (\<lambda>_. 0) [])))) =
    words_bytes [1, 2]"
proof -
  let ?s = "static_state default_options (\<lambda>_. 0) []"
  have "pmem_size ?s = 0x80000"
    by (simp add: static_state_def MMU_ctor_def MMU_State.defs default_options_def pagesize_def)
  then have "load_segments 0 [[1, 2], [3]] [64, 128] ?s =
    (Inr (), snd (load_segments 0 [[1, 2], [3]] [64, 128] ?s))"
    by (simp add: bnd_def getMemPtr_def poke_def)
  from segments_loaded [OF this, of 0] show ?thesis
    by (simp add: disjoint_bytes_def less_Suc_eq_0_disj)
qed

text \<open>C39: A segment that is read is four times as long as its header says: the buffer has \<^verbatim>\<open>p_memsz\<close>
  words and not bytes. It begins with the bytes of the file and goes on with zeros.\<close>

theorem segment_four_times_too_long:
  assumes "load_segment env er = Inr (ws, va)"
    and "env_getphdr env (er_fd er) (er_cur_phdr er) = Some ph"
    and "env_read env (er_fd er) (p_offset ph) (p_filesz ph) = Some bs"
  shows "words_bytes ws = bs @ replicate (4 * unat (p_memsz ph) - length bs) 0"
  using assms bytes_words_bytes [of bs "unat (p_memsz ph)"]
  by (auto simp: load_segment_def Let_def split: if_splits)

definition demo_elf :: Elf_Env where
  "demo_elf = \<lparr>env_version_ok = True, env_open = \<lambda>_. 3, env_begin = \<lambda>_. True, env_is_elf = \<lambda>_. True,
     env_getehdr = \<lambda>_. Some \<lparr>e_machine = 243, ei_class = 1, e_entry = 64\<rparr>, env_getphdrnum = \<lambda>_. Some 1,
     env_getphdr = \<lambda>_ _. Some \<lparr>p_offset = 52, p_vaddr = 64, p_filesz = 4, p_memsz = 4\<rparr>,
     env_lseek = \<lambda>_ off. off, env_read = \<lambda>_ _ _. Some [0x6f, 0, 0, 0]\<rparr>"

theorem segment_four_times_too_long_witness:
  "words_bytes [0x6f, 0, 0, 0] = [0x6f, 0, 0, 0] @ replicate 12 0"
proof -
  have "bytes_words (Suc (Suc (Suc (Suc 0)))) [0x6f, 0, 0, 0] = [0x6f, 0, 0, 0]" by simp
  moreover have "(4 :: nat) = Suc (Suc (Suc (Suc 0)))" by simp
  ultimately have b: "bytes_words 4 [0x6f, 0, 0, 0] = [0x6f, 0, 0, 0]" by metis
  have "load_segment demo_elf (Elf_reader_ctor\<lparr>er_fd := 3\<rparr>) = Inr ([0x6f, 0, 0, 0], 64)"
    by (simp add: load_segment_def demo_elf_def Let_def b)
  from segment_four_times_too_long [OF this] show ?thesis
    by (simp add: demo_elf_def)
qed

end
