(* ===== verification/Program.thy ===== *)
theory Program
  imports Simulator_Correct Elf_Reader
begin

text \<open>
  The program: \<^verbatim>\<open>src/sim/main.cpp\<close>.

  The static members of \<^verbatim>\<open>State\<close>, and with them the physical memory, the TLBs and the trace cache,
  are constructed before \<^verbatim>\<open>main\<close> runs, from the default values of the options; \<open>main_function\<close>
  starts from that state. (The order in which C++ initialises the statics of two translation
  units is not specified; the model takes the options to come first.) Whether the log file can be
  opened is a parameter of the host.
\<close>

text \<open>How the program ends: \<^verbatim>\<open>main\<close> returns 0, the help exits with 0, or a fault that \<^verbatim>\<open>main\<close> does not catch.\<close>

datatype exit = Returned | Exited | Died fault

text \<open>
  \<^verbatim>\<open>OpenLog\<close> sets the global \<^verbatim>\<open>log\<close>, which nothing else changes; its value is passed on. The text written to it is
  \<open>log_text\<close>.
\<close>

datatype log_stream = Log_stderr | Log_file string

definition OpenLog :: "Host \<Rightarrow> Options \<Rightarrow> (State, log_stream) M" where
  "OpenLog h opts =
     (case log_file opts of
        Some f \<Rightarrow>
          if can_create h f then ret (Log_file f)
          else bnd (print_stdout (''Can not open log file: '' @ f @ [CHR 0x0A])) (\<lambda>_. ret Log_stderr)
      | None \<Rightarrow> ret Log_stderr)"

definition CloseLog :: "log_stream \<Rightarrow> (State, unit) M" where
  "CloseLog log = (if log \<noteq> Log_stderr then modify (\<lambda>s. s\<lparr>log_closed := True\<rparr>) else ret ())"

text \<open>
  \<^verbatim>\<open>catch (std::exception &e)\<close> prints the exception's text, and \<^verbatim>\<open>main\<close> returns; \<^verbatim>\<open>SimException\<close> is one of them. The
  bounds \<open>n\<close> and \<open>fuel\<close> are those of the main loop and of the fetch loop.
\<close>

definition catch_std :: "(State, exit) M \<Rightarrow> State \<Rightarrow> exit \<times> State" where
  "catch_std m s = (case m s of
      (Inr x, s') \<Rightarrow> (x, s')
    | (Inl (Throw msg), s') \<Rightarrow> (Returned, snd (print_stdout (msg @ [CHR 0x0A]) s'))
    | (Inl (StdThrow msg), s') \<Rightarrow> (Returned, snd (print_stdout (msg @ [CHR 0x0A]) s'))
    | (Inl e, s') \<Rightarrow> (Died e, s'))"

definition simulate ::
  "nat \<Rightarrow> nat \<Rightarrow> Host \<Rightarrow> Jit_Env \<Rightarrow> Elf_Env \<Rightarrow> Options \<Rightarrow> (State, unit) M"
where
  "simulate n fuel h J env opts =
     bnd (lift (rbind (Elf_reader_init env (elf_file opts) Elf_reader_ctor) (Elf_reader_load env)))
       (\<lambda>((cmds, seg_va, start), er).
     bnd (Sim_ctor cmds seg_va start) (\<lambda>decoder.
       Sim_execute n opts h J fuel decoder))"

definition main_function ::
  "nat \<Rightarrow> nat \<Rightarrow> Host \<Rightarrow> Jit_Env \<Rightarrow> Elf_Env \<Rightarrow> string list \<Rightarrow> State \<Rightarrow> exit \<times> State"
where
  "main_function n fuel h J env args = catch_std (
     bnd (lift (ParseOptions args default_options)) (\<lambda>p.
       case p of
         Help txt \<Rightarrow> bnd (print_stdout txt) (\<lambda>_. ret Exited)
       | Parsed opts \<Rightarrow>
           bnd (OpenLog h opts) (\<lambda>log.
           bnd (simulate n fuel h J env opts) (\<lambda>_.
           bnd (CloseLog log) (\<lambda>_. ret Returned)))))"

text \<open>The process: the statics first, with the values the options have then.\<close>

definition run_program ::
  "nat \<Rightarrow> nat \<Rightarrow> Host \<Rightarrow> Jit_Env \<Rightarrow> Elf_Env \<Rightarrow> string list \<Rightarrow> (nat \<Rightarrow> u8) \<Rightarrow> u8 list \<Rightarrow> exit \<times> State"
where
  "run_program n fuel h J env args garbage input =
     main_function n fuel h J env args (static_state default_options garbage input)"

section \<open>The memory size is fixed\<close>

text \<open>What the compiled code leaves alone: the size of the memory and of the caches.\<close>

definition same_sizes :: "State \<Rightarrow> State \<Rightarrow> bool" where
  "same_sizes s s' \<longleftrightarrow> pmem_size s' = pmem_size s \<and> lru_max_size (trace_cache s') = lru_max_size (trace_cache s)"

interpretation sizes: step_relation same_sizes
  by unfold_locales (auto simp: same_sizes_def)

lemma make_room_max_size: "LRUCache_make_room c = Inr c' \<Longrightarrow> lru_max_size c' = lru_max_size c"
  by (auto simp: LRUCache_make_room_def rbind_Inr_iff split: if_splits list.splits)

lemma LRUCache_insert_max_size: "LRUCache_insert k mk c s = (r, c', s') \<Longrightarrow> lru_max_size c' = lru_max_size c"
  by (auto simp: LRUCache_insert_def LRUCache_add_def LRUCache_touch_def Let_def rbind_Inr_iff
      dest!: make_room_max_size split: option.splits sum.splits prod.splits if_splits)

lemma mmu_sizes: "frames mmu_step m \<Longrightarrow> frames same_sizes m"
  by (erule frames_weaken) (simp add: same_sizes_def mmu_step_pmem_size mmu_step_machine)

lemma exec_sizes: "frames exec_step m \<Longrightarrow> frames same_sizes m"
  by (erule frames_weaken) (simp add: exec_step_def same_sizes_def)

lemma State_write_sizes: "frames same_sizes (State_write va bs)"
  unfolding State_write_def by (rule mmu_sizes [OF MMU_store_frame])

lemma read_loop_sizes: "frames same_sizes (read_loop n i a1 a2)"
  by (rule exec_sizes [OF read_loop_frame])

lemma ExecGetTimeOfDay_sizes: "frames same_sizes (ExecGetTimeOfDay h)"
  unfolding ExecGetTimeOfDay_def split_beta
  by (intro sizes.frames_bnd State_write_sizes exec_sizes [OF getReg_frame] exec_sizes [OF setReg_frame]
      exec_sizes [OF gettimeofday_frame])

lemma ExecSysCall_sizes: "frames same_sizes (ExecSysCall h n)"
  unfolding ExecSysCall_def ExecClose_def ExecRead_def ExecWrite_def ExecFstat_def ExecExit_def ExecBrk_def
  by (intro sizes.frames_rules ExecGetTimeOfDay_sizes exec_sizes [OF getReg_frame] exec_sizes [OF setReg_frame]
      exec_sizes [OF read_loop_frame] exec_sizes [OF write_loop_frame])

lemma call_exec_sizes: "frames same_sizes (call_exec f h i idx)"
proof -
  have "frames same_sizes (write_rs2 sz i)" for sz
    unfolding write_rs2_def
    by (intro sizes.frames_rules State_write_sizes exec_sizes [OF operands_frame(1)]
        exec_sizes [OF operands_frame(2)] exec_sizes [OF operands_frame(3)])
  moreover have "frames same_sizes (ExecECALL h i idx)"
    unfolding ExecECALL_def by (intro sizes.frames_rules ExecSysCall_sizes exec_sizes [OF getReg_frame])
  moreover have "frames same_sizes (ExecFENCE i idx)"
    by (rule framesI)
      (auto simp: ExecFENCE_def State_flush_eq bnd_def same_sizes_def)
  ultimately show ?thesis
    by (cases f) (simp_all add: handler_defs(4-11,16-40,42-49) exec_sizes shapes_frame control_frame)
qed

lemma exec_from_sizes: "frames same_sizes (exec_from h idx is)"
proof (induction "is" arbitrary: idx)
  case Nil
  show ?case unfolding exec_from.simps by (rule sizes.frames_raise)
next
  case (Cons i "is")
  have "frames same_sizes (case f of NextInst \<Rightarrow> exec_from h (Suc idx) is | EndTrace \<Rightarrow> ret ())" for f
    using Cons.IH by (cases f) (auto intro: sizes.frames_ret)
  then show ?case
    unfolding exec_from.simps Inst_exec_def by (intro sizes.frames_bnd call_exec_sizes)
qed

lemma bump_stats_sizes: "frames same_sizes (bump_stats f)" for f
  unfolding bump_stats_def by (rule sizes.frames_modify) (simp add: same_sizes_def)

lemma the_trace_sizes: "frames same_sizes (the_trace node)"
  by (simp add: frames_def the_trace_def sizes.rel_refl)

lemma set_trace_sizes: "frames same_sizes (set_trace node t)"
  unfolding set_trace_def by (rule sizes.frames_modify) (simp add: same_sizes_def LRUCache_assign_def)

lemma refer_sizes: "frames same_sizes (TraceCache_refer fuel d addr)"
proof -
  have "frames same_sizes (\<lambda>s. case LRUCache_insert addr (Trace_ctor fuel d) (trace_cache s) s of
      (r, c, s') \<Rightarrow> (r, s'\<lparr>trace_cache := c\<rparr>))"
  proof (rule framesI)
    fix s r s' assume "(case LRUCache_insert addr (Trace_ctor fuel d) (trace_cache s) s of
      (r, c, s') \<Rightarrow> (r, s'\<lparr>trace_cache := c\<rparr>)) = (r, s')"
    then obtain c s1 where ins: "LRUCache_insert addr (Trace_ctor fuel d) (trace_cache s) s = (r, c, s1)"
      and s': "s' = s1\<lparr>trace_cache := c\<rparr>" by (auto split: prod.splits)
    have "mmu_step s s1"
      using LRUCache_insert_frame [where R = mmu_step, OF _ _ ins] framesD [OF Trace_ctor_frame] by blast
    then show "same_sizes s s'"
      using LRUCache_insert_max_size [OF ins] s' by (simp add: same_sizes_def mmu_step_pmem_size)
  qed
  then show ?thesis
    unfolding TraceCache_refer_def split_beta by (intro sizes.frames_rules bump_stats_sizes)
qed

lemma Sim_step_sizes:
  assumes "\<And>code. frames same_sizes (run_code J code)"
  shows "frames same_sizes (Sim_step opts h J fuel d)"
proof -
  have "frames same_sizes (try_translate opts J node)" for node
  proof -
    have "frames same_sizes (\<lambda>s. (Translator_getFunc (Inst_translate (isVirtualAddressing s)) (assembles J) is, s))"
      for "is" by (simp add: frames_def sizes.rel_refl)
    then show ?thesis
      unfolding try_translate_def Let_def
      by (intro sizes.frames_rules the_trace_sizes set_trace_sizes bump_stats_sizes)
  qed
  moreover have "frames same_sizes (run_trace h J node)" for node
  proof -
    have "frames same_sizes (case exec_trace t of
        Some code \<Rightarrow> bnd (run_code J code) (\<lambda>_.
          bump_stats (\<lambda>st. st\<lparr>translated_executions := translated_executions st + 1\<rparr>))
      | None \<Rightarrow> bnd (exec_from h 0 (trace_insts t)) (\<lambda>_. bnd (the_trace node) (\<lambda>t.
          bnd (modify (\<lambda>s. s\<lparr>executed_insts := executed_insts s + of_nat (length (trace_insts t))\<rparr>)) (\<lambda>_.
          bump_stats (\<lambda>st. st\<lparr>interpreted_executions := interpreted_executions st + 1\<rparr>)))))" for t
      using assms by (cases "exec_trace t")
        (auto intro!: sizes.frames_bnd exec_from_sizes the_trace_sizes bump_stats_sizes sizes.frames_modify
          simp: same_sizes_def)
    then show ?thesis unfolding run_trace_def by (intro sizes.frames_bnd the_trace_sizes)
  qed
  ultimately show ?thesis
    unfolding Sim_step_def Trace_execute_def
    by (intro sizes.frames_rules exec_sizes [OF getPC_frame] refer_sizes)
qed

lemma Sim_execute_sizes:
  assumes "\<And>code. frames same_sizes (run_code J code)"
  shows "frames same_sizes (Sim_execute n opts h J fuel d)"
proof -
  have loop: "frames same_sizes (Sim_loop n (Sim_step opts h J fuel d) l)" for l
  proof (induction n)
    case 0
    show ?case unfolding Sim_loop.simps by (rule sizes.frames_raise)
  next
    case (Suc n)
    then show ?case unfolding Sim_loop.simps by (intro sizes.frames_rules Sim_step_sizes [OF assms])
  qed
  have p: "frames same_sizes (print_log t)" for t by (rule exec_sizes [OF print_log_frame])
  have "frames same_sizes (catch_sim m)" if m: "frames same_sizes m" for m
  proof (rule framesI)
    fix s r s' assume "catch_sim m s = (r, s')"
    with framesD [OF m] show "same_sizes s s'"
      by (fastforce simp: catch_sim_def print_log_def same_sizes_def split: prod.splits sum.splits fault.splits)
  qed
  with loop p show ?thesis
    unfolding Sim_execute_def by (intro sizes.frames_rules) auto
qed

lemma simulate_sizes:
  assumes "\<And>code. frames same_sizes (run_code J code)"
  shows "frames same_sizes (simulate n fuel h J env opts)"
proof -
  have "frames same_sizes (load_segments i cmds vas)" for i cmds vas
    by (rule frames_weaken [OF load_segments_frame]) (auto simp: load_step_def same_sizes_def)
  then have "frames same_sizes (Sim_ctor cmds vas start)" for cmds vas start
    unfolding Sim_ctor_def State_ctor_def
    by (intro sizes.frames_rules sizes.frames_modify exec_sizes [OF setReg_frame]) (auto simp: same_sizes_def)
  then show ?thesis
    unfolding simulate_def split_beta by (intro sizes.frames_rules Sim_execute_sizes assms)
qed

lemma log_sizes: "frames same_sizes (print_stdout txt)" "frames same_sizes (OpenLog h opts)" "frames same_sizes (CloseLog log)"
proof -
  show p: "frames same_sizes (print_stdout t)" for t
    unfolding print_stdout_def by (rule sizes.frames_modify) (simp add: same_sizes_def)
  show "frames same_sizes (OpenLog h opts)"
    by (auto simp: OpenLog_def intro: sizes.frames_rules p split: option.split)
  show "frames same_sizes (CloseLog log)"
    unfolding CloseLog_def by (intro sizes.frames_rules sizes.frames_modify) (simp add: same_sizes_def)
qed

lemma catch_std_sizes: "frames same_sizes m \<Longrightarrow> same_sizes s (snd (catch_std m s))"
proof -
  assume m: "frames same_sizes m"
  obtain r s' where r: "m s = (r, s')" by (cases "m s")
  have s': "same_sizes s s'" using framesD [OF m r] .
  have "same_sizes s (snd (print_stdout t s'))" for t
    using framesD [OF log_sizes(1), of t s'] sizes.rel_trans [OF s'] by (metis prod.collapse)
  with r s' show ?thesis by (auto simp: catch_std_def split: sum.split fault.split)
qed

section \<open>How a run ends\<close>

lemma rbind_Inl_iff: "rbind m f = Inl e \<longleftrightarrow> m = Inl e \<or> (\<exists>a. m = Inr a \<and> f a = Inl e)"
  by (cases m) auto

lemma load_loop_lengths:
  "load_loop n env er = Inr ((cmds, vas), er') \<Longrightarrow> length vas = length cmds"
  by (induction n arbitrary: er cmds vas er')
    (auto simp: rbind_Inr_iff split: prod.splits)

lemma load_segment_fails: "load_segment env er = Inl e \<Longrightarrow> e = elf_failed \<or> e = Undefined OutOfBounds"
  by (auto simp: load_segment_def Let_def split: if_splits option.splits)

lemma load_loop_fails: "load_loop n env er = Inl e \<Longrightarrow> e = elf_failed \<or> e = Undefined OutOfBounds"
  by (induction n arbitrary: er)
    (auto simp: rbind_Inl_iff dest: load_segment_fails split: prod.splits)

text \<open>The faults that reading the file and running the program leave open.\<close>

definition run_fault :: "fault \<Rightarrow> bool" where
  "run_fault e \<longleftrightarrow> is_exception e \<or> e = elf_failed \<or> e = Undefined OutOfBounds \<or>
     e = OutOfFuel FetchLoop \<or> e = Undefined UseAfterFree"

lemma simulate_fails:
  assumes "host_ok h" "\<not> jit opts" "0 < max_insts opts"
    and "unat (max_insts opts) + fuel < 2 ^ 64" "unat (max_insts opts) \<le> n"
    and "simulate n fuel h J env opts s0 = (Inl e, s')" and "fresh default_options s0"
  shows "run_fault e"
proof -
  let ?load = "rbind (Elf_reader_init env (elf_file opts) Elf_reader_ctor) (Elf_reader_load env)"
  show ?thesis
  proof (cases ?load)
    case (Inl e1)
    then have "e1 = elf_failed \<or> e1 = Undefined OutOfBounds"
      by (auto simp: rbind_Inl_iff Elf_reader_load_def dest: Elf_reader_init_fails load_loop_fails
          split: prod.splits)
    with Inl assms(6) show ?thesis by (auto simp: simulate_def bnd_def lift_def run_fault_def)
  next
    case (Inr x)
    then obtain cmds vas start er where x: "?load = Inr ((cmds, vas, start), er)" by (cases x) auto
    then have len: "length vas = length cmds"
      by (auto simp: rbind_Inr_iff Elf_reader_load_def dest: load_loop_lengths split: prod.splits)
    obtain r s1 where c: "State_ctor cmds vas start s0 = (r, s1)" by (cases "State_ctor cmds vas start s0")
    show ?thesis
    proof (cases r)
      case (Inl e1)
      then have "is_Throw e1 \<or> e1 = Undefined OutOfBounds"
        using c len load_segments_throws [of vas 0 cmds]
        by (auto simp: State_ctor_def bnd_def split: prod.splits sum.splits)
      with Inl c x assms(6) show ?thesis
        by (auto simp: simulate_def Sim_ctor_def bnd_def lift_def riscv_decoder_ctor run_fault_def
          Throw_exception)
    next
      case (Inr u)
      with c have ok: "State_ctor cmds vas start s0 = (Inr (), s1)" by simp
      note st = State_ctor_ok [OF ok assms(7)]
      have "round_inv opts h fuel s1" "executed_insts s1 = 0"
        using st assms(1-4) by (simp_all add: round_inv_def default_options_def)
      moreover have "Sim_execute n opts h J fuel riscv_decoder s1 = (Inl e, s')"
        using assms(6) x ok by (simp add: simulate_def Sim_ctor_def bnd_def lift_def riscv_decoder_ctor ret_def)
      ultimately show ?thesis
        using Sim_execute_result [of opts h fuel s1 n J e s'] assms(3,5) by (auto simp: run_fault_def)
    qed
  qed
qed

section \<open>The log\<close>

lemma OpenLog_fresh:
  obtains log s0 where "OpenLog h opts (static_state default_options garbage input) = (Inr log, s0)"
    "fresh default_options s0"
proof -
  have "fresh default_options (s\<lparr>stdout_bytes := x\<rparr>) = fresh default_options s" for s x by (simp add: fresh_def)
  with that show thesis
    by (cases "OpenLog h opts (static_state default_options garbage input)")
      (auto simp: OpenLog_def print_stdout_def bnd_Inr fresh_static split: option.splits if_splits)
qed

text \<open>\<^verbatim>\<open>main\<close> once the options are parsed.\<close>

lemma run_main:
  assumes "ParseOptions args default_options = Inr (Parsed opts)"
    and "OpenLog h opts (static_state default_options garbage input) = (Inr log, s0)"
    and "simulate n fuel h J env opts s0 = (r, s1)"
  shows "run_program n fuel h J env args garbage input = (case r of
      Inr _ \<Rightarrow> (Returned, snd (CloseLog log s1))
    | Inl (Throw msg) \<Rightarrow> (Returned, snd (print_stdout (msg @ [CHR 0x0A]) s1))
    | Inl (StdThrow msg) \<Rightarrow> (Returned, snd (print_stdout (msg @ [CHR 0x0A]) s1))
    | Inl e \<Rightarrow> (Died e, s1))"
  using assms
  by (auto simp: run_program_def main_function_def catch_std_def bnd_def CloseLog_def split: sum.split fault.split)

section \<open>The properties\<close>

text \<open>C11: A run without the JIT compiler ends: for every command line that parses, every ELF file and
  every limit of instructions but 0, \<^verbatim>\<open>main\<close> returns after at most as many rounds of the main loop
  as the limit says. The only other ends are those the code leaves open: a trace that goes on for
  ever, a trace that frees itself, and an ELF segment longer than its buffer.\<close>

theorem program_ends:
  assumes "host_ok h" and "ParseOptions args default_options = Inr (Parsed opts)" and "\<not> jit opts"
    and "0 < max_insts opts" and "unat (max_insts opts) + fuel < 2 ^ 64" and "unat (max_insts opts) \<le> n"
  shows "fst (run_program n fuel h J env args garbage input) \<in>
    {Returned, Died (OutOfFuel FetchLoop), Died (Undefined UseAfterFree), Died (Undefined OutOfBounds)}"
proof -
  obtain log s0 where log: "OpenLog h opts (static_state default_options garbage input) = (Inr log, s0)"
    and fresh: "fresh default_options s0"
    using OpenLog_fresh by blast
  obtain r s1 where m: "simulate n fuel h J env opts s0 = (r, s1)" by (cases "simulate n fuel h J env opts s0")
  show ?thesis
  proof (cases r)
    case (Inr u)
    with m log show ?thesis by (simp add: run_main [OF assms(2)])
  next
    case (Inl e)
    then have "run_fault e" using simulate_fails [OF assms(1,3-6) _ fresh] m by blast
    with m log Inl show ?thesis
      by (cases e) (auto simp: run_main [OF assms(2)] run_fault_def elf_failed_def)
  qed
qed

definition idle_jit :: Jit_Env where
  "idle_jit = \<lparr>assembles = \<lambda>_. False, run_code = \<lambda>_. ret (), time_line = \<lambda>_. []\<rparr>"

theorem program_ends_witness:
  "fst (run_program 2000000 131072 x86_host idle_jit demo_elf [] (\<lambda>_. 0) []) \<in>
    {Returned, Died (OutOfFuel FetchLoop), Died (Undefined UseAfterFree), Died (Undefined OutOfBounds)}"
  by (rule program_ends [OF x86_host_ok(2), of _ default_options]) (simp_all add: default_options_def)

text \<open>C32: The options for the sizes have no effect: whatever the command line says, the memory has the
  128 pages and the trace cache the 256 traces of the defaults, at the end as at the beginning,
  because they are made before \<^verbatim>\<open>main\<close> parses. (The compiled code does not resize them either.)\<close>

theorem memory_size_fixed:
  assumes "\<And>code. frames same_sizes (run_code J code)"
  shows "let s = snd (run_program n fuel h J env args garbage input) in
    pmem_size s = 0x80000 \<and> lru_max_size (trace_cache s) = 256"
proof -
  let ?s = "static_state default_options garbage input"
  have main: "frames same_sizes (case p of
      Help txt \<Rightarrow> bnd (print_stdout txt) (\<lambda>_. ret Exited)
    | Parsed opts \<Rightarrow> bnd (OpenLog h opts) (\<lambda>log. bnd (simulate n fuel h J env opts) (\<lambda>_.
        bnd (CloseLog log) (\<lambda>_. ret Returned))))" for p
    by (cases p) (auto intro: sizes.frames_rules log_sizes simulate_sizes [OF assms])
  have "same_sizes ?s (snd (run_program n fuel h J env args garbage input))"
    unfolding run_program_def main_function_def
    by (intro catch_std_sizes sizes.frames_rules main)
  then show ?thesis
    by (simp add: Let_def same_sizes_def static_state_simps default_options_def pagesize_def)
qed

theorem memory_size_fixed_witness:
  "let s = snd (run_program 10 10 x86_host idle_jit demo_elf [''-mem-pages'', ''4096''] (\<lambda>_. 0) []) in
    pmem_size s = 0x80000 \<and> lru_max_size (trace_cache s) = 256"
  by (rule memory_size_fixed) (simp add: idle_jit_def sizes.frames_ret)

end
