(* ===== verification/X86.thy ===== *)
theory X86
  imports Machine Jit
begin

text \<open>
  The target of the translator: what the emitted instructions do on an x86-64 processor, after
  the Intel manual, for the instructions that the translator emits without address translation.

  The host state holds the nine registers the translator names, the flags, and the object of
  class \<^verbatim>\<open>sim::State\<close> that \<^verbatim>\<open>rdi\<close> points to. The flags are known after a comparison only; a
  conditional instruction that reads other flags has no meaning here. Neither have an access
  through a pointer that leaves the guest memory, an instruction that writes \<^verbatim>\<open>rdi\<close>, and the pushes,
  pops and calls. The member \<^verbatim>\<open>mem\<close> is the host address of the guest memory, a parameter.

  An instruction with operands that the processor has no encoding for is refused by
  the assembler; what remains of it in the code is a parameter as well. The 32-bit operands
  of the \<^verbatim>\<open>set\<close> instructions stand for their low bytes.
\<close>

record flags =
  flag_z :: bool
  flag_s :: bool
  flag_c :: bool
  flag_o :: bool

record x86 =
  host_gp :: "Gp \<Rightarrow> u64"
  host_flags :: "flags option"
  host_vm :: State

section \<open>Operands\<close>

fun read32 :: "Operand \<Rightarrow> x86 \<Rightarrow> u32" where
  "read32 (Op_gp w g) h = ucast (host_gp h g)"
| "read32 (Op_slot r) h = regs (host_vm h) ! unat r"
| "read32 Op_pc h = pc (host_vm h)"
| "read32 (Op_imm n) h = word_of_int n"
| "read32 _ h = 0"

text \<open>A write to a 32-bit register clears the upper half.\<close>

definition write_gp :: "Gp \<Rightarrow> u64 \<Rightarrow> x86 \<Rightarrow> x86" where
  "write_gp g v h = h\<lparr>host_gp := (host_gp h)(g := v)\<rparr>"

fun write32 :: "Operand \<Rightarrow> u32 \<Rightarrow> x86 \<Rightarrow> x86" where
  "write32 (Op_gp w g) v h = write_gp g (ucast v) h"
| "write32 (Op_slot r) v h = h\<lparr>host_vm := (host_vm h)\<lparr>regs := (regs (host_vm h))[unat r := v]\<rparr>\<rparr>"
| "write32 Op_pc v h = h\<lparr>host_vm := (host_vm h)\<lparr>pc := v\<rparr>\<rparr>"
| "write32 _ v h = h"

definition no_flags :: "x86 \<Rightarrow> x86" where
  "no_flags h = h\<lparr>host_flags := None\<rparr>"

text \<open>The offset in the guest memory of an operand \<^verbatim>\<open>ptr(g, d)\<close>.\<close>

definition guest_offset :: "u64 \<Rightarrow> Gp \<Rightarrow> int \<Rightarrow> x86 \<Rightarrow> nat" where
  "guest_offset mem g d h = unat (host_gp h g + word_of_int d - mem)"

definition guest_load :: "u64 \<Rightarrow> nat \<Rightarrow> Gp \<Rightarrow> int \<Rightarrow> x86 \<Rightarrow> u8 list option" where
  "guest_load mem n g d h =
     (if guest_offset mem g d h + n \<le> unat (pmem_size (host_vm h))
      then Some (read_bytes (guest_offset mem g d h) n (pmem (host_vm h))) else None)"

definition guest_store :: "u64 \<Rightarrow> Gp \<Rightarrow> int \<Rightarrow> u8 list \<Rightarrow> x86 \<Rightarrow> x86 option" where
  "guest_store mem g d bs h =
     (if guest_offset mem g d h + length bs \<le> unat (pmem_size (host_vm h))
      then Some (h\<lparr>host_vm := (host_vm h)\<lparr>pmem := write_bytes (guest_offset mem g d h) bs (pmem (host_vm h))\<rparr>\<rparr>)
      else None)"

section \<open>Encodings\<close>

definition imm32 :: "int \<Rightarrow> bool" where
  "imm32 n \<longleftrightarrow> - (2 ^ 31) \<le> n \<and> n < 2 ^ 32"

text \<open>A register or an object in memory of 32 bits.\<close>

fun rm32 :: "Operand \<Rightarrow> bool" where
  "rm32 (Op_gp w g) \<longleftrightarrow> w = 32"
| "rm32 (Op_slot r) \<longleftrightarrow> True"
| "rm32 Op_pc \<longleftrightarrow> True"
| "rm32 (Op_ptr w g d) \<longleftrightarrow> w = 32"
| "rm32 _ \<longleftrightarrow> False"

fun imm_operand :: "Operand \<Rightarrow> bool" where
  "imm_operand (Op_imm n) \<longleftrightarrow> imm32 n"
| "imm_operand _ \<longleftrightarrow> False"

definition pair32 :: "Operand \<Rightarrow> Operand \<Rightarrow> bool" where
  "pair32 d s \<longleftrightarrow> rm32 d \<and> (imm_operand s \<or> rm32 s \<and> \<not> (Op_isMem d \<and> Op_isMem s))"

fun narrow_move :: "Operand \<Rightarrow> Operand \<Rightarrow> bool" where
  "narrow_move (Op_ptr w g d) (Op_gp v g') \<longleftrightarrow> w = v \<and> w \<in> {8, 16}"
| "narrow_move _ _ \<longleftrightarrow> False"

fun extending_move :: "Operand \<Rightarrow> Operand \<Rightarrow> bool" where
  "extending_move (Op_gp v g) (Op_ptr w g' d) \<longleftrightarrow> v = 32 \<and> w \<in> {8, 16}"
| "extending_move _ _ \<longleftrightarrow> False"

fun shift_count :: "Operand \<Rightarrow> bool" where
  "shift_count (Op_imm n) \<longleftrightarrow> 0 \<le> n \<and> n < 256"
| "shift_count (Op_gp w g) \<longleftrightarrow> w = 8 \<and> g = Gp_ecx"
| "shift_count _ \<longleftrightarrow> False"

text \<open>The additions on 64 bits: of the pointer \<^verbatim>\<open>mem\<close> to \<^verbatim>\<open>rax\<close>, and of a constant to the counter.\<close>

fun add64 :: "Operand \<Rightarrow> Operand \<Rightarrow> bool" where
  "add64 (Op_gp w g) Op_mem \<longleftrightarrow> w = 64"
| "add64 Op_insts (Op_imm n) \<longleftrightarrow> - (2 ^ 31) \<le> n \<and> n < 2 ^ 31"
| "add64 _ _ \<longleftrightarrow> False"

definition encodable2 :: "X86Id \<Rightarrow> Operand \<Rightarrow> Operand \<Rightarrow> bool" where
  "encodable2 x d s \<longleftrightarrow>
     (if x = Id_Mov then pair32 d s \<or> narrow_move d s
      else if x \<in> {Id_Movsx, Id_Movzx} then extending_move d s
      else if x = Id_Add then pair32 d s \<or> add64 d s
      else if x \<in> {Id_Xor, Id_And, Id_Or, Id_Sub, Id_Cmp} then pair32 d s
      else x \<in> {Id_Shl, Id_Shr, Id_Sar} \<and> rm32 d \<and> shift_count s)"

fun is_label :: "Operand \<Rightarrow> bool" where
  "is_label (Op_label l) \<longleftrightarrow> True"
| "is_label _ \<longleftrightarrow> False"

definition is_jump :: "X86Id \<Rightarrow> bool" where
  "is_jump x \<longleftrightarrow> x \<in> {Id_Jmp, Id_Je, Id_Jne, Id_Jl, Id_Jge, Id_Jb, Id_Jae}"

definition encodable1 :: "X86Id \<Rightarrow> Operand \<Rightarrow> bool" where
  "encodable1 x s \<longleftrightarrow> (x \<in> {Id_Mul, Id_Setl, Id_Setb} \<and> rm32 s) \<or> (is_jump x \<and> is_label s)"

fun encodable :: "X86Id \<Rightarrow> Operand list \<Rightarrow> bool" where
  "encodable x [] \<longleftrightarrow> x = Id_Ret"
| "encodable x [s] \<longleftrightarrow> encodable1 x s"
| "encodable x [d, s] \<longleftrightarrow> encodable2 x d s"
| "encodable x _ \<longleftrightarrow> False"

section \<open>Instructions\<close>

text \<open>The flags of a comparison; the overflow flag is set if the difference of the signed values does not fit.\<close>

definition cmp_flags :: "u32 \<Rightarrow> u32 \<Rightarrow> flags" where
  "cmp_flags a b = \<lparr>flag_z = (a = b), flag_s = (sint (a - b) < 0), flag_c = (a < b),
     flag_o = (sint (a - b) \<noteq> sint a - sint b)\<rparr>"

definition condition :: "X86Id \<Rightarrow> flags \<Rightarrow> bool" where
  "condition x f =
     (if x = Id_Je then flag_z f
      else if x = Id_Jne then \<not> flag_z f
      else if x = Id_Jl \<or> x = Id_Setl then flag_s f \<noteq> flag_o f
      else if x = Id_Jge then flag_s f = flag_o f
      else if x = Id_Jb \<or> x = Id_Setb then flag_c f
      else x = Id_Jae \<longrightarrow> \<not> flag_c f)"

definition x86_mov :: "u64 \<Rightarrow> Operand \<Rightarrow> Operand \<Rightarrow> x86 \<Rightarrow> x86 option" where
  "x86_mov mem d s h = (case d of
       Op_ptr w g k \<Rightarrow> guest_store mem g k (le_split (w div 8) (read32 s h)) h
     | _ \<Rightarrow> (case s of
         Op_ptr w g k \<Rightarrow> map_option (\<lambda>bs. write32 d (le_join bs) h) (guest_load mem 4 g k h)
       | _ \<Rightarrow> Some (write32 d (read32 s h) h)))"

definition x86_extend :: "u64 \<Rightarrow> bool \<Rightarrow> Operand \<Rightarrow> Operand \<Rightarrow> x86 \<Rightarrow> x86 option" where
  "x86_extend mem signd d s h = (case s of
       Op_ptr w g k \<Rightarrow> map_option (\<lambda>bs. write32 d
           (if w = 8 then (let b = le_join bs :: u8 in if signd then scast b else ucast b)
            else (let b = le_join bs :: u16 in if signd then scast b else ucast b)) h)
         (guest_load mem (w div 8) g k h)
     | _ \<Rightarrow> None)"

text \<open>An operation on a destination and a source that are not pointers.\<close>

definition x86_alu :: "(u32 \<Rightarrow> u32 \<Rightarrow> u32) \<Rightarrow> Operand \<Rightarrow> Operand \<Rightarrow> x86 \<Rightarrow> x86" where
  "x86_alu f d s h = no_flags (write32 d (f (read32 d h) (read32 s h)) h)"

definition x86_add :: "u64 \<Rightarrow> Operand \<Rightarrow> Operand \<Rightarrow> x86 \<Rightarrow> x86" where
  "x86_add mem d s h = (case (d, s) of
       (Op_gp w g, Op_mem) \<Rightarrow> no_flags (write_gp g (host_gp h g + mem) h)
     | (Op_insts, Op_imm n) \<Rightarrow>
         no_flags (h\<lparr>host_vm := (host_vm h)\<lparr>executed_insts := executed_insts (host_vm h) + word_of_int n\<rparr>\<rparr>)
     | _ \<Rightarrow> x86_alu (\<lambda>a b. a + b) d s h)"

definition x86_mul :: "Operand \<Rightarrow> x86 \<Rightarrow> x86" where
  "x86_mul s h =
     (let p = ucast (read32 (Op_gp 32 Gp_eax) h) * ucast (read32 s h) :: u64 in
      no_flags (write32 (Op_gp 32 Gp_edx) (ucast (drop_bit 32 p)) (write32 (Op_gp 32 Gp_eax) (ucast p) h)))"

definition x86_shift :: "(nat \<Rightarrow> u32 \<Rightarrow> u32) \<Rightarrow> Operand \<Rightarrow> Operand \<Rightarrow> x86 \<Rightarrow> x86" where
  "x86_shift f d s h = x86_alu (\<lambda>a b. f (unat (b AND 31)) a) d s h"

definition x86_cmp :: "Operand \<Rightarrow> Operand \<Rightarrow> x86 \<Rightarrow> x86" where
  "x86_cmp a b h = h\<lparr>host_flags := Some (cmp_flags (read32 a h) (read32 b h))\<rparr>"

definition x86_set :: "X86Id \<Rightarrow> Operand \<Rightarrow> x86 \<Rightarrow> x86 option" where
  "x86_set x d h = map_option (\<lambda>f.
     write32 d ((read32 d h AND NOT 0xff) OR of_bool (condition x f)) h) (host_flags h)"

text \<open>
  One instruction other than a jump or \<^verbatim>\<open>ret\<close>. An operand \<^verbatim>\<open>edi\<close> as the destination and a pointer
  outside the moves have no meaning here.
\<close>

fun is_edi :: "Operand \<Rightarrow> bool" where
  "is_edi (Op_gp w g) \<longleftrightarrow> g = Gp_edi"
| "is_edi _ \<longleftrightarrow> False"

fun is_ptr :: "Operand \<Rightarrow> bool" where
  "is_ptr (Op_ptr w g d) \<longleftrightarrow> True"
| "is_ptr _ \<longleftrightarrow> False"

fun x86_exec :: "u64 \<Rightarrow> X86Id \<Rightarrow> Operand list \<Rightarrow> x86 \<Rightarrow> x86 option" where
  "x86_exec mem x [s] h =
     (if is_ptr s \<or> is_edi s then None
      else if x = Id_Mul then Some (x86_mul s h)
      else if x = Id_Setl \<or> x = Id_Setb then x86_set x s h
      else None)"
| "x86_exec mem x [d, s] h =
     (if is_edi d then None
      else if x = Id_Mov then x86_mov mem d s h
      else if x = Id_Movsx then x86_extend mem True d s h
      else if x = Id_Movzx then x86_extend mem False d s h
      else if is_ptr d \<or> is_ptr s then None
      else if x = Id_Xor then Some (x86_alu (\<lambda>a b. a XOR b) d s h)
      else if x = Id_And then Some (x86_alu (\<lambda>a b. a AND b) d s h)
      else if x = Id_Or then Some (x86_alu (\<lambda>a b. a OR b) d s h)
      else if x = Id_Add then Some (x86_add mem d s h)
      else if x = Id_Sub then Some (x86_alu (\<lambda>a b. a - b) d s h)
      else if x = Id_Shl then Some (x86_shift push_bit d s h)
      else if x = Id_Shr then Some (x86_shift drop_bit d s h)
      else if x = Id_Sar then Some (x86_shift signed_drop_bit d s h)
      else if x = Id_Cmp then Some (x86_cmp d s h)
      else None)"
| "x86_exec mem x _ h = None"

section \<open>Running code\<close>

text \<open>The code after the binding of a label.\<close>

fun after_label :: "nat \<Rightarrow> Asm list \<Rightarrow> Asm list option" where
  "after_label l [] = None"
| "after_label l (Bind k # cs) = (if k = l then Some cs else after_label l cs)"
| "after_label l (Emit x ops # cs) = after_label l cs"

text \<open>Whether a jump is taken; only the unconditional one does without flags.\<close>

definition jump_taken :: "X86Id \<Rightarrow> x86 \<Rightarrow> bool option" where
  "jump_taken x h = (if x = Id_Jmp then Some True else map_option (condition x) (host_flags h))"

type_synonym refusal = "X86Id \<Rightarrow> Operand list \<Rightarrow> x86 \<Rightarrow> x86 option"

definition asm_exec :: "u64 \<Rightarrow> refusal \<Rightarrow> X86Id \<Rightarrow> Operand list \<Rightarrow> x86 \<Rightarrow> x86 option" where
  "asm_exec mem refused x ops h = (if encodable x ops then x86_exec mem x ops h else refused x ops h)"

text \<open>
  The code from \<open>cs\<close> on, a suffix of \<open>code\<close>, at most \<open>n\<close> instructions and labels, up to its \<^verbatim>\<open>ret\<close>.
\<close>

fun x86_run :: "u64 \<Rightarrow> refusal \<Rightarrow> nat \<Rightarrow> Asm list \<Rightarrow> Asm list \<Rightarrow> x86 \<Rightarrow> x86 option" where
  "x86_run mem refused 0 code cs h = None"
| "x86_run mem refused (Suc n) code [] h = None"
| "x86_run mem refused (Suc n) code (Bind l # cs) h = x86_run mem refused n code cs h"
| "x86_run mem refused (Suc n) code (Emit x ops # cs) h =
     (if x = Id_Ret then Some h
      else case ops of
        [Op_label l] \<Rightarrow>
          if \<not> is_jump x then None
          else (case jump_taken x h of
              None \<Rightarrow> None
            | Some b \<Rightarrow> (case if b then after_label l code else Some cs of
                None \<Rightarrow> None
              | Some cs' \<Rightarrow> x86_run mem refused n code cs' h))
      | _ \<Rightarrow> (case asm_exec mem refused x ops h of
            None \<Rightarrow> None
          | Some h' \<Rightarrow> x86_run mem refused n code cs h'))"

end
