(* ===== verification/Emitted_Code.thy ===== *)
theory Emitted_Code
  imports X86 Jit_Correct
begin

text \<open>
  How to reason about emitted code: \<open>reaches\<close> relates two points of a run of the code, \<open>emits\<close> is a
  triple for a function of the translator, over the translator and the host when the emitted code
  runs. The code may also go back to its start, which is the second way out of a triple.

  The locale \<open>assembler\<close> states what the translator relies on in asmjit: an instruction that has no
  encoding is refused with an error, which the translator ignores, and leaves no bytes behind.
\<close>

section \<open>Reaching a point of the code\<close>

definition reaches :: "u64 \<Rightarrow> refusal \<Rightarrow> Asm list \<Rightarrow> Asm list \<Rightarrow> x86 \<Rightarrow> Asm list \<Rightarrow> x86 \<Rightarrow> bool" where
  "reaches mem refused code cs h cs' h' \<longleftrightarrow>
     (\<exists>k. \<forall>n. x86_run mem refused (n + k) code cs h = x86_run mem refused n code cs' h')"

lemma reaches_refl: "reaches mem refused code cs h cs h"
  by (auto simp: reaches_def intro: exI [of _ 0])

lemma reaches_trans:
  assumes "reaches mem refused code cs h cs1 h1" "reaches mem refused code cs1 h1 cs2 h2"
  shows "reaches mem refused code cs h cs2 h2"
proof -
  obtain k1 k2 where "\<forall>n. x86_run mem refused (n + k1) code cs h = x86_run mem refused n code cs1 h1"
    "\<forall>n. x86_run mem refused (n + k2) code cs1 h1 = x86_run mem refused n code cs2 h2"
    using assms by (auto simp: reaches_def)
  then have "\<forall>n. x86_run mem refused (n + (k2 + k1)) code cs h = x86_run mem refused n code cs2 h2"
    by (metis add.assoc)
  then show ?thesis unfolding reaches_def by blast
qed

lemma reaches_step:
  assumes "\<And>n. x86_run mem refused (Suc n) code cs h = x86_run mem refused n code cs' h'"
  shows "reaches mem refused code cs h cs' h'"
  unfolding reaches_def by (rule exI [of _ 1]) (simp add: assms)

lemma reaches_ret:
  assumes "reaches mem refused code cs h (Emit Id_Ret [] # cs') h'"
  shows "\<exists>n. x86_run mem refused n code cs h = Some h'"
proof -
  obtain k where "\<forall>n. x86_run mem refused (n + k) code cs h = x86_run mem refused n code (Emit Id_Ret [] # cs') h'"
    using assms by (auto simp: reaches_def)
  from this [rule_format, of 1] show ?thesis by auto
qed

text \<open>Code without labels and jumps.\<close>

definition plain :: "X86Id \<Rightarrow> Operand list \<Rightarrow> bool" where
  "plain x ops \<longleftrightarrow> x \<noteq> Id_Ret \<and> (\<forall>l. ops \<noteq> [Op_label l])"

fun straight :: "u64 \<Rightarrow> refusal \<Rightarrow> Asm list \<Rightarrow> x86 \<Rightarrow> x86 option" where
  "straight mem refused [] h = Some h"
| "straight mem refused (Bind l # cs) h = None"
| "straight mem refused (Emit x ops # cs) h =
     (if plain x ops
      then (case asm_exec mem refused x ops h of None \<Rightarrow> None | Some h' \<Rightarrow> straight mem refused cs h')
      else None)"

lemma run_plain:
  "plain x ops \<Longrightarrow> asm_exec mem refused x ops h = Some h' \<Longrightarrow>
    x86_run mem refused (Suc n) code (Emit x ops # cs) h = x86_run mem refused n code cs h'"
  by (auto simp: plain_def split: list.split Operand.split)

lemma straight_reaches:
  "straight mem refused C h = Some h' \<Longrightarrow> reaches mem refused code (C @ cs) h cs h'"
proof (induction C arbitrary: h)
  case Nil
  then show ?case by (simp add: reaches_refl)
next
  case (Cons c C)
  then obtain x ops where c: "c = Emit x ops" "plain x ops" by (cases c) (auto split: if_splits)
  with Cons.prems obtain h1 where h1: "asm_exec mem refused x ops h = Some h1" "straight mem refused C h1 = Some h'"
    by (auto split: option.splits)
  then have "reaches mem refused code ((c # C) @ cs) h (C @ cs) h1"
    unfolding c append_Cons by (intro reaches_step run_plain c(2))
  with Cons.IH [OF h1(2)] show ?case by (blast intro: reaches_trans)
qed

text \<open>The labels bound in a code.\<close>

fun bound :: "Asm list \<Rightarrow> nat set" where
  "bound [] = {}"
| "bound (Bind l # cs) = insert l (bound cs)"
| "bound (Emit x ops # cs) = bound cs"

lemma bound_append [simp]: "bound (c1 @ c2) = bound c1 \<union> bound c2"
proof (induction c1)
  case (Cons c c1)
  then show ?case by (cases c) auto
qed simp

lemma after_label_skip: "l \<notin> bound pre \<Longrightarrow> after_label l (pre @ cs) = after_label l cs"
proof (induction pre)
  case (Cons c pre)
  then show ?case by (cases c) auto
qed simp

lemma straight_bound: "straight mem refused C h = Some h' \<Longrightarrow> bound C = {}"
proof (induction C arbitrary: h)
  case (Cons c C)
  then show ?case by (cases c) (auto split: if_splits option.splits)
qed simp

section \<open>Code that does what it says\<close>

text \<open>
  A refused instruction that would write the constant 0, which is where register 0 lives, is no
  loss. A shift of \<^verbatim>\<open>ecx\<close> by \<^verbatim>\<open>cl\<close> is not what the translator means.
\<close>

definition dropped :: "X86Id \<Rightarrow> Operand list \<Rightarrow> bool" where
  "dropped x ops \<longleftrightarrow> x \<in> {Id_Mov, Id_Movsx, Id_Movzx, Id_Add, Id_Setl, Id_Setb} \<and>
     ops \<noteq> [] \<and> hd ops = Op_imm 0"

fun sound_asm :: "Asm \<Rightarrow> bool" where
  "sound_asm (Emit x ops) \<longleftrightarrow> (encodable x ops \<or> dropped x ops) \<and> ops \<noteq> [Op_gp 32 Gp_ecx, Op_gp 8 Gp_ecx]"
| "sound_asm (Bind l) \<longleftrightarrow> True"

abbreviation sound :: "Asm list \<Rightarrow> bool" where
  "sound code \<equiv> list_all sound_asm code"

lemma dropped_not_encodable: "dropped x ops \<Longrightarrow> \<not> encodable x ops"
  by (cases "(x, ops)" rule: encodable.cases)
    (auto simp: dropped_def encodable1_def encodable2_def is_jump_def pair32_def)

section \<open>Triples for functions that emit code\<close>

locale assembler =
  fixes mem :: u64 and refused :: refusal
  assumes emits_nothing: "\<not> encodable x ops \<Longrightarrow> refused x ops h = Some h"
begin

lemma asm_exec_encodable [simp]: "encodable x ops \<Longrightarrow> asm_exec mem refused x ops h = x86_exec mem x ops h"
  by (simp add: asm_exec_def)

lemma asm_exec_dropped [simp]: "dropped x ops \<Longrightarrow> asm_exec mem refused x ops h = Some h"
  by (simp add: asm_exec_def dropped_not_encodable emits_nothing)

text \<open>The ways out of a piece \<open>C\<close> of code: behind it, and back to the start of the whole code.\<close>

definition falls :: "nat \<Rightarrow> Asm list \<Rightarrow> x86 \<Rightarrow> x86 \<Rightarrow> bool" where
  "falls l C h h' \<longleftrightarrow> (\<forall>pre post. bound pre \<subseteq> {..<l} \<longrightarrow>
     reaches mem refused (pre @ C @ post) (C @ post) h post h')"

definition restarts :: "nat \<Rightarrow> Asm list \<Rightarrow> x86 \<Rightarrow> x86 \<Rightarrow> bool" where
  "restarts l C h h' \<longleftrightarrow> (\<forall>pre post W. bound pre \<subseteq> {..<l} \<longrightarrow>
     after_label func_start (pre @ C @ post) = Some W \<longrightarrow>
     reaches mem refused (pre @ C @ post) (C @ post) h W h')"

definition emits ::
  "(Translator \<Rightarrow> bool) \<Rightarrow> (Translator \<Rightarrow> x86 \<Rightarrow> bool) \<Rightarrow> 'a T \<Rightarrow>
    (Translator \<Rightarrow> bool) \<Rightarrow> ('a \<Rightarrow> Translator \<Rightarrow> x86 \<Rightarrow> bool) \<Rightarrow> (x86 \<Rightarrow> bool) \<Rightarrow> bool"
where
  "emits K P m K' Q E \<longleftrightarrow> (\<forall>t a t'. K t \<longrightarrow> m t = (Inr a, t') \<longrightarrow> K' t' \<and>
     (\<exists>C. tr_code t' = tr_code t @ C \<and> labels t \<le> labels t' \<and> bound C \<subseteq> {labels t..<labels t'} \<and>
       (\<forall>h. P t h \<longrightarrow> sound C \<longrightarrow>
         (\<exists>h'. Q a t' h' \<and> falls (labels t) C h h' \<or> E h' \<and> restarts (labels t) C h h'))))"

lemma falls_append:
  assumes "falls l C1 h h1" "falls l' C2 h1 h2" "bound C1 \<subseteq> {l..<l'}" "l \<le> l'"
  shows "falls l (C1 @ C2) h h2"
  unfolding falls_def
proof (intro allI impI)
  fix pre post assume pre: "bound pre \<subseteq> {..<l}"
  have "reaches mem refused (pre @ C1 @ (C2 @ post)) (C1 @ (C2 @ post)) h (C2 @ post) h1"
    using assms(1) pre unfolding falls_def by blast
  moreover have "bound (pre @ C1) \<subseteq> {..<l'}" using pre assms(3,4) by fastforce
  then have "reaches mem refused ((pre @ C1) @ C2 @ post) (C2 @ post) h1 post h2"
    using assms(2) unfolding falls_def by blast
  ultimately show "reaches mem refused (pre @ (C1 @ C2) @ post) ((C1 @ C2) @ post) h post h2"
    by (simp add: reaches_trans [of mem refused _ _ h "C2 @ post" h1])
qed

lemma restarts_append1: "restarts l C1 h h1 \<Longrightarrow> restarts l (C1 @ C2) h h1"
  unfolding restarts_def by (metis append.assoc)

lemma restarts_append2:
  assumes "falls l C1 h h1" "restarts l' C2 h1 h2" "bound C1 \<subseteq> {l..<l'}" "l \<le> l'"
  shows "restarts l (C1 @ C2) h h2"
  unfolding restarts_def
proof (intro allI impI)
  fix pre post W
  assume pre: "bound pre \<subseteq> {..<l}" and W: "after_label func_start (pre @ (C1 @ C2) @ post) = Some W"
  have "reaches mem refused (pre @ C1 @ (C2 @ post)) (C1 @ (C2 @ post)) h (C2 @ post) h1"
    using assms(1) pre unfolding falls_def by blast
  moreover have "bound (pre @ C1) \<subseteq> {..<l'}" using pre assms(3,4) by fastforce
  then have "reaches mem refused ((pre @ C1) @ C2 @ post) (C2 @ post) h1 W h2"
    using assms(2) W unfolding restarts_def by (metis append.assoc)
  ultimately show "reaches mem refused (pre @ (C1 @ C2) @ post) ((C1 @ C2) @ post) h W h2"
    by (simp add: reaches_trans [of mem refused _ _ h "C2 @ post" h1])
qed

lemma emits_bnd:
  assumes m: "emits K P m K1 R E" and f: "\<And>a. emits K1 (R a) (f a) K' Q E"
  shows "emits K P (bnd m f) K' Q E"
  unfolding emits_def
proof (intro allI impI)
  fix t b t' assume K: "K t" and "bnd m f t = (Inr b, t')"
  then obtain a t1 where a: "m t = (Inr a, t1)" "f a t1 = (Inr b, t')"
    by (auto simp: bnd_def split: prod.splits sum.splits)
  obtain C1 where C1: "tr_code t1 = tr_code t @ C1" "labels t \<le> labels t1" "bound C1 \<subseteq> {labels t..<labels t1}"
    "\<And>h. P t h \<Longrightarrow> sound C1 \<Longrightarrow>
      \<exists>h'. R a t1 h' \<and> falls (labels t) C1 h h' \<or> E h' \<and> restarts (labels t) C1 h h'" and K1: "K1 t1"
    using m a(1) K unfolding emits_def by blast
  obtain C2 where C2: "tr_code t' = tr_code t1 @ C2" "labels t1 \<le> labels t'" "bound C2 \<subseteq> {labels t1..<labels t'}"
    "\<And>h. R a t1 h \<Longrightarrow> sound C2 \<Longrightarrow>
      \<exists>h'. Q b t' h' \<and> falls (labels t1) C2 h h' \<or> E h' \<and> restarts (labels t1) C2 h h'" and K': "K' t'"
    using f [of a] a(2) K1 unfolding emits_def by blast
  have "\<exists>h'. Q b t' h' \<and> falls (labels t) (C1 @ C2) h h' \<or> E h' \<and> restarts (labels t) (C1 @ C2) h h'"
    if P: "P t h" and s: "sound (C1 @ C2)" for h
  proof -
    have s: "sound C1" "sound C2" using s by simp_all
    from C1(4) [OF P s(1)] obtain h1 where
      "R a t1 h1 \<and> falls (labels t) C1 h h1 \<or> E h1 \<and> restarts (labels t) C1 h h1" by blast
    then show ?thesis
    proof
      assume "E h1 \<and> restarts (labels t) C1 h h1"
      then show ?thesis using restarts_append1 by blast
    next
      assume 1: "R a t1 h1 \<and> falls (labels t) C1 h h1"
      with C2(4) s(2) obtain h2 where
        "Q b t' h2 \<and> falls (labels t1) C2 h1 h2 \<or> E h2 \<and> restarts (labels t1) C2 h1 h2" by blast
      with 1 C1(2,3) show ?thesis using falls_append restarts_append2 by blast
    qed
  qed
  moreover have "tr_code t' = tr_code t @ (C1 @ C2)" "labels t \<le> labels t'"
    "bound (C1 @ C2) \<subseteq> {labels t..<labels t'}"
    using C1(1-3) C2(1-3) by (simp_all, fastforce)
  ultimately show "K' t' \<and> (\<exists>C. tr_code t' = tr_code t @ C \<and> labels t \<le> labels t' \<and> bound C \<subseteq> {labels t..<labels t'} \<and>
      (\<forall>h. P t h \<longrightarrow> sound C \<longrightarrow>
        (\<exists>h'. Q b t' h' \<and> falls (labels t) C h h' \<or> E h' \<and> restarts (labels t) C h h')))"
    using K' by blast
qed

lemma emits_weaken:
  assumes "emits K P m K' Q E" "\<And>t. K2 t \<Longrightarrow> K t" "\<And>t h. K2 t \<Longrightarrow> P2 t h \<Longrightarrow> P t h"
    "\<And>t. K' t \<Longrightarrow> K2' t" "\<And>a t h. Q a t h \<Longrightarrow> Q2 a t h"
  shows "emits K2 P2 m K2' Q2 E"
  using assms unfolding emits_def by meson

text \<open>The form in which the triples of single functions are proved.\<close>

lemma emits_straight:
  assumes "returns K m K'" and "\<And>t a t'. K t \<Longrightarrow> m t = (Inr a, t') \<Longrightarrow>
      \<exists>C. tr_code t' = tr_code t @ C \<and> labels t' = labels t \<and> bound C = {} \<and>
      (\<forall>h. P t h \<longrightarrow> sound C \<longrightarrow> (\<exists>h'. straight mem refused C h = Some h' \<and> Q a t' h'))"
  shows "emits K P m K' Q E"
  unfolding emits_def
proof (intro allI impI conjI)
  fix t a t' assume K: "K t" and m: "m t = (Inr a, t')"
  show "K' t'" using returnsD [OF assms(1) K] m by simp
  from assms(2) [OF K m] obtain C where C: "tr_code t' = tr_code t @ C" "labels t' = labels t" "bound C = {}"
    "\<And>h. P t h \<Longrightarrow> sound C \<Longrightarrow> \<exists>h'. straight mem refused C h = Some h' \<and> Q a t' h'" by blast
  show "\<exists>C. tr_code t' = tr_code t @ C \<and> labels t \<le> labels t' \<and> bound C \<subseteq> {labels t..<labels t'} \<and>
      (\<forall>h. P t h \<longrightarrow> sound C \<longrightarrow>
        (\<exists>h'. Q a t' h' \<and> falls (labels t) C h h' \<or> E h' \<and> restarts (labels t) C h h'))"
    using C straight_reaches unfolding falls_def by (intro exI [of _ C]) fastforce
qed

end

text \<open>An assembler that leaves no trace of an instruction it refuses.\<close>

definition skip_refused :: refusal where
  "skip_refused x ops h = Some h"

interpretation skipping: assembler mem skip_refused for mem
  by unfold_locales (simp add: skip_refused_def)

end
