(* ===== verification/Jit_Places.thy ===== *)
theory Jit_Places
  imports Emitted_Code Isa_Spec
begin

text \<open>
  The places of guest registers when the emitted code runs. A place is a host register, a slot
  of the state or the program counter; different places do not overlap. \<open>agrees\<close> relates the host to a
  state of the instruction set through the allocation of the translator, and \<open>effect\<close> says that code
  has changed one place only, next to the translator's two scratch registers and the flags.
\<close>

section \<open>Places\<close>

fun place :: "Operand \<Rightarrow> bool" where
  "place (Op_gp w g) \<longleftrightarrow> w = 32 \<and> g \<noteq> Gp_edi"
| "place (Op_slot r) \<longleftrightarrow> 0 < r \<and> r < 32"
| "place Op_pc \<longleftrightarrow> True"
| "place _ \<longleftrightarrow> False"

text \<open>Where the translator writes a guest register, and from where it reads one.\<close>

definition dest :: "Operand \<Rightarrow> bool" where
  "dest d \<longleftrightarrow> place d \<or> d = Op_imm 0"

definition source :: "Operand \<Rightarrow> bool" where
  "source a \<longleftrightarrow> place a \<or> (\<exists>n. a = Op_imm n)"

lemma dest_source: "dest d \<Longrightarrow> source d"
  by (auto simp: dest_def source_def)

lemma places [simp]: "place Tmp1" "place Tmp2" "place (Op_gp 32 Gp_ecx)" "source (Op_imm n)" "source Op_pc"
    "\<not> place (Op_imm n)" "dest (Op_imm 0)"
  by (simp_all add: Tmp1_def Tmp2_def source_def dest_def)

lemma place_dest [simp]: "place d \<Longrightarrow> dest d" "place d \<Longrightarrow> source d"
  by (simp_all add: dest_def source_def)

lemma place_not_ptr: "source x \<Longrightarrow> \<not> is_ptr x" "dest x \<Longrightarrow> \<not> is_edi x"
  by (cases x; simp add: source_def dest_def)+

definition regs_fit :: "x86 \<Rightarrow> bool" where
  "regs_fit h \<longleftrightarrow> length (regs (host_vm h)) = 32"

lemma low_half [simp]: "(ucast (ucast v :: u64) :: u32) = v"
  by (rule bit_word_eqI) (simp add: bit_simps)

lemma read32_write32:
  assumes "regs_fit h" "place x" "place y"
  shows "read32 y (write32 x v h) = (if y = x then v else read32 y h)"
proof -
  have slots: "unat r = unat q \<longleftrightarrow> r = q" for r q :: Reg by (rule word_unat_eq_iff [symmetric])
  show ?thesis
    using assms
    by (cases x; cases y; simp add: regs_fit_def write_gp_def nth_list_update slots word_less_nat_alt)
qed

lemma read32_write32_same [simp]: "regs_fit h \<Longrightarrow> place x \<Longrightarrow> read32 x (write32 x v h) = v"
  by (simp add: read32_write32)

lemma read32_write32_other [simp]:
  "regs_fit h \<Longrightarrow> dest x \<Longrightarrow> source y \<Longrightarrow> y \<noteq> x \<Longrightarrow> read32 y (write32 x v h) = read32 y h"
  by (auto simp: read32_write32 source_def dest_def)

lemma write32_imm [simp]: "write32 (Op_imm n) v h = h"
  by simp

lemma regs_fit_simps [simp]: "regs_fit (write32 x v h) = regs_fit h" "regs_fit (no_flags h) = regs_fit h"
    "regs_fit (x86_cmp a b h) = regs_fit h" "regs_fit (write_gp g w h) = regs_fit h"
  by (cases x; simp add: regs_fit_def write_gp_def no_flags_def x86_cmp_def)+

lemma read32_flags [simp]: "read32 y (no_flags h) = read32 y h" "read32 y (x86_cmp a b h) = read32 y h"
    "read32 y (h\<lparr>host_flags := f\<rparr>) = read32 y h"
  by (cases y; simp add: no_flags_def x86_cmp_def)+

lemma host_flags_simps [simp]: "host_flags (write32 x v h) = host_flags h" "host_flags (write_gp g w h) = host_flags h"
    "host_flags (no_flags h) = None" "host_flags (x86_cmp a b h) = Some (cmp_flags (read32 a h) (read32 b h))"
  by (cases x; simp add: write_gp_def no_flags_def x86_cmp_def)+

section \<open>The comparison\<close>

lemma signed_less: "(sint (a - b) < 0) \<noteq> (sint (a - b) \<noteq> sint a - sint b) \<longleftrightarrow> sint a < sint (b :: u32)"
proof -
  have r: "- 2147483648 \<le> sint x" "sint x < 2147483648" for x :: u32
    using sint_ge [of x] sint_lt [of x] by simp_all
  define x where "x = sint a - sint b"
  have "a - b = word_of_int x" by (simp add: x_def)
  then have d: "sint (a - b) = (x + 2147483648) mod 4294967296 - 2147483648" by (simp add: int_word_sint)
  have range: "- 4294967296 < x" "x < 4294967296" using r [of a] r [of b] by (simp_all add: x_def)
  then have "(x + 2147483648) mod 4294967296 = (if x < - 2147483648 then x + 6442450944
      else if x < 2147483648 then x + 2147483648 else x - 2147483648)"
    using mod_pos_pos_trivial [of "x + 6442450944" 4294967296] mod_pos_pos_trivial [of "x + 2147483648" 4294967296]
      mod_pos_pos_trivial [of "x - 2147483648" 4294967296]
      mod_add_self2 [of "x + 2147483648" 4294967296] mod_add_self2 [of "x - 2147483648" 4294967296]
    by (auto simp: algebra_simps)
  with range have "((x + 2147483648) mod 4294967296 - 2147483648 < 0) \<noteq>
      ((x + 2147483648) mod 4294967296 - 2147483648 \<noteq> x) \<longleftrightarrow> x < 0"
    by (simp split: if_splits)
  then show ?thesis unfolding d by (simp add: x_def)
qed

section \<open>What code leaves alone\<close>

text \<open>The state without the registers 1 to 31.\<close>

definition rest :: "x86 \<Rightarrow> State" where
  "rest h = (host_vm h)\<lparr>regs := take 1 (regs (host_vm h))\<rparr>"

lemma rest_write32 [simp]: "dest x \<Longrightarrow> x \<noteq> Op_pc \<Longrightarrow> rest (write32 x v h) = rest h"
proof (cases x)
  case (Op_slot r)
  assume "dest x"
  with Op_slot have "1 \<le> unat r" by (simp add: dest_def word_less_nat_alt)
  with Op_slot show ?thesis by (simp add: rest_def)
qed (simp_all add: rest_def write_gp_def dest_def)

lemma rest_simps [simp]:
  "rest (write32 Op_pc v h) = (rest h)\<lparr>pc := v\<rparr>"
  "rest (no_flags h) = rest h" "rest (x86_cmp a b h) = rest h" "rest (write_gp g w h) = rest h"
  by (simp_all add: rest_def write_gp_def no_flags_def x86_cmp_def)

lemma rest_fields:
  "pmem (host_vm h) = pmem (rest h)" "pmem_size (host_vm h) = pmem_size (rest h)" "pc (host_vm h) = pc (rest h)"
  by (simp_all add: rest_def)

definition effect :: "Operand \<Rightarrow> u32 \<Rightarrow> x86 \<Rightarrow> x86 \<Rightarrow> bool" where
  "effect d v h h' \<longleftrightarrow> regs_fit h' \<and> rest h' = rest h \<and> (place d \<longrightarrow> read32 d h' = v) \<and>
     (\<forall>y. place y \<and> y \<notin> {Tmp1, Tmp2, d} \<longrightarrow> read32 y h' = read32 y h)"

section \<open>The allocation when the code runs\<close>

definition opnd :: "Translator \<Rightarrow> Reg \<Rightarrow> Operand" where
  "opnd t r = (if r = 0 then Op_imm 0 else reg_mapping t ! unat r)"

lemma opnd_simps [simp]: "opnd (t\<lparr>tr_code := c\<rparr>) = opnd t" "opnd (t\<lparr>labels := l\<rparr>) = opnd t"
    "opnd (t\<lparr>cur_inst := k\<rparr>) = opnd t" "opnd t 0 = Op_imm 0" "opnd (t\<lparr>reg_pool := g\<rparr>) = opnd t"
  by (simp_all add: opnd_def fun_eq_iff)

lemma reg_index: "(r :: Reg) < 32 \<Longrightarrow> unat r < 32" "r \<noteq> 0 \<Longrightarrow> 0 < unat r"
  by (simp_all add: word_less_nat_alt unat_gt_0)

lemma opnd_cases:
  assumes "alloc_ok t" "r < 32" "r \<noteq> 0"
  obtains "opnd t r = Op_slot r" | g where "g \<in> set pool_regs" "opnd t r = Op_gp 32 g" "g \<notin> set (reg_pool t)"
  using alloc_okD(5) [OF assms(1) reg_index(2) [OF assms(3)] reg_index(1) [OF assms(2)]] assms(3)
  by (auto simp: opnd_def)

lemma opnd_place: "alloc_ok t \<Longrightarrow> r < 32 \<Longrightarrow> r \<noteq> 0 \<Longrightarrow> place (opnd t r)"
  by (erule opnd_cases) (auto simp: pool_regs_def word_neq_0_conv)

lemma opnd_dest: "alloc_ok t \<Longrightarrow> r < 32 \<Longrightarrow> dest (opnd t r)"
  by (cases "r = 0") (simp_all add: opnd_place)

lemma opnd_free: "alloc_ok t \<Longrightarrow> r < 32 \<Longrightarrow> opnd t r \<noteq> Tmp1 \<and> opnd t r \<noteq> Tmp2 \<and> opnd t r \<noteq> Op_pc"
  by (cases "r = 0") (auto simp: pool_regs_def Tmp1_def Tmp2_def elim!: opnd_cases)

lemma opnd_inj:
  assumes "alloc_ok t" "r < 32" "q < 32" "opnd t r = opnd t q"
  shows "r = q"
proof (cases "r = 0 \<or> q = 0")
  case True
  then have "opnd t r = Op_imm 0" "opnd t q = Op_imm 0" using assms(4) by auto
  then show ?thesis using opnd_place [OF assms(1,2)] opnd_place [OF assms(1,3)] by auto
next
  case False
  then have 0: "r \<noteq> 0" "q \<noteq> 0" by simp_all
  show ?thesis
  proof (rule opnd_cases [OF assms(1,2) 0(1)])
    assume r: "opnd t r = Op_slot r"
    have "opnd t q = Op_slot r" using assms(4) r by simp
    show ?thesis by (rule opnd_cases [OF assms(1,3) 0(2)]) (use \<open>opnd t q = Op_slot r\<close> in simp_all)
  next
    fix g assume r: "opnd t r = Op_gp 32 g"
    then have "reg_mapping t ! unat r = Op_gp 32 g" "reg_mapping t ! unat q = Op_gp 32 g"
      using assms(4) 0 by (simp_all add: opnd_def)
    then have "unat r = unat q"
      using alloc_okD(6) [OF assms(1)] reg_index(1) [OF assms(2)] reg_index(1) [OF assms(3)] by blast
    then show ?thesis by (simp add: word_unat_eq_iff)
  qed
qed

text \<open>
  The guest registers in \<open>A\<close> have, where the translator keeps them, the values of the architectural
  state; so have the program counter and the memory. Everything else is as in \<open>s\<close>.
\<close>

definition agrees ::
  "Reg set \<Rightarrow> State \<Rightarrow> Translator \<Rightarrow> x86 \<Rightarrow> u32 \<Rightarrow> u32 list \<times> (nat \<Rightarrow> u8) \<Rightarrow> bool"
where
  "agrees A s t h at = (\<lambda>(xs, mem). regs_fit h \<and> length xs = 32 \<and> xs ! 0 = 0 \<and>
     (\<forall>r \<in> A. r < 32 \<longrightarrow> read32 (opnd t r) h = xs ! unat r) \<and>
     rest h = s\<lparr>regs := [0], pmem := mem, pc := at\<rparr>)"

lemma agrees_reads: "agrees A s t h at (xs, mem) \<Longrightarrow> r \<in> A \<Longrightarrow> r < 32 \<Longrightarrow> read32 (opnd t r) h = xs ! unat r"
  by (simp add: agrees_def)

lemma agrees_code [simp]: "agrees A s (t\<lparr>tr_code := c\<rparr>) = agrees A s t" "agrees A s (t\<lparr>labels := l\<rparr>) = agrees A s t"
    "agrees A s (t\<lparr>cur_inst := k\<rparr>) = agrees A s t"
  by (simp_all add: agrees_def fun_eq_iff)

lemma isa_write_nth:
  assumes "length xs = 32" "r < 32" "rd < 32"
  shows "isa_write rd v xs ! unat r = (if r = rd \<and> rd \<noteq> 0 then v else xs ! unat r)"
  using assms reg_index(1) [OF assms(3)] by (auto simp: isa_write_def nth_list_update word_unat_eq_iff)

lemma isa_write_keeps [simp]:
  "length (isa_write rd v xs) = length xs" "xs ! 0 = 0 \<Longrightarrow> isa_write rd v xs ! 0 = 0" "isa_write 0 v xs = xs"
  by (auto simp: isa_write_def nth_list_update unsigned_eq_0_iff)

text \<open>Code that changes the place of \<open>rd\<close>, and perhaps the program counter, carries out a write to \<open>rd\<close>.\<close>

lemma agrees_write:
  assumes ok: "alloc_ok t" and rd: "rd < 32" and A: "insert rd A = UNIV" and h: "agrees A s t h at (xs, mem)"
    and fit: "regs_fit h'" "rest h' = (rest h)\<lparr>pc := p\<rparr>"
    and d: "place (opnd t rd) \<Longrightarrow> read32 (opnd t rd) h' = v"
    and other: "\<And>y. place y \<Longrightarrow> y \<notin> {Tmp1, Tmp2, Op_pc, opnd t rd} \<Longrightarrow> read32 y h' = read32 y h"
  shows "agrees UNIV s t h' p (isa_write rd v xs, mem)"
proof -
  have len: "length xs = 32" and z: "xs ! 0 = 0" using h by (simp_all add: agrees_def)
  have "read32 (opnd t r) h' = isa_write rd v xs ! unat r" if r: "r < 32" for r
  proof (cases "r = 0 \<or> r = rd")
    case True
    then show ?thesis
      using d z opnd_place [OF ok rd] isa_write_nth [OF len r rd, of v] by (cases "r = 0") auto
  next
    case False
    then have "r \<in> A" using A by auto
    moreover have "opnd t r \<noteq> opnd t rd" using False opnd_inj [OF ok r rd] by blast
    ultimately show ?thesis
      using other h r False opnd_place [OF ok r] opnd_free [OF ok r] isa_write_nth [OF len r rd, of v]
      by (auto simp: agrees_def)
  qed
  with h fit show ?thesis by (auto simp: agrees_def)
qed

lemma agrees_effect:
  assumes ok: "alloc_ok t" and rd: "rd < 32" and A: "insert rd A = UNIV"
    and h: "agrees A s t h at (xs, mem)" and e: "effect (opnd t rd) v h h'"
  shows "agrees UNIV s t h' at (isa_write rd v xs, mem)"
  by (rule agrees_write [OF ok rd A h]) (use e h in \<open>auto simp: effect_def agrees_def\<close>)

end
