(* ===== verification/Jit_Templates.thy ===== *)
theory Jit_Templates
  imports Jit_Places
begin

text \<open>
  The code that the templates of \<^verbatim>\<open>translate_inst.cpp\<close> emit, and its effect: a template that computes a
  guest register changes the place of that register to the value, and nothing else that counts.
\<close>

section \<open>The places of an instruction\<close>

definition guest :: "Operand \<Rightarrow> bool" where
  "guest x \<longleftrightarrow> dest x \<and> x \<noteq> Tmp1 \<and> x \<noteq> Tmp2 \<and> x \<noteq> Op_pc"

lemma guestD [simp]: "guest x \<Longrightarrow> dest x" "guest x \<Longrightarrow> source x" "guest x \<Longrightarrow> x \<noteq> Tmp1" "guest x \<Longrightarrow> x \<noteq> Tmp2"
    "guest x \<Longrightarrow> x \<noteq> Op_pc"
  unfolding guest_def by (blast intro: dest_source)+

lemma guestD' [simp]: "guest x \<Longrightarrow> Tmp1 \<noteq> x" "guest x \<Longrightarrow> Tmp2 \<noteq> x" "guest x \<Longrightarrow> Op_pc \<noteq> x"
  using guestD by blast+

lemma opnd_guest: "alloc_ok t \<Longrightarrow> r < 32 \<Longrightarrow> guest (opnd t r)"
  using opnd_dest opnd_free unfolding guest_def by blast

lemma tmps [simp]: "Tmp1 \<noteq> Tmp2" "Tmp2 \<noteq> Tmp1" "Tmp1 \<noteq> Op_pc" "Tmp2 \<noteq> Op_pc" "Tmp1 \<noteq> Op_imm n" "Tmp2 \<noteq> Op_imm n"
    "Op_isReg Tmp1" "Op_isReg Tmp2" "\<not> Op_isMem Tmp1" "\<not> Op_isMem Tmp2" "Op_pc \<noteq> Tmp1" "Op_pc \<noteq> Tmp2"
    "Op_imm n \<noteq> Tmp1" "Op_imm n \<noteq> Tmp2"
  by (simp_all add: Tmp1_def Tmp2_def)

lemma not_guest [simp]: "\<not> guest Tmp1" "\<not> guest Tmp2" "\<not> guest Op_pc" "guest (Op_imm 0)"
  by (simp_all add: guest_def)

text \<open>The effect on \<open>d\<close> of two pieces of code, one after the other.\<close>

lemma effect_trans: "effect d v h h1 \<Longrightarrow> effect d w h1 h2 \<Longrightarrow> effect d w h h2"
  by (simp add: effect_def)

lemma effect_reads:
  assumes "effect d v h h1" "guest a"
  shows "read32 a h1 = (if a = d \<and> place d then v else read32 a h)"
proof (cases "place a")
  case False
  then have "a = Op_imm 0" using guestD(1) [OF assms(2)] by (simp add: dest_def)
  with False show ?thesis by auto
next
  case True
  then show ?thesis using assms(1) guestD [OF assms(2)] by (cases "a = d") (auto simp: effect_def)
qed

section \<open>Moves\<close>

definition mv :: "Operand \<Rightarrow> Operand \<Rightarrow> Asm" where
  "mv d a = (if Op_isReg d \<and> a = Op_imm 0 then Emit Id_Xor [d, d] else Emit Id_Mov [d, a])"

definition moved :: "Operand \<Rightarrow> Operand \<Rightarrow> x86 \<Rightarrow> x86" where
  "moved d a h = (if Op_isReg d \<and> a = Op_imm 0 then no_flags (write32 d 0 h) else write32 d (read32 a h) h)"

lemma bnd_emit [simp]: "bnd (emit x ops) f t = f () (t\<lparr>tr_code := tr_code t @ [Emit x ops]\<rparr>)"
  by (simp add: emit_def)

lemma emit_eq [simp]: "emit x ops t = (Inr (), t\<lparr>tr_code := tr_code t @ [Emit x ops]\<rparr>)"
  by (simp add: emit_def)

lemma TranslateMove_eq [simp]: "TranslateMove d a t = (Inr (), t\<lparr>tr_code := tr_code t @ [mv d a]\<rparr>)"
  by (simp add: TranslateMove_def mv_def)

lemma bnd_TranslateMove [simp]: "bnd (TranslateMove d a) f t = f () (t\<lparr>tr_code := tr_code t @ [mv d a]\<rparr>)"
  by (simp add: bnd_Inr)

lemma bound_mv [simp]: "bound (mv d a # C) = bound C"
  by (simp add: mv_def)

lemma moved_simps [simp]:
  "regs_fit (moved d a h) = regs_fit h"
  "dest d \<Longrightarrow> d \<noteq> Op_pc \<Longrightarrow> rest (moved d a h) = rest h"
  "regs_fit h \<Longrightarrow> place d \<Longrightarrow> read32 d (moved d a h) = read32 a h"
  "regs_fit h \<Longrightarrow> dest d \<Longrightarrow> source y \<Longrightarrow> y \<noteq> d \<Longrightarrow> read32 y (moved d a h) = read32 y h"
  by (auto simp: moved_def dest_def)

definition move_code :: "Operand \<Rightarrow> Operand \<Rightarrow> Asm list" where
  "move_code d a = (if Op_isReg d \<or> Op_isReg a then [mv d a] else [mv Tmp1 a, mv d Tmp1])"

lemma move_via_tmp_eq [simp]: "move_via_tmp d a t = (Inr (), t\<lparr>tr_code := tr_code t @ move_code d a\<rparr>)"
  by (simp add: move_via_tmp_def move_code_def)

lemma bnd_move_via_tmp [simp]: "bnd (move_via_tmp d a) f t = f () (t\<lparr>tr_code := tr_code t @ move_code d a\<rparr>)"
  by (simp add: bnd_Inr)

lemma bound_move_code [simp]: "bound (move_code d a) = {}"
  by (simp add: move_code_def)

section \<open>Operations\<close>

fun alu_fn :: "X86Id \<Rightarrow> u32 \<Rightarrow> u32 \<Rightarrow> u32" where
  "alu_fn Id_Xor = (\<lambda>a b. a XOR b)"
| "alu_fn Id_And = (\<lambda>a b. a AND b)"
| "alu_fn Id_Or = (\<lambda>a b. a OR b)"
| "alu_fn Id_Add = (\<lambda>a b. a + b)"
| "alu_fn Id_Sub = (\<lambda>a b. a - b)"
| "alu_fn Id_Shl = (\<lambda>a b. push_bit (unat (b AND 31)) a)"
| "alu_fn Id_Shr = (\<lambda>a b. drop_bit (unat (b AND 31)) a)"
| "alu_fn Id_Sar = (\<lambda>a b. signed_drop_bit (unat (b AND 31)) a)"
| "alu_fn _ = (\<lambda>a b. a)"

definition is_alu :: "X86Id \<Rightarrow> bool" where
  "is_alu x \<longleftrightarrow> x \<in> {Id_Xor, Id_And, Id_Or, Id_Add, Id_Sub, Id_Shl, Id_Shr, Id_Sar}"

lemma x86_mov_eq: "\<not> is_ptr d \<Longrightarrow> \<not> is_ptr a \<Longrightarrow> x86_mov mem d a h = Some (write32 d (read32 a h) h)"
  unfolding x86_mov_def by (cases d) (cases a; simp)+

text \<open>From here on the instructions are executed by the rules below.\<close>

declare straight.simps(2,3) [simp del] sound_asm.simps(1) [simp del] encodable.simps [simp del]

context assembler
begin

lemma straight_Cons:
  "asm_exec mem refused x ops h = Some h' \<Longrightarrow> plain x ops \<Longrightarrow>
    straight mem refused (Emit x ops # C) h = straight mem refused C h'"
  by (simp add: straight.simps)

lemma straight_append:
  "straight mem refused (C1 @ C2) h =
    (case straight mem refused C1 h of None \<Rightarrow> None | Some h' \<Rightarrow> straight mem refused C2 h')"
proof (induction C1 arbitrary: h)
  case (Cons c C1)
  then show ?case by (cases c) (auto simp: straight.simps split: option.split)
qed simp

lemma source_not_label: "source a \<Longrightarrow> a \<noteq> Op_label l"
  by (auto simp: source_def)

lemma straight_mov:
  assumes "sound_asm (Emit Id_Mov [d, a])" "dest d" "source a"
  shows "straight mem refused (Emit Id_Mov [d, a] # C) h = straight mem refused C (write32 d (read32 a h) h)"
proof (rule straight_Cons)
  have n: "\<not> is_ptr a" "\<not> is_edi d" "\<not> is_ptr d"
    using assms(2,3) place_not_ptr dest_source by auto
  show "asm_exec mem refused Id_Mov [d, a] h = Some (write32 d (read32 a h) h)"
  proof (cases "encodable Id_Mov [d, a]")
    case True
    with n show ?thesis by (simp add: x86_mov_eq)
  next
    case False
    then have dr: "dropped Id_Mov [d, a]" using assms(1) by (simp add: sound_asm.simps)
    then have "d = Op_imm 0" by (simp add: dropped_def)
    with dr show ?thesis by simp
  qed
qed (simp add: plain_def)

lemma straight_alu:
  assumes "sound_asm (Emit x [d, b])" "place d" "source b" "is_alu x"
  shows "straight mem refused (Emit x [d, b] # C) h = straight mem refused C (x86_alu (alu_fn x) d b h)"
proof (rule straight_Cons)
  have d: "\<not> dropped x [d, b]" using assms(2) by (auto simp: dropped_def)
  with assms(1) have "asm_exec mem refused x [d, b] h = x86_exec mem x [d, b] h" by (simp add: sound_asm.simps)
  moreover have "is_ptr b = False" "is_edi d = False" "is_ptr d = False"
    using assms(2,3) place_not_ptr by auto
  moreover have "x86_add mem d b h = x86_alu (\<lambda>a b. a + b) d b h"
    using assms(2,3) by (cases d; cases b) (auto simp: x86_add_def source_def)
  ultimately show "asm_exec mem refused x [d, b] h = Some (x86_alu (alu_fn x) d b h)"
    using assms(4) by (auto simp: is_alu_def x86_shift_def)
qed (use assms(4) in \<open>auto simp: plain_def is_alu_def\<close>)

lemma straight_mv:
  assumes "sound_asm (mv d a)" "dest d" "source a"
  shows "straight mem refused (mv d a # C) h = straight mem refused C (moved d a h)"
proof (cases "Op_isReg d \<and> a = Op_imm 0")
  case True
  then have "place d" using assms(2) by (auto simp: dest_def)
  with True straight_alu [of Id_Xor d d C h] assms show ?thesis
    by (simp add: mv_def moved_def is_alu_def x86_alu_def)
next
  case False
  then have "mv d a = Emit Id_Mov [d, a]" "moved d a h = write32 d (read32 a h) h"
    unfolding mv_def moved_def by (rule if_not_P)+
  with straight_mov [of d a C h] assms show ?thesis by simp
qed

lemma straight_cmp:
  assumes "sound_asm (Emit Id_Cmp [a, b])" "source a" "source b"
  shows "straight mem refused (Emit Id_Cmp [a, b] # C) h = straight mem refused C (x86_cmp a b h)"
proof (rule straight_Cons)
  have d: "\<not> dropped Id_Cmp [a, b]" by (simp add: dropped_def)
  with assms(1) have e: "encodable Id_Cmp [a, b]" by (simp add: sound_asm.simps)
  then have "dest a" using assms(2) by (auto simp: encodable.simps encodable2_def pair32_def source_def dest_def)
  then show "asm_exec mem refused Id_Cmp [a, b] h = Some (x86_cmp a b h)"
    using e place_not_ptr assms by auto
qed (simp add: plain_def)

lemma straight_mul:
  assumes "sound_asm (Emit Id_Mul [b])" "source b"
  shows "straight mem refused (Emit Id_Mul [b] # C) h = straight mem refused C (x86_mul b h)"
proof (rule straight_Cons)
  have d: "\<not> dropped Id_Mul [b]" by (simp add: dropped_def)
  with assms(1) have e: "encodable Id_Mul [b]" by (simp add: sound_asm.simps)
  then have "dest b" using assms(2) by (auto simp: encodable.simps encodable1_def is_jump_def source_def dest_def)
  then show "asm_exec mem refused Id_Mul [b] h = Some (x86_mul b h)"
    using e place_not_ptr assms by auto
qed (use source_not_label assms in \<open>simp add: plain_def\<close>)

lemma straight_set:
  assumes "sound_asm (Emit x [d])" "dest d" "x = Id_Setl \<or> x = Id_Setb" "host_flags h = Some f"
  shows "straight mem refused (Emit x [d] # C) h =
    straight mem refused C (write32 d ((read32 d h AND NOT 0xff) OR of_bool (condition x f)) h)"
proof (rule straight_Cons)
  have n: "\<not> is_edi d" "\<not> is_ptr d" using place_not_ptr assms(2) dest_source by auto
  show "asm_exec mem refused x [d] h = Some (write32 d ((read32 d h AND NOT 0xff) OR of_bool (condition x f)) h)"
  proof (cases "encodable x [d]")
    case True
    with n assms(3,4) show ?thesis by (auto simp: x86_set_def)
  next
    case False
    then have "dropped x [d]" using assms(1) by (simp add: sound_asm.simps)
    then show ?thesis by (auto simp: dropped_def)
  qed
qed (use dest_source [OF assms(2)] source_not_label assms(3) in \<open>auto simp: plain_def\<close>)

end

section \<open>The templates\<close>

definition imm_code :: "X86Id \<Rightarrow> Operand \<Rightarrow> Operand \<Rightarrow> int \<Rightarrow> Asm list" where
  "imm_code x d a n = (if d \<noteq> a then move_code d a else []) @ [Emit x [d, Op_imm n]]"

definition reg_code :: "X86Id \<Rightarrow> Operand \<Rightarrow> Operand \<Rightarrow> Operand \<Rightarrow> Asm list" where
  "reg_code x d a b =
     (if d = a then
        if Op_isReg d \<or> Op_isReg b then [Emit x [d, b]] else [mv Tmp1 b, Emit x [d, Tmp1]]
      else if d \<noteq> b \<and> (Op_isReg d \<or> \<not> Op_isMem a) then [mv d a, Emit x [d, b]]
      else [mv Tmp1 a, Emit x [Tmp1, b], mv d Tmp1])"

definition shift_code :: "X86Id \<Rightarrow> Operand \<Rightarrow> Operand \<Rightarrow> Operand \<Rightarrow> bool \<Rightarrow> Asm list" where
  "shift_code x d a b zero =
     (let dst = (if Op_isMem d then Tmp1 else d) in
      (if dst \<noteq> a then [mv dst a] else []) @ (if Op_isMem d then [mv d Tmp1] else []) @
      (if zero then [] else
       [mv Tmp1 (Op_gp 32 Gp_ecx), mv (Op_gp 32 Gp_ecx) b, Emit x [d, Op_gp 8 Gp_ecx], mv (Op_gp 32 Gp_ecx) Tmp1]))"

definition fst_code :: "Operand \<Rightarrow> Asm list" where
  "fst_code a = (if Op_isMem a \<or> Op_isImm a then [mv Tmp1 a] else [])"

definition fst_place :: "Operand \<Rightarrow> Operand" where
  "fst_place a = (if Op_isMem a \<or> Op_isImm a then Tmp1 else a)"

definition set_code :: "X86Id \<Rightarrow> Operand \<Rightarrow> Operand \<Rightarrow> Operand \<Rightarrow> Asm list" where
  "set_code x d a b = [Emit Id_Cmp [a, b], Emit Id_Mov [d, Op_imm 0], Emit x [d]]"

definition mul_code :: "Operand \<Rightarrow> Operand \<Rightarrow> Operand \<Rightarrow> Asm list" where
  "mul_code d a b = [mv Tmp1 a, Emit Id_Mul [b], mv d Tmp1]"

lemmas template_codes = imm_code_def reg_code_def shift_code_def fst_code_def set_code_def mul_code_def

context assembler
begin

definition computes :: "Asm list \<Rightarrow> Operand \<Rightarrow> (x86 \<Rightarrow> u32) \<Rightarrow> bool" where
  "computes C d f \<longleftrightarrow> bound C = {} \<and>
     (\<forall>h. regs_fit h \<longrightarrow> sound C \<longrightarrow> (\<exists>h'. straight mem refused C h = Some h' \<and> effect d (f h) h h'))"

lemmas straight_rules = straight_mv straight_mov straight_alu straight_cmp straight_mul straight_set

lemma computesI:
  "bound C = {} \<Longrightarrow> (\<And>h. regs_fit h \<Longrightarrow> sound C \<Longrightarrow> \<exists>h'. straight mem refused C h = Some h' \<and> effect d (f h) h h') \<Longrightarrow>
    computes C d f"
  by (simp add: computes_def)

lemma move_computes: "guest d \<Longrightarrow> guest a \<or> (\<exists>n. a = Op_imm n) \<Longrightarrow> computes (move_code d a) d (read32 a)"
  by (rule computesI) (auto simp: move_code_def straight_rules effect_def)

lemma mv_computes: "guest d \<Longrightarrow> source a \<Longrightarrow> computes [mv d a] d (read32 a)"
  by (rule computesI) (auto simp: straight_rules effect_def)

lemma imm_computes:
  "guest d \<Longrightarrow> place d \<Longrightarrow> guest a \<Longrightarrow> is_alu x \<Longrightarrow>
    computes (imm_code x d a n) d (\<lambda>h. alu_fn x (read32 a h) (word_of_int n))"
  by (rule computesI) (auto simp: imm_code_def move_code_def straight_rules effect_def x86_alu_def)

lemma reg_computes:
  "guest d \<Longrightarrow> place d \<Longrightarrow> guest a \<Longrightarrow> guest b \<Longrightarrow> is_alu x \<Longrightarrow>
    computes (reg_code x d a b) d (\<lambda>h. alu_fn x (read32 a h) (read32 b h))"
  by (rule computesI) (auto simp: reg_code_def straight_rules effect_def x86_alu_def)

lemma set_value: "((0 :: u32) AND NOT 0xff) OR of_bool b = of_bool b"
  by simp

lemma set_computes:
  assumes "guest d" "source a" "guest b \<or> (\<exists>n. b = Op_imm n)" "x = Id_Setl \<or> x = Id_Setb"
  shows "computes (set_code x d a b) d (\<lambda>h. of_bool (condition x (cmp_flags (read32 a h) (read32 b h))))"
  by (rule computesI) (use assms in \<open>auto simp: set_code_def straight_rules effect_def\<close>)

lemma fst_set_computes:
  assumes "guest d" "guest a" "guest b" "x = Id_Setl \<or> x = Id_Setb"
  shows "computes (fst_code a @ set_code x d (fst_place a) b) d
    (\<lambda>h. of_bool (condition x (cmp_flags (read32 a h) (read32 b h))))"
  by (rule computesI)
    (use assms in \<open>auto simp: fst_code_def fst_place_def set_code_def straight_rules effect_def\<close>)

lemma x86_mul_reads:
  assumes "regs_fit h"
  shows "read32 Tmp1 (x86_mul b h) = read32 Tmp1 h * read32 b h" "regs_fit (x86_mul b h)" "rest (x86_mul b h) = rest h"
    "source y \<Longrightarrow> y \<noteq> Tmp1 \<Longrightarrow> y \<noteq> Tmp2 \<Longrightarrow> read32 y (x86_mul b h) = read32 y h"
proof -
  have m: "x86_mul b h = (let p = ucast (read32 Tmp1 h) * ucast (read32 b h) :: u64 in
      no_flags (write32 Tmp2 (ucast (drop_bit 32 p)) (write32 Tmp1 (ucast p) h)))"
    by (simp add: x86_mul_def Tmp1_def Tmp2_def)
  have "(ucast (ucast x * ucast y :: u64) :: u32) = x * y" for x y :: u32
    by transfer (simp add: take_bit_mult take_bit_eq_mod mod_mult_eq min_def mod_mod_cancel)
  then show "read32 Tmp1 (x86_mul b h) = read32 Tmp1 h * read32 b h" using assms by (simp add: m Let_def)
  show "regs_fit (x86_mul b h)" "rest (x86_mul b h) = rest h"
    "source y \<Longrightarrow> y \<noteq> Tmp1 \<Longrightarrow> y \<noteq> Tmp2 \<Longrightarrow> read32 y (x86_mul b h) = read32 y h"
    using assms by (simp_all add: m Let_def)
qed

lemma mul_computes:
  "guest d \<Longrightarrow> guest a \<Longrightarrow> guest b \<Longrightarrow> computes (mul_code d a b) d (\<lambda>h. read32 a h * read32 b h)"
  by (rule computesI) (auto simp: mul_code_def straight_rules effect_def x86_mul_reads)

lemma straight_shift_cl:
  assumes "sound_asm (Emit x [d, Op_gp 8 Gp_ecx])" "place d" "x \<in> {Id_Shl, Id_Shr, Id_Sar}"
  shows "straight mem refused (Emit x [d, Op_gp 8 Gp_ecx] # C) h =
    straight mem refused C (x86_alu (alu_fn x) d (Op_gp 32 Gp_ecx) h)"
proof (rule straight_Cons)
  have "\<not> dropped x [d, Op_gp 8 Gp_ecx]" using assms(2) by (auto simp: dropped_def)
  with assms(1) have "asm_exec mem refused x [d, Op_gp 8 Gp_ecx] h = x86_exec mem x [d, Op_gp 8 Gp_ecx] h"
    by (simp add: sound_asm.simps)
  then show "asm_exec mem refused x [d, Op_gp 8 Gp_ecx] h = Some (x86_alu (alu_fn x) d (Op_gp 32 Gp_ecx) h)"
    using assms(2,3) place_not_ptr [of d] by (auto simp: x86_shift_def x86_alu_def)
qed (use assms(3) in \<open>auto simp: plain_def\<close>)

lemma shift_by_0: "x \<in> {Id_Shl, Id_Shr, Id_Sar} \<Longrightarrow> alu_fn x a 0 = a"
  by auto

lemma shift_core:
  assumes "guest d" "place d" "d \<noteq> Op_gp 32 Gp_ecx" "guest b" "x \<in> {Id_Shl, Id_Shr, Id_Sar}" "regs_fit h"
    and "sound [mv Tmp1 (Op_gp 32 Gp_ecx), mv (Op_gp 32 Gp_ecx) b, Emit x [d, Op_gp 8 Gp_ecx], mv (Op_gp 32 Gp_ecx) Tmp1]"
  shows "\<exists>h'. straight mem refused
     [mv Tmp1 (Op_gp 32 Gp_ecx), mv (Op_gp 32 Gp_ecx) b, Emit x [d, Op_gp 8 Gp_ecx], mv (Op_gp 32 Gp_ecx) Tmp1] h =
       Some h' \<and> effect d (alu_fn x (read32 d h) (read32 b h)) h h'"
proof -
  define ecx where "ecx = Op_gp 32 Gp_ecx"
  have ecx: "place ecx" "ecx \<noteq> Tmp1" "ecx \<noteq> Op_pc" "Tmp1 \<noteq> ecx" by (simp_all add: ecx_def Tmp1_def)
  define h' where "h' = moved ecx Tmp1 (x86_alu (alu_fn x) d ecx (moved ecx b (moved Tmp1 ecx h)))"
  have "straight mem refused [mv Tmp1 ecx, mv ecx b, Emit x [d, Op_gp 8 Gp_ecx], mv ecx Tmp1] h = Some h'"
    using assms(1,2,4,5,7) ecx unfolding h'_def ecx_def [symmetric]
    by (simp add: straight_mv straight_shift_cl ecx_def [symmetric])
  moreover have "effect d (alu_fn x (read32 d h) (read32 b h)) h h'"
    unfolding effect_def
  proof (intro conjI allI impI)
    fix y assume y: "place y \<and> y \<notin> {Tmp1, Tmp2, d}"
    show "read32 y h' = read32 y h"
      using y assms ecx by (cases "y = ecx") (auto simp: h'_def x86_alu_def ecx_def [symmetric])
  qed (use assms ecx in \<open>auto simp: h'_def x86_alu_def ecx_def [symmetric]\<close>)
  ultimately show ?thesis unfolding ecx_def by blast
qed

lemma shift_computes:
  assumes d: "guest d" "place d" and ab: "guest a" "guest b" and x: "x \<in> {Id_Shl, Id_Shr, Id_Sar}"
    and zero: "zero \<longleftrightarrow> b = Op_imm 0" and db: "d \<noteq> b \<or> d = a"
  shows "computes (shift_code x d a b zero) d (\<lambda>h. alu_fn x (read32 a h) (read32 b h))"
proof (rule computesI)
  show "bound (shift_code x d a b zero) = {}" by (simp add: shift_code_def Let_def)
  fix h assume h: "regs_fit h" and s: "sound (shift_code x d a b zero)"
  define pre where "pre = (let dst = (if Op_isMem d then Tmp1 else d) in
    (if dst \<noteq> a then [mv dst a] else []) @ (if Op_isMem d then [mv d Tmp1] else []))"
  have code: "shift_code x d a b zero = pre @ (if zero then [] else
       [mv Tmp1 (Op_gp 32 Gp_ecx), mv (Op_gp 32 Gp_ecx) b, Emit x [d, Op_gp 8 Gp_ecx], mv (Op_gp 32 Gp_ecx) Tmp1])"
    by (simp add: shift_code_def pre_def Let_def)
  have "computes pre d (read32 a)"
    by (rule computesI) (use d ab in \<open>auto simp: pre_def Let_def straight_rules effect_def\<close>)
  then obtain h1 where h1: "straight mem refused pre h = Some h1" "effect d (read32 a h) h h1"
    using h s by (auto simp: computes_def code)
  then have h1_reads: "read32 d h1 = read32 a h" "regs_fit h1" "read32 b h1 = read32 b h"
    using d db effect_reads [OF h1(2) ab(2)] by (auto simp: effect_def)
  show "\<exists>h'. straight mem refused (shift_code x d a b zero) h = Some h' \<and>
      effect d (alu_fn x (read32 a h) (read32 b h)) h h'"
  proof (cases zero)
    case True
    then have "b = Op_imm 0" "shift_code x d a b zero = pre" using zero code by simp_all
    with h1 shift_by_0 [OF x] show ?thesis by simp
  next
    case False
    let ?core = "[mv Tmp1 (Op_gp 32 Gp_ecx), mv (Op_gp 32 Gp_ecx) b, Emit x [d, Op_gp 8 Gp_ecx], mv (Op_gp 32 Gp_ecx) Tmp1]"
    have c: "shift_code x d a b zero = pre @ ?core" using False code by simp
    with s have core: "sound ?core" by simp
    then have "d \<noteq> Op_gp 32 Gp_ecx" by (auto simp: sound_asm.simps)
    then obtain h2 where "straight mem refused ?core h1 = Some h2"
        "effect d (alu_fn x (read32 d h1) (read32 b h1)) h1 h2"
      using shift_core [OF d _ ab(2) x h1_reads(2) core] by blast
    with h1 h1_reads effect_trans [OF h1(2)] show ?thesis by (simp add: c straight_append)
  qed
qed

end

end
