(* ===== verification/Jit_Memory.thy ===== *)
theory Jit_Memory
  imports Jit_Templates
begin

text \<open>
  The code of loads and stores without address translation: the address is computed on 64 bits, by
  adding the guest address to the pointer \<^verbatim>\<open>mem\<close>. It is the address of the instruction set as long as
  the sum of the base register and the offset does not leave the range of 32 bits.
\<close>

section \<open>The address\<close>

definition flat :: "u32 \<Rightarrow> int \<Rightarrow> bool" where
  "flat a k \<longleftrightarrow> 0 \<le> uint a + k \<and> uint a + k < 2 ^ 32"

lemma flat_offset:
  assumes "flat a k"
  shows "unat (ucast a + word_of_int k :: u64) = unat (a + word_of_int k)"
proof -
  define n where "n = uint a + k"
  have "(ucast a :: u64) = word_of_int (uint a)" by (simp only: ucast_eq)
  then have u64: "(ucast a + word_of_int k :: u64) = word_of_int n" by (simp add: n_def)
  have u32: "a + word_of_int k = word_of_int n" by (simp add: n_def)
  have "0 \<le> n" "n < 2 ^ 32" using assms by (simp_all add: flat_def n_def)
  then have "unat (word_of_int n :: u64) = nat n" "unat (word_of_int n :: u32) = nat n"
    by (simp_all add: unat_eq_nat_uint uint_word_of_int_eq take_bit_int_eq_self)
  then show ?thesis unfolding u64 u32 by simp
qed

definition address_code :: "Operand \<Rightarrow> Asm list" where
  "address_code a = [mv Tmp1 a, Emit Id_Add [Op_gp 64 Gp_eax, Op_mem]]"

definition load_code :: "X86Id \<Rightarrow> nat \<Rightarrow> Operand \<Rightarrow> Operand \<Rightarrow> int \<Rightarrow> Asm list" where
  "load_code x w d a k = address_code a @
     (if Op_isReg d then [Emit x [d, mem_at w k]] else [Emit x [Tmp2, mem_at w k], mv d Tmp2])"

definition store_code :: "nat \<Rightarrow> Operand \<Rightarrow> Operand \<Rightarrow> int \<Rightarrow> Asm list" where
  "store_code w a b k = address_code a @
     (if Op_isReg b then [Emit Id_Mov [mem_at w k, narrow w b]]
      else [mv Tmp2 b, Emit Id_Mov [mem_at w k, narrow w Tmp2]])"

text \<open>What a load makes of the bytes.\<close>

definition load_fn :: "X86Id \<Rightarrow> nat \<Rightarrow> u8 list \<Rightarrow> u32" where
  "load_fn x w bs =
     (if x = Id_Mov then le_join bs
      else if w = 8 then (let b = le_join bs :: u8 in if x = Id_Movsx then scast b else ucast b)
      else (let b = le_join bs :: u16 in if x = Id_Movsx then scast b else ucast b))"

definition load_width :: "X86Id \<Rightarrow> nat \<Rightarrow> bool" where
  "load_width x w \<longleftrightarrow> (x = Id_Mov \<and> w = 32) \<or> (x \<in> {Id_Movsx, Id_Movzx} \<and> w \<in> {8, 16})"

lemma write_gp_eax [simp]:
  "source y \<Longrightarrow> y \<noteq> Tmp1 \<Longrightarrow> read32 y (write_gp Gp_eax v h) = read32 y h" "host_gp (write_gp g v h) g = v"
  by (cases y; auto simp: write_gp_def source_def Tmp1_def)+

lemma moved_eax [simp]: "host_gp (moved Tmp1 a h) Gp_eax = ucast (read32 a h)"
  by (auto simp: moved_def Tmp1_def write_gp_def no_flags_def)

lemma host_gp_flags [simp]: "host_gp (no_flags h) = host_gp h"
  by (simp add: no_flags_def)

context assembler
begin

definition addressed :: "Operand \<Rightarrow> x86 \<Rightarrow> x86" where
  "addressed a h = no_flags (write_gp Gp_eax (ucast (read32 a h) + mem) (moved Tmp1 a h))"

lemma addressed_simps [simp]:
  assumes "regs_fit h"
  shows "regs_fit (addressed a h)" "rest (addressed a h) = rest h" "host_gp (addressed a h) Gp_eax = ucast (read32 a h) + mem"
    "source y \<Longrightarrow> y \<noteq> Tmp1 \<Longrightarrow> read32 y (addressed a h) = read32 y h"
  using assms by (simp_all add: addressed_def)

lemma straight_address:
  assumes "source a" "sound (address_code a)"
  shows "straight mem refused (address_code a @ C) h = straight mem refused C (addressed a h)"
proof -
  have "asm_exec mem refused Id_Add [Op_gp 64 Gp_eax, Op_mem] (moved Tmp1 a h) = Some (addressed a h)"
    by (simp add: encodable.simps encodable2_def x86_add_def addressed_def)
  then have "straight mem refused (Emit Id_Add [Op_gp 64 Gp_eax, Op_mem] # C) (moved Tmp1 a h) =
      straight mem refused C (addressed a h)"
    by (rule straight_Cons) (simp add: plain_def)
  with assms show ?thesis by (simp add: address_code_def straight_mv)
qed

lemma guest_offset_addressed:
  assumes "flat (read32 a h) k"
  shows "guest_offset mem Gp_eax k (addressed a h) = unat (read32 a h + word_of_int k)"
proof -
  have "ucast (read32 a h) + mem + word_of_int k - mem = (ucast (read32 a h) + word_of_int k :: u64)" by simp
  then show ?thesis using flat_offset [OF assms] by (simp add: guest_offset_def addressed_def)
qed

lemma straight_load:
  assumes "sound_asm (Emit x [d, mem_at w k])" "place d" "Op_isReg d" "load_width x w"
    and "guest_load mem (w div 8) Gp_eax k h = Some bs"
  shows "straight mem refused (Emit x [d, mem_at w k] # C) h = straight mem refused C (write32 d (load_fn x w bs) h)"
proof (rule straight_Cons)
  have "\<not> dropped x [d, mem_at w k]" using assms(2) by (auto simp: dropped_def)
  with assms(1) have "asm_exec mem refused x [d, mem_at w k] h = x86_exec mem x [d, mem_at w k] h"
    by (simp add: sound_asm.simps)
  then show "asm_exec mem refused x [d, mem_at w k] h = Some (write32 d (load_fn x w bs) h)"
    using assms(2-5) by (cases d) (auto simp: load_width_def mem_at_def load_fn_def x86_mov_def x86_extend_def Let_def)
qed (use assms(4) in \<open>auto simp: plain_def load_width_def\<close>)

lemma load_computes:
  assumes d: "guest d" and a: "guest a" and w: "load_width x w"
    and h: "regs_fit h" "sound (load_code x w d a k)" and flat: "flat (read32 a h) k"
    and inside: "unat (read32 a h + word_of_int k) + w div 8 \<le> unat (pmem_size (rest h))"
  shows "\<exists>h'. straight mem refused (load_code x w d a k) h = Some h' \<and>
    effect d (load_fn x w (read_bytes (unat (read32 a h + word_of_int k)) (w div 8) (pmem (rest h)))) h h'"
proof -
  let ?bs = "read_bytes (unat (read32 a h + word_of_int k)) (w div 8) (pmem (rest h))"
  have l: "guest_load mem (w div 8) Gp_eax k (addressed a h) = Some ?bs"
    using guest_offset_addressed [OF flat] inside h by (simp add: guest_load_def rest_fields)
  have s: "sound (address_code a)" using h(2) by (simp add: load_code_def)
  show ?thesis
  proof (cases "Op_isReg d")
    case True
    then have "place d" using guestD(1) [OF d] by (auto simp: dest_def)
    with True d a h s straight_load [OF _ _ _ w l] show ?thesis
      by (auto simp: load_code_def straight_address effect_def)
  next
    case False
    with d a h s straight_load [OF _ _ _ w l, of Tmp2] show ?thesis
      by (auto simp: load_code_def straight_address straight_mv effect_def)
  qed
qed

lemma straight_store:
  assumes "sound_asm (Emit Id_Mov [mem_at w k, narrow w b])" "place b" "Op_isReg b" "w \<in> {8, 16, 32}"
    and "guest_store mem Gp_eax k (le_split (w div 8) (read32 b h)) h = Some h'"
  shows "straight mem refused (Emit Id_Mov [mem_at w k, narrow w b] # C) h = straight mem refused C h'"
proof (rule straight_Cons)
  have "\<not> dropped Id_Mov [mem_at w k, narrow w b]" by (simp add: dropped_def mem_at_def)
  with assms(1) have "asm_exec mem refused Id_Mov [mem_at w k, narrow w b] h = x86_exec mem Id_Mov [mem_at w k, narrow w b] h"
    by (simp add: sound_asm.simps)
  then show "asm_exec mem refused Id_Mov [mem_at w k, narrow w b] h = Some h'"
    using assms(2-5) by (cases b) (auto simp: mem_at_def x86_mov_def)
qed (simp add: plain_def)

text \<open>What a store leaves behind.\<close>

definition stored :: "nat \<Rightarrow> u8 list \<Rightarrow> x86 \<Rightarrow> x86 \<Rightarrow> bool" where
  "stored p bs h h' \<longleftrightarrow> regs_fit h' \<and> rest h' = (rest h)\<lparr>pmem := write_bytes p bs (pmem (rest h))\<rparr> \<and>
     (\<forall>y. place y \<and> y \<notin> {Tmp1, Tmp2, Op_pc} \<longrightarrow> read32 y h' = read32 y h)"

lemma guest_store_stored:
  assumes h1: "regs_fit h1" "rest h1 = rest h" "\<forall>y. place y \<and> y \<notin> {Tmp1, Tmp2, Op_pc} \<longrightarrow> read32 y h1 = read32 y h"
    and off: "guest_offset mem Gp_eax k h1 = p" "p + length bs \<le> unat (pmem_size (rest h))"
  shows "\<exists>h'. guest_store mem Gp_eax k bs h1 = Some h' \<and> stored p bs h h'"
proof -
  let ?h = "h1\<lparr>host_vm := (host_vm h1)\<lparr>pmem := write_bytes p bs (pmem (host_vm h1))\<rparr>\<rparr>"
  have "pmem (host_vm h1) = pmem (rest h)" "pmem_size (host_vm h1) = pmem_size (rest h)"
    using h1(2) rest_fields [of h1] by simp_all
  then have "guest_store mem Gp_eax k bs h1 = Some ?h"
    using off by (simp add: guest_store_def)
  moreover have "read32 y ?h = read32 y h1" for y by (cases y) simp_all
  moreover have "rest ?h = (rest h1)\<lparr>pmem := write_bytes p bs (pmem (rest h1))\<rparr>" "regs_fit ?h"
    using h1(1) by (simp_all add: rest_def regs_fit_def)
  ultimately show ?thesis using h1 by (auto simp: stored_def)
qed

lemma store_stores:
  assumes a: "guest a" and b: "guest b" and w: "w \<in> {8, 16, 32}"
    and h: "regs_fit h" "sound (store_code w a b k)" and flat: "flat (read32 a h) k"
    and inside: "unat (read32 a h + word_of_int k) + w div 8 \<le> unat (pmem_size (rest h))"
  shows "\<exists>h'. straight mem refused (store_code w a b k) h = Some h' \<and>
    stored (unat (read32 a h + word_of_int k)) (le_split (w div 8) (read32 b h)) h h'"
proof -
  let ?p = "unat (read32 a h + word_of_int k)" and ?bs = "le_split (w div 8) (read32 b h)"
  have s: "sound (address_code a)" using h(2) by (simp add: store_code_def)
  have p: "guest_offset mem Gp_eax k (addressed a h) = ?p" by (rule guest_offset_addressed [OF flat])
  show ?thesis
  proof (cases "Op_isReg b")
    case True
    then have "place b" using guestD(1) [OF b] by (auto simp: dest_def)
    obtain h' where "guest_store mem Gp_eax k ?bs (addressed a h) = Some h'" "stored ?p ?bs h h'"
      using guest_store_stored [of "addressed a h" h k ?p ?bs] h p inside by auto
    with True \<open>place b\<close> a b h s straight_store [of w k b "addressed a h" h' "[]"] w show ?thesis
      by (auto simp: store_code_def straight_address)
  next
    case False
    let ?h1 = "moved Tmp2 b (addressed a h)"
    have "guest_offset mem Gp_eax k ?h1 = ?p"
      using p by (simp add: guest_offset_def moved_def Tmp2_def write_gp_def no_flags_def)
    then obtain h' where "guest_store mem Gp_eax k ?bs ?h1 = Some h'" "stored ?p ?bs h h'"
      using guest_store_stored [of ?h1 h k ?p ?bs] h inside b by auto
    with False a b h s straight_store [of w k Tmp2 ?h1 h' "[]"] w show ?thesis
      by (auto simp: store_code_def straight_address straight_mv)
  qed
qed

end

end
