(* ===== verification/Jit_Steps.thy ===== *)
theory Jit_Steps
  imports Jit_Memory Exec_Correct
begin

text \<open>
  The code of every instruction that the translator gets right carries out the step of the
  instruction set.
\<close>

section \<open>The translator's operands\<close>

lemma operand_reads [simp]:
  assumes "wf_inst i" "alloc_ok t"
  shows "has_rs1 i \<Longrightarrow> RS1 i t = (Inr (opnd t (inst_rs1 i)), t)"
    "has_rs2 i \<Longrightarrow> RS2 i t = (Inr (opnd t (inst_rs2 i)), t)"
    "has_rd i \<Longrightarrow> RD i t = (Inr (opnd t (inst_rd i)), t)"
    "has_imm i \<Longrightarrow> IMM i t = (Inr (sint (inst_imm i)), t)"
    "has_imm i \<Longrightarrow> UIMM i t = (Inr (uint (inst_imm i)), t)"
    "getOffset t = (Inr (int (cur_inst t) * 4), t)"
  using field_eqs [OF assms(1)] wf_regs [OF assms(1)] alloc_okD(1) [OF assms(2)]
  by (simp_all add: RS1_def RS2_def RD_def IMM_def UIMM_def tr_getReg_def opnd_def reg_index getOffset_def)

lemma operand_binds [simp]:
  assumes "wf_inst i" "alloc_ok t"
  shows "has_rs1 i \<Longrightarrow> bnd (RS1 i) f t = f (opnd t (inst_rs1 i)) t"
    "has_rs2 i \<Longrightarrow> bnd (RS2 i) f t = f (opnd t (inst_rs2 i)) t"
    "has_rd i \<Longrightarrow> bnd (RD i) f t = f (opnd t (inst_rd i)) t"
    "has_imm i \<Longrightarrow> bnd (IMM i) g t = g (sint (inst_imm i)) t"
    "has_imm i \<Longrightarrow> bnd (UIMM i) g t = g (uint (inst_imm i)) t"
    "bnd getOffset g t = g (int (cur_inst t) * 4) t"
  using assms by (simp_all add: bnd_Inr)

lemma alloc_ok_code [simp]: "alloc_ok (t\<lparr>tr_code := c\<rparr>) = alloc_ok t" "alloc_ok (t\<lparr>labels := l\<rparr>) = alloc_ok t"
  by (simp_all add: alloc_ok_def)

lemma bnd_if: "bnd (if b then m else n) f t = (if b then bnd m f t else bnd n f t)"
  by simp

section \<open>The templates as code\<close>

lemma TranslateImmType_eq:
  assumes "wf_inst i" "alloc_ok t" "has_rd i" "has_rs1 i" "has_imm i"
  shows "TranslateImmType i x t = (Inr (), t\<lparr>tr_code := tr_code t @
    (if inst_rd i = 0 then [] else imm_code x (opnd t (inst_rd i)) (opnd t (inst_rs1 i)) (sint (inst_imm i)))\<rparr>)"
  using assms field_eqs [OF assms(1)] by (simp add: TranslateImmType_def imm_code_def bnd_if)

lemma TranslateRegType_eq:
  assumes "wf_inst i" "alloc_ok t" "has_rd i" "has_rs1 i" "has_rs2 i"
  shows "TranslateRegType i x t = (Inr (), t\<lparr>tr_code := tr_code t @
    (if inst_rd i = 0 then [] else reg_code x (opnd t (inst_rd i)) (opnd t (inst_rs1 i)) (opnd t (inst_rs2 i)))\<rparr>)"
  using assms field_eqs [OF assms(1)] by (simp add: TranslateRegType_def reg_code_def bnd_if)

lemma TranslateShift_eq:
  assumes "wf_inst i" "alloc_ok t" "has_rd i" "has_rs1 i" "has_rs2 i"
  shows "TranslateShift i x t = (Inr (), t\<lparr>tr_code := tr_code t @
    (if inst_rd i = 0 then []
     else shift_code x (opnd t (inst_rd i)) (opnd t (inst_rs1 i)) (opnd t (inst_rs2 i)) (inst_rs2 i = 0))\<rparr>)"
  using assms field_eqs [OF assms(1)] by (simp add: TranslateShift_def shift_code_def bnd_if Let_def)

lemma fst_operand_eq:
  assumes "wf_inst i" "alloc_ok t" "has_rs1 i"
  shows "fst_operand i t = (Inr (fst_place (opnd t (inst_rs1 i))), t\<lparr>tr_code := tr_code t @ fst_code (opnd t (inst_rs1 i))\<rparr>)"
  using assms by (simp add: fst_operand_def fst_place_def fst_code_def)

lemma load_direct_eq:
  assumes "wf_inst i" "alloc_ok t" "has_rd i" "has_rs1 i" "has_imm i"
    and "\<And>d w k t. access d (mem_at w k) t = (Inr (), t\<lparr>tr_code := tr_code t @ [Emit x [d, mem_at w k]]\<rparr>)"
  shows "load_direct w access i t = (Inr (), t\<lparr>tr_code := tr_code t @
    load_code x w (opnd t (inst_rd i)) (opnd t (inst_rs1 i)) (sint (inst_imm i))\<rparr>)"
  using assms by (simp add: load_direct_def host_address_def load_code_def address_code_def bnd_Inr)

lemma store_direct_eq:
  assumes "wf_inst i" "alloc_ok t" "has_rs2 i" "has_rs1 i" "has_imm i"
  shows "store_direct w i t = (Inr (), t\<lparr>tr_code := tr_code t @
    store_code w (opnd t (inst_rs1 i)) (opnd t (inst_rs2 i)) (sint (inst_imm i))\<rparr>)"
proof -
  have "mv (mem_at w k) a = Emit Id_Mov [mem_at w k, a]" for k a by (simp add: mv_def mem_at_def)
  with assms show ?thesis by (simp add: store_direct_def host_address_def store_code_def address_code_def bnd_Inr)
qed

section \<open>Arithmetic\<close>

text \<open>The instructions whose translation means what the instruction set means.\<close>

definition translates_well :: "Inst \<Rightarrow> bool" where
  "translates_well i \<longleftrightarrow> wf_inst i \<and> isTranslationSupported i = Inr True \<and> inst_cmd i \<noteq> Cmd_MULH \<and>
     (inst_cmd i \<in> {Cmd_SLL, Cmd_SRL, Cmd_SRA} \<longrightarrow>
        inst_rd i \<noteq> inst_rs2 i \<or> inst_rd i = inst_rs1 i \<or> inst_rd i = 0) \<and>
     (inst_cmd i = Cmd_JALR \<longrightarrow> inst_rd i \<noteq> inst_rs1 i \<or> inst_rd i = 0)"

lemma Inst_translate_call:
  assumes "wf_inst i"
  shows "cd_translate_func (cmd_desc ! unat (Cmd_u8 (inst_cmd i))) = Some f \<Longrightarrow>
    Inst_translate virt i = call_translate f virt i"
  using getCmdDesc_total [OF wf_inst_cmd [OF assms]] by (simp add: Inst_translate_def fun_eq_iff)

lemma supported_func:
  assumes "wf_inst i" "isTranslationSupported i = Inr True"
  obtains f where "cd_translate_func (cmd_desc ! unat (Cmd_u8 (inst_cmd i))) = Some f"
  using assms getCmdDesc_total [OF wf_inst_cmd [OF assms(1)]] by (auto simp: isTranslationSupported_def)

lemma sar_eq: "signed_drop_bit n (a :: u32) = word_of_int (sint a div 2 ^ n)"
proof -
  have "sint (signed_drop_bit n a) = sint a div 2 ^ n"
    by (simp add: sint_signed_drop_bit_eq drop_bit_eq_div)
  from arg_cong [OF this, of "word_of_int :: int \<Rightarrow> u32"] show ?thesis by simp
qed

lemma set_conditions:
  "condition Id_Setl (cmp_flags a b) \<longleftrightarrow> sint a < sint b" "condition Id_Setb (cmp_flags a b) \<longleftrightarrow> uint a < uint b"
  using signed_less [of a b] by (simp_all add: condition_def cmp_flags_def word_less_def)

context assembler
begin

lemma computes_cong: "computes C d f \<Longrightarrow> (\<And>h. f h = g h) \<Longrightarrow> computes C d g"
  by (simp add: computes_def)

lemma computes_nil: "computes [] (Op_imm 0) f"
  by (simp add: computes_def effect_def)

lemma computes_seq:
  assumes "computes C1 d f1" "computes C2 d f2" "\<And>h h1. effect d (f1 h) h h1 \<Longrightarrow> f2 h1 = g h"
  shows "computes (C1 @ C2) d g"
proof (rule computesI)
  show "bound (C1 @ C2) = {}" using assms(1,2) by (simp add: computes_def)
  fix h assume h: "regs_fit h" and s: "sound (C1 @ C2)"
  obtain h1 where h1: "straight mem refused C1 h = Some h1" "effect d (f1 h) h h1"
    using assms(1) h s by (auto simp: computes_def)
  moreover have "regs_fit h1" using h1(2) by (simp add: effect_def)
  ultimately obtain h2 where "straight mem refused C2 h1 = Some h2" "effect d (f2 h1) h1 h2"
    using assms(2) s by (auto simp: computes_def)
  with h1 assms(3) [OF h1(2)] show "\<exists>h'. straight mem refused (C1 @ C2) h = Some h' \<and> effect d (g h) h h'"
    by (auto simp: straight_append intro: effect_trans)
qed

text \<open>A translation that computes a register from the place of the operands.\<close>

definition translates :: "unit T \<Rightarrow> Translator \<Rightarrow> Reg \<Rightarrow> (x86 \<Rightarrow> u32) \<Rightarrow> bool" where
  "translates m t rd f \<longleftrightarrow> (\<exists>C. m t = (Inr (), t\<lparr>tr_code := tr_code t @ C\<rparr>) \<and> computes C (opnd t rd) f)"

lemma translatesI:
  "m t = (Inr (), t\<lparr>tr_code := tr_code t @ C\<rparr>) \<Longrightarrow> computes C (opnd t rd) f \<Longrightarrow> translates m t rd f"
  by (auto simp: translates_def)

lemma translates_cong: "translates m t rd f \<Longrightarrow> (\<And>h. f h = g h) \<Longrightarrow> translates m t rd g"
  unfolding translates_def by (blast intro: computes_cong)

lemma place_rd: "wf_inst i \<Longrightarrow> alloc_ok t \<Longrightarrow> inst_rd i \<noteq> 0 \<Longrightarrow> place (opnd t (inst_rd i))"
  by (simp add: opnd_place wf_regs)

lemma guests: "wf_inst i \<Longrightarrow> alloc_ok t \<Longrightarrow>
    guest (opnd t (inst_rd i)) \<and> guest (opnd t (inst_rs1 i)) \<and> guest (opnd t (inst_rs2 i))"
  by (simp add: opnd_guest wf_regs)

lemma imm_translates:
  assumes "wf_inst i" "alloc_ok t" "has_rd i" "has_rs1 i" "has_imm i" "is_alu x"
  shows "translates (TranslateImmType i x) t (inst_rd i) (\<lambda>h. alu_fn x (read32 (opnd t (inst_rs1 i)) h) (inst_imm i))"
proof (rule translatesI, rule TranslateImmType_eq [OF assms(1-5)])
  note g = guests [OF assms(1,2)]
  show "computes (if inst_rd i = 0 then []
      else imm_code x (opnd t (inst_rd i)) (opnd t (inst_rs1 i)) (sint (inst_imm i))) (opnd t (inst_rd i))
    (\<lambda>h. alu_fn x (read32 (opnd t (inst_rs1 i)) h) (inst_imm i))"
    using imm_computes [of "opnd t (inst_rd i)" "opnd t (inst_rs1 i)" x "sint (inst_imm i)"] g
      place_rd [OF assms(1,2)] assms(6)
    by (simp add: computes_nil)
qed

lemma reg_code_computes:
  assumes "wf_inst i" "alloc_ok t" "is_alu x"
  shows "computes (if inst_rd i = 0 then []
      else reg_code x (opnd t (inst_rd i)) (opnd t (inst_rs1 i)) (opnd t (inst_rs2 i))) (opnd t (inst_rd i))
    (\<lambda>h. alu_fn x (read32 (opnd t (inst_rs1 i)) h) (read32 (opnd t (inst_rs2 i)) h))"
  using reg_computes guests [OF assms(1,2)] place_rd [OF assms(1,2)] assms(3) by (simp add: computes_nil)

lemma reg_translates:
  assumes "wf_inst i" "alloc_ok t" "has_rd i" "has_rs1 i" "has_rs2 i" "is_alu x"
  shows "translates (TranslateRegType i x) t (inst_rd i)
    (\<lambda>h. alu_fn x (read32 (opnd t (inst_rs1 i)) h) (read32 (opnd t (inst_rs2 i)) h))"
  by (rule translatesI, rule TranslateRegType_eq [OF assms(1-5)], rule reg_code_computes [OF assms(1,2,6)])

lemma shift_translates:
  assumes "wf_inst i" "alloc_ok t" "has_rd i" "has_rs1 i" "has_rs2 i" "x \<in> {Id_Shl, Id_Shr, Id_Sar}"
    and rd: "inst_rd i \<noteq> inst_rs2 i \<or> inst_rd i = inst_rs1 i \<or> inst_rd i = 0"
  shows "translates (TranslateShift i x) t (inst_rd i)
    (\<lambda>h. alu_fn x (read32 (opnd t (inst_rs1 i)) h) (read32 (opnd t (inst_rs2 i)) h))"
proof (rule translatesI, rule TranslateShift_eq [OF assms(1-5)])
  note r = wf_regs [OF assms(1)]
  show "computes (if inst_rd i = 0 then []
      else shift_code x (opnd t (inst_rd i)) (opnd t (inst_rs1 i)) (opnd t (inst_rs2 i)) (inst_rs2 i = 0))
      (opnd t (inst_rd i))
    (\<lambda>h. alu_fn x (read32 (opnd t (inst_rs1 i)) h) (read32 (opnd t (inst_rs2 i)) h))"
  proof (cases "inst_rd i = 0")
    case False
    have "inst_rs2 i = 0 \<longleftrightarrow> opnd t (inst_rs2 i) = Op_imm 0"
      using opnd_place [OF assms(2) r(2)] by (metis opnd_simps(4) places(6))
    moreover have "opnd t (inst_rd i) \<noteq> opnd t (inst_rs2 i) \<or> opnd t (inst_rd i) = opnd t (inst_rs1 i)"
      using rd False opnd_inj [OF assms(2) r(3,2)] by auto
    ultimately show ?thesis
      using shift_computes guests [OF assms(1,2)] place_rd [OF assms(1,2) False] assms(6) False by simp
  qed (simp add: computes_nil)
qed

lemma ADDI_translates:
  assumes "wf_inst i" "alloc_ok t" "has_rd i" "has_rs1 i" "has_imm i"
  shows "translates (TranslateADDI i) t (inst_rd i) (\<lambda>h. read32 (opnd t (inst_rs1 i)) h + inst_imm i)"
proof -
  note g = guests [OF assms(1,2)] and f = field_eqs [OF assms(1)]
  consider "inst_rs1 i = 0" | "inst_rs1 i \<noteq> 0" "sint (inst_imm i) = 0" | "inst_rs1 i \<noteq> 0" "sint (inst_imm i) \<noteq> 0"
    by blast
  then show ?thesis
  proof cases
    case 1
    show ?thesis
    proof (rule translatesI)
      show "TranslateADDI i t = (Inr (), t\<lparr>tr_code := tr_code t @ [mv (opnd t (inst_rd i)) (Op_imm (sint (inst_imm i)))]\<rparr>)"
        using 1 assms f by (simp add: TranslateADDI_def)
      show "computes [mv (opnd t (inst_rd i)) (Op_imm (sint (inst_imm i)))] (opnd t (inst_rd i))
          (\<lambda>h. read32 (opnd t (inst_rs1 i)) h + inst_imm i)"
        by (rule computes_cong [OF mv_computes]) (use g 1 in simp_all)
    qed
  next
    case 2
    then have "word_of_int (sint (inst_imm i)) = (0 :: u32)" by simp
    then have "inst_imm i = 0" by simp
    show ?thesis
    proof (rule translatesI)
      show "TranslateADDI i t = (Inr (), t\<lparr>tr_code := tr_code t @ move_code (opnd t (inst_rd i)) (opnd t (inst_rs1 i))\<rparr>)"
        using 2 assms f by (simp add: TranslateADDI_def)
      show "computes (move_code (opnd t (inst_rd i)) (opnd t (inst_rs1 i))) (opnd t (inst_rd i))
          (\<lambda>h. read32 (opnd t (inst_rs1 i)) h + inst_imm i)"
        by (rule computes_cong [OF move_computes]) (use g \<open>inst_imm i = 0\<close> in simp_all)
    qed
  next
    case 3
    then have "TranslateADDI i t = TranslateImmType i Id_Add t" using assms f by (simp add: TranslateADDI_def)
    with imm_translates [OF assms, of Id_Add] show ?thesis by (simp add: translates_def is_alu_def)
  qed
qed

lemma ADD_translates:
  assumes "wf_inst i" "alloc_ok t" "has_rd i" "has_rs1 i" "has_rs2 i"
  shows "translates (TranslateADD i) t (inst_rd i)
    (\<lambda>h. read32 (opnd t (inst_rs1 i)) h + read32 (opnd t (inst_rs2 i)) h)"
proof -
  note g = guests [OF assms(1,2)] and f = field_eqs [OF assms(1)]
  let ?d = "opnd t (inst_rd i)" and ?a = "opnd t (inst_rs1 i)" and ?b = "opnd t (inst_rs2 i)"
  let ?C = "if inst_rd i = 0 then [] else reg_code Id_Add ?d ?a ?b"
  have C: "computes ?C ?d (\<lambda>h. read32 ?a h + read32 ?b h)"
    using reg_code_computes [OF assms(1,2), of Id_Add] by (simp add: is_alu_def)
  show ?thesis
  proof (cases "inst_rs1 i = 0 \<or> inst_rs2 i = 0")
    case False
    then have "TranslateADD i t = TranslateRegType i Id_Add t" using assms f by (simp add: TranslateADD_def)
    with reg_translates [OF assms, of Id_Add] show ?thesis by (simp add: translates_def is_alu_def)
  next
    case True
    have np: "place ?d \<Longrightarrow> Op_imm 0 \<noteq> ?d" by (metis places(6))
    let ?src = "if inst_rs1 i \<noteq> 0 then ?a else ?b"
    have "TranslateADD i t = (Inr (), t\<lparr>tr_code := tr_code t @ (move_code ?d ?src @ ?C)\<rparr>)"
      using True assms f
      by (simp add: TranslateADD_def bnd_if bnd_Inr TranslateRegType_eq [OF assms(1) _ assms(3-5)])
    moreover have "computes (move_code ?d ?src @ ?C) ?d (\<lambda>h. read32 ?a h + read32 ?b h)"
    proof (rule computes_seq [OF move_computes C])
      fix h h1 assume "effect ?d (read32 ?src h) h h1"
      then show "read32 ?a h1 + read32 ?b h1 = read32 ?a h + read32 ?b h"
        using np True effect_reads [of ?d "read32 ?src h" h h1 ?a] effect_reads [of ?d "read32 ?src h" h h1 ?b] g
        by (auto split: if_splits)
    qed (use g in auto)
    ultimately show ?thesis by (rule translatesI)
  qed
qed

lemma set_translates:
  assumes "wf_inst i" "alloc_ok t" "has_rd i" "has_rs1 i"
  shows "has_imm i \<Longrightarrow> translates (TranslateSLTI i) t (inst_rd i)
      (\<lambda>h. of_bool (sint (read32 (opnd t (inst_rs1 i)) h) < sint (inst_imm i)))"
    and "has_imm i \<Longrightarrow> translates (TranslateSLTIU i) t (inst_rd i)
      (\<lambda>h. of_bool (uint (read32 (opnd t (inst_rs1 i)) h) < uint (inst_imm i)))"
    and "has_rs2 i \<Longrightarrow> translates (TranslateSLT i) t (inst_rd i)
      (\<lambda>h. of_bool (sint (read32 (opnd t (inst_rs1 i)) h) < sint (read32 (opnd t (inst_rs2 i)) h)))"
    and "has_rs2 i \<Longrightarrow> translates (TranslateSLTU i) t (inst_rd i)
      (\<lambda>h. of_bool (uint (read32 (opnd t (inst_rs1 i)) h) < uint (read32 (opnd t (inst_rs2 i)) h)))"
proof -
  note g = guests [OF assms(1,2)]
  let ?d = "opnd t (inst_rd i)" and ?a = "opnd t (inst_rs1 i)" and ?b = "opnd t (inst_rs2 i)"
  show "translates (TranslateSLTI i) t (inst_rd i) (\<lambda>h. of_bool (sint (read32 ?a h) < sint (inst_imm i)))" if "has_imm i"
    by (rule translatesI [where C = "set_code Id_Setl ?d ?a (Op_imm (sint (inst_imm i)))"])
      (use that assms g computes_cong [OF set_computes] in \<open>auto simp: TranslateSLTI_def set_code_def set_conditions\<close>)
  show "translates (TranslateSLTIU i) t (inst_rd i) (\<lambda>h. of_bool (uint (read32 ?a h) < uint (inst_imm i)))" if "has_imm i"
    by (rule translatesI [where C = "set_code Id_Setb ?d ?a (Op_imm (uint (inst_imm i)))"])
      (use that assms g computes_cong [OF set_computes] in \<open>auto simp: TranslateSLTIU_def set_code_def set_conditions\<close>)
  show "translates (TranslateSLT i) t (inst_rd i) (\<lambda>h. of_bool (sint (read32 ?a h) < sint (read32 ?b h)))" if "has_rs2 i"
    by (rule translatesI [where C = "fst_code ?a @ set_code Id_Setl ?d (fst_place ?a) ?b"])
      (use that assms g computes_cong [OF fst_set_computes] in
        \<open>auto simp: TranslateSLT_def set_code_def set_conditions bnd_Inr fst_operand_eq\<close>)
  show "translates (TranslateSLTU i) t (inst_rd i) (\<lambda>h. of_bool (uint (read32 ?a h) < uint (read32 ?b h)))" if "has_rs2 i"
    by (rule translatesI [where C = "fst_code ?a @ set_code Id_Setb ?d (fst_place ?a) ?b"])
      (use that assms g computes_cong [OF fst_set_computes] in
        \<open>auto simp: TranslateSLTU_def set_code_def set_conditions bnd_Inr fst_operand_eq\<close>)
qed

lemma MUL_translates:
  assumes "wf_inst i" "alloc_ok t" "has_rd i" "has_rs1 i" "has_rs2 i"
  shows "translates (TranslateMUL i) t (inst_rd i)
    (\<lambda>h. read32 (opnd t (inst_rs1 i)) h * read32 (opnd t (inst_rs2 i)) h)"
  by (rule translatesI [where C = "mul_code (opnd t (inst_rd i)) (opnd t (inst_rs1 i)) (opnd t (inst_rs2 i))"])
    (use assms guests [OF assms(1,2)] mul_computes in \<open>auto simp: TranslateMUL_def mul_code_def\<close>)

lemma upper_translates:
  assumes "wf_inst i" "alloc_ok t" "has_rd i" "has_imm i"
  shows "translates (TranslateLUI i) t (inst_rd i) (\<lambda>h. inst_imm i)"
    and "translates (TranslateAUIPC i) t (inst_rd i) (\<lambda>h. pc (rest h) + offset_of (cur_inst t) + inst_imm i)"
proof -
  note g = guests [OF assms(1,2)]
  let ?d = "opnd t (inst_rd i)"
  show "translates (TranslateLUI i) t (inst_rd i) (\<lambda>h. inst_imm i)"
    by (rule translatesI [where C = "[mv ?d (Op_imm (uint (inst_imm i)))]"])
      (use assms g computes_cong [OF mv_computes] in \<open>auto simp: TranslateLUI_def\<close>)
  let ?n = "int (cur_inst t) * 4 + uint (inst_imm i)"
  have n: "word_of_int ?n = offset_of (cur_inst t) + inst_imm i" by (simp add: offset_of_def)
  show "translates (TranslateAUIPC i) t (inst_rd i) (\<lambda>h. pc (rest h) + offset_of (cur_inst t) + inst_imm i)"
  proof (rule translatesI [where C = "[mv Tmp1 Op_pc, Emit Id_Add [Tmp1, Op_imm ?n], mv ?d Tmp1]"])
    show "computes [mv Tmp1 Op_pc, Emit Id_Add [Tmp1, Op_imm ?n], mv ?d Tmp1] ?d
        (\<lambda>h. pc (rest h) + offset_of (cur_inst t) + inst_imm i)"
      by (rule computesI)
        (use g n in \<open>auto simp: straight_rules is_alu_def x86_alu_def effect_def rest_fields add.assoc simp flip: n\<close>)
  qed (use assms in \<open>simp add: TranslateAUIPC_def\<close>)
qed

lemma alu_fn_shifts:
  "alu_fn Id_Shl a b = word_of_int (uint a * 2 ^ (unat b mod 32))"
  "alu_fn Id_Shr a b = word_of_int (uint a div 2 ^ (unat b mod 32))"
  "alu_fn Id_Sar a b = word_of_int (sint a div 2 ^ (unat b mod 32))"
  using mod32(2) [of b] by (simp_all only: alu_fn.simps sll_eq srl_eq sar_eq)

lemma alu_translates:
  assumes fit: "translates_well i" and ok: "alloc_ok t" and alu: "alu_op (inst_cmd i) = Some f"
  shows "translates (Inst_translate False i) t (inst_rd i)
    (\<lambda>h. f (read32 (opnd t (inst_rs1 i)) h)
      (if cmd_format (inst_cmd i) = Fmt_R then read32 (opnd t (inst_rs2 i)) h else inst_imm i))"
proof -
  have wf: "wf_inst i" using fit by (simp add: translates_well_def)
  obtain g where g: "cd_translate_func (cmd_desc ! unat (Cmd_u8 (inst_cmd i))) = Some g"
    using fit supported_func [OF wf] unfolding translates_well_def by blast
  note c = Inst_translate_call [OF wf g]
  have has: "has_rs1 i \<longleftrightarrow> cmd_format (inst_cmd i) \<notin> {Fmt_U, Fmt_J}"
    "has_rs2 i \<longleftrightarrow> cmd_format (inst_cmd i) \<notin> {Fmt_I, Fmt_U, Fmt_J}"
    "has_rd i \<longleftrightarrow> cmd_format (inst_cmd i) \<notin> {Fmt_S, Fmt_B}"
    "has_imm i \<longleftrightarrow> cmd_format (inst_cmd i) \<noteq> Fmt_R"
    by (rule has_rs1_def has_rs2_def has_rd_def has_imm_def)+
  note imm = translates_cong [OF imm_translates [OF wf ok]] and reg = translates_cong [OF reg_translates [OF wf ok]]
    and shift = translates_cong [OF shift_translates [OF wf ok]]
    and set = translates_cong [OF set_translates(1) [OF wf ok]] translates_cong [OF set_translates(2) [OF wf ok]]
      translates_cong [OF set_translates(3) [OF wf ok]] translates_cong [OF set_translates(4) [OF wf ok]]
    and rest = translates_cong [OF ADDI_translates [OF wf ok]] translates_cong [OF ADD_translates [OF wf ok]]
      translates_cong [OF MUL_translates [OF wf ok]]
  show ?thesis
    unfolding c using g alu fit
    by (cases "inst_cmd i")
      (simp_all add: cmd_desc_def row_def alu_op_def translates_well_def TranslateXORI_def TranslateORI_def
        TranslateANDI_def TranslateSLLI_def TranslateSRLI_def TranslateSRAI_def TranslateSUB_def TranslateSLL_def
        TranslateXOR_def TranslateSRL_def TranslateSRA_def TranslateOR_def TranslateAND_def cmd_format_by_opcode,
       (rule imm reg shift set rest; (auto simp: has cmd_format_by_opcode is_alu_def alu_fn_shifts
          simp del: alu_fn.simps(6-8))?)+)
qed

section \<open>Memory\<close>

lemma load_store_translate:
  assumes fit: "translates_well i" and ok: "alloc_ok t"
  shows "load_op (inst_cmd i) = Some (n, ext) \<Longrightarrow> \<exists>x w. load_width x w \<and> w div 8 = n \<and> load_fn x w = ext \<and>
      Inst_translate False i t = (Inr (), t\<lparr>tr_code := tr_code t @
        load_code x w (opnd t (inst_rd i)) (opnd t (inst_rs1 i)) (sint (inst_imm i))\<rparr>)"
    and "store_op (inst_cmd i) = Some n \<Longrightarrow> \<exists>w \<in> {8, 16, 32}. w div 8 = n \<and>
      Inst_translate False i t = (Inr (), t\<lparr>tr_code := tr_code t @
        store_code w (opnd t (inst_rs1 i)) (opnd t (inst_rs2 i)) (sint (inst_imm i))\<rparr>)"
proof -
  have wf: "wf_inst i" using fit by (simp add: translates_well_def)
  obtain g where g: "cd_translate_func (cmd_desc ! unat (Cmd_u8 (inst_cmd i))) = Some g"
    using fit supported_func [OF wf] unfolding translates_well_def by blast
  note c = Inst_translate_call [OF wf g]
  have has: "has_rs1 i \<longleftrightarrow> cmd_format (inst_cmd i) \<notin> {Fmt_U, Fmt_J}"
    "has_rs2 i \<longleftrightarrow> cmd_format (inst_cmd i) \<notin> {Fmt_I, Fmt_U, Fmt_J}"
    "has_rd i \<longleftrightarrow> cmd_format (inst_cmd i) \<notin> {Fmt_S, Fmt_B}"
    "has_imm i \<longleftrightarrow> cmd_format (inst_cmd i) \<noteq> Fmt_R"
    by (rule has_rs1_def has_rs2_def has_rd_def has_imm_def)+
  note ld = load_direct_eq [OF wf ok] and st = store_direct_eq [OF wf ok]
  have put: "movsx d (mem_at w k) t = (Inr (), t\<lparr>tr_code := tr_code t @ [Emit Id_Movsx [d, mem_at w k]]\<rparr>)"
    "movzx d (mem_at w k) t = (Inr (), t\<lparr>tr_code := tr_code t @ [Emit Id_Movzx [d, mem_at w k]]\<rparr>)"
    "TranslateMove d (mem_at w k) t = (Inr (), t\<lparr>tr_code := tr_code t @ [Emit Id_Mov [d, mem_at w k]]\<rparr>)"
    for d w k t
    by (simp_all add: movsx_def movzx_def mv_def mem_at_def)
  have code: "Inst_translate False i t = (Inr (), t\<lparr>tr_code := tr_code t @
        load_code x w (opnd t (inst_rd i)) (opnd t (inst_rs1 i)) (sint (inst_imm i))\<rparr>)"
    if "(inst_cmd i, x, w) \<in> {(Cmd_LB, Id_Movsx, 8), (Cmd_LH, Id_Movsx, 16), (Cmd_LW, Id_Mov, 32),
      (Cmd_LBU, Id_Movzx, 8), (Cmd_LHU, Id_Movzx, 16)}" for x w
    unfolding c using that g ld [OF _ _ _ put(1), of 8] ld [OF _ _ _ put(1), of 16] ld [OF _ _ _ put(2), of 8]
      ld [OF _ _ _ put(2), of 16] ld [OF _ _ _ put(3), of 32]
    by (auto simp: cmd_desc_def row_def TranslateLB_def TranslateLH_def TranslateLW_def TranslateLBU_def
        TranslateLHU_def has cmd_format_by_opcode simp del: TranslateMove_eq)
  have fns: "load_fn Id_Movsx 8 = (\<lambda>bs. word_of_int (sint (le_join bs :: u8)))"
    "load_fn Id_Movsx 16 = (\<lambda>bs. word_of_int (sint (le_join bs :: u16)))" "load_fn Id_Mov 32 = le_join"
    "load_fn Id_Movzx 8 = (\<lambda>bs. word_of_int (uint (le_join bs :: u8)))"
    "load_fn Id_Movzx 16 = (\<lambda>bs. word_of_int (uint (le_join bs :: u16)))"
    by (simp_all add: load_fn_def fun_eq_iff Let_def)
  show "\<exists>x w. load_width x w \<and> w div 8 = n \<and> load_fn x w = ext \<and>
      Inst_translate False i t = (Inr (), t\<lparr>tr_code := tr_code t @
        load_code x w (opnd t (inst_rd i)) (opnd t (inst_rs1 i)) (sint (inst_imm i))\<rparr>)"
    if l: "load_op (inst_cmd i) = Some (n, ext)"
  proof -
    obtain x and w :: nat where xw: "(inst_cmd i, x, w) \<in> {(Cmd_LB, Id_Movsx, 8), (Cmd_LH, Id_Movsx, 16), (Cmd_LW, Id_Mov, 32),
      (Cmd_LBU, Id_Movzx, 8), (Cmd_LHU, Id_Movzx, 16)}"
      using l by (simp add: load_op_def split: if_splits)
    then have "load_width x w" "w div 8 = n" "load_fn x w = ext"
      using l by (auto simp: load_op_def load_width_def fns)
    with code [OF xw] show ?thesis by blast
  qed
  show "\<exists>w \<in> {8, 16, 32}. w div 8 = n \<and>
      Inst_translate False i t = (Inr (), t\<lparr>tr_code := tr_code t @
        store_code w (opnd t (inst_rs1 i)) (opnd t (inst_rs2 i)) (sint (inst_imm i))\<rparr>)"
    if l: "store_op (inst_cmd i) = Some n"
    unfolding c using l g st
    by (auto simp: store_op_def cmd_desc_def row_def TranslateSB_def TranslateSH_def TranslateSW_def has
        cmd_format_by_opcode split: if_splits)
qed

end

end
