(* ===== verification/Jit_Alloc.thy ===== *)
theory Jit_Alloc
  imports Jit_Templates
begin

text \<open>
  The code of the register allocator moves guest registers between their slots and host registers
  and changes none of their values.
\<close>

section \<open>One register\<close>

lemma opnd_update:
  assumes "reg_mapping t' = (reg_mapping t)[unat r := x]" "length (reg_mapping t) = 32" "r < 32" "r \<noteq> 0"
  shows "opnd t' q = (if q = r then x else opnd t q)"
  using assms by (auto simp: opnd_def nth_list_update reg_index word_unat_eq_iff)

lemma agrees_cong: "opnd t = opnd t' \<Longrightarrow> agrees A s t = agrees A s t'"
  by (simp add: agrees_def fun_eq_iff)

text \<open>The host registers that are not free.\<close>

lemma deallocateReg_code:
  assumes ok: "alloc_ok t" and r: "0 < r" "r < 32"
  shows "deallocateReg r True t = (case opnd t r of
      Op_gp w g \<Rightarrow> (Inr (), t\<lparr>tr_code := tr_code t @ [Emit Id_Mov [Op_slot r, Op_gp 32 g]],
        reg_pool := reg_pool t @ [g], reg_mapping := (reg_mapping t)[unat r := Op_slot r]\<rparr>)
    | _ \<Rightarrow> (Inr (), t))"
proof -
  have r0: "r \<noteq> 0" using r by auto
  note len = alloc_okD(1) [OF ok]
  have m: "mapping_of r t = (Inr (opnd t r), t)"
    using r0 r len by (simp add: mapping_of_def opnd_def reg_index)
  show ?thesis
    by (rule opnd_cases [OF ok r(2) r0])
      (use m r len in \<open>simp_all add: deallocateReg_def bnd_Inr set_mapping_def getRegMemOp_def reg_index\<close>)
qed

lemma allocateReg_code:
  assumes ok: "alloc_ok t" and r: "0 < r" "r < 32"
  shows "allocateReg r load t = (case (opnd t r, reg_pool t) of
      (Op_slot q, g # gs) \<Rightarrow> (Inr (), t\<lparr>tr_code := tr_code t @ (if load then [Emit Id_Mov [Op_gp 32 g, Op_slot r]] else []),
        reg_pool := gs, reg_mapping := (reg_mapping t)[unat r := Op_gp 32 g]\<rparr>)
    | _ \<Rightarrow> (Inr (), t))"
proof -
  have r0: "r \<noteq> 0" using r by auto
  note len = alloc_okD(1) [OF ok]
  have m: "mapping_of r t = (Inr (opnd t r), t)"
    using r0 r len by (simp add: mapping_of_def opnd_def reg_index)
  show ?thesis
    by (rule opnd_cases [OF ok r(2) r0])
      (use m r len in \<open>simp_all add: allocateReg_def bnd_Inr set_mapping_def getRegMemOp_def reg_index split: list.split\<close>)
qed

text \<open>Giving up or taking a host register, seen from the values.\<close>

lemma agrees_move:
  assumes ok: "alloc_ok t" and r: "r < 32" "r \<noteq> 0" and h: "agrees A s t h at st"
    and x: "place x" "x \<noteq> Op_pc" "\<And>q. q < 32 \<Longrightarrow> q \<noteq> r \<Longrightarrow> opnd t q \<noteq> x"
    and o': "\<And>q. opnd t' q = (if q = r then x else opnd t q)"
  shows "agrees A s t' (write32 x (read32 (opnd t r) h) h) at st"
    and "agrees (A - {r}) s t' h at st"
proof -
  obtain xs m where st: "st = (xs, m)" by (cases st)
  have fit: "regs_fit h" using h by (simp add: agrees_def st)
  have "read32 (opnd t' q) (write32 x (read32 (opnd t r) h) h) = read32 (opnd t q) h" if "q < 32" for q
    using fit x that opnd_guest [OF ok that] o' by (cases "q = r") (simp_all del: write32.simps)
  then show "agrees A s t' (write32 x (read32 (opnd t r) h) h) at st"
    using h x(1,2) by (simp add: agrees_def st del: write32.simps)
  show "agrees (A - {r}) s t' h at st"
    using h o' by (simp add: agrees_def st)
qed

text \<open>A register that the allocator has settled: it is in a host register, or none was free.\<close>

definition settled :: "Reg \<Rightarrow> Translator \<Rightarrow> bool" where
  "settled r t \<longleftrightarrow> Op_isReg (opnd t r) \<or> reg_pool t = []"

context assembler
begin

lemma deallocateReg_emits:
  assumes r: "0 < r" "r < 32"
  shows "emits (tr_inv live k S) (\<lambda>t h. agrees A s t h at st \<and> F (host_flags h)) (deallocateReg r True)
    (tr_inv live k (S - {unat r})) (\<lambda>_ t h. agrees A s t h at st \<and> F (host_flags h)) E"
proof (rule emits_straight [OF deallocateReg_returns [OF r]])
  fix t a t' assume K: "tr_inv live k S t" and m: "deallocateReg r True t = (Inr a, t')"
  have ok: "alloc_ok t" using K by (simp add: tr_inv_def)
  have r0: "r \<noteq> 0" using r by auto
  show "\<exists>C. tr_code t' = tr_code t @ C \<and> labels t' = labels t \<and> bound C = {} \<and>
      (\<forall>h. agrees A s t h at st \<and> F (host_flags h) \<longrightarrow> sound C \<longrightarrow>
        (\<exists>h'. straight mem refused C h = Some h' \<and> agrees A s t' h' at st \<and> F (host_flags h')))"
  proof (rule opnd_cases [OF ok r(2) r0])
    assume "opnd t r = Op_slot r"
    then have "t' = t" using m deallocateReg_code [OF ok r] by simp
    then show ?thesis by (intro exI [of _ "[]"]) simp
  next
    fix g assume g: "g \<in> set pool_regs" "opnd t r = Op_gp 32 g"
    let ?C = "[Emit Id_Mov [Op_slot r, Op_gp 32 g]]"
    have t': "t' = t\<lparr>tr_code := tr_code t @ ?C, reg_pool := reg_pool t @ [g],
        reg_mapping := (reg_mapping t)[unat r := Op_slot r]\<rparr>"
      using m deallocateReg_code [OF ok r] g(2) by simp
    have o': "opnd t' q = (if q = r then Op_slot r else opnd t q)" for q
      by (rule opnd_update [OF _ alloc_okD(1) [OF ok] r(2) r0]) (simp add: t')
    have x: "opnd t q \<noteq> Op_slot r" if "q < 32" "q \<noteq> r" for q
      using that by (cases "q = 0"; simp) (rule opnd_cases [OF ok that(1)]; simp)
    have "\<exists>h'. straight mem refused ?C h = Some h' \<and> agrees A s t' h' at st \<and> F (host_flags h')"
      if "agrees A s t h at st" "F (host_flags h)" "sound ?C" for h
      using straight_mov [of "Op_slot r" "Op_gp 32 g" "[]" h] that
        agrees_move(1) [OF ok r(2) r0 that(1) _ _ x o'] r g
      by (auto simp: pool_regs_def simp del: write32.simps)
    with t' show ?thesis by (intro exI [of _ ?C]) simp
  qed
qed

lemma allocateReg_emits:
  assumes r: "0 < r" "r < 32"
  shows "emits (tr_inv live k S) (\<lambda>t h. agrees UNIV s t h at st) (allocateReg r load)
    (tr_inv live k (insert (unat r) S)) (\<lambda>_ t h. agrees (if load then UNIV else UNIV - {r}) s t h at st) E"
    (is "emits _ ?P _ _ ?Q E")
proof (rule emits_straight [OF allocateReg_returns [OF r]])
  fix t a t' assume K: "tr_inv live k S t" and m: "allocateReg r load t = (Inr a, t')"
  have ok: "alloc_ok t" using K by (simp add: tr_inv_def)
  have r0: "r \<noteq> 0" using r by auto
  show "\<exists>C. tr_code t' = tr_code t @ C \<and> labels t' = labels t \<and> bound C = {} \<and>
      (\<forall>h. ?P t h \<longrightarrow> sound C \<longrightarrow> (\<exists>h'. straight mem refused C h = Some h' \<and> ?Q a t' h'))"
  proof (cases "\<exists>g gs. opnd t r = Op_slot r \<and> reg_pool t = g # gs")
    case False
    have "t' = t"
    proof (rule opnd_cases [OF ok r(2) r0])
      assume "opnd t r = Op_slot r"
      with False have "reg_pool t = []" by (cases "reg_pool t") auto
      with \<open>opnd t r = Op_slot r\<close> m show ?thesis by (simp add: allocateReg_code [OF ok r])
    next
      fix g assume "opnd t r = Op_gp 32 g"
      with m show ?thesis by (simp add: allocateReg_code [OF ok r])
    qed
    then show ?thesis by (intro exI [of _ "[]"]) (auto simp: agrees_def)
  next
    case True
    then obtain g gs where g: "opnd t r = Op_slot r" "reg_pool t = g # gs" by blast
    let ?C = "if load then [Emit Id_Mov [Op_gp 32 g, Op_slot r]] else []"
    have t': "t' = t\<lparr>tr_code := tr_code t @ ?C, reg_pool := gs, reg_mapping := (reg_mapping t)[unat r := Op_gp 32 g]\<rparr>"
      using m g by (simp add: allocateReg_code [OF ok r])
    have o': "opnd t' q = (if q = r then Op_gp 32 g else opnd t q)" for q
      by (rule opnd_update [OF _ alloc_okD(1) [OF ok] r(2) r0]) (simp add: t')
    have gp: "g \<in> set pool_regs" using alloc_okD(4) [OF ok] g(2) by auto
    have x: "opnd t q \<noteq> Op_gp 32 g" if "q < 32" "q \<noteq> r" for q
      using that g(2) by (cases "q = 0"; simp) (rule opnd_cases [OF ok that(1)]; simp)
    have pl: "place (Op_gp 32 g)" using gp by (auto simp: pool_regs_def)
    have "\<exists>h'. straight mem refused ?C h = Some h' \<and> ?Q a t' h'" if "?P t h" "sound ?C" for h
      using straight_mov [of "Op_gp 32 g" "Op_slot r" "[]" h] that g(1) pl r
        agrees_move [OF ok r(2) r0 that(1) pl _ x o']
      by (auto simp del: write32.simps)
    with t' show ?thesis by (intro exI [of _ ?C]) simp
  qed
qed

lemma emits_cong: "(\<And>t. K t \<Longrightarrow> m t = m' t) \<Longrightarrow> emits K P m' K' Q E \<Longrightarrow> emits K P m K' Q E"
  unfolding emits_def by metis

lemma emits_conj:
  assumes "emits K P m K' Q E" "\<And>t a t'. K t \<Longrightarrow> X t \<Longrightarrow> m t = (Inr a, t') \<Longrightarrow> X' t'"
  shows "emits (\<lambda>t. K t \<and> X t) P m (\<lambda>t. K' t \<and> X' t) Q E"
  using assms unfolding emits_def by meson

lemma falls_nil: "falls l [] h h"
  by (simp add: falls_def reaches_refl)

lemma emits_ret: "(\<And>t. K t \<Longrightarrow> K' t) \<Longrightarrow> (\<And>t h. K t \<Longrightarrow> P t h \<Longrightarrow> Q a t h) \<Longrightarrow> emits K P (ret a) K' Q E"
  unfolding emits_def
proof (intro allI impI conjI)
  fix t b t' assume a: "\<And>t. K t \<Longrightarrow> K' t" "\<And>t h. K t \<Longrightarrow> P t h \<Longrightarrow> Q a t h" "K t" "ret a t = (Inr b, t')"
  then have [simp]: "b = a" "t' = t" by simp_all
  show "K' t'" using a by simp
  show "\<exists>C. tr_code t' = tr_code t @ C \<and> labels t \<le> labels t' \<and> bound C \<subseteq> {labels t..<labels t'} \<and>
      (\<forall>h. P t h \<longrightarrow> sound C \<longrightarrow> (\<exists>h'. Q b t' h' \<and> falls (labels t) C h h' \<or> E h' \<and> restarts (labels t) C h h'))"
    using a falls_nil by (intro exI [of _ "[]"]) fastforce
qed

lemma alloc_if_live_cases:
  assumes k: "k < length live" "length (live ! k) = 32" and f: "uses = Inr b" "b \<Longrightarrow> reg = Inr r" and r: "r < 32"
    and t: "tr_inv live k S t"
  shows "alloc_if_live uses reg load t =
      (if b \<and> r \<noteq> 0 \<and> unat r \<in> live_set live k then allocateReg r load t else (Inr (), t))"
    and "dealloc_if_dead uses reg t =
      (if b \<and> r \<noteq> 0 \<and> unat r \<notin> live_set live k then deallocateReg r True t else (Inr (), t))"
  using f is_live_eq [OF t k r] by (auto simp: alloc_if_live_def dealloc_if_dead_def bnd_Inr)

lemma alloc_emits:
  assumes k: "k < length live" "length (live ! k) = 32" and f: "uses = Inr b" "b \<Longrightarrow> reg = Inr r" and r: "r < 32"
  shows "emits (tr_inv live k S) (\<lambda>t h. agrees UNIV s t h at st) (alloc_if_live uses reg load)
    (tr_inv live k (S \<union> live_set live k))
    (\<lambda>_ t h. agrees (if load \<or> \<not> (b \<and> r \<noteq> 0 \<and> unat r \<in> live_set live k) then UNIV else UNIV - {r}) s t h at st) E"
    (is "emits ?K ?P _ ?K' ?Q E")
proof (cases "b \<and> r \<noteq> 0 \<and> unat r \<in> live_set live k")
  case True
  then have "0 < r" by (simp add: word_neq_0_conv)
  have "emits ?K ?P (allocateReg r load) ?K' ?Q E"
    by (rule emits_weaken [OF allocateReg_emits [OF \<open>0 < r\<close> r]]) (use True in \<open>auto elim: tr_inv_mono\<close>)
  then show ?thesis
    by (rule emits_cong [where m' = "allocateReg r load", rotated]) (use True alloc_if_live_cases(1) [OF k f r] in auto)
next
  case False
  have "emits ?K ?P (ret ()) ?K' ?Q E"
    by (rule emits_ret) (use False in \<open>auto elim: tr_inv_mono\<close>)
  then show ?thesis
    by (rule emits_cong [where m' = "ret ()", rotated]) (use False alloc_if_live_cases(1) [OF k f r] in auto)
qed

lemma dealloc_emits:
  assumes k: "k < length live" "length (live ! k) = 32" and f: "uses = Inr b" "b \<Longrightarrow> reg = Inr r" and r: "r < 32"
  shows "emits (tr_inv live k S) (\<lambda>t h. agrees UNIV s t h at st) (dealloc_if_dead uses reg)
    (tr_inv live k (S - (if b \<and> unat r \<notin> live_set live k then {unat r} else {})))
    (\<lambda>_ t h. agrees UNIV s t h at st) E" (is "emits ?K ?P _ ?K' ?Q E")
proof (cases "b \<and> r \<noteq> 0 \<and> unat r \<notin> live_set live k")
  case True
  then have "0 < r" by (simp add: word_neq_0_conv)
  have "emits ?K ?P (deallocateReg r True) ?K' ?Q E"
    by (rule emits_weaken [OF deallocateReg_emits [OF \<open>0 < r\<close> r, where F = "\<lambda>_. True"]]) (use True in auto)
  then show ?thesis
    by (rule emits_cong [where m' = "deallocateReg r True", rotated]) (use True alloc_if_live_cases(2) [OF k f r] in auto)
next
  case False
  have "emits ?K ?P (ret ()) ?K' ?Q E"
  proof (rule emits_ret)
    fix t assume t: "tr_inv live k S t"
    show "?K' t"
      using t False by (auto simp: tr_inv_def alloc_within_def alloc_ok_def split: if_splits)
  qed
  then show ?thesis
    by (rule emits_cong [where m' = "ret ()", rotated]) (use False alloc_if_live_cases(2) [OF k f r] in auto)
qed

lemma settles:
  assumes ok: "alloc_ok t" and r: "r < 32" "r \<noteq> 0" and m: "allocateReg r load t = (Inr a, t')"
  shows "settled r t'" and "settled q t \<Longrightarrow> q < 32 \<Longrightarrow> settled q t'"
proof -
  have r': "0 < r" using r(2) by (simp add: word_neq_0_conv)
  have "settled r t' \<and> (settled q t \<longrightarrow> q < 32 \<longrightarrow> settled q t')"
  proof (rule opnd_cases [OF ok r])
    fix g assume "opnd t r = Op_gp 32 g"
    with m show ?thesis by (simp add: allocateReg_code [OF ok r' r(1)] settled_def)
  next
    assume o: "opnd t r = Op_slot r"
    show ?thesis
    proof (cases "reg_pool t")
      case Nil
      with m o show ?thesis by (simp add: allocateReg_code [OF ok r' r(1)] settled_def)
    next
      case (Cons g gs)
      with m o have t': "reg_mapping t' = (reg_mapping t)[unat r := Op_gp 32 g]"
        by (auto simp: allocateReg_code [OF ok r' r(1)])
      have "opnd t' q = (if q = r then Op_gp 32 g else opnd t q)" for q
        by (rule opnd_update [OF t' alloc_okD(1) [OF ok] r])
      with Cons show ?thesis by (simp add: settled_def)
    qed
  qed
  then show "settled r t'" "settled q t \<Longrightarrow> q < 32 \<Longrightarrow> settled q t'" by blast+
qed

lemma settled_stays:
  assumes ok: "alloc_ok t" and r: "r < 32" "r \<noteq> 0" and s: "settled r t"
  shows "allocateReg r load t = (Inr (), t)"
proof -
  have r': "0 < r" using r(2) by (simp add: word_neq_0_conv)
  show ?thesis
    by (rule opnd_cases [OF ok r]) (use s in \<open>simp_all add: allocateReg_code [OF ok r' r(1)] settled_def\<close>)
qed

end

end
