(* ===== verification/Jit_Refines.thy ===== *)
theory Jit_Refines
  imports Jit_Steps
begin

text \<open>
  The translated trace refines the instruction set: every instruction's code carries out its step,
  the code of the register allocator moves values without changing them, and the whole trace,
  with the loop back to its own start, runs as the instruction set says.
\<close>

section \<open>One instruction\<close>

text \<open>The address of a load or store does not leave the range of 32 bits.\<close>

definition flat_access :: "Inst \<Rightarrow> u32 list \<Rightarrow> bool" where
  "flat_access i xs \<longleftrightarrow> (load_op (inst_cmd i) \<noteq> None \<or> store_op (inst_cmd i) \<noteq> None \<longrightarrow>
     flat (xs ! unat (inst_rs1 i)) (sint (inst_imm i)))"

text \<open>The registers whose values must be in place before the instruction.\<close>

definition ready :: "Reg set \<Rightarrow> Inst \<Rightarrow> bool" where
  "ready A i \<longleftrightarrow> (if has_rd i then insert (inst_rd i) A = UNIV else A = UNIV) \<and>
     (has_rs1 i \<longrightarrow> inst_rs1 i \<in> A) \<and> (has_rs2 i \<longrightarrow> inst_rs2 i \<in> A)"

lemma alu_formats: "alu_op c = Some f \<Longrightarrow> cmd_format c \<in> {Fmt_R, Fmt_I}"
  by (cases c) (simp_all add: alu_op_def cmd_format_by_opcode)

lemma load_formats: "load_op c = Some x \<Longrightarrow> cmd_format c = Fmt_I"
  by (cases c) (simp_all add: load_op_def cmd_format_by_opcode)

lemma store_formats: "store_op c = Some x \<Longrightarrow> cmd_format c = Fmt_S"
  by (cases c) (simp_all add: store_op_def cmd_format_by_opcode)

lemma branch_formats: "branch_op c = Some x \<Longrightarrow> cmd_format c = Fmt_B"
  by (cases c) (simp_all add: branch_op_def cmd_format_by_opcode)

lemma agrees_fields:
  assumes "agrees A s t h at (xs, m)"
  shows "regs_fit h" "pmem (rest h) = m" "pmem_size (rest h) = pmem_size s" "pc (rest h) = at"
  using assms by (simp_all add: agrees_def)

lemma agrees_pc:
  assumes "agrees UNIV s t h at st" "alloc_ok t"
  shows "agrees UNIV s t (no_flags (write32 Op_pc v h)) v st"
proof -
  have "read32 (opnd t r) (no_flags (write32 Op_pc v h)) = read32 (opnd t r) h" if "r < 32" "regs_fit h" for r
    using opnd_guest [OF assms(2) that(1)] that(2) by (simp del: write32.simps)
  with assms(1) show ?thesis by (auto simp: agrees_def simp del: write32.simps split: prod.splits)
qed

context assembler
begin

lemma agrees_stored:
  assumes "agrees UNIV s t h at (xs, m)" "alloc_ok t" "stored p bs h h'"
  shows "agrees UNIV s t h' at (xs, write_bytes p bs m)"
proof -
  have "read32 (opnd t r) h' = read32 (opnd t r) h" if "r < 32" for r
    using opnd_place [OF assms(2) that] opnd_free [OF assms(2) that] assms(3)
    by (cases "r = 0") (auto simp: stored_def)
  with assms(1,3) show ?thesis by (auto simp: agrees_def stored_def)
qed

definition carries_out ::
  "Reg set \<Rightarrow> State \<Rightarrow> Translator \<Rightarrow> u32 \<Rightarrow> u32 list \<times> (nat \<Rightarrow> u8) \<Rightarrow> Asm list \<Rightarrow> u32 \<Rightarrow>
    u32 list \<times> (nat \<Rightarrow> u8) \<Rightarrow> bool"
where
  "carries_out A s t at st C at' st' \<longleftrightarrow> bound C = {} \<and>
     (\<forall>h. agrees A s t h at st \<longrightarrow> sound C \<longrightarrow>
       (\<exists>h'. straight mem refused C h = Some h' \<and> agrees UNIV s t h' at' st'))"

lemma computes_carries:
  assumes "computes C (opnd t rd) f" "alloc_ok t" "rd < 32" "insert rd A = UNIV"
    and "\<And>h. agrees A s t h at (xs, m) \<Longrightarrow> f h = v"
  shows "carries_out A s t at (xs, m) C at (isa_write rd v xs, m)"
  unfolding carries_out_def
proof (intro conjI allI impI)
  fix h assume h: "agrees A s t h at (xs, m)" "sound C"
  then obtain h' where h': "straight mem refused C h = Some h'" "effect (opnd t rd) (f h) h h'"
    using assms(1) [unfolded computes_def] agrees_fields(1) [OF h(1)] by blast
  have "agrees UNIV s t h' at (isa_write rd (f h) xs, m)"
    by (rule agrees_effect [OF assms(2-4) h(1) h'(2)])
  with h' assms(5) [OF h(1)] show "\<exists>h'. straight mem refused C h = Some h' \<and> agrees UNIV s t h' at (isa_write rd v xs, m)"
    by auto
qed (use assms(1) in \<open>simp add: computes_def\<close>)

text \<open>An instruction that does not end a trace.\<close>

lemma plain_step:
  assumes fit: "translates_well i" and ok: "alloc_ok t" and ready: "ready A i" and flat: "flat_access i xs"
    and step: "isa_step i (at + offset_of (cur_inst t)) (unat (pmem_size s)) (xs, m) = Some (next_pc, xs', m')"
    and going: "\<not> terminator (inst_cmd i)"
  shows "\<exists>C. Inst_translate False i t = (Inr (), t\<lparr>tr_code := tr_code t @ C\<rparr>) \<and>
    carries_out A s t at (xs, m) C at (xs', m')"
proof -
  have wf: "wf_inst i" using fit by (simp add: translates_well_def)
  note r = wf_regs [OF wf] and has = has_rs1_def has_rs2_def has_rd_def has_imm_def
  note reads = agrees_reads and fields = agrees_fields
  have nb: "branch_op (inst_cmd i) = None"
    using going by (cases "inst_cmd i") (simp_all add: branch_op_def terminator_def)
  consider f where "alu_op (inst_cmd i) = Some f"
    | n ext where "alu_op (inst_cmd i) = None" "load_op (inst_cmd i) = Some (n, ext)"
    | n where "alu_op (inst_cmd i) = None" "load_op (inst_cmd i) = None" "store_op (inst_cmd i) = Some n"
    | "alu_op (inst_cmd i) = None" "load_op (inst_cmd i) = None" "store_op (inst_cmd i) = None" by force
  then show ?thesis
  proof cases
    case (1 f)
    let ?f = "\<lambda>h. f (read32 (opnd t (inst_rs1 i)) h)
      (if cmd_format (inst_cmd i) = Fmt_R then read32 (opnd t (inst_rs2 i)) h else inst_imm i)"
    let ?v = "f (xs ! unat (inst_rs1 i)) (if cmd_format (inst_cmd i) = Fmt_R then xs ! unat (inst_rs2 i) else inst_imm i)"
    obtain C where C: "Inst_translate False i t = (Inr (), t\<lparr>tr_code := tr_code t @ C\<rparr>)" "computes C (opnd t (inst_rd i)) ?f"
      using alu_translates [OF fit ok 1] by (auto simp: translates_def)
    have h: "has_rd i" "has_rs1 i" "cmd_format (inst_cmd i) = Fmt_R \<Longrightarrow> has_rs2 i" using alu_formats [OF 1] by (auto simp: has)
    then have "carries_out A s t at (xs, m) C at (isa_write (inst_rd i) ?v xs, m)"
      using ready r by (intro computes_carries [OF C(2) ok r(3)]) (auto simp: ready_def agrees_reads)
    moreover have "(xs', m') = (isa_write (inst_rd i) ?v xs, m)" using step 1 by (auto simp: isa_step_def Let_def)
    ultimately show ?thesis using C(1) by auto
  next
    case (2 n ext)
    have h: "has_rd i" "has_rs1 i" using load_formats [OF 2(2)] by (auto simp: has)
    obtain x w where xw: "load_width x w" "w div 8 = n" "load_fn x w = ext" and C:
      "Inst_translate False i t = (Inr (), t\<lparr>tr_code := tr_code t @
        load_code x w (opnd t (inst_rd i)) (opnd t (inst_rs1 i)) (sint (inst_imm i))\<rparr>)"
      using load_store_translate(1) [OF fit ok 2(2)] by blast
    let ?C = "load_code x w (opnd t (inst_rd i)) (opnd t (inst_rs1 i)) (sint (inst_imm i))"
    let ?a = "xs ! unat (inst_rs1 i)"
    let ?v = "ext (read_bytes (unat (?a + inst_imm i)) n m)"
    have st: "unat (?a + inst_imm i) + n < unat (pmem_size s)" "(xs', m') = (isa_write (inst_rd i) ?v xs, m)"
      using step 2 nb by (auto simp: isa_step_def Let_def split: if_splits)
    have "carries_out A s t at (xs, m) ?C at (isa_write (inst_rd i) ?v xs, m)"
      unfolding carries_out_def
    proof (intro conjI allI impI)
      show "bound ?C = {}" by (simp add: load_code_def address_code_def)
      fix k assume k: "agrees A s t k at (xs, m)" "sound ?C"
      have a: "read32 (opnd t (inst_rs1 i)) k = ?a" using agrees_reads [OF k(1)] r ready h by (simp add: ready_def)
      have "flat ?a (sint (inst_imm i))" using flat 2 by (simp add: flat_access_def)
      then obtain k' where "straight mem refused ?C k = Some k'"
          "effect (opnd t (inst_rd i)) (load_fn x w (read_bytes (unat (?a + inst_imm i)) (w div 8) m)) k k'"
        using load_computes [of "opnd t (inst_rd i)" "opnd t (inst_rs1 i)" x w k "sint (inst_imm i)"]
          guests [OF wf ok] xw(1) k(2) agrees_fields [OF k(1)] a st(1) xw(2) by auto
      with xw have "straight mem refused ?C k = Some k'" "effect (opnd t (inst_rd i)) ?v k k'" by simp_all
      with agrees_effect [OF ok r(3) _ k(1)] ready h
      show "\<exists>k'. straight mem refused ?C k = Some k' \<and> agrees UNIV s t k' at (isa_write (inst_rd i) ?v xs, m)"
        by (auto simp: ready_def)
    qed
    with C st(2) show ?thesis by auto
  next
    case (3 n)
    have h: "\<not> has_rd i" "has_rs1 i" "has_rs2 i" using store_formats [OF 3(3)] by (auto simp: has)
    then have A: "A = UNIV" using ready by (simp add: ready_def)
    obtain w where w: "w \<in> {8, 16, 32}" "w div 8 = n" and C:
      "Inst_translate False i t = (Inr (), t\<lparr>tr_code := tr_code t @
        store_code w (opnd t (inst_rs1 i)) (opnd t (inst_rs2 i)) (sint (inst_imm i))\<rparr>)"
      using load_store_translate(2) [OF fit ok 3(3)] by blast
    let ?C = "store_code w (opnd t (inst_rs1 i)) (opnd t (inst_rs2 i)) (sint (inst_imm i))"
    let ?a = "xs ! unat (inst_rs1 i)" and ?b = "xs ! unat (inst_rs2 i)"
    let ?m = "write_bytes (unat (?a + inst_imm i)) (le_split n ?b) m"
    have st: "unat (?a + inst_imm i) + n < unat (pmem_size s)" "(xs', m') = (xs, ?m)"
      using step 3 nb by (auto simp: isa_step_def Let_def split: if_splits)
    have "carries_out A s t at (xs, m) ?C at (xs, ?m)"
      unfolding carries_out_def A
    proof (intro conjI allI impI)
      show "bound ?C = {}" by (simp add: store_code_def address_code_def)
      fix k assume k: "agrees UNIV s t k at (xs, m)" "sound ?C"
      have a: "read32 (opnd t (inst_rs1 i)) k = ?a" "read32 (opnd t (inst_rs2 i)) k = ?b"
        using agrees_reads [OF k(1)] r by simp_all
      have "flat ?a (sint (inst_imm i))" using flat 3 by (simp add: flat_access_def)
      then obtain k' where "straight mem refused ?C k = Some k'"
          "stored (unat (?a + inst_imm i)) (le_split n ?b) k k'"
        using store_stores [of "opnd t (inst_rs1 i)" "opnd t (inst_rs2 i)" w k "sint (inst_imm i)"]
          guests [OF wf ok] w k(2) agrees_fields [OF k(1)] a st(1) by auto
      with agrees_stored [OF k(1) ok] 
      show "\<exists>k'. straight mem refused ?C k = Some k' \<and> agrees UNIV s t k' at (xs, ?m)" by blast
    qed
    with C st(2) show ?thesis by auto
  next
    case 4
    then have c: "inst_cmd i = Cmd_LUI \<or> inst_cmd i = Cmd_AUIPC"
      using step nb going by (auto simp: isa_step_def Let_def terminator_def split: if_splits)
    then have h: "has_rd i" "has_imm i" by (auto simp: has cmd_format_by_opcode)
    let ?v = "if inst_cmd i = Cmd_LUI then inst_imm i else at + offset_of (cur_inst t) + inst_imm i"
    let ?f = "\<lambda>h. if inst_cmd i = Cmd_LUI then inst_imm i else pc (rest h) + offset_of (cur_inst t) + inst_imm i"
    have "translates (Inst_translate False i) t (inst_rd i) ?f"
    proof -
      obtain g where g: "cd_translate_func (cmd_desc ! unat (Cmd_u8 (inst_cmd i))) = Some g"
        using fit supported_func [OF wf] unfolding translates_well_def by blast
      show ?thesis
        unfolding Inst_translate_call [OF wf g] using g c upper_translates [OF wf ok h]
        by (auto simp: cmd_desc_def row_def)
    qed
    then obtain C where C: "Inst_translate False i t = (Inr (), t\<lparr>tr_code := tr_code t @ C\<rparr>)"
        "computes C (opnd t (inst_rd i)) ?f"
      by (auto simp: translates_def)
    have "carries_out A s t at (xs, m) C at (isa_write (inst_rd i) ?v xs, m)"
      using ready h by (intro computes_carries [OF C(2) ok r(3)]) (auto simp: ready_def agrees_fields)
    moreover have "(xs', m') = (isa_write (inst_rd i) ?v xs, m)"
      using step 4 nb c by (auto simp: isa_step_def Let_def)
    ultimately show ?thesis using C(1) by auto
  qed
qed

end

end
