(* ===== verification/Jit_Jumps.thy ===== *)
theory Jit_Jumps
  imports Jit_Refines Jit_Alloc
begin

text \<open>
  The instructions that end a trace: the code of a jump carries out its step, that of a branch
  has two ways to its end, and a branch to the start of its own trace leaves through the start.
\<close>

section \<open>Jumps\<close>

lemma moved_pc: "rest (moved Op_pc a h) = (rest h)\<lparr>pc := read32 a h\<rparr>"
  by (simp add: moved_def del: write32.simps)

lemma read_pc: "read32 Op_pc h = pc (rest h)"
  by (simp add: rest_def)

context assembler
begin

text \<open>Code that writes a register and the program counter.\<close>

definition links :: "Asm list \<Rightarrow> Operand \<Rightarrow> (x86 \<Rightarrow> u32) \<Rightarrow> (x86 \<Rightarrow> u32) \<Rightarrow> bool" where
  "links C d f p \<longleftrightarrow> bound C = {} \<and> (\<forall>h. regs_fit h \<longrightarrow> sound C \<longrightarrow>
     (\<exists>h'. straight mem refused C h = Some h' \<and> regs_fit h' \<and> rest h' = (rest h)\<lparr>pc := p h\<rparr> \<and>
       (place d \<longrightarrow> read32 d h' = f h) \<and>
       (\<forall>y. place y \<and> y \<notin> {Tmp1, Tmp2, Op_pc, d} \<longrightarrow> read32 y h' = read32 y h)))"

lemma links_carries:
  assumes l: "links C (opnd t rd) f p" and ok: "alloc_ok t" and rd: "rd < 32" and A: "insert rd A = UNIV"
    and v: "\<And>h. agrees A s t h at (xs, m) \<Longrightarrow> f h = v \<and> p h = at'"
  shows "carries_out A s t at (xs, m) C at' (isa_write rd v xs, m)"
  unfolding carries_out_def
proof (intro conjI allI impI)
  show "bound C = {}" using l by (simp add: links_def)
  fix h assume h: "agrees A s t h at (xs, m)" "sound C"
  then obtain h' where h': "straight mem refused C h = Some h'" "regs_fit h'" "rest h' = (rest h)\<lparr>pc := p h\<rparr>"
      "place (opnd t rd) \<Longrightarrow> read32 (opnd t rd) h' = f h"
      "\<And>y. place y \<Longrightarrow> y \<notin> {Tmp1, Tmp2, Op_pc, opnd t rd} \<Longrightarrow> read32 y h' = read32 y h"
    using l [unfolded links_def] agrees_fields(1) [OF h(1)] by blast
  from v [OF h(1)] have "f h = v" "p h = at'" by simp_all
  with h' have "agrees UNIV s t h' at' (isa_write rd v xs, m)"
    by (intro agrees_write [OF ok rd A h(1)]) simp_all
  with h'(1) show "\<exists>h'. straight mem refused C h = Some h' \<and> agrees UNIV s t h' at' (isa_write rd v xs, m)" by blast
qed

lemma JAL_links:
  assumes wf: "wf_inst i" and ok: "alloc_ok t" and h: "has_rd i" "has_imm i"
  shows "\<exists>C. TranslateJAL i t = (Inr (), t\<lparr>tr_code := tr_code t @ C\<rparr>) \<and>
    links C (opnd t (inst_rd i)) (\<lambda>h. pc (rest h) + offset_of (cur_inst t) + 4)
      (\<lambda>h. pc (rest h) + offset_of (cur_inst t) + 2 * inst_imm i)"
proof -
  let ?d = "opnd t (inst_rd i)" and ?off = "int (cur_inst t) * 4" and ?m = "sint (inst_imm i)"
  have g: "guest ?d" using guests [OF wf ok] by simp
  have n: "word_of_int (?off + 4) = offset_of (cur_inst t) + 4"
    "word_of_int (?off + ?m * 2) = offset_of (cur_inst t) + 2 * inst_imm i"
    by (simp_all add: offset_of_def)
  let ?go = "Emit Id_Add [Op_pc, Op_imm (?off + ?m * 2)]"
  show ?thesis
  proof (cases "inst_rd i = 0")
    case True
    have "links [?go] ?d (\<lambda>h. pc (rest h) + offset_of (cur_inst t) + 4)
      (\<lambda>h. pc (rest h) + offset_of (cur_inst t) + 2 * inst_imm i)"
      unfolding links_def
      by (use True n in \<open>auto simp: straight_rules is_alu_def x86_alu_def read_pc add.assoc
          simp del: write32.simps read32.simps(3)\<close>)
    then show ?thesis using True wf ok h field_eqs [OF wf] by (intro exI [of _ "[?go]"]) (simp add: TranslateJAL_def)
  next
    case False
    let ?C = "[mv Tmp1 Op_pc, mv ?d Tmp1, Emit Id_Add [?d, Op_imm (?off + 4)], ?go]"
    have p: "place ?d" by (rule place_rd [OF wf ok False])
    have "links ?C ?d (\<lambda>h. pc (rest h) + offset_of (cur_inst t) + 4)
      (\<lambda>h. pc (rest h) + offset_of (cur_inst t) + 2 * inst_imm i)"
      unfolding links_def
      by (use n g p in \<open>auto simp: straight_rules is_alu_def x86_alu_def read_pc add.assoc
          simp del: write32.simps read32.simps(3)\<close>)
    then show ?thesis using False wf ok h field_eqs [OF wf] by (intro exI [of _ ?C]) (simp add: TranslateJAL_def)
  qed
qed

lemma JALR_links:
  assumes wf: "wf_inst i" and ok: "alloc_ok t" and h: "has_rd i" "has_rs1 i" "has_imm i"
    and r: "inst_rd i \<noteq> inst_rs1 i \<or> inst_rd i = 0"
  shows "\<exists>C. TranslateJALR i t = (Inr (), t\<lparr>tr_code := tr_code t @ C\<rparr>) \<and>
    links C (opnd t (inst_rd i)) (\<lambda>h. pc (rest h) + offset_of (cur_inst t) + 4)
      (\<lambda>h. (read32 (opnd t (inst_rs1 i)) h + inst_imm i) AND 0xfffffffe)"
proof -
  let ?d = "opnd t (inst_rd i)" and ?a = "opnd t (inst_rs1 i)" and ?off = "int (cur_inst t) * 4"
    and ?m = "sint (inst_imm i)"
  have g: "guest ?d" "guest ?a" using guests [OF wf ok] by simp_all
  have n: "word_of_int (?off + 4) = offset_of (cur_inst t) + 4" by (simp add: offset_of_def)
  have ne: "place ?d \<Longrightarrow> ?a \<noteq> ?d"
    using r opnd_inj [OF ok wf_regs(3) [OF wf] wf_regs(1) [OF wf]] by (metis opnd_simps(4) places(6))
  let ?C = "[Emit Id_Add [Op_pc, Op_imm (?off + 4)], mv Tmp1 Op_pc, mv ?d Tmp1, mv Tmp1 ?a,
      Emit Id_Add [Tmp1, Op_imm ?m], Emit Id_And [Tmp1, Op_imm 0xfffffffe], mv Op_pc Tmp1]"
  have "links ?C ?d (\<lambda>h. pc (rest h) + offset_of (cur_inst t) + 4)
      (\<lambda>h. (read32 ?a h + inst_imm i) AND 0xfffffffe)"
  proof (cases "place ?d")
    case True
    with g n ne [OF True] show ?thesis unfolding links_def
      by (auto simp: straight_rules is_alu_def x86_alu_def read_pc add.assoc moved_pc
          simp del: write32.simps read32.simps(3))
  next
    case False
    then have "?d = Op_imm 0" using guestD(1) [OF g(1)] by (simp add: dest_def)
    then have z: "moved ?d b k = k" for b k by (simp add: moved_def)
    from False g n z show ?thesis unfolding links_def
      by (auto simp: straight_rules is_alu_def x86_alu_def read_pc add.assoc moved_pc
          simp del: write32.simps read32.simps(3))
  qed
  then show ?thesis using wf ok h by (intro exI [of _ ?C]) (simp add: TranslateJALR_def)
qed

lemma jump_step:
  assumes fit: "translates_well i" and ok: "alloc_ok t" and ready: "ready A i"
    and step: "isa_step i (at + offset_of (cur_inst t)) (unat (pmem_size s)) (xs, m) = Some (next_pc, xs', m')"
    and jump: "inst_cmd i = Cmd_JAL \<or> inst_cmd i = Cmd_JALR"
  shows "\<exists>C. Inst_translate False i t = (Inr (), t\<lparr>tr_code := tr_code t @ C\<rparr>) \<and>
    carries_out A s t at (xs, m) C next_pc (xs', m')"
proof -
  have wf: "wf_inst i" using fit by (simp add: translates_well_def)
  obtain g where g: "cd_translate_func (cmd_desc ! unat (Cmd_u8 (inst_cmd i))) = Some g"
    using fit supported_func [OF wf] unfolding translates_well_def by blast
  note c = Inst_translate_call [OF wf g] and has = has_rs1_def has_rs2_def has_rd_def has_imm_def
    and r = wf_regs [OF wf]
  from jump show ?thesis
  proof
    assume J: "inst_cmd i = Cmd_JAL"
    then have h: "has_rd i" "has_imm i" by (auto simp: has cmd_format_by_opcode)
    obtain C where C: "TranslateJAL i t = (Inr (), t\<lparr>tr_code := tr_code t @ C\<rparr>)"
      "links C (opnd t (inst_rd i)) (\<lambda>h. pc (rest h) + offset_of (cur_inst t) + 4)
        (\<lambda>h. pc (rest h) + offset_of (cur_inst t) + 2 * inst_imm i)"
      using JAL_links [OF wf ok h] by blast
    have "carries_out A s t at (xs, m) C next_pc (xs', m')"
      using links_carries [OF C(2) ok r(3), of A s at xs m "at + offset_of (cur_inst t) + 4" next_pc] ready h step J
      by (auto simp: ready_def agrees_fields isa_step_def Let_def alu_op_def branch_op_def load_op_def store_op_def)
    with C(1) g J show ?thesis unfolding c by (auto simp: cmd_desc_def row_def)
  next
    assume J: "inst_cmd i = Cmd_JALR"
    then have h: "has_rd i" "has_rs1 i" "has_imm i" by (auto simp: has cmd_format_by_opcode)
    have rd: "inst_rd i \<noteq> inst_rs1 i \<or> inst_rd i = 0" using fit J by (simp add: translates_well_def)
    obtain C where C: "TranslateJALR i t = (Inr (), t\<lparr>tr_code := tr_code t @ C\<rparr>)"
      "links C (opnd t (inst_rd i)) (\<lambda>h. pc (rest h) + offset_of (cur_inst t) + 4)
        (\<lambda>h. (read32 (opnd t (inst_rs1 i)) h + inst_imm i) AND 0xfffffffe)"
      using JALR_links [OF wf ok h rd] by blast
    have "(- 2 :: u32) = 0xfffffffe" by simp
    then have even: "x AND - 2 = x AND 0xfffffffe" for x :: u32 by (simp only:)
    have "carries_out A s t at (xs, m) C next_pc (xs', m')"
      using links_carries [OF C(2) ok r(3), of A s at xs m "at + offset_of (cur_inst t) + 4" next_pc] ready h step J r
      by (auto simp: even ready_def agrees_fields agrees_reads isa_step_def Let_def alu_op_def branch_op_def load_op_def
          store_op_def)
    with C(1) g J show ?thesis unfolding c by (auto simp: cmd_desc_def row_def)
  qed
qed

end

section \<open>Branches\<close>

definition is_branch :: "X86Id \<Rightarrow> bool" where
  "is_branch x \<longleftrightarrow> x \<in> {Id_Je, Id_Jne, Id_Jl, Id_Jge, Id_Jb, Id_Jae}"

lemma is_branch_jump: "is_branch x \<Longrightarrow> is_jump x \<and> x \<noteq> Id_Jmp \<and> x \<noteq> Id_Ret"
  by (auto simp: is_branch_def is_jump_def)

lemma branch_conditions:
  "condition Id_Je (cmp_flags a b) \<longleftrightarrow> a = b" "condition Id_Jne (cmp_flags a b) \<longleftrightarrow> a \<noteq> b"
  "condition Id_Jl (cmp_flags a b) \<longleftrightarrow> sint a < sint b" "condition Id_Jge (cmp_flags a b) \<longleftrightarrow> sint a \<ge> sint b"
  "condition Id_Jb (cmp_flags a b) \<longleftrightarrow> uint a < uint b" "condition Id_Jae (cmp_flags a b) \<longleftrightarrow> uint a \<ge> uint b"
  using signed_less [of a b] by (auto simp: condition_def cmp_flags_def word_less_def)

lemma reaches_bind: "reaches mem refused code (Bind l # cs) h cs h"
  by (rule reaches_step) simp

lemma reaches_taken:
  "is_jump x \<Longrightarrow> jump_taken x h = Some True \<Longrightarrow> after_label l code = Some cs' \<Longrightarrow>
    reaches mem refused code (Emit x [Op_label l] # cs) h cs' h"
  by (rule reaches_step) (auto simp: is_jump_def)

lemma reaches_not_taken:
  "is_jump x \<Longrightarrow> jump_taken x h = Some False \<Longrightarrow> reaches mem refused code (Emit x [Op_label l] # cs) h cs h"
  by (rule reaches_step) (auto simp: is_jump_def)

text \<open>The two ways through the code behind the comparison.\<close>

definition branch_code :: "X86Id \<Rightarrow> nat \<Rightarrow> int \<Rightarrow> int \<Rightarrow> Asm list" where
  "branch_code x l n k = [Emit x [Op_label l], Emit Id_Add [Op_pc, Op_imm n], Emit Id_Jmp [Op_label (Suc l)],
     Bind l, Emit Id_Add [Op_pc, Op_imm k], Bind (Suc l)]"

context assembler
begin

lemma straight_falls:
  assumes "straight mem refused C h = Some h'"
  shows "falls l C h h'"
  using straight_reaches [OF assms] by (simp add: falls_def)

lemma add_pc:
  "sound_asm (Emit Id_Add [Op_pc, Op_imm n]) \<Longrightarrow>
    straight mem refused [Emit Id_Add [Op_pc, Op_imm n]] h =
      Some (no_flags (write32 Op_pc (pc (rest h) + word_of_int n) h))"
  by (simp add: straight_alu is_alu_def x86_alu_def read_pc del: write32.simps read32.simps(3))

lemma branch_falls:
  assumes x: "is_branch x" and f: "host_flags h = Some f" and s: "sound (branch_code x l n k)"
  shows "falls l (branch_code x l n k) h
    (no_flags (write32 Op_pc (pc (rest h) + word_of_int (if condition x f then k else n)) h))"
  unfolding falls_def
proof (intro allI impI)
  fix pre post assume pre: "bound pre \<subseteq> {..<l}"
  let ?code = "pre @ branch_code x l n k @ post"
  let ?h = "\<lambda>n. no_flags (write32 Op_pc (pc (rest h) + word_of_int n) h)"
  let ?A = "\<lambda>n. Emit Id_Add [Op_pc, Op_imm n]"
  have nl: "l \<notin> bound pre" "Suc l \<notin> bound pre" using pre by auto
  have L: "after_label l ?code = Some (?A k # Bind (Suc l) # post)" "after_label (Suc l) ?code = Some post"
    using after_label_skip [OF nl(1)] after_label_skip [OF nl(2)] by (simp_all add: branch_code_def)
  have add: "reaches mem refused ?code (?A j # cs) h cs (?h j)" if "j \<in> {n, k}" for j cs
  proof -
    have "straight mem refused [?A j] h = Some (?h j)"
      by (rule add_pc) (use s that in \<open>auto simp: branch_code_def\<close>)
    from straight_reaches [OF this, of ?code cs] show ?thesis by simp
  qed
  show "reaches mem refused ?code (branch_code x l n k @ post) h post (?h (if condition x f then k else n))"
  proof (cases "condition x f")
    case True
    have "reaches mem refused ?code (branch_code x l n k @ post) h (?A k # Bind (Suc l) # post) h"
      unfolding branch_code_def append_Cons
      by (rule reaches_taken) (use L(1) True f is_branch_jump [OF x] in \<open>auto simp: jump_taken_def branch_code_def\<close>)
    then have "reaches mem refused ?code (branch_code x l n k @ post) h post (?h k)"
      by (rule reaches_trans [OF _ reaches_trans [OF add reaches_bind]]) simp
    with True show ?thesis by (simp only: if_True)
  next
    case False
    have 1: "reaches mem refused ?code (branch_code x l n k @ post) h
        (?A n # Emit Id_Jmp [Op_label (Suc l)] # Bind l # ?A k # Bind (Suc l) # post) h"
      unfolding branch_code_def append_Cons append_Nil
      by (rule reaches_not_taken) (use False f is_branch_jump [OF x] in \<open>auto simp: jump_taken_def\<close>)
    have 2: "reaches mem refused ?code (Emit Id_Jmp [Op_label (Suc l)] # Bind l # ?A k # Bind (Suc l) # post)
        (?h n) post (?h n)"
      by (rule reaches_taken) (use L(2) in \<open>simp_all add: is_jump_def jump_taken_def\<close>)
    have "reaches mem refused ?code (branch_code x l n k @ post) h post (?h n)"
      by (rule reaches_trans [OF 1 reaches_trans [OF add 2]]) simp
    with False show ?thesis by (simp only: if_False)
  qed
qed

text \<open>The comparison.\<close>

definition compare_code :: "Operand \<Rightarrow> Operand \<Rightarrow> Asm list" where
  "compare_code a b = fst_code a @ [Emit Id_Cmp [fst_place a, b]]"

lemma bound_compare [simp]: "bound (compare_code a b) = {}"
  by (simp add: compare_code_def fst_code_def)

lemma compare_straight:
  assumes ok: "alloc_ok t" and r: "r < 32" "q < 32" and h: "agrees UNIV s t h at (xs, m)"
    and s: "sound (compare_code (opnd t r) (opnd t q))"
  shows "\<exists>h'. straight mem refused (compare_code (opnd t r) (opnd t q)) h = Some h' \<and>
    agrees UNIV s t h' at (xs, m) \<and> host_flags h' = Some (cmp_flags (xs ! unat r) (xs ! unat q))"
proof -
  let ?a = "opnd t r" and ?b = "opnd t q"
  note g = opnd_guest [OF ok r(1)] opnd_guest [OF ok r(2)]
  let ?h1 = "if Op_isMem ?a \<or> Op_isImm ?a then moved Tmp1 ?a h else h"
  have fit: "regs_fit h" by (rule agrees_fields(1) [OF h])
  have "read32 (opnd t p) ?h1 = read32 (opnd t p) h" if "p < 32" for p
    using opnd_guest [OF ok that] fit by simp
  then have h1: "agrees UNIV s t ?h1 at (xs, m)" using h by (simp add: agrees_def)
  have v: "read32 (fst_place ?a) ?h1 = xs ! unat r" "read32 ?b ?h1 = xs ! unat q"
    using agrees_reads [OF h1] agrees_reads [OF h] r fit by (simp_all add: fst_place_def)
  have "straight mem refused (compare_code ?a ?b) h = Some (x86_cmp (fst_place ?a) ?b ?h1)"
    using s g by (auto simp: compare_code_def fst_code_def fst_place_def straight_rules)
  moreover have "agrees UNIV s t (x86_cmp (fst_place ?a) ?b ?h1) at (xs, m)"
    using h1 by (simp add: agrees_def)
  ultimately show ?thesis using v by (intro exI [of _ "x86_cmp (fst_place ?a) ?b ?h1"]) simp
qed

lemma TranslateCondBranch_eq:
  assumes wf: "wf_inst i" and ok: "alloc_ok t" and h: "has_rs1 i" "has_rs2 i" "has_imm i"
  shows "TranslateCondBranch i x t =
    (let off = int (cur_inst t) * 4; k = off + sint (inst_imm i) * 2;
         D = compare_code (opnd t (inst_rs1 i)) (opnd t (inst_rs2 i)); t1 = t\<lparr>tr_code := tr_code t @ D\<rparr> in
     if k \<noteq> 0 then (Inr (), t1\<lparr>tr_code := tr_code t1 @ branch_code x (labels t) (off + 4) k, labels := Suc (Suc (labels t))\<rparr>)
     else bnd deallocateAllRegs (\<lambda>_. bnd (emit x [Op_label func_start]) (\<lambda>_.
       emit Id_Add [Op_pc, Op_imm (off + 4)])) t1)"
  using assms
  by (simp add: TranslateCondBranch_def Let_def bnd_Inr fst_operand_eq compare_code_def branch_code_def
      newLabel_def bind_label_def modify_def bnd_def)

end

end
