(* ===== verification/Jit_Branches.thy ===== *)
theory Jit_Branches
  imports Jit_Jumps
begin

text \<open>
  The triple of a conditional branch. A branch to the start of its own trace first moves all guest
  registers back to their slots, so that the start sees the state it expects.
\<close>

section \<open>All registers in their slots\<close>

definition entry :: "State \<Rightarrow> x86 \<Rightarrow> u32 \<Rightarrow> u32 list \<times> (nat \<Rightarrow> u8) \<Rightarrow> bool" where
  "entry s h at = (\<lambda>(xs, m). length xs = 32 \<and> xs ! 0 = 0 \<and> host_vm h = s\<lparr>regs := xs, pmem := m, pc := at\<rparr>)"

lemma slots:
  assumes "tr_inv live k {} t" "r < 32" "r \<noteq> 0"
  shows "opnd t r = Op_slot r"
proof -
  have "reg_mapping t ! unat r = Op_slot (of_nat (unat r))"
    using nothing_live [OF assms(1)] reg_index [of r] assms(2,3) by blast
  then show ?thesis using assms(3) by (simp add: opnd_def)
qed

lemma agrees_entry:
  assumes "tr_inv live k {} t"
  shows "agrees UNIV s t h at st \<longleftrightarrow> entry s h at st"
proof -
  obtain xs m where st: "st = (xs, m)" by (cases st)
  have reads: "read32 (opnd t r) h = (if r = 0 then 0 else regs (host_vm h) ! unat r)" if "r < 32" for r
    using slots [OF assms that] by simp
  have all: "(\<forall>r :: Reg. r < 32 \<longrightarrow> Q (unat r)) \<longleftrightarrow> (\<forall>j < 32. Q j)" for Q
  proof
    assume a: "\<forall>r :: Reg. r < 32 \<longrightarrow> Q (unat r)"
    have "Q j" if "j < 32" for j
    proof -
      have "unat (of_nat j :: Reg) = j" using that by (simp add: unat_of_nat take_bit_nat_eq_self)
      moreover have "(of_nat j :: Reg) < 32" using that calculation by (simp add: word_less_nat_alt)
      ultimately show ?thesis using a by metis
    qed
    then show "\<forall>j < 32. Q j" by blast
  qed (simp add: word_less_nat_alt)
  show ?thesis
  proof
    assume a: "agrees UNIV s t h at st"
    then have fit: "length (regs (host_vm h)) = 32" "length xs = 32" "xs ! 0 = 0"
      and vm: "rest h = s\<lparr>regs := [0], pmem := m, pc := at\<rparr>"
      by (simp_all add: agrees_def regs_fit_def st)
    have "take 1 (regs (host_vm h)) = [0]" using arg_cong [OF vm, of regs] by (simp add: rest_def)
    then have z: "regs (host_vm h) ! 0 = 0" using fit(1) by (cases "regs (host_vm h)") auto
    have "regs (host_vm h) ! unat r = xs ! unat r" if "r < 32" for r :: Reg
      using a that reads [OF that] z fit(3) by (cases "r = 0") (auto simp: agrees_def st)
    then have "\<forall>j < 32. regs (host_vm h) ! j = xs ! j"
      using all [of "\<lambda>j. regs (host_vm h) ! j = xs ! j"] by blast
    then have "regs (host_vm h) = xs" using fit by (intro nth_equalityI) simp_all
    with fit(2,3) arg_cong [OF vm, of "\<lambda>v. v\<lparr>regs := xs\<rparr>"] show "entry s h at st"
      by (simp add: entry_def st rest_def) (cases "host_vm h", simp)
  next
    assume e: "entry s h at st"
    then have "regs (host_vm h) = xs" "length xs = 32" "xs ! 0 = 0" by (simp_all add: entry_def st)
    moreover from this have "take 1 (regs (host_vm h)) = [0]" by (cases xs) auto
    ultimately show "agrees UNIV s t h at st"
      using e reads by (auto simp: agrees_def entry_def st regs_fit_def rest_def unsigned_eq_0_iff)
  qed
qed

lemma guest_regs_all: "0 < r \<Longrightarrow> r < 32 \<Longrightarrow> r \<in> unat ` set guest_regs"
  by (auto simp: guest_regs_def image_iff unat_of_nat take_bit_nat_eq_self intro!: bexI [of _ r])

context assembler
begin

lemma each_dealloc_emits:
  assumes "\<And>r. r \<in> set rs \<Longrightarrow> 0 < r \<and> r < 32"
  shows "emits (tr_inv live k S) (\<lambda>t h. agrees A s t h at st \<and> F (host_flags h)) (each (\<lambda>r. deallocateReg r True) rs)
    (tr_inv live k (S - unat ` set rs)) (\<lambda>_ t h. agrees A s t h at st \<and> F (host_flags h)) E"
  using assms
proof (induction rs arbitrary: S)
  case Nil
  show ?case unfolding each.simps by (rule emits_ret) simp_all
next
  case (Cons r rs)
  have "S - unat ` set (r # rs) = S - {unat r} - unat ` set rs" by auto
  then show ?case
    using emits_bnd [OF deallocateReg_emits Cons.IH] Cons.prems by simp
qed

lemma deallocateAllRegs_emits:
  "emits (tr_inv live k S) (\<lambda>t h. agrees A s t h at st \<and> F (host_flags h)) deallocateAllRegs
    (tr_inv live k {}) (\<lambda>_ t h. agrees A s t h at st \<and> F (host_flags h)) E"
  unfolding deallocateAllRegs_def
proof (rule emits_weaken [OF each_dealloc_emits])
  fix t assume t: "tr_inv live k (S - unat ` set guest_regs) t"
  have "\<not> Op_isReg (reg_mapping t ! r)" if r: "r < 32" for r
    using t that guest_regs_all [of r] by (cases "r = 0") (auto simp: tr_inv_def alloc_within_def alloc_ok_def)
  with t show "tr_inv live k {} t" by (simp add: tr_inv_def alloc_within_def)
qed (use guest_regs_range in auto)

text \<open>Code that a function puts out without changing the allocation.\<close>

lemma emits_put:
  assumes "\<And>t. K t \<Longrightarrow> bound (D t) = {}" "\<And>t. K t \<Longrightarrow> m t = (Inr (), t\<lparr>tr_code := tr_code t @ D t\<rparr>)"
    "\<And>t. K t \<Longrightarrow> K' (t\<lparr>tr_code := tr_code t @ D t\<rparr>)"
    "\<And>t h. K t \<Longrightarrow> P t h \<Longrightarrow> sound (D t) \<Longrightarrow>
      \<exists>h'. straight mem refused (D t) h = Some h' \<and> Q () (t\<lparr>tr_code := tr_code t @ D t\<rparr>) h'"
  shows "emits K P m K' Q E"
proof (rule emits_straight)
  show "returns K m K'" using assms(2,3) by (auto simp: returns_def)
  fix t a t' assume K: "K t" and "m t = (Inr a, t')"
  then have "t' = t\<lparr>tr_code := tr_code t @ D t\<rparr>" using assms(2) by simp
  then show "\<exists>C. tr_code t' = tr_code t @ C \<and> labels t' = labels t \<and> bound C = {} \<and>
      (\<forall>h. P t h \<longrightarrow> sound C \<longrightarrow> (\<exists>h'. straight mem refused C h = Some h' \<and> Q a t' h'))"
    using assms(1,4) [OF K] by (intro exI [of _ "D t"]) simp
qed

text \<open>The jump to the start.\<close>

lemma loop_emits:
  assumes x: "is_branch x" and E: "\<And>h. condition x f \<Longrightarrow> entry s h at st \<Longrightarrow> E h"
  shows "emits (tr_inv live k {}) (\<lambda>t h. agrees UNIV s t h at st \<and> host_flags h = Some f)
    (bnd (emit x [Op_label func_start]) (\<lambda>_. emit Id_Add [Op_pc, Op_imm n]))
    (tr_inv live k {}) (\<lambda>_ t h. \<not> condition x f \<and> agrees UNIV s t h (at + word_of_int n) st) E"
proof -
  have jump: "emits (tr_inv live k {}) (\<lambda>t h. agrees UNIV s t h at st \<and> host_flags h = Some f) (emit x [Op_label func_start])
    (tr_inv live k {}) (\<lambda>_ t h. \<not> condition x f \<and> agrees UNIV s t h at st) E"
    unfolding emits_def
  proof (intro allI impI conjI)
    fix t a t' assume K: "tr_inv live k {} t" and m: "emit x [Op_label func_start] t = (Inr a, t')"
    then have t': "t' = t\<lparr>tr_code := tr_code t @ [Emit x [Op_label func_start]]\<rparr>" by simp
    then show "tr_inv live k {} t'" using K by simp
    let ?C = "[Emit x [Op_label func_start]]"
    have "\<exists>h'. (\<not> condition x f \<and> agrees UNIV s t' h' at st) \<and> falls (labels t) ?C h h' \<or> E h' \<and> restarts (labels t) ?C h h'"
      if h: "agrees UNIV s t h at st \<and> host_flags h = Some f" for h
    proof (cases "condition x f")
      case True
      have "restarts (labels t) ?C h h"
        using True h is_branch_jump [OF x]
        by (auto simp: restarts_def jump_taken_def intro!: reaches_taken)
      moreover have "E h" using E True h agrees_entry [OF K] by blast
      ultimately show ?thesis by blast
    next
      case False
      have "falls (labels t) ?C h h"
        using False h is_branch_jump [OF x]
        by (auto simp: falls_def jump_taken_def intro!: reaches_not_taken)
      with False h t' show ?thesis by auto
    qed
    with t' show "\<exists>C. tr_code t' = tr_code t @ C \<and> labels t \<le> labels t' \<and> bound C \<subseteq> {labels t..<labels t'} \<and>
        (\<forall>h. agrees UNIV s t h at st \<and> host_flags h = Some f \<longrightarrow> sound C \<longrightarrow>
          (\<exists>h'. (\<not> condition x f \<and> agrees UNIV s t' h' at st) \<and> falls (labels t) C h h' \<or>
            E h' \<and> restarts (labels t) C h h'))"
      by (intro exI [of _ ?C]) simp
  qed
  have stay: "emits (tr_inv live k {}) (\<lambda>t h. \<not> condition x f \<and> agrees UNIV s t h at st) (emit Id_Add [Op_pc, Op_imm n])
    (tr_inv live k {}) (\<lambda>_ t h. \<not> condition x f \<and> agrees UNIV s t h (at + word_of_int n) st) E"
  proof (rule emits_put [where D = "\<lambda>_. [Emit Id_Add [Op_pc, Op_imm n]]"])
    fix t h assume t: "tr_inv live k {} t" and h: "\<not> condition x f \<and> agrees UNIV s t h at st"
      and c: "sound [Emit Id_Add [Op_pc, Op_imm n]]"
    have "pc (rest h) = at" using h by (cases st) (simp add: agrees_def)
    with c t h agrees_pc [of s t h at st "at + word_of_int n"]
    show "\<exists>h'. straight mem refused [Emit Id_Add [Op_pc, Op_imm n]] h = Some h' \<and> \<not> condition x f \<and>
        agrees UNIV s (t\<lparr>tr_code := tr_code t @ [Emit Id_Add [Op_pc, Op_imm n]]\<rparr>) h' (at + word_of_int n) st"
      by (auto simp: add_pc tr_inv_def simp del: write32.simps)
  qed simp_all
  show ?thesis by (rule emits_bnd [OF jump stay])
qed

section \<open>A branch\<close>

lemma branch_emits:
  assumes wf: "wf_inst i" and fields: "has_rs1 i" "has_rs2 i" "has_imm i" and x: "is_branch x"
    and st: "st = (xs, m)"
    and taken: "condition x (cmp_flags (xs ! unat (inst_rs1 i)) (xs ! unat (inst_rs2 i))) \<longleftrightarrow> c"
    and E: "\<And>h. c \<Longrightarrow> int k * 4 + sint (inst_imm i) * 2 = 0 \<Longrightarrow> entry s h at st \<Longrightarrow> E h"
  shows "emits (tr_inv live k S) (\<lambda>t h. agrees UNIV s t h at st) (TranslateCondBranch i x) (tr_inv live k S)
    (\<lambda>_ t h. (c \<longrightarrow> int k * 4 + sint (inst_imm i) * 2 \<noteq> 0) \<and>
      agrees UNIV s t h (at + offset_of k + (if c then 2 * inst_imm i else 4)) st) E"
proof -
  let ?off = "int k * 4" and ?K = "tr_inv live k S" and ?P = "\<lambda>t h. agrees UNIV s t h at st"
  let ?k = "?off + sint (inst_imm i) * 2" and ?f = "cmp_flags (xs ! unat (inst_rs1 i)) (xs ! unat (inst_rs2 i))"
  let ?Q = "\<lambda>(_ :: unit) t h. (c \<longrightarrow> ?k \<noteq> 0) \<and> agrees UNIV s t h (at + offset_of k + (if c then 2 * inst_imm i else 4)) st"
  let ?D = "\<lambda>t. compare_code (opnd t (inst_rs1 i)) (opnd t (inst_rs2 i))"
  note eq = TranslateCondBranch_eq [OF wf _ fields, of _ x] and r = wf_regs [OF wf]
  have n: "word_of_int (?off + 4) = offset_of k + 4" "word_of_int ?k = offset_of k + 2 * inst_imm i"
    by (simp_all add: offset_of_def)
  have ok: "?K t \<Longrightarrow> alloc_ok t \<and> cur_inst t = k" for t by (simp add: tr_inv_def)
  show ?thesis
  proof (cases "?k = 0")
    case False
    show ?thesis
      unfolding emits_def
    proof (intro allI impI conjI)
      fix t a t' assume K: "?K t" and m: "TranslateCondBranch i x t = (Inr a, t')"
      let ?C = "?D t @ branch_code x (labels t) (?off + 4) ?k"
      have t': "t' = t\<lparr>tr_code := tr_code t @ ?C, labels := Suc (Suc (labels t))\<rparr>"
        using eq [of t] ok [OF K] False m by (simp add: Let_def)
      then show "?K t'" using K by simp
      have run: "\<exists>h'. ?Q a t' h' \<and> falls (labels t) ?C h h'" if h: "?P t h" and s: "sound ?C" for h
      proof -
        obtain h1 where h1: "straight mem refused (?D t) h = Some h1" "agrees UNIV s t h1 at st" "host_flags h1 = Some ?f"
          using compare_straight [OF conjunct1 [OF ok [OF K]] r(1,2), of s h at xs m] h s st by auto
        let ?h2 = "no_flags (write32 Op_pc (pc (rest h1) + word_of_int (if condition x ?f then ?k else ?off + 4)) h1)"
        have "falls (labels t) ?C h ?h2"
          by (rule falls_append [OF straight_falls [OF h1(1)] branch_falls [OF x h1(3)]]) (use s in simp_all)
        moreover have "pc (rest h1) = at" using h1(2) st by (simp add: agrees_def)
        then have "pc (rest h1) + word_of_int (if condition x ?f then ?k else ?off + 4) =
            at + offset_of k + (if c then 2 * inst_imm i else 4)"
          using taken n by (simp only: if_distrib [of word_of_int] add.assoc split: if_split) blast
        then have "?Q a t' ?h2"
          using agrees_pc [OF h1(2), of "at + offset_of k + (if c then 2 * inst_imm i else 4)"] ok [OF K] t' False
          by (simp only: agrees_code simp_thms)
        ultimately show ?thesis by blast
      qed
      show "\<exists>C. tr_code t' = tr_code t @ C \<and> labels t \<le> labels t' \<and> bound C \<subseteq> {labels t..<labels t'} \<and>
          (\<forall>h. ?P t h \<longrightarrow> sound C \<longrightarrow>
            (\<exists>h'. ?Q a t' h' \<and> falls (labels t) C h h' \<or> E h' \<and> restarts (labels t) C h h'))"
      proof (intro exI [of _ ?C] conjI allI impI)
        show "bound ?C \<subseteq> {labels t..<labels t'}" by (simp add: t' branch_code_def)
        fix h assume "?P t h" "sound ?C"
        from run [OF this] show "\<exists>h'. ?Q a t' h' \<and> falls (labels t) ?C h h' \<or> E h' \<and> restarts (labels t) ?C h h'"
          by blast
      qed (simp_all add: t')
    qed
  next
    case True
    let ?put = "\<lambda>t. (Inr (), t\<lparr>tr_code := tr_code t @ ?D t\<rparr>)"
    let ?P1 = "\<lambda>t h. agrees UNIV s t h at st \<and> host_flags h = Some ?f"
    have 1: "emits ?K ?P ?put ?K (\<lambda>_. ?P1) E"
    proof (rule emits_put [where D = ?D])
      fix t h assume t: "?K t" and "?P t h" "sound (?D t)"
      then show "\<exists>h'. straight mem refused (?D t) h = Some h' \<and> ?P1 (t\<lparr>tr_code := tr_code t @ ?D t\<rparr>) h'"
        using compare_straight [OF conjunct1 [OF ok [OF t]] r(1,2), of s h at xs m] st by auto
    qed simp_all
    have 2: "emits ?K ?P1 deallocateAllRegs (tr_inv live k {}) (\<lambda>_. ?P1) E"
      by (rule deallocateAllRegs_emits [where F = "\<lambda>x. x = Some ?f"])
    have "emits (tr_inv live k {}) ?P1 (bnd (emit x [Op_label func_start]) (\<lambda>_. emit Id_Add [Op_pc, Op_imm (?off + 4)]))
        (tr_inv live k {}) (\<lambda>_ t h. \<not> condition x ?f \<and> agrees UNIV s t h (at + word_of_int (?off + 4)) st) E"
      using E taken True by (intro loop_emits [OF x]) blast
    then have 3: "emits (tr_inv live k {}) ?P1 (bnd (emit x [Op_label func_start]) (\<lambda>_. emit Id_Add [Op_pc, Op_imm (?off + 4)]))
        ?K ?Q E"
      by (rule emits_weaken) (use taken n in \<open>auto simp: add.assoc elim: tr_inv_mono\<close>)
    have "emits ?K ?P (bnd ?put (\<lambda>_. bnd deallocateAllRegs (\<lambda>_. bnd (emit x [Op_label func_start]) (\<lambda>_. emit Id_Add [Op_pc, Op_imm (?off + 4)]))))
        ?K ?Q E"
      by (rule emits_bnd [OF 1 emits_bnd [OF 2 3]])
    moreover have "TranslateCondBranch i x t = bnd ?put (\<lambda>_. bnd deallocateAllRegs (\<lambda>_.
        bnd (emit x [Op_label func_start]) (\<lambda>_. emit Id_Add [Op_pc, Op_imm (?off + 4)]))) t" if "?K t" for t
      using eq [of t] ok [OF that] True by (simp add: Let_def bnd_Inr [of ?put])
    ultimately show ?thesis by (rule emits_cong [rotated])
  qed
qed

end

end
