(* ===== verification/Jit_Trace.thy ===== *)
theory Jit_Trace
  imports Jit_Branches
begin

text \<open>
  The translation of a whole trace refines the instruction set: run from its start, the code
  returns with the state that the trace of the instruction set ends in, or goes back to
  its start with that state, if the last instruction branches there.
\<close>

section \<open>One instruction\<close>

lemma ready_UNIV: "ready UNIV i"
  by (simp add: ready_def)

text \<open>The instruction is a branch to the start of the trace, \<open>k\<close> instructions back.\<close>

definition branches_back :: "Inst \<Rightarrow> nat \<Rightarrow> bool" where
  "branches_back i k \<longleftrightarrow> branch_op (inst_cmd i) \<noteq> None \<and> int k * 4 + sint (inst_imm i) * 2 = 0"

definition branch_jump :: "Cmd \<Rightarrow> X86Id" where
  "branch_jump c =
     (if c = Cmd_BEQ then Id_Je else if c = Cmd_BNE then Id_Jne else if c = Cmd_BLT then Id_Jl
      else if c = Cmd_BGE then Id_Jge else if c = Cmd_BLTU then Id_Jb else Id_Jae)"

lemma branch_translate:
  assumes wf: "wf_inst i" and b: "branch_op (inst_cmd i) = Some p"
  shows "Inst_translate False i = TranslateCondBranch i (branch_jump (inst_cmd i))"
proof -
  obtain g where g: "cd_translate_func (cmd_desc ! unat (Cmd_u8 (inst_cmd i))) = Some g"
      "call_translate g False i = TranslateCondBranch i (branch_jump (inst_cmd i))"
    using b by (cases "inst_cmd i") (simp_all add: branch_op_def cmd_desc_def row_def branch_jump_def
        TranslateBEQ_def TranslateBNE_def TranslateBLT_def TranslateBGE_def TranslateBLTU_def TranslateBGEU_def)
  then show ?thesis by (simp add: Inst_translate_call [OF wf g(1)])
qed

lemma branch_jump_condition:
  "branch_op c = Some p \<Longrightarrow> is_branch (branch_jump c) \<and> (condition (branch_jump c) (cmp_flags a b) \<longleftrightarrow> p a b)"
  by (auto simp: branch_op_def branch_jump_def is_branch_def branch_conditions split: if_splits)

lemma supported_terminators:
  assumes "wf_inst i" "isTranslationSupported i = Inr True" "terminator (inst_cmd i)"
  shows "inst_cmd i = Cmd_JAL \<or> inst_cmd i = Cmd_JALR \<or> branch_op (inst_cmd i) \<noteq> None"
proof -
  obtain g where "cd_translate_func (cmd_desc ! unat (Cmd_u8 (inst_cmd i))) = Some g"
    using supported_func [OF assms(1,2)] .
  with assms(3) wf_inst_cmd [OF assms(1)] show ?thesis
    by (cases "inst_cmd i") (simp_all add: terminator_def branch_op_def cmd_desc_def row_def)
qed

lemma offset_not_0: "k < 2 ^ 30 - 1 \<Longrightarrow> offset_of k + 4 \<noteq> 0"
proof -
  assume "k < 2 ^ 30 - 1"
  then have "unat (of_nat (4 * k + 4) :: u32) = 4 * k + 4" by (simp only: unat_of_nat) (simp add: take_bit_nat_eq_self)
  moreover have "(of_nat (4 * k + 4) :: u32) = offset_of k + 4" by (simp add: offset_of_def)
  ultimately show ?thesis by (metis add_is_0 unsigned_0 zero_neq_numeral)
qed

context assembler
begin

lemma emits_frame: "emits K P m K' Q E \<Longrightarrow> emits K (\<lambda>t h. Y \<and> P t h) m K' (\<lambda>a t h. Y \<and> Q a t h) E"
  unfolding emits_def by (cases Y) (simp, meson)

lemma emits_carries:
  assumes keeps: "returns (tr_inv live k S) m (tr_inv live k S)"
    and m: "\<And>t A. alloc_ok t \<Longrightarrow> cur_inst t = k \<Longrightarrow> ready A i \<Longrightarrow>
      \<exists>C. m t = (Inr (), t\<lparr>tr_code := tr_code t @ C\<rparr>) \<and> carries_out A s t at st C at' st'"
  shows "emits (tr_inv live k S) (\<lambda>t h. \<exists>A. ready A i \<and> agrees A s t h at st) m (tr_inv live k S)
    (\<lambda>_ t h. agrees UNIV s t h at' st') E"
proof (rule emits_straight [OF keeps])
  fix t a t' assume K: "tr_inv live k S t" and mt: "m t = (Inr a, t')"
  then have ok: "alloc_ok t" "cur_inst t = k" by (simp_all add: tr_inv_def)
  obtain C where C: "m t = (Inr (), t\<lparr>tr_code := tr_code t @ C\<rparr>)" "bound C = {}"
    using m [OF ok ready_UNIV] by (auto simp: carries_out_def)
  have t': "t' = t\<lparr>tr_code := tr_code t @ C\<rparr>" using C(1) mt by simp
  have "\<exists>h'. straight mem refused C h = Some h' \<and> agrees UNIV s t' h' at' st'"
    if A: "ready A i" "agrees A s t h at st" and s: "sound C" for h A
  proof -
    obtain C' where C': "m t = (Inr (), t\<lparr>tr_code := tr_code t @ C'\<rparr>)" "carries_out A s t at st C' at' st'"
      using m [OF ok A(1)] by blast
    then have "C' = C" using C(1) by (metis prod.inject same_append_eq Translator.select_convs(1) Translator.surjective Translator.update_convs(1))
    with C'(2) A(2) s t' show ?thesis by (simp add: carries_out_def)
  qed
  with C(2) t' show "\<exists>C. tr_code t' = tr_code t @ C \<and> labels t' = labels t \<and> bound C = {} \<and>
      (\<forall>h. (\<exists>A. ready A i \<and> agrees A s t h at st) \<longrightarrow> sound C \<longrightarrow>
        (\<exists>h'. straight mem refused C h = Some h' \<and> agrees UNIV s t' h' at' st'))"
    by (intro exI [of _ C]) auto
qed

lemma step_emits:
  assumes fit: "translates_well i" and flat: "flat_access i (fst st)"
    and step: "isa_step i (at + offset_of k) (unat (pmem_size s)) st = Some (next_pc, st')"
    and E: "\<And>h. branches_back i k \<Longrightarrow> next_pc = at \<Longrightarrow> entry s h next_pc st' \<Longrightarrow> E h" and small: "k < 2 ^ 30 - 1"
  shows "emits (tr_inv live k S) (\<lambda>t h. \<exists>A. ready A i \<and> agrees A s t h at st) (Inst_translate False i)
    (tr_inv live k S) (\<lambda>_ t h. (branches_back i k \<longrightarrow> next_pc \<noteq> at) \<and>
      agrees UNIV s t h (if terminator (inst_cmd i) then next_pc else at) st') E"
proof -
  obtain xs m xs' m' where st: "st = (xs, m)" "st' = (xs', m')" by (cases st, cases st')
  have wf: "wf_inst i" and sup: "isTranslationSupported i = Inr True" using fit by (simp_all add: translates_well_def)
  note keeps = Inst_translate_keeps [OF wf sup]
  let ?at = "if terminator (inst_cmd i) then next_pc else at"
  consider (plain) "\<not> terminator (inst_cmd i)" | (jump) "inst_cmd i = Cmd_JAL \<or> inst_cmd i = Cmd_JALR"
    | (branch) p where "branch_op (inst_cmd i) = Some p"
    using supported_terminators [OF wf sup] by blast
  then show ?thesis
  proof cases
    case plain
    then have nb: "\<not> branches_back i k"
      by (cases "inst_cmd i") (simp_all add: branches_back_def branch_op_def terminator_def)
    have "emits (tr_inv live k S) (\<lambda>t h. \<exists>A. ready A i \<and> agrees A s t h at st) (Inst_translate False i)
        (tr_inv live k S) (\<lambda>_ t h. agrees UNIV s t h ?at st') E"
      by (rule emits_carries [OF keeps]) (use plain_step [OF fit] flat step plain st in simp)
    then show ?thesis by (rule emits_weaken) (use nb in simp_all)
  next
    case jump
    then have ends: "terminator (inst_cmd i)" and nb: "\<not> branches_back i k"
      by (auto simp: terminator_def branches_back_def branch_op_def)
    have "emits (tr_inv live k S) (\<lambda>t h. \<exists>A. ready A i \<and> agrees A s t h at st) (Inst_translate False i)
        (tr_inv live k S) (\<lambda>_ t h. agrees UNIV s t h ?at st') E"
      by (rule emits_carries [OF keeps]) (use jump_step [OF fit] ends step jump st in simp)
    then show ?thesis by (rule emits_weaken) (use nb in simp_all)
  next
    case (branch p)
    have fm: "cmd_format (inst_cmd i) = Fmt_B" using branch_formats [OF branch] .
    have fields: "has_rs1 i" "has_rs2 i" "has_imm i" "\<not> has_rd i"
      by (simp_all add: has_rs1_def has_rs2_def has_rd_def has_imm_def fm)
    have al: "alu_op (inst_cmd i) = None" and ends: "terminator (inst_cmd i)"
      using branch by (cases "inst_cmd i"; simp add: branch_op_def alu_op_def terminator_def)+
    let ?x = "branch_jump (inst_cmd i)" and ?c = "p (xs ! unat (inst_rs1 i)) (xs ! unat (inst_rs2 i))"
      and ?n = "int k * 4 + sint (inst_imm i) * 2"
    have next_pc: "next_pc = at + offset_of k + (if ?c then 2 * inst_imm i else 4)" and st': "st' = st"
      using step st branch al by (auto simp: isa_step_def Let_def)
    have n: "offset_of k + 2 * inst_imm i = word_of_int ?n" by (simp add: offset_of_def)
    have taken: "E h" if b: "?c" "?n = 0" "entry s h at st" for h
    proof (rule E)
      show "branches_back i k" using b branch by (simp add: branches_back_def)
      show "next_pc = at" using next_pc b(1,2) n by (simp add: add.assoc)
      then show "entry s h next_pc st'" using b(3) st' by simp
    qed
    have "emits (tr_inv live k S) (\<lambda>t h. agrees UNIV s t h at st) (TranslateCondBranch i ?x) (tr_inv live k S)
        (\<lambda>_ t h. (?c \<longrightarrow> ?n \<noteq> 0) \<and> agrees UNIV s t h (at + offset_of k + (if ?c then 2 * inst_imm i else 4)) st) E"
      using branch_jump_condition [OF branch] taken by (intro branch_emits [OF wf fields(1-3) _ st(1)]) blast+
    moreover have "branches_back i k \<longrightarrow> next_pc \<noteq> at" if "?c \<longrightarrow> ?n \<noteq> 0"
    proof
      assume "branches_back i k"
      then have "next_pc = at + (offset_of k + 4)" using next_pc that by (auto simp: branches_back_def)
      then show "next_pc \<noteq> at" using offset_not_0 [OF small] by simp
    qed
    ultimately show ?thesis
      unfolding branch_translate [OF wf branch]
      by (elim emits_weaken) (use ends next_pc st' fields(4) in \<open>auto simp: ready_def\<close>)
  qed
qed

end

section \<open>One instruction with its allocation\<close>

text \<open>If \<open>r\<close> is live, the allocator has settled it.\<close>

definition in_place :: "nat set \<Rightarrow> Reg \<Rightarrow> Translator \<Rightarrow> bool" where
  "in_place L r t \<longleftrightarrow> (r \<noteq> 0 \<and> unat r \<in> L \<longrightarrow> settled r t)"

context assembler
begin

lemma alloc_if_live_settles:
  assumes k: "k < length live" "length (live ! k) = 32" and f: "uses = Inr b" "b \<Longrightarrow> reg = Inr r" and r: "r < 32"
    and t: "tr_inv live k S t" and m: "alloc_if_live uses reg load t = (Inr a, t')"
  shows "b \<Longrightarrow> in_place (live_set live k) r t'"
    and "in_place (live_set live k) q t \<Longrightarrow> q < 32 \<Longrightarrow> in_place (live_set live k) q t'"
proof -
  have ok: "alloc_ok t" using t by (simp add: tr_inv_def)
  have "(b \<longrightarrow> in_place (live_set live k) r t') \<and>
      (in_place (live_set live k) q t \<longrightarrow> q < 32 \<longrightarrow> in_place (live_set live k) q t')"
  proof (cases "b \<and> r \<noteq> 0 \<and> unat r \<in> live_set live k")
    case True
    then have "allocateReg r load t = (Inr a, t')" using alloc_if_live_cases(1) [OF k f r t] m by simp
    with True settles [OF ok r _ this] show ?thesis by (auto simp: in_place_def)
  next
    case False
    then have "alloc_if_live uses reg load t = (Inr (), t)"
      using alloc_if_live_cases(1) [OF k f r t] by (simp only: if_False)
    then have "t' = t" using m by simp
    with False show ?thesis by (auto simp: in_place_def)
  qed
  then show "b \<Longrightarrow> in_place (live_set live k) r t'"
    and "in_place (live_set live k) q t \<Longrightarrow> q < 32 \<Longrightarrow> in_place (live_set live k) q t'" by blast+
qed

lemma alloc_source_emits:
  assumes k: "k < length live" "length (live ! k) = 32" and f: "uses = Inr b" "b \<Longrightarrow> reg = Inr r" and r: "r < 32"
    and X: "\<And>t. X t \<longleftrightarrow> (\<forall>q \<in> Y. q < 32 \<longrightarrow> in_place (live_set live k) q t)"
  shows "emits (\<lambda>t. tr_inv live k S t \<and> X t) (\<lambda>t h. agrees UNIV s t h at st) (alloc_if_live uses reg True)
    (\<lambda>t. tr_inv live k (S \<union> live_set live k) t \<and> X t \<and> (b \<longrightarrow> in_place (live_set live k) r t))
    (\<lambda>_ t h. agrees UNIV s t h at st) E"
proof (rule emits_weaken [OF emits_conj [OF alloc_emits [OF k f r], where X = X and
      X' = "\<lambda>t. X t \<and> (b \<longrightarrow> in_place (live_set live k) r t)"]])
  fix t a t' assume t: "tr_inv live k S t" "X t" and m: "alloc_if_live uses reg True t = (Inr a, t')"
  note s = alloc_if_live_settles [OF k f r t(1) m]
  show "X t' \<and> (b \<longrightarrow> in_place (live_set live k) r t')"
    using t(2) s unfolding X by blast
qed simp_all

lemma alloc_target_emits:
  assumes k: "k < length live" "length (live ! k) = 32" and wf: "wf_inst i"
  shows "emits (\<lambda>t. tr_inv live k S t \<and> (has_rs1 i \<longrightarrow> in_place (live_set live k) (inst_rs1 i) t) \<and>
      (has_rs2 i \<longrightarrow> in_place (live_set live k) (inst_rs2 i) t))
    (\<lambda>t h. agrees UNIV s t h at st) (alloc_if_live (isRd i) (getRd i) False)
    (tr_inv live k (S \<union> live_set live k)) (\<lambda>_ t h. \<exists>A. ready A i \<and> agrees A s t h at st) E"
    (is "emits ?K ?P ?m ?K' ?Q E")
proof -
  let ?L = "live_set live k" and ?r = "inst_rd i"
  note f = field_eqs [OF wf] and r = wf_regs(3) [OF wf]
  have eq: "?m t = (if has_rd i \<and> ?r \<noteq> 0 \<and> unat ?r \<in> ?L then allocateReg ?r False t else (Inr (), t))"
    if "?K t" for t
    by (rule alloc_if_live_cases(1) [OF k f(3) f(6) r conjunct1 [OF that]])
  have stays: "emits ?K ?P (ret ()) ?K' ?Q E"
    by (rule emits_ret) (use ready_UNIV in \<open>auto elim: tr_inv_mono\<close>)
  consider (nothing) "\<not> (has_rd i \<and> ?r \<noteq> 0 \<and> unat ?r \<in> ?L)"
    | (source) "has_rd i" "?r \<noteq> 0" "unat ?r \<in> ?L" "has_rs1 i \<and> ?r = inst_rs1 i \<or> has_rs2 i \<and> ?r = inst_rs2 i"
    | (fresh) "has_rd i" "?r \<noteq> 0" "unat ?r \<in> ?L" "has_rs1 i \<longrightarrow> ?r \<noteq> inst_rs1 i" "has_rs2 i \<longrightarrow> ?r \<noteq> inst_rs2 i"
    by blast
  then show ?thesis
  proof cases
    case nothing
    then have "?m t = ret () t" if "?K t" for t using eq [OF that] by auto
    then show ?thesis using stays by (rule emits_cong)
  next
    case source
    have "?m t = ret () t" if K: "?K t" for t
    proof -
      have "settled ?r t" using source K by (auto simp: in_place_def)
      with K source show ?thesis
        using eq [OF K] settled_stays [of t ?r False] r by (auto simp: tr_inv_def)
    qed
    then show ?thesis using stays by (rule emits_cong)
  next
    case fresh
    then have "0 < ?r" by (simp add: word_neq_0_conv)
    have "ready (UNIV - {?r}) i" using fresh by (auto simp: ready_def)
    have "emits ?K ?P (allocateReg ?r False) ?K' ?Q E"
      by (rule emits_weaken [OF allocateReg_emits [OF \<open>0 < ?r\<close> r]])
        (use fresh \<open>ready _ i\<close> in \<open>auto elim: tr_inv_mono\<close>)
    moreover have "?m t = allocateReg ?r False t" if "?K t" for t using eq [OF that] fresh by simp
    ultimately show ?thesis by (rule emits_cong [rotated])
  qed
qed

lemma translate_one_emits:
  assumes fit: "translates_well i" and flat: "flat_access i (fst st)"
    and k: "k < length live" "length (live ! k) = 32" "\<forall>r < 32. live ! k ! r \<longleftrightarrow> live_in is r"
    and step: "isa_step i (at + offset_of k) (unat (pmem_size s)) st = Some (next_pc, st')"
    and E: "\<And>h. branches_back i k \<Longrightarrow> next_pc = at \<Longrightarrow> entry s h next_pc st' \<Longrightarrow> E h" and small: "k < 2 ^ 30 - 1"
  shows "emits (tr_inv live k {r. live_in (i # is) r}) (\<lambda>t h. agrees UNIV s t h at st)
    (translate_one (Inst_translate False) i) (tr_inv live k {r. live_in is r})
    (\<lambda>_ t h. (branches_back i k \<longrightarrow> next_pc \<noteq> at) \<and>
      agrees UNIV s t h (if terminator (inst_cmd i) then next_pc else at) st') E"
proof -
  have wf: "wf_inst i" using fit by (simp add: translates_well_def)
  note f = field_eqs [OF wf] and r = wf_regs [OF wf]
  let ?S0 = "{r. live_in (i # is) r}" and ?L = "live_set live k"
  let ?D = "\<lambda>h x. if h \<and> unat x \<notin> ?L then {unat x} else {}"
  let ?S1 = "?S0 \<union> ?L \<union> ?L \<union> ?L" and ?at = "if terminator (inst_cmd i) then next_pc else at"
  let ?x1 = "\<lambda>t. has_rs1 i \<longrightarrow> in_place ?L (inst_rs1 i) t" and ?x2 = "\<lambda>t. has_rs2 i \<longrightarrow> in_place ?L (inst_rs2 i) t"
  have L: "?L = {r. r < 32 \<and> live_in is r}" using k(3) by (auto simp: live_set_def)
  have a1: "emits (tr_inv live k ?S0) (\<lambda>t h. agrees UNIV s t h at st) (alloc_if_live (isRs1 i) (getRs1 i) True)
      (\<lambda>t. tr_inv live k (?S0 \<union> ?L) t \<and> ?x1 t) (\<lambda>_ t h. agrees UNIV s t h at st) E"
    by (rule emits_weaken [OF alloc_source_emits [OF k(1,2) f(1) f(4) r(1), where X = "\<lambda>_. True" and Y = "{}"]]) simp_all
  have a2: "emits (\<lambda>t. tr_inv live k (?S0 \<union> ?L) t \<and> ?x1 t) (\<lambda>t h. agrees UNIV s t h at st)
      (alloc_if_live (isRs2 i) (getRs2 i) True)
      (\<lambda>t. tr_inv live k (?S0 \<union> ?L \<union> ?L) t \<and> ?x1 t \<and> ?x2 t) (\<lambda>_ t h. agrees UNIV s t h at st) E"
    by (rule alloc_source_emits [OF k(1,2) f(2) f(5) r(2), where Y = "if has_rs1 i then {inst_rs1 i} else {}"])
      (use r in \<open>auto split: if_splits\<close>)
  note a3 = alloc_target_emits [OF k(1,2) wf]
  note st = step_emits [OF fit flat step E small, where live = live]
  have de: "emits (tr_inv live k S) (\<lambda>t h. Y \<and> agrees UNIV s t h ?at st') (dealloc_if_dead uses reg)
      (tr_inv live k (S - ?D b r)) (\<lambda>_ t h. Y \<and> agrees UNIV s t h ?at st') E"
    if "uses = Inr b" "b \<Longrightarrow> reg = Inr r" "r < 32" for uses reg b r S Y
    by (rule emits_frame [OF dealloc_emits [OF k(1,2) that]])
  have all: "emits (tr_inv live k ?S0) (\<lambda>t h. agrees UNIV s t h at st) (translate_one (Inst_translate False) i)
      (tr_inv live k (?S1 - ?D (has_rs1 i) (inst_rs1 i) - ?D (has_rs2 i) (inst_rs2 i) - ?D (has_rd i) (inst_rd i)))
      (\<lambda>_ t h. (branches_back i k \<longrightarrow> next_pc \<noteq> at) \<and> agrees UNIV s t h ?at st') E"
    unfolding translate_one_def
    by (rule emits_bnd [OF a1 emits_bnd [OF a2 emits_bnd [OF a3 emits_bnd [OF st
        emits_bnd [OF de [OF f(1) f(4) r(1)] emits_bnd [OF de [OF f(2) f(5) r(2)] de [OF f(3) f(6) r(3)]]]]]]])
  have sub: "?S1 - ?D (has_rs1 i) (inst_rs1 i) - ?D (has_rs2 i) (inst_rs2 i)
      - ?D (has_rd i) (inst_rd i) \<subseteq> {r. live_in is r}"
    using unat_reg_less [OF r(1)] unat_reg_less [OF r(2)] unat_reg_less [OF r(3)]
    by (auto simp: L reads_reg_def writes_reg_def split: if_splits)
  show ?thesis by (rule emits_weaken [OF all]) (assumption | erule tr_inv_mono [OF _ sub])+
qed

end

end
