(* ===== verification/Jit_Runs.thy ===== *)
theory Jit_Runs
  imports Jit_Trace
begin

text \<open>
  The code of a whole trace. \<open>isa_runs\<close> is what it is to do: the trace of the instruction set, again
  and again while its last instruction branches to its start.
\<close>

section \<open>The reference\<close>

fun flat_trace :: "Inst list \<Rightarrow> u32 \<Rightarrow> nat \<Rightarrow> u32 list \<times> (nat \<Rightarrow> u8) \<Rightarrow> bool" where
  "flat_trace [] at mem_size st \<longleftrightarrow> True"
| "flat_trace (i # is) at mem_size st \<longleftrightarrow> flat_access i (fst st) \<and>
     (case isa_step i at mem_size st of None \<Rightarrow> True | Some (next, st') \<Rightarrow> flat_trace is next mem_size st')"

definition loops_back :: "Inst list \<Rightarrow> bool" where
  "loops_back is \<longleftrightarrow> branches_back (last is) (length is - 1)"

text \<open>
  At most \<open>n\<close> runs of the trace at address \<open>at\<close>: their number, and what the last one ends with; \<open>None\<close> if
  the trace goes on, or accesses bytes outside the memory, or an address leaves the range of 32 bits.
\<close>

fun isa_runs ::
  "nat \<Rightarrow> Inst list \<Rightarrow> u32 \<Rightarrow> nat \<Rightarrow> u32 list \<times> (nat \<Rightarrow> u8) \<Rightarrow> (nat \<times> u32 \<times> u32 list \<times> (nat \<Rightarrow> u8)) option"
where
  "isa_runs 0 is at mem_size st = None"
| "isa_runs (Suc n) is at mem_size st =
     (if \<not> flat_trace is at mem_size st then None
      else case isa_trace is at mem_size st of
        None \<Rightarrow> None
      | Some (next, st') \<Rightarrow>
          if loops_back is \<and> next = at
          then map_option (\<lambda>(c, r). (Suc c, r)) (isa_runs n is at mem_size st')
          else Some (1, next, st'))"

text \<open>The trace branches to its start at least \<open>n\<close> times.\<close>

fun spins :: "nat \<Rightarrow> Inst list \<Rightarrow> u32 \<Rightarrow> nat \<Rightarrow> u32 list \<times> (nat \<Rightarrow> u8) \<Rightarrow> bool" where
  "spins 0 is at mem_size st \<longleftrightarrow> True"
| "spins (Suc n) is at mem_size st \<longleftrightarrow> flat_trace is at mem_size st \<and>
     (case isa_trace is at mem_size st of None \<Rightarrow> False | Some (next, st') \<Rightarrow> next = at \<and> spins n is at mem_size st')"

text \<open>The counter of executed instructions.\<close>

definition counted :: "nat \<Rightarrow> State \<Rightarrow> State" where
  "counted n s = s\<lparr>executed_insts := executed_insts s + of_nat n\<rparr>"

lemma counted_simps: "pmem_size (counted n s) = pmem_size s" "counted n (counted m s) = counted (m + n) s"
  by (simp_all add: counted_def add.assoc)

text \<open>A step of a run either ends it or goes on, whatever the fuel.\<close>

lemma x86_step:
  "(\<exists>r. \<forall>n. x86_run mem refused (Suc n) code cs h = r) \<or>
    (\<exists>cs' h'. \<forall>n. x86_run mem refused (Suc n) code cs h = x86_run mem refused n code cs' h')"
proof (cases cs)
  case (Cons c cs')
  show ?thesis
  proof (cases c)
    case (Emit x ops)
    show ?thesis
    proof (cases "\<exists>l. ops = [Op_label l]")
      case True
      then obtain l where "ops = [Op_label l]" by blast
      then show ?thesis
        using Cons Emit by (cases "jump_taken x h"; cases "after_label l code"; cases "the (jump_taken x h)") auto
    next
      case False
      then have "x86_run mem refused (Suc n) code (Emit x ops # cs') h = (if x = Id_Ret then Some h
          else case asm_exec mem refused x ops h of None \<Rightarrow> None | Some h' \<Rightarrow> x86_run mem refused n code cs' h')" for n
        by (auto split: list.split Operand.split)
      then show ?thesis using Cons Emit by (cases "asm_exec mem refused x ops h"; cases "x = Id_Ret") (simp_all, blast)
    qed
  qed (use Cons in auto)
qed simp

lemma x86_run_more: "x86_run mem refused n code cs h = Some r \<Longrightarrow> x86_run mem refused (n + k) code cs h = Some r"
proof (induction n arbitrary: cs h)
  case (Suc n)
  then show ?case using x86_step [of mem refused code cs h] by (metis add_Suc)
qed simp

section \<open>The loop over the instructions\<close>

context assembler
begin

lemma next_inst_emits:
  "emits (tr_inv live k S) (\<lambda>t h. agrees A s t h at st) (modify (\<lambda>t. t\<lparr>cur_inst := Suc (cur_inst t)\<rparr>))
    (tr_inv live (Suc k) S) (\<lambda>_ t h. agrees A s t h at st) E"
  by (rule emits_straight [OF next_inst_returns]) (auto intro!: exI [of _ "[]"])

lemma plain_step_next:
  assumes "isa_step i at ms st = Some (next_pc, st')" "\<not> terminator (inst_cmd i)"
  shows "next_pc = at + 4"
  using assms by (cases "inst_cmd i")
    (auto simp: isa_step_def Let_def terminator_def branch_op_def alu_op_def load_op_def store_op_def
      split: prod.splits if_splits)

lemma translate_loop_emits:
  assumes "\<And>i. i \<in> set is \<Longrightarrow> translates_well i" "trace_shape is" "k + length is \<le> length live" "k + length is < 2 ^ 30"
    and "\<And>j. j < length is \<Longrightarrow> length (live ! (k + j)) = 32 \<and>
      (\<forall>r < 32. live ! (k + j) ! r \<longleftrightarrow> live_in (drop (Suc j) is) r)"
    and "isa_trace is (at + offset_of k) (unat (pmem_size s)) st = Some (next_pc, st')"
    and "flat_trace is (at + offset_of k) (unat (pmem_size s)) st"
    and "\<And>h. branches_back (last is) (k + length is - 1) \<Longrightarrow> next_pc = at \<Longrightarrow> entry s h next_pc st' \<Longrightarrow> E h"
  shows "emits (tr_inv live k {r. live_in is r}) (\<lambda>t h. agrees UNIV s t h at st)
    (translate_loop (Inst_translate False) is) (tr_inv live (k + length is) {})
    (\<lambda>_ t h. (branches_back (last is) (k + length is - 1) \<longrightarrow> next_pc \<noteq> at) \<and> agrees UNIV s t h next_pc st') E"
  using assms
proof (induction "is" arbitrary: k st)
  case Nil
  then show ?case by simp
next
  case (Cons i "is")
  let ?ms = "unat (pmem_size s)" and ?one = "translate_one (Inst_translate False) i"
  let ?inc = "modify (\<lambda>t. t\<lparr>cur_inst := Suc (cur_inst t)\<rparr>)"
  have fit: "translates_well i" and small: "k < 2 ^ 30 - 1" using Cons.prems(1,4) by auto
  have r: "k < length live" "length (live ! k) = 32" "\<forall>r < 32. live ! k ! r \<longleftrightarrow> live_in is r"
    using Cons.prems(3) Cons.prems(5) [of 0] by auto
  obtain nx st1 where step: "isa_step i (at + offset_of k) ?ms st = Some (nx, st1)"
    using Cons.prems(6) by (auto split: option.splits)
  have flat: "flat_access i (fst st)" using Cons.prems(7) by simp
  note one = translate_one_emits [OF fit flat r step _ small]
  have loop: "translate_loop (Inst_translate False) (i # is) =
      bnd (bnd ?one (\<lambda>_. ?inc)) (\<lambda>_. translate_loop (Inst_translate False) is)"
    by (simp add: translate_loop_def)
  show ?case
  proof (cases "terminator (inst_cmd i)")
    case True
    then have nil: "is = []" using Cons.prems(2) by (simp add: trace_shape_Cons)
    have eq: "nx = next_pc" "st1 = st'" using Cons.prems(6) step True by simp_all
    have "emits (tr_inv live k {r. live_in (i # is) r}) (\<lambda>t h. agrees UNIV s t h at st) ?one
        (tr_inv live k {r. live_in is r})
        (\<lambda>_ t h. (branches_back i k \<longrightarrow> next_pc \<noteq> at) \<and> agrees UNIV s t h next_pc st') E"
      using one [where E = E] Cons.prems(8) True nil eq by simp
    note 1 = emits_bnd [OF this emits_frame [OF next_inst_emits]]
    have "emits (tr_inv live (Suc k) {r. live_in is r})
        (\<lambda>t h. (branches_back i k \<longrightarrow> next_pc \<noteq> at) \<and> agrees UNIV s t h next_pc st')
        (translate_loop (Inst_translate False) is) (tr_inv live (Suc k + length is) {})
        (\<lambda>_ t h. (branches_back i k \<longrightarrow> next_pc \<noteq> at) \<and> agrees UNIV s t h next_pc st') E"
      unfolding nil translate_loop_def each.simps by (rule emits_ret) simp_all
    from emits_bnd [OF 1 this] show ?thesis unfolding loop by (simp add: nil)
  next
    case False
    have nx: "nx = at + offset_of (Suc k)"
      using plain_step_next [OF step False] by (simp add: offset_of_def)
    have shape: "trace_shape is" using Cons.prems(2) False by (simp add: trace_shape_Cons)
    then have ne: "is \<noteq> []" by (simp add: trace_shape_def)
    have nb: "\<not> branches_back i k"
      using False by (cases "inst_cmd i") (simp_all add: branches_back_def branch_op_def terminator_def)
    have 1: "emits (tr_inv live k {r. live_in (i # is) r}) (\<lambda>t h. agrees UNIV s t h at st) ?one
        (tr_inv live k {r. live_in is r}) (\<lambda>_ t h. agrees UNIV s t h at st1) E"
      using one [where E = E] False nb by simp
    have 2: "emits (tr_inv live (Suc k) {r. live_in is r}) (\<lambda>t h. agrees UNIV s t h at st1)
        (translate_loop (Inst_translate False) is) (tr_inv live (Suc k + length is) {})
        (\<lambda>_ t h. (branches_back (last is) (Suc k + length is - 1) \<longrightarrow> next_pc \<noteq> at) \<and> agrees UNIV s t h next_pc st') E"
    proof (rule Cons.IH [OF _ shape])
      show "isa_trace is (at + offset_of (Suc k)) ?ms st1 = Some (next_pc, st')"
        "flat_trace is (at + offset_of (Suc k)) ?ms st1"
        using Cons.prems(6,7) step False nx by simp_all
      show "length (live ! (Suc k + j)) = 32 \<and> (\<forall>r < 32. live ! (Suc k + j) ! r \<longleftrightarrow> live_in (drop (Suc j) is) r)"
        if "j < length is" for j using Cons.prems(5) [of "Suc j"] that by simp
    qed (use Cons.prems ne in auto)
    from emits_bnd [OF emits_bnd [OF 1 next_inst_emits] 2] ne show ?thesis by (simp add: loop)
  qed
qed

text \<open>One run of the code behind its counter.\<close>

lemma trace_code:
  assumes fits: "\<And>i. i \<in> set is \<Longrightarrow> translates_well i" and shape: "trace_shape is" and len: "length is < 2 ^ 30"
    and code: "Translator_getFunc (Inst_translate False) assembles is = Inr (Some code)" "sound code"
    and trace: "isa_trace is at (unat (pmem_size s)) st = Some (next_pc, st')" "flat_trace is at (unat (pmem_size s)) st"
  shows "\<exists>C. code = Bind func_start # Emit Id_Add [Op_insts, Op_imm (int (length is))] # C @ [Emit Id_Ret []] \<and>
    (\<forall>h. entry s h at st \<longrightarrow> (\<exists>h'. entry s h' next_pc st' \<and>
      (if loops_back is \<and> next_pc = at then restarts 1 C h h' else falls 1 C h h')))"
proof -
  have wf: "\<And>i. i \<in> set is \<Longrightarrow> wf_inst i" and sup: "\<And>i. i \<in> set is \<Longrightarrow> isTranslationSupported i = Inr True"
    using fits by (simp_all add: translates_well_def)
  obtain live where live: "calcLiveness is = Inr live" "length live = length is"
    "\<And>k. k < length is \<Longrightarrow> length (live ! k) = 32 \<and> (\<forall>r < 32. live ! k ! r \<longleftrightarrow> live_in (drop (Suc k) is) r)"
    using calcLiveness_eq [OF wf] by blast
  obtain b where "all_supported is = Inr b" "b \<longleftrightarrow> (\<forall>i \<in> set is. isTranslationSupported i = Inr True)"
    using all_supported_eq [OF wf] by blast
  then have sup': "all_supported is = Inr True" using sup by simp
  let ?t1 = "(init_translator live)\<lparr>labels := 1,
      tr_code := [Bind 0, Emit Id_Add [Op_insts, Op_imm (int (length is))]]\<rparr>"
  have K0: "tr_inv live 0 {} ?t1" using init_translator_ok by simp
  then have K1: "tr_inv live 0 {r. live_in is r} ?t1" by (rule tr_inv_mono) simp
  have "emits (tr_inv live 0 {r. live_in is r}) (\<lambda>t h. agrees UNIV s t h at st)
      (translate_loop (Inst_translate False) is) (tr_inv live (0 + length is) {})
      (\<lambda>_ t h. (branches_back (last is) (0 + length is - 1) \<longrightarrow> next_pc \<noteq> at) \<and> agrees UNIV s t h next_pc st')
      (\<lambda>h. loops_back is \<and> next_pc = at \<and> entry s h next_pc st')" (is "emits _ ?P ?m ?K2 ?Q ?E")
    using trace len live(2,3)
    by (intro translate_loop_emits [OF fits shape]) (simp_all add: offset_of_def loops_back_def)
  moreover obtain a t2 where t2: "?m ?t1 = (Inr a, t2)" "code = tr_code t2 @ [Emit Id_Ret []]"
  proof -
    have eq: "translate_trace (Inst_translate False) is (init_translator live) = bnd ?m (\<lambda>_. emit Id_Ret []) ?t1"
      by (simp add: translate_trace_def newLabel_def bind_label_def emit_def modify_def bnd_def init_translator_def)
    have "returns (tr_inv live 0 {r. live_in is r}) ?m (tr_inv live (length is) {})"
      using translate_loop_returns [of "is" 0 live "[]" False] wf sup live by simp
    from returnsD [OF this K1] obtain a t2 where "?m ?t1 = (Inr a, t2)" by blast
    with eq code live(1) sup' that show thesis
      by (simp add: Translator_getFunc_def bnd_Inr split: if_splits)
  qed
  ultimately obtain C where K2: "?K2 t2" and C: "tr_code t2 = tr_code ?t1 @ C"
    "\<And>h. ?P ?t1 h \<Longrightarrow> sound C \<Longrightarrow> \<exists>h'. ?Q a t2 h' \<and> falls (labels ?t1) C h h' \<or> ?E h' \<and> restarts (labels ?t1) C h h'"
    using K1 unfolding emits_def by blast
  have c: "code = Bind func_start # Emit Id_Add [Op_insts, Op_imm (int (length is))] # C @ [Emit Id_Ret []]"
    using t2(2) C(1) by (simp add: func_start_def)
  have "\<exists>h'. entry s h' next_pc st' \<and> (if loops_back is \<and> next_pc = at then restarts 1 C h h' else falls 1 C h h')"
    if h: "entry s h at st" for h
  proof -
    have "?P ?t1 h" using agrees_entry [OF K0] h by blast
    then obtain h' where "?Q a t2 h' \<and> falls 1 C h h' \<or> ?E h' \<and> restarts 1 C h h'"
      using C(2) code(2) c by auto
    then show ?thesis using agrees_entry [OF K2] by (auto simp: loops_back_def)
  qed
  with c show ?thesis by blast
qed

lemma count_step:
  assumes "sound_asm (Emit Id_Add [Op_insts, Op_imm (int n)])" and h: "entry s h at st"
  shows "\<exists>h'. asm_exec mem refused Id_Add [Op_insts, Op_imm (int n)] h = Some h' \<and> entry (counted n s) h' at st"
proof -
  let ?h = "no_flags (h\<lparr>host_vm := (host_vm h)\<lparr>executed_insts := executed_insts (host_vm h) + of_nat n\<rparr>\<rparr>)"
  have "encodable Id_Add [Op_insts, Op_imm (int n)]"
    using assms(1) by (simp add: sound_asm.simps dropped_def)
  then have "asm_exec mem refused Id_Add [Op_insts, Op_imm (int n)] h = Some ?h" by (simp add: x86_add_def)
  moreover have "entry (counted n s) ?h at st"
    using h by (cases st) (simp add: entry_def counted_def no_flags_def)
  ultimately show ?thesis by blast
qed

text \<open>The counter and one run of the trace.\<close>

lemma code_round:
  assumes fits: "\<And>i. i \<in> set is \<Longrightarrow> translates_well i" and shape: "trace_shape is" and len: "length is < 2 ^ 30"
    and code: "Translator_getFunc (Inst_translate False) assembles is = Inr (Some code)" "sound code"
    and trace: "isa_trace is at (unat (pmem_size s)) st = Some (nx, st1)" "flat_trace is at (unat (pmem_size s)) st"
    and h: "entry s h at st"
  shows "\<exists>C h1 h2. code = Bind func_start # Emit Id_Add [Op_insts, Op_imm (int (length is))] # C \<and>
    (\<forall>n. x86_run mem refused (Suc n) code (tl code) h = x86_run mem refused n code C h1) \<and>
    entry (counted (length is) s) h2 nx st1 \<and>
    reaches mem refused code C h1 (if loops_back is \<and> nx = at then tl code else [Emit Id_Ret []]) h2"
proof -
  let ?ms = "unat (pmem_size s)" and ?add = "Emit Id_Add [Op_insts, Op_imm (int (length is))]"
  let ?s = "counted (length is) s"
  have ms: "unat (pmem_size ?s) = ?ms" by (simp add: counted_simps)
  obtain C where C: "code = Bind func_start # ?add # C @ [Emit Id_Ret []]" and
    run: "\<And>h. entry ?s h at st \<Longrightarrow> \<exists>h'. entry ?s h' nx st1 \<and>
      (if loops_back is \<and> nx = at then restarts 1 C h h' else falls 1 C h h')"
    using trace_code [OF fits shape len code, of at ?s st nx st1] trace unfolding ms by blast
  have "sound_asm ?add" using code(2) C by simp
  from count_step [OF this h] obtain h1 where
    h1: "asm_exec mem refused Id_Add [Op_insts, Op_imm (int (length is))] h = Some h1" "entry ?s h1 at st" by blast
  obtain h2 where h2: "entry ?s h2 nx st1" "if loops_back is \<and> nx = at then restarts 1 C h1 h2 else falls 1 C h1 h2"
    using run [OF h1(2)] by blast
  have pre: "code = [Bind func_start, ?add] @ C @ [Emit Id_Ret []]" "bound [Bind func_start, ?add] \<subseteq> {..<1}"
    using C by (simp_all add: func_start_def)
  have "x86_run mem refused (Suc n) code (tl code) h = x86_run mem refused n code (C @ [Emit Id_Ret []]) h1" for n
    using run_plain [OF _ h1(1), of n code "C @ [Emit Id_Ret []]"] C by (simp add: plain_def)
  moreover have "reaches mem refused code (C @ [Emit Id_Ret []]) h1
      (if loops_back is \<and> nx = at then tl code else [Emit Id_Ret []]) h2"
  proof (cases "loops_back is \<and> nx = at")
    case True
    have "after_label func_start code = Some (tl code)" using C by simp
    then have "reaches mem refused code (C @ [Emit Id_Ret []]) h1 (tl code) h2"
      using h2(2) True pre unfolding restarts_def by (metis (no_types, lifting))
    with True show ?thesis by simp
  next
    case False
    then have "falls 1 C h1 h2" using h2(2) by (simp only: if_False)
    then have "reaches mem refused code (C @ [Emit Id_Ret []]) h1 [Emit Id_Ret []] h2"
      using pre unfolding falls_def by (metis (no_types, lifting))
    with False show ?thesis by (simp only: if_False)
  qed
  ultimately show ?thesis using C h2(1) by (intro exI [of _ "C @ [Emit Id_Ret []]"] exI [of _ h1] exI [of _ h2]) simp
qed

lemma code_runs:
  assumes fits: "\<And>i. i \<in> set is \<Longrightarrow> translates_well i" and shape: "trace_shape is" and len: "length is < 2 ^ 30"
    and code: "Translator_getFunc (Inst_translate False) assembles is = Inr (Some code)" "sound code"
  shows "isa_runs n is at (unat (pmem_size s)) st = Some (c, next_pc, st') \<Longrightarrow> entry s h at st \<Longrightarrow>
    \<exists>h'. entry (counted (c * length is) s) h' next_pc st' \<and> code = Bind func_start # tl code \<and>
      reaches mem refused code (tl code) h [Emit Id_Ret []] h'"
proof (induction n arbitrary: s st h c)
  case 0
  then show ?case by simp
next
  case (Suc n)
  let ?ms = "unat (pmem_size s)" and ?s = "counted (length is) s"
  from Suc.prems(1) obtain nx st1 where trace: "isa_trace is at ?ms st = Some (nx, st1)" "flat_trace is at ?ms st"
    by (auto split: if_splits option.splits)
  obtain C h1 h2 where code: "code = Bind func_start # tl code"
    and first: "\<And>n. x86_run mem refused (Suc n) code (tl code) h = x86_run mem refused n code C h1"
    and h2: "entry ?s h2 nx st1"
    and rest: "reaches mem refused code C h1 (if loops_back is \<and> nx = at then tl code else [Emit Id_Ret []]) h2"
    using code_round [OF fits shape len code trace Suc.prems(2)] by (metis list.sel(3))
  have all: "reaches mem refused code (tl code) h (if loops_back is \<and> nx = at then tl code else [Emit Id_Ret []]) h2"
    by (rule reaches_trans [OF reaches_step rest]) (rule first)
  show ?case
  proof (cases "loops_back is \<and> nx = at")
    case True
    obtain c' where c': "c = Suc c'" "isa_runs n is at ?ms st1 = Some (c', next_pc, st')"
      using Suc.prems(1) trace True by (auto split: if_splits)
    obtain h3 where h3: "entry (counted (c' * length is) ?s) h3 next_pc st'"
        "reaches mem refused code (tl code) h2 [Emit Id_Ret []] h3"
      using Suc.IH [of ?s st1 c' h2] c'(2) h2 True by (auto simp: counted_simps)
    have "reaches mem refused code (tl code) h [Emit Id_Ret []] h3"
      using all reaches_trans [OF _ h3(2)] True by simp
    with h3(1) c'(1) code show ?thesis by (auto simp: counted_simps)
  next
    case False
    then have "c = 1" "next_pc = nx" "st' = st1" using Suc.prems(1) trace by (auto split: if_splits)
    with all h2 False code show ?thesis by (auto simp del: de_Morgan_conj)
  qed
qed

lemma code_spins:
  assumes fits: "\<And>i. i \<in> set is \<Longrightarrow> translates_well i" and shape: "trace_shape is" and len: "length is < 2 ^ 30"
    and code: "Translator_getFunc (Inst_translate False) assembles is = Inr (Some code)" "sound code"
    and loops: "loops_back is" and spins: "\<And>n. spins n is at (unat (pmem_size s)) st" and h: "entry s h at st"
  shows "code = Bind func_start # tl code \<and> x86_run mem refused k code (tl code) h = None"
  using spins h
proof (induction k arbitrary: s st h rule: less_induct)
  case (less k)
  let ?ms = "unat (pmem_size s)"
  obtain st1 where trace: "isa_trace is at ?ms st = Some (at, st1)" "flat_trace is at ?ms st"
    using less.prems(1) [of 1] by (auto split: option.splits)
  have spins1: "spins n is at ?ms st1" for n using less.prems(1) [of "Suc n"] trace by simp
  obtain C h1 h2 where code: "code = Bind func_start # tl code"
    and first: "\<And>n. x86_run mem refused (Suc n) code (tl code) h = x86_run mem refused n code C h1"
    and h2: "entry (counted (length is) s) h2 at st1" and rest: "reaches mem refused code C h1 (tl code) h2"
    using code_round [OF fits shape len code trace less.prems(2)] loops by (metis (full_types) list.sel(3))
  obtain j where j: "\<And>n. x86_run mem refused (n + j) code C h1 = x86_run mem refused n code (tl code) h2"
    using rest unfolding reaches_def by blast
  have "x86_run mem refused k code (tl code) h = None"
  proof (cases k)
    case (Suc k')
    show ?thesis
    proof (cases "j \<le> k'")
      case True
      have "x86_run mem refused (k' - j) code (tl code) h2 = None"
        using less.IH [of "k' - j" "counted (length is) s" st1 h2] spins1 h2 Suc by (simp add: counted_simps)
      with True Suc first j [of "k' - j"] show ?thesis by simp
    next
      case False
      have "x86_run mem refused j code C h1 = None" using j [of 0] by simp
      then have "x86_run mem refused k' code C h1 = None"
        using x86_run_more [of mem refused k' code C h1 _ "j - k'"] False
        by (cases "x86_run mem refused k' code C h1") auto
      with Suc first show ?thesis by simp
    qed
  qed simp
  with code show ?case by blast
qed

end

end
