(* ===== verification/Native_Code.thy ===== *)
theory Native_Code
  imports Jit_Runs Exec_Safe
begin

text \<open>
  The translated code computes what the instruction set asks for, and so what the interpreter
  computes; and the cases in which it does not.
\<close>

section \<open>The translator is correct\<close>

lemma native_code_runs:
  assumes fits: "\<And>i. i \<in> set is \<Longrightarrow> translates_well i" and shape: "trace_shape is" "length is < 2 ^ 30"
    and code: "Translator_getFunc (Inst_translate False) assembles is = Inr (Some code)" "sound code"
    and refusals: "\<And>x ops h. \<not> encodable x ops \<Longrightarrow> refused x ops h = Some h"
    and start: "host_vm h = s" "length (regs s) = 32" "regs s ! 0 = 0"
    and runs: "isa_runs n is (pc s) (unat (pmem_size s)) (regs s, pmem s) = Some (c, next_pc, xs, m)"
  shows "\<exists>k h'. x86_run mem refused k code code h = Some h' \<and>
    host_vm h' = s\<lparr>regs := xs, pmem := m, pc := next_pc,
      executed_insts := executed_insts s + of_nat (c * length is)\<rparr> \<and> length xs = 32 \<and> xs ! 0 = 0"
proof -
  have asm: "assembler refused" using refusals by unfold_locales
  have e: "entry s h (pc s) (regs s, pmem s)" using start by (simp add: entry_def)
  have "\<exists>h'. entry (counted (c * length is) s) h' next_pc (xs, m) \<and> code = Bind func_start # tl code \<and>
      reaches mem refused code (tl code) h [Emit Id_Ret []] h'"
    by (rule assembler.code_runs [OF asm _ shape code runs e]) (rule fits)
  then obtain h' where h': "entry (counted (c * length is) s) h' next_pc (xs, m)"
    and r: "code = Bind func_start # tl code" "reaches mem refused code (tl code) h [Emit Id_Ret []] h'" by blast
  have "reaches mem refused code (Bind func_start # tl code) h (tl code) h" by (rule reaches_bind)
  then have "reaches mem refused code code h [Emit Id_Ret []] h'"
    unfolding r(1) [symmetric] by (rule reaches_trans [OF _ r(2)])
  then obtain k where "x86_run mem refused k code code h = Some h'" using reaches_ret by blast
  with h' show ?thesis by (intro exI [of _ k] exI [of _ h']) (simp add: entry_def counted_def)
qed

text \<open>C6: The code that the translator emits for a trace refines the instruction set. The trace
  consists of instructions that the translator gets right, every instruction of the code has an encoding
  (or its loss does no harm), an instruction without an encoding leaves nothing behind, and the addresses
  of loads and stores stay in the range of 32 bits. Then the code returns with the registers, memory and
  program counter of the instruction set after all \<open>c\<close> runs of the trace that branch
  back to its start, and has counted the instructions of each run.\<close>

theorem native_code_refines_isa:
  assumes fits: "\<And>i. i \<in> set is \<Longrightarrow> translates_well i" and shape: "trace_shape is" "length is < 2 ^ 30"
    and code: "Translator_getFunc (Inst_translate False) assembles is = Inr (Some code)" "sound code"
    and refusals: "\<And>x ops h. \<not> encodable x ops \<Longrightarrow> refused x ops h = Some h"
    and start: "host_vm h = s" "length (regs s) = 32" "regs s ! 0 = 0"
    and runs: "isa_runs n is (pc s) (unat (pmem_size s)) (regs s, pmem s) = Some (c, next_pc, xs, m)"
  shows "\<exists>k h'. x86_run mem refused k code code h = Some h' \<and>
    host_vm h' = s\<lparr>regs := xs, pmem := m, pc := next_pc,
      executed_insts := executed_insts s + of_nat (c * length is)\<rparr>"
proof -
  have "\<exists>k h'. x86_run mem refused k code code h = Some h' \<and>
    host_vm h' = s\<lparr>regs := xs, pmem := m, pc := next_pc,
      executed_insts := executed_insts s + of_nat (c * length is)\<rparr> \<and> length xs = 32 \<and> xs ! 0 = 0"
    by (rule native_code_runs [OF fits shape code refusals start runs])
  then show ?thesis by blast
qed

definition count_down :: "Inst list" where
  "count_down = [inst_of Cmd_ADDI 5 5 0 0xffffffff, inst_of Cmd_BNE 0 5 0 0xfffffffe]"

definition count_down_code :: "Asm list" where
  "count_down_code = [Bind 0, Emit Id_Add [Op_insts, Op_imm 2], Emit Id_Mov [Op_gp 32 Gp_esi, Op_slot 5],
     Emit Id_Add [Op_gp 32 Gp_esi, Op_imm (- 1)], Emit Id_Cmp [Op_gp 32 Gp_esi, Op_imm 0],
     Emit Id_Mov [Op_slot 5, Op_gp 32 Gp_esi], Emit Id_Jne [Op_label 0], Emit Id_Add [Op_pc, Op_imm 8], Emit Id_Ret []]"

lemma count_down_translates: "Translator_getFunc (Inst_translate False) (\<lambda>_. True) count_down = Inr (Some count_down_code)"
  unfolding count_down_def count_down_code_def by code_simp

lemma count_down_ok: "i \<in> set count_down \<Longrightarrow> translates_well i" "trace_shape count_down" "sound count_down_code"
  by (auto simp: count_down_def translates_well_def isTranslationSupported_def getCmdDesc_total cmd_desc_def row_def
      trace_shape_def terminator_def) (simp add: count_down_code_def, code_simp)

lemmas count_down_steps = count_down_def loops_back_def branches_back_def branch_op_def flat_access_def load_op_def
  store_op_def isa_step_def alu_op_def terminator_def cmd_format_by_opcode isa_write_def

lemma count_down_runs:
  "isa_runs 3 count_down 0 ms ((replicate 32 0)[5 := 2], m) = Some (2, 8, replicate 32 0, m)"
  by (simp add: numeral_3_eq_3 count_down_steps) code_simp

theorem native_code_refines_isa_witness:
  "\<exists>k h'. x86_run 0x7f0000000000 skip_refused k count_down_code count_down_code
      \<lparr>host_gp = \<lambda>_. 0, host_flags = None, host_vm = demo_state\<lparr>regs := (replicate 32 0)[5 := 2]\<rparr>\<rparr> = Some h' \<and>
    pc (host_vm h') = 8 \<and> regs (host_vm h') ! 5 = 0 \<and> executed_insts (host_vm h') = executed_insts demo_state + 4"
proof -
  let ?s = "demo_state\<lparr>regs := (replicate 32 0)[5 := 2]\<rparr>"
  let ?h = "\<lparr>host_gp = \<lambda>_. 0, host_flags = None, host_vm = ?s\<rparr>"
  have "\<exists>k h'. x86_run 0x7f0000000000 skip_refused k count_down_code count_down_code ?h = Some h' \<and>
    host_vm h' = ?s\<lparr>regs := replicate 32 0, pmem := pmem ?s, pc := 8,
      executed_insts := executed_insts ?s + of_nat (2 * length count_down)\<rparr>"
    by (rule native_code_refines_isa [OF count_down_ok(1,2) _ count_down_translates count_down_ok(3), where n = 3])
      (simp_all add: skip_refused_def count_down_runs demo_state_ok, simp add: count_down_def)
  then obtain k h' where "x86_run 0x7f0000000000 skip_refused k count_down_code count_down_code ?h = Some h'"
    "host_vm h' = ?s\<lparr>regs := replicate 32 0, pmem := pmem ?s, pc := 8,
      executed_insts := executed_insts ?s + of_nat (2 * length count_down)\<rparr>" by blast
  then show ?thesis by (intro exI [of _ k] exI [of _ h']) (simp add: count_down_def)
qed

section \<open>Against the interpreter\<close>

lemma translates_conforming:
  assumes "translates_well i" "x86_shifts hst"
  shows "conforming hst i"
proof -
  have wf: "wf_inst i" using assms(1) by (simp add: translates_well_def)
  obtain g where "cd_translate_func (cmd_desc ! unat (Cmd_u8 (inst_cmd i))) = Some g"
    using assms(1) supported_func [OF wf] unfolding translates_well_def by blast
  then have "rv32im (inst_cmd i)"
    using wf_inst_cmd [OF wf] by (cases "inst_cmd i") (simp_all add: rv32im_def cmd_desc_def row_def)
  with assms wf show ?thesis by (simp add: conforming_def translates_well_def)
qed

text \<open>C7: Translated code and the interpreter agree on the traces that the translator gets right. These are
  the traces of fewer than \<open>2 ^ 30\<close> instructions, all of which can be translated and none of which is
  one that it is known to get wrong (\<open>translates_well\<close>: no \<^verbatim>\<open>MULH\<close>, no shift by a register that is its own
  target but not its first source, no \<^verbatim>\<open>JALR\<close> with its base register as link register), and whose emitted code is
  \<open>sound\<close>: each of its instructions has an encoding, or its loss does no harm (for \<open>native_add_loses_operand\<close> it
  does). Further, address translation is off, what asmjit refuses leaves nothing behind, the host shifts as x86
  does, and the addresses of the trace's loads and stores stay in the range of 32 bits. Then, where the chain of
  handlers returns without an exception and does not go back to the start of the trace, the emitted code returns as well, with
  the same registers, memory and program counter, and has counted the instructions.\<close>

theorem native_code_equals_interpreter:
  assumes fits: "\<And>i. i \<in> set is \<Longrightarrow> translates_well i" and shape: "trace_shape is" "length is < 2 ^ 30"
    and code: "Translator_getFunc (Inst_translate False) assembles is = Inr (Some code)" "sound code"
    and refusals: "\<And>x ops h. \<not> encodable x ops \<Longrightarrow> refused x ops h = Some h"
    and start: "host_vm h = s" "length (regs s) = 32" "regs s ! 0 = 0" "\<not> isVirtualAddressing s"
    and interp: "x86_shifts hst" "exec_from hst 0 is s = (Inr (), s')"
    and flat: "flat_trace is (pc s) (unat (pmem_size s)) (regs s, pmem s)" and leaves: "pc s' \<noteq> pc s"
  shows "\<exists>k h'. x86_run mem refused k code code h = Some h' \<and> regs (host_vm h') = regs s' \<and>
    pmem (host_vm h') = pmem s' \<and> pc (host_vm h') = pc s' \<and>
    executed_insts (host_vm h') = executed_insts s + of_nat (length is)"
proof -
  let ?ms = "unat (pmem_size s)"
  have conf: "conforming hst i" if "i \<in> set is" for i
    by (rule translates_conforming [OF fits [OF that] interp(1)])
  have trace: "isa_trace is (pc s) ?ms (regs s, pmem s) = Some (pc s', regs s', pmem s')"
    using exec_from_refines [OF shape(1) conf start(2,4), of 0] interp(2)
    by (auto simp: offset_of_def split: option.splits)
  then have "isa_runs 1 is (pc s) ?ms (regs s, pmem s) = Some (1, pc s', regs s', pmem s')"
    using flat leaves by simp
  from native_code_runs [OF fits shape code refusals start(1-3) this, where mem = mem]
  show ?thesis by fastforce
qed

theorem native_code_equals_interpreter_witness:
  "\<exists>s' k h'. exec_from x86_host 0 count_down (demo_state\<lparr>regs := (replicate 32 0)[5 := 1]\<rparr>) = (Inr (), s') \<and>
    x86_run 0 skip_refused k count_down_code count_down_code
      \<lparr>host_gp = \<lambda>_. 0, host_flags = None, host_vm = demo_state\<lparr>regs := (replicate 32 0)[5 := 1]\<rparr>\<rparr> = Some h' \<and>
    pc (host_vm h') = 8 \<and> pc s' = 8"
proof -
  let ?s = "demo_state\<lparr>regs := (replicate 32 0)[5 := 1]\<rparr>"
  let ?h = "\<lparr>host_gp = \<lambda>_. 0, host_flags = None, host_vm = ?s\<rparr>"
  have conf: "conforming x86_host i" if "i \<in> set count_down" for i
    by (rule translates_conforming [OF count_down_ok(1) [OF that] x86_host_ok(1)])
  have nv: "\<not> isVirtualAddressing ?s" using demo_state_ok(3) by (simp add: isVirtualAddressing_def)
  have trace: "isa_trace count_down 0 ms ((replicate 32 0)[5 := 1], m) = Some (8, replicate 32 0, m)"
    and flat: "flat_trace count_down 0 ms ((replicate 32 0)[5 := 1], m)" for ms m
    by (simp_all add: count_down_steps) code_simp
  obtain s' where s': "exec_from x86_host 0 count_down ?s = (Inr (), s')" "pc s' = 8"
    using exec_from_refines [OF count_down_ok(2) conf _ nv, of 0] trace by (auto simp: offset_of_def demo_state_ok)
  have "\<exists>k h'. x86_run 0 skip_refused k count_down_code count_down_code ?h = Some h' \<and> regs (host_vm h') = regs s' \<and>
    pmem (host_vm h') = pmem s' \<and> pc (host_vm h') = pc s' \<and>
    executed_insts (host_vm h') = executed_insts ?s + of_nat (length count_down)"
    by (rule native_code_equals_interpreter [OF count_down_ok(1,2) _ count_down_translates count_down_ok(3) _ _ _ _ nv
          x86_host_ok(1) s'(1)])
      (use flat s'(2) in \<open>simp_all add: skip_refused_def demo_state_ok\<close>, simp add: count_down_def)
  with s' show ?thesis by auto
qed

section \<open>A trace that branches to its own start for ever\<close>

text \<open>C34: A trace that branches to its own start for ever is a loop of the emitted code: the code never
  returns to the main loop, which alone compares the number of executed instructions with the limit.\<close>

theorem native_loop_never_returns:
  assumes fits: "\<And>i. i \<in> set is \<Longrightarrow> translates_well i" and shape: "trace_shape is" "length is < 2 ^ 30"
    and code: "Translator_getFunc (Inst_translate False) assembles is = Inr (Some code)" "sound code"
    and refusals: "\<And>x ops h. \<not> encodable x ops \<Longrightarrow> refused x ops h = Some h"
    and start: "host_vm h = s" "length (regs s) = 32" "regs s ! 0 = 0"
    and loops: "loops_back is" "\<And>n. spins n is (pc s) (unat (pmem_size s)) (regs s, pmem s)"
  shows "x86_run mem refused k code code h = None"
proof -
  have asm: "assembler refused" using refusals by unfold_locales
  have e: "entry s h (pc s) (regs s, pmem s)" using start by (simp add: entry_def)
  have c: "code = Bind func_start # tl code" "x86_run mem refused n code (tl code) h = None" for n
    using assembler.code_spins [OF asm _ shape code loops(1) loops(2) e] fits by blast+
  then show ?thesis by (cases k) (simp, metis x86_run.simps(3))
qed

definition self_loop :: "Inst list" where
  "self_loop = [inst_of Cmd_BEQ 0 0 0 0]"

definition self_loop_code :: "Asm list" where
  "self_loop_code = [Bind 0, Emit Id_Add [Op_insts, Op_imm 1], Emit Id_Xor [Op_gp 32 Gp_eax, Op_gp 32 Gp_eax],
     Emit Id_Cmp [Op_gp 32 Gp_eax, Op_imm 0], Emit Id_Je [Op_label 0], Emit Id_Add [Op_pc, Op_imm 4], Emit Id_Ret []]"

lemma self_loop_ok: "i \<in> set self_loop \<Longrightarrow> translates_well i" "trace_shape self_loop" "sound self_loop_code"
  "Translator_getFunc (Inst_translate False) (\<lambda>_. True) self_loop = Inr (Some self_loop_code)"
  "spins n self_loop at ms (replicate 32 0, m)" "loops_back self_loop" "length self_loop < 2 ^ 30"
proof -
  show "sound self_loop_code" unfolding self_loop_code_def by code_simp
  show "Translator_getFunc (Inst_translate False) (\<lambda>_. True) self_loop = Inr (Some self_loop_code)"
    unfolding self_loop_code_def self_loop_def by code_simp
  show "spins n self_loop at ms (replicate 32 0, m)"
    by (induction n) (simp_all add: self_loop_def flat_access_def load_op_def store_op_def isa_step_def alu_op_def
        branch_op_def terminator_def)
qed (auto simp: self_loop_def translates_well_def isTranslationSupported_def getCmdDesc_total cmd_desc_def row_def
    trace_shape_def terminator_def loops_back_def branches_back_def branch_op_def)

theorem native_loop_never_returns_witness:
  "x86_run 0 skip_refused 1000000 self_loop_code self_loop_code
    \<lparr>host_gp = \<lambda>_. 0, host_flags = None, host_vm = demo_state\<rparr> = None"
  by (rule native_loop_never_returns [OF self_loop_ok(1,2,7,4,3), where s = demo_state])
    (simp_all add: skip_refused_def demo_state_ok self_loop_ok)

section \<open>An addition that loses its second operand\<close>

definition lossy :: "Inst list" where
  "lossy = [inst_of Cmd_ADD 5 6 7 0, inst_of Cmd_ADDI 6 6 0 1, inst_of Cmd_JAL 0 0 0 0]"

definition lossy_code :: "Asm list" where
  "lossy_code = [Bind 0, Emit Id_Add [Op_insts, Op_imm 3], Emit Id_Mov [Op_gp 32 Gp_esi, Op_slot 6],
     Emit Id_Mov [Op_slot 5, Op_gp 32 Gp_esi], Emit Id_Add [Op_slot 5, Op_slot 7],
     Emit Id_Add [Op_gp 32 Gp_esi, Op_imm 1], Emit Id_Mov [Op_slot 6, Op_gp 32 Gp_esi],
     Emit Id_Add [Op_pc, Op_imm 8], Emit Id_Ret []]"

lemma lossy_translates: "Translator_getFunc (Inst_translate False) (\<lambda>_. True) lossy = Inr (Some lossy_code)"
  unfolding lossy_def lossy_code_def by code_simp

lemma lossy_runs:
  assumes refusals: "\<And>x ops h. \<not> encodable x ops \<Longrightarrow> refused x ops h = Some h" and "length (regs (host_vm h)) = 32"
  shows "\<exists>k h'. x86_run mem refused k lossy_code lossy_code h = Some h' \<and> regs (host_vm h') ! 5 = regs (host_vm h) ! 6"
  using assms(2)
  by (intro exI [of _ "Suc (Suc (Suc (Suc (Suc (Suc (Suc (Suc (Suc 0))))))))"]) (simp add: lossy_code_def asm_exec_def refusals encodable.simps encodable2_def pair32_def imm32_def
      x86_add_def x86_mov_def x86_alu_def no_flags_def write_gp_def)

text \<open>C35: For \<^verbatim>\<open>add x5, x6, x7\<close> in front of \<^verbatim>\<open>addi x6, x6, 1\<close> the translator emits an addition with two
  operands in memory, which has no encoding: the code runs as if it were not there, and \<^verbatim>\<open>x5\<close> gets the value
  of \<^verbatim>\<open>x6\<close> instead of the sum.\<close>

theorem native_add_loses_operand:
  assumes refusals: "\<And>x ops h. \<not> encodable x ops \<Longrightarrow> refused x ops h = Some h"
    and start: "host_vm h = s" "length (regs s) = 32"
  shows "\<exists>code k h'. Translator_getFunc (Inst_translate False) (\<lambda>_. True) lossy = Inr (Some code) \<and>
    x86_run mem refused k code code h = Some h' \<and> regs (host_vm h') ! 5 = regs s ! 6 \<and>
    (\<exists>next_pc xs m. isa_trace lossy (pc s) (unat (pmem_size s)) (regs s, pmem s) = Some (next_pc, xs, m) \<and>
      xs ! 5 = regs s ! 6 + regs s ! 7)"
proof -
  have "\<exists>k h'. x86_run mem refused k lossy_code lossy_code h = Some h' \<and> regs (host_vm h') ! 5 = regs (host_vm h) ! 6"
    by (rule lossy_runs) (use refusals start in simp_all)
  moreover have "\<exists>next_pc xs m. isa_trace lossy (pc s) (unat (pmem_size s)) (regs s, pmem s) = Some (next_pc, xs, m) \<and>
      xs ! 5 = regs s ! 6 + regs s ! 7"
    using start(2) by (simp add: lossy_def isa_step_def alu_op_def branch_op_def load_op_def store_op_def terminator_def
        cmd_format_by_opcode isa_write_def)
  ultimately show ?thesis using lossy_translates start(1) by blast
qed

theorem native_add_loses_operand_witness:
  "\<exists>code k h'. Translator_getFunc (Inst_translate False) (\<lambda>_. True) lossy = Inr (Some code) \<and>
    x86_run 0 skip_refused k code code \<lparr>host_gp = \<lambda>_. 0, host_flags = None,
      host_vm = demo_state\<lparr>regs := (replicate 32 0)[7 := 1]\<rparr>\<rparr> = Some h' \<and> regs (host_vm h') ! 5 = 0"
proof -
  let ?s = "demo_state\<lparr>regs := (replicate 32 0)[7 := 1]\<rparr>"
  let ?h = "\<lparr>host_gp = \<lambda>_. 0, host_flags = None, host_vm = ?s\<rparr>"
  have "\<exists>code k h'. Translator_getFunc (Inst_translate False) (\<lambda>_. True) lossy = Inr (Some code) \<and>
    x86_run 0 skip_refused k code code ?h = Some h' \<and> regs (host_vm h') ! 5 = regs ?s ! 6 \<and>
    (\<exists>next_pc xs m. isa_trace lossy (pc ?s) (unat (pmem_size ?s)) (regs ?s, pmem ?s) = Some (next_pc, xs, m) \<and>
      xs ! 5 = regs ?s ! 6 + regs ?s ! 7)"
    by (rule native_add_loses_operand) (simp_all add: skip_refused_def)
  then show ?thesis by fastforce
qed

end
