(* ===== verification/User_Program.thy ===== *)
theory User_Program
  imports Simulator_Correct Exec_Environment
begin

text \<open>
  Programs in the memory of the simulator: what is asked of a program, and that fetching,
  decoding and the trace cache deliver its instructions.
\<close>

section \<open>Programs\<close>

definition machine_view :: "State \<Rightarrow> isa_state" where
  "machine_view s = (pc s, regs s, pmem s)"

text \<open>
  The instructions of a program are legal and such that the interpreter agrees with the machine
  on them, system calls included; an instruction that does not jump is followed by another one.
\<close>

definition user_program :: "Host \<Rightarrow> (u32 \<rightharpoonup> Inst) \<Rightarrow> bool" where
  "user_program h P \<longleftrightarrow> (\<forall>a i. P a = Some i \<longrightarrow> legal_inst i \<and> user_conforming h i \<and>
     (\<not> terminator (inst_cmd i) \<longrightarrow> a + 4 \<in> dom P))"

text \<open>The memory holds the text of the program.\<close>

definition text_in :: "(u32 \<rightharpoonup> Inst) \<Rightarrow> nat \<Rightarrow> (nat \<Rightarrow> u8) \<Rightarrow> bool" where
  "text_in P mem_size mem \<longleftrightarrow>
     (\<forall>a i. P a = Some i \<longrightarrow> unat a + 4 < mem_size \<and> encode i = le_join (read_bytes (unat a) 4 mem))"

text \<open>The run stays inside the program and does not overwrite it.\<close>

definition user_stays :: "clock \<Rightarrow> nat \<Rightarrow> (u32 \<rightharpoonup> Inst) \<Rightarrow> isa_state \<Rightarrow> Io \<Rightarrow> bool" where
  "user_stays clock mem_size P st e \<longleftrightarrow> (\<forall>n at xs mem e'. env_run clock mem_size P n st e = Running (at, xs, mem) e' \<longrightarrow>
     at \<in> dom P \<and> text_in P mem_size mem)"

lemma user_stays_run:
  assumes "user_stays clock ms P st e" "env_run clock ms P n st e = Running st' e'"
  shows "user_stays clock ms P st' e'"
  unfolding user_stays_def
proof (intro allI impI)
  fix m at xs mem e2 assume "env_run clock ms P m st' e' = Running (at, xs, mem) e2"
  then have "env_run clock ms P (n + m) st e = Running (at, xs, mem) e2" using assms(2) by (simp add: env_run_add)
  with assms(1) show "at \<in> dom P \<and> text_in P ms mem" unfolding user_stays_def by blast
qed

lemma user_stays_here: "user_stays clock ms P (at, xs, mem) e \<Longrightarrow> at \<in> dom P \<and> text_in P ms mem"
  unfolding user_stays_def by (metis env_run.simps(1))

lemma branch_terminates: "branch_op c = Some p \<Longrightarrow> terminator c"
  by (cases c) (simp_all add: branch_op_def terminator_def)

lemma isa_step_next:
  assumes "isa_step i at ms st = Some (next, st')" "\<not> terminator (inst_cmd i)"
  shows "next = at + 4"
proof -
  have "branch_op (inst_cmd i) = None" "inst_cmd i \<noteq> Cmd_JAL" "inst_cmd i \<noteq> Cmd_JALR"
    using assms(2) branch_terminates by (force simp: terminator_def)+
  with assms(1) show ?thesis
    by (auto simp: isa_step_def Let_def split: option.splits prod.splits if_splits)
qed

lemma serve_next: "serve clock ms nx st e = Running (nx', st') e' \<Longrightarrow> nx' = nx"
  by (auto simp: serve_def serve_read_def serve_write_def serve_time_def Let_def split: if_splits prod.splits)

lemma env_step_next:
  "env_step clock ms i at st e = Running (nx, st') e' \<Longrightarrow> \<not> terminator (inst_cmd i) \<Longrightarrow> nx = at + 4"
  by (auto simp: env_step_def dest: serve_next isa_step_next split: if_splits option.splits)

section \<open>Traces of a program\<close>

definition runs_at :: "(u32 \<rightharpoonup> Inst) \<Rightarrow> u32 \<Rightarrow> Inst list \<Rightarrow> bool" where
  "runs_at P addr is \<longleftrightarrow> (\<forall>k < length is. P (addr + 4 * of_nat k) = Some (is ! k))"

lemma runs_at_Cons: "runs_at P addr (i # is) \<longleftrightarrow> P addr = Some i \<and> runs_at P (addr + 4) is"
  by (simp add: runs_at_def All_less_Suc2 algebra_simps)

lemma env_trace_run:
  "trace_shape is \<Longrightarrow> runs_at P addr is \<Longrightarrow>
    env_trace clock ms is (addr, st) e = env_run clock ms P (length is) (addr, st) e"
proof (induction "is" arbitrary: addr st e)
  case Nil
  then show ?case by simp
next
  case (Cons i "is")
  have P: "P addr = Some i" and rest: "runs_at P (addr + 4) is" using Cons.prems(2) by (simp_all add: runs_at_Cons)
  show ?case
  proof (cases "terminator (inst_cmd i)")
    case True
    with Cons.prems(1) have "is = []" by (simp add: trace_shape_Cons)
    with P show ?thesis by (simp add: and_then_def split: outcome.split)
  next
    case False
    with Cons.prems(1) have "trace_shape is" by (simp add: trace_shape_Cons)
    from Cons.IH [OF this rest] P env_step_next [OF _ False] show ?thesis
      by (fastforce simp: and_then_def split: outcome.split)
  qed
qed

text \<open>Where a trace ends, the run enters the next one.\<close>

lemma env_trace_entries:
  "trace_shape is \<Longrightarrow> runs_at P addr is \<Longrightarrow> env_run clock ms P (length is) (addr, st) e = Running (a, st') e' \<Longrightarrow>
    a \<in> set (entries clock ms P (length is) (addr, st) e)"
proof (induction "is" arbitrary: addr st e)
  case Nil
  then show ?case by (simp add: trace_shape_def)
next
  case (Cons i "is")
  have P: "P addr = Some i" and rest: "runs_at P (addr + 4) is" using Cons.prems(2) by (simp_all add: runs_at_Cons)
  obtain nx st1 e1 where step: "env_step clock ms i addr st e = Running (nx, st1) e1"
    using Cons.prems(3) P by (auto split: outcome.splits)
  show ?case
  proof (cases "terminator (inst_cmd i)")
    case True
    with Cons.prems(1) have "is = []" by (simp add: trace_shape_Cons)
    with P step True Cons.prems(3) show ?thesis by simp
  next
    case False
    with Cons.prems(1) have shape: "trace_shape is" by (simp add: trace_shape_Cons)
    have "nx = addr + 4" using env_step_next [OF step False] .
    with Cons.IH [OF shape rest, of st1 e1] Cons.prems(3) P step False show ?thesis by simp
  qed
qed

text \<open>Fetching from the text of a program delivers a trace of the program.\<close>

lemma fetch_loop_program:
  assumes P: "user_program h P" "text_in P (unat (pmem_size s)) (pmem s)" and v: "\<not> isVirtualAddressing s"
    and "address \<in> dom P" "fetch_loop n riscv_decoder address tr s = (Inl e, s')"
  shows "e = OutOfFuel FetchLoop"
  using assms(4,5)
proof (induction n arbitrary: address tr)
  case 0
  then show ?case by simp
next
  case (Suc n)
  obtain i where i: "P address = Some i" using Suc.prems(1) by blast
  then have inside: "unat address + 4 < unat (pmem_size s)" and "encode i = peek32 (unat address) s"
    using P(2) by (auto simp: text_in_def peek32_def)
  moreover have "legal_inst i" "wf_inst i" using P(1) i by (auto simp: user_program_def user_conforming_def)
  ultimately have d: "decode riscv_decoder (peek32 (unat address) s) = Inr i" and
    stop: "isTerminator i = Inr (terminator (inst_cmd i))"
    by (simp_all add: decode_iff isTerminator_eq wf_inst_cmd)
  have "\<not> terminator (inst_cmd i) \<Longrightarrow> address + 4 \<in> dom P" using P(1) i by (simp add: user_program_def)
  then show ?case
    using Suc.IH Suc.prems(2) bare_getCmd [OF v, of address] inside d stop by (auto simp: bnd_Inr split: if_splits)
qed

lemma fetch_program:
  assumes P: "user_program h P" "text_in P (unat (pmem_size s)) (pmem s)" and v: "\<not> isVirtualAddressing s"
    and m: "unat (pmem_size s) \<le> 2 ^ 32" "unat (pmem_size s) \<le> 4 * fuel" "0 < fuel" and "pc s \<in> dom P"
  obtains t where "Trace_ctor fuel riscv_decoder s = (Inr t, s)" "trace_ok fuel t" "exec_trace t = None"
    "runs_at P (pc s) (trace_insts t)"
proof -
  obtain r s' where c: "Trace_ctor fuel riscv_decoder s = (r, s')" by (cases "Trace_ctor fuel riscv_decoder s")
  have "r \<noteq> Inl e" for e
  proof
    assume "r = Inl e"
    then have "fetch_loop fuel riscv_decoder (pc s) [] s = (Inl e, s')"
      using c by (auto simp: Trace_ctor_def bnd_def split: prod.splits sum.splits)
    from fetch_loop_program [OF P v \<open>pc s \<in> dom P\<close> this] have "e = OutOfFuel FetchLoop" .
    with Trace_ctor_enough [OF v m] c \<open>r = Inl e\<close> show False by simp
  qed
  then obtain t where t: "Trace_ctor fuel riscv_decoder s = (Inr t, s')" using c by (cases r) auto
  note mem = Trace_ctor_memory [OF v m(1) t]
  let ?is = "trace_insts t"
  have shape: "trace_shape ?is" and legal: "\<And>i. i \<in> set ?is \<Longrightarrow> legal_inst i"
    using mem(2) by (auto simp: trace_ok_def)
  have "k < length ?is \<Longrightarrow> P (pc s + 4 * of_nat k) = Some (?is ! k)" for k
  proof (induction k)
    case 0
    obtain i where i: "P (pc s) = Some i" using \<open>pc s \<in> dom P\<close> by blast
    then have "legal_inst i" "encode i = encode (?is ! 0)"
      using P mem(3) [OF 0] by (auto simp: user_program_def text_in_def peek32_def)
    then have "i = ?is ! 0" using legal [of "?is ! 0"] 0 decode_iff by (metis Inr_inject nth_mem)
    with i show ?case by simp
  next
    case (Suc k)
    have nt: "\<not> terminator (inst_cmd (?is ! k))"
      using shape Suc.prems nth_mem [of k "butlast ?is"] by (simp add: trace_shape_def nth_butlast)
    have "P (pc s + 4 * of_nat k) = Some (?is ! k)" using Suc by simp
    then have "pc s + 4 * of_nat k + 4 \<in> dom P" using P(1) nt by (simp add: user_program_def)
    then obtain i where i: "P (pc s + 4 * of_nat (Suc k)) = Some i" by (auto simp: algebra_simps)
    have "unat (pc s) + 4 * Suc k < 2 ^ 32" using mem(3) [OF Suc.prems] m(1) by simp
    then have "unat (pc s + 4 * of_nat (Suc k)) = unat (pc s) + 4 * Suc k"
      using unat_of_nat [of "4 * Suc k", where ?'a = 32] by (simp add: unat_word_ariths)
    then have "legal_inst i" "encode i = encode (?is ! Suc k)"
      using P mem(3) [OF Suc.prems] i by (auto simp: user_program_def text_in_def peek32_def)
    then have "i = ?is ! Suc k" using legal [of "?is ! Suc k"] Suc.prems decode_iff by (metis Inr_inject nth_mem)
    with i show ?case by simp
  qed
  with t mem(1,2) Trace_ctor_ok(2) [OF t] that show thesis by (simp add: runs_at_def)
qed

section \<open>The trace cache\<close>

text \<open>
  The keys of the trace cache lie in \<open>K\<close>, the addresses at which the run has entered a trace; as long
  as there are at most 126 of them, the hash map of the cache has room.
\<close>

definition cache_within :: "u32 set \<Rightarrow> 'v LRUCache \<Rightarrow> bool" where
  "cache_within K c \<longleftrightarrow> finite K \<and> fst ` set (lru_abs c) \<subseteq> K \<and> (card K \<le> 126 \<longrightarrow> calm (lru_links c))"

lemma cache_within_mono: "cache_within K c \<Longrightarrow> K \<subseteq> K' \<Longrightarrow> finite K' \<Longrightarrow> cache_within K' c"
  unfolding cache_within_def using card_mono [of K' K] by auto

lemma tight_within:
  assumes ok: "lru_ok c" and c: "cache_within K c" "k \<in> K" and miss: "map_of (lru_abs c) k = None"
    and tight: "lru.tight c"
  shows "126 < card K"
proof (rule ccontr)
  assume "\<not> 126 < card K"
  then have "126 \<le> length (lru_abs c)"
    using c tight by (intro lru.tight_length) (simp_all add: cache_within_def)
  moreover have "distinct (map fst (lru_abs c))"
    using ok by (simp add: lru_ok_def lru_wf_def mc_wf_def)
  then have "length (lru_abs c) = card (fst ` set (lru_abs c))"
    by (metis distinct_card length_map set_map)
  moreover have "fst ` set (lru_abs c) \<subseteq> K - {k}"
    using c(1) miss by (auto simp: cache_within_def map_of_eq_None_iff)
  then have "card (fst ` set (lru_abs c)) \<le> card (K - {k})"
    using c(1) by (intro card_mono) (simp_all add: cache_within_def)
  ultimately show False using \<open>\<not> 126 < card K\<close> c by (simp add: cache_within_def card_Diff_singleton)
qed

lemma cache_within_insert:
  assumes ok: "lru_ok c" and c: "cache_within K c" "k \<in> K"
    and ins: "LRUCache_insert k mk c s = (Inr (r, new), c', s')"
  shows "cache_within K c'"
proof -
  have "calm (lru_links c')" if few: "card K \<le> 126"
    using ok
  proof (cases rule: lru.insert_cases [where k = k and mk = mk and s = s])
    case hit
    then show ?thesis using ins c(1) few by (auto simp: cache_within_def)
  next
    case miss
    then show ?thesis using ins tight_within [OF ok c miss(1)] few by auto
  qed (use ins in simp_all)
  moreover have "fst ` set (lru_abs c') \<subseteq> K"
    using lru.keys_grow [OF ok ins] c by (auto simp: cache_within_def)
  ultimately show ?thesis using c(1) by (simp add: cache_within_def)
qed

text \<open>
  The trace cache delivers a trace of the program, whether it hits or misses, unless its hash map
  throws; then the run has entered more than 126 traces.
\<close>

lemma refer_values:
  assumes ok: "lru_ok (trace_cache s)" and vals: "\<forall>(k, t) \<in> set (lru_abs (trace_cache s)). Q k t"
    and within: "cache_within K (trace_cache s)" "pc s \<in> K"
    and P: "user_program h P" "pc s \<in> dom P" "text_in P (unat (pmem_size s)) (pmem s)" and v: "\<not> isVirtualAddressing s"
    and m: "unat (pmem_size s) \<le> 2 ^ 32" "unat (pmem_size s) \<le> 4 * fuel" "0 < fuel"
    and new: "\<forall>t. trace_ok fuel t \<and> exec_trace t = None \<and> runs_at P (pc s) (trace_insts t) \<longrightarrow> Q (pc s) t"
  obtains (found) node t c st where
    "TraceCache_refer fuel riscv_decoder (pc s) s = (Inr node, s\<lparr>trace_cache := c, stats := st\<rparr>)"
    "lru_ok c" "\<forall>(k, t) \<in> set (lru_abs c). Q k t" "cache_within K c" "LRUCache_deref c node = Inr t" "Q (pc s) t"
  | (overfull) c where
    "TraceCache_refer fuel riscv_decoder (pc s) s = (Inl overflow, s\<lparr>trace_cache := c\<rparr>)" "126 < card K"
proof -
  let ?mk = "Trace_ctor fuel riscv_decoder"
  from fetch_program [OF P(1,3) v m P(2)] obtain t where
    mk: "?mk s = (Inr t, s)" "Q (pc s) t" using new by blast
  consider (ins) node fresh c where "LRUCache_insert (pc s) ?mk (trace_cache s) s = (Inr (node, fresh), c, s)"
    | (full) c where "LRUCache_insert (pc s) ?mk (trace_cache s) s = (Inl overflow, c, s)" "126 < card K"
    using ok
  proof (cases rule: lru.insert_cases [where k = "pc s" and mk = ?mk and s = s])
    case hit
    then show thesis using that(1) by blast
  next
    case miss
    then show thesis using that(1) mk(1) by auto
  next
    case fail
    then show thesis using mk(1) by simp
  next
    case (overfull c v s')
    then show thesis using that(2) mk(1) tight_within [OF ok within overfull(1)] by auto
  qed
  then show thesis
  proof cases
    case (ins node fresh c)
    have fresh: "\<And>v s'. ?mk s = (Inr v, s') \<Longrightarrow> Q (pc s) v" using mk by auto
    note kept = lru.values_kept [where P = Q, OF ok _ _ ins]
    have k1: "lru_ok c" by (rule kept(1)) (use vals fresh in auto)
    have "Q k t" if "(k, t) \<in> set (lru_abs c)" for k t by (rule kept(2)) (use vals fresh that in auto)
    then have k2: "\<forall>(k, t) \<in> set (lru_abs c). Q k t" by blast
    have "\<exists>t. LRUCache_deref c node = Inr t \<and> Q (pc s) t" by (rule kept(4)) (use vals fresh in auto)
    then obtain t where t: "LRUCache_deref c node = Inr t" "Q (pc s) t" by blast
    obtain st where "TraceCache_refer fuel riscv_decoder (pc s) s = (Inr node, s\<lparr>trace_cache := c, stats := st\<rparr>)"
      using ins by (auto simp: TraceCache_refer_def bnd_def bump_stats_def)
    from found [OF this k1 k2 cache_within_insert [OF ok within ins] t] show thesis .
  next
    case (full c)
    then have "TraceCache_refer fuel riscv_decoder (pc s) s = (Inl overflow, s\<lparr>trace_cache := c\<rparr>)"
      by (simp add: TraceCache_refer_def bnd_def)
    from overfull [OF this full(2)] show thesis .
  qed
qed

end
