(* ===== verification/User_Refinement.thy ===== *)
theory User_Refinement
  imports User_Program Native_Code
begin

text \<open>
  The simulator runs programs: with the interpreter alone or with the translator switched on, the
  main loop does what the machine of \<open>Environment\<close> does with the program in the memory, system calls
  included. A trace is interpreted while it is cold, and runs on the host from its translation on.
\<close>

section \<open>The host and the program\<close>

text \<open>
  What calling emitted code does. The call starts with some contents of the host registers and
  leaves through \<^verbatim>\<open>ret\<close>; an instruction that the assembler refuses leaves nothing behind.
\<close>

definition runs_native :: "u64 \<Rightarrow> refusal \<Rightarrow> (State \<Rightarrow> x86) \<Rightarrow> Jit_Env \<Rightarrow> bool" where
  "runs_native mem refused boot J \<longleftrightarrow> (\<forall>x ops h. \<not> encodable x ops \<longrightarrow> refused x ops h = Some h) \<and>
     (\<forall>s. host_vm (boot s) = s) \<and>
     (\<forall>code s k h'. x86_run mem refused k code code (boot s) = Some h' \<longrightarrow> run_code J code s = (Inr (), host_vm h'))"

text \<open>The instructions that can be translated are translated well, and the code of every trace has an encoding.\<close>

definition native_program :: "Jit_Env \<Rightarrow> (u32 \<rightharpoonup> Inst) \<Rightarrow> bool" where
  "native_program J P \<longleftrightarrow>
     (\<forall>a i. P a = Some i \<and> isTranslationSupported i = Inr True \<longrightarrow> translates_well i) \<and>
     (\<forall>addr is code. runs_at P addr is \<and> trace_shape is \<and>
        Translator_getFunc (Inst_translate False) (assembles J) is = Inr (Some code) \<longrightarrow> sound code)"

lemma supported_no_call: "wf_inst i \<Longrightarrow> isTranslationSupported i = Inr True \<Longrightarrow> inst_cmd i \<noteq> Cmd_ECALL"
  by (auto simp: isTranslationSupported_def getCmdDesc_total cmd_desc_def row_def)

text \<open>
  Wherever the run enters a trace, it executes at most \<open>B\<close> instructions before it leaves it: the trace
  is not longer, and if it can be translated, so that it may branch back to its start without
  returning to the main loop, it does so only that often; its accesses then stay inside the memory,
  with addresses that do not leave the range of 32 bits.
\<close>

definition rounds_bounded :: "clock \<Rightarrow> nat \<Rightarrow> nat \<Rightarrow> (u32 \<rightharpoonup> Inst) \<Rightarrow> isa_state \<Rightarrow> Io \<Rightarrow> bool" where
  "rounds_bounded clock mem_size B P st e \<longleftrightarrow> (\<forall>n at r e' is.
     env_run clock mem_size P n st e = Running (at, r) e' \<and> runs_at P at is \<and> trace_shape is \<longrightarrow>
       length is \<le> B \<and> ((\<forall>i \<in> set is. isTranslationSupported i = Inr True) \<longrightarrow>
         (\<exists>m c r'. isa_runs m is at mem_size r = Some (c, r') \<and> c * length is \<le> B)))"

lemma rounds_bounded_run:
  assumes "rounds_bounded clock ms B P st e" "env_run clock ms P n st e = Running st' e'"
  shows "rounds_bounded clock ms B P st' e'"
  unfolding rounds_bounded_def
proof (intro allI impI, elim conjE)
  fix m at r e2 "is"
  assume "env_run clock ms P m st' e' = Running (at, r) e2" and t: "runs_at P at is" "trace_shape is"
  then have "env_run clock ms P (n + m) st e = Running (at, r) e2" using assms(2) by (simp add: env_run_add)
  with assms(1) t show "length is \<le> B \<and> ((\<forall>i \<in> set is. isTranslationSupported i = Inr True) \<longrightarrow>
      (\<exists>m c r'. isa_runs m is at ms r = Some (c, r') \<and> c * length is \<le> B))"
    unfolding rounds_bounded_def by blast
qed

lemma rounds_boundedD:
  assumes "rounds_bounded clock ms B P (at, r) e" "runs_at P at is" "trace_shape is"
  shows "length is \<le> B"
    and "(\<And>i. i \<in> set is \<Longrightarrow> isTranslationSupported i = Inr True) \<Longrightarrow>
      \<exists>m c r'. isa_runs m is at ms r = Some (c, r') \<and> c * length is \<le> B"
  using assms(1) [unfolded rounds_bounded_def, rule_format, of 0 at r e "is"] assms(2,3) by simp_all

lemma env_trace_isa:
  "trace_shape is \<Longrightarrow> (\<And>i. i \<in> set is \<Longrightarrow> inst_cmd i \<noteq> Cmd_ECALL) \<Longrightarrow>
    isa_trace is at ms st = Some st' \<Longrightarrow> env_trace clock ms is (at, st) e = Running st' e"
proof (induction "is" arbitrary: at st)
  case Nil
  then show ?case by (simp add: trace_shape_def)
next
  case (Cons i "is")
  have "inst_cmd i \<noteq> Cmd_ECALL" using Cons.prems(2) by simp
  then have step: "env_step clock ms i at st e = (case isa_step i at ms st of None \<Rightarrow> Faulted st e | Some st' \<Rightarrow> Running st' e)"
    by (simp add: env_step_def)
  show ?case
  proof (cases "terminator (inst_cmd i)")
    case True
    with Cons.prems(1) have "is = []" by (simp add: trace_shape_Cons)
    with True Cons.prems(3) show ?thesis by (auto simp: step split: option.splits)
  next
    case False
    with Cons.prems(1) have "trace_shape is" by (simp add: trace_shape_Cons)
    from Cons.IH [OF this] Cons.prems(2,3) False show ?thesis by (auto simp: step split: option.splits)
  qed
qed

lemma isa_runs_env:
  assumes "runs_at P at is" "trace_shape is" "\<And>i. i \<in> set is \<Longrightarrow> inst_cmd i \<noteq> Cmd_ECALL"
  shows "isa_runs m is at ms st = Some (c, r) \<Longrightarrow>
    0 < c \<and> env_run clock ms P (c * length is) (at, st) e = Running r e \<and>
    fst r \<in> set (entries clock ms P (c * length is) (at, st) e)"
proof (induction m arbitrary: st c)
  case (Suc m)
  obtain nx st1 where t: "isa_trace is at ms st = Some (nx, st1)"
    using Suc.prems by (auto split: if_splits option.splits)
  then have one: "env_run clock ms P (length is) (at, st) e = Running (nx, st1) e"
    using env_trace_run [OF assms(2,1), of clock ms st e] env_trace_isa [OF assms(2,3) t, of clock e] by simp
  show ?case
  proof (cases "loops_back is \<and> nx = at")
    case True
    then obtain c' where c': "c = Suc c'" "isa_runs m is at ms st1 = Some (c', r)"
      using Suc.prems t by (auto split: if_splits)
    have "env_run clock ms P (length is + c' * length is) (at, st) e = Running r e"
      "fst r \<in> set (entries clock ms P (length is + c' * length is) (at, st) e)"
      using one Suc.IH [OF c'(2)] True by (simp_all add: env_run_add entries_add)
    with c'(1) show ?thesis by simp
  next
    case False
    then have "c = 1" "r = (nx, st1)" using Suc.prems t by (auto split: if_splits)
    with one env_trace_entries [OF assms(2,1) one] show ?thesis by simp
  qed
qed simp

section \<open>The invariant\<close>

text \<open>A cached trace is one of the program; it has code only when the translator is on, and then what it makes of it.\<close>

definition cached :: "Options \<Rightarrow> Jit_Env \<Rightarrow> nat \<Rightarrow> (u32 \<rightharpoonup> Inst) \<Rightarrow> u32 \<Rightarrow> Trace \<Rightarrow> bool" where
  "cached opts J fuel P addr t \<longleftrightarrow> runs_at P addr (trace_insts t) \<and> trace_ok fuel t \<and>
     (\<forall>code. exec_trace t = Some code \<longrightarrow> jit opts \<and>
        Translator_getFunc (Inst_translate False) (assembles J) (trace_insts t) = Inr (Some code))"

definition user_cache :: "Options \<Rightarrow> Jit_Env \<Rightarrow> nat \<Rightarrow> (u32 \<rightharpoonup> Inst) \<Rightarrow> u32 set \<Rightarrow> Trace LRUCache \<Rightarrow> bool" where
  "user_cache opts J fuel P K c \<longleftrightarrow> lru_ok c \<and> cache_within K c \<and>
     (\<forall>(addr, t) \<in> set (lru_abs c). cached opts J fuel P addr t)"

text \<open>What the translator needs when it is on: a host for the code, and a program that it translates well.\<close>

definition jit_ready :: "Options \<Rightarrow> Jit_Env \<Rightarrow> nat \<Rightarrow> (u32 \<rightharpoonup> Inst) \<Rightarrow> bool" where
  "jit_ready opts J fuel P \<longleftrightarrow>
     (jit opts \<longrightarrow> native_program J P \<and> fuel < 2 ^ 30 \<and> (\<exists>mem refused boot. runs_native mem refused boot J))"

definition user_inv ::
  "Options \<Rightarrow> Host \<Rightarrow> Jit_Env \<Rightarrow> nat \<Rightarrow> nat \<Rightarrow> (u32 \<rightharpoonup> Inst) \<Rightarrow> u32 set \<Rightarrow> State \<Rightarrow> bool"
where
  "user_inv opts h J fuel B P K s \<longleftrightarrow> host_ok h \<and> exec_inv s \<and> user_cache opts J fuel P K (trace_cache s) \<and>
     \<not> isVirtualAddressing s \<and> unat (pmem_size s) \<le> 2 ^ 32 \<and> unat (pmem_size s) \<le> 4 * fuel \<and> 0 < fuel \<and>
     user_program h P \<and> jit_ready opts J fuel P \<and>
     user_stays (timeofday h) (unat (pmem_size s)) P (machine_view s) (io_of s) \<and>
     (jit opts \<or> B < fuel \<longrightarrow> rounds_bounded (timeofday h) (unat (pmem_size s)) B P (machine_view s) (io_of s))"

lemma user_inv_same:
  assumes "user_inv opts h J fuel B P K s" "user_cache opts J fuel P K (trace_cache s')"
    and "regs s' = regs s" "pc s' = pc s" "pmem s' = pmem s" "pmem_size s' = pmem_size s" "satp s' = satp s"
    and "instTLB s' = instTLB s" "dataTLB s' = dataTLB s" "io_of s' = io_of s"
  shows "user_inv opts h J fuel B P K s'"
  using assms by (simp add: user_inv_def exec_inv_def regs_ok_def mmu_ok_def isVirtualAddressing_def machine_view_def)

lemma user_inv_mono: "user_inv opts h J fuel B P K s \<Longrightarrow> K \<subseteq> K' \<Longrightarrow> finite K' \<Longrightarrow> user_inv opts h J fuel B P K' s"
  using cache_within_mono by (auto simp: user_inv_def user_cache_def)

lemma user_refer:
  assumes inv: "user_inv opts h J fuel B P K s" and head: "pc s \<in> K"
  obtains (found) node t c st where
    "TraceCache_refer fuel riscv_decoder (pc s) s = (Inr node, s\<lparr>trace_cache := c, stats := st\<rparr>)"
    "user_inv opts h J fuel B P K (s\<lparr>trace_cache := c, stats := st\<rparr>)" "LRUCache_deref c node = Inr t"
    "cached opts J fuel P (pc s) t"
  | (overfull) c where
    "TraceCache_refer fuel riscv_decoder (pc s) s = (Inl overflow, s\<lparr>trace_cache := c\<rparr>)" "126 < card K"
proof -
  have here: "pc s \<in> dom P" "text_in P (unat (pmem_size s)) (pmem s)"
    using inv user_stays_here [of "timeofday h" "unat (pmem_size s)" P "pc s" "regs s" "pmem s" "io_of s"]
    by (simp_all add: user_inv_def machine_view_def)
  have i: "lru_ok (trace_cache s)" "cache_within K (trace_cache s)" "user_program h P"
    "\<not> isVirtualAddressing s" "unat (pmem_size s) \<le> 2 ^ 32" "unat (pmem_size s) \<le> 4 * fuel" "0 < fuel"
    and vals: "\<forall>(k, t) \<in> set (lru_abs (trace_cache s)). cached opts J fuel P k t"
    using inv by (simp_all add: user_inv_def user_cache_def)
  have new: "\<forall>t. trace_ok fuel t \<and> exec_trace t = None \<and> runs_at P (pc s) (trace_insts t) \<longrightarrow>
      cached opts J fuel P (pc s) t" by (simp add: cached_def)
  from i(1) vals i(2) head i(3) here i(4-7) new show thesis
  proof (cases rule: refer_values [where Q = "cached opts J fuel P"])
    case (found node t c st)
    have "user_inv opts h J fuel B P K (s\<lparr>trace_cache := c, stats := st\<rparr>)"
      by (rule user_inv_same [OF inv]) (use found in \<open>auto simp: user_cache_def\<close>)
    from that(1) [OF found(1) this found(5,6)] show thesis .
  next
    case (overfull c)
    from that(2) [OF this] show thesis .
  qed
qed

section \<open>A round\<close>

lemma user_assign:
  assumes inv: "user_inv opts h J fuel B P K s" and t: "LRUCache_deref (trace_cache s) node = Inr t"
    and same: "trace_insts t' = trace_insts t"
    and code: "exec_trace t' = exec_trace t \<or> jit opts \<and>
      Translator_getFunc (Inst_translate False) (assembles J) (trace_insts t) = Inr (exec_trace t')"
  shows "user_inv opts h J fuel B P K (s\<lparr>trace_cache := LRUCache_assign node t' (trace_cache s), stats := st\<rparr>)"
    and "cached opts J fuel P a t \<Longrightarrow> cached opts J fuel P a t'"
    and "LRUCache_deref (LRUCache_assign node t' (trace_cache s)) node = Inr t'"
proof -
  have good: "cached opts J fuel P k t \<Longrightarrow> cached opts J fuel P k t'" for k
    using same code by (auto simp: cached_def trace_ok_def)
  then show "cached opts J fuel P a t \<Longrightarrow> cached opts J fuel P a t'" .
  have c: "lru_ok (trace_cache s)" "\<And>k t. (k, t) \<in> set (lru_abs (trace_cache s)) \<Longrightarrow> cached opts J fuel P k t"
    using inv by (auto simp: user_inv_def user_cache_def)
  note a = lru_ok_assign [OF c(1) t, where w = t']
  then show "LRUCache_deref (LRUCache_assign node t' (trace_cache s)) node = Inr t'" by simp
  have "cached opts J fuel P k u" if "(k, u) \<in> set (lru_abs (LRUCache_assign node t' (trace_cache s)))" for k u
    using a(3) [OF that] c(2) good by blast
  moreover have "fst ` set (lru_abs (LRUCache_assign node t' (trace_cache s))) = fst ` set (lru_abs (trace_cache s))"
    by (metis assign_simps(3) set_map)
  then have "cache_within K (LRUCache_assign node t' (trace_cache s))"
    using inv by (simp add: user_inv_def user_cache_def cache_within_def)
  ultimately have "user_cache opts J fuel P K (LRUCache_assign node t' (trace_cache s))"
    using a(1) by (auto simp: user_cache_def)
  then show "user_inv opts h J fuel B P K (s\<lparr>trace_cache := LRUCache_assign node t' (trace_cache s), stats := st\<rparr>)"
    by (intro user_inv_same [OF inv]) simp_all
qed

lemma user_try_translate:
  assumes inv: "user_inv opts h J fuel B P K s" and t: "LRUCache_deref (trace_cache s) node = Inr t"
    and good: "cached opts J fuel P a t"
  obtains t' c st where "try_translate opts J node s = (Inr (), s\<lparr>trace_cache := c, stats := st\<rparr>)"
    "user_inv opts h J fuel B P K (s\<lparr>trace_cache := c, stats := st\<rparr>)" "LRUCache_deref c node = Inr t'"
    "cached opts J fuel P a t'"
proof -
  have v: "isVirtualAddressing s = False" using inv by (simp add: user_inv_def)
  have wf: "\<And>i. i \<in> set (trace_insts t) \<Longrightarrow> wf_inst i" using good by (auto simp: cached_def trace_ok_def)
  obtain f where f: "Translator_getFunc (Inst_translate False) (assembles J) (trace_insts t) = Inr f"
    using getFunc_total [OF wf, where virt = False and assembles = "assembles J"] by blast
  let ?c = "\<lambda>t'. LRUCache_assign node t' (trace_cache s)"
  have run: "\<exists>t' c st. try_translate opts J node s = (Inr (), s\<lparr>trace_cache := c, stats := st\<rparr>) \<and>
      (c = trace_cache s \<and> t' = t \<or> c = ?c t' \<and> trace_insts t' = trace_insts t \<and>
        (exec_trace t' = exec_trace t \<or> jit opts \<and> f = exec_trace t'))"
  proof (cases "jit opts \<and> is_eligible t \<and> exec_trace t = None")
    case False
    then have "try_translate opts J node s = (Inr (), s\<lparr>trace_cache := trace_cache s, stats := stats s\<rparr>)"
      using t by (auto simp: try_translate_def bnd_def the_trace_def)
    then show ?thesis by blast
  next
    case True
    let ?t = "t\<lparr>exec_num := exec_num t + 1\<rparr>"
    show ?thesis
    proof (cases "jit_threshold opts = exec_num t")
      case False
      with True t have "try_translate opts J node s = (Inr (), s\<lparr>trace_cache := ?c ?t, stats := stats s\<rparr>)"
        by (simp add: try_translate_def bnd_def the_trace_def set_trace_def modify_def)
      then show ?thesis by (intro exI [of _ ?t] exI [of _ "?c ?t"] exI [of _ "stats s"]) simp
    next
      case reached: True
      let ?t' = "if f = None then ?t\<lparr>is_eligible := False\<rparr> else ?t\<lparr>exec_trace := f\<rparr>"
      have "\<exists>st. try_translate opts J node s = (Inr (), s\<lparr>trace_cache := ?c ?t', stats := st\<rparr>)"
        using True reached t f v
        by (cases f) (simp_all add: try_translate_def bnd_def the_trace_def set_trace_def modify_def bump_stats_def Let_def, blast+)
      moreover have "trace_insts ?t' = trace_insts t" "exec_trace ?t' = exec_trace t \<or> jit opts \<and> f = exec_trace ?t'"
        using True by simp_all
      ultimately show ?thesis by blast
    qed
  qed
  then obtain t' c st where r: "try_translate opts J node s = (Inr (), s\<lparr>trace_cache := c, stats := st\<rparr>)"
    and c: "c = trace_cache s \<and> t' = t \<or> c = ?c t' \<and> trace_insts t' = trace_insts t \<and>
      (exec_trace t' = exec_trace t \<or> jit opts \<and> f = exec_trace t')" by blast
  from c show thesis
  proof
    assume c: "c = trace_cache s \<and> t' = t"
    have i: "user_inv opts h J fuel B P K (s\<lparr>trace_cache := c, stats := st\<rparr>)"
      by (rule user_inv_same [OF inv]) (use inv c in \<open>simp_all add: user_inv_def\<close>)
    show thesis by (rule that [OF r i]) (use c t good in simp_all)
  next
    assume c: "c = ?c t' \<and> trace_insts t' = trace_insts t \<and>
      (exec_trace t' = exec_trace t \<or> jit opts \<and> f = exec_trace t')"
    then have "trace_insts t' = trace_insts t" "exec_trace t' = exec_trace t \<or> jit opts \<and>
        Translator_getFunc (Inst_translate False) (assembles J) (trace_insts t) = Inr (exec_trace t')" using f by auto
    note a = user_assign [OF inv t this]
    show thesis by (rule that [OF r, of t']) (use a good c in auto)
  qed
qed

text \<open>
  A round does \<open>n\<close> instructions: it leaves the machine where they lead it, and counts them. If the program
  goes on, the run enters another trace; if it does not, nothing is counted.
\<close>

definition advances ::
  "Options \<Rightarrow> Host \<Rightarrow> Jit_Env \<Rightarrow> nat \<Rightarrow> nat \<Rightarrow> (u32 \<rightharpoonup> Inst) \<Rightarrow> u32 set \<Rightarrow> State \<Rightarrow> nat \<Rightarrow> (fault + unit) \<times> State \<Rightarrow> bool"
where
  "advances opts h J fuel B P K s n res \<longleftrightarrow> 0 < n \<and> n \<le> B \<and>
     does s (\<lambda>a t. pc t = a \<and> user_inv opts h J fuel B P K t \<and> executed_insts t = executed_insts s + of_nat n \<and>
         a \<in> set (entries (timeofday h) (unat (pmem_size s)) P n (machine_view s) (io_of s))) ()
       (env_run (timeofday h) (unat (pmem_size s)) P n (machine_view s) (io_of s)) res \<and>
     (\<forall>e t. res = (Inl e, t) \<longrightarrow> executed_insts t = executed_insts s)"

lemma user_inv_moves:
  assumes inv: "user_inv opts h J fuel B P K s"
    and run: "env_run (timeofday h) (unat (pmem_size s)) P n (machine_view s) (io_of s) = Running (machine_view t) (io_of t)"
    and t: "exec_inv t" "trace_cache t = trace_cache s" "pmem_size t = pmem_size s" "satp t = satp s"
  shows "user_inv opts h J fuel B P K t"
  using inv t user_stays_run [OF _ run] rounds_bounded_run [OF _ run]
  by (auto simp: user_inv_def isVirtualAddressing_def)

text \<open>The code of a trace.\<close>

lemma native_advances:
  assumes inv: "user_inv opts h J fuel B P K s" and t: "LRUCache_deref (trace_cache s) node = Inr t"
    and good: "cached opts J fuel P (pc s) t" and code: "exec_trace t = Some code"
  shows "\<exists>n. advances opts h J fuel B P K s n (run_trace h J node s)"
proof -
  let ?is = "trace_insts t" and ?ms = "unat (pmem_size s)" and ?clock = "timeofday h"
  have runs: "runs_at P (pc s) ?is" and shape: "trace_shape ?is" and len: "length ?is \<le> fuel"
    and wf: "\<And>i. i \<in> set ?is \<Longrightarrow> wf_inst i" and jit: "jit opts"
    and f: "Translator_getFunc (Inst_translate False) (assembles J) ?is = Inr (Some code)"
    using good code by (auto simp: cached_def trace_ok_def)
  have regs: "length (regs s) = 32" "regs s ! 0 = 0" using inv by (simp_all add: user_inv_def exec_inv_def regs_ok_def)
  obtain mem refused boot where host: "runs_native mem refused boot J" and prog: "native_program J P"
    and fuel: "fuel < 2 ^ 30"
    using inv jit by (auto simp: user_inv_def jit_ready_def)
  have "\<exists>f. Translator_getFunc (Inst_translate False) (assembles J) ?is = Inr f \<and>
      (f \<noteq> None \<longrightarrow> (\<forall>i \<in> set ?is. isTranslationSupported i = Inr True))"
    by (rule getFunc_total) (rule wf)
  with f have supported: "\<And>i. i \<in> set ?is \<Longrightarrow> isTranslationSupported i = Inr True" by auto
  then have no_call: "\<And>i. i \<in> set ?is \<Longrightarrow> inst_cmd i \<noteq> Cmd_ECALL" using wf supported_no_call by blast
  have "i \<in> set ?is \<Longrightarrow> \<exists>a. P a = Some i" for i
    using runs by (auto simp: runs_at_def in_set_conv_nth)
  then have fits: "\<And>i. i \<in> set ?is \<Longrightarrow> translates_well i" and sound: "sound code"
    using supported prog runs shape f unfolding native_program_def by blast+
  have "rounds_bounded ?clock ?ms B P (pc s, regs s, pmem s) (io_of s)"
    using inv jit by (simp add: user_inv_def machine_view_def)
  from rounds_boundedD(2) [OF this runs shape supported] obtain m c at xs p where
    r: "isa_runs m ?is (pc s) ?ms (regs s, pmem s) = Some (c, at, xs, p)" "c * length ?is \<le> B"
    by auto
  have refusals: "\<And>x ops h. \<not> encodable x ops \<Longrightarrow> refused x ops h = Some h" and boot: "host_vm (boot s) = s"
    using host by (simp_all add: runs_native_def)
  let ?n = "c * length ?is"
  let ?t = "s\<lparr>regs := xs, pmem := p, pc := at, executed_insts := executed_insts s + of_nat ?n\<rparr>"
  have "\<exists>k h'. x86_run mem refused k code code (boot s) = Some h' \<and> host_vm h' = ?t \<and> length xs = 32 \<and> xs ! 0 = 0"
    by (rule native_code_runs [OF fits shape _ f sound refusals boot regs r(1)]) (use len fuel in simp_all)
  then obtain k h' where "x86_run mem refused k code code (boot s) = Some h'" "host_vm h' = ?t"
    and xs: "length xs = 32" "xs ! 0 = 0" by blast
  then have "run_code J code s = (Inr (), ?t)" using host by (metis runs_native_def)
  then obtain st where st: "run_trace h J node s = (Inr (), ?t\<lparr>stats := st\<rparr>)"
    using t code by (auto simp: run_trace_def bnd_def the_trace_def bump_stats_def)
  have isa: "0 < c" "env_run ?clock ?ms P ?n (machine_view s) (io_of s) = Running (at, xs, p) (io_of s)"
    "at \<in> set (entries ?clock ?ms P ?n (machine_view s) (io_of s))"
    using isa_runs_env [OF runs shape no_call r(1)] by (simp_all add: machine_view_def)
  have "user_inv opts h J fuel B P K (?t\<lparr>stats := st\<rparr>)"
    by (rule user_inv_moves [OF inv, where n = ?n])
      (use isa(2) inv xs in \<open>simp_all add: machine_view_def user_inv_def exec_inv_def regs_ok_def mmu_ok_def\<close>)
  moreover have "0 < ?n" using isa(1) shape by (simp add: trace_shape_def)
  ultimately show ?thesis
    using st isa(2,3) r(2) by (intro exI [of _ ?n]) (simp add: advances_def)
qed

text \<open>The chain of handlers of a trace.\<close>

lemma interpreter_advances:
  assumes inv: "user_inv opts h J fuel B P K s" and t: "LRUCache_deref (trace_cache s) node = Inr t"
    and good: "cached opts J fuel P (pc s) t" and code: "exec_trace t = None"
  shows "\<exists>n. advances opts h J fuel B P K s n (run_trace h J node s)"
proof -
  let ?is = "trace_insts t" and ?ms = "unat (pmem_size s)" and ?clock = "timeofday h"
  have runs: "runs_at P (pc s) ?is" and shape: "trace_shape ?is" and len: "length ?is \<le> fuel" "?is \<noteq> []"
    and wf: "\<And>i. i \<in> set ?is \<Longrightarrow> wf_inst i"
    using good by (auto simp: cached_def trace_ok_def trace_shape_def)
  have i: "host_ok h" "exec_inv s" "\<not> isVirtualAddressing s" "unat (pmem_size s) \<le> 2 ^ 32" "user_program h P"
    using inv by (auto simp: user_inv_def)
  have "\<exists>a. P a = Some i" if "i \<in> set ?is" for i
    using that runs by (auto simp: runs_at_def in_set_conv_nth)
  then have conf: "\<And>i. i \<in> set ?is \<Longrightarrow> user_conforming h i" using i(5) unfolding user_program_def by blast
  then have fence: "inst_cmd (last ?is) \<noteq> Cmd_FENCE"
    using conf [OF last_in_set [OF len(2)]] by (auto simp: user_conforming_def)
  have B: "length ?is \<le> B"
  proof (cases "B < fuel")
    case True
    then have "rounds_bounded ?clock ?ms B P (pc s, regs s, pmem s) (io_of s)"
      using inv by (simp add: user_inv_def machine_view_def)
    then show ?thesis by (rule rounds_boundedD(1) [OF _ runs shape])
  qed (use len in simp)
  have "does s (\<lambda>a t. pc t = a) () (env_trace ?clock ?ms ?is (pc s + offset_of 0, regs s, pmem s) (io_of s))
      (exec_from h 0 ?is s)"
    by (rule exec_from_meets [OF shape conf]) (use i in \<open>auto simp: exec_inv_def regs_ok_def\<close>)
  then have d: "does s (\<lambda>a t. pc t = a) () (env_run ?clock ?ms P (length ?is) (machine_view s) (io_of s)) (exec_from h 0 ?is s)"
    using env_trace_run [OF shape runs] by (simp add: offset_of_def machine_view_def)
  have count: "executed_insts u = executed_insts s" if "exec_from h 0 ?is s = (q, u)" for q u
  proof -
    have "wf_inst i \<and> inst_cmd i \<noteq> Cmd_FENCE" if "i \<in> set ?is" for i
      using conf [OF that] by (auto simp: user_conforming_def)
    from framesD [OF exec_from_frame [OF this i(1)] that] show ?thesis by (simp add: exec_step_def)
  qed
  have start: "run_trace h J node s = bnd (exec_from h 0 ?is) (\<lambda>_.
      bnd (the_trace node) (\<lambda>t.
      bnd (modify (\<lambda>s. s\<lparr>executed_insts := executed_insts s + of_nat (length (trace_insts t))\<rparr>)) (\<lambda>_.
        bump_stats (\<lambda>st. st\<lparr>interpreted_executions := interpreted_executions st + 1\<rparr>)))) s"
    using t code by (simp add: run_trace_def bnd_def [of "the_trace node"] the_trace_def)
  show ?thesis
  proof (cases "env_run ?clock ?ms P (length ?is) (machine_view s) (io_of s)")
    case (Running y e)
    obtain at xs p where y: "y = (at, xs, p)" by (cases y)
    obtain s2 where ex: "exec_from h 0 ?is s = (Inr (), s2)" and
      s2: "pc s2 = at" "regs s2 = xs" "pmem s2 = p" "io_of s2 = e" "pmem_size s2 = pmem_size s" "satp s2 = satp s"
      using d Running y by auto
    have same: "trace_cache s2 = trace_cache s" "executed_insts s2 = executed_insts s"
      using exec_from_outcome [OF shape wf i(1) ex] fence by simp_all
    have ok: "exec_inv s2" using safeD(1) [OF exec_from_safe [OF shape wf i(1), of 0] i(2)] ex by simp
    obtain st where st: "run_trace h J node s =
        (Inr (), s2\<lparr>executed_insts := executed_insts s + of_nat (length ?is), stats := st\<rparr>)"
      using start ex t same by (auto simp: bnd_def the_trace_def bump_stats_def)
    have "user_inv opts h J fuel B P K (s2\<lparr>executed_insts := executed_insts s + of_nat (length ?is), stats := st\<rparr>)"
      by (rule user_inv_moves [OF inv, where n = "length ?is"])
        (use Running y s2 same ok in \<open>simp_all add: machine_view_def exec_inv_def regs_ok_def mmu_ok_def\<close>)
    moreover have "at \<in> set (entries ?clock ?ms P (length ?is) (machine_view s) (io_of s))"
      using env_trace_entries [OF shape runs, of ?clock ?ms "(regs s, pmem s)" "io_of s"] Running y
      by (simp add: machine_view_def)
    ultimately show ?thesis
      using st Running y s2 B len(2) by (intro exI [of _ "length ?is"]) (simp add: advances_def)
  qed (use d start B len(2) count in \<open>auto simp: advances_def bnd_def intro!: exI [of _ "length ?is"]\<close>)
qed

lemma user_round:
  assumes inv: "user_inv opts h J fuel B P K s" and head: "pc s \<in> K"
  obtains (goes) n where "advances opts h J fuel B P K s n (Sim_step opts h J fuel riscv_decoder s)"
  | (overfull) c where "Sim_step opts h J fuel riscv_decoder s = (Inl overflow, s\<lparr>trace_cache := c\<rparr>)" "126 < card K"
  using assms
proof (cases rule: user_refer)
  case (found node t c st)
  let ?s1 = "s\<lparr>trace_cache := c, stats := st\<rparr>"
  have d: "LRUCache_deref (trace_cache ?s1) node = Inr t" using found(3) by simp
  obtain t' c' st' where tr: "try_translate opts J node ?s1 = (Inr (), ?s1\<lparr>trace_cache := c', stats := st'\<rparr>)"
    and inv2: "user_inv opts h J fuel B P K (?s1\<lparr>trace_cache := c', stats := st'\<rparr>)"
    and t': "LRUCache_deref c' node = Inr t'" "cached opts J fuel P (pc s) t'"
    by (rule user_try_translate [OF found(2) d found(4)])
  let ?s2 = "?s1\<lparr>trace_cache := c', stats := st'\<rparr>"
  have "LRUCache_deref (trace_cache ?s2) node = Inr t'" "cached opts J fuel P (pc ?s2) t'" using t' by simp_all
  note round = native_advances [OF inv2 this] interpreter_advances [OF inv2 this]
  obtain n where "advances opts h J fuel B P K ?s2 n (run_trace h J node ?s2)"
    using round by (cases "exec_trace t'") blast+
  then have "advances opts h J fuel B P K s n (run_trace h J node ?s2)"
    unfolding advances_def by (simp add: machine_view_def does_cong [of "s\<lparr>trace_cache := c', stats := st'\<rparr>" s])
  moreover have "Sim_step opts h J fuel riscv_decoder s = run_trace h J node ?s2"
    using found(1) tr by (simp add: Sim_step_def bnd_Inr Trace_execute_def)
  ultimately show thesis using goes by metis
next
  case (overfull c)
  then show thesis using that(2) [of c] by (simp add: Sim_step_def bnd_Inr bnd_Inl)
qed

section \<open>The main loop\<close>

text \<open>
  Between two rounds: some number of instructions of the program has brought the machine from
  where it started to where the simulator is, the simulator has counted them, and it is about to
  enter a trace.
\<close>

definition user_follows ::
  "Options \<Rightarrow> Host \<Rightarrow> Jit_Env \<Rightarrow> nat \<Rightarrow> nat \<Rightarrow> (u32 \<rightharpoonup> Inst) \<Rightarrow> nat \<Rightarrow> isa_state \<Rightarrow> Io \<Rightarrow> State \<Rightarrow> bool"
where
  "user_follows opts h J fuel B P mem_size st e s \<longleftrightarrow>
     (let j = unat (executed_insts s); K = heads (timeofday h) mem_size P j st e in
      user_inv opts h J fuel B P K s \<and> pc s \<in> K \<and> unat (pmem_size s) = mem_size \<and>
      env_run (timeofday h) mem_size P j st e = Running (machine_view s) (io_of s) \<and>
      (max_insts opts \<noteq> 0 \<longrightarrow> executed_insts s < max_insts opts))"

text \<open>
  The program has ended, by \<^verbatim>\<open>exit\<close> or at the end of the memory, within \<open>k\<close> instructions and in a trace that
  the simulator entered before the limit; its instructions are not counted.
\<close>

definition ended_in_trace :: "Options \<Rightarrow> nat \<Rightarrow> (nat \<Rightarrow> outcome) \<Rightarrow> nat \<Rightarrow> State \<Rightarrow> bool" where
  "ended_in_trace opts B run k s \<longleftrightarrow> is_running (run (unat (executed_insts s))) \<and>
     unat (executed_insts s) < k \<and> k \<le> unat (executed_insts s) + B \<and>
     (max_insts opts \<noteq> 0 \<longrightarrow> executed_insts s < max_insts opts)"

text \<open>
  The hash map of the trace cache has thrown before the limit: the machine is where the counted
  instructions have brought it, and on their way they have entered more than 126 traces.
\<close>

definition trace_cache_full :: "Options \<Rightarrow> clock \<Rightarrow> nat \<Rightarrow> (u32 \<rightharpoonup> Inst) \<Rightarrow> isa_state \<Rightarrow> Io \<Rightarrow> State \<Rightarrow> bool" where
  "trace_cache_full opts clock mem_size P st e s \<longleftrightarrow>
     env_run clock mem_size P (unat (executed_insts s)) st e = Running (machine_view s) (io_of s) \<and>
     126 < card (heads clock mem_size P (unat (executed_insts s)) st e) \<and>
     (max_insts opts \<noteq> 0 \<longrightarrow> executed_insts s < max_insts opts)"

text \<open>Within \<open>N\<close> instructions the limit is reached or the program has ended.\<close>

definition ends_within :: "Options \<Rightarrow> clock \<Rightarrow> nat \<Rightarrow> (u32 \<rightharpoonup> Inst) \<Rightarrow> isa_state \<Rightarrow> Io \<Rightarrow> nat \<Rightarrow> bool" where
  "ends_within opts clock mem_size P st e N \<longleftrightarrow>
     max_insts opts \<noteq> 0 \<and> unat (max_insts opts) \<le> N \<or> \<not> is_running (env_run clock mem_size P N st e)"

lemma running_before_end:
  assumes "ends_within opts clock ms P st e N" "is_running (env_run clock ms P j st e)"
    and "max_insts opts \<noteq> 0 \<Longrightarrow> j < unat (max_insts opts)"
  shows "j < N"
proof (rule ccontr)
  assume "\<not> j < N"
  with assms(1,3) have "\<not> is_running (env_run clock ms P N st e)" "N \<le> j" by (auto simp: ends_within_def)
  from env_run_ended [OF this] this assms(2) show False by simp
qed

lemma user_loop:
  assumes "user_follows opts h J fuel B P ms st e s" "unat (executed_insts s) < N"
    and "ends_within opts (timeofday h) ms P st e N" "N + B < 2 ^ 64" "N - unat (executed_insts s) \<le> n"
  defines "res \<equiv> Sim_loop n (Sim_step opts h J fuel riscv_decoder) (max_insts opts) s"
  shows "(\<exists>k < N + B. does s (\<lambda>a t. pc t = a \<and> executed_insts t = of_nat k \<and> max_insts opts \<noteq> 0 \<and> unat (max_insts opts) \<le> k) ()
        (env_run (timeofday h) ms P k st e) res \<and>
      (\<forall>e' t. res = (Inl e', t) \<longrightarrow> ended_in_trace opts B (\<lambda>k. env_run (timeofday h) ms P k st e) k t)) \<or>
    (\<exists>t. res = (Inl overflow, t) \<and> trace_cache_full opts (timeofday h) ms P st e t \<and> unat (executed_insts t) < N)"
  using assms(1-5) unfolding res_def
proof (induction n arbitrary: s)
  case 0
  then show ?case by simp
next
  case (Suc n)
  let ?step = "Sim_step opts h J fuel riscv_decoder" and ?run = "\<lambda>k. env_run (timeofday h) ms P k st e"
  let ?j = "unat (executed_insts s)" and ?heads = "\<lambda>k. heads (timeofday h) ms P k st e"
  have f: "user_inv opts h J fuel B P (?heads ?j) s" "pc s \<in> ?heads ?j" "unat (pmem_size s) = ms"
    "?run ?j = Running (machine_view s) (io_of s)" "max_insts opts \<noteq> 0 \<longrightarrow> executed_insts s < max_insts opts"
    using Suc.prems(1) by (simp_all add: user_follows_def Let_def)
  from f(1,2) show ?case
  proof (cases rule: user_round)
    case (overfull c)
    then have "Sim_loop (Suc n) ?step (max_insts opts) s = (Inl overflow, s\<lparr>trace_cache := c\<rparr>)"
      by (simp add: bnd_Inl)
    moreover have "trace_cache_full opts (timeofday h) ms P st e (s\<lparr>trace_cache := c\<rparr>)"
      using f(4,5) overfull(2) by (simp add: trace_cache_full_def machine_view_def)
    ultimately show ?thesis using Suc.prems(2) by simp
  next
    case (goes m)
    then have m: "0 < m" "m \<le> B" and d: "does s (\<lambda>a t. pc t = a \<and> user_inv opts h J fuel B P (?heads ?j) t \<and>
        executed_insts t = executed_insts s + of_nat m \<and>
        a \<in> set (entries (timeofday h) ms P m (machine_view s) (io_of s))) () (?run (?j + m)) (?step s)"
      and count: "\<And>e t. ?step s = (Inl e, t) \<Longrightarrow> executed_insts t = executed_insts s"
      using f(3,4) by (simp_all add: advances_def env_run_add)
    have k: "?j + m < N + B" using Suc.prems(2) m(2) by simp
    show ?thesis
    proof (cases "?run (?j + m)")
      case (Running y e')
      obtain at xs p where y: "y = (at, xs, p)" by (cases y)
      obtain t where t: "?step s = (Inr (), t)" "pc t = at" "regs t = xs" "pmem t = p" "io_of t = e'"
        "pmem_size t = pmem_size s" "satp t = satp s" "user_inv opts h J fuel B P (?heads ?j) t"
        "executed_insts t = executed_insts s + of_nat m"
        "at \<in> set (entries (timeofday h) ms P m (machine_view s) (io_of s))"
        using d Running y by auto
      have cnt: "unat (executed_insts t) = ?j + m" using t(9) k Suc.prems(4) by (simp add: unat_word_ariths unat_of_nat)
      show ?thesis
      proof (cases "max_insts opts \<noteq> 0 \<and> max_insts opts \<le> executed_insts t")
        case True
        then have "unat (max_insts opts) \<le> ?j + m" using cnt by (simp add: word_le_nat_alt)
        moreover have "executed_insts t = of_nat (?j + m)" using t(9) by simp
        ultimately show ?thesis
          using True t Running y k by (intro disjI1 exI [of _ "?j + m"] conjI k) (simp_all add: bnd_Inr)
      next
        case False
        have inv: "user_inv opts h J fuel B P (?heads (?j + m)) t"
          by (rule user_inv_mono [OF t(8)]) (simp_all add: heads_mono)
        have "at \<in> ?heads (?j + m)" by (rule heads_add [OF f(4) t(10)])
        then have fl: "user_follows opts h J fuel B P ms st e t"
          using t f(3) Running y cnt inv False by (auto simp: user_follows_def machine_view_def not_le)
        have "unat (executed_insts t) < N"
          by (rule running_before_end [OF Suc.prems(3)]) (use False Running cnt in \<open>auto simp: word_le_nat_alt\<close>)
        moreover have "N - unat (executed_insts t) \<le> n" using cnt m(1) Suc.prems(5) by simp
        moreover have "Sim_loop (Suc n) ?step (max_insts opts) s = Sim_loop n ?step (max_insts opts) t"
          using t(1) False by (auto simp: bnd_Inr)
        ultimately show ?thesis
          using Suc.IH [OF fl _ Suc.prems(3,4)] t(6,7) by (simp only: does_cong [of t s])
      qed
    next
      case (Finished x e')
      then obtain t where t: "?step s = (Inl finished, t)" using d by (cases x) auto
      then have "ended_in_trace opts B ?run (?j + m) t"
        using count [OF t] f(4,5) m by (simp add: ended_in_trace_def)
      with t d Finished k show ?thesis
        by (intro disjI1 exI [of _ "?j + m"] conjI k) (cases x, simp_all add: bnd_Inl)
    next
      case (Faulted x e')
      then obtain t where t: "?step s = (Inl out_of_memory, t)" using d by (cases x) auto
      then have "ended_in_trace opts B ?run (?j + m) t"
        using count [OF t] f(4,5) m by (simp add: ended_in_trace_def)
      with t d Faulted k show ?thesis
        by (intro disjI1 exI [of _ "?j + m"] conjI k) (cases x, simp_all add: bnd_Inl)
    qed
  qed
qed

section \<open>The simulator as a whole\<close>

text \<open>
  The state that the simulator leaves behind, for the outcome of \<open>k\<close> instructions: of a program that was
  still running it is the whole machine, and of one that has ended, or has run out of the memory, all
  but the program counter.
\<close>

definition final_state :: "nat \<Rightarrow> outcome \<Rightarrow> State \<Rightarrow> bool" where
  "final_state k out s \<longleftrightarrow> (case out of
     Running st e \<Rightarrow> machine_view s = st \<and> io_of s = e \<and> executed_insts s = of_nat k
   | Finished (xs, mem) e \<Rightarrow> regs s = xs \<and> pmem s = mem \<and> io_of s = e
   | Faulted (xs, mem) e \<Rightarrow> regs s = xs \<and> pmem s = mem \<and> io_of s = e)"

text \<open>What the log says about how the program ended.\<close>

definition last_words :: "outcome \<Rightarrow> string" where
  "last_words out = (case out of
     Running st e \<Rightarrow> []
   | Finished x e \<Rightarrow> ''Successfully finished!'' @ [CHR 0x0A, CHR 0x0A]
   | Faulted x e \<Rightarrow> ''Address is out of memory'' @ [CHR 0x0A])"

text \<open>
  How \<^verbatim>\<open>execute\<close> ends: at the limit or with the program, in the final state, which the log reports,
  followed by the statistics.
\<close>

definition ends_as :: "Options \<Rightarrow> Jit_Env \<Rightarrow> nat \<Rightarrow> (nat \<Rightarrow> outcome) \<Rightarrow> nat \<Rightarrow> State \<Rightarrow> bool" where
  "ends_as opts J B run k s \<longleftrightarrow> final_state k (run k) s \<and>
     (if is_running (run k) then max_insts opts \<noteq> 0 \<and> unat (max_insts opts) \<le> k
      else ended_in_trace opts B run k s) \<and>
     (\<exists>before. log_text s = before @ last_words (run k) @ State_dump s @ ''Some statistics:'' @ [CHR 0x0A] @
        time_line J (executed_insts s) @ PrintStatistics (stats s))"

lemma log_same:
  "State_dump (s\<lparr>log_text := t\<rparr>) = State_dump s" "machine_view (s\<lparr>log_text := t\<rparr>) = machine_view s"
  "ended_in_trace opts B run k (s\<lparr>log_text := t\<rparr>) = ended_in_trace opts B run k s"
  by (simp_all add: State_dump_def machine_view_def ended_in_trace_def)

lemma user_execute:
  assumes "user_follows opts h J fuel B P ms st e s" "executed_insts s = 0" "0 < N"
    and "ends_within opts (timeofday h) ms P st e N" "N + B < 2 ^ 64" "N \<le> n"
  shows "(\<exists>k s'. Sim_execute n opts h J fuel riscv_decoder s = (Inr (), s') \<and> k < N + B \<and>
      ends_as opts J B (\<lambda>k. env_run (timeofday h) ms P k st e) k s') \<or>
    (\<exists>s'. Sim_execute n opts h J fuel riscv_decoder s = (Inl overflow, s') \<and>
      trace_cache_full opts (timeofday h) ms P st e s' \<and> unat (executed_insts s') < N)"
proof -
  let ?loop = "Sim_loop n (Sim_step opts h J fuel riscv_decoder) (max_insts opts)"
    and ?run = "\<lambda>k. env_run (timeofday h) ms P k st e"
  note defs = Sim_execute_def bnd_def catch_sim_def print_log_def log_same ends_as_def final_state_def last_words_def
  have "unat (executed_insts s) < N" "N - unat (executed_insts s) \<le> n" using assms(2,3,6) by simp_all
  from user_loop [OF assms(1) this(1) assms(4,5) this(2)] show ?thesis
  proof (elim disjE exE conjE)
    fix t assume "?loop s = (Inl overflow, t)" "trace_cache_full opts (timeofday h) ms P st e t"
      "unat (executed_insts t) < N"
    then show ?thesis by (intro disjI2) (simp add: Sim_execute_def bnd_def catch_sim_def)
  next
    fix k assume k: "k < N + B" and d: "does s (\<lambda>a t. pc t = a \<and> executed_insts t = of_nat k \<and>
        max_insts opts \<noteq> 0 \<and> unat (max_insts opts) \<le> k) () (?run k) (?loop s)"
      and ended: "\<forall>e' t. ?loop s = (Inl e', t) \<longrightarrow> ended_in_trace opts B ?run k t"
    show ?thesis
    proof (intro disjI1, cases "?run k")
      case (Running y e')
      with d show "\<exists>k s'. Sim_execute n opts h J fuel riscv_decoder s = (Inr (), s') \<and> k < N + B \<and> ends_as opts J B ?run k s'"
        by (cases y) (auto simp: defs machine_view_def intro!: exI [of _ k] k)
    next
      case (Finished x e')
      with d ended show "\<exists>k s'. Sim_execute n opts h J fuel riscv_decoder s = (Inr (), s') \<and> k < N + B \<and> ends_as opts J B ?run k s'"
        by (cases x) (auto simp: defs finished_def intro!: exI [of _ k] k)
    next
      case (Faulted x e')
      with d ended show "\<exists>k s'. Sim_execute n opts h J fuel riscv_decoder s = (Inr (), s') \<and> k < N + B \<and> ends_as opts J B ?run k s'"
        by (cases x) (auto simp: defs intro!: exI [of _ k] k)
    qed
  qed
qed

lemma State_ctor_frame:
  assumes "State_ctor cmds vas start s0 = (Inr (), s)"
  shows "trace_cache s = trace_cache s0" "io_of s = io_of s0"
proof -
  obtain v where ld: "load_segments 0 cmds vas
      (set_reg 2 v (s0\<lparr>pc := start, executed_insts := 0, regs := replicate 32 0\<rparr>)) = (Inr (), s)"
    using assms by (simp add: State_ctor_def bnd_Inr)
  then show "trace_cache s = trace_cache s0" "io_of s = io_of s0"
    using framesD [OF load_segments_frame ld] by (auto simp: load_step_def io_of_def)
qed

lemma user_start:
  assumes "State_ctor cmds vas start s0 = (Inr (), s)" and "fresh default_options s0"
    and "user_program h P" and "user_stays (timeofday h) 0x80000 P (machine_view s) (io_of s)" and "host_ok h"
    and "0x20000 \<le> fuel" and "jit_ready opts J fuel P"
    and "jit opts \<or> B < fuel \<Longrightarrow> rounds_bounded (timeofday h) 0x80000 B P (machine_view s) (io_of s)"
  shows "user_follows opts h J fuel B P 0x80000 (machine_view s) (io_of s) s \<and> executed_insts s = 0"
proof -
  note st = State_ctor_ok [OF assms(1,2)]
  have ms: "unat (pmem_size s) = 0x80000" using st by (simp add: default_options_def pagesize_def)
  have "trace_cache s = LRUCache_ctor 256"
    using State_ctor_frame [OF assms(1)] assms(2) by (simp add: fresh_def default_options_def)
  then have "user_cache opts J fuel P (heads (timeofday h) 0x80000 P 0 (machine_view s) (io_of s)) (trace_cache s)"
    by (simp add: user_cache_def cache_within_def)
  with st ms assms(3-8) have "user_inv opts h J fuel B P (heads (timeofday h) 0x80000 P 0 (machine_view s) (io_of s)) s"
    by (simp add: user_inv_def sim_inv_def default_options_def)
  moreover have "pc s \<in> heads (timeofday h) 0x80000 P 0 (machine_view s) (io_of s)"
    by (simp add: heads_def machine_view_def)
  ultimately show ?thesis
    using ms st by (simp add: user_follows_def default_options_def word_neq_0_conv)
qed

text \<open>From the loaded program to the end of \<^verbatim>\<open>execute\<close>.\<close>

lemma simulation_runs:
  assumes load: "State_ctor cmds vas start s0 = (Inr (), s)" "fresh default_options s0"
    and program: "user_program h P" "user_stays (timeofday h) 0x80000 P (machine_view s) (io_of s)"
    and host: "host_ok h" and fuel: "0x20000 \<le> fuel" and native: "jit_ready opts J fuel P"
    and bound: "jit opts \<or> B < fuel \<Longrightarrow> rounds_bounded (timeofday h) 0x80000 B P (machine_view s) (io_of s)"
    and ends: "0 < N" "ends_within opts (timeofday h) 0x80000 P (machine_view s) (io_of s) N" "N + B < 2 ^ 64" "N \<le> n"
  shows "(\<exists>k s'. Sim_execute n opts h J fuel riscv_decoder s = (Inr (), s') \<and> k < N + B \<and>
      ends_as opts J B (\<lambda>k. env_run (timeofday h) 0x80000 P k (machine_view s) (io_of s)) k s') \<or>
    (\<exists>s'. Sim_execute n opts h J fuel riscv_decoder s = (Inl overflow, s') \<and>
      trace_cache_full opts (timeofday h) 0x80000 P (machine_view s) (io_of s) s' \<and> unat (executed_insts s') < N)"
proof -
  note start = user_start [OF load program host fuel native bound]
  show ?thesis by (rule user_execute [OF conjunct1 [OF start] conjunct2 [OF start] ends])
qed

end
