(* ===== verification/Refinement.thy ===== *)
theory Refinement
  imports User_Refinement Elf_Reader
begin

text \<open>
  Programs that do not use their environment: with the interpreter and without address translation,
  such a program runs, through fetching, decoding, the trace cache and the chains of handlers, exactly
  as the instruction set says, instruction by instruction.
\<close>

section \<open>Programs without system calls\<close>

text \<open>
  What is asked of a program: its instructions are legal, in the interpreter's conforming part and
  not \<^verbatim>\<open>FENCE\<close>, and it never falls off its end.
\<close>

definition program_ok :: "Host \<Rightarrow> (u32 \<rightharpoonup> Inst) \<Rightarrow> bool" where
  "program_ok h P \<longleftrightarrow> (\<forall>a i. P a = Some i \<longrightarrow> legal_inst i \<and> conforming h i \<and> inst_cmd i \<noteq> Cmd_FENCE \<and>
     (\<not> terminator (inst_cmd i) \<longrightarrow> a + 4 \<in> dom P))"

text \<open>The run stays inside the program and does not overwrite it.\<close>

definition stays_in :: "(u32 \<rightharpoonup> Inst) \<Rightarrow> nat \<Rightarrow> isa_state \<Rightarrow> bool" where
  "stays_in P mem_size st \<longleftrightarrow> (\<forall>n at xs mem. isa_run P mem_size n st = Some (at, xs, mem) \<longrightarrow>
     at \<in> dom P \<and> text_in P mem_size mem)"

lemma stays_in_run: "stays_in P ms st \<Longrightarrow> isa_run P ms n st = Some st' \<Longrightarrow> stays_in P ms st'"
  unfolding stays_in_def by (metis bind.bind_lunit isa_run_add)

lemma program_ok_user:
  assumes "program_ok h P"
  shows "user_program h P" "P a = Some i \<Longrightarrow> inst_cmd i \<noteq> Cmd_ECALL"
  using assms by (auto simp: program_ok_def user_program_def user_conforming_def conforming_def rv32im_def)

lemma program_ok_run:
  assumes "program_ok h P"
  shows "isa_run P ms n st = Some st' \<Longrightarrow> env_run clock ms P n st e = Running st' e"
    and "isa_run P ms n st = None \<Longrightarrow> \<exists>k < n. \<exists>at x. isa_run P ms k st = Some (at, x) \<and>
      isa_run P ms (Suc k) st = None \<and> env_run clock ms P n st e = Faulted x e"
  using env_run_isa program_ok_user(2) [OF assms] by metis+

lemma program_ok_running:
  assumes P: "program_ok h P" and run: "env_run clock ms P n st e = Running st' e'"
  shows "isa_run P ms n st = Some st'"
proof (cases "isa_run P ms n st")
  case None
  with program_ok_run(2) [OF P None, of clock e] run show ?thesis by auto
next
  case (Some st2)
  with program_ok_run(1) [OF P Some, of clock e] run show ?thesis by simp
qed

lemma stays_in_user:
  assumes P: "program_ok h P" and stays: "stays_in P ms st"
  shows "user_stays clock ms P st e"
  using stays program_ok_running [OF P] unfolding user_stays_def stays_in_def by blast

text \<open>How the simulator ends with such a program, in the terms of the instruction set.\<close>

lemma ends_as_isa:
  assumes P: "program_ok h P" and limit: "max_insts opts \<noteq> 0"
    and e: "ends_as opts J B (\<lambda>k. env_run clock ms P k st e) k s'"
  shows "isa_run P ms k st = Some (machine_view s') \<and> executed_insts s' = of_nat k \<and> unat (max_insts opts) \<le> k \<or>
    (\<exists>k at. isa_run P ms k st = Some (at, regs s', pmem s') \<and> isa_run P ms (Suc k) st = None \<and>
      executed_insts s' < max_insts opts \<and> unat (executed_insts s') \<le> k \<and> k < unat (executed_insts s') + B)"
proof (cases "isa_run P ms k st")
  case (Some st')
  with program_ok_run(1) [OF P Some, of clock e] e show ?thesis
    by (auto simp: ends_as_def final_state_def)
next
  case None
  let ?j = "unat (executed_insts s')"
  from program_ok_run(2) [OF P None, of clock e] obtain k0 at x where k0: "k0 < k" "isa_run P ms k0 st = Some (at, x)"
    "isa_run P ms (Suc k0) st = None" and out: "env_run clock ms P k st e = Faulted x e" by blast
  have j: "is_running (env_run clock ms P ?j st e)" "k \<le> ?j + B" "executed_insts s' < max_insts opts"
    and x: "x = (regs s', pmem s')"
    using e limit out by (cases x, auto simp: ends_as_def final_state_def ended_in_trace_def)+
  obtain st2 e2 where "env_run clock ms P ?j st e = Running st2 e2"
    using j(1) by (cases "env_run clock ms P ?j st e") simp_all
  from program_ok_running [OF P this] have "isa_run P ms ?j st \<noteq> None" by simp
  then have "?j \<le> k0" using isa_run_faulted [OF k0(3), of ?j] by (cases "?j \<le> k0") simp_all
  moreover have "k0 < ?j + B" using k0(1) j(2) by simp
  ultimately show ?thesis using k0(2,3) x j(3) by blast
qed

lemma trace_cache_full_isa:
  assumes P: "program_ok h P" and limit: "max_insts opts \<noteq> 0" and f: "trace_cache_full opts clock ms P st e s'"
  shows "isa_run P ms (unat (executed_insts s')) st = Some (machine_view s') \<and> executed_insts s' < max_insts opts \<and>
    126 < card (heads clock ms P (unat (executed_insts s')) st e)"
  using f limit program_ok_running [OF P] unfolding trace_cache_full_def by blast

lemma simulation_refines:
  assumes "State_ctor cmds vas start s0 = (Inr (), s)"
    and "program_ok h P" and "stays_in P 0x80000 (machine_view s)" and "host_ok h" and "\<not> jit opts"
    and "0x20000 \<le> fuel" and "0 < max_insts opts" and "unat (max_insts opts) + fuel < 2 ^ 64"
    and "unat (max_insts opts) \<le> n" and "fresh default_options s0"
  shows "(\<exists>s'. Sim_execute n opts h J fuel riscv_decoder s = (Inr (), s') \<and>
      ((\<exists>k. isa_run P 0x80000 k (machine_view s) = Some (machine_view s') \<and>
          executed_insts s' = of_nat k \<and> unat (max_insts opts) \<le> k \<and> k < unat (max_insts opts) + fuel) \<or>
       (\<exists>k at. isa_run P 0x80000 k (machine_view s) = Some (at, regs s', pmem s') \<and>
          isa_run P 0x80000 (Suc k) (machine_view s) = None \<and> executed_insts s' < max_insts opts \<and>
          unat (executed_insts s') \<le> k \<and> k < unat (executed_insts s') + fuel))) \<or>
    (\<exists>s'. Sim_execute n opts h J fuel riscv_decoder s = (Inl overflow, s') \<and>
      isa_run P 0x80000 (unat (executed_insts s')) (machine_view s) = Some (machine_view s') \<and>
      executed_insts s' < max_insts opts \<and>
      126 < card (heads (timeofday h) 0x80000 P (unat (executed_insts s')) (machine_view s) (io_of s)))"
proof -
  let ?N = "unat (max_insts opts)" and ?st = "machine_view s"
  have limit: "max_insts opts \<noteq> 0" using assms(7) by auto
  have "(\<exists>k s'. Sim_execute n opts h J fuel riscv_decoder s = (Inr (), s') \<and> k < ?N + fuel \<and>
      ends_as opts J fuel (\<lambda>k. env_run (timeofday h) 0x80000 P k ?st (io_of s)) k s') \<or>
    (\<exists>s'. Sim_execute n opts h J fuel riscv_decoder s = (Inl overflow, s') \<and>
      trace_cache_full opts (timeofday h) 0x80000 P ?st (io_of s) s' \<and> unat (executed_insts s') < ?N)"
    by (rule simulation_runs [OF assms(1,10) program_ok_user(1) [OF assms(2)] stays_in_user [OF assms(2,3)] assms(4,6)])
      (use assms in \<open>auto simp: jit_ready_def ends_within_def word_less_nat_alt\<close>)
  then show ?thesis
  proof (elim disjE exE conjE)
    fix k s' assume x: "Sim_execute n opts h J fuel riscv_decoder s = (Inr (), s')" "k < ?N + fuel"
      "ends_as opts J fuel (\<lambda>k. env_run (timeofday h) 0x80000 P k ?st (io_of s)) k s'"
    from ends_as_isa [OF assms(2) limit x(3)] x(1,2) show ?thesis by blast
  next
    fix s' assume x: "Sim_execute n opts h J fuel riscv_decoder s = (Inl overflow, s')"
      "trace_cache_full opts (timeofday h) 0x80000 P ?st (io_of s) s'"
    from trace_cache_full_isa [OF assms(2) limit x(2)] x(1) show ?thesis by blast
  qed
qed

section \<open>The properties\<close>

text \<open>C3: The simulator, with the interpreter, refines the instruction set. A program is loaded into the memory; while it
  runs it stays in its text, does not overwrite it, and its instructions are in the interpreter's conforming
  part. Then the main loop ends in one of three ways. At the limit: the registers, the memory and the program
  counter are those that the instruction set gives after \<open>k\<close> instructions, where \<open>k\<close> is the number the
  simulator has counted, at least the limit and less than a trace more. At the end of the memory: an instruction before the limit accesses
  bytes outside the memory, and the registers and the memory are those before that instruction; the traces executed
  before it are counted. Or with the overflow error of the hash map of the trace cache, before the limit: the machine is
  where the counted instructions lead, and they have entered more than 126 different traces.\<close>

theorem simulation_refines_isa:
  assumes "State_ctor cmds vas start (static_state default_options garbage input) = (Inr (), s)"
    and "program_ok h P" and "stays_in P 0x80000 (machine_view s)" and "host_ok h" and "\<not> jit opts"
    and "0x20000 \<le> fuel" and "0 < max_insts opts" and "unat (max_insts opts) + fuel < 2 ^ 64"
    and "unat (max_insts opts) \<le> n"
  shows "(\<exists>s'. Sim_execute n opts h J fuel riscv_decoder s = (Inr (), s') \<and>
      ((\<exists>k. isa_run P 0x80000 k (machine_view s) = Some (machine_view s') \<and>
          executed_insts s' = of_nat k \<and> unat (max_insts opts) \<le> k \<and> k < unat (max_insts opts) + fuel) \<or>
       (\<exists>k at. isa_run P 0x80000 k (machine_view s) = Some (at, regs s', pmem s') \<and>
          isa_run P 0x80000 (Suc k) (machine_view s) = None \<and> executed_insts s' < max_insts opts \<and>
          unat (executed_insts s') \<le> k \<and> k < unat (executed_insts s') + fuel))) \<or>
    (\<exists>s'. Sim_execute n opts h J fuel riscv_decoder s = (Inl overflow, s') \<and>
      isa_run P 0x80000 (unat (executed_insts s')) (machine_view s) = Some (machine_view s') \<and>
      executed_insts s' < max_insts opts \<and>
      126 < card (heads (timeofday h) 0x80000 P (unat (executed_insts s')) (machine_view s) (io_of s)))"
  by (rule simulation_refines [OF assms fresh_static])

text \<open>The program that jumps to itself, at address 64.\<close>

definition spin :: "u32 \<rightharpoonup> Inst" where
  "spin = [64 \<mapsto> inst_of Cmd_JAL 0 0 0 0]"

lemma spin_inst:
  "legal_inst (inst_of Cmd_JAL 0 0 0 0)" "encode (inst_of Cmd_JAL 0 0 0 0) = 0x6f"
  "conforming x86_host (inst_of Cmd_JAL 0 0 0 0)" "terminator Cmd_JAL"
  by (simp_all add: legal_inst_def encode_def cmd_format_by_opcode enc_J_def field_def signed_imm_def Let_def
      conforming_def rv32im_def terminator_def)

lemma spin_run: "isa_run spin ms n (64, xs, mem) = Some (64, xs, mem)"
  by (induction n)
    (simp_all add: spin_def isa_step_def alu_op_def branch_op_def load_op_def store_op_def isa_write_def)

lemma spin_program: "program_ok x86_host spin"
  by (simp add: program_ok_def spin_def spin_inst)

text \<open>It enters one trace only.\<close>

lemma spin_env: "env_run clock ms spin n (64, x) e = Running (64, x) e"
  using program_ok_run(1) [OF spin_program] spin_run by (metis prod.collapse)

lemma spin_heads: "card (heads clock ms spin n (64, x) e) \<le> 1"
proof -
  have "set (entries clock ms spin n (64, x) e) \<subseteq> {64}"
  proof (induction n)
    case (Suc n)
    have "env_run clock ms spin 1 (64, x) e = Running (64, x) e" by (rule spin_env)
    with Suc show ?case by (auto simp: spin_def split: outcome.splits)
  qed simp
  then have "heads clock ms spin n (64, x) e \<subseteq> {64}" by (simp add: heads_def)
  then show ?thesis using card_mono [of "{64 :: u32}"] by fastforce
qed

text \<open>The state after loading it.\<close>

definition spin_state :: State where
  "spin_state = snd (State_ctor [[0x6f]] [64] 64 (static_state default_options (\<lambda>_. 0) []))"

lemma spin_loaded: "State_ctor [[0x6f]] [64] 64 (static_state default_options (\<lambda>_. 0) []) = (Inr (), spin_state)"
proof -
  have "pmem_size (static_state default_options (\<lambda>_. 0) []) = 0x80000"
    by (simp add: static_state_simps default_options_def pagesize_def)
  then show ?thesis
    by (simp add: spin_state_def State_ctor_def bnd_Inr load_segments.simps getMemPtr_def
        bnd_def [of "getMemPtr 1 64"])
qed

lemma spin_state_pc: "pc spin_state = 64"
  using State_ctor_ok [OF spin_loaded fresh_static] by (simp add: default_options_def)

lemma spin_stays:
  assumes "pc s = 64" "le_join (read_bytes 64 4 (pmem s)) = (0x6f :: u32)"
  shows "stays_in spin 0x80000 (machine_view s)"
  using assms by (simp add: stays_in_def machine_view_def spin_run) (simp add: spin_def text_in_def spin_inst)

lemma spin_ok: "program_ok x86_host spin" "stays_in spin 0x80000 (machine_view spin_state)"
proof -
  obtain s1 where "load_segments 0 [[0x6f]] [64] s1 = (Inr (), spin_state)"
    using spin_loaded by (auto simp: State_ctor_def bnd_Inr simp del: load_segments.simps)
  from load_segments_memory [OF this, of 0] have "le_join (read_bytes 64 4 (pmem spin_state)) = (0x6f :: u32)"
    by (simp add: le_join_split)
  then show "stays_in spin 0x80000 (machine_view spin_state)" by (rule spin_stays [OF spin_state_pc])
qed (rule spin_program)

theorem simulation_refines_isa_witness:
  "\<forall>J. \<exists>s'. Sim_execute 2000000 default_options x86_host J 0x20000 riscv_decoder spin_state = (Inr (), s') \<and>
    pc s' = 64 \<and> (\<exists>k. executed_insts s' = of_nat k \<and> 2000000 \<le> k)"
proof
  fix J
  have view: "machine_view spin_state = (64, regs spin_state, pmem spin_state)"
    by (simp add: machine_view_def spin_state_pc)
  have "\<not> 126 < card (heads clock 0x80000 spin k (machine_view spin_state) e)" for clock k e
    using spin_heads [of clock "0x80000" k "(regs spin_state, pmem spin_state)" e] by (simp add: view)
  moreover have "isa_run spin ms k (machine_view spin_state) = Some (machine_view spin_state)" for ms k
    by (simp add: view spin_run)
  ultimately obtain s' k where "Sim_execute 2000000 default_options x86_host J 0x20000 riscv_decoder spin_state = (Inr (), s')"
    "machine_view s' = machine_view spin_state" "executed_insts s' = of_nat k" "2000000 \<le> k"
    using simulation_refines_isa [OF spin_loaded spin_ok x86_host_ok(2), where opts = default_options
        and fuel = "0x20000" and n = "2000000" and J = J]
    by (auto simp: default_options_def)
  then show "\<exists>s'. Sim_execute 2000000 default_options x86_host J 0x20000 riscv_decoder spin_state = (Inr (), s') \<and>
    pc s' = 64 \<and> (\<exists>k. executed_insts s' = of_nat k \<and> 2000000 \<le> k)"
    by (auto simp: view machine_view_def [of s'])
qed

end
