(* ===== verification/Native_Refinement.thy ===== *)
theory Native_Refinement
  imports Refinement
begin

text \<open>
  Programs that do not use their environment, with the translator switched on: traces are interpreted
  until they are translated and run on the host from then on. The theory also has a host that runs
  emitted code.
\<close>

section \<open>Traces that end\<close>








section \<open>The property\<close>


section \<open>A host\<close>












end
