(* ===== verification/Echo_Program.thy ===== *)
theory Echo_Program
  imports User_Program Elf_Reader
begin

text \<open>
  An example of a program with system calls: it reads a byte from standard input, writes it to standard
  output and exits. The theory follows its run, and loads it from an ELF file.
\<close>

section \<open>The program\<close>

definition echo_code :: "Inst list" where
  "echo_code =
     [inst_of Cmd_ADDI 17 0 0 63, inst_of Cmd_ADDI 11 0 0 1024, inst_of Cmd_ADDI 12 0 0 1, inst_of Cmd_ECALL 0 0 0 0,
      inst_of Cmd_ADDI 17 0 0 64, inst_of Cmd_ECALL 0 0 0 0,
      inst_of Cmd_ADDI 17 0 0 93, inst_of Cmd_ECALL 0 0 0 0, inst_of Cmd_JAL 0 0 0 0]"

definition echo :: "u32 \<rightharpoonup> Inst" where
  "echo = map_of (zip [64, 68, 72, 76, 80, 84, 88, 92, 96] echo_code)"

definition echo_words :: "u32 list" where
  "echo_words = [0x3f00893, 0x40000593, 0x100613, 0x73, 0x4000893, 0x73, 0x5d00893, 0x73, 0x6f]"

lemma echo_encode: "map encode echo_code = echo_words"
  by code_simp

lemma echo_legal: "list_all legal_inst echo_code"
  by code_simp

lemma echo_conforming: "list_all (user_conforming h) echo_code"
  by (simp add: echo_code_def user_conforming_def conforming_def rv32im_def)

lemma echo_program: "user_program h echo"
proof -
  have "\<forall>a i. echo a = Some i \<longrightarrow> i \<in> set echo_code \<and> (\<not> terminator (inst_cmd i) \<longrightarrow> a + 4 \<in> dom echo)"
    by (auto simp: echo_def echo_code_def terminator_def split: if_splits)
  with echo_legal echo_conforming [of h] show ?thesis unfolding user_program_def list_all_iff by blast
qed

section \<open>Its run\<close>

text \<open>The words of the program are in the memory.\<close>

definition echo_in :: "(nat \<Rightarrow> u8) \<Rightarrow> bool" where
  "echo_in mem \<longleftrightarrow> (\<forall>k < 9. le_join (read_bytes (64 + 4 * k) 4 mem) = echo_words ! k)"

lemma echo_text:
  assumes "echo_in mem"
  shows "text_in echo 0x80000 mem"
proof -
  have len: "length echo_code = 9" by (simp add: echo_code_def)
  then have "encode (echo_code ! k) = echo_words ! k" if "k < 9" for k
    using that by (simp add: echo_encode [symmetric])
  with assms have m: "\<forall>k < 9. encode (echo_code ! k) = le_join (read_bytes (64 + 4 * k) 4 mem)" by (simp add: echo_in_def)
  have "\<exists>k < 9. unat a = 64 + 4 * k \<and> i = echo_code ! k" if "echo a = Some i" for a i
    using that by (auto simp: echo_def echo_code_def split: if_splits)
  with m show ?thesis unfolding text_in_def by fastforce
qed

lemma echo_buffer: "echo_in mem \<Longrightarrow> echo_in (write_bytes 1024 [b] mem)"
  by (simp add: echo_in_def read_write_disjoint disjoint_bytes_def)

lemma read_byte: "read_bytes p (Suc 0) (write_bytes p [b] mem) = [b]"
  using read_write_same [of "[b]" 1 p mem] by simp

lemma user_stays_unfold:
  "user_stays clock ms P (at, xs, mem) e \<longleftrightarrow> text_in P ms mem \<and> (case P at of
     None \<Rightarrow> False
   | Some i \<Rightarrow> (case env_step clock ms i at (xs, mem) e of Running st' e' \<Rightarrow> user_stays clock ms P st' e' | done \<Rightarrow> True))"
  (is "?stays \<longleftrightarrow> ?step")
proof
  assume s: ?stays
  have "user_stays clock ms P st' e'" if "P at = Some i" "env_step clock ms i at (xs, mem) e = Running st' e'" for i st' e'
    using that by (intro user_stays_run [OF s, of "Suc 0"]) simp
  with user_stays_here [OF s] show ?step by (auto split: outcome.split)
next
  assume s: ?step
  show ?stays
    unfolding user_stays_def
  proof (intro allI impI)
    fix n a ys m e' assume r: "env_run clock ms P n (at, xs, mem) e = Running (a, ys, m) e'"
    then show "a \<in> dom P \<and> text_in P ms m"
      using s by (cases n) (auto simp: user_stays_def split: option.splits outcome.splits, blast+)
  qed
qed

lemmas echo_step = env_step_def isa_step_def alu_op_def branch_op_def load_op_def store_op_def isa_write_def
  serve_def serve_read_def serve_write_def room_def cmd_format_by_opcode Let_def

text \<open>From the first instruction to the call of \<^verbatim>\<open>exit\<close>, with the byte \<open>b\<close> on standard input.\<close>

lemma echo_run:
  assumes "length xs = 32" "xs ! 0 = 0" "io_in e = b # bs"
  shows "\<exists>ys. env_run clock 0x80000 echo 8 (64, xs, mem) e =
    Finished (ys, write_bytes 1024 [b] mem) (e\<lparr>io_in := bs, io_out := io_out e @ [b]\<rparr>)"
proof -
  have eight: "8 = Suc (Suc (Suc (Suc (Suc (Suc (Suc (Suc 0)))))))" by simp
  show ?thesis
    unfolding eight using assms
    by (simp add: echo_def echo_code_def echo_step read_byte)
qed

text \<open>It stays in its text, which the byte in the buffer does not touch.\<close>

lemma echo_stays:
  assumes "length xs = 32" "xs ! 0 = 0" "io_in e = b # bs" "echo_in mem"
  shows "user_stays clock 0x80000 echo (64, xs, mem) e"
  using assms echo_text [OF assms(4)] echo_text [OF echo_buffer [OF assms(4)]]
  by (simp add: user_stays_unfold echo_def echo_code_def echo_step read_byte)

section \<open>Loading it\<close>

text \<open>An ELF file with the program as its only segment, of 36 bytes at address 64.\<close>

definition echo_elf :: Elf_Env where
  "echo_elf = \<lparr>env_version_ok = True, env_open = \<lambda>_. 3, env_begin = \<lambda>_. True, env_is_elf = \<lambda>_. True,
     env_getehdr = \<lambda>_. Some \<lparr>e_machine = 243, ei_class = 1, e_entry = 64\<rparr>, env_getphdrnum = \<lambda>_. Some 1,
     env_getphdr = \<lambda>_ _. Some \<lparr>p_offset = 52, p_vaddr = 64, p_filesz = 36, p_memsz = 36\<rparr>,
     env_lseek = \<lambda>_ off. off, env_read = \<lambda>_ _ _. Some (words_bytes echo_words)\<rparr>"

definition echo_segment :: "u32 list" where
  "echo_segment = bytes_words 36 (words_bytes echo_words)"

lemma length_echo_words: "length echo_words = 9"
  by (simp add: echo_words_def)

lemma echo_elf_loads:
  "\<exists>er. rbind (Elf_reader_init echo_elf f Elf_reader_ctor) (Elf_reader_load echo_elf) = Inr (([echo_segment], [64], 64), er)"
  by (simp add: Elf_reader_init_def Elf_reader_load_def Elf_reader_clear_def echo_elf_def Elf_reader_ctor_def
      load_segment_def Let_def EM_RISCV_def ELFCLASS32_def length_echo_words echo_segment_def)

lemma read_bytes_part: "k + n \<le> m \<Longrightarrow> read_bytes (p + k) n mem = take n (drop k (read_bytes p m mem))"
  by (rule nth_equalityI) (auto simp: read_bytes_def add.assoc)

lemma words_bytes_part: "k < length ws \<Longrightarrow> take 4 (drop (4 * k) (words_bytes ws @ bs)) = le_split 4 (ws ! k)"
proof (induction ws arbitrary: k)
  case (Cons w ws)
  then show ?case by (cases k) (simp_all add: words_bytes_Cons)
qed simp

lemma echo_loaded:
  assumes "pmem_size s0 = 0x80000"
  obtains s where "State_ctor [echo_segment] [64] 64 s0 = (Inr (), s)" "echo_in (pmem s)" "pc s = 64"
    "length (regs s) = 32" "regs s ! 0 = 0" "io_of s = io_of s0"
proof -
  have len: "length echo_segment = 36" by (simp add: echo_segment_def)
  then obtain s where load: "State_ctor [echo_segment] [64] 64 s0 = (Inr (), s)"
    using assms by (simp add: State_ctor_def bnd_Inr load_segments.simps getMemPtr_def bnd_def [of "getMemPtr 1 64"])
  then obtain v where ld: "load_segments 0 [echo_segment] [64]
      (set_reg 2 v (s0\<lparr>pc := 64, executed_insts := 0, regs := replicate 32 0\<rparr>)) = (Inr (), s)"
    by (auto simp: State_ctor_def bnd_Inr simp del: load_segments.simps)
  have "read_bytes 64 144 (pmem s) = words_bytes echo_segment"
    using load_segments_memory [OF ld, of 0] by (simp add: len)
  also have "\<dots> = words_bytes echo_words @ replicate 108 0"
    using bytes_words_bytes [of "words_bytes echo_words" 36] by (simp add: echo_segment_def length_echo_words)
  finally have mem: "read_bytes 64 144 (pmem s) = words_bytes echo_words @ replicate 108 0" .
  have "le_join (read_bytes (64 + 4 * k) 4 (pmem s)) = echo_words ! k" if "k < 9" for k
  proof -
    have "read_bytes (64 + 4 * k) 4 (pmem s) = take 4 (drop (4 * k) (read_bytes 64 144 (pmem s)))"
      using that by (intro read_bytes_part) simp
    also have "\<dots> = le_split 4 (echo_words ! k)"
      unfolding mem using that by (intro words_bytes_part) (simp add: length_echo_words)
    finally have "read_bytes (64 + 4 * k) 4 (pmem s) = le_split 4 (echo_words ! k)" .
    then show ?thesis by (simp add: le_join_split)
  qed
  then have "echo_in (pmem s)" by (simp add: echo_in_def)
  with load that framesD [OF load_segments_frame ld] show thesis
    by (auto simp: load_step_def io_of_def set_reg_def)
qed

end
