(* ===== verification/Program_Refines.thy ===== *)
theory Program_Refines
  imports Program Native_Refinement Echo_Program
begin

text \<open>
  The program from its command line to its last line of output: \<^verbatim>\<open>main.cpp\<close> over the refinement of
  \<^verbatim>\<open>Refinement\<close>.
\<close>

text \<open>What \<^verbatim>\<open>execute\<close> writes to the log when it returns: the state, then the statistics.\<close>

lemma Sim_execute_log:
  assumes "Sim_execute n opts h J fuel d s = (Inr (), s')"
  shows "\<exists>before. log_text s' = before @ State_dump s' @ ''Some statistics:'' @ [CHR 0x0A] @
    time_line J (executed_insts s') @ PrintStatistics (stats s')"
proof -
  have "State_dump (s\<lparr>log_text := t\<rparr>) = State_dump s" for s t by (simp add: State_dump_def)
  then show ?thesis
    using assms by (auto simp: Sim_execute_def bnd_def print_log_def split: prod.splits sum.splits)
qed

lemma simulate_execute:
  assumes "rbind (Elf_reader_init env (elf_file opts) Elf_reader_ctor) (Elf_reader_load env) =
      Inr ((cmds, vas, start), er)"
    and "State_ctor cmds vas start s0 = (Inr (), s)"
  shows "simulate n fuel h J env opts s0 = Sim_execute n opts h J fuel riscv_decoder s"
  using assms by (simp add: simulate_def Sim_ctor_def bnd_def lift_def riscv_decoder_ctor ret_def)

lemma CloseLog_same:
  "log_text (snd (CloseLog log s)) = log_text s" "State_dump (snd (CloseLog log s)) = State_dump s"
  "stats (snd (CloseLog log s)) = stats s" "executed_insts (snd (CloseLog log s)) = executed_insts s"
  "machine_view (snd (CloseLog log s)) = machine_view s" "io_of (snd (CloseLog log s)) = io_of s"
  "regs (snd (CloseLog log s)) = regs s" "pmem (snd (CloseLog log s)) = pmem s"
  by (simp_all add: CloseLog_def State_dump_def machine_view_def io_of_def)

text \<open>From the command line to the end of the simulation.\<close>

lemma main_runs:
  assumes "ParseOptions args default_options = Inr (Parsed opts)"
    and "OpenLog h opts (static_state default_options garbage input) = (Inr log, s0)"
    and "rbind (Elf_reader_init env (elf_file opts) Elf_reader_ctor) (Elf_reader_load env) =
      Inr ((cmds, vas, start), er)"
    and "State_ctor cmds vas start s0 = (Inr (), s)"
  shows "Sim_execute n opts h J fuel riscv_decoder s = (Inr (), s1) \<Longrightarrow>
      run_program n fuel h J env args garbage input = (Returned, snd (CloseLog log s1))"
    and "Sim_execute n opts h J fuel riscv_decoder s = (Inl overflow, s1) \<Longrightarrow>
      run_program n fuel h J env args garbage input =
        (Returned, snd (print_stdout (''robin_hood::map overflow'' @ [CHR 0x0A]) s1))"
  using run_main [OF assms(1,2)] simulate_execute [OF assms(3,4)] by simp_all

lemma OpenLog_fresh_state:
  "OpenLog h opts (static_state default_options garbage input) = (Inr log, s0) \<Longrightarrow> fresh default_options s0"
  using OpenLog_fresh [of h opts garbage input] by (metis prod.inject)

lemma ends_as_CloseLog: "ends_as opts J B run k s \<Longrightarrow> ends_as opts J B run k (snd (CloseLog log s))"
  by (unfold ends_as_def final_state_def ended_in_trace_def CloseLog_same)

text \<open>
  How \<^verbatim>\<open>main\<close> ends when the hash map of the trace cache throws: it prints the message of the exception to
  standard output, behind what the program has written there.
\<close>

definition gives_up :: "Options \<Rightarrow> clock \<Rightarrow> nat \<Rightarrow> (u32 \<rightharpoonup> Inst) \<Rightarrow> isa_state \<Rightarrow> Io \<Rightarrow> State \<Rightarrow> bool" where
  "gives_up opts clock mem_size P st e s' \<longleftrightarrow> (\<exists>s. trace_cache_full opts clock mem_size P st e s \<and>
     s' = s\<lparr>stdout_bytes := stdout_bytes s @ map of_char (''robin_hood::map overflow'' @ [CHR 0x0A])\<rparr>)"

lemma program_outcome:
  assumes main: "ParseOptions args default_options = Inr (Parsed opts)"
      "OpenLog h opts (static_state default_options garbage input) = (Inr log, s0)"
      "rbind (Elf_reader_init env (elf_file opts) Elf_reader_ctor) (Elf_reader_load env) = Inr ((cmds, vas, start), er)"
      "State_ctor cmds vas start s0 = (Inr (), s)"
    and program: "user_program h P" "user_stays (timeofday h) 0x80000 P (machine_view s) (io_of s)"
    and host: "host_ok h" and fuel: "0x20000 \<le> fuel"
    and mode: "if jit opts then native_program J P \<and> runs_native mem refused boot J \<and> fuel < 2 ^ 30 \<and>
        rounds_bounded (timeofday h) 0x80000 B P (machine_view s) (io_of s) else fuel \<le> B"
    and ends: "0 < N" "ends_within opts (timeofday h) 0x80000 P (machine_view s) (io_of s) N" "N + B < 2 ^ 64" "N \<le> n"
  shows "\<exists>s'. run_program n fuel h J env args garbage input = (Returned, s') \<and>
    ((\<exists>k < N + B. ends_as opts J B (\<lambda>k. env_run (timeofday h) 0x80000 P k (machine_view s) (io_of s)) k s') \<or>
     gives_up opts (timeofday h) 0x80000 P (machine_view s) (io_of s) s' \<and> unat (executed_insts s') < N)"
proof -
  have "(\<exists>k s'. Sim_execute n opts h J fuel riscv_decoder s = (Inr (), s') \<and> k < N + B \<and>
      ends_as opts J B (\<lambda>k. env_run (timeofday h) 0x80000 P k (machine_view s) (io_of s)) k s') \<or>
    (\<exists>s'. Sim_execute n opts h J fuel riscv_decoder s = (Inl overflow, s') \<and>
      trace_cache_full opts (timeofday h) 0x80000 P (machine_view s) (io_of s) s' \<and> unat (executed_insts s') < N)"
    by (rule simulation_runs [OF main(4) OpenLog_fresh_state [OF main(2)] program host fuel _ _ ends])
      (use mode in \<open>auto simp: jit_ready_def split: if_splits\<close>)
  then show ?thesis
  proof (elim disjE exE conjE)
    fix k s1 assume "Sim_execute n opts h J fuel riscv_decoder s = (Inr (), s1)" "k < N + B"
      "ends_as opts J B (\<lambda>k. env_run (timeofday h) 0x80000 P k (machine_view s) (io_of s)) k s1"
    then show ?thesis using main_runs(1) [OF main] ends_as_CloseLog by blast
  next
    fix s1 assume f: "Sim_execute n opts h J fuel riscv_decoder s = (Inl overflow, s1)"
      "trace_cache_full opts (timeofday h) 0x80000 P (machine_view s) (io_of s) s1" "unat (executed_insts s1) < N"
    let ?s' = "snd (print_stdout (''robin_hood::map overflow'' @ [CHR 0x0A]) s1)"
    have "gives_up opts (timeofday h) 0x80000 P (machine_view s) (io_of s) ?s'"
      unfolding gives_up_def using f(2) by (intro exI [of _ s1]) (simp add: print_stdout_def)
    moreover have "unat (executed_insts ?s') < N" using f(3) by (simp add: print_stdout_def)
    ultimately show ?thesis using main_runs(2) [OF main f(1)] by blast
  qed
qed


text \<open>C2: A program that exits is seen to exit. The command line, the files, the program and the host are as for
  \<open>program_runs\<close>, with the interpreter alone or with the translator. If the machine with its environment calls \<^verbatim>\<open>exit\<close> within
  \<open>N\<close> instructions, not later than the limit if there is one, and enters at most 126 different traces until then (so
  that the hash map of the trace cache holds them all), then \<^verbatim>\<open>main\<close> returns; the bytes on standard output
  are exactly those that the program has written, standard input has lost exactly those that it
  has read, the registers and the memory are those at the call of \<^verbatim>\<open>exit\<close>, and the log says that the
  program has finished.\<close>

theorem program_exits:
  assumes "ParseOptions args default_options = Inr (Parsed opts)"
    and "OpenLog h opts (static_state default_options garbage input) = (Inr log, s0)"
    and "rbind (Elf_reader_init env (elf_file opts) Elf_reader_ctor) (Elf_reader_load env) =
      Inr ((cmds, vas, start), er)"
    and "State_ctor cmds vas start s0 = (Inr (), s)"
    and "user_program h P" and "user_stays (timeofday h) 0x80000 P (machine_view s) (io_of s)"
    and "host_ok h" and "0x20000 \<le> fuel"
    and "if jit opts then native_program J P \<and> runs_native mem refused boot J \<and> fuel < 2 ^ 30 \<and>
        rounds_bounded (timeofday h) 0x80000 B P (machine_view s) (io_of s) else fuel \<le> B"
    and "env_run (timeofday h) 0x80000 P N (machine_view s) (io_of s) = Finished (xs, m) e"
    and "max_insts opts = 0 \<or> N \<le> unat (max_insts opts)"
    and "N + B < 2 ^ 64" and "N \<le> n"
    and "card (heads (timeofday h) 0x80000 P N (machine_view s) (io_of s)) \<le> 126"
  shows "\<exists>s' before after. run_program n fuel h J env args garbage input = (Returned, s') \<and>
    stdin_bytes s' = io_in e \<and> stdout_bytes s' = io_out e \<and> regs s' = xs \<and> pmem s' = m \<and>
    log_text s' = before @ ''Successfully finished!'' @ [CHR 0x0A, CHR 0x0A] @ State_dump s' @ after"
proof -
  let ?run = "\<lambda>k. env_run (timeofday h) 0x80000 P k (machine_view s) (io_of s)"
    and ?heads = "\<lambda>k. heads (timeofday h) 0x80000 P k (machine_view s) (io_of s)"
  have N: "0 < N" using assms(10) by (cases N) simp_all
  have ends: "ends_within opts (timeofday h) 0x80000 P (machine_view s) (io_of s) N"
    using assms(10) by (simp add: ends_within_def)
  have "\<not> gives_up opts (timeofday h) 0x80000 P (machine_view s) (io_of s) s'"
    if lt: "unat (executed_insts s') < N" for s'
  proof -
    have "card (?heads (unat (executed_insts s'))) \<le> card (?heads N)"
      using lt by (intro card_mono heads_mono) simp_all
    then show ?thesis using assms(14) by (auto simp: gives_up_def trace_cache_full_def)
  qed
  with program_outcome [OF assms(1-9) N ends assms(12,13)]
  obtain k s' where r: "run_program n fuel h J env args garbage input = (Returned, s')" "ends_as opts J B ?run k s'"
    by blast
  have "\<not> is_running (?run k)"
  proof
    assume run: "is_running (?run k)"
    then have "N \<le> k" using r(2) assms(11) by (auto simp: ends_as_def)
    then have "?run k = ?run N" using assms(10) by (intro env_run_ended) simp_all
    with run assms(10) show False by simp
  qed
  then have "?run k = Finished (xs, m) e"
    using env_run_ended [of "timeofday h" "0x80000" P k "machine_view s" "io_of s" N]
      env_run_ended [of "timeofday h" "0x80000" P N "machine_view s" "io_of s" k] assms(10)
    by (cases "k \<le> N") simp_all
  with r show ?thesis by (auto simp: ends_as_def final_state_def last_words_def)
qed

text \<open>The options of an example, with the file of \<open>Elf_Reader\<close>.\<close>

definition demo_opts :: Options where
  "demo_opts = default_options\<lparr>log_file := Some ''sim.log'', max_insts := 1000\<rparr>"


lemma demo_parses: "ParseOptions (command_line demo_opts) default_options = Inr (Parsed demo_opts)"
  using ParseOptions_prefix [of demo_opts "[]"] by simp

lemma demo_log:
  "OpenLog x86_host demo_opts (static_state default_options garbage input) =
    (Inr (Log_file ''sim.log''), static_state default_options garbage input)"
  by (simp add: OpenLog_def demo_opts_def x86_host_def ret_def)

lemma static_io: "io_of (static_state opts garbage input) = \<lparr>io_in = input, io_out = [], io_clock = 0\<rparr>"
  by (simp add: io_of_def static_state_def MMU_State.defs)

text \<open>The program of \<open>Echo_Program\<close>, loaded.\<close>

lemma echo_starts:
  obtains s er where
    "rbind (Elf_reader_init echo_elf (elf_file demo_opts) Elf_reader_ctor) (Elf_reader_load echo_elf) =
      Inr (([echo_segment], [64], 64), er)"
    "State_ctor [echo_segment] [64] 64 (static_state default_options garbage (b # bs)) = (Inr (), s)"
    "user_stays clock 0x80000 echo (machine_view s) (io_of s)"
    "\<exists>xs m. env_run clock 0x80000 echo 8 (machine_view s) (io_of s) =
      Finished (xs, m) \<lparr>io_in = bs, io_out = [b], io_clock = 0\<rparr>"
proof -
  obtain er where elf: "rbind (Elf_reader_init echo_elf (elf_file demo_opts) Elf_reader_ctor) (Elf_reader_load echo_elf) =
      Inr (([echo_segment], [64], 64), er)"
    using echo_elf_loads by blast
  let ?s0 = "static_state default_options garbage (b # bs)"
  have "pmem_size ?s0 = 0x80000" by (simp add: static_state_simps default_options_def pagesize_def)
  from echo_loaded [OF this] obtain s where s: "State_ctor [echo_segment] [64] 64 ?s0 = (Inr (), s)"
    "echo_in (pmem s)" "pc s = 64" "length (regs s) = 32" "regs s ! 0 = 0" "io_of s = io_of ?s0" .
  then have io: "io_of s = \<lparr>io_in = b # bs, io_out = [], io_clock = 0\<rparr>" and view: "machine_view s = (64, regs s, pmem s)"
    by (simp_all add: static_io machine_view_def)
  obtain ys where "env_run clock 0x80000 echo 8 (64, regs s, pmem s) (io_of s) =
      Finished (ys, write_bytes 1024 [b] (pmem s)) ((io_of s)\<lparr>io_in := bs, io_out := io_out (io_of s) @ [b]\<rparr>)"
    using echo_run [OF s(4,5), where e = "io_of s" and b = b and bs = bs] io by auto
  then have "env_run clock 0x80000 echo 8 (machine_view s) (io_of s) =
      Finished (ys, write_bytes 1024 [b] (pmem s)) \<lparr>io_in = bs, io_out = [b], io_clock = 0\<rparr>"
    by (simp add: io view)
  moreover have "user_stays clock 0x80000 echo (machine_view s) (io_of s)"
    unfolding view using echo_stays [OF s(4,5) _ s(2)] io by simp
  ultimately show thesis using that elf s(1) by blast
qed




theorem program_exits_witness:
  "\<exists>s'. run_program 1000 0x20000 x86_host idle_jit echo_elf (command_line demo_opts) (\<lambda>_. 0) [104, 105] = (Returned, s') \<and>
    stdout_bytes s' = [104] \<and> stdin_bytes s' = [105]"
proof -
  obtain s er where elf: "rbind (Elf_reader_init echo_elf (elf_file demo_opts) Elf_reader_ctor) (Elf_reader_load echo_elf) =
      Inr (([echo_segment], [64], 64), er)"
    and load: "State_ctor [echo_segment] [64] 64 (static_state default_options (\<lambda>_. 0) [104, 105]) = (Inr (), s)"
    and stays: "user_stays (timeofday x86_host) 0x80000 echo (machine_view s) (io_of s)"
    and run: "\<exists>xs m. env_run (timeofday x86_host) 0x80000 echo 8 (machine_view s) (io_of s) =
      Finished (xs, m) \<lparr>io_in = [105], io_out = [104], io_clock = 0\<rparr>"
    by (rule echo_starts)
  obtain xs m where run: "env_run (timeofday x86_host) 0x80000 echo 8 (machine_view s) (io_of s) =
      Finished (xs, m) \<lparr>io_in = [105], io_out = [104], io_clock = 0\<rparr>" using run by blast
  have "\<exists>s' before after. run_program 1000 0x20000 x86_host idle_jit echo_elf (command_line demo_opts) (\<lambda>_. 0) [104, 105] = (Returned, s') \<and>
      stdin_bytes s' = [105] \<and> stdout_bytes s' = [104] \<and> regs s' = xs \<and> pmem s' = m \<and>
      log_text s' = before @ ''Successfully finished!'' @ [CHR 0x0A, CHR 0x0A] @ State_dump s' @ after"
    using program_exits [OF demo_parses demo_log elf load echo_program stays x86_host_ok(2) _ _ run,
        where fuel = "0x20000" and n = 1000 and J = idle_jit and B = "0x20000"]
      card_heads [of "timeofday x86_host" "0x80000" echo 8 "machine_view s" "io_of s"]
    by (simp add: demo_opts_def default_options_def)
  then show ?thesis by blast
qed

end
