(* ===== verification/Pool.thy ===== *)
theory Pool
  imports Prelude
begin

text \<open>
  The node form of the hash map keeps its elements in nodes on the heap: \<^verbatim>\<open>detail::BulkPoolAllocator\<close> and the second form
  of \<^verbatim>\<open>DataNode\<close> in \<^verbatim>\<open>src/sim/robin_hood.h\<close>.

  An allocator holds a list of the blocks it got from \<^verbatim>\<open>malloc\<close> and a list of the free cells in them. Both
  lists are threaded through the memory: the first word of a block points to the next block, the first word of a
  free cell to the next free cell.

  The heap has, at their addresses, the pointers and the objects that were written, the blocks that \<^verbatim>\<open>malloc\<close>
  has given out and \<^verbatim>\<open>free\<close> has not taken back. A write destroys what it overlaps, new memory holds nothing, and it is a
  fault to read a pointer or an object where there is none, to access memory outside of the blocks, and to free
  anything but a block. Addresses and sizes are natural numbers: a block
  does not wrap around, and the allocator stays inside of its blocks. The answers of \<^verbatim>\<open>malloc\<close> are an argument
  of the definitions: an address, or 0, for the number of the call, the blocks in use and the size.
\<close>

text \<open>An object has at least one byte.\<close>

datatype 'v content = Pointer nat | Object nat 'v

fun extent :: "'v content \<Rightarrow> nat" where
  "extent (Pointer a) = 8"
| "extent (Object n v) = max 1 n"

record 'v Heap =
  stored :: "nat \<Rightarrow> 'v content option"
  blocks :: "(nat \<times> nat) list"
  mallocs :: nat

type_synonym Malloc = "nat \<Rightarrow> (nat \<times> nat) list \<Rightarrow> nat \<Rightarrow> nat"

section \<open>Memory\<close>

definition inside :: "'v Heap \<Rightarrow> nat \<Rightarrow> nat \<Rightarrow> bool" where
  "inside h p n \<longleftrightarrow> list_ex (\<lambda>(b, m). b \<le> p \<and> p + n \<le> b + m) (blocks h)"

text \<open>Memory areas that do not overlap, given by their start and their length.\<close>

definition apart :: "nat \<times> nat \<Rightarrow> nat \<times> nat \<Rightarrow> bool" where
  "apart x y \<longleftrightarrow> fst x + snd x \<le> fst y \<or> fst y + snd y \<le> fst x"

definition overwrite :: "nat \<Rightarrow> 'v content \<Rightarrow> 'v Heap \<Rightarrow> 'v Heap" where
  "overwrite p c h = h\<lparr>stored := (\<lambda>q.
     if q = p then Some c
     else case stored h q of
       None \<Rightarrow> None
     | Some d \<Rightarrow> if apart (q, extent d) (p, extent c) then Some d else None)\<rparr>"

definition store :: "nat \<Rightarrow> 'v content \<Rightarrow> ('v Heap, unit) M" where
  "store p c h = (if inside h p (extent c) then (Inr (), overwrite p c h) else (Inl (Undefined UseAfterFree), h))"

definition load_ptr :: "nat \<Rightarrow> ('v Heap, nat) M" where
  "load_ptr p h =
     (case stored h p of
        Some (Pointer a) \<Rightarrow> if inside h p 8 then (Inr a, h) else (Inl (Undefined UseAfterFree), h)
      | _ \<Rightarrow> (Inl (Undefined UseAfterFree), h))"

definition store_ptr :: "nat \<Rightarrow> nat \<Rightarrow> ('v Heap, unit) M" where
  "store_ptr p a = store p (Pointer a)"

definition std_malloc :: "Malloc \<Rightarrow> nat \<Rightarrow> ('v Heap, nat) M" where
  "std_malloc alloc n h =
     (let a = alloc (mallocs h) (blocks h) n in
      if a = 0 then (Inr 0, h\<lparr>mallocs := Suc (mallocs h)\<rparr>)
      else (Inr a, h\<lparr>mallocs := Suc (mallocs h), blocks := (a, n) # blocks h,
        stored := (\<lambda>q. if a \<le> q \<and> q < a + n then None else stored h q)\<rparr>))"

definition std_free :: "nat \<Rightarrow> ('v Heap, unit) M" where
  "std_free p h =
     (if p = 0 then (Inr (), h)
      else if list_ex (\<lambda>(b, n). b = p) (blocks h)
      then (Inr (), h\<lparr>blocks := filter (\<lambda>(b, n). b \<noteq> p) (blocks h)\<rparr>)
      else (Inl (Undefined UseAfterFree), h))"

text \<open>\<^verbatim>\<open>assertNotNull<std::bad_alloc>\<close>.\<close>

definition assertNotNull :: "nat \<Rightarrow> ('v Heap, nat) M" where
  "assertNotNull p = (if p = 0 then raise (StdThrow ''std::bad_alloc'') else ret p)"

section \<open>The allocator\<close>

text \<open>The size and the alignment of the type of the cells; a pointer has 8 bytes.\<close>

record Layout =
  size_of :: nat
  align_of :: nat

definition ALIGNMENT :: "Layout \<Rightarrow> nat" where
  "ALIGNMENT L = max (align_of L) 8"

definition ALIGNED_SIZE :: "Layout \<Rightarrow> nat" where
  "ALIGNED_SIZE L = ((size_of L - 1) div ALIGNMENT L + 1) * ALIGNMENT L"

record Pool =
  mHead :: nat
  mListForFree :: nat

definition Pool_ctor :: Pool where
  "Pool_ctor = \<lparr>mHead = 0, mListForFree = 0\<rparr>"

text \<open>Copying makes a new allocator; moving leaves nothing in the source. Both deliver target and source.\<close>

definition Pool_copy :: "Pool \<Rightarrow> Pool \<times> Pool" where
  "Pool_copy other = (Pool_ctor, other)"

definition Pool_move :: "Pool \<Rightarrow> Pool \<times> Pool" where
  "Pool_move other = (\<lparr>mHead = mHead other, mListForFree = mListForFree other\<rparr>, other\<lparr>mListForFree := 0, mHead := 0\<rparr>)"

text \<open>\<^verbatim>\<open>reset\<close>: frees the blocks; at most \<open>n\<close> of them.\<close>

fun reset_loop :: "nat \<Rightarrow> Pool \<Rightarrow> ('v Heap, Pool) M" where
  "reset_loop 0 p = (if mListForFree p \<noteq> 0 then raise (OutOfFuel PoolLoop) else ret p)"
| "reset_loop (Suc n) p =
     (if mListForFree p \<noteq> 0
      then bnd (load_ptr (mListForFree p)) (\<lambda>tmp.
           bnd (std_free (mListForFree p)) (\<lambda>_.
             reset_loop n (p\<lparr>mListForFree := tmp\<rparr>)))
      else ret p)"

definition Pool_reset :: "Pool \<Rightarrow> ('v Heap, Pool) M" where
  "Pool_reset p = bnd (gets (\<lambda>h. length (blocks h))) (\<lambda>n. bnd (reset_loop n p) (\<lambda>p. ret (p\<lparr>mHead := 0\<rparr>)))"

definition Pool_move_assign :: "Pool \<Rightarrow> Pool \<Rightarrow> ('v Heap, Pool \<times> Pool) M" where
  "Pool_move_assign p other =
     bnd (Pool_reset p) (\<lambda>p.
       ret (p\<lparr>mHead := mHead other, mListForFree := mListForFree other\<rparr>, other\<lparr>mListForFree := 0, mHead := 0\<rparr>))"

definition Pool_swap :: "Pool \<Rightarrow> Pool \<Rightarrow> Pool \<times> Pool" where
  "Pool_swap p other =
     (p\<lparr>mHead := mHead other, mListForFree := mListForFree other\<rparr>, other\<lparr>mHead := mHead p, mListForFree := mListForFree p\<rparr>)"

text \<open>
  How many cells to allocate next, with \<^verbatim>\<open>MinNumAllocs\<close> 4 and \<^verbatim>\<open>MaxNumAllocs\<close> 16384 as in the tables: twice as many for every
  block. The number is at least doubled in every iteration, so that \<open>n\<close> bounds them.
\<close>

abbreviation MinNumAllocs :: nat where "MinNumAllocs \<equiv> 4"
abbreviation MaxNumAllocs :: nat where "MaxNumAllocs \<equiv> 16384"

fun calc_loop :: "nat \<Rightarrow> nat \<Rightarrow> nat \<Rightarrow> ('v Heap, nat) M" where
  "calc_loop 0 numAllocs tmp =
     (if numAllocs * 2 \<le> MaxNumAllocs \<and> tmp \<noteq> 0 then raise (OutOfFuel PoolLoop) else ret numAllocs)"
| "calc_loop (Suc n) numAllocs tmp =
     (if numAllocs * 2 \<le> MaxNumAllocs \<and> tmp \<noteq> 0
      then bnd (load_ptr tmp) (\<lambda>tmp. calc_loop n (numAllocs * 2) tmp)
      else ret numAllocs)"

definition calcNumElementsToAlloc :: "Pool \<Rightarrow> ('v Heap, nat) M" where
  "calcNumElementsToAlloc p = calc_loop MaxNumAllocs MinNumAllocs (mListForFree p)"

text \<open>The loop of \<^verbatim>\<open>add\<close>, from cell \<open>i\<close> on with \<open>n\<close> more to come.\<close>

fun link_cells :: "nat \<Rightarrow> nat \<Rightarrow> nat \<Rightarrow> nat \<Rightarrow> ('v Heap, unit) M" where
  "link_cells head width i 0 = ret ()"
| "link_cells head width i (Suc n) =
     bnd (store_ptr (head + i * width) (head + (i + 1) * width)) (\<lambda>_. link_cells head width (i + 1) n)"

definition Pool_add :: "Layout \<Rightarrow> nat \<Rightarrow> nat \<Rightarrow> Pool \<Rightarrow> ('v Heap, Pool) M" where
  "Pool_add L ptr numBytes p =
     (let numElements = (numBytes - ALIGNMENT L) div ALIGNED_SIZE L; head = ptr + ALIGNMENT L in
      bnd (store_ptr ptr (mListForFree p)) (\<lambda>_.
      bnd (link_cells head (ALIGNED_SIZE L) 0 numElements) (\<lambda>_.
      bnd (store_ptr (head + (numElements - 1) * ALIGNED_SIZE L) (mHead p)) (\<lambda>_.
        ret (p\<lparr>mListForFree := ptr, mHead := head\<rparr>)))))"

definition performAllocation :: "Layout \<Rightarrow> Malloc \<Rightarrow> Pool \<Rightarrow> ('v Heap, Pool) M" where
  "performAllocation L alloc p =
     bnd (calcNumElementsToAlloc p) (\<lambda>numElementsToAlloc.
       let bytes = ALIGNMENT L + ALIGNED_SIZE L * numElementsToAlloc in
       bnd (std_malloc alloc bytes) (\<lambda>ptr.
       bnd (assertNotNull ptr) (\<lambda>ptr.
         Pool_add L ptr bytes p)))"

definition Pool_allocate :: "Layout \<Rightarrow> Malloc \<Rightarrow> Pool \<Rightarrow> ('v Heap, nat \<times> Pool) M" where
  "Pool_allocate L alloc p =
     bnd (if mHead p = 0 then performAllocation L alloc p else ret p) (\<lambda>p.
       let tmp = mHead p in
       bnd (load_ptr tmp) (\<lambda>v.
         ret (tmp, p\<lparr>mHead := v\<rparr>)))"

definition Pool_deallocate :: "nat \<Rightarrow> Pool \<Rightarrow> ('v Heap, Pool) M" where
  "Pool_deallocate obj p = bnd (store_ptr obj (mHead p)) (\<lambda>_. ret (p\<lparr>mHead := obj\<rparr>))"

definition addOrFree :: "Layout \<Rightarrow> nat \<Rightarrow> nat \<Rightarrow> Pool \<Rightarrow> ('v Heap, Pool) M" where
  "addOrFree L ptr numBytes p =
     (if numBytes < ALIGNMENT L + ALIGNED_SIZE L then bnd (std_free ptr) (\<lambda>_. ret p) else Pool_add L ptr numBytes p)"

section \<open>Nodes\<close>

text \<open>
  \<^verbatim>\<open>DataNode<M, false>\<close>: a node is a pointer to an object in a cell. Its members deliver the object, or
  its parts when it is a pair.
\<close>

definition DataNode_ctor :: "Layout \<Rightarrow> Malloc \<Rightarrow> 'v \<Rightarrow> Pool \<Rightarrow> ('v Heap, nat \<times> Pool) M" where
  "DataNode_ctor L alloc v p =
     bnd (Pool_allocate L alloc p) (\<lambda>(mData, p).
     bnd (store mData (Object (size_of L) v)) (\<lambda>_.
       ret (mData, p)))"

definition DataNode_get :: "nat \<Rightarrow> ('v Heap, 'v) M" where
  "DataNode_get mData h =
     (case stored h mData of
        Some (Object n v) \<Rightarrow> if inside h mData (extent (Object n v)) then (Inr v, h) else (Inl (Undefined UseAfterFree), h)
      | _ \<Rightarrow> (Inl (Undefined UseAfterFree), h))"

definition DataNode_getFirst :: "nat \<Rightarrow> (('k \<times> 'v) Heap, 'k) M" where
  "DataNode_getFirst mData = bnd (DataNode_get mData) (\<lambda>kv. ret (fst kv))"

definition DataNode_getSecond :: "nat \<Rightarrow> (('k \<times> 'v) Heap, 'v) M" where
  "DataNode_getSecond mData = bnd (DataNode_get mData) (\<lambda>kv. ret (snd kv))"

text \<open>The destructor of an object; \<^verbatim>\<open>destroy\<close> also returns the cell.\<close>

definition DataNode_destroyDoNotDeallocate :: "nat \<Rightarrow> ('v Heap, unit) M" where
  "DataNode_destroyDoNotDeallocate mData =
     bnd (DataNode_get mData) (\<lambda>_. modify (\<lambda>h. h\<lparr>stored := (stored h)(mData := None)\<rparr>))"

definition DataNode_destroy :: "nat \<Rightarrow> Pool \<Rightarrow> ('v Heap, Pool) M" where
  "DataNode_destroy mData p = bnd (DataNode_destroyDoNotDeallocate mData) (\<lambda>_. Pool_deallocate mData p)"

end
