(* ===== verification/Pool_Correct.thy ===== *)
theory Pool_Correct
  imports Pool Requests "HOL-Library.Multiset"
begin

text \<open>
  The pool allocator and the nodes in its cells. \<open>pool_inv\<close> is the invariant of an allocator: its two lists, threaded
  through the memory, hold its blocks and its free cells, and every cell of its blocks is either free or in use,
  exactly once. A sequence of requests to nodes behaves like one to a list of values.
\<close>

section \<open>Memory\<close>

lemma apart_sym: "apart x y \<longleftrightarrow> apart y x"
  by (auto simp: apart_def)

lemma apart_within:
  "apart x y \<Longrightarrow> fst x \<le> a \<Longrightarrow> a + n \<le> fst x + snd x \<Longrightarrow> apart (a, n) y"
  by (auto simp: apart_def)

lemma apart_within2:
  "apart x y \<Longrightarrow> fst x \<le> a \<Longrightarrow> a + n \<le> fst x + snd x \<Longrightarrow> fst y \<le> b \<Longrightarrow> b + m \<le> fst y + snd y \<Longrightarrow> apart (a, n) (b, m)"
  by (auto simp: apart_def)

text \<open>A step that changes nothing outside of an area.\<close>

definition frame :: "nat \<times> nat \<Rightarrow> 'v Heap \<Rightarrow> 'v Heap \<Rightarrow> bool" where
  "frame R h h' \<longleftrightarrow> (\<forall>q d. stored h q = Some d \<and> apart (q, extent d) R \<longrightarrow> stored h' q = Some d)"

lemma frameD: "frame R h h' \<Longrightarrow> stored h q = Some d \<Longrightarrow> apart (q, extent d) R \<Longrightarrow> stored h' q = Some d"
  by (simp add: frame_def)

lemma frame_refl: "frame R h h"
  by (simp add: frame_def)

lemma frame_trans: "frame R h h1 \<Longrightarrow> frame R h1 h2 \<Longrightarrow> frame R h h2"
  by (simp add: frame_def)

lemma frame_within:
  "frame (b, m) h h' \<Longrightarrow> fst R \<le> b \<Longrightarrow> b + m \<le> fst R + snd R \<Longrightarrow> frame R h h'"
  by (auto simp: frame_def apart_def)

lemma extent_pos: "0 < extent c"
  by (cases c) simp_all

lemma frame_overwrite: "frame (p, extent c) h (overwrite p c h)"
  unfolding frame_def
proof (intro allI impI, elim conjE)
  fix q d
  assume "stored h q = Some d" "apart (q, extent d) (p, extent c)"
  then show "stored (overwrite p c h) q = Some d"
    using extent_pos [of c] extent_pos [of d] by (auto simp: overwrite_def apart_def)
qed

lemma overwrite_simps [simp]: "stored (overwrite p c h) p = Some c" "blocks (overwrite p c h) = blocks h" "mallocs (overwrite p c h) = mallocs h"
  by (simp_all add: overwrite_def)

lemma inside_cong: "blocks h' = blocks h \<Longrightarrow> inside h' = inside h"
  by (simp add: inside_def fun_eq_iff)

lemma inside_overwrite [simp]: "inside (overwrite p c h) = inside h"
  by (rule inside_cong) simp

lemma insideI: "x \<in> set (blocks h) \<Longrightarrow> fst x \<le> q \<Longrightarrow> q + n \<le> fst x + snd x \<Longrightarrow> inside h q n"
  by (auto simp: inside_def list_ex_iff)

lemma inside_mono: "inside h q n \<Longrightarrow> m \<le> n \<Longrightarrow> inside h q m"
  unfolding inside_def list_ex_iff case_prod_beta by (meson add_left_mono order_trans)

section \<open>Lists in the memory\<close>

fun chain :: "(nat \<Rightarrow> 'v content option) \<Rightarrow> nat \<Rightarrow> nat list \<Rightarrow> bool" where
  "chain f p [] \<longleftrightarrow> p = 0"
| "chain f p (a # as) \<longleftrightarrow> p = a \<and> a \<noteq> 0 \<and> (\<exists>b. f a = Some (Pointer b) \<and> chain f b as)"

lemma chain_frame:
  "chain (stored h) p as \<Longrightarrow> frame R h h' \<Longrightarrow> (\<And>a. a \<in> set as \<Longrightarrow> apart (a, 8) R) \<Longrightarrow> chain (stored h') p as"
proof (induction as arbitrary: p)
  case (Cons a as)
  then obtain b where b: "stored h a = Some (Pointer b)" "chain (stored h) b as" by auto
  with Cons.prems frameD [OF Cons.prems(2) b(1)] Cons.IH [OF b(2) Cons.prems(2)] show ?case by auto
qed simp

lemma chain_nonnull: "p \<noteq> 0 \<Longrightarrow> chain f p as \<longleftrightarrow> (\<exists>b bs. as = p # bs \<and> f p = Some (Pointer b) \<and> chain f b bs)"
  by (cases as) auto

text \<open>Cells that are linked one after the other.\<close>

lemma chain_run:
  assumes "\<And>i. i < n \<Longrightarrow> f (head + i * w) = Some (Pointer (if Suc i = n then q else head + Suc i * w))" "chain f q as" "head \<noteq> 0"
  shows "i < n \<Longrightarrow> chain f (head + i * w) (map (\<lambda>i. head + i * w) [i..<n] @ as)"
proof (induction "n - i" arbitrary: i)
  case 0
  then show ?case by simp
next
  case (Suc k)
  have up: "[i..<n] = i # [Suc i..<n]" using Suc.prems by (rule upt_conv_Cons)
  show ?case
  proof (cases "Suc i = n")
    case True
    with up assms Suc.prems show ?thesis by simp
  next
    case False
    then have "chain f (head + Suc i * w) (map (\<lambda>i. head + i * w) [Suc i..<n] @ as)"
      using Suc by (intro Suc.hyps(1)) simp_all
    then show ?thesis using False assms(1) [OF Suc.prems] assms(3) Suc.prems by (simp add: up)
  qed
qed

section \<open>Blocks and cells\<close>

definition heap_inv :: "'v Heap \<Rightarrow> bool" where
  "heap_inv h \<longleftrightarrow> distinct (blocks h) \<and> (\<forall>x \<in> set (blocks h). fst x \<noteq> 0 \<and> 0 < snd x \<and>
     (\<forall>y \<in> set (blocks h). x = y \<or> apart x y))"

text \<open>\<^verbatim>\<open>malloc\<close> returns 0 or the address of new memory, aligned for the cells (which \<^verbatim>\<open>malloc\<close> promises for types that are not over-aligned).\<close>

definition good_malloc :: "Layout \<Rightarrow> Malloc \<Rightarrow> bool" where
  "good_malloc L alloc \<longleftrightarrow> (\<forall>k bl n. alloc k bl n = 0 \<or>
     alloc k bl n mod ALIGNMENT L = 0 \<and> (\<forall>x \<in> set bl. apart (alloc k bl n, n) x))"

definition cells :: "Layout \<Rightarrow> nat \<times> nat \<Rightarrow> nat list" where
  "cells L x = map (\<lambda>i. fst x + ALIGNMENT L + i * ALIGNED_SIZE L) [0..<(snd x - ALIGNMENT L) div ALIGNED_SIZE L]"

definition all_cells :: "Layout \<Rightarrow> (nat \<times> nat) list \<Rightarrow> nat list" where
  "all_cells L bs = concat (map (cells L) bs)"

lemma aligned_sizes: "8 \<le> ALIGNMENT L" "ALIGNMENT L \<le> ALIGNED_SIZE L" "ALIGNED_SIZE L mod ALIGNMENT L = 0"
  by (simp_all add: ALIGNMENT_def ALIGNED_SIZE_def)

lemma sizes_pos: "0 < ALIGNMENT L" "0 < ALIGNED_SIZE L" "8 \<le> ALIGNED_SIZE L"
  using aligned_sizes [of L] by linarith+

lemma size_fits: "size_of L \<le> ALIGNED_SIZE L"
proof -
  have "size_of L - 1 < ((size_of L - 1) div ALIGNMENT L + 1) * ALIGNMENT L"
    using sizes_pos(1) [of L] by (simp add: dividend_less_div_times)
  then show ?thesis by (simp add: ALIGNED_SIZE_def)
qed

lemma cell_bounds:
  assumes "c \<in> set (cells L x)"
  shows "fst x + ALIGNMENT L \<le> c" "c + ALIGNED_SIZE L \<le> fst x + snd x"
proof -
  obtain i where i: "c = fst x + ALIGNMENT L + i * ALIGNED_SIZE L" "i < (snd x - ALIGNMENT L) div ALIGNED_SIZE L"
    using assms unfolding cells_def by fastforce
  then show "fst x + ALIGNMENT L \<le> c" by simp
  have "Suc i * ALIGNED_SIZE L \<le> (snd x - ALIGNMENT L) div ALIGNED_SIZE L * ALIGNED_SIZE L"
    using i(2) by (intro mult_le_mono1) simp
  also have "\<dots> \<le> snd x - ALIGNMENT L" by simp
  finally have "i * ALIGNED_SIZE L + ALIGNED_SIZE L \<le> snd x - ALIGNMENT L" by simp
  moreover have "0 < snd x - ALIGNMENT L" using calculation sizes_pos(2) [of L] by linarith
  ultimately show "c + ALIGNED_SIZE L \<le> fst x + snd x" using i(1) by linarith
qed

lemma cells_distinct: "distinct (cells L x)"
  using sizes_pos(2) [of L] by (simp add: cells_def distinct_map inj_on_def)

lemma cells_apart:
  assumes "c \<in> set (cells L x)" "d \<in> set (cells L y)" "x = y \<or> apart x y" "c \<noteq> d"
  shows "apart (c, ALIGNED_SIZE L) (d, ALIGNED_SIZE L)"
proof (cases "x = y")
  case False
  with assms(3) cell_bounds [OF assms(1)] cell_bounds [OF assms(2)] show ?thesis by (auto simp: apart_def)
next
  case True
  then obtain i j where ij: "c = fst x + ALIGNMENT L + i * ALIGNED_SIZE L" "d = fst x + ALIGNMENT L + j * ALIGNED_SIZE L"
    using assms(1,2) by (auto simp: cells_def)
  have le: "k * ALIGNED_SIZE L + ALIGNED_SIZE L \<le> l * ALIGNED_SIZE L" if "k < l" for k l
    using mult_le_mono1 [of "Suc k" l "ALIGNED_SIZE L"] that by simp
  have "i \<noteq> j" using assms(4) ij by auto
  then consider "i < j" | "j < i" by linarith
  then show ?thesis by cases (use le ij in \<open>auto simp: apart_def\<close>)
qed

section \<open>The invariant\<close>

definition pool_inv :: "Layout \<Rightarrow> 'v Heap \<Rightarrow> Pool \<Rightarrow> (nat \<times> nat) list \<Rightarrow> nat list \<Rightarrow> nat list \<Rightarrow> bool" where
  "pool_inv L h p bs free live \<longleftrightarrow> chain (stored h) (mListForFree p) (map fst bs) \<and> chain (stored h) (mHead p) free \<and>
     mset (free @ live) = mset (all_cells L bs) \<and> distinct bs \<and> set bs \<subseteq> set (blocks h) \<and>
     (\<forall>x \<in> set bs. ALIGNMENT L + ALIGNED_SIZE L \<le> snd x \<and> fst x mod ALIGNMENT L = 0)"

lemma all_cells_in: "c \<in> set (all_cells L bs) \<longleftrightarrow> (\<exists>x \<in> set bs. c \<in> set (cells L x))"
  by (simp add: all_cells_def)

lemma all_cells_distinct:
  "distinct bs \<Longrightarrow> (\<And>x y. x \<in> set bs \<Longrightarrow> y \<in> set bs \<Longrightarrow> x = y \<or> apart x y) \<Longrightarrow> distinct (all_cells L bs)"
proof (induction bs)
  case (Cons x bs)
  have "c \<notin> set (all_cells L bs)" if c: "c \<in> set (cells L x)" for c
  proof
    assume "c \<in> set (all_cells L bs)"
    then obtain y where y: "y \<in> set bs" "c \<in> set (cells L y)" by (auto simp: all_cells_in)
    then have "apart x y" using Cons.prems(1) Cons.prems(2) [of x y] by auto
    with cell_bounds [OF c] cell_bounds [OF y(2)] sizes_pos [of L] show False by (auto simp: apart_def)
  qed
  with Cons show ?case by (auto simp: all_cells_def cells_distinct)
qed (simp add: all_cells_def)

lemma pool_cells:
  assumes heap: "heap_inv h" and inv: "pool_inv L h p bs free live"
  shows "distinct (free @ live)" "set free \<union> set live = set (all_cells L bs)"
    and "x \<in> set bs \<Longrightarrow> inside h (fst x) 8"
    and "c \<in> set free \<union> set live \<Longrightarrow> inside h c (ALIGNED_SIZE L) \<and> c \<noteq> 0 \<and> c mod ALIGNMENT L = 0"
    and "c \<in> set free \<union> set live \<Longrightarrow> x \<in> set bs \<Longrightarrow> apart (fst x, 8) (c, ALIGNED_SIZE L)"
    and "c \<in> set free \<union> set live \<Longrightarrow> d \<in> set free \<union> set live \<Longrightarrow> c \<noteq> d \<Longrightarrow> apart (c, ALIGNED_SIZE L) (d, ALIGNED_SIZE L)"
proof -
  have ap: "x = y \<or> apart x y" if "x \<in> set bs" "y \<in> set bs" for x y
    using that heap inv unfolding heap_inv_def pool_inv_def by blast
  have m: "mset (free @ live) = mset (all_cells L bs)" and "distinct bs" and sub: "set bs \<subseteq> set (blocks h)"
    and big: "\<And>x. x \<in> set bs \<Longrightarrow> ALIGNMENT L + ALIGNED_SIZE L \<le> snd x \<and> fst x mod ALIGNMENT L = 0"
    using inv by (auto simp: pool_inv_def)
  from \<open>distinct bs\<close> ap have "distinct (all_cells L bs)" by (rule all_cells_distinct)
  then show "distinct (free @ live)" using mset_eq_imp_distinct_iff [OF m] by simp
  show same: "set free \<union> set live = set (all_cells L bs)" using mset_eq_setD [OF m] by simp
  have cell: "\<exists>y \<in> set bs. c \<in> set (cells L y)" if "c \<in> set free \<union> set live" for c
    using that unfolding same by (simp add: all_cells_in)
  show "inside h (fst x) 8" if "x \<in> set bs"
    by (rule insideI [of x]) (use that sub big [OF that] sizes_pos [of L] in auto)
  show "inside h c (ALIGNED_SIZE L) \<and> c \<noteq> 0 \<and> c mod ALIGNMENT L = 0" if c: "c \<in> set free \<union> set live"
  proof -
    obtain y where y: "y \<in> set bs" "c \<in> set (cells L y)" using cell [OF c] by blast
    note b = cell_bounds [OF y(2)] sizes_pos [of L]
    have "inside h c (ALIGNED_SIZE L)" by (rule insideI [of y]) (use y(1) sub b in auto)
    moreover have "c mod ALIGNMENT L = 0"
      using y(2) big [OF y(1)] aligned_sizes(3) [of L] by (auto simp: cells_def mod_eq_0_iff_dvd)
    ultimately show ?thesis using b by simp
  qed
  show "apart (fst x, 8) (c, ALIGNED_SIZE L)" if c: "c \<in> set free \<union> set live" and x: "x \<in> set bs"
  proof -
    obtain y where y: "y \<in> set bs" "c \<in> set (cells L y)" using cell [OF c] by blast
    note b = cell_bounds [OF y(2)] aligned_sizes [of L] sizes_pos [of L] big [OF x]
    with ap [OF x y(1)] show ?thesis by (auto simp: apart_def)
  qed
  show "apart (c, ALIGNED_SIZE L) (d, ALIGNED_SIZE L)"
    if c: "c \<in> set free \<union> set live" and d: "d \<in> set free \<union> set live" and "c \<noteq> d"
    using cell [OF c] cell [OF d] cells_apart ap \<open>c \<noteq> d\<close> by blast
qed

text \<open>The lists are kept by what happens outside of the blocks' first words and the free cells.\<close>

lemma chains_frame:
  assumes inv: "pool_inv L h p bs free live" and "frame R h h'"
    and heads: "\<And>x. x \<in> set bs \<Longrightarrow> apart (fst x, 8) R" and cells: "\<And>c. c \<in> set free \<Longrightarrow> apart (c, 8) R"
  shows "chain (stored h') (mListForFree p) (map fst bs)" "chain (stored h') (mHead p) free"
proof -
  have c: "chain (stored h) (mListForFree p) (map fst bs)" "chain (stored h) (mHead p) free"
    using inv by (simp_all add: pool_inv_def)
  show "chain (stored h') (mListForFree p) (map fst bs)"
  proof (rule chain_frame [OF c(1) assms(2)])
    fix a
    assume "a \<in> set (map fst bs)"
    then have "a \<in> fst ` set bs" by simp
    then obtain x where x: "a = fst x" "x \<in> set bs" by (rule imageE)
    show "apart (a, 8) R" unfolding x(1) by (rule heads [OF x(2)])
  qed
  show "chain (stored h') (mHead p) free" by (rule chain_frame [OF c(2) assms(2)]) (rule cells)
qed

lemma chains_kept:
  assumes heap: "heap_inv h" and inv: "pool_inv L h p bs free live" and f: "frame (c, n) h h'" and n: "n \<le> ALIGNED_SIZE L" and live: "c \<in> set live"
  shows "chain (stored h') (mListForFree p) (map fst bs)" "chain (stored h') (mHead p) free"
proof -
  note cells = pool_cells [OF heap inv]
  have c: "c \<in> set free \<union> set live" using live by simp
  have heads: "apart (fst x, 8) (c, n)" if x: "x \<in> set bs" for x
    by (rule apart_within2 [OF cells(5) [OF c x]]) (use n in simp_all)
  have "apart (a, 8) (c, n)" if a: "a \<in> set free" for a
  proof -
    have "a \<noteq> c" "a \<in> set free \<union> set live" using a live cells(1) by auto
    then have "apart (a, ALIGNED_SIZE L) (c, ALIGNED_SIZE L)" using cells(6) [OF _ c] by blast
    then show ?thesis by (rule apart_within2) (use n sizes_pos(3) [of L] in simp_all)
  qed
  with chains_frame [OF inv f heads]
  show "chain (stored h') (mListForFree p) (map fst bs)" "chain (stored h') (mHead p) free" by blast+
qed

lemma pool_inv_kept:
  assumes "heap_inv h" "pool_inv L h p bs free live" "frame (c, n) h h'" "n \<le> ALIGNED_SIZE L" "c \<in> set live" "blocks h' = blocks h"
  shows "pool_inv L h' p bs free live"
  using chains_kept [OF assms(1-5)] assms(2,6) by (simp add: pool_inv_def)

section \<open>The operations\<close>

lemma Pool_ctor_inv: "pool_inv L h Pool_ctor [] [] []"
  by (simp add: pool_inv_def Pool_ctor_def all_cells_def)

lemma heap_inv_cong: "blocks h' = blocks h \<Longrightarrow> heap_inv h' = heap_inv h"
  by (simp add: heap_inv_def)

lemma Pool_deallocate_spec:
  assumes heap: "heap_inv h" and inv: "pool_inv L h p bs free (xs @ c # ys)"
  shows "\<exists>p'. Pool_deallocate c p h = (Inr p', overwrite c (Pointer (mHead p)) h) \<and>
    pool_inv L (overwrite c (Pointer (mHead p)) h) p' bs (c # free) (xs @ ys)"
proof -
  let ?h = "overwrite c (Pointer (mHead p)) h"
  have c: "inside h c 8" "c \<noteq> 0"
    using pool_cells(4) [OF heap inv, of c] sizes_pos(3) [of L] inside_mono by auto
  note chains = chains_kept [OF heap inv, of c 8 ?h]
  have "frame (c, 8) h ?h" using frame_overwrite [of c "Pointer (mHead p)" h] by simp
  then have "chain (stored ?h) (mListForFree p) (map fst bs)" "chain (stored ?h) (mHead p) free"
    using chains sizes_pos(3) [of L] by simp_all
  then have "pool_inv L ?h (p\<lparr>mHead := c\<rparr>) bs (c # free) (xs @ ys)"
    using inv c(2) by (auto simp: pool_inv_def)
  with c(1) show ?thesis by (simp add: Pool_deallocate_def bnd_Inr store_ptr_def store_def ret_def)
qed

text \<open>The links of consecutive cells.\<close>

lemma link_cells_spec:
  assumes "\<And>j. i \<le> j \<Longrightarrow> j < i + n \<Longrightarrow> inside h (head + j * w) 8" "8 \<le> w"
  shows "\<exists>h'. link_cells head w i n h = (Inr (), h') \<and> blocks h' = blocks h \<and> frame (head + i * w, n * w) h h' \<and>
    (\<forall>j. i \<le> j \<and> j < i + n \<longrightarrow> stored h' (head + j * w) = Some (Pointer (head + Suc j * w)))"
  using assms(1)
proof (induction n arbitrary: i h)
  case 0
  then show ?case by (auto simp: ret_def frame_refl)
next
  case (Suc n)
  let ?p = "head + i * w"
  let ?h = "overwrite ?p (Pointer (head + Suc i * w)) h"
  have step: "link_cells head w i (Suc n) h = link_cells head w (Suc i) n ?h"
    using Suc.prems [of i] by (simp add: store_ptr_def store_def bnd_Inr del: mult_Suc)
  have overwrite: "frame (?p, 8) h ?h" using frame_overwrite [of ?p "Pointer (head + Suc i * w)" h] by simp
  obtain h' where h': "link_cells head w (Suc i) n ?h = (Inr (), h')" "blocks h' = blocks ?h"
    "frame (head + Suc i * w, n * w) ?h h'"
    "\<And>j. Suc i \<le> j \<Longrightarrow> j < Suc i + n \<Longrightarrow> stored h' (head + j * w) = Some (Pointer (head + Suc j * w))"
    using Suc.IH [of "Suc i" ?h] Suc.prems by auto
  have "frame (?p, Suc n * w) h h'"
  proof (rule frame_trans)
    show "frame (?p, Suc n * w) h ?h" by (rule frame_within [OF overwrite]) (use assms(2) in simp_all)
    show "frame (?p, Suc n * w) ?h h'" by (rule frame_within [OF h'(3)]) simp_all
  qed
  moreover have "stored h' ?p = Some (Pointer (head + Suc i * w))"
    by (rule frameD [OF h'(3)]) (use assms(2) in \<open>simp_all add: apart_def\<close>)
  with h'(4) have "stored h' (head + j * w) = Some (Pointer (head + Suc j * w))" if "i \<le> j" "j < i + Suc n" for j
    using that by (cases "j = i") auto
  ultimately show ?case using step h'(1,2) by (intro exI [of _ h']) simp
qed

text \<open>A new block: its cells become the first free ones.\<close>

lemma Pool_add_spec:
  assumes heap: "heap_inv h" and inv: "pool_inv L h p bs free live"
    and new: "x \<in> set (blocks h)" "x \<notin> set bs"
    and big: "ALIGNMENT L + ALIGNED_SIZE L \<le> snd x" "fst x mod ALIGNMENT L = 0"
  shows "\<exists>p' h'. Pool_add L (fst x) (snd x) p h = (Inr p', h') \<and>
    pool_inv L h' p' (x # bs) (cells L x @ free) live \<and> mHead p' \<noteq> 0 \<and> blocks h' = blocks h \<and> frame x h h'"
proof -
  let ?n = "(snd x - ALIGNMENT L) div ALIGNED_SIZE L" and ?w = "ALIGNED_SIZE L" and ?head = "fst x + ALIGNMENT L"
  let ?last = "?head + (?n - 1) * ?w" and ?p' = "p\<lparr>mListForFree := fst x, mHead := ?head\<rparr>"
  note pos = aligned_sizes [of L] sizes_pos [of L]
  have n: "0 < ?n" using big(1) pos by (simp add: div_greater_zero_iff)
  have at: "?head + j * ?w \<in> set (cells L x)" if "j < ?n" for j using that by (auto simp: cells_def)
  have bnd: "?head + j * ?w + ?w \<le> fst x + snd x" if "j < ?n" for j using cell_bounds(2) [OF at [OF that]] .
  have ins: "inside h (?head + j * ?w) 8" if "j < ?n" for j
    by (rule insideI [OF new(1)]) (use bnd [OF that] pos in auto)
  have ins0: "inside h (fst x) 8" by (rule insideI [OF new(1)]) (use big(1) pos in auto)
  let ?h1 = "overwrite (fst x) (Pointer (mListForFree p)) h"
  obtain h2 where h2: "link_cells ?head ?w 0 ?n ?h1 = (Inr (), h2)" "blocks h2 = blocks h" "frame (?head, ?n * ?w) ?h1 h2"
    "\<And>j. j < ?n \<Longrightarrow> stored h2 (?head + j * ?w) = Some (Pointer (?head + Suc j * ?w))"
    using link_cells_spec [of 0 ?n ?h1 ?head ?w] ins pos by auto
  let ?h3 = "overwrite ?last (Pointer (mHead p)) h2"
  have s3: "store_ptr ?last (mHead p) h2 = (Inr (), ?h3)"
    using ins [of "?n - 1"] n inside_cong [OF h2(2)] by (simp add: store_ptr_def store_def)
  have run: "Pool_add L (fst x) (snd x) p h = (Inr ?p', ?h3)"
    using ins0 h2(1) s3 by (simp add: Pool_add_def Let_def bnd_Inr store_ptr_def [of "fst x"] store_def [of "fst x"] ret_def)
  have nw: "?n * ?w \<le> snd x - ALIGNMENT L" by (rule div_times_less_eq_dividend)
  have f1: "frame (fst x, 8) h ?h1" using frame_overwrite [of "fst x" "Pointer (mListForFree p)" h] by simp
  have f3: "frame (?last, 8) h2 ?h3" using frame_overwrite [of ?last "Pointer (mHead p)" h2] by simp
  have last: "?last + ?w \<le> fst x + snd x" using bnd [of "?n - 1"] n by simp
  have far: "frame x h ?h3"
  proof (rule frame_trans)
    show "frame x h ?h1" by (rule frame_within [OF f1]) (use big(1) pos in auto)
    show "frame x ?h1 ?h3"
    proof (rule frame_trans)
      show "frame x ?h1 h2" by (rule frame_within [OF h2(3)]) (use big(1) nw in linarith)+
      show "frame x h2 ?h3" by (rule frame_within [OF f3]) (use last pos in auto)
    qed
  qed
  have out: "apart (a, 8) x" if "a \<in> set (map fst bs) \<union> set free" for a
  proof -
    have "\<exists>y \<in> set bs. fst y \<le> a \<and> a + 8 \<le> fst y + snd y"
    proof (cases "a \<in> set free")
      case True
      then have "a \<in> set (all_cells L bs)" using pool_cells(2) [OF heap inv] by auto
      then obtain y where "y \<in> set bs" "a \<in> set (cells L y)" by (auto simp: all_cells_in)
      then show ?thesis using cell_bounds [of a L y] pos by (intro bexI [of _ y]) auto
    next
      case False
      then have "a \<in> fst ` set bs" using that by simp
      then obtain y where "y \<in> set bs" "a = fst y" by (rule imageE)
      moreover have "8 \<le> snd y" using inv \<open>y \<in> set bs\<close> pos by (force simp: pool_inv_def)
      ultimately show ?thesis by (intro bexI [of _ y]) auto
    qed
    then obtain y where y: "y \<in> set bs" "fst y \<le> a" "a + 8 \<le> fst y + snd y" by blast
    have "y \<in> set (blocks h)" "x \<noteq> y" using inv y(1) new(2) by (auto simp: pool_inv_def)
    then have "apart x y" using heap new(1) by (auto simp: heap_inv_def simp del: split_paired_All)
    with y show ?thesis by (auto simp: apart_def)
  qed
  have keep: "chain (stored ?h3) q as" if "chain (stored h) q as" "set as \<subseteq> set (map fst bs) \<union> set free" for q as
    by (rule chain_frame [OF that(1) far]) (use that(2) out in blast)
  have null: "fst x \<noteq> 0" using heap new(1) by (simp add: heap_inv_def)
  have gx: "stored ?h3 (fst x) = Some (Pointer (mListForFree p))"
    by (intro frameD [OF f3] frameD [OF h2(3)]) (use pos in \<open>simp_all add: apart_def\<close>)
  have link: "stored ?h3 (?head + i * ?w) = Some (Pointer (if Suc i = ?n then mHead p else ?head + Suc i * ?w))" if "i < ?n" for i
  proof (cases "Suc i = ?n")
    case True
    then have eq: "?head + i * ?w = ?last" by (metis diff_Suc_1)
    show ?thesis unfolding eq using True by simp
  next
    case False
    then have "Suc i * ?w \<le> (?n - 1) * ?w" using that by (intro mult_le_mono1) simp
    then have "apart (?head + i * ?w, 8) (?last, 8)" using pos by (simp add: apart_def)
    with frameD [OF f3 h2(4) [OF that]] False show ?thesis by simp
  qed
  have "chain (stored ?h3) (?head + 0 * ?w) (map (\<lambda>i. ?head + i * ?w) [0..<?n] @ free)"
    by (rule chain_run [where q = "mHead p", OF link]) (use keep [of _ free] inv null n in \<open>simp_all add: pool_inv_def\<close>)
  then have c1: "chain (stored ?h3) (mHead ?p') (cells L x @ free)" by (simp add: cells_def)
  have c2: "chain (stored ?h3) (mListForFree ?p') (map fst (x # bs))"
    using keep [of _ "map fst bs"] inv null gx by (simp add: pool_inv_def)
  have "pool_inv L ?h3 ?p' (x # bs) (cells L x @ free) live"
    using c1 c2 inv new big h2(2) by (auto simp: pool_inv_def all_cells_def)
  with run far null h2(2) show ?thesis by (intro exI [of _ ?p'] exI [of _ ?h3]) simp
qed

lemma calc_loop_spec:
  assumes "chain (stored h) tmp as" "\<And>a. a \<in> set as \<Longrightarrow> inside h a 8" "MaxNumAllocs \<le> n + num" "1 \<le> num"
  shows "\<exists>m. calc_loop n num tmp h = (Inr m, h) \<and> num \<le> m \<and> (num \<le> MaxNumAllocs \<longrightarrow> m \<le> MaxNumAllocs)"
  using assms
proof (induction n arbitrary: num tmp as)
  case 0
  then show ?case by (simp add: ret_def)
next
  case (Suc n)
  show ?case
  proof (cases "num * 2 \<le> MaxNumAllocs \<and> tmp \<noteq> 0")
    case True
    then obtain a bs where bs: "as = tmp # bs" "stored h tmp = Some (Pointer a)" "chain (stored h) a bs"
      using Suc.prems(1) by (auto simp: chain_nonnull)
    have "\<exists>m. calc_loop n (num * 2) a h = (Inr m, h) \<and> num * 2 \<le> m \<and>
        (num * 2 \<le> MaxNumAllocs \<longrightarrow> m \<le> MaxNumAllocs)"
      using bs Suc.prems by (intro Suc.IH) auto
    moreover have "load_ptr tmp h = (Inr a, h)" using Suc.prems(2) bs by (simp add: load_ptr_def)
    ultimately show ?thesis using True by (auto simp: bnd_Inr)
  next
    case False
    then show ?thesis by (auto simp: ret_def)
  qed
qed

lemma std_malloc_Inr: "\<exists>a h'. std_malloc alloc n h = (Inr a, h')"
  by (cases "alloc (mallocs h) (blocks h) n = 0") (simp_all add: std_malloc_def Let_def)

lemma heap_inv_malloc:
  assumes "heap_inv h" "good_malloc L alloc" "std_malloc alloc n h = (Inr a, h')" "0 < n"
  shows "heap_inv h'" "a \<noteq> 0 \<Longrightarrow> blocks h' = (a, n) # blocks h \<and> (a, n) \<notin> set (blocks h) \<and> a mod ALIGNMENT L = 0"
    "a = 0 \<Longrightarrow> blocks h' = blocks h" "x \<in> set (blocks h) \<Longrightarrow> a \<noteq> 0 \<Longrightarrow> apart x (a, n)"
    "a = 0 \<Longrightarrow> stored h' = stored h" "frame (a, n) h h'"
proof -
  have a: "a = alloc (mallocs h) (blocks h) n"
    using assms(3) by (auto simp: std_malloc_def Let_def split: if_splits)
  have new: "a mod ALIGNMENT L = 0 \<and> (\<forall>x \<in> set (blocks h). apart (a, n) x)" if "a \<noteq> 0"
    using spec [OF spec [OF spec [OF assms(2) [unfolded good_malloc_def]]], of "mallocs h" "blocks h" n] that by (simp add: a)
  have notin: "(a, n) \<notin> set (blocks h)" if "a \<noteq> 0"
    using new [OF that] assms(4) by (auto simp: apart_def)
  have bl: "blocks h' = (if a = 0 then [] else [(a, n)]) @ blocks h"
    using assms(3) by (auto simp: std_malloc_def Let_def split: if_splits)
  show "a \<noteq> 0 \<Longrightarrow> blocks h' = (a, n) # blocks h \<and> (a, n) \<notin> set (blocks h) \<and> a mod ALIGNMENT L = 0"
    using new notin bl by simp
  show "a = 0 \<Longrightarrow> blocks h' = blocks h" using bl by simp
  show "apart x (a, n)" if "x \<in> set (blocks h)" "a \<noteq> 0" using new [OF that(2)] that(1) apart_sym by blast
  show "a = 0 \<Longrightarrow> stored h' = stored h" using assms(3) by (auto simp: std_malloc_def Let_def split: if_splits)
  show "heap_inv h'"
    using assms(1) new notin assms(4) bl apart_sym by (cases "a = 0") (auto simp: heap_inv_def)
  show "frame (a, n) h h'"
    unfolding frame_def
  proof (intro allI impI, elim conjE)
    fix q d
    assume "stored h q = Some d" "apart (q, extent d) (a, n)"
    then show "stored h' q = Some d"
      using assms(3) extent_pos [of d] by (auto simp: std_malloc_def Let_def apart_def split: if_splits)
  qed
qed

text \<open>New memory does not touch an allocator.\<close>

lemma inside_block: "heap_inv h \<Longrightarrow> inside h q n \<Longrightarrow> (\<And>x. x \<in> set (blocks h) \<Longrightarrow> apart x R) \<Longrightarrow> apart (q, n) R"
  by (force simp: inside_def list_ex_iff apart_def)

lemma pool_inv_malloc:
  assumes "heap_inv h" "good_malloc L alloc" "std_malloc alloc n h = (Inr a, h')" "0 < n" "pool_inv L h p bs free live"
  shows "pool_inv L h' p bs free live"
proof (cases "a = 0")
  case True
  with heap_inv_malloc(3,5) [OF assms(1-4)] assms(5) show ?thesis by (simp add: pool_inv_def)
next
  case False
  note cells = pool_cells [OF assms(1,5)] and got = heap_inv_malloc [OF assms(1-4)]
  have far: "apart (b, 8) (a, n)" if "inside h b 8" for b
    by (rule inside_block [OF assms(1) that]) (use got(4) False in blast)
  have free: "apart (c, 8) (a, n)" if "c \<in> set free" for c
    by (rule far, rule inside_mono [of _ _ "ALIGNED_SIZE L"]) (use cells(4) [of c] that sizes_pos(3) [of L] in simp_all)
  have "chain (stored h') (mListForFree p) (map fst bs)" "chain (stored h') (mHead p) free"
    by (rule chains_frame [OF assms(5) got(6) far [OF cells(3)] free]; simp)+
  with assms(5) got(2) [OF False] show ?thesis by (auto simp: pool_inv_def)
qed

text \<open>Objects in cells are kept.\<close>

definition keeps :: "Layout \<Rightarrow> nat list \<Rightarrow> 'v Heap \<Rightarrow> 'v Heap \<Rightarrow> bool" where
  "keeps L live h h' \<longleftrightarrow> (\<forall>c \<in> set live. \<forall>d. stored h c = Some d \<and> extent d \<le> ALIGNED_SIZE L \<longrightarrow> stored h' c = Some d)"

lemma keeps_refl [simp]: "keeps L live h h"
  by (simp add: keeps_def)

lemma keeps_trans: "keeps L live h h1 \<Longrightarrow> keeps L live h1 h2 \<Longrightarrow> keeps L live h h2"
  by (simp add: keeps_def)

lemma keeps_frame:
  assumes "frame R h h'" "\<And>c. c \<in> set live \<Longrightarrow> apart (c, ALIGNED_SIZE L) R"
  shows "keeps L live h h'"
  unfolding keeps_def
proof (intro ballI allI impI, elim conjE)
  fix c d
  assume "c \<in> set live" and d: "stored h c = Some d" "extent d \<le> ALIGNED_SIZE L"
  then have "apart (c, extent d) R" using apart_within [OF assms(2), of c c "extent d"] by simp
  then show "stored h' c = Some d" by (rule frameD [OF assms(1) d(1)])
qed

lemma keeps_block:
  assumes "heap_inv h" "pool_inv L h p bs free live" "frame R h h'" "\<And>x. x \<in> set bs \<Longrightarrow> apart x R"
  shows "keeps L live h h'"
proof (rule keeps_frame [OF assms(3)])
  fix c
  assume "c \<in> set live"
  then have "c \<in> set (all_cells L bs)" using pool_cells(2) [OF assms(1,2)] by blast
  then obtain y where y: "y \<in> set bs" "c \<in> set (cells L y)" by (auto simp: all_cells_in)
  show "apart (c, ALIGNED_SIZE L) R"
    by (rule apart_within [OF assms(4) [OF y(1)]]) (use cell_bounds [OF y(2)] sizes_pos [of L] in auto)
qed

text \<open>Taking a cell: the first free one, from a new block if there is none, unless there is no memory for a new block.\<close>

abbreviation bad_alloc :: fault where
  "bad_alloc \<equiv> StdThrow ''std::bad_alloc''"

lemma performAllocation_spec:
  assumes heap: "heap_inv h" and inv: "pool_inv L h p bs free live" and malloc: "good_malloc L alloc"
  shows "(\<exists>p' h' x. performAllocation L alloc p h = (Inr p', h') \<and> heap_inv h' \<and> pool_inv L h' p' (x # bs) (cells L x @ free) live \<and>
       mHead p' \<noteq> 0 \<and> blocks h' = x # blocks h \<and> keeps L live h h') \<or>
     (\<exists>h'. performAllocation L alloc p h = (Inl bad_alloc, h') \<and> heap_inv h' \<and> pool_inv L h' p bs free live \<and>
       blocks h' = blocks h \<and> keeps L live h h')"
proof -
  note pos = sizes_pos [of L]
  have "inside h a 8" if "a \<in> set (map fst bs)" for a using that pool_cells(3) [OF heap inv] by auto
  then obtain m where m: "calcNumElementsToAlloc p h = (Inr m, h)" "1 \<le> m"
    using calc_loop_spec [of h "mListForFree p" "map fst bs" MaxNumAllocs MinNumAllocs] inv
    by (auto simp: pool_inv_def calcNumElementsToAlloc_def)
  let ?n = "ALIGNMENT L + ALIGNED_SIZE L * m"
  have big: "ALIGNMENT L + ALIGNED_SIZE L \<le> ?n" using m(2) by simp
  obtain a h1 where a: "std_malloc alloc ?n h = (Inr a, h1)" using std_malloc_Inr by blast
  have "0 < ?n" using pos by simp
  note got = heap_inv_malloc [OF heap malloc a this] and inv1 = pool_inv_malloc [OF heap malloc a this inv]
  have bs: "set bs \<subseteq> set (blocks h)" using inv by (simp add: pool_inv_def)
  have run: "performAllocation L alloc p h = (bnd (assertNotNull a) (\<lambda>ptr. Pool_add L ptr ?n p)) h1"
    using m a by (simp add: performAllocation_def bnd_Inr Let_def)
  show ?thesis
  proof (cases "a = 0")
    case True
    then have "performAllocation L alloc p h = (Inl bad_alloc, h1)"
      using run by (simp add: assertNotNull_def bnd_def raise_def)
    with True got(1,3,5) inv1 show ?thesis by (intro disjI2 exI [of _ h1]) (simp add: keeps_def)
  next
    case False
    let ?x = "(a, ?n)"
    have away: "apart x ?x" if "x \<in> set bs" for x using got(4) [OF _ False] that bs by blast
    have "?x \<notin> set bs" using bs got(2) [OF False] by blast
    then obtain p' h2 where add: "Pool_add L a ?n p h1 = (Inr p', h2)" "mHead p' \<noteq> 0" "blocks h2 = blocks h1" "frame ?x h1 h2"
      "pool_inv L h2 p' (?x # bs) (cells L ?x @ free) live"
      using Pool_add_spec [OF got(1) inv1, of ?x] got(2) [OF False] big by auto
    have "performAllocation L alloc p h = (Inr p', h2)"
      using run add False by (simp add: assertNotNull_def bnd_Inr ret_def)
    moreover have "keeps L live h h2"
      by (rule keeps_block [OF heap inv frame_trans [OF got(6) add(4)] away])
    ultimately show ?thesis
      using add got(1,2) False heap_inv_cong [OF add(3)] by (intro disjI1 exI [of _ p'] exI [of _ h2] exI [of _ ?x]) simp
  qed
qed

text \<open>Taking the first free cell.\<close>

lemma take_cell:
  assumes heap: "heap_inv h" and inv: "pool_inv L h p bs free live" and "mHead p \<noteq> 0"
  obtains b rest where "free = mHead p # rest" "load_ptr (mHead p) h = (Inr b, h)"
    "pool_inv L h (p\<lparr>mHead := b\<rparr>) bs rest (mHead p # live)"
proof -
  obtain b rest where r: "free = mHead p # rest" "stored h (mHead p) = Some (Pointer b)" "chain (stored h) b rest"
    using inv assms(3) by (auto simp: pool_inv_def chain_nonnull)
  have "inside h (mHead p) (ALIGNED_SIZE L)" using pool_cells(4) [OF heap inv, of "mHead p"] r(1) by simp
  from inside_mono [OF this sizes_pos(3)] r(2) have "load_ptr (mHead p) h = (Inr b, h)" by (simp add: load_ptr_def)
  moreover have "pool_inv L h (p\<lparr>mHead := b\<rparr>) bs rest (mHead p # live)" using inv r by (simp add: pool_inv_def)
  ultimately show thesis using that r(1) by blast
qed

lemma Pool_allocate_spec:
  assumes heap: "heap_inv h" and inv: "pool_inv L h p bs free live" and malloc: "good_malloc L alloc"
  shows "(\<exists>c p' h' new free'. Pool_allocate L alloc p h = (Inr (c, p'), h') \<and> heap_inv h' \<and>
       pool_inv L h' p' (new @ bs) free' (c # live) \<and> blocks h' = new @ blocks h \<and> keeps L live h h') \<or>
     (\<exists>h'. Pool_allocate L alloc p h = (Inl bad_alloc, h') \<and> heap_inv h' \<and> pool_inv L h' p bs free live \<and>
       blocks h' = blocks h \<and> keeps L live h h')"
proof (cases "mHead p = 0")
  case False
  obtain b rest where "load_ptr (mHead p) h = (Inr b, h)"
    "pool_inv L h (p\<lparr>mHead := b\<rparr>) bs rest (mHead p # live)"
    using take_cell [OF heap inv False] by metis
  with False heap show ?thesis
    by (intro disjI1 exI [of _ "mHead p"] exI [of _ "p\<lparr>mHead := b\<rparr>"] exI [of _ h] exI [of _ "[]"] exI [of _ rest])
      (simp add: Pool_allocate_def bnd_Inr Let_def ret_def)
next
  case True
  from performAllocation_spec [OF assms] show ?thesis
  proof (elim disjE exE conjE)
    fix p' h' x
    assume run: "performAllocation L alloc p h = (Inr p', h')" and heap': "heap_inv h'"
      and inv': "pool_inv L h' p' (x # bs) (cells L x @ free) live" and head: "mHead p' \<noteq> 0"
      and same: "blocks h' = x # blocks h" "keeps L live h h'"
    obtain b rest where "load_ptr (mHead p') h' = (Inr b, h')"
      "pool_inv L h' (p'\<lparr>mHead := b\<rparr>) (x # bs) rest (mHead p' # live)"
      using take_cell [OF heap' inv' head] by metis
    with run True heap' same show ?thesis
      by (intro disjI1 exI [of _ "mHead p'"] exI [of _ "p'\<lparr>mHead := b\<rparr>"] exI [of _ h'] exI [of _ "[x]"] exI [of _ rest])
        (simp add: Pool_allocate_def bnd_Inr Let_def ret_def)
  next
    fix h'
    assume "performAllocation L alloc p h = (Inl bad_alloc, h')" "heap_inv h'" "pool_inv L h' p bs free live"
      "blocks h' = blocks h" "keeps L live h h'"
    with True show ?thesis by (auto simp: Pool_allocate_def bnd_def)
  qed
qed

text \<open>Giving all blocks back.\<close>

lemma free_block:
  assumes "heap_inv h" "x \<in> set (blocks h)"
  shows "std_free (fst x) h = (Inr (), h\<lparr>blocks := filter (\<lambda>y. y \<noteq> x) (blocks h)\<rparr>)"
proof -
  have "fst y = fst x \<longleftrightarrow> y = x" if y: "y \<in> set (blocks h)" for y
  proof
    assume "fst y = fst x"
    moreover have "0 < snd x" "0 < snd y" "x = y \<or> apart x y" using assms y by (simp_all add: heap_inv_def)
    ultimately show "y = x" by (auto simp: apart_def)
  qed simp
  then have "filter (\<lambda>(b, n). b \<noteq> fst x) (blocks h) = filter (\<lambda>y. y \<noteq> x) (blocks h)"
    by (intro filter_cong) (auto simp: case_prod_beta)
  moreover have "fst x \<noteq> 0" using assms by (simp add: heap_inv_def)
  moreover have "list_ex (\<lambda>(b, n). b = fst x) (blocks h)" using assms(2) by (auto simp: list_ex_iff case_prod_beta)
  ultimately show ?thesis by (simp add: std_free_def)
qed

lemma reset_loop_spec:
  assumes "heap_inv h" "chain (stored h) (mListForFree p) (map fst bs)" "set bs \<subseteq> set (blocks h)" "distinct bs"
    "\<And>x. x \<in> set bs \<Longrightarrow> 8 \<le> snd x" "length bs \<le> n"
  shows "reset_loop n p h = (Inr (p\<lparr>mListForFree := 0\<rparr>), h\<lparr>blocks := filter (\<lambda>x. x \<notin> set bs) (blocks h)\<rparr>)"
  using assms
proof (induction bs arbitrary: n p h)
  case Nil
  then show ?case by (cases n) (simp_all add: ret_def)
next
  case (Cons x bs)
  then obtain m where m: "n = Suc m" by (cases n) auto
  obtain b where b: "stored h (fst x) = Some (Pointer b)" "chain (stored h) b (map fst bs)" "fst x \<noteq> 0" "mListForFree p = fst x"
    using Cons.prems(2) by auto
  let ?h = "h\<lparr>blocks := filter (\<lambda>y. y \<noteq> x) (blocks h)\<rparr>" and ?p = "p\<lparr>mListForFree := b\<rparr>"
  have "load_ptr (fst x) h = (Inr b, h)"
    using insideI [of x h "fst x" 8] Cons.prems b by (simp add: load_ptr_def)
  moreover have "std_free (fst x) h = (Inr (), ?h)" using Cons.prems by (intro free_block) simp_all
  ultimately have "reset_loop n p h = reset_loop m ?p ?h"
    using b by (simp add: m bnd_Inr)
  also have "\<dots> = (Inr (?p\<lparr>mListForFree := 0\<rparr>), ?h\<lparr>blocks := filter (\<lambda>x. x \<notin> set bs) (blocks ?h)\<rparr>)"
    by (rule Cons.IH) (use Cons.prems m b in \<open>auto simp: heap_inv_def\<close>)
  finally show ?case by (auto simp: filter_filter intro: filter_cong)
qed

lemma Pool_reset_spec:
  assumes heap: "heap_inv h" and inv: "pool_inv L h p bs free live"
  shows "Pool_reset p h = (Inr Pool_ctor, h\<lparr>blocks := filter (\<lambda>x. x \<notin> set bs) (blocks h)\<rparr>)"
proof -
  have "8 \<le> snd x" if "x \<in> set bs" for x using inv that aligned_sizes [of L] by (force simp: pool_inv_def)
  moreover have "length bs \<le> length (blocks h)"
    using inv card_mono [of "set (blocks h)" "set bs"] heap by (simp add: pool_inv_def heap_inv_def distinct_card)
  ultimately have "reset_loop (length (blocks h)) p h =
      (Inr (p\<lparr>mListForFree := 0\<rparr>), h\<lparr>blocks := filter (\<lambda>x. x \<notin> set bs) (blocks h)\<rparr>)"
    using heap inv by (intro reset_loop_spec) (simp_all add: pool_inv_def)
  then show ?thesis by (simp add: Pool_reset_def bnd_Inr gets_def ret_def Pool_ctor_def)
qed

section \<open>The other members\<close>

lemma pool_inv_perm: "mset live = mset live' \<Longrightarrow> pool_inv L h p bs free live = pool_inv L h p bs free live'"
  by (simp add: pool_inv_def)

text \<open>A block that is given to the allocator is its own if it has room for a cell, and freed otherwise.\<close>

lemma addOrFree_spec:
  assumes heap: "heap_inv h" and inv: "pool_inv L h p bs free live"
    and new: "blocks h = x # others" "x \<notin> set bs" "fst x mod ALIGNMENT L = 0"
  shows "\<exists>p' h' new free'. addOrFree L (fst x) (snd x) p h = (Inr p', h') \<and> blocks h' = new @ others \<and>
    heap_inv h' \<and> pool_inv L h' p' (new @ bs) free' live \<and> frame x h h'"
proof (cases "snd x < ALIGNMENT L + ALIGNED_SIZE L")
  case True
  have "x \<notin> set others" using heap new(1) by (simp add: heap_inv_def)
  then have "filter (\<lambda>y. y \<noteq> x) others = others" by (induction others) auto
  then have free: "std_free (fst x) h = (Inr (), h\<lparr>blocks := others\<rparr>)"
    using free_block [OF heap, of x] new(1) by simp
  have "pool_inv L (h\<lparr>blocks := others\<rparr>) p bs free live" using inv new(1,2) by (auto simp: pool_inv_def)
  moreover have "heap_inv (h\<lparr>blocks := others\<rparr>)" using heap new(1) by (simp add: heap_inv_def)
  ultimately show ?thesis
    using True free
    by (intro exI [of _ p] exI [of _ "h\<lparr>blocks := others\<rparr>"] exI [of _ "[]"] exI [of _ free])
      (simp add: addOrFree_def bnd_Inr ret_def frame_def)
next
  case False
  with Pool_add_spec [OF heap inv, of x] new obtain p' h' where add: "Pool_add L (fst x) (snd x) p h = (Inr p', h')"
    "pool_inv L h' p' (x # bs) (cells L x @ free) live" "blocks h' = blocks h" "frame x h h'" by auto
  with False new(1) heap heap_inv_cong [OF add(3)] show ?thesis
    by (intro exI [of _ p'] exI [of _ h'] exI [of _ "[x]"] exI [of _ "cells L x @ free"]) (simp add: addOrFree_def)
qed

text \<open>Moving and swapping hand the lists over; the source of a move is empty, the target of an assignment gave its blocks back.\<close>

lemma Pool_handed_over:
  assumes "pool_inv L h p bs free live"
  shows "Pool_move p = (p', q) \<Longrightarrow> pool_inv L h p' bs free live \<and> q = Pool_ctor"
    and "Pool_swap p other = (p', q) \<Longrightarrow> pool_inv L h q bs free live \<and> p' = other"
    and "Pool_copy p = (p', q) \<Longrightarrow> q = p \<and> p' = Pool_ctor"
  using assms by (auto simp: Pool_move_def Pool_swap_def Pool_copy_def Pool_ctor_def pool_inv_def)

lemma Pool_move_assign_spec:
  assumes heap: "heap_inv h" and inv: "pool_inv L h p bs free live" and other: "pool_inv L h q cs free' live'"
    and sep: "set bs \<inter> set cs = {}"
  shows "\<exists>p'. Pool_move_assign p q h = (Inr (p', Pool_ctor), h\<lparr>blocks := filter (\<lambda>x. x \<notin> set bs) (blocks h)\<rparr>) \<and>
    pool_inv L (h\<lparr>blocks := filter (\<lambda>x. x \<notin> set bs) (blocks h)\<rparr>) p' cs free' live'"
  using Pool_reset_spec [OF heap inv] other sep
  by (auto simp: Pool_move_assign_def bnd_Inr ret_def Pool_ctor_def pool_inv_def)

end
