(* ===== verification/Pool_Nodes.thy ===== *)
theory Pool_Nodes
  imports Pool_Correct
begin

text \<open>
  Nodes behave like a list of values: a client of the node form makes nodes, reads and destroys them, and gives memory
  to the allocator. Its answers are those of a list, until there is no memory; live objects never share memory,
  and in the end all blocks go back.
\<close>

datatype 'v node_request = NewNode 'v | GetNode nat | DestroyNode nat | GiveBlock nat

type_synonym 'v store = "'v Heap \<times> Pool \<times> nat list"

fun keeping :: "nat list \<Rightarrow> Pool \<Rightarrow> (fault + Pool) \<times> 'v Heap \<Rightarrow> (fault + 'a option) \<times> 'v store" where
  "keeping held p (Inr p', h) = (Inr None, (h, p', held))"
| "keeping held p (Inl e, h) = (Inl e, (h, p, held))"

fun node_step :: "Layout \<Rightarrow> Malloc \<Rightarrow> 'v node_request \<Rightarrow> ('v store, 'v option) M" where
  "node_step L alloc (NewNode v) (h, p, held) =
     (case DataNode_ctor L alloc v p h of
        (Inr (c, p'), h') \<Rightarrow> (Inr None, (h', p', held @ [c]))
      | (Inl e, h') \<Rightarrow> (Inl e, (h', p, held)))"
| "node_step L alloc (GetNode i) (h, p, held) =
     (if i < length held
      then case DataNode_get (held ! i) h of
             (Inr v, h') \<Rightarrow> (Inr (Some v), (h', p, held))
           | (Inl e, h') \<Rightarrow> (Inl e, (h', p, held))
      else (Inr None, (h, p, held)))"
| "node_step L alloc (DestroyNode i) (h, p, held) =
     (if i < length held
      then keeping (take i held @ drop (Suc i) held) p (DataNode_destroy (held ! i) p h)
      else (Inr None, (h, p, held)))"
| "node_step L alloc (GiveBlock n) (h, p, held) =
     (case std_malloc alloc (Suc n) h of
        (Inr a, h') \<Rightarrow> (if a = 0 then (Inr None, (h', p, held)) else keeping held p (addOrFree L a (Suc n) p h'))
      | (Inl e, h') \<Rightarrow> (Inl e, (h', p, held)))"

fun value_step :: "'v node_request \<Rightarrow> 'v list \<Rightarrow> 'v option \<times> 'v list" where
  "value_step (NewNode v) vs = (None, vs @ [v])"
| "value_step (GetNode i) vs = (if i < length vs then Some (vs ! i) else None, vs)"
| "value_step (DestroyNode i) vs = (None, take i vs @ drop (Suc i) vs)"
| "value_step (GiveBlock n) vs = (None, vs)"

text \<open>The value of an object.\<close>

fun object :: "'v Heap \<Rightarrow> nat \<Rightarrow> 'v" where
  "object h c = (case stored h c of Some (Object n v) \<Rightarrow> v)"

definition store_ok :: "Layout \<Rightarrow> (nat \<times> nat) list \<Rightarrow> 'v store \<Rightarrow> bool" where
  "store_ok L others t \<longleftrightarrow> (case t of (h, p, held) \<Rightarrow> heap_inv h \<and>
     (\<forall>c \<in> set held. \<exists>v. stored h c = Some (Object (size_of L) v)) \<and>
     (\<exists>bs free. pool_inv L h p bs free held \<and> blocks h = bs @ others))"

fun store_values :: "'v store \<Rightarrow> 'v list" where
  "store_values (h, p, held) = map (object h) held"

lemma store_okE:
  assumes "store_ok L others (h, p, held)"
  obtains bs free where "heap_inv h" "\<And>c. c \<in> set held \<Longrightarrow> \<exists>v. stored h c = Some (Object (size_of L) v)"
    "pool_inv L h p bs free held" "blocks h = bs @ others"
  using assms by (auto simp: store_ok_def)

lemma store_okI:
  "heap_inv h \<Longrightarrow> (\<And>c. c \<in> set held \<Longrightarrow> \<exists>v. stored h c = Some (Object (size_of L) v)) \<Longrightarrow> pool_inv L h p bs free held \<Longrightarrow>
   blocks h = bs @ others \<Longrightarrow> store_ok L others (h, p, held)"
  by (auto simp: store_ok_def)

lemma object_fits: "extent (Object (size_of L) v) \<le> ALIGNED_SIZE L"
  using size_fits [of L] sizes_pos(3) [of L] by simp

text \<open>What keeps the stored of the cells keeps the objects and their values.\<close>

lemma keeps_objects:
  assumes "keeps L held h h'" "\<And>c. c \<in> set held \<Longrightarrow> \<exists>v. stored h c = Some (Object (size_of L) v)"
  shows "c \<in> set held \<Longrightarrow> \<exists>v. stored h' c = Some (Object (size_of L) v)" "map (object h') held = map (object h) held"
proof -
  have *: "stored h' c = stored h c" if "c \<in> set held" for c
  proof -
    obtain v where "stored h c = Some (Object (size_of L) v)" using assms(2) \<open>c \<in> set held\<close> by blast
    with assms(1) that object_fits [of L v] show ?thesis unfolding keeps_def by metis
  qed
  then show "c \<in> set held \<Longrightarrow> \<exists>v. stored h' c = Some (Object (size_of L) v)" using assms(2) by simp
  show "map (object h') held = map (object h) held" using * by (intro map_cong) simp_all
qed

text \<open>One request.\<close>

lemma NewNode_ok:
  assumes "store_ok L others (h, p, held)" "good_malloc L alloc" "node_step L alloc (NewNode v) (h, p, held) = (r, t')"
  shows "store_ok L others t' \<and> (case r of Inr a \<Rightarrow> a = None \<and> store_values t' = store_values (h, p, held) @ [v] | Inl e \<Rightarrow> e = bad_alloc)"
proof -
  obtain bs free where ok: "heap_inv h" "\<And>c. c \<in> set held \<Longrightarrow> \<exists>v. stored h c = Some (Object (size_of L) v)"
    "pool_inv L h p bs free held" "blocks h = bs @ others" by (rule store_okE [OF assms(1)]) blast
  from Pool_allocate_spec [OF ok(1,3) assms(2)] show ?thesis
  proof (elim disjE exE conjE)
    fix c p' h' new free'
    assume run: "Pool_allocate L alloc p h = (Inr (c, p'), h')" and heap: "heap_inv h'"
      and inv: "pool_inv L h' p' (new @ bs) free' (c # held)" and same: "blocks h' = new @ blocks h" "keeps L held h h'"
    let ?h = "overwrite c (Object (size_of L) v) h'"
    note cells = pool_cells [OF heap inv] and fits = object_fits [of L v]
    have f: "frame (c, extent (Object (size_of L) v)) h' ?h" by (rule frame_overwrite)
    have "pool_inv L ?h p' (new @ bs) free' (c # held)" by (rule pool_inv_kept [OF heap inv f fits]) simp_all
    then have inv': "pool_inv L ?h p' (new @ bs) free' (held @ [c])" by (simp add: pool_inv_def)
    have "keeps L held h' ?h"
    proof (rule keeps_frame [OF f])
      fix d
      assume d: "d \<in> set held"
      then have "d \<noteq> c" using cells(1) by auto
      with cells(6) [of d c] d have "apart (d, ALIGNED_SIZE L) (c, ALIGNED_SIZE L)" by simp
      then show "apart (d, ALIGNED_SIZE L) (c, extent (Object (size_of L) v))" by (rule apart_within2) (use fits in simp_all)
    qed
    note kept = keeps_objects [OF keeps_trans [OF same(2) this] ok(2)]
    have "inside h' c (extent (Object (size_of L) v))" by (rule inside_mono [OF _ fits]) (use cells(4) [of c] in simp)
    then have out: "r = Inr None" "t' = (?h, p', held @ [c])"
      using assms(3) run by (simp_all add: DataNode_ctor_def bnd_Inr store_def ret_def)
    have "store_ok L others (?h, p', held @ [c])"
      by (rule store_okI [where bs = "new @ bs"]) (use heap kept(1) inv' ok(4) same heap_inv_cong [of ?h h'] in auto)
    moreover have "object ?h c = v" by simp
    ultimately show ?thesis using kept(2) out by simp
  next
    fix h'
    assume *: "Pool_allocate L alloc p h = (Inl bad_alloc, h')" "heap_inv h'" "pool_inv L h' p bs free held"
      "blocks h' = blocks h" "keeps L held h h'"
    then have out: "r = Inl bad_alloc" "t' = (h', p, held)"
      using assms(3) by (simp_all add: DataNode_ctor_def bnd_def)
    have "store_ok L others (h', p, held)"
      by (rule store_okI [where bs = bs]) (use * ok(4) keeps_objects(1) [OF *(5) ok(2)] in auto)
    with out show ?thesis by simp
  qed
qed

lemma held_get:
  assumes "store_ok L others (h, p, held)" "i < length held"
  shows "DataNode_get (held ! i) h = (Inr (store_values (h, p, held) ! i), h)"
proof -
  obtain bs free where ok: "heap_inv h" "\<And>c. c \<in> set held \<Longrightarrow> \<exists>v. stored h c = Some (Object (size_of L) v)"
    "pool_inv L h p bs free held" by (rule store_okE [OF assms(1)]) blast
  have i: "held ! i \<in> set held" using assms(2) by simp
  then obtain v where v: "stored h (held ! i) = Some (Object (size_of L) v)" using ok(2) by blast
  have "inside h (held ! i) (extent (Object (size_of L) v))"
    by (rule inside_mono [OF _ object_fits]) (use pool_cells(4) [OF ok(1,3), of "held ! i"] i in simp)
  with v assms(2) show ?thesis by (simp add: DataNode_get_def)
qed

lemma DestroyNode_ok:
  assumes "store_ok L others (h, p, held)" "node_step L alloc (DestroyNode i) (h, p, held) = (r, t')"
  shows "store_ok L others t' \<and> r = Inr None \<and>
    store_values t' = take i (store_values (h, p, held)) @ drop (Suc i) (store_values (h, p, held))"
proof (cases "i < length held")
  case False
  with assms show ?thesis by auto
next
  case True
  obtain bs free where ok: "heap_inv h" "\<And>c. c \<in> set held \<Longrightarrow> \<exists>v. stored h c = Some (Object (size_of L) v)"
    "pool_inv L h p bs free held" "blocks h = bs @ others" by (rule store_okE [OF assms(1)]) blast
  let ?c = "held ! i" and ?rest = "take i held @ drop (Suc i) held" and ?h = "h\<lparr>stored := (stored h)(held ! i := None)\<rparr>"
  let ?t = "overwrite ?c (Pointer (mHead p)) ?h"
  have held: "held = take i held @ ?c # drop (Suc i) held" using True by (rule id_take_nth_drop)
  have c: "?c \<in> set held" using True by simp
  have heap: "heap_inv ?h" using ok(1) by (simp add: heap_inv_def)
  have f1: "frame (?c, ALIGNED_SIZE L) h ?h"
    using extent_pos sizes_pos(2) [of L] by (auto simp: frame_def apart_def)
  have "pool_inv L ?h p bs free held" by (rule pool_inv_kept [OF ok(1,3) f1 _ c]) simp_all
  then have "pool_inv L ?h p bs free (take i held @ ?c # drop (Suc i) held)" using held by simp
  from Pool_deallocate_spec [OF heap this] obtain p' where
    p': "Pool_deallocate ?c p ?h = (Inr p', ?t)" "pool_inv L ?t p' bs (?c # free) ?rest" by blast
  have out: "r = Inr None" "t' = (?t, p', ?rest)"
    using held_get [OF assms(1) True] p'(1) assms(2) True
    by (simp_all add: DataNode_destroy_def DataNode_destroyDoNotDeallocate_def bnd_Inr modify_def)
  have "distinct held" using pool_cells(1) [OF ok(1,3)] by simp
  then have "distinct (take i held @ ?c # drop (Suc i) held)" using held by simp
  then have notin: "?c \<notin> set ?rest" by auto
  have sub: "set ?rest \<subseteq> set held" by (auto dest: in_set_takeD in_set_dropD)
  have "frame (?c, 8) ?h ?t" using frame_overwrite [of ?c "Pointer (mHead p)" ?h] by simp
  then have f2: "frame (?c, ALIGNED_SIZE L) ?h ?t" by (rule frame_within) (use sizes_pos(3) [of L] in simp_all)
  have "keeps L ?rest h ?t"
  proof (rule keeps_frame [OF frame_trans [OF f1 f2]])
    fix d
    assume d: "d \<in> set ?rest"
    then have "d \<noteq> ?c" using notin by blast
    with pool_cells(6) [OF ok(1,3), of d ?c] d sub c show "apart (d, ALIGNED_SIZE L) (?c, ALIGNED_SIZE L)" by blast
  qed
  note kept = keeps_objects [OF this ok(2)] and [simp] = sub [THEN subsetD]
  have "store_ok L others (?t, p', ?rest)"
    by (rule store_okI [OF _ kept(1) p'(2)]) (use ok(4) heap heap_inv_cong [of ?t ?h] in simp_all)
  with kept(2) out show ?thesis by (simp add: take_map drop_map)
qed

lemma GiveBlock_ok:
  assumes "store_ok L others (h, p, held)" "good_malloc L alloc" "node_step L alloc (GiveBlock n) (h, p, held) = (r, t')"
  shows "store_ok L others t' \<and> r = Inr None \<and> store_values t' = store_values (h, p, held)"
proof -
  obtain bs free where ok: "heap_inv h" "\<And>c. c \<in> set held \<Longrightarrow> \<exists>v. stored h c = Some (Object (size_of L) v)"
    "pool_inv L h p bs free held" "blocks h = bs @ others" by (rule store_okE [OF assms(1)]) blast
  obtain a h1 where a: "std_malloc alloc (Suc n) h = (Inr a, h1)" using std_malloc_Inr by blast
  note got = heap_inv_malloc [OF ok(1) assms(2) a zero_less_Suc]
  note inv1 = pool_inv_malloc [OF ok(1) assms(2) a zero_less_Suc ok(3)]
  show ?thesis
  proof (cases "a = 0")
    case True
    then have out: "r = Inr None" "t' = (h1, p, held)" using assms(3) a by simp_all
    have "store_ok L others (h1, p, held)"
      by (rule store_okI [OF got(1) _ inv1]) (use ok got(3,5) True in simp_all)
    with out got(5) [OF True] show ?thesis by simp
  next
    case False
    let ?x = "(a, Suc n)"
    have x: "blocks h1 = ?x # blocks h" "?x \<notin> set bs" "fst ?x mod ALIGNMENT L = 0"
      using got(2) [OF False] ok(4) by auto
    from addOrFree_spec [OF got(1) inv1 x] obtain p' h2 new free' where
      add: "addOrFree L a (Suc n) p h1 = (Inr p', h2)" "blocks h2 = new @ blocks h" "heap_inv h2"
      "pool_inv L h2 p' (new @ bs) free' held" "frame ?x h1 h2" by auto
    then have out: "r = Inr None" "t' = (h2, p', held)" using assms(3) a False by simp_all
    have "apart y ?x" if "y \<in> set bs" for y using got(4) [OF _ False] that ok(4) by simp
    then have "keeps L held h h2" by (rule keeps_block [OF ok(1,3) frame_trans [OF got(6) add(5)]])
    note kept = keeps_objects [OF this ok(2)]
    have "store_ok L others (h2, p', held)"
      by (rule store_okI [OF add(3) kept(1) add(4)]) (use ok(4) add(2) in simp_all)
    with kept(2) out show ?thesis by simp
  qed
qed

lemma node_step_ok:
  assumes "store_ok L others t" "good_malloc L alloc" "node_step L alloc q t = (r, t')"
  shows "store_ok L others t' \<and> (case r of Inr a \<Rightarrow> value_step q (store_values t) = (a, store_values t') | Inl e \<Rightarrow> e = bad_alloc)"
proof -
  obtain h p held where t: "t = (h, p, held)" by (cases t)
  show ?thesis
  proof (cases q)
    case (NewNode v)
    have "store_ok L others t' \<and> (case r of Inr a \<Rightarrow> a = None \<and> store_values t' = store_values (h, p, held) @ [v] | Inl e \<Rightarrow> e = bad_alloc)"
      by (rule NewNode_ok) (use assms NewNode in \<open>simp_all add: t\<close>)
    with NewNode show ?thesis unfolding t by (simp split: sum.splits del: store_values.simps)
  next
    case (GetNode i)
    show ?thesis
    proof (cases "i < length held")
      case True
      with assms(3) GetNode held_get [of L others h p held i] assms(1)
      have "r = Inr (Some (store_values t ! i)) \<and> t' = t" by (auto simp: t)
      with True GetNode assms(1) show ?thesis by (simp add: t)
    next
      case False
      with assms GetNode show ?thesis by (auto simp: t)
    qed
  next
    case (DestroyNode i)
    have "store_ok L others t' \<and> r = Inr None \<and>
        store_values t' = take i (store_values (h, p, held)) @ drop (Suc i) (store_values (h, p, held))"
      by (rule DestroyNode_ok) (use assms DestroyNode in \<open>simp_all only: t\<close>)
    with DestroyNode show ?thesis unfolding t by (simp del: store_values.simps)
  next
    case (GiveBlock n)
    have "store_ok L others t' \<and> r = Inr None \<and> store_values t' = store_values (h, p, held)"
      by (rule GiveBlock_ok) (use assms GiveBlock in \<open>simp_all only: t\<close>)
    with GiveBlock show ?thesis unfolding t by (simp del: store_values.simps)
  qed
qed

text \<open>Sequences of requests. The argument \<open>alloc\<close> of the model is any good \<^verbatim>\<open>malloc\<close>; the contract holds for each of them.\<close>

definition good :: "Layout \<Rightarrow> Malloc \<Rightarrow> Malloc" where
  "good L alloc = (if good_malloc L alloc then alloc else (\<lambda>k bl n. 0))"

lemma good_malloc_good: "good_malloc L (good L alloc)"
  by (simp add: good_def good_malloc_def)

interpretation nodes: answering_steady "node_step L (good L alloc)" value_step "store_ok L others" store_values "\<lambda>e. e = bad_alloc"
proof unfold_locales
  fix t q a t'
  assume "store_ok L others t" "node_step L (good L alloc) q t = (Inr a, t')"
  from node_step_ok [OF this(1) good_malloc_good this(2)]
  show "store_ok L others t' \<and> value_step q (store_values t) = (a, store_values t')" by simp
next
  fix t q e t'
  assume "store_ok L others t" "node_step L (good L alloc) q t = (Inl e, t')"
  from node_step_ok [OF this(1) good_malloc_good this(2)]
  show "e = bad_alloc" "store_ok L others t'" by simp_all
qed

lemma store_start: "heap_inv h \<Longrightarrow> store_ok L (blocks h) (h, Pool_ctor, [])"
  by (rule store_okI [where bs = "[]" and free = "[]"]) (simp_all add: Pool_ctor_inv)

lemma store_apart:
  assumes "store_ok L others (h, p, held)" "i < length held" "j < length held" "i \<noteq> j"
  shows "apart (held ! i, size_of L) (held ! j, size_of L)"
proof -
  obtain bs free where ok: "heap_inv h" "pool_inv L h p bs free held" by (rule store_okE [OF assms(1)]) blast
  have "distinct held" using pool_cells(1) [OF ok] by simp
  then have "held ! i \<noteq> held ! j" using assms by (simp add: nth_eq_iff_index_eq)
  then have "apart (held ! i, ALIGNED_SIZE L) (held ! j, ALIGNED_SIZE L)"
    using pool_cells(6) [OF ok, of "held ! i" "held ! j"] assms(2,3) by simp
  then show ?thesis using size_fits [of L] by (auto simp: apart_def)
qed

lemma store_all_freed:
  assumes "store_ok L others (h, p, held)"
  shows "\<exists>h'. Pool_reset p h = (Inr Pool_ctor, h') \<and> blocks h' = others"
proof -
  obtain bs free where ok: "heap_inv h" "pool_inv L h p bs free held" "blocks h = bs @ others" by (rule store_okE [OF assms]) blast
  then have "set bs \<inter> set others = {}" by (auto simp: heap_inv_def)
  then have "filter (\<lambda>x. x \<notin> set bs) (blocks h) = others" using ok(3) by (auto simp: filter_id_conv)
  with Pool_reset_spec [OF ok(1,2)] show ?thesis by simp
qed

text \<open>C23: Nodes on the heap behave like values. Objects that are made, read and destroyed in any order, in cells of the pool
  allocator (which can also be given blocks of memory), have the values that a list of them has: no object is overwritten by another, and a cell is used
  again only after its object is destroyed. Whatever \<^verbatim>\<open>malloc\<close> does that returns 0 or new aligned memory, the only
  failure is \<^verbatim>\<open>std::bad_alloc\<close>; after a success or a failure the memory of the objects is aligned and apart, inside of the blocks, and
  the destructor of the allocator frees each of its blocks, once, and no other.\<close>

theorem nodes_refine_values:
  assumes "good_malloc L alloc" "heap_inv h0" "requests (node_step L alloc) rs (h0, Pool_ctor, []) = (r, (h, p, held))"
  shows "(case r of Inr as \<Rightarrow> fst (spec_requests value_step rs []) = as | Inl e \<Rightarrow> e = bad_alloc) \<and>
    (\<forall>i j. i < length held \<and> j < length held \<and> i \<noteq> j \<longrightarrow> apart (held ! i, size_of L) (held ! j, size_of L)) \<and>
    (\<forall>c \<in> set held. inside h c (size_of L) \<and> c mod ALIGNMENT L = 0) \<and>
    (\<exists>h'. Pool_reset p h = (Inr Pool_ctor, h') \<and> blocks h' = blocks h0)"
proof -
  have run: "requests (node_step L (good L alloc)) rs (h0, Pool_ctor, []) = (r, (h, p, held))"
    using assms(1,3) by (simp add: good_def)
  note start = store_start [OF assms(2), of L]
  have ok: "store_ok L (blocks h0) (h, p, held)" by (rule nodes.requests_steady [OF start run])
  have "case r of Inr as \<Rightarrow> fst (spec_requests value_step rs []) = as | Inl e \<Rightarrow> e = bad_alloc"
  proof (cases r)
    case (Inl e)
    with nodes.requests_fault [OF start] run show ?thesis by simp
  next
    case (Inr as)
    with nodes.requests_answered [OF start] run show ?thesis by fastforce
  qed
  moreover have "\<forall>c \<in> set held. inside h c (size_of L) \<and> c mod ALIGNMENT L = 0"
    by (rule store_okE [OF ok]) (use pool_cells(4) inside_mono size_fits in blast)
  ultimately show ?thesis using store_apart [OF ok] store_all_freed [OF ok] by simp
qed

text \<open>A \<^verbatim>\<open>malloc\<close> that never reuses memory that is in use: it returns the sum of all ends, aligned.\<close>

definition bump_malloc :: "Layout \<Rightarrow> Malloc" where
  "bump_malloc L k bl n = (1 + sum_list (map (\<lambda>(b, m). b + m) bl)) * ALIGNMENT L"

lemma good_bump_malloc: "good_malloc L (bump_malloc L)"
proof -
  have "apart (bump_malloc L k bl n, n) x" if x: "x \<in> set bl" for k bl n x
  proof -
    have "fst x + snd x \<le> sum_list (map (\<lambda>(b, m). b + m) bl)"
      using member_le_sum_list [of "fst x + snd x" "map (\<lambda>(b, m). b + m) bl"] x by force
    also have "\<dots> \<le> bump_malloc L k bl n"
      using sizes_pos(1) [of L] mult_le_mono [of _ _ 1 "ALIGNMENT L"] by (simp add: bump_malloc_def trans_le_add2)
    finally show ?thesis by (simp add: apart_def)
  qed
  then show ?thesis by (simp add: good_malloc_def bump_malloc_def)
qed

definition some_layout :: Layout where
  "some_layout = \<lparr>size_of = 12, align_of = 4\<rparr>"

definition empty_heap :: "nat Heap" where
  "empty_heap = \<lparr>stored = (\<lambda>_. None), blocks = [(8, 8)], mallocs = 0\<rparr>"

definition some_requests :: "nat node_request list" where
  "some_requests = [NewNode 10, NewNode 20, DestroyNode 0, NewNode 30, GetNode 1, GiveBlock 40, NewNode 40, GetNode 0]"

definition some_run :: "(fault + nat option list) \<times> nat store" where
  "some_run = requests (node_step some_layout (bump_malloc some_layout)) some_requests (empty_heap, Pool_ctor, [])"

lemma nodes_refine_values_witness:
  "fst some_run = Inr [None, None, None, None, Some 30, None, None, Some 20] \<and> length (snd (snd (snd some_run))) = 3 \<and>
   list_all (\<lambda>(i, j). apart (snd (snd (snd some_run)) ! i, 12) (snd (snd (snd some_run)) ! j, 12)) [(0, 1), (0, 2), (1, 2)] \<and>
   blocks (snd (Pool_reset (fst (snd (snd some_run))) (fst (snd some_run)))) = [(8, 8)]"
proof -
  obtain h p held where run: "some_run = (fst some_run, (h, p, held))" by (metis prod.collapse)
  have out: "fst some_run = Inr [None, None, None, None, Some 30, None, None, Some 20]" by code_simp
  have "length (snd (snd (snd some_run))) = 3" by code_simp
  then have len: "length held = 3" by (subst (asm) run) simp
  have "heap_inv empty_heap" by (simp add: heap_inv_def empty_heap_def)
  from nodes_refine_values [OF good_bump_malloc this run [unfolded some_run_def]] len
  have "\<forall>i j. i < 3 \<and> j < 3 \<and> i \<noteq> j \<longrightarrow> apart (held ! i, 12) (held ! j, 12)"
    "blocks (snd (Pool_reset p h)) = [(8, 8)]"
    by (auto simp: some_layout_def empty_heap_def)
  with out len show ?thesis by (subst (2 3 4 5 6) run) simp
qed

end
