(* ===== verification/Hash_Bytes.thy ===== *)
theory Hash_Bytes
  imports "HOL-Library.Word"
begin

unbundle bit_operations_syntax

text \<open>
  \<^verbatim>\<open>hash_bytes\<close> of \<^verbatim>\<open>src/sim/robin_hood.h\<close>, the hash of strings: MurmurHash64A with a fixed seed. The bytes are a
  list; \<^verbatim>\<open>unaligned_load\<close> reads them in the order of the host, which is x86. Two strings of one length that differ in a
  single aligned block of eight bytes only never collide.
\<close>

abbreviation hash_m :: "64 word" where "hash_m \<equiv> 0xc6a4a7935bd1e995"
abbreviation hash_seed :: "64 word" where "hash_seed \<equiv> 0xe17a1465"
abbreviation hash_r :: nat where "hash_r \<equiv> 47"

primrec little_endian :: "8 word list \<Rightarrow> 64 word" where
  "little_endian [] = 0"
| "little_endian (b # bs) = ucast b XOR push_bit 8 (little_endian bs)"

definition unaligned_load64 :: "8 word list \<Rightarrow> nat \<Rightarrow> 64 word" where
  "unaligned_load64 data64 i = little_endian (take 8 (drop (8 * i) data64))"

definition hash_block :: "64 word \<Rightarrow> 64 word \<Rightarrow> 64 word" where
  "hash_block h k =
     (let k = k * hash_m;
          k = k XOR drop_bit hash_r k;
          k = k * hash_m;
          h = h XOR k
      in h * hash_m)"

primrec hash_blocks :: "8 word list \<Rightarrow> nat \<Rightarrow> nat \<Rightarrow> 64 word \<Rightarrow> 64 word" where
  "hash_blocks data64 i 0 h = h"
| "hash_blocks data64 i (Suc n) h = hash_blocks data64 (i + 1) n (hash_block h (unaligned_load64 data64 i))"

text \<open>The \<^verbatim>\<open>switch\<close> falls through: case \<open>k\<close> is executed for \<open>k\<close> bytes and more.\<close>

definition hash_tail :: "8 word list \<Rightarrow> nat \<Rightarrow> 64 word \<Rightarrow> 64 word" where
  "hash_tail data8 n h =
     (let h = if 7 \<le> n then h XOR push_bit 48 (ucast (data8 ! 6)) else h;
          h = if 6 \<le> n then h XOR push_bit 40 (ucast (data8 ! 5)) else h;
          h = if 5 \<le> n then h XOR push_bit 32 (ucast (data8 ! 4)) else h;
          h = if 4 \<le> n then h XOR push_bit 24 (ucast (data8 ! 3)) else h;
          h = if 3 \<le> n then h XOR push_bit 16 (ucast (data8 ! 2)) else h;
          h = if 2 \<le> n then h XOR push_bit 8 (ucast (data8 ! 1)) else h
      in if 1 \<le> n then (h XOR ucast (data8 ! 0)) * hash_m else h)"

definition hash_bytes :: "8 word list \<Rightarrow> 64 word" where
  "hash_bytes bs =
     (let len = length bs;
          h = hash_seed XOR (of_nat len * hash_m);
          n_blocks = len div 8;
          h = hash_blocks bs 0 n_blocks h;
          h = hash_tail (drop (8 * n_blocks) bs) (len mod 8) h;
          h = h XOR drop_bit hash_r h;
          h = h * hash_m
      in h XOR drop_bit hash_r h)"

section \<open>The hash as a fold\<close>

text \<open>The whole blocks, and then what is left, as a number.\<close>

function murmur :: "64 word \<Rightarrow> 8 word list \<Rightarrow> 64 word" where
  "murmur h bs =
     (if length bs < 8 then if bs = [] then h else (h XOR little_endian bs) * hash_m
      else murmur (hash_block h (little_endian (take 8 bs))) (drop 8 bs))"
  by pat_completeness auto
termination by (relation "measure (length \<circ> snd)") auto

declare murmur.simps [simp del]

definition hash_finish :: "64 word \<Rightarrow> 64 word" where
  "hash_finish h = (let h = (h XOR drop_bit hash_r h) * hash_m in h XOR drop_bit hash_r h)"

lemma hash_tail_murmur:
  assumes "length bs < 8"
  shows "hash_tail bs (length bs) h = murmur h bs"
proof -
  have "hash_tail bs (length bs) h = (if bs = [] then h else (h XOR little_endian bs) * hash_m)"
  proof -
    have "length bs \<in> {0,1,2,3,4,5,6,7}" using assms by (simp only: insert_iff) linarith
    then show ?thesis
      by (elim insertE emptyE; clarsimp simp: length_Suc_conv eval_nat_numeral hash_tail_def push_bit_xor ac_simps)
  qed
  with assms show ?thesis by (simp add: murmur.simps [of h bs])
qed

lemma hash_blocks_murmur:
  "8 * (i + n) \<le> length bs \<Longrightarrow>
   murmur h (drop (8 * i) bs) = murmur (hash_blocks bs i n h) (drop (8 * (i + n)) bs)"
proof (induction n arbitrary: i h)
  case (Suc n)
  have "murmur h (drop (8 * i) bs) = murmur (hash_block h (unaligned_load64 bs i)) (drop (8 * Suc i) bs)"
    using Suc.prems by (subst murmur.simps) (auto simp: unaligned_load64_def add.commute)
  with Suc.IH [of "Suc i"] Suc.prems show ?case by simp
qed simp

lemma hash_bytes_murmur: "hash_bytes bs = hash_finish (murmur (hash_seed XOR (of_nat (length bs) * hash_m)) bs)"
proof -
  let ?n = "length bs div 8"
  have "length (drop (8 * ?n) bs) = length bs mod 8" by (simp add: minus_mult_div_eq_mod)
  then have "hash_tail (drop (8 * ?n) bs) (length bs mod 8) h = murmur h (drop (8 * ?n) bs)" for h
    using hash_tail_murmur [of "drop (8 * ?n) bs" h] by simp
  with hash_blocks_murmur [of 0 ?n bs] show ?thesis
    by (simp add: hash_bytes_def hash_finish_def Let_def)
qed

section \<open>Nothing is lost\<close>

lemma times_inj:
  fixes a b m n :: "64 word"
  assumes "m * n = 1" "a * m = b * m"
  shows "a = b"
proof -
  have "a = a * m * n" by (simp add: mult.assoc assms(1))
  also have "\<dots> = b * m * n" by (simp only: assms(2))
  also have "\<dots> = b" by (simp add: mult.assoc assms(1))
  finally show ?thesis .
qed

lemma hash_m_inj: "a * hash_m = b * hash_m \<Longrightarrow> a = b"
  by (rule times_inj [of hash_m "0x5f7a0ea7e59b19bd"]) simp_all

lemma xorshift_inj: "a XOR drop_bit hash_r a = b XOR drop_bit hash_r b \<Longrightarrow> a = (b :: 64 word)"
proof -
  have undo: "(c XOR drop_bit hash_r c) XOR drop_bit hash_r (c XOR drop_bit hash_r c) = c" for c :: "64 word"
    by (rule bit_word_eqI) (auto simp: bit_simps)
  assume "a XOR drop_bit hash_r a = b XOR drop_bit hash_r b"
  then show "a = b" using undo [of a] undo [of b] by simp
qed

lemma xor_inj:
  shows "a XOR b = a XOR c \<Longrightarrow> b = (c :: 64 word)" and "b XOR a = c XOR a \<Longrightarrow> b = c"
  by (drule arg_cong [of _ _ "\<lambda>x. a XOR x"], simp add: xor.assoc [symmetric], drule arg_cong [of _ _ "\<lambda>x. x XOR a"], simp add: xor.assoc)

lemma hash_block_inj:
  shows "hash_block h k = hash_block h l \<Longrightarrow> k = l" and "hash_block h k = hash_block g k \<Longrightarrow> h = g"
proof -
  assume "hash_block h k = hash_block h l"
  from xor_inj(1) [OF hash_m_inj [OF this [unfolded hash_block_def Let_def]]]
  show "k = l" by (rule hash_m_inj [OF xorshift_inj [OF hash_m_inj]])
next
  assume "hash_block h k = hash_block g k"
  from hash_m_inj [OF this [unfolded hash_block_def Let_def]] show "h = g" by (rule xor_inj(2))
qed

lemma hash_finish_inj:
  assumes "hash_finish a = hash_finish b"
  shows "a = b"
  by (rule xorshift_inj [OF hash_m_inj [OF xorshift_inj [OF assms [unfolded hash_finish_def Let_def]]]])

lemma little_endian_bit:
  "length bs \<le> 8 \<Longrightarrow> n < 64 \<Longrightarrow> bit (little_endian bs) n \<longleftrightarrow> n div 8 < length bs \<and> bit (bs ! (n div 8)) (n mod 8)"
proof (induction bs arbitrary: n)
  case (Cons b bs)
  show ?case
  proof (cases "n < 8")
    case True
    then show ?thesis using Cons.prems by (simp add: bit_simps)
  next
    case False
    then obtain m where m: "n = m + 8" by (metis add.commute le_Suc_ex not_less)
    then have "n div 8 = Suc (m div 8)" "n mod 8 = m mod 8" by simp_all
    moreover have "\<not> bit b n" using False by (auto dest: bit_imp_le_length)
    moreover have "bit (little_endian bs) m \<longleftrightarrow> m div 8 < length bs \<and> bit (bs ! (m div 8)) (m mod 8)"
      using Cons.prems m by (intro Cons.IH) simp_all
    ultimately show ?thesis using m Cons.prems by (simp add: bit_simps)
  qed
qed simp

lemma little_endian_inj:
  assumes "length bs = length cs" "length bs \<le> 8" "little_endian bs = little_endian cs"
  shows "bs = cs"
proof (rule nth_equalityI [OF assms(1)])
  fix i
  assume i: "i < length bs"
  show "bs ! i = cs ! i"
  proof (rule bit_word_eqI)
    fix n
    assume "n < LENGTH(8)"
    then show "bit (bs ! i) n = bit (cs ! i) n"
      using i assms(1,2) little_endian_bit [of bs "8 * i + n"] little_endian_bit [of cs "8 * i + n"] assms(3)
      by (simp add: div_mult_self4)
  qed
qed

lemma murmur_inj: "murmur h bs = murmur g bs \<Longrightarrow> h = g"
proof (induction h bs arbitrary: g rule: murmur.induct)
  case (1 h bs)
  show ?case
  proof (cases "length bs < 8")
    case True
    with "1.prems" show ?thesis
      by (auto simp: murmur.simps [of h bs] murmur.simps [of g bs] split: if_splits dest!: hash_m_inj xor_inj)
  next
    case False
    with "1.prems" have "murmur (hash_block h (little_endian (take 8 bs))) (drop 8 bs) =
        murmur (hash_block g (little_endian (take 8 bs))) (drop 8 bs)"
      by (simp add: murmur.simps [of h bs] murmur.simps [of g bs])
    with "1.IH" [OF False] show ?thesis using hash_block_inj(2) by blast
  qed
qed

lemma murmur_block_inj:
  "length bs = length cs \<Longrightarrow> (\<And>i. i < length bs \<Longrightarrow> i div 8 \<noteq> k \<Longrightarrow> bs ! i = cs ! i) \<Longrightarrow>
   murmur h bs = murmur h cs \<Longrightarrow> bs = cs"
proof (induction h bs arbitrary: cs k rule: murmur.induct)
  case (1 h bs)
  show ?case
  proof (cases "length bs < 8")
    case True
    with "1.prems" have "little_endian bs = little_endian cs"
      by (auto simp: murmur.simps [of h bs] murmur.simps [of h cs] split: if_splits dest!: hash_m_inj xor_inj)
    with "1.prems"(1) True show ?thesis by (intro little_endian_inj) simp_all
  next
    case False
    let ?h = "hash_block h (little_endian (take 8 bs))" and ?g = "hash_block h (little_endian (take 8 cs))"
    have eq: "murmur ?h (drop 8 bs) = murmur ?g (drop 8 cs)"
      using "1.prems"(1,3) False by (simp add: murmur.simps [of h bs] murmur.simps [of h cs])
    have "take 8 bs = take 8 cs \<and> drop 8 bs = drop 8 cs"
    proof (cases k)
      case 0
      have "drop 8 bs = drop 8 cs" using "1.prems"(1,2) 0 by (intro nth_equalityI) auto
      moreover from this have "?h = ?g" using eq murmur_inj by metis
      then have "take 8 bs = take 8 cs" using "1.prems"(1) by (intro little_endian_inj) (auto dest: hash_block_inj)
      ultimately show ?thesis by simp
    next
      case (Suc j)
      have "take 8 bs = take 8 cs" using "1.prems"(1,2) Suc by (intro nth_equalityI) auto
      moreover from this have "murmur ?h (drop 8 bs) = murmur ?h (drop 8 cs)" using eq by simp
      then have "drop 8 bs = drop 8 cs"
        using "1.prems"(1,2) Suc by (intro "1.IH" [OF False, where k = j]) auto
      ultimately show ?thesis by simp
    qed
    then show ?thesis by (metis append_take_drop_id)
  qed
qed

text \<open>C40: The hash of strings does not collide on a change in one place: two strings of the same length that
  differ, but only inside one of the blocks of eight bytes (or in the rest behind the last whole block), have
  different hash values.\<close>

theorem hash_bytes_one_block:
  assumes "length bs = length cs" and "\<And>i. i < length bs \<Longrightarrow> i div 8 \<noteq> k \<Longrightarrow> bs ! i = cs ! i" and "bs \<noteq> cs"
  shows "hash_bytes bs \<noteq> hash_bytes cs"
proof
  assume "hash_bytes bs = hash_bytes cs"
  then have "murmur (hash_seed XOR (of_nat (length bs) * hash_m)) bs = murmur (hash_seed XOR (of_nat (length bs) * hash_m)) cs"
    using assms(1) hash_finish_inj unfolding hash_bytes_murmur by metis
  with murmur_block_inj [OF assms(1,2)] assms(3) show False by blast
qed

theorem hash_bytes_one_block_witness:
  "hash_bytes ([1, 2, 3, 4, 5, 6, 7, 8] @ [9, 10]) \<noteq> hash_bytes ([1, 2, 3, 4, 5, 6, 7, 8] @ [9, 11])"
proof (rule hash_bytes_one_block [where k = 1])
  fix i :: nat
  assume "i < length ([1, 2, 3, 4, 5, 6, 7, 8] @ [9, 10 :: 8 word])" "i div 8 \<noteq> 1"
  then have "i < 8" by simp
  then show "([1, 2, 3, 4, 5, 6, 7, 8] @ [9, 10 :: 8 word]) ! i = ([1, 2, 3, 4, 5, 6, 7, 8] @ [9, 11]) ! i"
    by (simp only: nth_append) simp
qed simp_all

end
