(* ===== verification/Spec2Isabelle.thy ===== *)
theory Spec2Isabelle
  imports
    Prelude Isa_Desc Ir Asm Decoder Decoder_Correct Options
    Robin_Hood Robin_Hood_Slots Robin_Hood_Correct Requests Robin_Hood_Iter
    Robin_Hood_Members Robin_Hood_Map LRU_Map LRU_Cache
    Mmu Mmu_Correct Sv32 Machine Syscall Exec_Inst Isa_Spec Exec_Correct Exec_Safe
    Syscall_Correct Environment Exec_Environment Jit Translate_Inst Jit_Correct Simulator Simulator_Correct Elf_Reader
    Program
    X86 Emitted_Code Jit_Places Jit_Templates Jit_Memory Jit_Steps Jit_Alloc Jit_Refines Jit_Jumps
    Jit_Branches Jit_Trace Jit_Runs Native_Code User_Program User_Refinement
    Refinement Native_Refinement Echo_Program Program_Refines
    Pool Pool_Correct Pool_Nodes Hash_Bytes
begin

text \<open>
  A verification library for RISC-V-Simulator, a simulator of RV32IM programs in C++
  (\<^verbatim>\<open>src/sim\<close>). This theory imports the whole library.

  \<^bigskip>
  \<^bold>\<open>The program.\<close> \<^verbatim>\<open>main\<close> (\<^verbatim>\<open>main.cpp\<close>) parses the options (\<^verbatim>\<open>options.*\<close>), reads the segments
  of an ELF file (\<^verbatim>\<open>elf_reader.*\<close>), builds a processor state (\<^verbatim>\<open>sim.h\<close>, \<^verbatim>\<open>sim.cpp\<close>) and runs the main loop.
  A round of the loop asks the trace cache (an \<^verbatim>\<open>LRUCache\<close>, \<^verbatim>\<open>common.h\<close>) for the trace at the program
  counter. On a miss the constructor of \<^verbatim>\<open>Trace\<close> fetches words through the MMU (\<^verbatim>\<open>mmu.h\<close>, with two
  TLBs that are LRU caches as well) and decodes them (\<^verbatim>\<open>decoder.*\<close>, over the tables of \<^verbatim>\<open>isa_desc.*\<close>,
  into the instructions of \<^verbatim>\<open>ir.*\<close>) until one that ends a trace. The trace is executed by a
  chain of handlers (\<^verbatim>\<open>exec_inst.cpp\<close>; system calls in \<^verbatim>\<open>syscall.cpp\<close>), or, after a number of
  executions, by code that the translator (\<^verbatim>\<open>jit.*\<close>, \<^verbatim>\<open>translate_inst.cpp\<close>) hands to asmjit.

  \<^bigskip>
  \<^bold>\<open>The style of the model.\<close> A function of the program is a HOL function; one that can fail returns
  \<^verbatim>\<open>fault + 'a\<close>, one that changes the state is a state transformer \<^verbatim>\<open>('s, 'a) M\<close> from a state to a
  result and a state, so that the state at the time of an exception is known. A \<^verbatim>\<open>fault\<close> is
  an exception of the program, a failed assertion, undefined behaviour of C++ (an access out of
  bounds, a dangling iterator, a use after free, a call of a null pointer), or a loop that
  has used up its fuel. Reading or writing through a pointer into the guest's memory checks that the bytes are in
  the memory, and is undefined behaviour where they are not. Machine integers are words of their width.

  \<^bigskip>
  \<^bold>\<open>The theories, and the code they model.\<close>
  \<^item> \<^verbatim>\<open>Prelude\<close>: faults, the two monads, their rules (\<^verbatim>\<open>valid\<close> for results, \<^verbatim>\<open>safe\<close> for the absence of
    every fault but an exception, \<^verbatim>\<open>frames\<close> for what a step leaves alone) and the locale
    \<^verbatim>\<open>step_relation\<close>, whose frame rules every component instantiates; little-endian bytes.
  \<^item> \<^verbatim>\<open>Isa_Desc\<close>: the enumerations, bit-field structures and the two tables of \<^verbatim>\<open>isa_desc.h\<close> and
    \<^verbatim>\<open>isa_desc.cpp\<close>. \<^verbatim>\<open>Ir\<close>: the class \<^verbatim>\<open>ir::Inst\<close>, its accessors with their assertions, its text.
  \<^item> \<^verbatim>\<open>Decoder\<close>: the constructor that inverts the tables, \<^verbatim>\<open>getCmd\<close>, \<^verbatim>\<open>decode\<close>.
    \<^verbatim>\<open>Decoder_Correct\<close>: an encoder written from the instruction formats, and that the decoder is its
    exact inverse and rejects every other word with an exception.
  \<^item> \<^verbatim>\<open>Options\<close>: \<^verbatim>\<open>options.*\<close>, \<^verbatim>\<open>options_list.h\<close>, \<^verbatim>\<open>stats.*\<close>, \<^verbatim>\<open>stats_list.h\<close>; the help text; every
    setting of the options has a command line.
  \<^item> \<^verbatim>\<open>Robin_Hood\<close>: the flat hash map \<^verbatim>\<open>robin_hood::unordered_flat_map\<close> (\<^verbatim>\<open>detail::Table\<close> of
    \<^verbatim>\<open>robin_hood.h\<close>) with its info bytes, multiplier and growth, and its hash functions.
    \<^verbatim>\<open>Robin_Hood_Slots\<close>: the invariant of the probe sequences. \<^verbatim>\<open>Robin_Hood_Correct\<close>: each operation
    keeps it and acts on the map it stands for. \<^verbatim>\<open>Robin_Hood_Iter\<close>: iterators, which meet every element
    once, also when elements are removed on the way; comparison, copies and moves. \<^verbatim>\<open>Robin_Hood_Members\<close>: the
    members that the program itself does not call. \<^verbatim>\<open>Requests\<close>: the locale of stores that answer a
    sequence of requests. \<^verbatim>\<open>Robin_Hood_Map\<close>: the table is such a store, and when it is exhausted.
  \<^item> \<^verbatim>\<open>LRU_Cache\<close>: the class template \<^verbatim>\<open>LRUCache\<close>, with the list, the hash map of iterators and the counter. The trace
    cache and both TLBs are caches of this theory. \<^verbatim>\<open>LRU_Map\<close>: the reference it is proved against, a cache on a finite
    map that refines an association list, most recent first, and the locale \<^verbatim>\<open>cache\<close>, the interface that
    the MMU and the simulator rely on. A request does what the reference does or throws \<^verbatim>\<open>std::overflow_error\<close>, which
    takes more than 126 different keys since the cache was new.
  \<^item> \<^verbatim>\<open>Pool\<close>: the allocator \<^verbatim>\<open>BulkPoolAllocator\<close> and the nodes of the node form, over a heap of words, objects and blocks;
    \<^verbatim>\<open>Pool_Correct\<close>: its lists hold every cell of its blocks exactly once, free or in use; \<^verbatim>\<open>Pool_Nodes\<close>: the nodes are a store in
    the sense of \<^verbatim>\<open>Requests\<close>, with a list of values for its specification (\<^verbatim>\<open>nodes_refine_values\<close>). The loop of \<^verbatim>\<open>reset\<close> has as much fuel as there
    are blocks, the one that counts them 16384 iterations, more than the doublings of a number up to that; both are proved to suffice.
    \<^verbatim>\<open>Hash_Bytes\<close>: the hash of strings; two strings of one length that differ in a single aligned block of eight bytes never collide.
  \<^item> \<^verbatim>\<open>Mmu\<close>, \<^verbatim>\<open>Mmu_Correct\<close>, \<^verbatim>\<open>Sv32\<close>: the class \<^verbatim>\<open>MMU\<close>; the soundness of the TLBs is an invariant,
    accesses stay inside the memory, a load reads what a store wrote, and the page-table walk is
    compared with the Sv32 walk of the privileged architecture.
  \<^item> \<^verbatim>\<open>Machine\<close>: \<^verbatim>\<open>sim::State\<close>, as one record with the static members. \<^verbatim>\<open>Syscall\<close>: \<^verbatim>\<open>syscall.cpp\<close>.
    \<^verbatim>\<open>Syscall_Correct\<close>: what \<^verbatim>\<open>read\<close> and \<^verbatim>\<open>write\<close> move between the memory and the standard streams.
    \<^verbatim>\<open>Exec_Inst\<close>: all handlers of \<^verbatim>\<open>exec_inst.cpp\<close> and the chain of their tail calls.
  \<^item> \<^verbatim>\<open>Isa_Spec\<close>: RV32IM as a step function, written from the architecture. \<^verbatim>\<open>Exec_Correct\<close>: each
    handler and the whole chain refine it. \<^verbatim>\<open>Exec_Safe\<close>: the chain fails with exceptions only and
    keeps the invariant of registers and TLBs; the places where a handler and the architecture
    differ.
  \<^item> \<^verbatim>\<open>Asm\<close>, \<^verbatim>\<open>Jit\<close>, \<^verbatim>\<open>Translate_Inst\<close>: the operands and instructions handed to asmjit, the translator with
    its register allocator and liveness, and all functions of \<^verbatim>\<open>translate_inst.cpp\<close>. \<^verbatim>\<open>Jit_Correct\<close>:
    the liveness analysis, the invariant of the allocator, and that a translation never fails.
  \<^item> \<^verbatim>\<open>X86\<close>: what the emitted instructions do on the host, written from the processor's manual. \<^verbatim>\<open>Emitted_Code\<close>:
    the locale \<^verbatim>\<open>assembler\<close>, and triples for functions of the translator that relate the
    translator's state and the host's when the emitted code runs; code may fall through or go back to its start.
    \<^verbatim>\<open>Jit_Places\<close>, \<^verbatim>\<open>Jit_Templates\<close>, \<^verbatim>\<open>Jit_Memory\<close>, \<^verbatim>\<open>Jit_Steps\<close>: the places of the guest registers, and the code of
    every template and every instruction. \<^verbatim>\<open>Jit_Alloc\<close>: the code of the register allocator keeps all
    values. \<^verbatim>\<open>Jit_Refines\<close>, \<^verbatim>\<open>Jit_Jumps\<close>, \<^verbatim>\<open>Jit_Branches\<close>: an instruction, a jump, a branch carry out their step.
    \<^verbatim>\<open>Jit_Trace\<close>, \<^verbatim>\<open>Jit_Runs\<close>: one instruction with its allocation, the whole trace and its repetition.
    \<^verbatim>\<open>Native_Code\<close>: the translated trace against the instruction set and the interpreter, and where it differs.
  \<^item> \<^verbatim>\<open>Simulator\<close>, \<^verbatim>\<open>Simulator_Correct\<close>: \<^verbatim>\<open>Trace\<close>, \<^verbatim>\<open>TraceCache\<close> and \<^verbatim>\<open>Sim\<close>; traces are what the memory
    holds, the loops end, every round makes progress (the locale \<^verbatim>\<open>executor\<close>).
  \<^item> \<^verbatim>\<open>Environment\<close>: the machine of the instruction set with a program and its environment: what the
    system calls promise, and the outcome of a number of instructions. \<^verbatim>\<open>Exec_Environment\<close>: every system call,
    and a chain of handlers with system calls in it, does what the environment says. \<^verbatim>\<open>User_Program\<close>: what is asked of a
    program; fetching and the trace cache deliver its traces. \<^verbatim>\<open>User_Refinement\<close>: a round of the
    main loop, interpreted or native, and the loop from the loaded state to its end follow the machine.
    \<^verbatim>\<open>Refinement\<close>, \<^verbatim>\<open>Native_Refinement\<close>: programs without system calls, in the terms of the instruction set alone;
    a host that runs the emitted code as \<^verbatim>\<open>X86\<close> says. \<^verbatim>\<open>Echo_Program\<close>: a program with system calls, as an example.
  \<^item> \<^verbatim>\<open>Elf_Reader\<close>: \<^verbatim>\<open>elf_reader.*\<close>. \<^verbatim>\<open>Program\<close>: \<^verbatim>\<open>main.cpp\<close>, with the log it opens and closes; how a run
    ends, and that the options for the sizes have no effect. \<^verbatim>\<open>Program_Refines\<close>: the whole program, from the command
    line to the last line of the log, against the machine with its environment; a program that exits is seen to exit.
    The trace cache has 256 entries whatever the options say, so that a guest that enters many traces can overflow its hash
    map (\<^verbatim>\<open>default_cache_overflows\<close>): the theorems of this group say what the run leaves behind then, and that a run
    that has entered at most 126 different traces does not end like this.

  \<^bigskip>
  \<^bold>\<open>Fuel.\<close> Two loops of the program can run for ever. The fetch loop has a bound \<^verbatim>\<open>fuel\<close>;
  without address translation as many iterations as the memory has words are enough
  (\<^verbatim>\<open>fetch_terminates\<close>), because the address grows until it leaves the memory. The main loop has a bound
  \<^verbatim>\<open>n\<close>; the limit of instructions is enough (\<^verbatim>\<open>program_ends\<close>), because every round executes
  at least one instruction, and so is the number of instructions after which the program exits (\<^verbatim>\<open>program_exits\<close>). The insertion into the hash map retries after a growth with no bound in the
  code; the model allows four rounds, and \<^verbatim>\<open>doInsert_spec\<close> shows that they are enough. The emitted code
  runs on fuel as well: \<^verbatim>\<open>native_code_refines_isa\<close> shows that some fuel is enough, \<^verbatim>\<open>native_loop_never_returns\<close> that for
  an endless loop none is. All other loops of the program are bounded by their counters.

  \<^bigskip>
  \<^bold>\<open>Parameters.\<close> Code that is not in the repository is a parameter: \<^verbatim>\<open>Jit_Env\<close> (whether asmjit
  accepts the emitted code, and what running it does), \<^verbatim>\<open>Elf_Env\<close> (libelf and the file calls), and \<^verbatim>\<open>Host\<close>
  (\<^verbatim>\<open>gettimeofday\<close>, whether \<^verbatim>\<open>fopen\<close> succeeds, and the result of the C++ shifts by 32 bits and more, which the
  language leaves undefined). What remains in the code of an instruction that asmjit refuses is a parameter of the runs of emitted
  code, with the law of the locale \<^verbatim>\<open>assembler\<close>: nothing does, because the translator ignores the error; so is the
  address of the guest memory in the host. \<^verbatim>\<open>User_Refinement\<close> relates \<^verbatim>\<open>Jit_Env\<close> to these runs by the law \<^verbatim>\<open>runs_native\<close>,
  and \<^verbatim>\<open>Native_Refinement\<close> gives a host that satisfies it.

  \<^bigskip>
  \<^bold>\<open>Not modelled.\<close> The texts that \<^verbatim>\<open>-verbose\<close>, \<^verbatim>\<open>-execution-log\<close> and \<^verbatim>\<open>-jit-log\<close> write while the program
  runs, and the messages of the ELF reader (plain output); the table of the node form of the hash map,
  its sets and the hash functions that only wrap those for integers and bytes, which the program does not use;
  the vectors and lists of the standard library, which appear as lists; the wall-clock time; the guest programs under \<^verbatim>\<open>src/tests\<close>.
\<close>

end
